(* ===== verification/Djon_Prelude.thy ===== *)
theory Djon_Prelude
  imports Main "HOL-Library.Word" "HOL-Library.Char_ord" "HOL-Library.List_Lexorder"
begin

text \<open>
  Shared vocabulary of the development: the machine types of util/defs.h, the outcomes of a
  C++ call (a value, an exception, an abort, undefined behaviour), readers over the rest of a
  byte stream, and little-endian integers and strings. The interface of a codec, a writer and
  the reader that inverts it, is stated as a locale.
\<close>

section \<open>Machine types and outcomes\<close>

type_synonym byte = char
type_synonym int32 = "32 word"
type_synonym int64 = "64 word"

datatype cxx_error =
    Bson_exception string
  | Parse_exception nat string
  | Thrown string
  | Djondb_exception nat string
  | Out_of_range
  | Assertion_failed
  | Terminated
  | Past_end
  | Undefined_behaviour
  | No_fuel

type_synonym 'a res = "cxx_error + 'a"

type_synonym 'a reader = "byte list \<Rightarrow> ('a \<times> byte list) res"

definition bindR :: "'a res \<Rightarrow> ('a \<Rightarrow> 'b res) \<Rightarrow> 'b res" where
  "bindR m f = (case m of Inl e \<Rightarrow> Inl e | Inr x \<Rightarrow> f x)"

lemma bindR_simps [simp]:
  "bindR (Inl e) f = Inl e"
  "bindR (Inr x) f = f x"
  by (simp_all add: bindR_def)

lemma bindR_Inr_iff: "bindR m f = Inr y \<longleftrightarrow> (\<exists>x. m = Inr x \<and> f x = Inr y)"
  by (cases m) auto

lemma bindR_Inl_iff: "bindR m f = Inl e \<longleftrightarrow> m = Inl e \<or> (\<exists>x. m = Inr x \<and> f x = Inl e)"
  by (cases m) auto

lemma bindR_cong [fundef_cong]:
  "m = m' \<Longrightarrow> (\<And>x. m' = Inr x \<Longrightarrow> f x = f' x) \<Longrightarrow> bindR m f = bindR m' f'"
  by (cases m') auto

lemma bindR_assoc: "bindR (bindR r f) g = bindR r (\<lambda>x. bindR (f x) g)"
  by (simp add: bindR_def split: sum.splits)

fun mapR :: "('a \<Rightarrow> 'b res) \<Rightarrow> 'a list \<Rightarrow> 'b list res" where
  "mapR f [] = Inr []"
| "mapR f (x # xs) = bindR (f x) (\<lambda>y. bindR (mapR f xs) (\<lambda>ys. Inr (y # ys)))"

lemma mapR_cong [fundef_cong]:
  "xs = ys \<Longrightarrow> (\<And>x. x \<in> set ys \<Longrightarrow> f x = g x) \<Longrightarrow> mapR f xs = mapR g ys"
  by (induction ys arbitrary: xs) auto

lemma mapR_Inr: "(\<And>x. x \<in> set xs \<Longrightarrow> f x = Inr (g x)) \<Longrightarrow> mapR f xs = Inr (map g xs)"
  by (induction xs) auto

lemma takeWhile_stop:
  "\<forall>a\<in>set xs. P a \<Longrightarrow> \<not> P c \<Longrightarrow> takeWhile P (xs @ c # ys) = xs"
  by (induction xs) auto

lemma takeWhile_absent: "c \<notin> set s \<Longrightarrow> takeWhile (\<lambda>x. x \<noteq> c) s = s"
  by (induction s) auto

lemma dropWhile_stop:
  "\<forall>a\<in>set xs. P a \<Longrightarrow> \<not> P c \<Longrightarrow> dropWhile P (xs @ c # ys) = c # ys"
  by (induction xs) auto

section \<open>Readers\<close>

definition rreturn :: "'a \<Rightarrow> 'a reader" where
  "rreturn x = (\<lambda>s. Inr (x, s))"

definition rfail :: "cxx_error \<Rightarrow> 'a reader" where
  "rfail e = (\<lambda>s. Inl e)"

definition rbind :: "'a reader \<Rightarrow> ('a \<Rightarrow> 'b reader) \<Rightarrow> 'b reader" where
  "rbind m f = (\<lambda>s. bindR (m s) (\<lambda>(x, s'). f x s'))"

definition rlift :: "'a res \<Rightarrow> 'a reader" where
  "rlift m = (\<lambda>s. bindR m (\<lambda>x. Inr (x, s)))"

named_theorems reader_defs "the reader combinators"
declare rreturn_def [reader_defs] rfail_def [reader_defs] rbind_def [reader_defs]
  rlift_def [reader_defs]

lemma rbind_Inr: "m s = Inr (x, s') \<Longrightarrow> rbind m f s = f x s'"
  by (simp add: rbind_def)

text \<open>A counted loop whose body reads from the stream and updates an accumulator.\<close>

primrec rloop :: "nat \<Rightarrow> ('a \<Rightarrow> 'a reader) \<Rightarrow> 'a \<Rightarrow> 'a reader" where
  "rloop 0 body a = rreturn a"
| "rloop (Suc n) body a = rbind (body a) (rloop n body)"

lemma rloop_cong_inputs:
  assumes "\<And>a s. length s \<le> l \<Longrightarrow> f a s = g a s"
    and "\<And>a s b s'. f a s = Inr (b, s') \<Longrightarrow> length s' \<le> length s"
  shows "length s \<le> l \<Longrightarrow> rloop n f a s = rloop n g a s"
proof (induction n arbitrary: a s)
  case 0
  show ?case by simp
next
  case (Suc n)
  have eq: "g a s = f a s" using assms(1) Suc.prems by simp
  show ?case
  proof (cases "f a s")
    case (Inl e)
    then show ?thesis by (simp add: rbind_def eq)
  next
    case (Inr p)
    obtain b s' where p: "p = (b, s')" by (cases p)
    with Inr assms(2) Suc.prems have "length s' \<le> l" by (meson le_trans)
    from Suc.IH [OF this] Inr p show ?thesis by (simp add: rbind_def eq)
  qed
qed

lemma rloop_shrinks:
  assumes "\<And>a s b s'. f a s = Inr (b, s') \<Longrightarrow> length s' \<le> length s"
  shows "rloop n f a s = Inr (b, s') \<Longrightarrow> length s' \<le> length s"
proof (induction n arbitrary: a s)
  case 0
  then show ?case by (simp add: rreturn_def)
next
  case (Suc n)
  from Suc.prems obtain c t where "f a s = Inr (c, t)" and "rloop n f c t = Inr (b, s')"
    by (auto simp: rbind_def bindR_Inr_iff)
  with assms Suc.IH show ?case by (meson le_trans)
qed

lemma rloop_Inl:
  assumes "\<And>a s b s'. f a s = Inr (b, s') \<Longrightarrow> length s' \<le> length s"
  shows "rloop n f a s = Inl e \<Longrightarrow> \<exists>a' s'. length s' \<le> length s \<and> f a' s' = Inl e"
proof (induction n arbitrary: a s)
  case 0
  then show ?case by (simp add: rreturn_def)
next
  case (Suc n)
  from Suc.prems consider "f a s = Inl e"
    | b t where "f a s = Inr (b, t)" "rloop n f b t = Inl e"
    by (auto simp: rbind_def bindR_Inl_iff)
  then show ?case
  proof cases
    case 1
    then show ?thesis by auto
  next
    case 2
    from assms [OF 2(1)] Suc.IH [OF 2(2)] show ?thesis by (meson le_trans)
  qed
qed

section \<open>Little-endian integers and strings on a stream\<close>

text \<open>
  OutputStream::writeData sends the bytes of a value from the lowest address up; on the
  little-endian machines the format is defined for, that is the least significant byte first.
  InputStream::readData collects them again.
\<close>

primrec le_bytes :: "nat \<Rightarrow> nat \<Rightarrow> byte list" where
  "le_bytes 0 v = []"
| "le_bytes (Suc n) v = char_of v # le_bytes n (v div 256)"

fun le_value :: "byte list \<Rightarrow> nat" where
  "le_value [] = 0"
| "le_value (c # cs) = of_char c + 256 * le_value cs"

lemma length_le_bytes [simp]: "length (le_bytes n v) = n"
  by (induction n arbitrary: v) auto

lemma le_bytes_Nil_iff [simp]: "le_bytes n v = [] \<longleftrightarrow> n = 0"
  by (cases n) auto

lemma le_value_le_bytes [simp]: "le_value (le_bytes n v) = v mod 256 ^ n"
  by (induction n arbitrary: v) (simp_all add: mod_mult2_eq)

lemma le_value_bound: "le_value bs < 256 ^ length bs"
proof (induction bs)
  case Nil
  show ?case by simp
next
  case (Cons c cs)
  have "of_char c < (256::nat)"
    using of_char_mod_256 [of c, where ?'a = nat] by (metis mod_less_divisor zero_less_numeral)
  with Cons.IH have "of_char c + 256 * le_value cs < 256 + 256 * (256 ^ length cs - 1)"
    by (intro add_less_le_mono) simp_all
  then show ?case by (simp add: algebra_simps)
qed

definition read_raw :: "nat \<Rightarrow> byte list reader" where
  "read_raw n = (\<lambda>s. if n \<le> length s then Inr (take n s, drop n s) else Inl Past_end)"

definition skip :: "nat \<Rightarrow> unit reader" where
  "skip n = (\<lambda>s. Inr ((), drop n s))"

lemma read_raw_append [simp]: "length xs = n \<Longrightarrow> read_raw n (xs @ r) = Inr (xs, r)"
  by (simp add: read_raw_def)

lemma skip_append [simp]: "length xs = n \<Longrightarrow> skip n (xs @ r) = Inr ((), r)"
  by (simp add: skip_def)

lemma read_raw_Inr: "read_raw n s = Inr (x, s') \<longleftrightarrow> s = x @ s' \<and> length x = n"
  by (auto simp: read_raw_def)

definition write_int :: "int32 \<Rightarrow> byte list" where
  "write_int v = le_bytes 4 (unat v)"

definition read_int :: "int32 reader" where
  "read_int = rbind (read_raw 4) (\<lambda>bs. rreturn (of_nat (le_value bs)))"

definition write_long :: "int64 \<Rightarrow> byte list" where
  "write_long v = le_bytes 8 (unat v)"

definition read_long :: "int64 reader" where
  "read_long = rbind (read_raw 8) (\<lambda>bs. rreturn (of_nat (le_value bs)))"

definition write_boolean :: "bool \<Rightarrow> byte list" where
  "write_boolean b = [char_of (if b then 1 else 0 :: nat)]"

definition read_boolean :: "bool reader" where
  "read_boolean = rbind (read_raw 1) (\<lambda>bs. rreturn (le_value bs \<noteq> 0))"

text \<open>A double is its IEEE 754 bit pattern; the streams copy its eight bytes.\<close>

definition write_double :: "int64 \<Rightarrow> byte list" where
  "write_double d = le_bytes 8 (unat d)"

definition read_double :: "int64 reader" where
  "read_double = rbind (read_raw 8) (\<lambda>bs. rreturn (of_nat (le_value bs)))"

text \<open>A C string ends at its first null byte.\<close>

definition c_str :: "string \<Rightarrow> string" where
  "c_str s = takeWhile (\<lambda>c. c \<noteq> CHR 0x00) s"

definition no_nul :: "string \<Rightarrow> bool" where
  "no_nul s \<longleftrightarrow> CHR 0x00 \<notin> set s"

definition int32_size :: "nat \<Rightarrow> bool" where
  "int32_size n \<longleftrightarrow> n < 2 ^ 31"

definition write_chars :: "string \<Rightarrow> byte list" where
  "write_chars s = write_int (of_nat (length s)) @ s"

definition read_chars :: "string reader" where
  "read_chars = rbind read_int (\<lambda>l.
     if sint l < 0 then rfail Undefined_behaviour else read_raw (nat (sint l)))"

lemma length_write_chars: "length (write_chars s) = 4 + length s"
  by (simp add: write_chars_def write_int_def)

definition write_string :: "string \<Rightarrow> byte list" where
  "write_string s = write_chars (c_str s)"

definition read_string :: "string reader" where
  "read_string = rbind read_chars (\<lambda>s. rreturn (c_str s))"

named_theorems stream_defs "the primitive stream operations"
declare read_int_def [stream_defs] read_long_def [stream_defs] read_boolean_def [stream_defs]
  read_double_def [stream_defs] read_chars_def [stream_defs] read_string_def [stream_defs]

lemma c_str_no_nul [simp]: "no_nul s \<Longrightarrow> c_str s = s"
  by (auto simp: c_str_def no_nul_def takeWhile_eq_all_conv)

lemma no_nul_c_str [simp]: "no_nul (c_str s)"
  by (auto simp: c_str_def no_nul_def dest: set_takeWhileD)

lemma c_str_idem [simp]: "c_str (c_str s) = c_str s"
  by simp

lemma length_c_str: "length (c_str s) \<le> length s"
  by (simp add: c_str_def length_takeWhile_le)

lemma read_write_int [simp]: "read_int (write_int v @ r) = Inr (v, r)"
  using unsigned_less [of v, where ?'a = nat]
  by (simp add: read_int_def write_int_def rbind_def rreturn_def)

lemma read_write_long [simp]: "read_long (write_long v @ r) = Inr (v, r)"
  using unsigned_less [of v, where ?'a = nat]
  by (simp add: read_long_def write_long_def rbind_def rreturn_def)

lemma read_write_double [simp]: "read_double (write_double v @ r) = Inr (v, r)"
  using unsigned_less [of v, where ?'a = nat]
  by (simp add: read_double_def write_double_def rbind_def rreturn_def)

lemma read_write_boolean [simp]: "read_boolean (write_boolean b @ r) = Inr (b, r)"
  by (simp add: read_boolean_def write_boolean_def rbind_def rreturn_def read_raw_def)

lemma read_write_chars [simp]:
  "int32_size (length s) \<Longrightarrow> read_chars (write_chars s @ r) = Inr (s, r)"
proof -
  assume small: "int32_size (length s)"
  then have "sint (of_nat (length s) :: int32) = int (length s)"
    by (simp add: int32_size_def signed_of_nat signed_take_bit_int_eq_self)
  then show ?thesis by (simp add: read_chars_def write_chars_def rbind_Inr)
qed

lemma read_write_string [simp]:
  "int32_size (length (c_str s)) \<Longrightarrow> read_string (write_string s @ r) = Inr (c_str s, r)"
  by (simp add: read_string_def write_string_def rbind_Inr rreturn_def)

text \<open>Every primitive read moves forward.\<close>

lemma read_int_Inr: "read_int s = Inr (v, s') \<Longrightarrow> length s = 4 + length s'"
  by (auto simp: read_int_def reader_defs bindR_Inr_iff read_raw_Inr)

lemma read_long_Inr: "read_long s = Inr (v, s') \<Longrightarrow> length s = 8 + length s'"
  by (auto simp: read_long_def reader_defs bindR_Inr_iff read_raw_Inr)

lemma read_double_Inr: "read_double s = Inr (v, s') \<Longrightarrow> length s = 8 + length s'"
  by (auto simp: read_double_def reader_defs bindR_Inr_iff read_raw_Inr)

lemma read_boolean_Inr: "read_boolean s = Inr (v, s') \<Longrightarrow> length s = 1 + length s'"
  by (auto simp: read_boolean_def reader_defs bindR_Inr_iff read_raw_Inr)

lemma read_chars_Inr: "read_chars s = Inr (v, s') \<Longrightarrow> length s = 4 + length v + length s'"
  by (auto simp: read_chars_def reader_defs bindR_Inr_iff read_raw_Inr dest!: read_int_Inr
      split: if_splits)

lemma read_string_Inr: "read_string s = Inr (v, s') \<Longrightarrow> length s' + 4 \<le> length s"
  by (auto simp: read_string_def reader_defs bindR_Inr_iff dest!: read_chars_Inr)

lemma skip_Inr: "skip n s = Inr (u, s') \<Longrightarrow> length s' \<le> length s"
  by (auto simp: skip_def)

lemmas reads_shrink = read_int_Inr read_long_Inr read_double_Inr read_boolean_Inr
  read_chars_Inr read_string_Inr skip_Inr

section \<open>The codec interface\<close>

text \<open>
  What every client of a wire format relies on: the reader returns exactly the value that was
  written and leaves the rest of the stream untouched.
\<close>

locale codec =
  fixes enc :: "'a \<Rightarrow> byte list"
    and dec :: "'a reader"
    and wf :: "'a \<Rightarrow> bool"
  assumes dec_enc: "wf x \<Longrightarrow> dec (enc x @ rest) = Inr (x, rest)"
begin

lemma enc_prefix_free:
  assumes "wf x" "wf y" "enc x @ r = enc y @ r'"
  shows "x = y" "r = r'"
proof -
  have "Inr (x, r) = dec (enc x @ r)" by (rule dec_enc [OF assms(1), symmetric])
  also have "\<dots> = Inr (y, r')" unfolding assms(3) by (rule dec_enc [OF assms(2)])
  finally show "x = y" "r = r'" by simp_all
qed

lemma enc_inj: "inj_on enc {x. wf x}"
proof (rule inj_onI)
  fix x y
  assume "x \<in> {x. wf x}" "y \<in> {x. wf x}" "enc x = enc y"
  then have "wf x" "wf y" "enc x @ [] = enc y @ []" by simp_all
  then show "x = y" by (rule enc_prefix_free)
qed

text \<open>A counted sequence of records is read back in order.\<close>

lemma dec_many:
  "\<forall>x\<in>set xs. wf x \<Longrightarrow>
   rloop (length xs) (\<lambda>acc. rbind dec (\<lambda>x. rreturn (acc @ [x]))) acc
     (concat (map enc xs) @ rest) = Inr (acc @ xs, rest)"
proof (induction xs arbitrary: acc)
  case Nil
  show ?case by (simp add: rreturn_def)
next
  case (Cons x xs)
  then have wfx: "wf x" and ih: "rloop (length xs) (\<lambda>acc. rbind dec (\<lambda>x. rreturn (acc @ [x])))
      (acc @ [x]) (concat (map enc xs) @ rest) = Inr ((acc @ [x]) @ xs, rest)"
    by simp_all
  have "rbind dec (\<lambda>x. rreturn (acc @ [x])) (enc x @ concat (map enc xs) @ rest) =
      Inr (acc @ [x], concat (map enc xs) @ rest)"
    by (simp add: rbind_def dec_enc [OF wfx] rreturn_def)
  with ih show ?case by (simp add: rbind_Inr)
qed

end

text \<open>A codec whose values never have an empty encoding, so a log of them ends only at its end.\<close>

locale record_codec = codec +
  assumes enc_nonempty: "wf x \<Longrightarrow> enc x \<noteq> []"
begin

lemma distinct_logs:
  "\<forall>x\<in>set xs. wf x \<Longrightarrow> \<forall>y\<in>set ys. wf y \<Longrightarrow>
   concat (map enc xs) = concat (map enc ys) \<Longrightarrow> xs = ys"
proof (induction xs arbitrary: ys)
  case Nil
  show ?case
  proof (cases ys)
    case (Cons y ys')
    with Nil have "enc y = []" "wf y" by auto
    with enc_nonempty show ?thesis by blast
  qed simp
next
  case (Cons x xs)
  show ?case
  proof (cases ys)
    case Nil
    with Cons.prems enc_nonempty [of x] show ?thesis by simp
  next
    case (Cons y ys')
    with Cons.prems(3) have eq: "enc x @ concat (map enc xs) = enc y @ concat (map enc ys')"
      by simp
    have wfs: "wf x" "wf y" using Cons Cons.prems(1,2) by auto
    note parts = enc_prefix_free [OF wfs eq]
    with Cons Cons.prems Cons.IH [of ys'] show ?thesis by simp
  qed
qed

end

lemma write_nonempty [simp]:
  "write_int v \<noteq> []" "write_long w \<noteq> []" "write_double d \<noteq> []" "write_boolean b \<noteq> []"
  "write_chars s \<noteq> []" "write_string s \<noteq> []"
  by (simp_all add: write_int_def write_long_def write_double_def write_boolean_def
      write_chars_def write_string_def)

interpretation int_codec: record_codec write_int read_int "\<lambda>_. True"
  by unfold_locales simp_all

interpretation long_codec: record_codec write_long read_long "\<lambda>_. True"
  by unfold_locales simp_all

interpretation double_codec: record_codec write_double read_double "\<lambda>_. True"
  by unfold_locales simp_all

interpretation boolean_codec: record_codec write_boolean read_boolean "\<lambda>_. True"
  by unfold_locales simp_all

interpretation chars_codec: record_codec write_chars read_chars "\<lambda>s. int32_size (length s)"
  by unfold_locales simp_all

interpretation string_codec:
  record_codec write_string read_string "\<lambda>s. no_nul s \<and> int32_size (length s)"
  by unfold_locales simp_all

end
