(* ===== verification/Circular_Queue.thy ===== *)
theory Circular_Queue
  imports Djon_Prelude
begin

text \<open>
  The queue of util/circular_queue.h: a ring of elements that are linked in both directions, with a greatest
  size and an element that next and previous move around the ring. The elements live in a heap.
  The operations refine those of a list with a position in it.
\<close>

section \<open>The heap\<close>

record 'a element =
  el_value :: 'a
  el_next :: "nat option"
  el_previous :: "nat option"

text \<open>
  A queue with the elements it has allocated, and the next address. The sizes are not bounded, while the
  int of the code would overflow with 2^31 elements.
\<close>

record 'a ring_queue =
  rq_heap :: "nat \<rightharpoonup> 'a element"
  rq_free :: nat
  rq_maxSize :: int
  rq_size :: int
  rq_last :: "nat option"
  rq_first :: "nat option"
  rq_current :: "nat option"

text \<open>What a null pointer or a pointer to a deleted element gives is undefined.\<close>

definition element_at :: "nat option \<Rightarrow> 'a ring_queue \<Rightarrow> 'a element res" where
  "element_at p q = (case p of None \<Rightarrow> Inl Undefined_behaviour
     | Some a \<Rightarrow> (case rq_heap q a of None \<Rightarrow> Inl Undefined_behaviour | Some e \<Rightarrow> Inr e))"

definition set_element :: "('a element \<Rightarrow> 'a element) \<Rightarrow> nat option \<Rightarrow> 'a ring_queue \<Rightarrow> 'a ring_queue res" where
  "set_element f p q = bindR (element_at p q) (\<lambda>e. Inr (q\<lparr>rq_heap := (rq_heap q)(the p \<mapsto> f e)\<rparr>))"

definition setNext :: "nat option \<Rightarrow> nat option \<Rightarrow> 'a ring_queue \<Rightarrow> 'a ring_queue res" where
  "setNext p n = set_element (\<lambda>e. e\<lparr>el_next := n\<rparr>) p"

definition setPrevious :: "nat option \<Rightarrow> nat option \<Rightarrow> 'a ring_queue \<Rightarrow> 'a ring_queue res" where
  "setPrevious p n = set_element (\<lambda>e. e\<lparr>el_previous := n\<rparr>) p"

definition new_element :: "'a \<Rightarrow> 'a ring_queue \<Rightarrow> nat \<times> 'a ring_queue" where
  "new_element val q = (rq_free q,
     q\<lparr>rq_heap := (rq_heap q)(rq_free q \<mapsto> \<lparr>el_value = val, el_next = None, el_previous = None\<rparr>), rq_free := Suc (rq_free q)\<rparr>)"

definition delete_element :: "nat option \<Rightarrow> 'a ring_queue \<Rightarrow> 'a ring_queue" where
  "delete_element p q = (case p of None \<Rightarrow> q | Some a \<Rightarrow> q\<lparr>rq_heap := (rq_heap q)(a := None)\<rparr>)"

section \<open>The operations\<close>

text \<open>A queue without a greatest size has the size -1.\<close>

definition new_queue :: "int \<Rightarrow> 'a ring_queue" where
  "new_queue n = \<lparr>rq_heap = (\<lambda>_. None), rq_free = 0, rq_maxSize = n, rq_size = 0, rq_last = None,
     rq_first = None, rq_current = None\<rparr>"

definition empty_ring :: "'a ring_queue \<Rightarrow> 'a ring_queue" where
  "empty_ring q = q\<lparr>rq_last := None, rq_first := None, rq_current := None\<rparr>"

text \<open>The end of both pops: the element goes, the current one is the last.\<close>

definition pop_end :: "nat option \<Rightarrow> 'a \<Rightarrow> 'a ring_queue \<Rightarrow> ('a \<times> 'a ring_queue) res" where
  "pop_end result val q = (let q = delete_element result q in
     Inr (val, q\<lparr>rq_current := rq_last q, rq_size := rq_size q - 1\<rparr>))"

definition pop_back :: "'a ring_queue \<Rightarrow> ('a \<times> 'a ring_queue) res" where
  "pop_back q =
     bindR (element_at (rq_last q) q) (\<lambda>result.
     bindR (if rq_size q = 1 then Inr (empty_ring q)
       else if rq_size q > 1 then
         (let p = q\<lparr>rq_last := el_previous result\<rparr> in
          bindR (setNext (rq_last p) (rq_first p) p) (\<lambda>p. setPrevious (rq_first p) (rq_last p) p))
       else Inr q) (\<lambda>p.
     pop_end (rq_last q) (el_value result) p))"

definition pop_front :: "'a ring_queue \<Rightarrow> ('a \<times> 'a ring_queue) res" where
  "pop_front q =
     bindR (element_at (rq_first q) q) (\<lambda>result.
     bindR (if rq_size q = 1 then Inr (empty_ring q)
       else if rq_size q > 1 then
         (let p = q\<lparr>rq_first := el_next result\<rparr> in
          bindR (setNext (rq_last p) (rq_first p) p) (\<lambda>p. setPrevious (rq_first p) (rq_last p) p))
       else Inr q) (\<lambda>p.
     pop_end (rq_first q) (el_value result) p))"

text \<open>The end of both pushes: an element at the other side goes when there are too many.\<close>

definition push_end :: "('a ring_queue \<Rightarrow> ('a \<times> 'a ring_queue) res) \<Rightarrow> 'a ring_queue \<Rightarrow> 'a ring_queue res" where
  "push_end pop q =
     (let q = q\<lparr>rq_size := rq_size q + 1\<rparr> in
      bindR (if rq_maxSize q > - 1 \<and> rq_size q > rq_maxSize q then bindR (pop q) (\<lambda>(_, q). Inr q) else Inr q) (\<lambda>q.
      Inr (q\<lparr>rq_current := rq_last q\<rparr>)))"

definition push_back :: "'a \<Rightarrow> 'a ring_queue \<Rightarrow> 'a ring_queue res" where
  "push_back val q =
     (let (element, q) = new_element val q;
          q = (if rq_last q = None then q\<lparr>rq_last := Some element\<rparr> else q) in
      bindR (setNext (rq_last q) (Some element) q) (\<lambda>q.
      bindR (setPrevious (Some element) (rq_last q) q) (\<lambda>q.
      let q = q\<lparr>rq_last := Some element\<rparr>;
          q = (if rq_first q = None then q\<lparr>rq_first := Some element\<rparr> else q) in
      bindR (setNext (rq_last q) (rq_first q) q) (\<lambda>q.
      bindR (setPrevious (rq_first q) (rq_last q) q) (\<lambda>q.
      push_end pop_front q)))))"

definition push_front :: "'a \<Rightarrow> 'a ring_queue \<Rightarrow> 'a ring_queue res" where
  "push_front val q =
     (let (element, q) = new_element val q;
          q = (if rq_first q = None then q\<lparr>rq_first := Some element\<rparr> else q) in
      bindR (setNext (Some element) (rq_first q) q) (\<lambda>q.
      bindR (setPrevious (rq_first q) (Some element) q) (\<lambda>q.
      let q = q\<lparr>rq_first := Some element\<rparr>;
          q = (if rq_last q = None then q\<lparr>rq_last := Some element\<rparr> else q) in
      bindR (setNext (rq_last q) (Some element) q) (\<lambda>q.
      bindR (setPrevious (rq_first q) (rq_last q) q) (\<lambda>q.
      push_end pop_back q)))))"

definition ring_next :: "'a ring_queue \<Rightarrow> ('a \<times> 'a ring_queue) res" where
  "ring_next q = bindR (element_at (rq_current q) q) (\<lambda>e.
     bindR (element_at (el_next e) q) (\<lambda>ret. Inr (el_value ret, q\<lparr>rq_current := el_next e\<rparr>)))"

definition ring_previous :: "'a ring_queue \<Rightarrow> ('a \<times> 'a ring_queue) res" where
  "ring_previous q = bindR (element_at (rq_current q) q) (\<lambda>e.
     bindR (element_at (el_previous e) q) (\<lambda>ret. Inr (el_value ret, q\<lparr>rq_current := el_previous e\<rparr>)))"

definition ring_reset :: "'a ring_queue \<Rightarrow> 'a ring_queue" where
  "ring_reset q = q\<lparr>rq_current := rq_last q\<rparr>"

text \<open>The current element of an empty queue: the function ends without a result.\<close>

definition ring_current :: "'a ring_queue \<Rightarrow> 'a res" where
  "ring_current q = bindR (element_at (rq_current q) q) (\<lambda>e. Inr (el_value e))"

section \<open>Rings\<close>

text \<open>
  A chain of elements with their values: behind the address p and in front of the address n.
\<close>

fun chain :: "(nat \<rightharpoonup> 'a element) \<Rightarrow> nat \<Rightarrow> (nat \<times> 'a) list \<Rightarrow> nat \<Rightarrow> bool" where
  "chain h p [] n \<longleftrightarrow> True"
| "chain h p ((a, x) # cs) n \<longleftrightarrow>
     h a = Some \<lparr>el_value = x, el_next = Some (if cs = [] then n else fst (hd cs)), el_previous = Some p\<rparr> \<and> chain h a cs n"

lemma chain_frame: "(\<And>a. a \<in> fst ` set cs \<Longrightarrow> h' a = h a) \<Longrightarrow> chain h' p cs n = chain h p cs n"
  by (induction cs arbitrary: p) auto

lemma chain_snoc:
  "chain h p (cs @ [(a, x)]) n \<longleftrightarrow> chain h p cs a \<and>
     h a = Some \<lparr>el_value = x, el_next = Some n, el_previous = Some (if cs = [] then p else fst (last cs))\<rparr>"
  by (induction cs arbitrary: p) (auto simp: hd_append)

lemma chain_set_next:
  assumes "chain h p cs n" "cs \<noteq> []" "distinct (map fst cs)"
  obtains e where "h (fst (last cs)) = Some e" "chain (h(fst (last cs) \<mapsto> e\<lparr>el_next := Some m\<rparr>)) p cs m"
proof -
  obtain ds a x where cs: "cs = ds @ [(a, x)]" using assms(2) by (metis rev_exhaust surj_pair)
  with assms(1) obtain e where e: "h a = Some e" "el_value e = x" "el_previous e = Some (if ds = [] then p else fst (last ds))"
    "chain h p ds a" by (auto simp: chain_snoc)
  have "chain (h(a \<mapsto> e\<lparr>el_next := Some m\<rparr>)) p ds a"
    using e(4) assms(3) cs by (subst chain_frame [where h = h]) auto
  with e cs that [of e] show ?thesis by (auto simp: chain_snoc)
qed

lemma chain_set_previous:
  assumes "chain h p cs n" "cs \<noteq> []" "distinct (map fst cs)"
  obtains e where "h (fst (hd cs)) = Some e" "chain (h(fst (hd cs) \<mapsto> e\<lparr>el_previous := Some m\<rparr>)) m cs n"
proof -
  obtain a x ds where cs: "cs = (a, x) # ds" using assms(2) by (metis list.exhaust surj_pair)
  with assms(1) obtain e where e: "h a = Some e" "el_value e = x" "el_next e = Some (if ds = [] then n else fst (hd ds))"
    "chain h a ds n" by auto
  have "chain (h(a \<mapsto> e\<lparr>el_previous := Some m\<rparr>)) a ds n"
    using e(4) assms(3) cs by (subst chain_frame [where h = h]) auto
  with e cs that [of e] show ?thesis by auto
qed

lemma chain_nth:
  "chain h p cs n \<Longrightarrow> i < length cs \<Longrightarrow> h (fst (cs ! i)) = Some \<lparr>el_value = snd (cs ! i),
     el_next = Some (if Suc i < length cs then fst (cs ! Suc i) else n),
     el_previous = Some (if i = 0 then p else fst (cs ! (i - 1)))\<rparr>"
proof (induction cs arbitrary: p i)
  case (Cons c cs)
  obtain a x where c: "c = (a, x)" by (cases c)
  show ?case
  proof (cases i)
    case 0
    with Cons.prems c show ?thesis by (auto simp: hd_conv_nth)
  next
    case (Suc j)
    with Cons.prems c Cons.IH [of a j] show ?thesis by (cases j) auto
  qed
qed simp

text \<open>The queue holds the elements cs, and the current one is the one at the position i.\<close>

definition linked :: "'a ring_queue \<Rightarrow> (nat \<times> 'a) list \<Rightarrow> bool" where
  "linked q cs \<longleftrightarrow> distinct (map fst cs) \<and> (\<forall>a\<in>fst ` set cs. a < rq_free q) \<and> rq_size q = int (length cs) \<and>
     (if cs = [] then rq_first q = None \<and> rq_last q = None
      else rq_first q = Some (fst (hd cs)) \<and> rq_last q = Some (fst (last cs)) \<and>
        chain (rq_heap q) (fst (last cs)) cs (fst (hd cs)))"

definition ring :: "'a ring_queue \<Rightarrow> (nat \<times> 'a) list \<Rightarrow> nat \<Rightarrow> bool" where
  "ring q cs i \<longleftrightarrow> linked q cs \<and>
     (if cs = [] then rq_current q = None \<and> i = 0 else i < length cs \<and> rq_current q = Some (fst (cs ! i)))"

lemma linked_current [simp]: "linked (q\<lparr>rq_current := c\<rparr>) cs = linked q cs"
  by (simp add: linked_def)

lemma ring_at_last: "linked q cs \<Longrightarrow> rq_current q = rq_last q \<Longrightarrow> ring q cs (length cs - 1)"
  by (auto simp: ring_def linked_def last_conv_nth)

text \<open>The steps of both pops that close the ring around the elements that stay.\<close>

lemma close_ring:
  assumes "chain (rq_heap q) p cs n" "cs \<noteq> []" "distinct (map fst cs)"
    and "rq_first q = Some (fst (hd cs))" "rq_last q = Some (fst (last cs))"
  obtains h where "bindR (setNext (rq_last q) (rq_first q) q) (\<lambda>p. setPrevious (rq_first p) (rq_last p) p) = Inr (q\<lparr>rq_heap := h\<rparr>)"
    "chain h (fst (last cs)) cs (fst (hd cs))"
proof -
  obtain e where e: "rq_heap q (fst (last cs)) = Some e"
    "chain ((rq_heap q)(fst (last cs) \<mapsto> e\<lparr>el_next := Some (fst (hd cs))\<rparr>)) p cs (fst (hd cs))"
    using chain_set_next [OF assms(1-3)] by metis
  let ?h = "(rq_heap q)(fst (last cs) \<mapsto> e\<lparr>el_next := Some (fst (hd cs))\<rparr>)"
  obtain d where d: "?h (fst (hd cs)) = Some d" "chain (?h(fst (hd cs) \<mapsto> d\<lparr>el_previous := Some (fst (last cs))\<rparr>)) (fst (last cs)) cs (fst (hd cs))"
    using chain_set_previous [OF e(2) assms(2,3)] by metis
  have "setNext (rq_last q) (rq_first q) q = Inr (q\<lparr>rq_heap := ?h\<rparr>)"
    using e(1) assms(4,5) by (simp add: setNext_def set_element_def element_at_def)
  moreover have "setPrevious (rq_first q) (rq_last q) (q\<lparr>rq_heap := ?h\<rparr>) = Inr (q\<lparr>rq_heap := ?h(fst (hd cs) \<mapsto> d\<lparr>el_previous := Some (fst (last cs))\<rparr>)\<rparr>)"
    using d(1) assms(4,5) by (simp add: setPrevious_def set_element_def element_at_def)
  ultimately show ?thesis using that [OF _ d(2)] by simp
qed

section \<open>Pops\<close>

lemma pop_end_ring:
  assumes "chain h (fst (last cs)) cs (fst (hd cs))" "linked q (c # cs) \<or> linked q (cs @ [c])" "cs \<noteq> []"
  obtains p where "pop_end (Some (fst c)) x (q\<lparr>rq_heap := h, rq_first := Some (fst (hd cs)), rq_last := Some (fst (last cs))\<rparr>) = Inr (x, p)"
    "ring p cs (length cs - 1)" "rq_maxSize p = rq_maxSize q"
proof -
  let ?p = "q\<lparr>rq_heap := h(fst c := None), rq_first := Some (fst (hd cs)), rq_last := Some (fst (last cs)),
    rq_current := Some (fst (last cs)), rq_size := rq_size q - 1\<rparr>"
  have "fst c \<notin> fst ` set cs" using assms(2) by (auto simp: linked_def)
  then have "chain (h(fst c := None)) (fst (last cs)) cs (fst (hd cs))"
    using assms(1) by (subst chain_frame [where h = h]) (metis fun_upd_other)+
  with assms(2,3) have "linked ?p cs" by (auto simp: linked_def split: if_splits)
  then have "ring ?p cs (length cs - 1)" by (rule ring_at_last) simp
  with that [of ?p] show ?thesis by (simp add: pop_end_def delete_element_def)
qed

lemma pop_one:
  assumes "linked q [c]"
  obtains p where "pop_end (Some (fst c)) x (empty_ring q) = Inr (x, p)" "ring p [] 0" "rq_maxSize p = rq_maxSize q"
  using that [of "(empty_ring q)\<lparr>rq_heap := (rq_heap q)(fst c := None), rq_current := None, rq_size := rq_size q - 1\<rparr>"] assms
  by (simp add: pop_end_def empty_ring_def delete_element_def ring_def linked_def)

lemma pop_back_ring:
  assumes q: "linked q (cs @ [(a, x)])"
  obtains p where "pop_back q = Inr (x, p)" "ring p cs (length cs - 1)" "rq_maxSize p = rq_maxSize q"
proof -
  have c: "chain (rq_heap q) a (cs @ [(a, x)]) (if cs = [] then a else fst (hd cs))" "distinct (map fst (cs @ [(a, x)]))"
    and ends: "rq_first q = Some (if cs = [] then a else fst (hd cs))" "rq_last q = Some a" "rq_size q = int (length cs) + 1"
    using q by (auto simp: linked_def)
  obtain e where e: "rq_heap q a = Some e" "el_value e = x" "el_previous e = Some (if cs = [] then a else fst (last cs))"
    and cs: "chain (rq_heap q) a cs a" using c by (auto simp: chain_snoc)
  show ?thesis
  proof (cases "cs = []")
    case True
    with q obtain p where "pop_end (Some a) x (empty_ring q) = Inr (x, p)" "ring p [] 0" "rq_maxSize p = rq_maxSize q"
      using pop_one [of q "(a, x)"] by auto
    with that [of p] True e ends show ?thesis by (simp add: pop_back_def element_at_def)
  next
    case False
    let ?q = "q\<lparr>rq_last := Some (fst (last cs))\<rparr>"
    have "chain (rq_heap ?q) a cs a" "distinct (map fst cs)" "rq_first ?q = Some (fst (hd cs))" "rq_last ?q = Some (fst (last cs))"
      using cs c(2) ends False by simp_all
    from close_ring [OF this(1) False this(2-4)] obtain h where
      h: "bindR (setNext (rq_last ?q) (rq_first ?q) ?q) (\<lambda>p. setPrevious (rq_first p) (rq_last p) p) = Inr (?q\<lparr>rq_heap := h\<rparr>)"
      "chain h (fst (last cs)) cs (fst (hd cs))" by blast
    obtain p where p: "pop_end (Some a) x (q\<lparr>rq_heap := h, rq_first := Some (fst (hd cs)), rq_last := Some (fst (last cs))\<rparr>) = Inr (x, p)"
      "ring p cs (length cs - 1)" "rq_maxSize p = rq_maxSize q"
      using pop_end_ring [OF h(2) _ False, of q "(a, x)" x] q by auto
    have "?q\<lparr>rq_heap := h\<rparr> = q\<lparr>rq_heap := h, rq_first := Some (fst (hd cs)), rq_last := Some (fst (last cs))\<rparr>"
      using ends False by (simp add: ring_queue.equality)
    with that [of p] p e ends False h(1) show ?thesis by (simp add: pop_back_def element_at_def Let_def)
  qed
qed

lemma pop_front_ring:
  assumes q: "linked q ((a, x) # cs)"
  obtains p where "pop_front q = Inr (x, p)" "ring p cs (length cs - 1)" "rq_maxSize p = rq_maxSize q"
proof -
  let ?l = "if cs = [] then a else fst (last cs)"
  have c: "chain (rq_heap q) ?l ((a, x) # cs) a" "distinct (map fst ((a, x) # cs))"
    and ends: "rq_first q = Some a" "rq_last q = Some ?l" "rq_size q = int (length cs) + 1"
    using q by (auto simp: linked_def)
  obtain e where e: "rq_heap q a = Some e" "el_value e = x" "el_next e = Some (if cs = [] then a else fst (hd cs))"
    and cs: "chain (rq_heap q) a cs a" using c by auto
  show ?thesis
  proof (cases "cs = []")
    case True
    with q obtain p where "pop_end (Some a) x (empty_ring q) = Inr (x, p)" "ring p [] 0" "rq_maxSize p = rq_maxSize q"
      using pop_one [of q "(a, x)"] by auto
    with that [of p] True e ends show ?thesis by (simp add: pop_front_def element_at_def)
  next
    case False
    let ?q = "q\<lparr>rq_first := Some (fst (hd cs))\<rparr>"
    have "chain (rq_heap ?q) a cs a" "distinct (map fst cs)" "rq_first ?q = Some (fst (hd cs))" "rq_last ?q = Some (fst (last cs))"
      using cs c(2) ends False by simp_all
    from close_ring [OF this(1) False this(2-4)] obtain h where
      h: "bindR (setNext (rq_last ?q) (rq_first ?q) ?q) (\<lambda>p. setPrevious (rq_first p) (rq_last p) p) = Inr (?q\<lparr>rq_heap := h\<rparr>)"
      "chain h (fst (last cs)) cs (fst (hd cs))" by blast
    obtain p where p: "pop_end (Some a) x (q\<lparr>rq_heap := h, rq_first := Some (fst (hd cs)), rq_last := Some (fst (last cs))\<rparr>) = Inr (x, p)"
      "ring p cs (length cs - 1)" "rq_maxSize p = rq_maxSize q"
      using pop_end_ring [OF h(2) _ False, of q "(a, x)" x] q by auto
    have "?q\<lparr>rq_heap := h\<rparr> = q\<lparr>rq_heap := h, rq_first := Some (fst (hd cs)), rq_last := Some (fst (last cs))\<rparr>"
      using ends False by (simp add: ring_queue.equality)
    with that [of p] p e ends False h(1) show ?thesis by (simp add: pop_front_def element_at_def Let_def)
  qed
qed

section \<open>Pushes\<close>

definition too_many :: "int \<Rightarrow> nat \<Rightarrow> bool" where
  "too_many m n \<longleftrightarrow> m > - 1 \<and> int n > m"

lemma push_end_fits:
  assumes "linked (q\<lparr>rq_size := rq_size q + 1\<rparr>) cs" "\<not> too_many (rq_maxSize q) (length cs)"
  obtains p where "push_end pop q = Inr p" "ring p cs (length cs - 1)" "rq_maxSize p = rq_maxSize q"
proof -
  let ?p = "q\<lparr>rq_size := rq_size q + 1, rq_current := rq_last q\<rparr>"
  have size: "rq_size q + 1 = int (length cs)" using assms(1) by (simp add: linked_def)
  have "linked ?p cs" using assms(1) linked_current [of "rq_last q" "q\<lparr>rq_size := rq_size q + 1\<rparr>" cs] by simp
  then have "ring ?p cs (length cs - 1)" by (rule ring_at_last) simp
  with that [of ?p] size assms(2) show ?thesis by (auto simp: push_end_def too_many_def Let_def)
qed

lemma push_end_over:
  assumes "linked (q\<lparr>rq_size := rq_size q + 1\<rparr>) cs" "too_many (rq_maxSize q) (length cs)"
    and "pop (q\<lparr>rq_size := rq_size q + 1\<rparr>) = Inr (x, p)" "ring p ds (length ds - 1)" "rq_maxSize p = rq_maxSize q"
  obtains r where "push_end pop q = Inr r" "ring r ds (length ds - 1)" "rq_maxSize r = rq_maxSize q"
proof -
  have size: "rq_size q + 1 = int (length cs)" using assms(1) by (simp add: linked_def)
  have "ring (p\<lparr>rq_current := rq_last p\<rparr>) ds (length ds - 1)" using assms(4) by (intro ring_at_last) (simp_all add: ring_def)
  with that [of "p\<lparr>rq_current := rq_last p\<rparr>"] size assms(2,3,5) show ?thesis by (auto simp: push_end_def too_many_def Let_def)
qed

text \<open>The links of both pushes.\<close>

lemma push_back_links:
  assumes q: "linked q cs"
  obtains p where "push_back val q = push_end pop_front p" "linked (p\<lparr>rq_size := rq_size p + 1\<rparr>) (cs @ [(rq_free q, val)])"
    "rq_maxSize p = rq_maxSize q"
proof -
  let ?e = "rq_free q"
  have new: "?e \<notin> fst ` set cs" "\<forall>a\<in>fst ` set cs. a < Suc ?e" using q by (auto simp: linked_def)
  show ?thesis
  proof (cases "cs = []")
    case True
    let ?p = "q\<lparr>rq_free := Suc ?e, rq_last := Some ?e, rq_first := Some ?e,
      rq_heap := (rq_heap q)(?e \<mapsto> \<lparr>el_value = val, el_next = Some ?e, el_previous = Some ?e\<rparr>)\<rparr>"
    from that [of ?p] True q show ?thesis
      by (simp add: linked_def push_back_def new_element_def setNext_def setPrevious_def set_element_def element_at_def Let_def)
  next
    case False
    let ?f = "fst (hd cs)" and ?l = "fst (last cs)"
    let ?h = "(rq_heap q)(?e \<mapsto> \<lparr>el_value = val, el_next = None, el_previous = None\<rparr>)"
    have ends: "rq_first q = Some ?f" "rq_last q = Some ?l" "distinct (map fst cs)" "chain (rq_heap q) ?l cs ?f"
      using q False by (simp_all add: linked_def)
    have member: "?l \<in> fst ` set cs" "?f \<in> fst ` set cs" using False by simp_all
    with new have other: "?l \<noteq> ?e" "?f \<noteq> ?e" by metis+
    have "chain ?h ?l cs ?f" using ends(4) new by (subst chain_frame [where h = "rq_heap q"]) (metis fun_upd_other)+
    then obtain d where d: "?h ?l = Some d" "chain (?h(?l \<mapsto> d\<lparr>el_next := Some ?e\<rparr>)) ?l cs ?e"
      using chain_set_next [OF _ False ends(3)] by metis
    let ?h4 = "(?h(?l \<mapsto> d\<lparr>el_next := Some ?e\<rparr>))(?e \<mapsto> \<lparr>el_value = val, el_next = Some ?f, el_previous = Some ?l\<rparr>)"
    have "chain ?h4 ?l cs ?e"
      using d(2) new by (subst chain_frame [where h = "?h(?l \<mapsto> d\<lparr>el_next := Some ?e\<rparr>)"]) (metis fun_upd_other)+
    then have c: "chain ?h4 ?l (cs @ [(?e, val)]) ?f" using False by (simp add: chain_snoc)
    obtain g where g: "?h4 ?f = Some g" "chain (?h4(?f \<mapsto> g\<lparr>el_previous := Some ?e\<rparr>)) ?e (cs @ [(?e, val)]) ?f"
      using chain_set_previous [OF c] ends(3) new False by auto
    let ?p = "q\<lparr>rq_free := Suc ?e, rq_last := Some ?e, rq_heap := ?h4(?f \<mapsto> g\<lparr>el_previous := Some ?e\<rparr>)\<rparr>"
    have "push_back val q = push_end pop_front ?p"
      using ends(1,2) other d(1) g(1)
      by (simp add: push_back_def new_element_def setNext_def setPrevious_def set_element_def element_at_def Let_def fun_upd_twist)
    moreover have "linked (?p\<lparr>rq_size := rq_size ?p + 1\<rparr>) (cs @ [(?e, val)])"
      using q g(2) new False ends(1,3) by (auto simp: linked_def)
    ultimately show ?thesis using that [of ?p] by simp
  qed
qed

lemma push_front_links:
  assumes q: "linked q cs"
  obtains p where "push_front val q = push_end pop_back p" "linked (p\<lparr>rq_size := rq_size p + 1\<rparr>) ((rq_free q, val) # cs)"
    "rq_maxSize p = rq_maxSize q"
proof -
  let ?e = "rq_free q"
  have new: "?e \<notin> fst ` set cs" "\<forall>a\<in>fst ` set cs. a < Suc ?e" using q by (auto simp: linked_def)
  show ?thesis
  proof (cases "cs = []")
    case True
    let ?p = "q\<lparr>rq_free := Suc ?e, rq_first := Some ?e, rq_last := Some ?e,
      rq_heap := (rq_heap q)(?e \<mapsto> \<lparr>el_value = val, el_next = Some ?e, el_previous = Some ?e\<rparr>)\<rparr>"
    from that [of ?p] True q show ?thesis
      by (simp add: linked_def push_front_def new_element_def setNext_def setPrevious_def set_element_def element_at_def Let_def)
  next
    case False
    let ?f = "fst (hd cs)" and ?l = "fst (last cs)"
    let ?h = "(rq_heap q)(?e \<mapsto> \<lparr>el_value = val, el_next = Some ?f, el_previous = None\<rparr>)"
    have ends: "rq_first q = Some ?f" "rq_last q = Some ?l" "distinct (map fst cs)" "chain (rq_heap q) ?l cs ?f"
      using q False by (simp_all add: linked_def)
    have member: "?l \<in> fst ` set cs" "?f \<in> fst ` set cs" using False by simp_all
    with new have other: "?l \<noteq> ?e" "?f \<noteq> ?e" by metis+
    have "chain ?h ?l cs ?f" using ends(4) new by (subst chain_frame [where h = "rq_heap q"]) (metis fun_upd_other)+
    then obtain g where g: "?h ?f = Some g" "chain (?h(?f \<mapsto> g\<lparr>el_previous := Some ?e\<rparr>)) ?e cs ?f"
      using chain_set_previous [OF _ False ends(3)] by metis
    let ?h2 = "?h(?f \<mapsto> g\<lparr>el_previous := Some ?e\<rparr>)"
    obtain d where d: "?h2 ?l = Some d" "chain (?h2(?l \<mapsto> d\<lparr>el_next := Some ?e\<rparr>)) ?e cs ?e"
      using chain_set_next [OF g(2) False ends(3)] by metis
    let ?h4 = "(?h2(?l \<mapsto> d\<lparr>el_next := Some ?e\<rparr>))(?e \<mapsto> \<lparr>el_value = val, el_next = Some ?f, el_previous = Some ?l\<rparr>)"
    have "chain ?h4 ?e cs ?e"
      using d(2) new by (subst chain_frame [where h = "?h2(?l \<mapsto> d\<lparr>el_next := Some ?e\<rparr>)"]) (metis fun_upd_other)+
    then have c: "chain ?h4 ?l ((?e, val) # cs) ?e" using False by simp
    let ?p = "q\<lparr>rq_free := Suc ?e, rq_first := Some ?e, rq_heap := ?h4\<rparr>"
    have "push_front val q = push_end pop_back ?p"
      using ends(1,2) other d(1) g(1)
      by (simp add: push_front_def new_element_def setNext_def setPrevious_def set_element_def element_at_def Let_def)
    moreover have "linked (?p\<lparr>rq_size := rq_size ?p + 1\<rparr>) ((?e, val) # cs)"
      using q c new False ends(2,3) by (auto simp: linked_def)
    ultimately show ?thesis using that [of ?p] by simp
  qed
qed

section \<open>The list\<close>

text \<open>
  What a queue promises: a list with the place of the current element, which is the last one after every
  push and pop, and moves around the list.
\<close>

type_synonym 'a cursor_list = "'a list \<times> nat"

definition at_last :: "'a list \<Rightarrow> 'a cursor_list" where
  "at_last xs = (xs, length xs - 1)"

datatype 'a queue_op = Push_back 'a | Push_front 'a | Pop_back | Pop_front | Next | Previous | Reset | Current

fun list_call :: "int \<Rightarrow> 'a queue_op \<Rightarrow> 'a cursor_list \<Rightarrow> ('a option \<times> 'a cursor_list) res" where
  "list_call m (Push_back x) (xs, i) = Inr (None, at_last (if too_many m (Suc (length xs)) then tl (xs @ [x]) else xs @ [x]))"
| "list_call m (Push_front x) (xs, i) = Inr (None, at_last (if too_many m (Suc (length xs)) then butlast (x # xs) else x # xs))"
| "list_call m Reset (xs, i) = Inr (None, at_last xs)"
| "list_call m c ([], i) = Inl Undefined_behaviour"
| "list_call m Pop_back (xs, i) = Inr (Some (last xs), at_last (butlast xs))"
| "list_call m Pop_front (xs, i) = Inr (Some (hd xs), at_last (tl xs))"
| "list_call m Next (xs, i) = (let j = Suc i mod length xs in Inr (Some (xs ! j), xs, j))"
| "list_call m Previous (xs, i) = (let j = (i + length xs - 1) mod length xs in Inr (Some (xs ! j), xs, j))"
| "list_call m Current (xs, i) = Inr (Some (xs ! i), xs, i)"

definition some_value :: "('a \<times> 's) res \<Rightarrow> ('a option \<times> 's) res" where
  "some_value r = bindR r (\<lambda>(x, s). Inr (Some x, s))"

fun queue_call :: "'a queue_op \<Rightarrow> 'a ring_queue \<Rightarrow> ('a option \<times> 'a ring_queue) res" where
  "queue_call (Push_back x) q = bindR (push_back x q) (\<lambda>q. Inr (None, q))"
| "queue_call (Push_front x) q = bindR (push_front x q) (\<lambda>q. Inr (None, q))"
| "queue_call Pop_back q = some_value (pop_back q)"
| "queue_call Pop_front q = some_value (pop_front q)"
| "queue_call Next q = some_value (ring_next q)"
| "queue_call Previous q = some_value (ring_previous q)"
| "queue_call Reset q = Inr (None, ring_reset q)"
| "queue_call Current q = bindR (ring_current q) (\<lambda>x. Inr (Some x, q))"

text \<open>A run gives the values of its calls.\<close>

fun calls :: "('c \<Rightarrow> 's \<Rightarrow> ('a option \<times> 's) res) \<Rightarrow> 'c list \<Rightarrow> 's \<Rightarrow> ('a option list \<times> 's) res" where
  "calls step [] s = Inr ([], s)"
| "calls step (c # cs) s = bindR (step c s) (\<lambda>(x, s). bindR (calls step cs s) (\<lambda>(xs, s). Inr (x # xs, s)))"

definition queue_shows :: "int \<Rightarrow> 'a cursor_list \<Rightarrow> 'a ring_queue \<Rightarrow> bool" where
  "queue_shows m l q \<longleftrightarrow> rq_maxSize q = m \<and> (\<exists>cs. ring q cs (snd l) \<and> map snd cs = fst l)"

text \<open>The same error, or the same value with related states.\<close>

definition same_outcome :: "('s \<Rightarrow> 't \<Rightarrow> bool) \<Rightarrow> ('a \<times> 's) res \<Rightarrow> ('a \<times> 't) res \<Rightarrow> bool" where
  "same_outcome R a b \<longleftrightarrow> (case (a, b) of
     (Inl e, Inl f) \<Rightarrow> e = f | (Inr (x, s), Inr (y, t)) \<Rightarrow> x = y \<and> R s t | _ \<Rightarrow> False)"

lemma same_outcome_simps [simp]:
  "same_outcome R (Inl e) (Inl f) \<longleftrightarrow> e = f"
  "same_outcome R (Inr (x, s)) (Inr (y, t)) \<longleftrightarrow> x = y \<and> R s t"
  by (simp_all add: same_outcome_def)

lemma queue_shows_new: "queue_shows m ([], 0) (new_queue m)"
  by (simp add: queue_shows_def new_queue_def ring_def linked_def)

lemma queue_shows_ring: "ring q cs (length cs - 1) \<Longrightarrow> queue_shows (rq_maxSize q) (at_last (map snd cs)) q"
  by (auto simp: queue_shows_def at_last_def)

lemma push_back_shows:
  assumes "linked q cs"
  obtains p where "push_back x q = Inr p"
    "queue_shows (rq_maxSize q) (at_last (if too_many (rq_maxSize q) (Suc (length cs)) then tl (map snd cs @ [x]) else map snd cs @ [x])) p"
proof -
  from push_back_links [OF assms] obtain p where p: "push_back x q = push_end pop_front p"
    "linked (p\<lparr>rq_size := rq_size p + 1\<rparr>) (cs @ [(rq_free q, x)])" "rq_maxSize p = rq_maxSize q" .
  show ?thesis
  proof (cases "too_many (rq_maxSize q) (Suc (length cs))")
    case True
    obtain a y ds where ds: "cs @ [(rq_free q, x)] = (a, y) # ds" by (cases cs) auto
    obtain t where t: "pop_front (p\<lparr>rq_size := rq_size p + 1\<rparr>) = Inr (y, t)" "ring t ds (length ds - 1)" "rq_maxSize t = rq_maxSize p"
      using pop_front_ring [OF p(2) [unfolded ds]] by auto
    from push_end_over [where q = p and pop = pop_front, OF p(2) _ t] True p(3) obtain r where
      "push_end pop_front p = Inr r" "ring r ds (length ds - 1)" "rq_maxSize r = rq_maxSize q" by auto
    moreover have "map snd cs @ [x] = y # map snd ds" using arg_cong [OF ds, of "map snd"] by simp
    ultimately show ?thesis using that [of r] p(1) True queue_shows_ring [of r ds] by simp
  next
    case False
    from push_end_fits [OF p(2)] False p(3) obtain r where
      "push_end pop_front p = Inr r" "ring r (cs @ [(rq_free q, x)]) (length (cs @ [(rq_free q, x)]) - 1)" "rq_maxSize r = rq_maxSize q"
      by auto
    with that [of r] p(1) False queue_shows_ring [of r "cs @ [(rq_free q, x)]"] show ?thesis by simp
  qed
qed

lemma push_front_shows:
  assumes "linked q cs"
  obtains p where "push_front x q = Inr p"
    "queue_shows (rq_maxSize q) (at_last (if too_many (rq_maxSize q) (Suc (length cs)) then butlast (x # map snd cs) else x # map snd cs)) p"
proof -
  from push_front_links [OF assms] obtain p where p: "push_front x q = push_end pop_back p"
    "linked (p\<lparr>rq_size := rq_size p + 1\<rparr>) ((rq_free q, x) # cs)" "rq_maxSize p = rq_maxSize q" .
  show ?thesis
  proof (cases "too_many (rq_maxSize q) (Suc (length cs))")
    case True
    obtain a y ds where ds: "(rq_free q, x) # cs = ds @ [(a, y)]" by (metis list.distinct(1) rev_exhaust surj_pair)
    obtain t where t: "pop_back (p\<lparr>rq_size := rq_size p + 1\<rparr>) = Inr (y, t)" "ring t ds (length ds - 1)" "rq_maxSize t = rq_maxSize p"
      using pop_back_ring [OF p(2) [unfolded ds]] by auto
    from push_end_over [where q = p and pop = pop_back, OF p(2) _ t] True p(3) obtain r where
      "push_end pop_back p = Inr r" "ring r ds (length ds - 1)" "rq_maxSize r = rq_maxSize q" by auto
    moreover have "x # map snd cs = map snd ds @ [y]" using arg_cong [OF ds, of "map snd"] by simp
    ultimately show ?thesis using that [of r] p(1) True queue_shows_ring [of r ds] by simp
  next
    case False
    from push_end_fits [OF p(2)] False p(3) obtain r where
      "push_end pop_back p = Inr r" "ring r ((rq_free q, x) # cs) (length ((rq_free q, x) # cs) - 1)" "rq_maxSize r = rq_maxSize q"
      by auto
    with that [of r] p(1) False queue_shows_ring [of r "(rq_free q, x) # cs"] show ?thesis by simp
  qed
qed

lemma pops_show:
  assumes "linked q cs" "cs \<noteq> []"
  shows "\<exists>p. pop_back q = Inr (last (map snd cs), p) \<and> queue_shows (rq_maxSize q) (at_last (butlast (map snd cs))) p"
    and "\<exists>p. pop_front q = Inr (hd (map snd cs), p) \<and> queue_shows (rq_maxSize q) (at_last (tl (map snd cs))) p"
proof -
  obtain ds a x where ds: "cs = ds @ [(a, x)]" using assms(2) by (metis rev_exhaust surj_pair)
  with assms(1) obtain p where "pop_back q = Inr (x, p)" "ring p ds (length ds - 1)" "rq_maxSize p = rq_maxSize q"
    using pop_back_ring by metis
  with ds queue_shows_ring [of p ds]
  show "\<exists>p. pop_back q = Inr (last (map snd cs), p) \<and> queue_shows (rq_maxSize q) (at_last (butlast (map snd cs))) p" by simp
  obtain b y es where es: "cs = (b, y) # es" using assms(2) by (metis list.exhaust surj_pair)
  with assms(1) obtain p2 where "pop_front q = Inr (y, p2)" "ring p2 es (length es - 1)" "rq_maxSize p2 = rq_maxSize q"
    using pop_front_ring by metis
  with es queue_shows_ring [of p2 es]
  show "\<exists>p. pop_front q = Inr (hd (map snd cs), p) \<and> queue_shows (rq_maxSize q) (at_last (tl (map snd cs))) p" by simp
qed

text \<open>The elements around the current one.\<close>

lemma ring_element:
  assumes "ring q cs i" "j < length cs"
  shows "element_at (Some (fst (cs ! j))) q = Inr \<lparr>el_value = snd (cs ! j), el_next = Some (fst (cs ! (Suc j mod length cs))),
    el_previous = Some (fst (cs ! ((j + length cs - 1) mod length cs)))\<rparr>"
proof -
  have "cs \<noteq> []" using assms(2) by auto
  with assms(1) have c: "cs \<noteq> []" "chain (rq_heap q) (fst (last cs)) cs (fst (hd cs))" by (simp_all add: ring_def linked_def)
  have "(if Suc j < length cs then fst (cs ! Suc j) else fst (hd cs)) = fst (cs ! (Suc j mod length cs))"
    using assms(2) c(1) by (cases "Suc j = length cs") (auto simp: hd_conv_nth)
  moreover have "(if j = 0 then fst (last cs) else fst (cs ! (j - 1))) = fst (cs ! ((j + length cs - 1) mod length cs))"
  proof (cases j)
    case (Suc k)
    have "(Suc k + length cs - 1) mod length cs = k" using Suc assms(2) by simp
    with Suc show ?thesis by simp
  qed (use c(1) in \<open>simp add: last_conv_nth\<close>)
  ultimately show ?thesis using chain_nth [OF c(2) assms(2)] by (simp add: element_at_def)
qed

lemma walks_show:
  assumes "ring q cs i" "cs \<noteq> []"
  defines "n \<equiv> Suc i mod length cs" and "k \<equiv> (i + length cs - 1) mod length cs"
  shows "\<exists>p. ring_next q = Inr (map snd cs ! n, p) \<and> queue_shows (rq_maxSize q) (map snd cs, n) p"
    and "\<exists>p. ring_previous q = Inr (map snd cs ! k, p) \<and> queue_shows (rq_maxSize q) (map snd cs, k) p"
    and "ring_current q = Inr (map snd cs ! i)"
proof -
  have i: "i < length cs" "rq_current q = Some (fst (cs ! i))" using assms(1,2) by (auto simp: ring_def)
  have nk: "n < length cs" "k < length cs" using assms(2) by (simp_all add: n_def k_def)
  have moved: "ring (q\<lparr>rq_current := Some (fst (cs ! j))\<rparr>) cs j" if "j < length cs" for j
    using assms(1,2) that by (simp add: ring_def)
  show "\<exists>p. ring_next q = Inr (map snd cs ! n, p) \<and> queue_shows (rq_maxSize q) (map snd cs, n) p"
    using ring_element [OF assms(1) i(1)] ring_element [OF assms(1) nk(1)] moved [OF nk(1)] nk(1) i(2)
    by (auto simp: ring_next_def n_def queue_shows_def)
  show "\<exists>p. ring_previous q = Inr (map snd cs ! k, p) \<and> queue_shows (rq_maxSize q) (map snd cs, k) p"
    using ring_element [OF assms(1) i(1)] ring_element [OF assms(1) nk(2)] moved [OF nk(2)] nk(2) i(2)
    by (auto simp: ring_previous_def k_def queue_shows_def)
  show "ring_current q = Inr (map snd cs ! i)"
    using ring_element [OF assms(1) i(1)] i by (simp add: ring_current_def)
qed

lemma list_call_some:
  assumes "xs \<noteq> []"
  shows "list_call m Pop_back (xs, i) = Inr (Some (last xs), at_last (butlast xs))"
    and "list_call m Pop_front (xs, i) = Inr (Some (hd xs), at_last (tl xs))"
    and "list_call m Next (xs, i) = Inr (Some (xs ! (Suc i mod length xs)), xs, Suc i mod length xs)"
    and "list_call m Previous (xs, i) =
      Inr (Some (xs ! ((i + length xs - 1) mod length xs)), xs, (i + length xs - 1) mod length xs)"
    and "list_call m Current (xs, i) = Inr (Some (xs ! i), xs, i)"
  using assms by (cases xs; simp add: Let_def)+

lemma call_refines:
  assumes "queue_shows m l q"
  shows "same_outcome (\<lambda>p l. queue_shows m l p) (queue_call c q) (list_call m c l)"
proof -
  obtain xs i where l: "l = (xs, i)" by (cases l)
  with assms obtain cs where cs: "ring q cs i" "map snd cs = xs" and m: "rq_maxSize q = m" by (auto simp: queue_shows_def)
  have q: "linked q cs" and len: "length cs = length xs" using cs by (auto simp: ring_def)
  show ?thesis
  proof (cases c)
    case (Push_back x)
    from push_back_shows [OF q, of x] obtain p where "push_back x q = Inr p"
      "queue_shows (rq_maxSize q) (at_last (if too_many (rq_maxSize q) (Suc (length cs)) then tl (map snd cs @ [x]) else map snd cs @ [x])) p" .
    then show ?thesis unfolding m len cs(2) by (simp add: Push_back l)
  next
    case (Push_front x)
    from push_front_shows [OF q, of x] obtain p where "push_front x q = Inr p"
      "queue_shows (rq_maxSize q) (at_last (if too_many (rq_maxSize q) (Suc (length cs)) then butlast (x # map snd cs) else x # map snd cs)) p" .
    then show ?thesis unfolding m len cs(2) by (simp add: Push_front l)
  next
    case Reset
    then show ?thesis using q cs(2) l m queue_shows_ring [OF ring_at_last [of "ring_reset q" cs]]
      by (simp add: ring_reset_def)
  next
    case other: Pop_back
    show ?thesis
    proof (cases "cs = []")
      case True
      with q cs(2) l other show ?thesis by (simp add: linked_def pop_back_def element_at_def some_value_def)
    next
      case False
      with cs(2) have "xs \<noteq> []" by auto
      from list_call_some(1) [OF this] pops_show(1) [OF q False] show ?thesis
        unfolding cs(2) m len l other by (auto simp: some_value_def)
    qed
  next
    case other: Pop_front
    show ?thesis
    proof (cases "cs = []")
      case True
      with q cs(2) l other show ?thesis by (simp add: linked_def pop_front_def element_at_def some_value_def)
    next
      case False
      with cs(2) have "xs \<noteq> []" by auto
      from list_call_some(2) [OF this] pops_show(2) [OF q False] show ?thesis
        unfolding cs(2) m len l other by (auto simp: some_value_def)
    qed
  next
    case other: Next
    show ?thesis
    proof (cases "cs = []")
      case True
      with cs l other show ?thesis by (simp add: ring_def ring_next_def element_at_def some_value_def)
    next
      case False
      with cs(2) have "xs \<noteq> []" by auto
      from list_call_some(3) [OF this] walks_show(1) [OF cs(1) False] show ?thesis
        unfolding cs(2) m len l other by (auto simp: some_value_def)
    qed
  next
    case other: Previous
    show ?thesis
    proof (cases "cs = []")
      case True
      with cs l other show ?thesis by (simp add: ring_def ring_previous_def element_at_def some_value_def)
    next
      case False
      with cs(2) have "xs \<noteq> []" by auto
      from list_call_some(4) [OF this] walks_show(2) [OF cs(1) False] show ?thesis
        unfolding cs(2) m len l other by (auto simp: some_value_def)
    qed
  next
    case other: Current
    show ?thesis
    proof (cases "cs = []")
      case True
      with cs l other show ?thesis by (simp add: ring_def ring_current_def element_at_def)
    next
      case False
      with cs(2) have "xs \<noteq> []" by auto
      from list_call_some(5) [OF this] walks_show(3) [OF cs(1) False] assms show ?thesis
        unfolding cs(2) l other by simp
    qed
  qed
qed

lemma calls_refine:
  "queue_shows m l q \<Longrightarrow> same_outcome (\<lambda>p l. queue_shows m l p) (calls queue_call cs q) (calls (list_call m) cs l)"
proof (induction cs arbitrary: q l)
  case (Cons c cs)
  show ?case
  proof (cases "queue_call c q")
    case (Inl e)
    with call_refines [OF Cons.prems, of c] show ?thesis
      by (cases "list_call m c l") (auto simp: same_outcome_def)
  next
    case (Inr x)
    then obtain v p where v: "queue_call c q = Inr (v, p)" by (cases x) auto
    with call_refines [OF Cons.prems, of c] obtain l2 where l2: "list_call m c l = Inr (v, l2)" "queue_shows m l2 p"
      by (cases "list_call m c l") (auto simp: same_outcome_def)
    from Cons.IH [OF l2(2)] v l2(1) show ?thesis
      by (cases "calls queue_call cs p"; cases "calls (list_call m) cs l2") (auto simp: same_outcome_def)
  qed
qed simp

end
