(* ===== verification/Std_Map.thy ===== *)
theory Std_Map
  imports Djon_Prelude
begin

text \<open>
  std::map as the list of its pairs in iteration order, with the operations the program uses:
  insert (which keeps an existing pair), erase, and the linear searches the classes write by
  hand. The dictionary interface states what a client may rely on; the containers of the
  program are interpreted in it.
\<close>

section \<open>The dictionary interface\<close>

locale dictionary =
  fixes empty :: 'm
    and put :: "'k \<Rightarrow> 'v \<Rightarrow> 'm \<Rightarrow> 'm"
    and del :: "'k \<Rightarrow> 'm \<Rightarrow> 'm"
    and find :: "'m \<Rightarrow> 'k \<Rightarrow> 'v option"
    and inv :: "'m \<Rightarrow> bool"
  assumes find_empty: "find empty k = None"
    and find_put: "inv m \<Longrightarrow> find (put k v m) k' = (if k' = k then Some v else find m k')"
    and find_del: "inv m \<Longrightarrow> find (del k m) k' = (if k' = k then None else find m k')"
    and inv_empty: "inv empty"
    and inv_put: "inv m \<Longrightarrow> inv (put k v m)"
    and inv_del: "inv m \<Longrightarrow> inv (del k m)"
begin

lemma put_put_find: "inv m \<Longrightarrow> find (put k v (put k v' m)) k' = find (put k v m) k'"
  by (simp add: find_put inv_put)

lemma inv_fold_put: "inv m \<Longrightarrow> inv (fold (\<lambda>(k, v). put k v) kvs m)"
  by (induction kvs arbitrary: m) (auto simp: inv_put)

text \<open>Filling a dictionary from a list of pairs: the last pair of a key wins.\<close>

lemma find_fold_put:
  "inv m \<Longrightarrow> find (fold (\<lambda>(k, v). put k v) kvs m) k =
     (case map_of (rev kvs) k of None \<Rightarrow> find m k | Some v \<Rightarrow> Some v)"
proof (induction kvs arbitrary: m)
  case Nil
  show ?case by simp
next
  case (Cons p kvs)
  obtain a v where p: "p = (a, v)" by (cases p)
  from Cons.prems have "inv (put a v m)" by (rule inv_put)
  from Cons.IH [OF this] p Cons.prems show ?case
    by (auto simp: find_put map_add_def map_of_append split: option.splits)
qed

lemma find_build:
  "find (fold (\<lambda>(k, v). put k v) kvs empty) k = map_of (rev kvs) k"
  by (simp add: find_fold_put [OF inv_empty] find_empty split: option.splits)

end

section \<open>std::map\<close>

type_synonym ('k, 'v) std_map = "('k \<times> 'v) list"

definition map_sorted :: "('k::linorder, 'v) std_map \<Rightarrow> bool" where
  "map_sorted m \<longleftrightarrow> sorted_wrt (<) (map fst m)"

fun map_insert :: "'k::linorder \<Rightarrow> 'v \<Rightarrow> ('k, 'v) std_map \<Rightarrow> ('k, 'v) std_map" where
  "map_insert k v [] = [(k, v)]"
| "map_insert k v ((a, b) # m) =
     (if k < a then (k, v) # (a, b) # m
      else if k = a then (a, b) # m
      else (a, b) # map_insert k v m)"

definition map_erase :: "'k \<Rightarrow> ('k, 'v) std_map \<Rightarrow> ('k, 'v) std_map" where
  "map_erase k m = filter (\<lambda>p. fst p \<noteq> k) m"

fun map_find :: "('k, 'v) std_map \<Rightarrow> 'k \<Rightarrow> 'v option" where
  "map_find [] k = None"
| "map_find ((a, b) # m) k = (if a = k then Some b else map_find m k)"

text \<open>The idiom of the program: remove the old pair, then insert the new one.\<close>

definition map_put :: "'k::linorder \<Rightarrow> 'v \<Rightarrow> ('k, 'v) std_map \<Rightarrow> ('k, 'v) std_map" where
  "map_put k v m = map_insert k v (map_erase k m)"

lemma map_sorted_simps [simp]:
  "map_sorted []"
  "map_sorted (p # m) \<longleftrightarrow> (\<forall>q\<in>set m. fst p < fst q) \<and> map_sorted m"
  by (auto simp: map_sorted_def)

lemma set_map_insert: "set (map_insert k v m) \<subseteq> insert (k, v) (set m)"
  by (induction k v m rule: map_insert.induct) auto

lemma map_sorted_insert: "map_sorted m \<Longrightarrow> map_sorted (map_insert k v m)"
proof (induction k v m rule: map_insert.induct)
  case (2 k v a b m)
  then show ?case using set_map_insert [of k v m] by (auto split: if_splits)
qed simp

lemma map_sorted_filter: "map_sorted m \<Longrightarrow> map_sorted (filter P m)"
  by (induction m) auto

lemma map_sorted_erase: "map_sorted m \<Longrightarrow> map_sorted (map_erase k m)"
  by (simp add: map_erase_def map_sorted_filter)

lemma map_find_None: "map_find m k = None \<longleftrightarrow> k \<notin> fst ` set m"
  by (induction m k rule: map_find.induct) auto

lemma map_find_in: "map_find m k = Some v \<Longrightarrow> (k, v) \<in> set m"
  by (induction m k rule: map_find.induct) (auto split: if_splits)

lemma map_find_insert:
  "map_sorted m \<Longrightarrow> map_find (map_insert k v m) k' =
     (if k' = k then Some (case map_find m k of None \<Rightarrow> v | Some w \<Rightarrow> w) else map_find m k')"
proof (induction k v m rule: map_insert.induct)
  case (2 k v a b m)
  have "map_find m k = None" if "k < a"
    using that 2(2) by (fastforce simp: map_find_None)
  with 2 show ?case by auto
qed simp

lemma map_find_erase: "map_find (map_erase k m) k' = (if k' = k then None else map_find m k')"
proof (induction m)
  case (Cons p m)
  then show ?case by (cases p) (auto simp: map_erase_def split: if_splits)
qed (simp add: map_erase_def)

interpretation std_map: dictionary "[]" map_put map_erase map_find map_sorted
  by unfold_locales
    (simp_all add: map_put_def map_find_insert map_sorted_erase map_sorted_insert map_find_erase)

lemmas map_find_put [simp] = std_map.find_put
lemmas map_sorted_put [simp] = std_map.inv_put

lemma map_find_ext_Nil: "map_find m = map_find [] \<Longrightarrow> m = []"
proof (cases m)
  case (Cons p m')
  moreover assume "map_find m = map_find []"
  ultimately show ?thesis by (metis map_find.simps(1) map_find_None list.set_intros(1)
        image_eqI)
qed
text \<open>A map is determined by what its lookups return.\<close>

lemma map_find_dom: "map_find m = map_find n \<Longrightarrow> fst ` set m = fst ` set n"
  using map_find_None by (metis (no_types, opaque_lifting) set_eqI)

lemma map_find_head:
  assumes "map_sorted ((a, b) # m)" "map_sorted ((c, d) # n)"
    and "map_find ((a, b) # m) = map_find ((c, d) # n)"
  shows "a = c \<and> b = d"
proof -
  have "insert a (fst ` set m) = insert c (fst ` set n)"
    using map_find_dom [OF assms(3)] by simp
  moreover have "\<forall>x\<in>fst ` set m. a < x" "\<forall>x\<in>fst ` set n. c < x" using assms(1,2) by auto
  ultimately have "a = c" by (metis insert_iff less_asym)
  with fun_cong [OF assms(3), of a] show ?thesis by simp
qed

lemma map_find_tail:
  assumes "map_sorted ((a, b) # m)" "map_sorted ((a, b) # n)"
    and "map_find ((a, b) # m) = map_find ((a, b) # n)"
  shows "map_find m = map_find n"
proof
  fix x
  have "map_find m a = None" "map_find n a = None"
    using assms(1,2) by (force simp: map_find_None)+
  with fun_cong [OF assms(3), of x] show "map_find m x = map_find n x"
    by (cases "x = a") auto
qed

lemma map_find_ext:
  "map_sorted m \<Longrightarrow> map_sorted n \<Longrightarrow> map_find m = map_find n \<Longrightarrow> m = n"
proof (induction m arbitrary: n)
  case Nil
  from map_find_ext_Nil [OF Nil.prems(3) [symmetric]] show ?case ..
next
  case (Cons p m)
  show ?case
  proof (cases n)
    case Nil
    from map_find_ext_Nil [OF Cons.prems(3) [unfolded Nil]] show ?thesis by simp
  next
    case (Cons q n')
    obtain a b c d where pq: "p = (a, b)" "q = (c, d)" by (cases p; cases q)
    note prems = Cons.prems [unfolded Cons pq]
    have eq: "a = c" "b = d" using map_find_head [OF prems] by simp_all
    have "map_find m = map_find n'" by (rule map_find_tail [OF prems [folded eq]])
    with Cons.IH prems have "m = n'" by simp
    with eq pq Cons show ?thesis by simp
  qed
qed

text \<open>Appending a key above all others is what insert does at the end of a map.\<close>

lemma map_insert_last:
  "\<forall>q\<in>set m. fst q < k \<Longrightarrow> map_insert k v m = m @ [(k, v)]"
  by (induction k v m rule: map_insert.induct) (auto dest: less_not_sym)

lemma map_put_last: "\<forall>q\<in>set m. fst q < k \<Longrightarrow> map_put k v m = m @ [(k, v)]"
proof -
  assume above: "\<forall>q\<in>set m. fst q < k"
  then have "map_erase k m = m" by (auto simp: map_erase_def filter_id_conv)
  with above show ?thesis by (simp add: map_put_def map_insert_last)
qed

text \<open>Properties of put that need no lookup.\<close>

lemma set_map_put: "set (map_put k v m) \<subseteq> insert (k, v) (set m)"
  using set_map_insert [of k v "map_erase k m"] by (auto simp: map_put_def map_erase_def)

lemma map_put_put: "map_sorted m \<Longrightarrow> map_put k v (map_put k w m) = map_put k v m"
  by (rule map_find_ext) auto

lemma map_insert_there: "map_sorted m \<Longrightarrow> map_find m k = Some v \<Longrightarrow> map_insert k w m = m"
  by (rule map_find_ext) (auto simp: map_sorted_insert map_find_insert)

lemma map_put_there: "map_sorted m \<Longrightarrow> map_find m k = Some v \<Longrightarrow> map_put k v m = m"
  by (rule map_find_ext) auto

section \<open>Maps of maps\<close>

text \<open>The registries of the program map a database to a map from its namespaces to lists.\<close>

type_synonym ('k, 'l, 'v) nested = "('k, ('l, 'v list) std_map) std_map"

definition nested_at :: "('k::linorder, 'l::linorder, 'v) nested \<Rightarrow> 'k \<Rightarrow> ('l, 'v list) std_map" where
  "nested_at m k = (case map_find m k of None \<Rightarrow> [] | Some n \<Rightarrow> n)"

definition nested_get :: "('k::linorder, 'l::linorder, 'v) nested \<Rightarrow> 'k \<Rightarrow> 'l \<Rightarrow> 'v list" where
  "nested_get m k l = (case map_find (nested_at m k) l of None \<Rightarrow> [] | Some vs \<Rightarrow> vs)"

definition nested_put :: "'k::linorder \<Rightarrow> 'l::linorder \<Rightarrow> 'v list \<Rightarrow> ('k, 'l, 'v) nested \<Rightarrow> ('k, 'l, 'v) nested" where
  "nested_put k l vs m = map_put k (map_put l vs (nested_at m k)) m"

definition nested_sorted :: "('k::linorder, 'l::linorder, 'v) nested \<Rightarrow> bool" where
  "nested_sorted m \<longleftrightarrow> map_sorted m \<and> (\<forall>p\<in>set m. map_sorted (snd p))"

lemma nested_empty [simp]: "nested_sorted []" "nested_get [] k l = []"
  by (simp_all add: nested_sorted_def nested_get_def nested_at_def)

lemma nested_sorted_at: "nested_sorted m \<Longrightarrow> map_sorted (nested_at m k)"
  unfolding nested_sorted_def nested_at_def using map_find_in [of m k] by (fastforce split: option.splits)

lemma nested_put_sorted [simp]: "nested_sorted m \<Longrightarrow> nested_sorted (nested_put k l vs m)"
proof -
  assume s: "nested_sorted m"
  then have "map_sorted (nested_at m k)" by (rule nested_sorted_at)
  with s set_map_put [of k "map_put l vs (nested_at m k)" m] show ?thesis
    unfolding nested_sorted_def nested_put_def by auto
qed

lemma nested_at_put: "nested_sorted m \<Longrightarrow>
   nested_at (nested_put k l vs m) k' = (if k' = k then map_put l vs (nested_at m k) else nested_at m k')"
  by (simp add: nested_put_def nested_at_def nested_sorted_def)

lemma nested_put_put: "nested_sorted m \<Longrightarrow> nested_put k l vs (nested_put k l ws m) = nested_put k l vs m"
  using nested_sorted_at [of m k]
  by (simp add: nested_put_def [of k l vs] nested_at_put map_put_put) (simp add: nested_put_def nested_sorted_def map_put_put)

lemma nested_get_put [simp]: "nested_sorted m \<Longrightarrow> nested_get (nested_put k l vs m) k l = vs"
  using nested_sorted_at [of m k] by (simp add: nested_get_def nested_at_put)

lemma nested_get_put_other:
  "nested_sorted m \<Longrightarrow> (k', l') \<noteq> (k, l) \<Longrightarrow> nested_get (nested_put k l vs m) k' l' = nested_get m k' l'"
  using nested_sorted_at [of m k] by (auto simp: nested_get_def nested_at_put)

lemma nested_get_in:
  assumes "nested_get m k l \<noteq> []"
  shows "\<exists>n. map_find m k = Some n \<and> map_find n l = Some (nested_get m k l)"
  using assms by (auto simp: nested_get_def nested_at_def split: option.splits)

end
