(* ===== verification/Djon_Strings.thy ===== *)
theory Djon_Strings
  imports Std_Map
begin

text \<open>
  util/stringfunctions.cpp and util/version.cpp: the strtok-based split, trim, the prefix and
  suffix tests, splitLines, the comparison of djondb::string values and version numbers. A C
  string argument is the string without its terminating null.
\<close>

section \<open>util/stringfunctions.cpp\<close>

definition startsWith :: "string \<Rightarrow> string \<Rightarrow> bool" where
  "startsWith source check \<longleftrightarrow>
     \<not> length source < length check \<and> take (length check) source = check"

definition endsWith :: "string \<Rightarrow> string \<Rightarrow> bool" where
  "endsWith source check \<longleftrightarrow>
     \<not> length source < length check \<and> drop (length source - length check) source = check"

text \<open>
  The successive tokens of strtok: delimiters in front of a token are skipped, a token ends at
  the next delimiter, and the scan goes on behind it. The first argument is the token so far.
\<close>

fun strtok_from :: "string \<Rightarrow> string \<Rightarrow> string \<Rightarrow> string list" where
  "strtok_from tok delim [] = (if tok = [] then [] else [tok])"
| "strtok_from tok delim (c # s) =
     (if c \<in> set delim then (if tok = [] then [] else [tok]) @ strtok_from [] delim s
      else strtok_from (tok @ [c]) delim s)"

definition strtok :: "string \<Rightarrow> string \<Rightarrow> string list" where
  "strtok delim s = strtok_from [] delim s"

definition split :: "string \<Rightarrow> string \<Rightarrow> string list" where
  "split str token = strtok token (c_str str)"

text \<open>
  trim drops the leading spaces, copies the rest and then clears spaces backwards from its
  end. On a text of spaces only, the second loop starts at index -1 and reads before the
  allocated block.
\<close>

definition trim :: "string \<Rightarrow> string res" where
  "trim str =
     (let rest = dropWhile (\<lambda>c. c = CHR '' '') str in
      if rest = [] then Inl Undefined_behaviour
      else Inr (rev (dropWhile (\<lambda>c. c = CHR '' '') (rev rest))))"

primrec countChar :: "string \<Rightarrow> char \<Rightarrow> nat" where
  "countChar [] c = 0"
| "countChar (x # xs) c = (if x = c then Suc (countChar xs c) else countChar xs c)"

text \<open>The loop of splitLines: the text of the current line, whether it has begun, its length.\<close>

fun splitLines_loop :: "string \<Rightarrow> string \<Rightarrow> bool \<Rightarrow> nat \<Rightarrow> string list \<Rightarrow> string list" where
  "splitLines_loop [] ss line chars lines = (if chars > 0 then lines @ [ss] else lines)"
| "splitLines_loop (c # cs) ss line chars lines =
     (if \<not> (c = CHR 0x0A \<or> c = CHR 0x0D) then splitLines_loop cs (ss @ [c]) True (chars + 1) lines
      else if line then splitLines_loop cs [] False 0 (lines @ [ss])
      else splitLines_loop cs ss line chars lines)"

definition splitLines :: "string \<Rightarrow> string list" where
  "splitLines str = splitLines_loop str [] False 0 []"

definition concatStrings :: "string \<Rightarrow> string \<Rightarrow> string" where
  "concatStrings a b = a @ b"

definition ascii_lower :: "char \<Rightarrow> char" where
  "ascii_lower c = (if CHR ''A'' \<le> c \<and> c \<le> CHR ''Z'' then char_of (of_char c + 32 :: nat) else c)"

definition compareInsensitive :: "string \<Rightarrow> string \<Rightarrow> bool" where
  "compareInsensitive a b \<longleftrightarrow> map ascii_lower a = map ascii_lower b"

text \<open>strncmp of two buffers over the same length: it stops at a common null.\<close>

definition byte_diff :: "char \<Rightarrow> char \<Rightarrow> int" where
  "byte_diff a b = int (of_char a) - int (of_char b)"

fun strncmp :: "string \<Rightarrow> string \<Rightarrow> int" where
  "strncmp (a # as) (b # bs) =
     (if a \<noteq> b then byte_diff a b else if a = CHR 0x00 then 0 else strncmp as bs)"
| "strncmp _ _ = 0"

text \<open>djondb::string::compare orders by length first.\<close>

definition dj_compare :: "string \<Rightarrow> string \<Rightarrow> int" where
  "dj_compare s1 s2 =
     (if length s1 < length s2 then - 1 else if length s1 > length s2 then 1 else strncmp s1 s2)"

definition dj_equal :: "string \<Rightarrow> string \<Rightarrow> bool" where
  "dj_equal s1 s2 \<longleftrightarrow> (if length s1 \<noteq> length s2 then False else strncmp s1 s2 = 0)"

subsection \<open>Tokens\<close>

lemma strtok_from_scan:
  "set t \<inter> set d = {} \<Longrightarrow> strtok_from tok d (t @ s) = strtok_from (tok @ t) d s"
  by (induction t arbitrary: tok) auto

lemma strtok_from_skip: "set t \<subseteq> set d \<Longrightarrow> strtok_from [] d (t @ s) = strtok_from [] d s"
  by (induction t) auto

lemma strtok_from_tokens:
  "set tok \<inter> set d = {} \<Longrightarrow> t \<in> set (strtok_from tok d s) \<Longrightarrow> t \<noteq> [] \<and> set t \<inter> set d = {}"
  by (induction tok d s rule: strtok_from.induct) (auto split: if_splits)

lemma strtok_tokens: "t \<in> set (strtok d s) \<Longrightarrow> t \<noteq> [] \<and> set t \<inter> set d = {}"
  unfolding strtok_def by (rule strtok_from_tokens) simp_all

text \<open>Joining clean tokens with a delimiter and splitting again gives the tokens back.\<close>

fun join :: "string \<Rightarrow> string list \<Rightarrow> string" where
  "join sep [] = []"
| "join sep [t] = t"
| "join sep (t # ts) = t @ sep @ join sep ts"

lemma strtok_join:
  assumes "sep \<noteq> []" "set sep \<subseteq> set d"
    and "\<forall>t\<in>set ts. t \<noteq> [] \<and> set t \<inter> set d = {}"
  shows "strtok d (join sep ts) = ts"
  using assms
proof (induction sep ts rule: join.induct)
  case (2 sep t)
  then show ?case using strtok_from_scan [of t d "[]" "[]"] by (simp add: strtok_def)
next
  case (3 sep t t' ts)
  obtain c cs where sep: "sep = c # cs" "c \<in> set d" "set cs \<subseteq> set d"
    using 3(2,3) by (cases sep) auto
  have "strtok_from [] d (t @ sep @ x) = t # strtok_from [] d x" for x
    using 3(4) sep strtok_from_scan [of t d "[]" "sep @ x"] strtok_from_skip [of cs d x]
    by (simp add: disjoint_iff)
  with 3 show ?case by (simp add: strtok_def)
qed (simp add: strtok_def)

text \<open>The hand-written line splitter is strtok on the two line ends.\<close>

lemma splitLines_loop_eq:
  "line = (ss \<noteq> []) \<Longrightarrow> chars = length ss \<Longrightarrow>
   splitLines_loop s ss line chars lines = lines @ strtok_from ss [CHR 0x0A, CHR 0x0D] s"
  by (induction s ss line chars lines rule: splitLines_loop.induct) auto

subsection \<open>Order\<close>

text \<open>What a sorted container relies on: a three-way comparison of its keys.\<close>

locale three_way =
  fixes cmp :: "'k \<Rightarrow> 'k \<Rightarrow> int"
    and ok :: "'k \<Rightarrow> bool"
  assumes cmp_zero: "ok a \<Longrightarrow> ok b \<Longrightarrow> cmp a b = 0 \<longleftrightarrow> a = b"
    and cmp_anti: "cmp b a = - cmp a b"
    and cmp_trans: "ok a \<Longrightarrow> ok b \<Longrightarrow> ok c \<Longrightarrow> cmp a b < 0 \<Longrightarrow> cmp b c < 0 \<Longrightarrow> cmp a c < 0"
begin

lemma cmp_refl [simp]: "cmp a a = 0"
  using cmp_anti [of a a] by simp

lemma cmp_pos: "0 < cmp a b \<longleftrightarrow> cmp b a < 0"
  using cmp_anti [of a b] by simp

lemma cmp_cases:
  assumes "ok a" "ok b"
  obtains "cmp a b < 0" | "a = b" | "cmp b a < 0"
  using assms cmp_zero [of a b] cmp_anti [of a b] by fastforce

lemma cmp_le_trans:
  assumes "ok a" "ok b" "ok c" "cmp a b \<le> 0" "cmp b c \<le> 0"
  shows "cmp a c \<le> 0"
proof (cases "cmp a b = 0 \<or> cmp b c = 0")
  case True
  with assms cmp_zero show ?thesis by fastforce
next
  case False
  with assms have "cmp a b < 0" "cmp b c < 0" by simp_all
  with assms cmp_trans [of a b c] show ?thesis by simp
qed

end

lemma byte_diff_zero [simp]: "byte_diff a b = 0 \<longleftrightarrow> a = b"
  unfolding byte_diff_def by (metis eq_iff_diff_eq_0 of_char_eq_iff of_nat_eq_iff)

lemma byte_diff_anti: "byte_diff b a = - byte_diff a b"
  by (simp add: byte_diff_def)

lemma strncmp_refl [simp]: "strncmp s s = 0"
  by (induction s) auto

lemma strncmp_eq:
  "length a = length b \<Longrightarrow> strncmp a b = 0 \<longleftrightarrow> c_str a = c_str b"
  by (induction a b rule: strncmp.induct) (auto simp: c_str_def)

lemma strncmp_anti: "strncmp b a = - strncmp a b"
proof (induction a b rule: strncmp.induct)
  case (1 a as b bs)
  then show ?case using byte_diff_anti [of a b] by (cases "a = b") simp_all
qed (simp_all split: list.split)

lemma strncmp_trans:
  "length a = length b \<Longrightarrow> length b = length c \<Longrightarrow> strncmp a b < 0 \<Longrightarrow> strncmp b c < 0 \<Longrightarrow>
   strncmp a c < 0"
proof (induction a b arbitrary: c rule: strncmp.induct)
  case (1 x as y bs)
  then obtain z cs where c: "c = z # cs" by (cases c) auto
  consider "x = y" "y = z" | "x = y" "y \<noteq> z" | "x \<noteq> y" "y = z" | "x \<noteq> y" "y \<noteq> z" by blast
  then show ?case
  proof cases
    case 1
    with "1.IH" [of cs] "1.prems" c show ?thesis by (auto split: if_splits)
  next
    case 4
    with "1.prems" c have "byte_diff x y < 0" "byte_diff y z < 0" by simp_all
    then have "byte_diff x z < 0" by (simp add: byte_diff_def)
    moreover from this have "x \<noteq> z" by (metis byte_diff_zero less_irrefl)
    ultimately show ?thesis by (simp add: c)
  qed (use "1.prems" c in simp_all)
qed simp_all

lemma strncmp_length_anti:
  "(length a = length b \<and> strncmp a b < 0) \<or> length a < length b \<longleftrightarrow> dj_compare a b < 0"
  by (auto simp: dj_compare_def)

lemma dj_compare_trans: "dj_compare a b < 0 \<Longrightarrow> dj_compare b c < 0 \<Longrightarrow> dj_compare a c < 0"
  using strncmp_trans [of a b c] strncmp_length_anti [of a b] strncmp_length_anti [of b c]
    strncmp_length_anti [of a c] by linarith

lemma dj_compare_anti: "dj_compare b a = - dj_compare a b"
  using strncmp_anti [of a b] by (simp add: dj_compare_def)

lemma dj_compare_zero:
  assumes "no_nul a" "no_nul b"
  shows "dj_compare a b = 0 \<longleftrightarrow> a = b"
proof
  assume zero: "dj_compare a b = 0"
  then have len: "length a = length b" by (simp add: dj_compare_def split: if_splits)
  with zero have "strncmp a b = 0" by (simp add: dj_compare_def)
  with strncmp_eq [OF len] assms show "a = b" by simp
qed (simp add: dj_compare_def)

interpretation dj_string: three_way dj_compare no_nul
  by unfold_locales (simp add: dj_compare_zero, rule dj_compare_anti, rule dj_compare_trans)

section \<open>util/version.cpp\<close>

text \<open>atoi: an optional sign and the digits up to the first other character.\<close>

fun atoi_digits :: "nat \<Rightarrow> string \<Rightarrow> nat" where
  "atoi_digits n [] = n"
| "atoi_digits n (c # cs) =
     (if CHR ''0'' \<le> c \<and> c \<le> CHR ''9'' then atoi_digits (10 * n + (of_char c - 48)) cs else n)"

fun atoi :: "string \<Rightarrow> int" where
  "atoi (CHR ''-'' # cs) = - int (atoi_digits 0 cs)"
| "atoi (CHR ''+'' # cs) = int (atoi_digits 0 cs)"
| "atoi (CHR '' '' # cs) = atoi cs"
| "atoi cs = int (atoi_digits 0 cs)"

text \<open>The digits of a number as sprintf and operator<< write them.\<close>

fun digits :: "nat \<Rightarrow> string" where
  "digits n = (if n < 10 then [char_of (48 + n)] else digits (n div 10) @ [char_of (48 + n mod 10)])"

declare digits.simps [simp del]

definition int_text :: "int \<Rightarrow> string" where
  "int_text n = (if n < 0 then ''-'' @ digits (nat (- n)) else digits (nat n))"

lemma digit_char: "n < 10 \<Longrightarrow> CHR ''0'' \<le> (char_of (48 + n) :: char) \<and> (char_of (48 + n) :: char) \<le> CHR ''9'' \<and>
    of_char (char_of (48 + n) :: char) = (48 + n :: nat)"
  by (simp add: less_eq_char_def)

lemma atoi_digits_append:
  "\<forall>c\<in>set cs. CHR ''0'' \<le> c \<and> c \<le> CHR ''9'' \<Longrightarrow> atoi_digits n (cs @ ds) = atoi_digits (atoi_digits n cs) ds"
  by (induction cs arbitrary: n) simp_all

lemma digits_set: "\<forall>c\<in>set (digits n). CHR ''0'' \<le> c \<and> c \<le> CHR ''9''"
proof (induction n rule: digits.induct)
  case (1 n)
  then show ?case using digit_char [of "n mod 10"] digit_char [of n] by (subst digits.simps) (auto split: if_splits)
qed

lemma atoi_digits_digits: "atoi_digits 0 (digits n) = n"
proof (induction n rule: digits.induct)
  case (1 n)
  show ?case
  proof (cases "n < 10")
    case True
    with digit_char [of n] show ?thesis by (simp add: digits.simps [of n])
  next
    case False
    with 1 digits_set [of "n div 10"] digit_char [of "n mod 10"] show ?thesis
      by (simp add: digits.simps [of n] atoi_digits_append)
  qed
qed

record version =
  version_text :: string
  mayor :: int
  minor :: int
  revision :: int

definition parse_version :: "string \<Rightarrow> version res" where
  "parse_version txt =
     (let values = split txt ''.'' in
      if values = [] then Inl Out_of_range
      else Inr \<lparr>version_text = txt, mayor = atoi (values ! 0),
                minor = (if length values > 1 then atoi (values ! 1) else 0),
                revision = (if length values > 2 then atoi (values ! 2) else 0)\<rparr>)"

text \<open>The copy constructor leaves the minor number unset; the argument is what memory held.\<close>

definition copy_version :: "int \<Rightarrow> version \<Rightarrow> version" where
  "copy_version junk v =
     \<lparr>version_text = version_text v, mayor = mayor v, minor = junk, revision = revision v\<rparr>"

definition version_eq :: "version \<Rightarrow> version \<Rightarrow> bool" where
  "version_eq v w \<longleftrightarrow> mayor v = mayor w \<and> minor v = minor w \<and> revision v = revision w"

definition version_gt :: "version \<Rightarrow> version \<Rightarrow> bool" where
  "version_gt v w \<longleftrightarrow>
     (if mayor v > mayor w then True
      else if mayor v = mayor w \<and> minor v > minor w then True
      else if mayor v = mayor w \<and> minor v = minor w \<and> revision v > revision w then True
      else False)"

definition version_ge :: "version \<Rightarrow> version \<Rightarrow> bool" where
  "version_ge v w \<longleftrightarrow> (if version_eq v w then True else version_gt v w)"

definition version_lt :: "version \<Rightarrow> version \<Rightarrow> bool" where
  "version_lt v w \<longleftrightarrow>
     (if mayor v < mayor w then True
      else if mayor v = mayor w \<and> minor v < minor w then True
      else if mayor v = mayor w \<and> minor v = minor w \<and> revision v < revision w then True
      else False)"

definition version_le :: "version \<Rightarrow> version \<Rightarrow> bool" where
  "version_le v w \<longleftrightarrow> (if version_eq v w then True else version_lt v w)"

named_theorems version_defs "the comparison operators of Version"
declare version_eq_def [version_defs] version_gt_def [version_defs] version_ge_def [version_defs]
  version_lt_def [version_defs] version_le_def [version_defs]

text \<open>The three-way comparison the operators decide, as an order on the number triples.\<close>

definition version_key :: "version \<Rightarrow> int \<times> int \<times> int" where
  "version_key v = (mayor v, minor v, revision v)"

end
