(* ===== verification/Bson.thy ===== *)
theory Bson
  imports Djon_Strings
begin

text \<open>
  The document model of bson/: values with their type tags (bsoncontent.cpp), documents as maps
  from keys to values (bsonobj.cpp), arrays of documents (bsonarrayobj.cpp) and the column
  selections of bsonutil.cpp. A double is its IEEE 754 bit pattern.
\<close>

section \<open>Values and documents\<close>

datatype bsontype =
    INT_TYPE | DOUBLE_TYPE | LONG_TYPE | PTRCHAR_TYPE | STRING_TYPE | BSON_TYPE
  | BSONARRAY_TYPE | UNKNOWN_TYPE | NULL_TYPE | LONG64_TYPE | BOOL_TYPE

fun type_code :: "bsontype \<Rightarrow> nat" where
  "type_code INT_TYPE = 0"
| "type_code DOUBLE_TYPE = 1"
| "type_code LONG_TYPE = 2"
| "type_code PTRCHAR_TYPE = 3"
| "type_code STRING_TYPE = 4"
| "type_code BSON_TYPE = 5"
| "type_code BSONARRAY_TYPE = 6"
| "type_code UNKNOWN_TYPE = 7"
| "type_code NULL_TYPE = 8"
| "type_code LONG64_TYPE = 9"
| "type_code BOOL_TYPE = 10"

datatype content =
    CBool bool
  | CInt int32
  | CLong int64
  | CDouble int64
  | CString string
  | CBson "(string \<times> content) list"
  | CArray "(string \<times> content) list list"

type_synonym bson = "(string, content) std_map"

fun content_type :: "content \<Rightarrow> bsontype" where
  "content_type (CBool _) = BOOL_TYPE"
| "content_type (CInt _) = INT_TYPE"
| "content_type (CLong _) = LONG_TYPE"
| "content_type (CDouble _) = DOUBLE_TYPE"
| "content_type (CString _) = PTRCHAR_TYPE"
| "content_type (CBson _) = BSON_TYPE"
| "content_type (CArray _) = BSONARRAY_TYPE"

text \<open>Every document is a std::map, at every depth.\<close>

fun content_sorted :: "content \<Rightarrow> bool"
  and bson_sorted :: "(string \<times> content) list \<Rightarrow> bool"
  and array_sorted :: "(string \<times> content) list list \<Rightarrow> bool" where
  "content_sorted (CBson o1) = bson_sorted o1"
| "content_sorted (CArray os) = array_sorted os"
| "content_sorted _ = True"
| "bson_sorted [] = True"
| "bson_sorted ((k, c) # o1) =
     ((\<forall>q\<in>set o1. k < fst q) \<and> content_sorted c \<and> bson_sorted o1)"
| "array_sorted [] = True"
| "array_sorted (o1 # os) = (bson_sorted o1 \<and> array_sorted os)"

lemma bson_sorted_iff: "bson_sorted o1 \<longleftrightarrow> map_sorted o1 \<and> (\<forall>p\<in>set o1. content_sorted (snd p))"
proof (induction o1)
  case (Cons p o1)
  then show ?case by (cases p) fastforce
qed simp

lemma array_sorted_iff [simp]: "array_sorted os \<longleftrightarrow> (\<forall>o1\<in>set os. bson_sorted o1)"
  by (induction os) auto

section \<open>Building and reading documents\<close>

definition bson_remove :: "string \<Rightarrow> bson \<Rightarrow> bson" where
  "bson_remove kkey o1 = map_erase kkey o1"

definition bson_add :: "string \<Rightarrow> content \<Rightarrow> bson \<Rightarrow> bson" where
  "bson_add key val o1 = map_insert key val (bson_remove key o1)"

text \<open>add(key, const char*) measures the text with strlen.\<close>

definition bson_add_chars :: "string \<Rightarrow> string \<Rightarrow> bson \<Rightarrow> bson" where
  "bson_add_chars key val o1 = bson_add key (CString (c_str val)) o1"

definition getContent :: "bson \<Rightarrow> string \<Rightarrow> content option" where
  "getContent o1 key = map_find o1 key"

definition getContent_typed :: "bson \<Rightarrow> string \<Rightarrow> bsontype \<Rightarrow> content option res" where
  "getContent_typed o1 key ttype =
     (case getContent o1 key of
        None \<Rightarrow> Inr None
      | Some c \<Rightarrow> if content_type c \<noteq> ttype then Inl (Thrown ''type does not match'')
                  else Inr (Some c))"

definition bson_has :: "bson \<Rightarrow> string \<Rightarrow> bool" where
  "bson_has o1 key = (\<exists>p\<in>set o1. fst p = key)"

definition bson_length :: "bson \<Rightarrow> nat" where
  "bson_length o1 = length o1"

definition bson_type :: "bson \<Rightarrow> string \<Rightarrow> bsontype" where
  "bson_type o1 key =
     (case map_find o1 key of Some c \<Rightarrow> content_type c | None \<Rightarrow> UNKNOWN_TYPE)"

text \<open>format prints into a block of 1000 bytes.\<close>

definition format_s :: "string \<Rightarrow> string \<Rightarrow> string \<Rightarrow> string res" where
  "format_s front arg back =
     (let txt = front @ c_str arg @ back in
      if length txt < 1000 then Inr txt else Inl Undefined_behaviour)"

definition key_not_found :: "string \<Rightarrow> 'a res" where
  "key_not_found key = bindR (format_s ''key not found '' key '''') (\<lambda>m. Inl (Bson_exception m))"

definition bson_get :: "bson \<Rightarrow> string \<Rightarrow> content res" where
  "bson_get o1 key = (case map_find o1 key of Some c \<Rightarrow> Inr c | None \<Rightarrow> key_not_found key)"

definition getBoolean :: "bson \<Rightarrow> string \<Rightarrow> bool res" where
  "getBoolean o1 key = (case getContent o1 key of Some (CBool b) \<Rightarrow> Inr b | _ \<Rightarrow> key_not_found key)"

definition getInt :: "bson \<Rightarrow> string \<Rightarrow> int32 res" where
  "getInt o1 key = (case getContent o1 key of Some (CInt i) \<Rightarrow> Inr i | _ \<Rightarrow> key_not_found key)"

definition getDouble :: "bson \<Rightarrow> string \<Rightarrow> int64 res" where
  "getDouble o1 key = (case getContent o1 key of Some (CDouble d) \<Rightarrow> Inr d | _ \<Rightarrow> key_not_found key)"

definition getLong :: "bson \<Rightarrow> string \<Rightarrow> int64 res" where
  "getLong o1 key = (case getContent o1 key of Some (CLong l) \<Rightarrow> Inr l | _ \<Rightarrow> key_not_found key)"

definition getDJString :: "bson \<Rightarrow> string \<Rightarrow> string res" where
  "getDJString o1 key = (case getContent o1 key of Some (CString s) \<Rightarrow> Inr s | _ \<Rightarrow> key_not_found key)"

text \<open>djondb::string::str copies up to the first null byte.\<close>

definition getString :: "bson \<Rightarrow> string \<Rightarrow> string res" where
  "getString o1 key = bindR (getDJString o1 key) (\<lambda>s. Inr (c_str s))"

definition getBSON :: "bson \<Rightarrow> string \<Rightarrow> bson res" where
  "getBSON o1 key = (case getContent o1 key of Some (CBson i) \<Rightarrow> Inr i | _ \<Rightarrow> key_not_found key)"

definition getBSONArray :: "bson \<Rightarrow> string \<Rightarrow> bson list res" where
  "getBSONArray o1 key =
     (case getContent o1 key of Some (CArray os) \<Rightarrow> Inr os | _ \<Rightarrow> key_not_found key)"

definition array_add :: "bson list \<Rightarrow> bson \<Rightarrow> bson list" where
  "array_add os o1 = os @ [o1]"

definition array_get :: "bson list \<Rightarrow> int \<Rightarrow> bson res" where
  "array_get os index =
     (if 0 \<le> index \<and> index < int (length os) then Inr (os ! nat index) else Inl Out_of_range)"

text \<open>A path a.b.c goes down through nested documents; other values ignore the rest of it.\<close>

function getXpath :: "bson \<Rightarrow> string \<Rightarrow> content option" where
  "getXpath o1 xpath =
     (if CHR ''.'' \<notin> set xpath then getContent o1 xpath
      else (let path = takeWhile (\<lambda>c. c \<noteq> CHR ''.'') xpath in
            case getContent o1 path of
              Some (CBson inner) \<Rightarrow> getXpath inner (drop (Suc (length path)) xpath)
            | r \<Rightarrow> r))"
  by pat_completeness auto
termination
  by (relation "measure (\<lambda>(o1, p). length p)") (auto intro: diff_less length_pos_if_in_set)
declare getXpath.simps [simp del]

text \<open>The copy constructor inserts a copy of every value into a new map.\<close>

fun copy_content :: "content \<Rightarrow> content"
  and copy_loop :: "(string \<times> content) list \<Rightarrow> bson \<Rightarrow> bson"
  and copy_array :: "(string \<times> content) list list \<Rightarrow> (string \<times> content) list list" where
  "copy_content (CBson o1) = CBson (copy_loop o1 [])"
| "copy_content (CArray os) = CArray (copy_array os)"
| "copy_content c = c"
| "copy_loop [] o2 = o2"
| "copy_loop ((k, c) # o1) o2 = copy_loop o1 (map_insert k (copy_content c) o2)"
| "copy_array [] = []"
| "copy_array (o1 # os) = copy_loop o1 [] # copy_array os"

definition copy_bson :: "bson \<Rightarrow> bson" where
  "copy_bson o1 = copy_loop o1 []"

section \<open>Comparison\<close>

text \<open>Equality of doubles on their bit patterns: a NaN equals nothing, the two zeros are equal.\<close>

definition ieee_mag :: "int64 \<Rightarrow> nat" where
  "ieee_mag d = unat d mod 2 ^ 63"

definition ieee_nan :: "int64 \<Rightarrow> bool" where
  "ieee_nan d \<longleftrightarrow> ieee_mag d > 0x7FF0000000000000"

definition ieee_key :: "int64 \<Rightarrow> int" where
  "ieee_key d = (if unat d < 2 ^ 63 then int (ieee_mag d) else - int (ieee_mag d))"

definition ieee_eq :: "int64 \<Rightarrow> int64 \<Rightarrow> bool" where
  "ieee_eq a b \<longleftrightarrow> \<not> ieee_nan a \<and> \<not> ieee_nan b \<and> ieee_key a = ieee_key b"

definition ieee_gt :: "int64 \<Rightarrow> int64 \<Rightarrow> bool" where
  "ieee_gt a b \<longleftrightarrow> \<not> ieee_nan a \<and> \<not> ieee_nan b \<and> ieee_key a > ieee_key b"

text \<open>
  The comparison of two values of the same type. The one of nested documents converts its
  argument into a temporary copy and then reads the document that the copy's destructor has
  just freed; the one of arrays is a constant.
\<close>

fun content_eq :: "content \<Rightarrow> content \<Rightarrow> bool res" where
  "content_eq (CBool a) (CBool b) = Inr (a = b)"
| "content_eq (CInt a) (CInt b) = Inr (a = b)"
| "content_eq (CLong a) (CLong b) = Inr (a = b)"
| "content_eq (CDouble a) (CDouble b) = Inr (ieee_eq a b)"
| "content_eq (CString a) (CString b) = Inr (dj_equal a b)"
| "content_eq (CBson _) (CBson _) = Inl Undefined_behaviour"
| "content_eq (CArray _) (CArray _) = Inr False"
| "content_eq _ _ = Inr False"

text \<open>The loop of BSONObj::operator== returns inside its first round.\<close>

fun bson_eq_loop :: "(string \<times> content) list \<Rightarrow> bson \<Rightarrow> bool res" where
  "bson_eq_loop [] obj = Inr True"
| "bson_eq_loop ((key, c) # rest) obj =
     (case getContent obj key of
        None \<Rightarrow> Inr False
      | Some other \<Rightarrow> if content_type c \<noteq> content_type other then Inr False else content_eq c other)"

definition bson_eq :: "bson \<Rightarrow> bson \<Rightarrow> bool res" where
  "bson_eq o1 obj = (if bson_length o1 \<noteq> bson_length obj then Inr False else bson_eq_loop o1 obj)"

definition content_neq :: "content \<Rightarrow> content \<Rightarrow> bool res" where
  "content_neq a b = bindR (content_eq a b) (\<lambda>r. Inr (\<not> r))"

fun bson_neq_loop :: "(string \<times> content) list \<Rightarrow> bson \<Rightarrow> bool res" where
  "bson_neq_loop [] obj = Inr False"
| "bson_neq_loop ((key, c) # rest) obj =
     (case getContent obj key of
        None \<Rightarrow> Inr True
      | Some other \<Rightarrow>
          if content_type c \<noteq> content_type other then Inr True
          else bindR (content_neq c other) (\<lambda>r. if r then Inr True else bson_neq_loop rest obj))"

text \<open>With an _id on both sides the base class operator is called, which always throws.\<close>

definition bson_neq :: "bson \<Rightarrow> bson \<Rightarrow> bool res" where
  "bson_neq o1 obj =
     (if bson_has o1 ''_id'' \<and> bson_has obj ''_id''
      then Inl (Bson_exception ''cannot compare BSONContents'')
      else if bson_length o1 \<noteq> bson_length obj then Inr True
      else bson_neq_loop o1 obj)"

section \<open>Facts\<close>

lemmas bson_lookup_defs = bson_get_def getBoolean_def getInt_def getDouble_def getLong_def
  getDJString_def getString_def getBSON_def getBSONArray_def bson_type_def getContent_typed_def

lemma bson_add_put: "bson_add k v o1 = map_put k v o1"
  by (simp add: bson_add_def bson_remove_def map_put_def)

lemma bson_sorted_map [simp]: "bson_sorted o1 \<Longrightarrow> map_sorted o1"
  by (simp add: bson_sorted_iff)

lemma getContent_add [simp]:
  "map_sorted o1 \<Longrightarrow> getContent (bson_add k v o1) k' = (if k' = k then Some v else getContent o1 k')"
  by (simp add: getContent_def bson_add_put)

lemma getContent_remove [simp]:
  "getContent (bson_remove k o1) k' = (if k' = k then None else getContent o1 k')"
  by (simp add: getContent_def bson_remove_def map_find_erase)

lemma bson_has_iff: "bson_has o1 k \<longleftrightarrow> getContent o1 k \<noteq> None"
  unfolding bson_has_def getContent_def using map_find_None [of o1 k] by (metis image_iff)

lemma bson_sorted_remove [simp]: "bson_sorted o1 \<Longrightarrow> bson_sorted (bson_remove k o1)"
  by (auto simp: bson_sorted_iff bson_remove_def map_sorted_filter map_erase_def)

lemma bson_sorted_insert:
  "bson_sorted o1 \<Longrightarrow> content_sorted v \<Longrightarrow> bson_sorted (map_insert k v o1)"
  using set_map_insert [of k v o1] by (auto simp: bson_sorted_iff map_sorted_insert)

lemma bson_sorted_add [simp]:
  "bson_sorted o1 \<Longrightarrow> content_sorted v \<Longrightarrow> bson_sorted (bson_add k v o1)"
  by (simp add: bson_add_def bson_sorted_insert)

lemma map_sorted_append_below:
  "map_sorted (xs @ (k, c) # ys) \<Longrightarrow> \<forall>q\<in>set xs. fst q < k"
  by (induction xs) auto

lemma copy_correct:
  "content_sorted c \<Longrightarrow> copy_content c = c"
  "map_sorted (o2 @ o1) \<Longrightarrow> bson_sorted o1 \<Longrightarrow> copy_loop o1 o2 = o2 @ o1"
  "array_sorted os \<Longrightarrow> copy_array os = os"
proof (induction c and o1 o2 and os rule: copy_content_copy_loop_copy_array.induct)
  case (5 k c o1 o2)
  then have "map_insert k (copy_content c) o2 = o2 @ [(k, c)]"
    by (simp add: map_insert_last map_sorted_append_below)
  with 5 show ?case by simp
qed simp_all

lemma copy_bson_id: "bson_sorted o1 \<Longrightarrow> copy_bson o1 = o1"
  using copy_correct(2) [of "[]" o1] by (simp add: copy_bson_def)

text \<open>The walk that a dotted path stands for, on the list of its names.\<close>

fun bson_walk :: "bson \<Rightarrow> string list \<Rightarrow> content option" where
  "bson_walk o1 [] = getContent o1 []"
| "bson_walk o1 [k] = getContent o1 k"
| "bson_walk o1 (k # ks) =
     (case getContent o1 k of Some (CBson inner) \<Rightarrow> bson_walk inner ks | r \<Rightarrow> r)"

lemma getXpath_walk:
  "\<forall>k\<in>set ks. CHR ''.'' \<notin> set k \<Longrightarrow> getXpath o1 (join ''.'' ks) = bson_walk o1 ks"
proof (induction o1 ks rule: bson_walk.induct)
  case (3 o1 k k' ks)
  then have "takeWhile (\<lambda>c. c \<noteq> CHR ''.'') (k @ CHR ''.'' # x) = k" for x
    by (intro takeWhile_stop) auto
  with 3 show ?case
    by (subst getXpath.simps) (auto split: option.splits content.splits)
qed (simp_all add: getXpath.simps)

end
