(* ===== verification/Bson_Parser.thy ===== *)
theory Bson_Parser
  imports Bson
begin

text \<open>
  The parser of arrays of documents that is written by hand: BSONParser::parseArray and parseBSON
  (bson/bsonparser.cpp). A position in the text is the rest of the text from there; None is a position
  behind the terminator. The conversion of atof is an argument.
\<close>

section \<open>Numbers\<close>

definition isspace :: "char \<Rightarrow> bool" where
  "isspace c \<longleftrightarrow> c = CHR 0x20 \<or> c = CHR 0x09 \<or> c = CHR 0x0A \<or> c = CHR 0x0B \<or> c = CHR 0x0C \<or> c = CHR 0x0D"

definition atoll :: "string \<Rightarrow> int" where
  "atoll s = (case dropWhile isspace s of
     [] \<Rightarrow> 0
   | c # cs \<Rightarrow> if c = CHR ''-'' then - int (atoi_digits 0 cs)
       else if c = CHR ''+'' then int (atoi_digits 0 cs)
       else int (atoi_digits 0 (c # cs)))"

section \<open>The parser\<close>

text \<open>The variables type and value; a type that is not set stands for the default.\<close>

datatype parse_value = Number_value | Real_value | String_value | Doc_value bson | Array_value "bson list"

text \<open>A quoted text up to its quote; a backslash keeps the character behind it from closing it.\<close>

fun collect :: "char \<Rightarrow> bool \<Rightarrow> string \<Rightarrow> (string \<times> string) option" where
  "collect quote escaped [] = None"
| "collect quote escaped (c # s) =
     (if c = quote \<and> \<not> escaped then Some ([], s)
      else case collect quote (c = CHR 0x5C) s of None \<Rightarrow> None | Some (cs, rest) \<Rightarrow> Some (c # cs, rest))"

text \<open>A number that does not fit into 64 bits is undefined (atoll).\<close>

definition add_value :: "(string \<Rightarrow> int64) \<Rightarrow> string \<Rightarrow> parse_value \<Rightarrow> string \<Rightarrow> bson \<Rightarrow> bson res" where
  "add_value atof name v buffer obj =
     (case v of
        Number_value \<Rightarrow>
          (let n = atoll buffer in
           if n < - (2 ^ 63) \<or> 2 ^ 63 \<le> n then Inl Undefined_behaviour
           else if n \<le> 2 ^ 31 - 1 then Inr (bson_add name (CInt (word_of_int n)) obj)
           else Inr (bson_add name (CLong (word_of_int n)) obj))
      | Real_value \<Rightarrow> Inr (bson_add name (CDouble (atof buffer)) obj)
      | String_value \<Rightarrow> Inr (bson_add_chars name buffer obj)
      | Doc_value inner \<Rightarrow> Inr (bson_add name (CBson inner) obj)
      | Array_value inner \<Rightarrow> Inr (bson_add name (CArray inner) obj))"

text \<open>
  parseBSON is declared throw(BSONException). What it throws is a pointer to a BSONException or a text,
  so std::unexpected ends the program, whoever called.
\<close>

definition unexpected :: "'a res" where
  "unexpected = Inl Terminated"

text \<open>The variables of parseBSON. The states are 0: nothing, 1: name, 2: value.\<close>

record parser =
  pr_state :: nat
  pr_buffer :: string
  pr_name :: "string option"
  pr_value :: parse_value
  pr_obj :: bson

definition new_parser :: parser where
  "new_parser = \<lparr>pr_state = 0, pr_buffer = [], pr_name = None, pr_value = Number_value, pr_obj = []\<rparr>"

text \<open>The pair in the variables goes into the document.\<close>

definition add_pair :: "(string \<Rightarrow> int64) \<Rightarrow> parser \<Rightarrow> bson res" where
  "add_pair atof p = (case pr_name p of None \<Rightarrow> Inr (pr_obj p)
     | Some name \<Rightarrow> add_value atof name (pr_value p) (c_str (pr_buffer p)) (pr_obj p))"

definition next_pair :: "bson \<Rightarrow> parser" where
  "next_pair obj = \<lparr>pr_state = 1, pr_buffer = [], pr_name = None, pr_value = Number_value, pr_obj = obj\<rparr>"

text \<open>A character that is no bracket, quote, or end of a pair.\<close>

definition parse_char :: "char \<Rightarrow> parser \<Rightarrow> parser" where
  "parse_char c p =
     (if c = CHR '':'' then
        p\<lparr>pr_state := 2, pr_buffer := [], pr_name := Some (c_str (pr_buffer p)), pr_value := Number_value\<rparr>
      else if c = CHR 0x20 \<or> c = CHR 0x0D \<or> c = CHR 0x0A then p
      else p\<lparr>pr_buffer := pr_buffer p @ [c],
             pr_value := (if c = CHR ''.'' \<and> pr_state p = 2 then Real_value else pr_value p)\<rparr>)"

text \<open>The inner loop of parseArray: up to the next document or the end of the array.\<close>

definition next_bracket :: "string \<Rightarrow> string" where
  "next_bracket s = dropWhile (\<lambda>c. c \<noteq> CHR '']'' \<and> c \<noteq> CHR ''{'') s"

text \<open>
  The loop of parseArray over the parser of one document; the fuel counts rounds. The result is null when
  the text does not begin with a bracket.
\<close>

primrec array_loop ::
    "(string \<Rightarrow> (bson \<times> string option) res) \<Rightarrow> nat \<Rightarrow> bson list option \<Rightarrow> string \<Rightarrow> (bson list option \<times> string option) res" where
  "array_loop parse 0 result s = Inl No_fuel"
| "array_loop parse (Suc n) result s =
     (case next_bracket s of
        [] \<Rightarrow> Inr (result, Some [])
      | c # s \<Rightarrow>
          if c = CHR '']'' then Inr (result, Some (c # s))
          else bindR (parse (c # s)) (\<lambda>(inner, rest).
            case result of
              None \<Rightarrow> Inl Undefined_behaviour
            | Some os \<Rightarrow>
                (case rest of
                   None \<Rightarrow> Inr (Some (os @ [inner]), None)
                 | Some s \<Rightarrow> array_loop parse n (Some (os @ [inner])) s)))"

definition parse_array :: "(string \<Rightarrow> (bson \<times> string option) res) \<Rightarrow> string \<Rightarrow> (bson list option \<times> string option) res" where
  "parse_array parse s =
     (let s = dropWhile (\<lambda>c. c = CHR 0x20) s in
      array_loop parse (Suc (length s)) (if take 1 s = ''['' then Some [] else None) s)"

text \<open>The loop of parseBSON; the fuel counts its rounds and the documents inside each other.\<close>

primrec parse_loop :: "(string \<Rightarrow> int64) \<Rightarrow> nat \<Rightarrow> parser \<Rightarrow> string \<Rightarrow> (bson \<times> string option) res" where
  "parse_loop atof 0 p s = Inl No_fuel"
| "parse_loop atof (Suc n) p s =
     (case s of
        [] \<Rightarrow> Inr (pr_obj p, Some [])
      | c # s \<Rightarrow>
          if c = CHR ''{'' then
            (if pr_state p = 2 then
               bindR (parse_loop atof n new_parser (c # s)) (\<lambda>(inner, rest).
               case rest of
                 Some (_ # s) \<Rightarrow> parse_loop atof n (p\<lparr>pr_value := Doc_value inner\<rparr>) s
               | _ \<Rightarrow> Inr (pr_obj p, None))
             else if pr_state p = 0 then
               parse_loop atof n (p\<lparr>pr_state := 1, pr_buffer := [], pr_value := Number_value\<rparr>) s
             else unexpected)
          else if c = CHR ''['' then
            bindR (parse_array (parse_loop atof n new_parser) (c # s)) (\<lambda>(inner, rest).
            case (inner, rest) of
              (Some os, Some (close # s)) \<Rightarrow>
                parse_loop atof n (parse_char close (p\<lparr>pr_value := Array_value os\<rparr>)) s
            | (Some os, Some []) \<Rightarrow> Inr (pr_obj p, None)
            | _ \<Rightarrow> Inl Undefined_behaviour)
          else if c = CHR ''}'' then bindR (add_pair atof p) (\<lambda>obj. Inr (obj, Some (c # s)))
          else if c = CHR '','' \<and> pr_name p \<noteq> None then
            bindR (add_pair atof p) (\<lambda>obj. parse_loop atof n (next_pair obj) s)
          else if c = CHR 0x27 \<or> c = CHR 0x22 then
            (case collect c False s of
               None \<Rightarrow> unexpected
             | Some (cs, s) \<Rightarrow> parse_loop atof n (p\<lparr>pr_buffer := pr_buffer p @ cs, pr_value := String_value\<rparr>) s)
          else parse_loop atof n (parse_char c p) s)"

text \<open>Every document takes a bracket, and every round a character.\<close>

definition parser_fuel :: "string \<Rightarrow> nat" where
  "parser_fuel s = 2 * length s + 2"

text \<open>parseArray on a string; None is the null pointer.\<close>

definition parseArray :: "(string \<Rightarrow> int64) \<Rightarrow> string \<Rightarrow> bson list option res" where
  "parseArray atof sbson =
     (let s = c_str sbson in
      bindR (parse_array (parse_loop atof (parser_fuel s) new_parser) s) (\<lambda>(result, _). Inr result))"

section \<open>The parser returns\<close>

text \<open>What follows a nested document, an array and a quoted text.\<close>

lemma after_document:
  "(case rest of None \<Rightarrow> Inr (d, None) | Some [] \<Rightarrow> Inr (d, None) | Some (y # ys) \<Rightarrow> f ys) = Inr (out, Some r) \<longleftrightarrow>
     (\<exists>y ys. rest = Some (y # ys) \<and> f ys = Inr (out, Some r))"
  "(case rest of None \<Rightarrow> Inr (d, None) | Some [] \<Rightarrow> Inr (d, None) | Some (y # ys) \<Rightarrow> f ys) = Inl e \<longleftrightarrow>
     (\<exists>y ys. rest = Some (y # ys) \<and> f ys = Inl e)"
  by (auto split: option.split list.split)

lemma collect_length: "collect q e s = Some (cs, r) \<Longrightarrow> length r < length s"
proof (induction q e s arbitrary: cs rule: collect.induct)
  case (2 quote escaped c s)
  then show ?case by (cases "collect quote (c = CHR 0x5C) s") (auto split: if_splits)
qed simp

lemma add_value_fuel [simp]: "add_value atof name v buffer obj \<noteq> Inl No_fuel"
  by (simp add: add_value_def Let_def split: parse_value.split)

lemma add_pair_fuel [simp]: "add_pair atof p \<noteq> Inl No_fuel"
  by (simp add: add_pair_def split: option.split)

lemma unexpected_iff [simp]: "unexpected \<noteq> Inr x" "unexpected \<noteq> Inl No_fuel"
  by (simp_all add: unexpected_def)

text \<open>A round of the loop of parseArray finds the end of the text, the bracket, or the next document.\<close>

lemma next_bracket_length: "length (next_bracket s) \<le> length s"
  unfolding next_bracket_def by (rule length_dropWhile_le)

lemma skip_cases:
  obtains "next_bracket s = []"
  | t where "next_bracket s = CHR '']'' # t" "length t < length s"
  | t where "next_bracket s = CHR ''{'' # t" "length t < length s"
proof (cases "next_bracket s")
  case (Cons c t)
  have "length (c # t) \<le> length s" unfolding Cons [symmetric] by (rule next_bracket_length)
  moreover from Cons have "c = CHR '']'' \<or> c = CHR ''{''" by (auto simp: next_bracket_def dropWhile_eq_Cons_conv)
  ultimately show ?thesis using that(2) [of t] that(3) [of t] Cons by auto
qed (rule that(1))

definition shortens :: "(string \<Rightarrow> (bson \<times> string option) res) \<Rightarrow> bool" where
  "shortens parse \<longleftrightarrow> (\<forall>t inner r. parse (CHR ''{'' # t) = Inr (inner, Some r) \<longrightarrow> length r \<le> length t)"

lemma array_loop_rest:
  assumes "shortens parse"
  shows "array_loop parse k res s = Inr (out, Some r) \<Longrightarrow> length r \<le> length s"
proof (induction k arbitrary: res s)
  case (Suc k)
  show ?case
  proof (rule skip_cases [of s])
    fix t assume t: "next_bracket s = CHR ''{'' # t" "length t < length s"
    with Suc.prems have "bindR (parse (CHR ''{'' # t)) (\<lambda>(inner, rest).
        case res of None \<Rightarrow> Inl Undefined_behaviour
        | Some os \<Rightarrow> (case rest of None \<Rightarrow> Inr (Some (os @ [inner]), None)
                    | Some s \<Rightarrow> array_loop parse k (Some (os @ [inner])) s)) = Inr (out, Some r)" by simp
    then obtain x where p: "parse (CHR ''{'' # t) = Inr x" "(case x of (inner, rest) \<Rightarrow>
        case res of None \<Rightarrow> Inl Undefined_behaviour
        | Some os \<Rightarrow> (case rest of None \<Rightarrow> Inr (Some (os @ [inner]), None)
                    | Some s \<Rightarrow> array_loop parse k (Some (os @ [inner])) s)) = Inr (out, Some r)"
      unfolding bindR_Inr_iff by blast
    obtain inner rest where x: "x = (inner, rest)" by (cases x)
    from p(2) x obtain os t2 where rest: "rest = Some t2"
      and "array_loop parse k (Some (os @ [inner])) t2 = Inr (out, Some r)" by (cases res; cases rest) auto
    from Suc.IH [OF this(2)] p(1) x rest assms t(2) show ?thesis unfolding shortens_def by fastforce
  next
    fix t assume "next_bracket s = CHR '']'' # t"
    with Suc.prems have "r = next_bracket s" by simp
    then show ?thesis by (simp add: next_bracket_length)
  qed (use Suc.prems in simp)
qed simp

lemma array_loop_returns:
  assumes "shortens parse"
  shows "length s < k \<Longrightarrow> (\<And>t. length t < length s \<Longrightarrow> parse (CHR ''{'' # t) \<noteq> Inl No_fuel) \<Longrightarrow>
    array_loop parse k res s \<noteq> Inl No_fuel"
proof (induction k arbitrary: res s)
  case (Suc k)
  show ?case
  proof (rule skip_cases [of s])
    fix t assume t: "next_bracket s = CHR ''{'' # t" "length t < length s"
    have p: "parse (CHR ''{'' # t) \<noteq> Inl No_fuel" using Suc.prems(2) t(2) .
    show ?thesis
    proof (cases "parse (CHR ''{'' # t)")
      case (Inr x)
      obtain inner rest where x: "x = (inner, rest)" by (cases x)
      have "array_loop parse k (Some os) t2 \<noteq> Inl No_fuel" if "rest = Some t2" for t2 os
      proof -
        have "length t2 \<le> length t" using assms Inr x that by (auto simp: shortens_def)
        with t(2) Suc.prems show ?thesis by (intro Suc.IH) auto
      qed
      with Inr x t show ?thesis by (simp split: option.split)
    qed (use p t in simp)
  qed simp_all
qed simp

lemma parse_array_rest:
  "shortens parse \<Longrightarrow> parse_array parse s = Inr (out, Some r) \<Longrightarrow> length r \<le> length s"
  using array_loop_rest length_dropWhile_le [of "\<lambda>c. c = CHR 0x20" s]
  unfolding parse_array_def Let_def by (blast intro: le_trans)

lemma parse_array_returns:
  assumes "shortens parse" "\<And>t. length t < length s \<Longrightarrow> parse (CHR ''{'' # t) \<noteq> Inl No_fuel"
  shows "parse_array parse s \<noteq> Inl No_fuel"
  using assms(2) length_dropWhile_le [of "\<lambda>c. c = CHR 0x20" s]
  unfolding parse_array_def Let_def by (intro array_loop_returns [OF assms(1)]) auto

text \<open>One round of the loop of parseBSON, by its first character.\<close>

lemma parse_loop_steps:
  "parse_loop atof (Suc n) p [] = Inr (pr_obj p, Some [])"
  "pr_state p = 2 \<Longrightarrow> parse_loop atof (Suc n) p (CHR ''{'' # s) =
     bindR (parse_loop atof n new_parser (CHR ''{'' # s)) (\<lambda>(inner, rest).
       case rest of Some (_ # s) \<Rightarrow> parse_loop atof n (p\<lparr>pr_value := Doc_value inner\<rparr>) s | _ \<Rightarrow> Inr (pr_obj p, None))"
  "pr_state p = 0 \<Longrightarrow> parse_loop atof (Suc n) p (CHR ''{'' # s) =
     parse_loop atof n (p\<lparr>pr_state := 1, pr_buffer := [], pr_value := Number_value\<rparr>) s"
  "pr_state p \<noteq> 0 \<Longrightarrow> pr_state p \<noteq> 2 \<Longrightarrow> parse_loop atof (Suc n) p (CHR ''{'' # s) = unexpected"
  "parse_loop atof (Suc n) p (CHR ''}'' # s) = bindR (add_pair atof p) (\<lambda>obj. Inr (obj, Some (CHR ''}'' # s)))"
  "pr_name p \<noteq> None \<Longrightarrow>
     parse_loop atof (Suc n) p (CHR '','' # s) = bindR (add_pair atof p) (\<lambda>obj. parse_loop atof n (next_pair obj) s)"
  "c = CHR 0x27 \<or> c = CHR 0x22 \<Longrightarrow> parse_loop atof (Suc n) p (c # s) =
     (case collect c False s of None \<Rightarrow> unexpected
      | Some (cs, s) \<Rightarrow> parse_loop atof n (p\<lparr>pr_buffer := pr_buffer p @ cs, pr_value := String_value\<rparr>) s)"
  by auto

lemma parse_loop_char:
  "c \<noteq> CHR ''{'' \<Longrightarrow> c \<noteq> CHR ''['' \<Longrightarrow> c \<noteq> CHR ''}'' \<Longrightarrow> \<not> (c = CHR '','' \<and> pr_name p \<noteq> None) \<Longrightarrow> c \<noteq> CHR 0x27 \<Longrightarrow>
     c \<noteq> CHR 0x22 \<Longrightarrow> parse_loop atof (Suc n) p (c # s) = parse_loop atof n (parse_char c p) s"
  by (cases "c = CHR '',''") simp_all

lemma parse_loop_array:
  "parse_loop atof (Suc n) p (CHR ''['' # s) = Inr (out, Some r) \<Longrightarrow>
     \<exists>os y ys. parse_array (parse_loop atof n new_parser) (CHR ''['' # s) = Inr (Some os, Some (y # ys)) \<and>
       parse_loop atof n (parse_char y (p\<lparr>pr_value := Array_value os\<rparr>)) ys = Inr (out, Some r)"
  "parse_loop atof (Suc n) p (CHR ''['' # s) = Inl No_fuel \<Longrightarrow>
     parse_array (parse_loop atof n new_parser) (CHR ''['' # s) = Inl No_fuel \<or>
     (\<exists>os y ys. parse_array (parse_loop atof n new_parser) (CHR ''['' # s) = Inr (Some os, Some (y # ys)) \<and>
       parse_loop atof n (parse_char y (p\<lparr>pr_value := Array_value os\<rparr>)) ys = Inl No_fuel)"
  by (cases "parse_array (parse_loop atof n new_parser) (CHR ''['' # s)";
      auto split: option.splits list.splits prod.splits)+

lemma first_char_cases:
  obtains "c = CHR ''{''" | "c = CHR ''[''" | "c = CHR ''}''" | "c = CHR '',''" "pr_name p \<noteq> None"
  | "c = CHR 0x27 \<or> c = CHR 0x22"
  | "c \<noteq> CHR ''{''" "c \<noteq> CHR ''[''" "c \<noteq> CHR ''}''" "\<not> (c = CHR '','' \<and> pr_name p \<noteq> None)"
    "c \<noteq> CHR 0x27" "c \<noteq> CHR 0x22"
  by blast

lemma parse_loop_rest:
  "parse_loop atof n p s = Inr (out, Some r) \<Longrightarrow> length r \<le> length s \<and>
     (pr_state p = 0 \<longrightarrow> (\<forall>t. s = CHR ''{'' # t \<longrightarrow> length r \<le> length t))"
proof (induction n arbitrary: p s out r)
  case (Suc n)
  have inner: "shortens (parse_loop atof n new_parser)"
    using Suc.IH [of new_parser] by (simp add: shortens_def new_parser_def)
  show ?case
  proof (cases s)
    case Nil
    with Suc.prems show ?thesis by simp
  next
    case (Cons c t)
    note prem = Suc.prems [unfolded Cons]
    show ?thesis
    proof (rule first_char_cases [where c = c and p = p])
      assume c: "c = CHR ''{''"
      consider "pr_state p = 2" | "pr_state p = 0" | "pr_state p \<noteq> 0" "pr_state p \<noteq> 2" by blast
      then show ?thesis
      proof cases
        case 1
        with prem obtain x where x: "parse_loop atof n new_parser (CHR ''{'' # t) = Inr x"
          "(case x of (inner, rest) \<Rightarrow> case rest of Some (_ # s) \<Rightarrow> parse_loop atof n (p\<lparr>pr_value := Doc_value inner\<rparr>) s
              | _ \<Rightarrow> Inr (pr_obj p, None)) = Inr (out, Some r)"
          unfolding c parse_loop_steps(2) [OF 1] bindR_Inr_iff by blast
        obtain obj rest where xs: "x = (obj, rest)" by (cases x)
        from x(2) obtain y ys where y: "rest = Some (y # ys)" "parse_loop atof n (p\<lparr>pr_value := Doc_value obj\<rparr>) ys = Inr (out, Some r)"
          unfolding xs prod.case after_document by blast
        have "length (y # ys) \<le> length t" using inner x(1) xs y(1) unfolding shortens_def by blast
        with Suc.IH [OF y(2)] 1 Cons show ?thesis by auto
      next
        case 2
        with prem c have "parse_loop atof n (p\<lparr>pr_state := 1, pr_buffer := [], pr_value := Number_value\<rparr>) t = Inr (out, Some r)"
          by simp
        from Suc.IH [OF this] Cons show ?thesis by auto
      qed (use prem c in simp)
    next
      assume c: "c = CHR ''[''"
      from parse_loop_array(1) [OF prem [unfolded c]] obtain os y ys
        where y: "parse_array (parse_loop atof n new_parser) (CHR ''['' # t) = Inr (Some os, Some (y # ys))"
          "parse_loop atof n (parse_char y (p\<lparr>pr_value := Array_value os\<rparr>)) ys = Inr (out, Some r)" by blast
      from parse_array_rest [OF inner y(1)] Suc.IH [OF y(2)] c Cons show ?thesis by auto
    next
      assume "c = CHR ''}''"
      with prem Cons show ?thesis by (auto simp: bindR_Inr_iff)
    next
      assume c: "c = CHR '',''" "pr_name p \<noteq> None"
      with prem obtain obj where "parse_loop atof n (next_pair obj) t = Inr (out, Some r)" by (auto simp: bindR_Inr_iff)
      from Suc.IH [OF this] c Cons show ?thesis by simp
    next
      assume c: "c = CHR 0x27 \<or> c = CHR 0x22"
      show ?thesis
      proof (cases "collect c False t")
        case (Some x)
        obtain cs u where x: "x = (cs, u)" by (cases x)
        with prem Some parse_loop_steps(7) [OF c]
        have u: "parse_loop atof n (p\<lparr>pr_buffer := pr_buffer p @ cs, pr_value := String_value\<rparr>) u = Inr (out, Some r)" by simp
        from Suc.IH [OF u] collect_length [of c False t cs u] Some x c Cons show ?thesis by auto
      qed (use prem parse_loop_steps(7) [OF c] in simp)
    next
      assume c: "c \<noteq> CHR ''{''" "c \<noteq> CHR ''[''" "c \<noteq> CHR ''}''" "\<not> (c = CHR '','' \<and> pr_name p \<noteq> None)"
        "c \<noteq> CHR 0x27" "c \<noteq> CHR 0x22"
      from Suc.IH [OF prem [unfolded parse_loop_char [OF c]]] c(1) Cons show ?thesis by simp
    qed
  qed
qed simp

lemma parse_shortens: "shortens (parse_loop atof n new_parser)"
  using parse_loop_rest [of atof n new_parser] by (simp add: shortens_def new_parser_def)

text \<open>The rounds that a text needs; a document that begins with its bracket needs one less.\<close>

definition need :: "parser \<Rightarrow> string \<Rightarrow> nat" where
  "need p s = 2 * length s + (if pr_state p = 0 \<and> take 1 s = ''{'' then 1 else 2)"

lemma need_shorter: "length t < length s \<Longrightarrow> need p s \<le> Suc n \<Longrightarrow> need q t \<le> n"
  by (auto simp: need_def split: if_splits)

lemma need_document: "length t \<le> length s \<Longrightarrow> need p (c # s) \<le> Suc n \<Longrightarrow> pr_state p \<noteq> 0 \<or> c \<noteq> CHR ''{'' \<Longrightarrow>
    need new_parser (CHR ''{'' # t) \<le> n"
  by (auto simp: need_def new_parser_def split: if_splits)

lemma parse_loop_returns: "need p s \<le> n \<Longrightarrow> parse_loop atof n p s \<noteq> Inl No_fuel"
proof (induction n arbitrary: p s)
  case 0
  then show ?case by (simp add: need_def split: if_splits)
next
  case (Suc n)
  let ?parse = "parse_loop atof n new_parser"
  show ?case
  proof (cases s)
    case Nil
    then show ?thesis by simp
  next
    case (Cons c t)
    note prem = Suc.prems [unfolded Cons]
    have next_round: "parse_loop atof n q u \<noteq> Inl No_fuel" if "length u \<le> length t" for q u
      using Suc.IH [OF need_shorter [OF _ prem]] that by simp
    show ?thesis unfolding Cons
    proof (rule first_char_cases [where c = c and p = p])
      assume c: "c = CHR ''{''"
      consider "pr_state p = 2" | "pr_state p = 0" | "pr_state p \<noteq> 0" "pr_state p \<noteq> 2" by blast
      then show "parse_loop atof (Suc n) p (c # t) \<noteq> Inl No_fuel"
      proof cases
        case 1
        have here: "?parse (CHR ''{'' # t) \<noteq> Inl No_fuel"
          using Suc.IH [OF need_document [OF _ prem]] 1 by simp
        show ?thesis
        proof (cases "?parse (CHR ''{'' # t)")
          case (Inr x)
          obtain obj rest where x: "x = (obj, rest)" by (cases x)
          have "parse_loop atof n q ys \<noteq> Inl No_fuel" if "rest = Some (y # ys)" for q y ys
            using next_round [of ys q] parse_shortens [of atof n] Inr x that by (fastforce simp: shortens_def)
          with Inr x show ?thesis unfolding c parse_loop_steps(2) [OF 1] by (auto simp: after_document)
        qed (use here 1 c in auto)
      qed (use next_round [of t] c in simp_all)
    next
      assume c: "c = CHR ''[''"
      have "?parse (CHR ''{'' # u) \<noteq> Inl No_fuel" if "length u < length (c # t)" for u
        using Suc.IH [OF need_document [OF _ prem]] that c by simp
      then have "parse_array ?parse (c # t) \<noteq> Inl No_fuel" by (rule parse_array_returns [OF parse_shortens])
      moreover have "length ys \<le> length t" if "parse_array ?parse (c # t) = Inr (Some os, Some (y # ys))" for os y ys
        using parse_array_rest [OF parse_shortens that] by simp
      ultimately show "parse_loop atof (Suc n) p (c # t) \<noteq> Inl No_fuel"
        using parse_loop_array(2) [of atof n p t] next_round c by blast
    next
      assume c: "c = CHR 0x27 \<or> c = CHR 0x22"
      have "length u \<le> length t" if "collect c False t = Some (cs, u)" for cs u
        using collect_length [OF that] by simp
      with next_round show "parse_loop atof (Suc n) p (c # t) \<noteq> Inl No_fuel"
        unfolding parse_loop_steps(7) [OF c] by (auto split: option.split)
    next
      assume "c \<noteq> CHR ''{''" "c \<noteq> CHR ''[''" "c \<noteq> CHR ''}''" "\<not> (c = CHR '','' \<and> pr_name p \<noteq> None)"
        "c \<noteq> CHR 0x27" "c \<noteq> CHR 0x22"
      from parse_loop_char [OF this] next_round show "parse_loop atof (Suc n) p (c # t) \<noteq> Inl No_fuel" by simp
    qed (use next_round [of t] in \<open>auto simp: bindR_Inl_iff\<close>)
  qed
qed

lemma document_fuel: "length t < length s \<Longrightarrow> parser_fuel s \<le> n \<Longrightarrow> need new_parser (CHR ''{'' # t) \<le> n"
  by (simp add: need_def parser_fuel_def new_parser_def)

lemma parse_array_fuel: "parse_array (parse_loop atof (parser_fuel s) new_parser) s \<noteq> Inl No_fuel"
  by (intro parse_array_returns parse_shortens parse_loop_returns document_fuel [OF _ order_refl])

lemma parseArray_returns: "parseArray atof s \<noteq> Inl No_fuel"
  using parse_array_fuel by (auto simp: parseArray_def Let_def bindR_Inl_iff)

end
