(* ===== verification/Bson_Text.thy ===== *)
theory Bson_Text
  imports Bson_Parser
begin

text \<open>
  The text of a document: BSONObj::toChar (bson/bsonobj.cpp) and BSONArrayObj::toChar
  (bson/bsonarrayobj.cpp), and what the parser makes of it. The text of a double (the format %f of
  sprintf) is an argument. The text that toChar keeps in the object for its next call is left out:
  every add and every remove of the object clears it.
\<close>

section \<open>Printing\<close>

text \<open>
  The text in the buffer of 8000 bytes, and sprintf(result + pos, ...) with its terminator. Behind the
  buffer the behaviour is undefined.
\<close>

definition MAX_BSONOBJ_BUFFER :: nat where
  "MAX_BSONOBJ_BUFFER = 8000"

definition print_at :: "string \<Rightarrow> string \<Rightarrow> string res" where
  "print_at result txt =
     (if length result + length txt < MAX_BSONOBJ_BUFFER then Inr (result @ txt) else Inl Undefined_behaviour)"

text \<open>
  The value goes to the place that the length of the key gives; behind a null byte in the key strlen
  does not see it.
\<close>

definition print_key :: "string \<Rightarrow> string \<Rightarrow> string res" where
  "print_key result key = print_at result ('' '' @ [CHR 0x22] @ c_str key @ [CHR 0x22] @ '' : '')"

definition print_value :: "string \<Rightarrow> string \<Rightarrow> string \<Rightarrow> string res" where
  "print_value result key val =
     bindR (print_at (result @ replicate (length key - length (c_str key)) (CHR 0x00)) val) (\<lambda>result.
     Inr (c_str result))"

definition print_field :: "string \<Rightarrow> string \<Rightarrow> string \<Rightarrow> string res" where
  "print_field result key val = bindR (print_key result key) (\<lambda>result. print_value result key val)"

fun content_toChar :: "(int64 \<Rightarrow> string) \<Rightarrow> content \<Rightarrow> string res"
  and pairs_toChar :: "(int64 \<Rightarrow> string) \<Rightarrow> bool \<Rightarrow> string \<Rightarrow> (string \<times> content) list \<Rightarrow> string res"
  and array_toChar :: "(int64 \<Rightarrow> string) \<Rightarrow> bool \<Rightarrow> (string \<times> content) list list \<Rightarrow> string res" where
  "content_toChar fmt (CBool b) = Inr (if b then ''true'' else ''false'')"
| "content_toChar fmt (CInt i) = Inr (int_text (sint i))"
| "content_toChar fmt (CLong l) = Inr (int_text (sint l))"
| "content_toChar fmt (CDouble d) = Inr (fmt d)"
| "content_toChar fmt (CString s) = Inr ([CHR 0x22] @ c_str s @ [CHR 0x22])"
| "content_toChar fmt (CBson o1) = pairs_toChar fmt True ''{'' o1"
| "content_toChar fmt (CArray os) = bindR (array_toChar fmt True os) (\<lambda>txt. Inr (''['' @ txt @ '']''))"
| "pairs_toChar fmt first result [] = print_at result ''}''"
| "pairs_toChar fmt first result ((key, c) # o1) =
     bindR (content_toChar fmt c) (\<lambda>txt.
     bindR (print_field (if first then result else result @ '','') key txt) (\<lambda>result.
     pairs_toChar fmt False result o1))"
| "array_toChar fmt first [] = Inr ''''"
| "array_toChar fmt first (o1 # os) =
     bindR (pairs_toChar fmt True ''{'' o1) (\<lambda>txt.
     bindR (array_toChar fmt False os) (\<lambda>rest.
     Inr ((if first then '''' else '', '') @ txt @ rest)))"

definition bson_toChar :: "(int64 \<Rightarrow> string) \<Rightarrow> bson \<Rightarrow> string res" where
  "bson_toChar fmt o1 = content_toChar fmt (CBson o1)"

definition bsonarray_toChar :: "(int64 \<Rightarrow> string) \<Rightarrow> bson list \<Rightarrow> string res" where
  "bsonarray_toChar fmt os = content_toChar fmt (CArray os)"

section \<open>The text\<close>

text \<open>The text without the limit of the buffer, for keys without null bytes.\<close>

fun content_text :: "(int64 \<Rightarrow> string) \<Rightarrow> content \<Rightarrow> string"
  and pairs_text :: "(int64 \<Rightarrow> string) \<Rightarrow> (string \<times> content) list \<Rightarrow> string"
  and docs_text :: "(int64 \<Rightarrow> string) \<Rightarrow> (string \<times> content) list list \<Rightarrow> string" where
  "content_text fmt (CBool b) = (if b then ''true'' else ''false'')"
| "content_text fmt (CInt i) = int_text (sint i)"
| "content_text fmt (CLong l) = int_text (sint l)"
| "content_text fmt (CDouble d) = fmt d"
| "content_text fmt (CString s) = CHR 0x22 # c_str s @ [CHR 0x22]"
| "content_text fmt (CBson o1) = ''{'' @ pairs_text fmt o1 @ ''}''"
| "content_text fmt (CArray os) = ''['' @ docs_text fmt os @ '']''"
| "pairs_text fmt [] = ''''"
| "pairs_text fmt ((key, c) # o1) =
     '' '' @ [CHR 0x22] @ key @ [CHR 0x22] @ '' : '' @ content_text fmt c @
       (if o1 = [] then '''' else '','' @ pairs_text fmt o1)"
| "docs_text fmt [] = ''''"
| "docs_text fmt (o1 # os) =
     ''{'' @ pairs_text fmt o1 @ ''}'' @ (if os = [] then '''' else '', '' @ docs_text fmt os)"

text \<open>
  The contents whose text the parser can read: no null bytes, quotes and backslashes in keys and texts,
  and doubles that are printed with digits, a sign and a point.
\<close>

definition plain_text :: "string \<Rightarrow> bool" where
  "plain_text s \<longleftrightarrow> (\<forall>c\<in>set s. c \<noteq> CHR 0x00 \<and> c \<noteq> CHR 0x22 \<and> c \<noteq> CHR 0x5C)"

definition real_text :: "string \<Rightarrow> bool" where
  "real_text s \<longleftrightarrow> CHR ''.'' \<in> set s \<and> (\<forall>c\<in>set s. CHR ''0'' \<le> c \<and> c \<le> CHR ''9'' \<or> c = CHR ''-'' \<or> c = CHR ''.'')"

fun content_plain :: "(int64 \<Rightarrow> string) \<Rightarrow> content \<Rightarrow> bool"
  and pairs_plain :: "(int64 \<Rightarrow> string) \<Rightarrow> (string \<times> content) list \<Rightarrow> bool"
  and docs_plain :: "(int64 \<Rightarrow> string) \<Rightarrow> (string \<times> content) list list \<Rightarrow> bool" where
  "content_plain fmt (CDouble d) = real_text (fmt d)"
| "content_plain fmt (CString s) = plain_text s"
| "content_plain fmt (CBson o1) = pairs_plain fmt o1"
| "content_plain fmt (CArray os) = docs_plain fmt os"
| "content_plain fmt _ = True"
| "pairs_plain fmt [] = True"
| "pairs_plain fmt ((key, c) # o1) = (plain_text key \<and> content_plain fmt c \<and> pairs_plain fmt o1)"
| "docs_plain fmt [] = True"
| "docs_plain fmt (o1 # os) = (pairs_plain fmt o1 \<and> docs_plain fmt os)"

section \<open>Printing gives the text\<close>

lemma no_nul_simps [simp]: "no_nul []" "no_nul (c # s) \<longleftrightarrow> c \<noteq> CHR 0x00 \<and> no_nul s" "no_nul (s @ t) \<longleftrightarrow> no_nul s \<and> no_nul t"
  by (auto simp: no_nul_def)

lemma plain_no_nul: "plain_text s \<Longrightarrow> no_nul s"
  by (simp add: plain_text_def no_nul_def) blast

lemma no_nul_digits [simp]: "no_nul (digits n)"
  using digits_set [of n] by (auto simp: no_nul_def less_eq_char_def)

lemma no_nul_int_text [simp]: "no_nul (int_text n)"
  by (simp add: int_text_def)

lemma real_text_no_nul: "real_text s \<Longrightarrow> no_nul s"
  by (auto simp: real_text_def no_nul_def less_eq_char_def)

lemma text_no_nul:
  "content_plain fmt c \<Longrightarrow> no_nul (content_text fmt c)"
  "pairs_plain fmt o1 \<Longrightarrow> no_nul (pairs_text fmt o1)"
  "docs_plain fmt os \<Longrightarrow> no_nul (docs_text fmt os)"
  by (induction fmt c and fmt o1 and fmt os rule: content_text_pairs_text_docs_text.induct)
    (simp_all add: plain_no_nul real_text_no_nul)

lemma print_at_Inr: "print_at result txt = Inr t \<longleftrightarrow> t = result @ txt \<and> length t < MAX_BSONOBJ_BUFFER"
  by (auto simp: print_at_def)

lemma print_field_Inr:
  "no_nul result \<Longrightarrow> plain_text key \<Longrightarrow> no_nul txt \<Longrightarrow> print_field result key txt = Inr t \<Longrightarrow>
     t = result @ '' '' @ [CHR 0x22] @ key @ [CHR 0x22] @ '' : '' @ txt"
  by (auto simp: print_field_def print_key_def print_value_def bindR_Inr_iff print_at_Inr plain_no_nul)

lemma toChar_text:
  "content_plain fmt c \<Longrightarrow> content_toChar fmt c = Inr t \<Longrightarrow> t = content_text fmt c"
  "pairs_plain fmt o1 \<Longrightarrow> no_nul result \<Longrightarrow> pairs_toChar fmt first result o1 = Inr t \<Longrightarrow>
     t = result @ (if first \<or> o1 = [] then '''' else '','') @ pairs_text fmt o1 @ ''}''"
  "docs_plain fmt os \<Longrightarrow> array_toChar fmt first os = Inr t \<Longrightarrow>
     t = (if first \<or> os = [] then '''' else '', '') @ docs_text fmt os"
proof (induction fmt c and fmt first result o1 and fmt first os arbitrary: t and t and t
    rule: content_toChar_pairs_toChar_array_toChar.induct)
  case (9 fmt first result key c o1)
  from "9.prems"(3) obtain w r where r: "content_toChar fmt c = Inr w"
    "print_field (if first then result else result @ '','') key w = Inr r" "pairs_toChar fmt False r o1 = Inr t"
    by (auto simp: bindR_Inr_iff)
  have p: "plain_text key" "content_plain fmt c" "pairs_plain fmt o1" using "9.prems"(1) by simp_all
  have w: "w = content_text fmt c" by (rule "9.IH"(1) [OF p(2) r(1)])
  from print_field_Inr [OF _ p(1) _ r(2)] "9.prems"(2) text_no_nul(1) [OF p(2)] w
  have rt: "r = (if first then result else result @ '','') @ '' '' @ [CHR 0x22] @ key @ [CHR 0x22] @ '' : '' @ w"
    by (simp split: if_splits)
  with "9.prems"(2) text_no_nul(1) [OF p(2)] w p(1) have "no_nul r" by (simp add: plain_no_nul)
  from "9.IH"(2) [OF r(1,2) p(3) this r(3)] rt w show ?case by simp
next
  case (11 fmt first o1 os)
  from "11.prems"(2) obtain w rest where r: "pairs_toChar fmt True ''{'' o1 = Inr w"
    "array_toChar fmt False os = Inr rest" "t = (if first then '''' else '', '') @ w @ rest"
    by (auto simp: bindR_Inr_iff)
  have p: "pairs_plain fmt o1" "docs_plain fmt os" using "11.prems"(1) by simp_all
  from "11.IH"(1) [OF p(1) _ r(1)] "11.IH"(2) [OF r(1) p(2) r(2)] r(3) show ?case by simp
qed (auto simp: print_at_Inr plain_no_nul bindR_Inr_iff)

section \<open>What the parser makes of a value\<close>

text \<open>
  A number and a boolean come back as an integer of 32 bits when they are not larger than INT_MAX (the text
  of a boolean has no digits, so it is zero), as a long otherwise. Nested values are read alike.
\<close>

fun value_read :: "(string \<Rightarrow> int64) \<Rightarrow> (int64 \<Rightarrow> string) \<Rightarrow> content \<Rightarrow> content"
  and pairs_read :: "(string \<Rightarrow> int64) \<Rightarrow> (int64 \<Rightarrow> string) \<Rightarrow> (string \<times> content) list \<Rightarrow> (string \<times> content) list"
  and docs_read :: "(string \<Rightarrow> int64) \<Rightarrow> (int64 \<Rightarrow> string) \<Rightarrow> (string \<times> content) list list \<Rightarrow> (string \<times> content) list list" where
  "value_read atof fmt (CBool b) = CInt 0"
| "value_read atof fmt (CInt i) = CInt i"
| "value_read atof fmt (CLong l) = (if sint l \<le> 2 ^ 31 - 1 then CInt (word_of_int (sint l)) else CLong l)"
| "value_read atof fmt (CDouble d) = CDouble (atof (fmt d))"
| "value_read atof fmt (CString s) = CString s"
| "value_read atof fmt (CBson o1) = CBson (pairs_read atof fmt o1)"
| "value_read atof fmt (CArray os) = CArray (docs_read atof fmt os)"
| "pairs_read atof fmt [] = []"
| "pairs_read atof fmt ((key, c) # o1) = (key, value_read atof fmt c) # pairs_read atof fmt o1"
| "docs_read atof fmt [] = []"
| "docs_read atof fmt (o1 # os) = pairs_read atof fmt o1 # docs_read atof fmt os"

text \<open>The contents that come back as they were: no booleans, and longs that do not fit into 32 bits.\<close>

fun content_kept :: "(string \<Rightarrow> int64) \<Rightarrow> (int64 \<Rightarrow> string) \<Rightarrow> content \<Rightarrow> bool"
  and pairs_kept :: "(string \<Rightarrow> int64) \<Rightarrow> (int64 \<Rightarrow> string) \<Rightarrow> (string \<times> content) list \<Rightarrow> bool"
  and docs_kept :: "(string \<Rightarrow> int64) \<Rightarrow> (int64 \<Rightarrow> string) \<Rightarrow> (string \<times> content) list list \<Rightarrow> bool" where
  "content_kept atof fmt (CBool b) = False"
| "content_kept atof fmt (CInt i) = True"
| "content_kept atof fmt (CLong l) = (2 ^ 31 - 1 < sint l)"
| "content_kept atof fmt (CDouble d) = (atof (fmt d) = d)"
| "content_kept atof fmt (CString s) = True"
| "content_kept atof fmt (CBson o1) = pairs_kept atof fmt o1"
| "content_kept atof fmt (CArray os) = docs_kept atof fmt os"
| "pairs_kept atof fmt [] = True"
| "pairs_kept atof fmt ((key, c) # o1) = (content_kept atof fmt c \<and> pairs_kept atof fmt o1)"
| "docs_kept atof fmt [] = True"
| "docs_kept atof fmt (o1 # os) = (pairs_kept atof fmt o1 \<and> docs_kept atof fmt os)"

lemma read_kept:
  "value_read atof fmt c = c \<longleftrightarrow> content_kept atof fmt c"
  "pairs_read atof fmt o1 = o1 \<longleftrightarrow> pairs_kept atof fmt o1"
  "docs_read atof fmt os = os \<longleftrightarrow> docs_kept atof fmt os"
  by (induction atof fmt c and atof fmt o1 and atof fmt os rule: content_kept_pairs_kept_docs_kept.induct) auto

section \<open>Rounds of the parser on a text\<close>

text \<open>The result of the parser with any fuel that is enough.\<close>

definition parses :: "(string \<Rightarrow> int64) \<Rightarrow> parser \<Rightarrow> string \<Rightarrow> (bson \<times> string option) res \<Rightarrow> bool" where
  "parses atof p s res \<longleftrightarrow> (\<forall>n. need p s \<le> n \<longrightarrow> parse_loop atof n p s = res)"

lemma need_pos: "need p (c # s) \<le> n \<Longrightarrow> \<exists>m. n = Suc m"
  by (cases n) (auto simp: need_def split: if_splits)

lemma parses_step:
  assumes "\<And>n. parse_loop atof (Suc n) p (c # s) = parse_loop atof n q t" "length t \<le> length s" "parses atof q t res"
  shows "parses atof p (c # s) res"
  unfolding parses_def
proof (intro allI impI)
  fix n assume n: "need p (c # s) \<le> n"
  then obtain m where m: "n = Suc m" using need_pos by blast
  with n assms(2) have "need q t \<le> m" by (intro need_shorter [of t "c # s"]) simp_all
  with assms(1,3) m show "parse_loop atof n p (c # s) = res" by (simp add: parses_def)
qed

lemma parses_space: "parses atof p s res \<Longrightarrow> parses atof p (CHR 0x20 # s) res"
  by (rule parses_step [of atof p _ s p]) (simp_all add: parse_char_def)

lemma parses_colon:
  "parses atof (p\<lparr>pr_state := 2, pr_buffer := [], pr_name := Some (c_str (pr_buffer p)), pr_value := Number_value\<rparr>) s res \<Longrightarrow>
   parses atof p (CHR '':'' # s) res"
  by (rule parses_step [of atof p _ s]) (simp_all add: parse_char_def)

lemma parses_comma:
  assumes "pr_name p \<noteq> None" "add_pair atof p = Inr obj" "parses atof (next_pair obj) s res"
  shows "parses atof p (CHR '','' # s) res"
  by (rule parses_step [OF _ _ assms(3)]) (simp_all only: parse_loop_steps(6) [OF assms(1)] assms(2) bindR_simps)

lemma parses_close:
  assumes "add_pair atof p = Inr obj"
  shows "parses atof p (CHR ''}'' # s) (Inr (obj, Some (CHR ''}'' # s)))"
  unfolding parses_def
proof (intro allI impI)
  fix n assume "need p (CHR ''}'' # s) \<le> n"
  then obtain m where "n = Suc m" using need_pos by blast
  with assms show "parse_loop atof n p (CHR ''}'' # s) = Inr (obj, Some (CHR ''}'' # s))"
    by (simp only: parse_loop_steps(5) bindR_simps)
qed

lemma collect_plain: "plain_text cs \<Longrightarrow> collect (CHR 0x22) False (cs @ CHR 0x22 # s) = Some (cs, s)"
  by (induction cs) (auto simp: plain_text_def)

lemma parses_quoted:
  assumes "plain_text cs" "parses atof (p\<lparr>pr_buffer := pr_buffer p @ cs, pr_value := String_value\<rparr>) s res"
  shows "parses atof p (CHR 0x22 # cs @ CHR 0x22 # s) res"
  by (rule parses_step [OF _ _ assms(2)])
    (simp_all add: parse_loop_steps(7) collect_plain assms(1) del: parse_loop.simps)

lemma parses_open:
  assumes "parses atof (next_pair []) s res"
  shows "parses atof new_parser (CHR ''{'' # s) res"
  by (rule parses_step [OF _ _ assms]) (simp_all add: new_parser_def next_pair_def)

text \<open>The characters of numbers and words.\<close>

definition value_char :: "char \<Rightarrow> bool" where
  "value_char c \<longleftrightarrow> CHR ''0'' \<le> c \<and> c \<le> CHR ''9'' \<or> CHR ''a'' \<le> c \<and> c \<le> CHR ''z'' \<or> c = CHR ''-'' \<or> c = CHR ''.''"

lemma value_char_other:
  assumes "value_char c"
  shows "c \<noteq> CHR ''{''" "c \<noteq> CHR ''[''" "c \<noteq> CHR ''}''" "c \<noteq> CHR '',''" "c \<noteq> CHR 0x27" "c \<noteq> CHR 0x22"
    "c \<noteq> CHR '':''" "c \<noteq> CHR 0x20" "c \<noteq> CHR 0x0D" "c \<noteq> CHR 0x0A"
  using assms by (auto simp: value_char_def less_eq_char_def)

lemma parses_value:
  "\<forall>c\<in>set cs. value_char c \<Longrightarrow> pr_state p = 2 \<Longrightarrow>
   parses atof (p\<lparr>pr_buffer := pr_buffer p @ cs, pr_value := (if CHR ''.'' \<in> set cs then Real_value else pr_value p)\<rparr>) s res \<Longrightarrow>
   parses atof p (cs @ s) res"
proof (induction cs arbitrary: p)
  case (Cons c cs)
  let ?q = "parse_char c p"
  have c: "value_char c" using Cons.prems(1) by simp
  have q: "?q = p\<lparr>pr_buffer := pr_buffer p @ [c], pr_value := (if c = CHR ''.'' then Real_value else pr_value p)\<rparr>"
    using value_char_other [OF c] Cons.prems(2) by (simp add: parse_char_def)
  have "parses atof ?q (cs @ s) res"
    by (rule Cons.IH) (use Cons.prems q in \<open>auto split: if_splits\<close>)
  then show ?case
    unfolding append_Cons by (rule parses_step [rotated 2]) (use value_char_other [OF c] in \<open>simp_all add: parse_loop_char del: parse_loop.simps\<close>)
qed simp

lemma parses_document:
  assumes state: "pr_state p = 2"
    and inner: "parses atof new_parser (CHR ''{'' # s) (Inr (inner, Some (y # ys)))"
    and rest: "parses atof (p\<lparr>pr_value := Doc_value inner\<rparr>) ys res"
  shows "parses atof p (CHR ''{'' # s) res"
  unfolding parses_def
proof (intro allI impI)
  fix n assume n: "need p (CHR ''{'' # s) \<le> n"
  then obtain m where m: "n = Suc m" using need_pos by blast
  with n state have "need new_parser (CHR ''{'' # s) \<le> m" by (intro need_document [of s s p]) simp_all
  with inner have i: "parse_loop atof m new_parser (CHR ''{'' # s) = Inr (inner, Some (y # ys))" by (simp add: parses_def)
  then have "length (y # ys) \<le> length s" using parse_shortens [of atof m] unfolding shortens_def by blast
  with n m have "need (p\<lparr>pr_value := Doc_value inner\<rparr>) ys \<le> m" by (intro need_shorter [of ys "CHR ''{'' # s"]) simp_all
  with rest have "parse_loop atof m (p\<lparr>pr_value := Doc_value inner\<rparr>) ys = res" by (simp add: parses_def)
  then show "parse_loop atof n p (CHR ''{'' # s) = res" unfolding m parse_loop_steps(2) [OF state] by (simp add: i)
qed

text \<open>A parser of documents with enough fuel for the documents in a text.\<close>

definition enough :: "nat \<Rightarrow> string \<Rightarrow> bool" where
  "enough n s \<longleftrightarrow> (\<forall>t. length t < length s \<longrightarrow> need new_parser (CHR ''{'' # t) \<le> n)"

lemma enough_shorter: "enough n s \<Longrightarrow> length t \<le> length s \<Longrightarrow> enough n t"
  by (simp add: enough_def)

lemma parses_array:
  assumes inner: "\<And>n. enough n (CHR ''['' # s) \<Longrightarrow>
      parse_array (parse_loop atof n new_parser) (CHR ''['' # s) = Inr (Some os, Some (CHR '']'' # ys))"
    and rest: "parses atof (parse_char (CHR '']'') (p\<lparr>pr_value := Array_value os\<rparr>)) ys res"
  shows "parses atof p (CHR ''['' # s) res"
  unfolding parses_def
proof (intro allI impI)
  fix n assume n: "need p (CHR ''['' # s) \<le> n"
  then obtain m where m: "n = Suc m" using need_pos by blast
  with n have "enough m (CHR ''['' # s)" unfolding enough_def
    by (auto intro!: need_document [of _ s p "CHR ''[''"])
  then have i: "parse_array (parse_loop atof m new_parser) (CHR ''['' # s) = Inr (Some os, Some (CHR '']'' # ys))"
    by (rule inner)
  then have "length (CHR '']'' # ys) \<le> length (CHR ''['' # s)" by (rule parse_array_rest [OF parse_shortens])
  with n m have "need (parse_char (CHR '']'') (p\<lparr>pr_value := Array_value os\<rparr>)) ys \<le> m"
    by (intro need_shorter [of ys "CHR ''['' # s"]) simp_all
  with rest show "parse_loop atof n p (CHR ''['' # s) = res" by (simp add: m i parses_def)
qed

section \<open>The parser on the text of documents\<close>

definition doc_parsed :: "(string \<Rightarrow> int64) \<Rightarrow> (int64 \<Rightarrow> string) \<Rightarrow> bson \<Rightarrow> bool" where
  "doc_parsed atof fmt o1 \<longleftrightarrow> (\<forall>s. parses atof new_parser (CHR ''{'' # pairs_text fmt o1 @ CHR ''}'' # s)
     (Inr (pairs_read atof fmt o1, Some (CHR ''}'' # s))))"

lemma next_bracket_skip:
  "\<forall>c\<in>set pre. c \<noteq> CHR '']'' \<and> c \<noteq> CHR ''{'' \<Longrightarrow> next_bracket (pre @ s) = next_bracket s"
  by (simp add: next_bracket_def dropWhile_append2)

lemma next_bracket_here [simp]:
  "next_bracket (CHR '']'' # s) = CHR '']'' # s" "next_bracket (CHR ''{'' # s) = CHR ''{'' # s"
  by (simp_all add: next_bracket_def)

lemma array_loop_docs:
  "\<forall>o1\<in>set os. doc_parsed atof fmt o1 \<Longrightarrow> \<forall>c\<in>set pre. c \<noteq> CHR '']'' \<and> c \<noteq> CHR ''{'' \<Longrightarrow>
   enough n (pre @ docs_text fmt os @ CHR '']'' # s) \<Longrightarrow> length (pre @ docs_text fmt os @ CHR '']'' # s) < k \<Longrightarrow>
   array_loop (parse_loop atof n new_parser) k (Some acc) (pre @ docs_text fmt os @ CHR '']'' # s) =
     Inr (Some (acc @ docs_read atof fmt os), Some (CHR '']'' # s))"
proof (induction os arbitrary: pre acc k)
  case Nil
  then obtain m where "k = Suc m" by (cases k) auto
  with Nil show ?case by (simp add: next_bracket_skip)
next
  case (Cons o1 os)
  from Cons.prems(4) obtain m where k: "k = Suc m" by (cases k) auto
  let ?pre2 = "if os = [] then ''}'' else ''}, ''"
  have shape: "docs_text fmt (o1 # os) @ CHR '']'' # s =
      CHR ''{'' # pairs_text fmt o1 @ CHR ''}'' # tl ?pre2 @ docs_text fmt os @ CHR '']'' # s" by simp
  let ?s2 = "?pre2 @ docs_text fmt os @ CHR '']'' # s"
  have "need new_parser (CHR ''{'' # pairs_text fmt o1 @ CHR ''}'' # tl ?pre2 @ docs_text fmt os @ CHR '']'' # s) \<le> n"
    using Cons.prems(3) unfolding enough_def shape by simp
  with Cons.prems(1) have p: "parse_loop atof n new_parser (CHR ''{'' # pairs_text fmt o1 @ CHR ''}'' # tl ?pre2 @ docs_text fmt os @ CHR '']'' # s)
      = Inr (pairs_read atof fmt o1, Some ?s2)"
    by (auto simp: doc_parsed_def parses_def)
  have "array_loop (parse_loop atof n new_parser) m (Some (acc @ [pairs_read atof fmt o1])) ?s2 =
      Inr (Some ((acc @ [pairs_read atof fmt o1]) @ docs_read atof fmt os), Some (CHR '']'' # s))"
  proof (rule Cons.IH)
    show "enough n ?s2" by (rule enough_shorter [OF Cons.prems(3)]) simp
    show "length ?s2 < m" using Cons.prems(4) k by (auto split: if_splits)
  qed (use Cons.prems(1) in auto)
  with p k Cons.prems(2) show ?case unfolding shape by (simp add: next_bracket_skip)
qed

lemma parse_array_docs:
  assumes "\<forall>o1\<in>set os. doc_parsed atof fmt o1" "enough n (CHR ''['' # docs_text fmt os @ CHR '']'' # s)"
  shows "parse_array (parse_loop atof n new_parser) (CHR ''['' # docs_text fmt os @ CHR '']'' # s) =
    Inr (Some (docs_read atof fmt os), Some (CHR '']'' # s))"
  using array_loop_docs [of os atof fmt "''[''" n s "Suc (length (CHR ''['' # docs_text fmt os @ CHR '']'' # s))" "[]"] assms
  by (simp add: parse_array_def Let_def del: array_loop.simps)

lemma value_chars [simp]: "\<forall>c\<in>set (int_text n). value_char c" "CHR ''.'' \<notin> set (int_text n)"
  using digits_set [of "nat n"] digits_set [of "nat (- n)"]
  by (auto simp: int_text_def value_char_def less_eq_char_def)

lemma digits_first: "\<exists>c cs. digits n = c # cs \<and> CHR ''0'' \<le> c \<and> c \<le> CHR ''9''"
proof (cases "digits n")
  case Nil
  then show ?thesis by (subst (asm) digits.simps) (simp split: if_splits)
qed (use digits_set [of n] in simp)

lemma atoll_int_text [simp]: "atoll (int_text n) = n"
proof -
  obtain c cs where c: "digits (nat n) = c # cs" "CHR ''0'' \<le> c" "c \<le> CHR ''9''" using digits_first by blast
  have not: "\<not> isspace c" "c \<noteq> CHR ''-''" "c \<noteq> CHR ''+''" using c(2,3) by (auto simp: isspace_def less_eq_char_def)
  show ?thesis
  proof (cases "n < 0")
    case True
    then show ?thesis by (simp add: int_text_def atoll_def isspace_def atoi_digits_digits)
  next
    case False
    have "atoi_digits 0 (c # cs) = nat n" unfolding c(1) [symmetric] by (rule atoi_digits_digits)
    with False not c(1) show ?thesis by (simp add: int_text_def atoll_def del: atoi_digits.simps)
  qed
qed

text \<open>
  A value of the text, for the parser behind its colon: it leaves the parser with the variables f p, and the
  pair that they hold has the value.
\<close>

definition value_parsed :: "(string \<Rightarrow> int64) \<Rightarrow> (int64 \<Rightarrow> string) \<Rightarrow> content \<Rightarrow> bool" where
  "value_parsed atof fmt c \<longleftrightarrow> (\<exists>f. \<forall>p nm.
     pr_state p = 2 \<and> pr_buffer p = [] \<and> pr_value p = Number_value \<and> pr_name p = Some nm \<longrightarrow>
       pr_name (f p) = Some nm \<and> add_pair atof (f p) = Inr (bson_add nm (value_read atof fmt c) (pr_obj p)) \<and>
       (\<forall>s res. parses atof (f p) s res \<longrightarrow> parses atof p (content_text fmt c @ s) res))"

lemma value_parsedI:
  assumes "\<And>p. pr_name (f p) = pr_name p"
    and "\<And>p nm. pr_state p = 2 \<Longrightarrow> pr_buffer p = [] \<Longrightarrow> pr_value p = Number_value \<Longrightarrow> pr_name p = Some nm \<Longrightarrow>
      add_pair atof (f p) = Inr (bson_add nm (value_read atof fmt c) (pr_obj p))"
    and "\<And>p s res. pr_state p = 2 \<Longrightarrow> parses atof (f p) s res \<Longrightarrow> parses atof p (content_text fmt c @ s) res"
  shows "value_parsed atof fmt c"
  unfolding value_parsed_def using assms by (intro exI [of _ f]) simp

text \<open>A value that is written without brackets and quotes.\<close>

lemma value_parsed_word:
  assumes "\<forall>c\<in>set (content_text fmt c). value_char c"
    and "\<And>nm obj. add_value atof nm (if CHR ''.'' \<in> set (content_text fmt c) then Real_value else Number_value)
      (c_str (content_text fmt c)) obj = Inr (bson_add nm (value_read atof fmt c) obj)"
  shows "value_parsed atof fmt c"
proof (rule value_parsedI)
  let ?f = "\<lambda>p :: parser. p\<lparr>pr_buffer := pr_buffer p @ content_text fmt c,
    pr_value := (if CHR ''.'' \<in> set (content_text fmt c) then Real_value else pr_value p)\<rparr>"
  show "pr_name (?f p) = pr_name p" for p by simp
  show "parses atof p (content_text fmt c @ s) res" if "pr_state p = 2" "parses atof (?f p) s res" for p s res
    using parses_value [OF assms(1) that] .
  show "add_pair atof (?f p) = Inr (bson_add nm (value_read atof fmt c) (pr_obj p))"
    if "pr_buffer p = []" "pr_value p = Number_value" "pr_name p = Some nm" for p nm
    unfolding assms(2) [of nm, symmetric] using that by (simp add: add_pair_def)
qed

text \<open>A value between brackets or quotes, and the pairs of a document.\<close>

lemma value_parsed_string: "plain_text s \<Longrightarrow> value_parsed atof fmt (CString s)"
  by (rule value_parsedI [of "\<lambda>p. p\<lparr>pr_buffer := pr_buffer p @ s, pr_value := String_value\<rparr>"])
    (simp_all add: add_pair_def add_value_def bson_add_chars_def plain_no_nul parses_quoted)

definition pairs_parsed :: "(string \<Rightarrow> int64) \<Rightarrow> (int64 \<Rightarrow> string) \<Rightarrow> bson \<Rightarrow> bool" where
  "pairs_parsed atof fmt o1 \<longleftrightarrow> (\<forall>obj s. map_sorted (obj @ o1) \<longrightarrow>
     parses atof (next_pair obj) (pairs_text fmt o1 @ CHR ''}'' # s) (Inr (obj @ pairs_read atof fmt o1, Some (CHR ''}'' # s))))"

lemma pairs_parsed_doc: "pairs_parsed atof fmt o1 \<Longrightarrow> map_sorted o1 \<Longrightarrow> doc_parsed atof fmt o1"
  unfolding pairs_parsed_def doc_parsed_def by (intro allI parses_open) (metis append_Nil)

lemma value_parsed_doc: "doc_parsed atof fmt o1 \<Longrightarrow> value_parsed atof fmt (CBson o1)"
  by (rule value_parsedI [of "\<lambda>p. p\<lparr>pr_value := Doc_value (pairs_read atof fmt o1)\<rparr>"])
    (auto simp: add_pair_def add_value_def doc_parsed_def intro: parses_document)

lemma value_parsed_array:
  assumes "\<forall>o1\<in>set os. doc_parsed atof fmt o1"
  shows "value_parsed atof fmt (CArray os)"
proof (rule value_parsedI)
  let ?f = "\<lambda>p. parse_char (CHR '']'') (p\<lparr>pr_value := Array_value (docs_read atof fmt os)\<rparr>)"
  show "parses atof p (content_text fmt (CArray os) @ s) res" if "parses atof (?f p) s res" for p s res
    using parses_array [OF parse_array_docs [OF assms] that] by simp
qed (simp_all add: parse_char_def add_pair_def add_value_def)

lemma pairs_parsed_Nil: "pairs_parsed atof fmt []"
  by (simp add: pairs_parsed_def parses_close add_pair_def next_pair_def)

lemma pairs_read_keys [simp]: "map fst (pairs_read atof fmt o1) = map fst o1"
  by (induction o1) auto

lemma pairs_parsed_Cons:
  assumes c: "value_parsed atof fmt c" "plain_text key" and rest: "pairs_parsed atof fmt o1"
  shows "pairs_parsed atof fmt ((key, c) # o1)"
  unfolding pairs_parsed_def
proof (intro allI impI)
  fix obj s assume sorted: "map_sorted (obj @ (key, c) # o1)"
  let ?v = "value_read atof fmt c"
  let ?p = "\<lparr>pr_state = 2, pr_buffer = [], pr_name = Some key, pr_value = Number_value, pr_obj = obj\<rparr>"
  from c(1) obtain f where f: "\<forall>p nm.
     pr_state p = 2 \<and> pr_buffer p = [] \<and> pr_value p = Number_value \<and> pr_name p = Some nm \<longrightarrow>
       pr_name (f p) = Some nm \<and> add_pair atof (f p) = Inr (bson_add nm ?v (pr_obj p)) \<and>
       (\<forall>s res. parses atof (f p) s res \<longrightarrow> parses atof p (content_text fmt c @ s) res)"
    unfolding value_parsed_def by blast
  define q where "q = f ?p"
  have q: "pr_name q = Some key" "add_pair atof q = Inr (bson_add key ?v obj)"
    "\<And>s res. parses atof q s res \<Longrightarrow> parses atof ?p (content_text fmt c @ s) res"
    using f [rule_format, of ?p key] by (simp_all add: q_def)
  have obj: "bson_add key ?v obj = obj @ [(key, ?v)]"
    using map_put_last [OF map_sorted_append_below [OF sorted]] by (simp add: bson_add_put)
  have "map_sorted ((obj @ [(key, ?v)]) @ o1)" using sorted by (simp add: map_sorted_def)
  with rest have "parses atof (next_pair (obj @ [(key, ?v)])) (pairs_text fmt o1 @ CHR ''}'' # s)
      (Inr ((obj @ [(key, ?v)]) @ pairs_read atof fmt o1, Some (CHR ''}'' # s)))" unfolding pairs_parsed_def by blast
  then have r: "parses atof (next_pair (obj @ [(key, ?v)])) (pairs_text fmt o1 @ CHR ''}'' # s)
      (Inr (obj @ (key, ?v) # pairs_read atof fmt o1, Some (CHR ''}'' # s)))" by simp
  have "parses atof q ((if o1 = [] then '''' else '','' @ pairs_text fmt o1) @ CHR ''}'' # s)
      (Inr (obj @ (key, ?v) # pairs_read atof fmt o1, Some (CHR ''}'' # s)))"
  proof (cases "o1 = []")
    case True
    with parses_close [OF q(2)] obj show ?thesis by simp
  next
    case False
    with parses_comma [OF _ q(2), of _ _] q(1) r obj show ?thesis by simp
  qed
  from q(3) [OF this] have v: "parses atof ?p (content_text fmt c @ (if o1 = [] then '''' else '','' @ pairs_text fmt o1) @ CHR ''}'' # s)
      (Inr (obj @ (key, ?v) # pairs_read atof fmt o1, Some (CHR ''}'' # s)))" .
  have "parses atof (next_pair obj\<lparr>pr_buffer := key, pr_value := String_value\<rparr>)
      (CHR 0x20 # CHR '':'' # CHR 0x20 # content_text fmt c @ (if o1 = [] then '''' else '','' @ pairs_text fmt o1) @ CHR ''}'' # s)
      (Inr (obj @ (key, ?v) # pairs_read atof fmt o1, Some (CHR ''}'' # s)))"
    by (intro parses_space parses_colon parses_space)
      (use v c(2) in \<open>simp add: next_pair_def plain_no_nul\<close>)
  then show "parses atof (next_pair obj) (pairs_text fmt ((key, c) # o1) @ CHR ''}'' # s)
      (Inr (obj @ pairs_read atof fmt ((key, c) # o1), Some (CHR ''}'' # s)))"
    using parses_space [OF parses_quoted [OF c(2), of atof "next_pair obj"]] by (simp add: next_pair_def)
qed

lemma add_number:
  "- (2 ^ 63) \<le> n \<Longrightarrow> n < 2 ^ 63 \<Longrightarrow> add_value atof nm Number_value (int_text n) obj =
     Inr (bson_add nm (if n \<le> 2 ^ 31 - 1 then CInt (word_of_int n) else CLong (word_of_int n)) obj)"
  by (simp add: add_value_def Let_def)

lemma text_parsed:
  "content_plain fmt c \<Longrightarrow> content_sorted c \<Longrightarrow> value_parsed atof fmt c"
  "pairs_plain fmt o1 \<Longrightarrow> bson_sorted o1 \<Longrightarrow> pairs_parsed atof fmt o1"
  "docs_plain fmt os \<Longrightarrow> array_sorted os \<Longrightarrow> \<forall>o1\<in>set os. doc_parsed atof fmt o1"
proof (induction fmt c and fmt o1 and fmt os rule: content_text_pairs_text_docs_text.induct)
  case (1 fmt b)
  show ?case by (rule value_parsed_word)
    (auto simp: value_char_def add_value_def atoll_def isspace_def c_str_def Let_def)
next
  case (2 fmt i)
  have "sint i < 2 ^ 31" "- (2 ^ 31) \<le> sint i" using sint_lt [of i] sint_ge [of i] by simp_all
  then show ?case by (intro value_parsed_word) (simp_all add: add_number)
next
  case (3 fmt l)
  have "sint l < 2 ^ 63" "- (2 ^ 63) \<le> sint l" using sint_lt [of l] sint_ge [of l] by simp_all
  then show ?case by (intro value_parsed_word) (simp_all add: add_number)
next
  case (4 fmt d)
  then show ?case
    by (intro value_parsed_word) (auto simp: real_text_def value_char_def add_value_def real_text_no_nul)
next
  case (5 fmt s)
  then show ?case by (simp add: value_parsed_string)
next
  case (6 fmt o1)
  then show ?case by (simp add: value_parsed_doc pairs_parsed_doc bson_sorted_iff)
next
  case (7 fmt os)
  then show ?case by (simp add: value_parsed_array)
next
  case (8 fmt)
  then show ?case by (simp add: pairs_parsed_Nil)
next
  case (9 fmt key c o1)
  then show ?case by (cases "o1 = []") (simp_all add: pairs_parsed_Cons pairs_parsed_Nil)
next
  case (11 fmt o1 os)
  then show ?case by (cases "os = []") (simp_all add: pairs_parsed_doc bson_sorted_iff)
qed simp

lemma printed_array_text: "docs_plain fmt os \<Longrightarrow> bsonarray_toChar fmt os = Inr t \<Longrightarrow> t = ''['' @ docs_text fmt os @ '']''"
  using toChar_text(1) [of fmt "CArray os" t] by (simp add: bsonarray_toChar_def)

lemma parseArray_printed:
  assumes "docs_plain fmt os" "array_sorted os" "bsonarray_toChar fmt os = Inr t"
  shows "parseArray atof t = Inr (Some (docs_read atof fmt os))"
proof -
  have t: "t = CHR ''['' # docs_text fmt os @ CHR '']'' # []" using printed_array_text [OF assms(1,3)] by simp
  have "c_str t = t" using text_no_nul(3) [OF assms(1)] t by simp
  moreover have "enough (parser_fuel t) t" unfolding enough_def using document_fuel by blast
  ultimately show ?thesis
    using parse_array_docs [OF text_parsed(3) [OF assms(1,2)], of "parser_fuel t" "[]"] t by (simp add: parseArray_def)
qed

text \<open>
  A name whose quote is not closed ends the program.
\<close>

lemma collect_unclosed: "plain_text cs \<Longrightarrow> collect (CHR 0x22) False cs = None"
  by (induction cs) (auto simp: plain_text_def)

lemma parseArray_unclosed:
  assumes "plain_text cs"
  shows "parseArray atof (''[{'' @ [CHR 0x22] @ cs) = Inl Terminated"
proof -
  let ?s = "CHR ''['' # CHR ''{'' # CHR 0x22 # cs"
  have c: "c_str ?s = ?s" using plain_no_nul [OF assms] by simp
  obtain n where n: "parser_fuel ?s = Suc (Suc n)" by (auto simp: parser_fuel_def)
  have "parse_loop atof (Suc n) q (CHR 0x22 # cs) = Inl Terminated" for q
    using parse_loop_steps(7) [of "CHR 0x22" atof n q cs] collect_unclosed [OF assms] by (simp add: unexpected_def)
  then have "parse_loop atof (parser_fuel ?s) new_parser (CHR ''{'' # CHR 0x22 # cs) = Inl Terminated"
    unfolding n by (subst parse_loop_steps(3)) (simp_all add: new_parser_def)
  then have "array_loop (parse_loop atof (parser_fuel ?s) new_parser) (Suc (length ?s)) (Some []) ?s = Inl Terminated"
    using next_bracket_skip [of "''[''" "CHR ''{'' # CHR 0x22 # cs"] by simp
  then have "parse_array (parse_loop atof (parser_fuel ?s) new_parser) ?s = Inl Terminated"
    by (simp add: parse_array_def Let_def del: array_loop.simps)
  with c show ?thesis by (simp add: parseArray_def Let_def)
qed

end
