(* ===== verification/Bson_Select.thy ===== *)
theory Bson_Select
  imports Bson
begin

text \<open>
  Column selections: bson_splitSelect and bson_subselect of bson/bsonutil.cpp, and the select
  functions of BSONObj and BSONArrayObj. A selection is a comma-separated list of columns; a
  column written $"a.b" reaches into nested documents.
\<close>

section \<open>bson/bsonutil.cpp\<close>

text \<open>std::string(s, pos, n) with n of type size_t; a negative n means the rest of the text.\<close>

definition substr :: "string \<Rightarrow> nat \<Rightarrow> int \<Rightarrow> string res" where
  "substr s pos n =
     (if pos > length s then Inl Out_of_range
      else Inr (if n < 0 then drop pos s else take (nat n) (drop pos s)))"

definition select_column :: "string \<Rightarrow> string res" where
  "select_column element =
     bindR (trim element) (\<lambda>cs.
     bindR (if startsWith cs ''$'' then substr cs 2 (int (length cs) - 3) else Inr cs) (\<lambda>s.
     Inr (if CHR ''.'' \<in> set s then takeWhile (\<lambda>c. c \<noteq> CHR ''.'') s else s)))"

definition bson_splitSelect :: "string \<Rightarrow> string list res" where
  "bson_splitSelect select = mapR select_column (split select '','')"

text \<open>The C strcpy(str, offset, len) of util copies len bytes; a negative len is undefined.\<close>

definition strcpy_part :: "string \<Rightarrow> nat \<Rightarrow> int \<Rightarrow> string res" where
  "strcpy_part s offset len =
     (if len < 0 then Inl Undefined_behaviour else Inr (take (nat len) (drop offset s)))"

text \<open>One round of the loop of bson_subselect; the result so far is empty in the first round.\<close>

fun subselect_loop :: "string \<Rightarrow> string list \<Rightarrow> bool \<Rightarrow> string \<Rightarrow> string res" where
  "subselect_loop startXpath [] first result = Inr result"
| "subselect_loop startXpath (e # elements) first result =
     bindR (trim e) (\<lambda>element.
     if startsWith element ''$'' then
       bindR (strcpy_part element 2 (int (length element) - 3)) (\<lambda>element.
       if startsWith element startXpath then
         subselect_loop startXpath elements False
           (result @ (if \<not> first then '', '' else []) @ ''$'' @ [CHR 0x22]
              @ drop (length startXpath) element @ [CHR 0x22])
       else subselect_loop startXpath elements first result)
     else subselect_loop startXpath elements first result)"

definition bson_subselect :: "string \<Rightarrow> string \<Rightarrow> string res" where
  "bson_subselect select name =
     bindR (format_s '''' name ''.'') (\<lambda>startXpath.
     subselect_loop startXpath (split select '', '') True [])"

section \<open>BSONObj::select and BSONArrayObj::select\<close>

text \<open>
  Adding a document or an array to the result copies it; a copy is equal to its original
  (the lemma copy_bson_id), so the copies are not written here.
\<close>

function bson_select :: "string \<Rightarrow> (string \<times> content) list \<Rightarrow> bson res"
  and select_loop :: "string \<Rightarrow> string list \<Rightarrow> (string \<times> content) list \<Rightarrow> bson \<Rightarrow> bson res"
  and select_content :: "string \<Rightarrow> string \<Rightarrow> content \<Rightarrow> content res"
  and array_select :: "string \<Rightarrow> (string \<times> content) list list \<Rightarrow> bson list res" where
  "bson_select sel o1 =
     bindR (bson_splitSelect sel) (\<lambda>columns. select_loop sel columns o1 [])"
| "select_loop sel columns [] result = Inr result"
| "select_loop sel columns ((key, c) # rest) result =
     (if sel = ''*'' \<or> key \<in> set columns then
        bindR (select_content sel key c) (\<lambda>c'.
        select_loop sel columns rest (bson_add key c' result))
      else select_loop sel columns rest result)"
| "select_content sel key (CBson inner) =
     (if sel = ''*'' then Inr (CBson inner)
      else bindR (bson_subselect sel key) (\<lambda>sub.
           bindR (bson_select sub inner) (\<lambda>i. Inr (CBson i))))"
| "select_content sel key (CArray innerArray) =
     (if sel = ''*'' then Inr (CArray innerArray)
      else bindR (bson_subselect sel key) (\<lambda>sub.
           bindR (array_select sub innerArray) (\<lambda>a. Inr (CArray a))))"
| "select_content sel key (CBool b) = Inr (CBool b)"
| "select_content sel key (CInt i) = Inr (CInt i)"
| "select_content sel key (CLong l) = Inr (CLong l)"
| "select_content sel key (CDouble d) = Inr (CDouble d)"
| "select_content sel key (CString s) = Inr (CString s)"
| "array_select sel [] = Inr []"
| "array_select sel (o1 # os) =
     bindR (if sel = ''*'' then Inr o1 else bson_select sel o1) (\<lambda>sub.
     bindR (array_select sel os) (\<lambda>subs. Inr (sub # subs)))"
  by pat_completeness auto
termination
  by (relation "measure (\<lambda>x. case x of
        Inl (Inl (sel, o1)) \<Rightarrow> 2 * size_list (size_prod (\<lambda>_. 0) size) o1 + 1
      | Inl (Inr (sel, cols, o1, r)) \<Rightarrow> 2 * size_list (size_prod (\<lambda>_. 0) size) o1
      | Inr (Inl (sel, key, c)) \<Rightarrow> 2 * size c
      | Inr (Inr (sel, os)) \<Rightarrow> 2 * size_list (size_list (size_prod (\<lambda>_. 0) size)) os)") auto

section \<open>Facts\<close>

text \<open>The columns of a nested document that a selection names, as bson_subselect writes them.\<close>

definition quoted :: "string \<Rightarrow> string" where
  "quoted s = CHR ''$'' # CHR 0x22 # s @ [CHR 0x22]"

definition picked :: "string \<Rightarrow> string \<Rightarrow> bool" where
  "picked startXpath e \<longleftrightarrow> startsWith e ''$'' \<and>
     startsWith (take (length e - 3) (drop 2 e)) startXpath"

definition pick :: "string \<Rightarrow> string \<Rightarrow> string" where
  "pick startXpath e = quoted (drop (length startXpath) (take (length e - 3) (drop 2 e)))"

text \<open>A token that bson_subselect handles without an error.\<close>

definition token_ok :: "string \<Rightarrow> bool" where
  "token_ok t \<longleftrightarrow> t \<noteq> [] \<and> CHR '','' \<notin> set t \<and> CHR '' '' \<notin> set t \<and> no_nul t \<and>
     (startsWith t ''$'' \<longrightarrow> 3 \<le> length t)"

lemma trim_clean: "t \<noteq> [] \<Longrightarrow> CHR '' '' \<notin> set t \<Longrightarrow> trim t = Inr t"
proof -
  assume t: "t \<noteq> []" "CHR '' '' \<notin> set t"
  have stay: "dropWhile (\<lambda>c. c = CHR '' '') u = u" if "CHR '' '' \<notin> set u" for u
    using that by (cases u) auto
  with t show ?thesis using stay [of t] stay [of "rev t"] by (simp add: trim_def Let_def)
qed

lemma trim_space [simp]: "trim (CHR '' '' # t) = trim t"
  by (simp add: trim_def)

lemma startsWith_append [simp]: "startsWith (s @ t) s"
  by (simp add: startsWith_def)

lemma startsWith_dollar: "startsWith t ''$'' \<longleftrightarrow> (\<exists>u. t = CHR ''$'' # u)"
  by (cases t) (auto simp: startsWith_def)

lemma subselect_loop_picks:
  "\<forall>t\<in>set es. token_ok t \<Longrightarrow>
   subselect_loop x es first res = Inr (res @ (case map (pick x) (filter (picked x) es) of
     [] \<Rightarrow> [] | ps \<Rightarrow> (if first then [] else '', '') @ join '', '' ps))"
proof (induction x es first res rule: subselect_loop.induct)
  case (2 x e es first res)
  then have e: "trim e = Inr e" "startsWith e ''$'' \<longrightarrow> 3 \<le> length e"
    by (simp_all add: token_ok_def trim_clean)
  have three: "nat (int (length e) - 3) = length e - 3" by simp
  show ?case
  proof (cases "picked x e")
    case True
    with e have "startsWith e ''$''" "3 \<le> length e" by (simp_all add: picked_def)
    with True e three 2 show ?thesis
      by (auto simp: strcpy_part_def picked_def pick_def quoted_def split: list.splits)
  next
    case False
    with e three 2 show ?thesis by (auto simp: strcpy_part_def picked_def)
  qed
qed simp

lemma pick_token_ok: "token_ok t \<Longrightarrow> token_ok (pick x t)"
  by (auto simp: token_ok_def pick_def quoted_def no_nul_def dest!: in_set_dropD in_set_takeD)

lemma cut_dot:
  "(if CHR ''.'' \<in> set s then takeWhile (\<lambda>c. c \<noteq> CHR ''.'') s else s) =
   takeWhile (\<lambda>c. c \<noteq> CHR ''.'') s"
  by (simp add: takeWhile_absent)

lemma select_column_quoted:
  assumes "CHR '' '' \<notin> set s"
  shows "select_column (quoted s) = Inr (takeWhile (\<lambda>c. c \<noteq> CHR ''.'') s)"
proof -
  have "trim (quoted s) = Inr (quoted s)"
    using assms by (intro trim_clean) (simp_all add: quoted_def)
  moreover have "startsWith (quoted s) ''$''" by (simp add: quoted_def startsWith_dollar)
  moreover have "substr (quoted s) 2 (int (length (quoted s)) - 3) = Inr s"
    by (simp add: quoted_def substr_def)
  ultimately show ?thesis unfolding select_column_def cut_dot by simp
qed

lemma strtok_no_nul: "t \<in> set (split s d) \<Longrightarrow> no_nul t"
proof -
  have "\<Union> (set ` set (strtok_from tok d s)) \<subseteq> set tok \<union> set s" for tok s
    by (induction tok d s rule: strtok_from.induct) auto
  from this [of "[]" "c_str s"] no_nul_c_str [of s] show "t \<in> set (split s d) \<Longrightarrow> no_nul t"
    by (auto simp: split_def strtok_def no_nul_def)
qed

text \<open>A selection that neither raises an error nor makes one in a nested document.\<close>

definition select_ok :: "string \<Rightarrow> bool" where
  "select_ok sel \<longleftrightarrow> (\<exists>cols. bson_splitSelect sel = Inr cols) \<and>
     (\<forall>t\<in>set (split sel '', ''). startsWith t ''$'' \<longrightarrow> 3 \<le> length t)"

lemma split_tokens_ok: "select_ok sel \<Longrightarrow> t \<in> set (split sel '', '') \<Longrightarrow> token_ok t"
  using strtok_tokens [of t "'', ''" "c_str sel"] strtok_no_nul [of t sel "'', ''"]
  by (auto simp: select_ok_def token_ok_def split_def)

lemma c_str_join: "\<forall>t\<in>set ts. no_nul t \<Longrightarrow> c_str (join '', '' ts) = join '', '' ts"
proof (rule c_str_no_nul)
  show "\<forall>t\<in>set ts. no_nul t \<Longrightarrow> no_nul (join '', '' ts)"
    by (induction "'', ''" ts rule: join.induct) (auto simp: no_nul_def)
qed

lemma join_comma_space:
  "join '', '' (p # ps) = join '','' (p # map (\<lambda>q. CHR '' '' # q) ps)"
proof (induction ps arbitrary: p)
  case (Cons a ps)
  have "join sep ((c # a) # ts) = c # join sep (a # ts)" for sep c a ts by (cases ts) simp_all
  with Cons show ?case by simp
qed simp

lemma mapR_total: "\<forall>x\<in>set xs. \<exists>y. f x = Inr y \<Longrightarrow> \<exists>ys. mapR f xs = Inr ys"
  by (induction xs) auto

text \<open>A list of quoted columns is a selection that succeeds.\<close>

lemma select_ok_quoted:
  assumes "\<forall>p\<in>set ps. token_ok p \<and> (\<exists>s. p = quoted s)"
  shows "select_ok (join '', '' ps)"
proof (cases ps)
  case Nil
  then show ?thesis by (simp add: select_ok_def bson_splitSelect_def split_def strtok_def c_str_def)
next
  case (Cons q qs)
  have clean: "\<forall>p\<in>set ps. p \<noteq> [] \<and> set p \<inter> set '', '' = {}"
    using assms by (auto simp: token_ok_def)
  have commas: "\<forall>p\<in>set (q # map (\<lambda>q. CHR '' '' # q) qs). p \<noteq> [] \<and> set p \<inter> set '','' = {}"
    using clean Cons by auto
  have cs: "c_str (join '', '' ps) = join '', '' ps"
    using assms by (intro c_str_join) (simp add: token_ok_def)
  have two: "split (join '', '' ps) '', '' = ps"
    unfolding split_def cs by (rule strtok_join [OF _ _ clean]) simp_all
  have one: "split (join '', '' ps) '','' = q # map (\<lambda>q. CHR '' '' # q) qs"
    unfolding split_def cs unfolding Cons join_comma_space
    by (rule strtok_join [OF _ _ commas]) simp_all
  have column: "\<exists>c. select_column p = Inr c" "\<exists>c. select_column (CHR '' '' # p) = Inr c"
    if p: "p \<in> set ps" for p
  proof -
    obtain s where s: "p = quoted s" using assms p by blast
    have "token_ok (quoted s)" using assms p s by blast
    then have "CHR '' '' \<notin> set s" by (simp add: token_ok_def quoted_def)
    with s have col: "\<exists>c. select_column p = Inr c" by (simp add: select_column_quoted)
    then show "\<exists>c. select_column p = Inr c" .
    have "select_column (CHR '' '' # p) = select_column p"
      unfolding select_column_def trim_space ..
    with col show "\<exists>c. select_column (CHR '' '' # p) = Inr c" by simp
  qed
  have "\<exists>cols. bson_splitSelect (join '', '' ps) = Inr cols"
    unfolding bson_splitSelect_def one
  proof (rule mapR_total, rule ballI)
    fix x
    assume "x \<in> set (q # map (\<lambda>q. CHR '' '' # q) qs)"
    then consider "x = q" | p where "p \<in> set qs" "x = CHR '' '' # p" by auto
    then show "\<exists>y. select_column x = Inr y"
    proof cases
      case 1
      then show ?thesis using column(1) [of q] Cons by simp
    next
      case 2
      then show ?thesis using column(2) [of p] Cons by simp
    qed
  qed
  moreover have "\<forall>t\<in>set ps. startsWith t ''$'' \<longrightarrow> 3 \<le> length t"
    using assms by (simp add: token_ok_def)
  ultimately show ?thesis unfolding select_ok_def two by blast
qed

text \<open>The columns handed to a nested document are again a selection that succeeds.\<close>

lemma bson_subselect_ok:
  assumes "select_ok sel" "length (c_str name) < 999"
  shows "\<exists>sub. bson_subselect sel name = Inr sub \<and> select_ok sub"
proof -
  let ?x = "c_str name @ ''.''"
  let ?es = "split sel '', ''"
  let ?ps = "map (pick ?x) (filter (picked ?x) ?es)"
  have ok: "\<forall>t\<in>set ?es. token_ok t" using split_tokens_ok [OF assms(1)] by blast
  have "bson_subselect sel name = Inr (join '', '' ?ps)"
    using assms(2) subselect_loop_picks [OF ok, of ?x True "[]"]
    by (simp add: bson_subselect_def format_s_def split: list.splits)
  moreover have "select_ok (join '', '' ?ps)"
  proof (rule select_ok_quoted, rule ballI)
    fix p
    assume "p \<in> set ?ps"
    then obtain e where e: "p = pick ?x e" "e \<in> set ?es" by auto
    with ok pick_token_ok have "token_ok p" by blast
    with e show "token_ok p \<and> (\<exists>s. p = quoted s)" unfolding pick_def by blast
  qed
  ultimately show ?thesis by blast
qed

lemma select_ok_star [simp]: "select_ok ''*''"
  by (simp add: select_ok_def bson_splitSelect_def split_def strtok_def c_str_def
      select_column_def trim_def startsWith_def)

text \<open>The selection * returns the document as it is.\<close>

lemma select_content_star [simp]: "select_content ''*'' key c = Inr c"
  by (cases c) simp_all

lemma array_select_star [simp]: "array_select ''*'' os = Inr os"
  by (induction os) simp_all

lemma select_loop_star:
  "map_sorted (result @ o1) \<Longrightarrow> select_loop ''*'' cols o1 result = Inr (result @ o1)"
proof (induction o1 arbitrary: result)
  case (Cons p o1)
  obtain k c where p: "p = (k, c)" by (cases p)
  have "\<forall>q\<in>set result. fst q < k"
    using Cons.prems p by (intro map_sorted_append_below) simp
  then have "bson_add k c result = result @ [(k, c)]"
    unfolding bson_add_put by (rule map_put_last)
  with Cons p show ?case by simp
qed simp

lemma bson_select_star: "map_sorted o1 \<Longrightarrow> bson_select ''*'' o1 = Inr o1"
  using select_ok_star select_loop_star [of "[]" o1] by (auto simp: select_ok_def)

end
