(* ===== verification/Bson_Codec.thy ===== *)
theory Bson_Codec
  imports Bson_Select
begin

text \<open>
  The wire format of documents: BSONOutputStream (filesystem/bsonoutputstream.cpp) and
  BSONInputStream (filesystem/bsoninputstream.cpp). The reader can apply a selection while it
  reads, jumping over the values it does not want.
\<close>

section \<open>BSONOutputStream\<close>

text \<open>PTRCHAR_TYPE is written as STRING_TYPE.\<close>

definition wire_type :: "content \<Rightarrow> int64" where
  "wire_type c = of_nat (type_code
     (if content_type c \<noteq> PTRCHAR_TYPE then content_type c else STRING_TYPE))"

fun writeContent :: "content \<Rightarrow> byte list"
  and writeElements :: "(string \<times> content) list \<Rightarrow> byte list"
  and writeObjects :: "(string \<times> content) list list \<Rightarrow> byte list" where
  "writeContent (CBson inner) = write_long (of_nat (bson_length inner)) @ writeElements inner"
| "writeContent (CBool b) = write_boolean b"
| "writeContent (CInt i) = write_int i"
| "writeContent (CLong l) = write_long l"
| "writeContent (CDouble d) = write_double d"
| "writeContent (CString str) = write_chars str"
| "writeContent (CArray array) = write_long (of_nat (length array)) @ writeObjects array"
| "writeElements [] = []"
| "writeElements ((key, cont) # rest) =
     write_string key @ write_long (wire_type cont) @ writeContent cont @ writeElements rest"
| "writeObjects [] = []"
| "writeObjects (obj # rest) =
     (write_long (of_nat (bson_length obj)) @ writeElements obj) @ writeObjects rest"

definition writeBSON :: "bson \<Rightarrow> byte list" where
  "writeBSON o1 = write_long (of_nat (bson_length o1)) @ writeElements o1"

definition writeBSONArray :: "bson list \<Rightarrow> byte list" where
  "writeBSONArray array = write_long (of_nat (length array)) @ writeObjects array"

section \<open>BSONInputStream\<close>

text \<open>
  Jumping over a counted text. A negative count, which no writer produces, would move the
  stream backwards and is outside the model.
\<close>

definition skip_chars :: "unit reader" where
  "skip_chars = rbind read_int (\<lambda>len.
     if sint len < 0 then rfail Undefined_behaviour else skip (nat (sint len)))"

text \<open>The object reader that nested values call is a parameter; its argument is the selection.\<close>

definition readBSONInnerArray :: "(string \<Rightarrow> bson reader) \<Rightarrow> string \<Rightarrow> bson list reader" where
  "readBSONInnerArray readObj select = rbind read_long (\<lambda>elements.
     rloop (nat (sint elements))
       (\<lambda>result. rbind (readObj select) (\<lambda>obj. rreturn (array_add result obj))) [])"

definition read_or_skip ::
    "bool \<Rightarrow> 'a reader \<Rightarrow> unit reader \<Rightarrow> ('a \<Rightarrow> content) \<Rightarrow> string \<Rightarrow> bson \<Rightarrow> bson reader" where
  "read_or_skip include rd jump mk key obj =
     (if include then rbind rd (\<lambda>v. rreturn (bson_add key (mk v) obj))
      else rbind jump (\<lambda>_. rreturn obj))"

definition readValue ::
    "(string \<Rightarrow> bson reader) \<Rightarrow> string \<Rightarrow> bool \<Rightarrow> string \<Rightarrow> int64 \<Rightarrow> bson \<Rightarrow> bson reader" where
  "readValue readObj select include key type obj =
     (let sub = rlift (if select = ''*'' then Inr ''*'' else bson_subselect select key);
          add = (\<lambda>c. rreturn (if include then bson_add key c obj else obj))
      in
      if type = 5 then rbind sub (\<lambda>sub. rbind (readObj sub) (\<lambda>inner. add (CBson inner)))
      else if type = 10 then read_or_skip include read_boolean (skip 1) CBool key obj
      else if type = 0 then read_or_skip include read_int (skip 4) CInt key obj
      else if type = 2 then read_or_skip include read_long (skip 8) CLong key obj
      else if type = 9 then read_or_skip include read_long (skip 8) CLong key obj
      else if type = 1 then read_or_skip include read_double (skip 8) CDouble key obj
      else if type = 3 then read_or_skip include read_chars skip_chars (\<lambda>s. CString (c_str s)) key obj
      else if type = 4 then read_or_skip include read_string skip_chars (\<lambda>s. CString (c_str s)) key obj
      else if type = 6 then
        rbind sub (\<lambda>sub. rbind (readBSONInnerArray readObj sub) (\<lambda>array. add (CArray array)))
      else rreturn obj)"

definition readElement :: "(string \<Rightarrow> bson reader) \<Rightarrow> string \<Rightarrow> string list \<Rightarrow> bson \<Rightarrow> bson reader" where
  "readElement readObj select columns obj =
     rbind read_string (\<lambda>key. rbind read_long (\<lambda>type.
       readValue readObj select (select = ''*'' \<or> key \<in> set columns) key type obj))"

text \<open>The recursion goes one level of nesting deeper in each call; the fuel counts levels.\<close>

primrec readBSON_fuel :: "nat \<Rightarrow> string \<Rightarrow> bson reader" where
  "readBSON_fuel 0 select = rfail No_fuel"
| "readBSON_fuel (Suc n) select =
     rbind (rlift (if select = ''*'' then Inr [] else bson_splitSelect select)) (\<lambda>columns.
     rbind read_long (\<lambda>elements.
     rloop (nat (sint elements)) (readElement (readBSON_fuel n) select columns) []))"

text \<open>Every level reads at least the eight bytes of its count, so the input bounds the depth.\<close>

definition readBSON :: "string \<Rightarrow> bson reader" where
  "readBSON select s = readBSON_fuel (Suc (length s)) select s"

definition readBSONArray :: "string \<Rightarrow> bson list reader" where
  "readBSONArray select s = readBSONInnerArray (readBSON_fuel (Suc (length s))) select s"

section \<open>The fuel is enough\<close>

lemma rbind_shrinks:
  assumes "\<And>s x t. m s = Inr (x, t) \<Longrightarrow> length t \<le> length s"
    and "\<And>x s y t. f x s = Inr (y, t) \<Longrightarrow> length t \<le> length s"
  shows "rbind m f s = Inr (y, t) \<Longrightarrow> length t \<le> length s"
  using assms by (fastforce simp: rbind_def bindR_Inr_iff dest: le_trans)

lemma rlift_Inr [simp]: "rlift m s = Inr (x, t) \<longleftrightarrow> m = Inr x \<and> t = s"
  by (auto simp: rlift_def bindR_Inr_iff)

lemma rreturn_Inr [simp]: "rreturn a s = Inr (x, t) \<longleftrightarrow> x = a \<and> t = s"
  by (auto simp: rreturn_def)

lemma skip_chars_Inr: "skip_chars s = Inr (u, t) \<Longrightarrow> length t \<le> length s"
  by (auto simp: skip_chars_def rbind_def bindR_Inr_iff rfail_def split: if_splits
      dest!: reads_shrink)

lemma read_or_skip_shrinks:
  assumes "\<And>s x t. rd s = Inr (x, t) \<Longrightarrow> length t \<le> length s"
    and "\<And>s x t. jump s = Inr (x, t) \<Longrightarrow> length t \<le> length s"
  shows "read_or_skip inc rd jump mk key obj s = Inr (y, t) \<Longrightarrow> length t \<le> length s"
  by (auto simp: read_or_skip_def rbind_def bindR_Inr_iff split: if_splits dest: assms)

lemma readBSONInnerArray_shrinks:
  assumes "\<And>sel s x t. r sel s = Inr (x, t) \<Longrightarrow> length t \<le> length s"
  shows "readBSONInnerArray r sel s = Inr (y, t) \<Longrightarrow> length t + 8 \<le> length s"
  by (force simp: readBSONInnerArray_def rbind_def bindR_Inr_iff dest!: read_long_Inr
      dest: assms rloop_shrinks [rotated])

lemma reads_le:
  "read_int s = Inr (v1, t) \<Longrightarrow> length t \<le> length s"
  "read_long s = Inr (v2, t) \<Longrightarrow> length t \<le> length s"
  "read_double s = Inr (v2, t) \<Longrightarrow> length t \<le> length s"
  "read_boolean s = Inr (v4, t) \<Longrightarrow> length t \<le> length s"
  "read_chars s = Inr (v5, t) \<Longrightarrow> length t \<le> length s"
  "read_string s = Inr (v5, t) \<Longrightarrow> length t \<le> length s"
  "skip n s = Inr (u, t) \<Longrightarrow> length t \<le> length s"
  by (auto dest: reads_shrink)

lemma readValue_shrinks:
  assumes r: "\<And>sel s x t. r sel s = Inr (x, t) \<Longrightarrow> length t \<le> length s"
  shows "readValue r sel inc key type obj s = Inr (y, t) \<Longrightarrow> length t \<le> length s"
  unfolding readValue_def Let_def
  by (auto split: if_splits dest!: read_or_skip_shrinks [rotated 2] intro: reads_le skip_chars_Inr
      simp: rbind_def bindR_Inr_iff
      dest: r readBSONInnerArray_shrinks [OF r, rotated])

lemma readElement_shrinks:
  assumes r: "\<And>sel s x t. r sel s = Inr (x, t) \<Longrightarrow> length t \<le> length s"
  shows "readElement r sel cols obj s = Inr (y, t) \<Longrightarrow> length t \<le> length s"
  unfolding readElement_def
  by (rule rbind_shrinks, erule reads_le, rule rbind_shrinks, erule reads_le,
      rule readValue_shrinks [OF r])

lemma readBSON_fuel_shrinks: "readBSON_fuel n sel s = Inr (y, t) \<Longrightarrow> length t \<le> length s"
proof (induction n arbitrary: sel s y t)
  case 0
  then show ?case by (simp add: rfail_def)
next
  case (Suc n)
  note el = readElement_shrinks [where r = "readBSON_fuel n", OF Suc.IH]
  show ?case using Suc.prems
    by (auto simp: rbind_def bindR_Inr_iff dest!: read_long_Inr rloop_shrinks [rotated]
        intro: el)
qed

lemma readBSONInnerArray_cong:
  assumes "\<And>sel s x t. r sel s = Inr (x, t) \<Longrightarrow> length t \<le> length s"
    and "\<And>sel t. length t \<le> length s \<Longrightarrow> r sel t = r' sel t"
  shows "readBSONInnerArray r sel s = readBSONInnerArray r' sel s"
proof -
  have "rloop k (\<lambda>result. rbind (r sel) (\<lambda>obj. rreturn (array_add result obj))) [] t =
      rloop k (\<lambda>result. rbind (r' sel) (\<lambda>obj. rreturn (array_add result obj))) [] t"
    if "length t \<le> length s" for k t
    using that
    by (intro rloop_cong_inputs [where l = "length s"])
      (auto simp: rbind_def assms(2) bindR_Inr_iff dest: assms(1))
  then show ?thesis
    unfolding readBSONInnerArray_def
    by (auto simp: rbind_def split: prod.splits intro!: bindR_cong dest!: read_long_Inr)
qed

lemma rlift_bind_cong: "(\<And>x. f x s = g x s) \<Longrightarrow> rbind (rlift m) f s = rbind (rlift m) g s"
  by (cases m) (simp_all add: rbind_def rlift_def)

lemma rbind_cong_first: "m s = m' s \<Longrightarrow> rbind m f s = rbind m' f s"
  by (simp add: rbind_def)

lemma if_app_cong:
  "(c \<Longrightarrow> f s = f' s) \<Longrightarrow> (\<not> c \<Longrightarrow> g s = g' s) \<Longrightarrow>
   (if c then f else g) s = (if c then f' else g') s"
  by simp

lemma readValue_cong:
  assumes "\<And>sel s x t. r sel s = Inr (x, t) \<Longrightarrow> length t \<le> length s"
    and "\<And>sel t. length t \<le> length s \<Longrightarrow> r sel t = r' sel t"
  shows "readValue r sel inc key type obj s = readValue r' sel inc key type obj s"
proof -
  have objs: "r sub s = r' sub s"
    and arrays: "readBSONInnerArray r sub s = readBSONInnerArray r' sub s" for sub
    by (simp add: assms(2)) (rule readBSONInnerArray_cong [OF assms])
  show ?thesis unfolding readValue_def Let_def
    by (rule if_app_cong, rule rlift_bind_cong, rule rbind_cong_first, rule objs)
      ((rule if_app_cong, rule refl)+, rule if_app_cong, rule rlift_bind_cong,
        rule rbind_cong_first, rule arrays, rule refl)
qed

lemma readElement_cong:
  assumes "\<And>sel s x t. r sel s = Inr (x, t) \<Longrightarrow> length t \<le> length s"
    and "\<And>sel t. length t \<le> length s \<Longrightarrow> r sel t = r' sel t"
  shows "readElement r sel cols obj s = readElement r' sel cols obj s"
  unfolding readElement_def rbind_def
  by (auto intro!: bindR_cong readValue_cong [OF assms(1)] assms(2) dest!: reads_shrink)

lemma readElement_fuel_shrinks:
  "readElement (readBSON_fuel n) sel cols obj s = Inr (y, t) \<Longrightarrow> length t \<le> length s"
  by (rule readElement_shrinks [rotated], assumption, erule readBSON_fuel_shrinks)

lemma readBSON_fuel_enough:
  "length s < n \<Longrightarrow> length s < m \<Longrightarrow> readBSON_fuel n sel s = readBSON_fuel m sel s"
proof (induction n arbitrary: m sel s)
  case (Suc n)
  obtain m' where m: "m = Suc m'" using Suc.prems by (cases m) auto
  have loop: "rloop k (readElement (readBSON_fuel n) sel cols) [] t =
      rloop k (readElement (readBSON_fuel m') sel cols) [] t"
    if t: "length s = 8 + length t" for k cols t
  proof (rule rloop_cong_inputs [where l = "length t"])
    fix a :: bson and u :: "byte list"
    assume "length u \<le> length t"
    then show "readElement (readBSON_fuel n) sel cols a u = readElement (readBSON_fuel m') sel cols a u"
      using t m Suc.prems Suc.IH [of _ m']
      by (intro readElement_cong) (auto elim: readBSON_fuel_shrinks)
  qed (erule readElement_fuel_shrinks, simp)
  have "rbind read_long (\<lambda>elements. rloop (nat (sint elements))
        (readElement (readBSON_fuel n) sel cols) []) s =
      rbind read_long (\<lambda>elements. rloop (nat (sint elements))
        (readElement (readBSON_fuel m') sel cols) []) s" for cols
    using loop by (cases "read_long s") (auto simp: rbind_def dest!: read_long_Inr)
  then show ?case unfolding m readBSON_fuel.simps by (rule rlift_bind_cong)
qed simp

text \<open>No outcome other than the reader's own reports the end of the fuel.\<close>

definition no_fuel_left :: "'a res \<Rightarrow> bool" where
  "no_fuel_left r \<longleftrightarrow> r = Inl No_fuel"

named_theorems fuelled "operations that never report the end of the fuel"

lemma no_fuel_left_simps [simp]:
  "\<not> no_fuel_left (Inr x)"
  "no_fuel_left (Inl e) \<longleftrightarrow> e = No_fuel"
  "no_fuel_left (bindR m f) \<longleftrightarrow> no_fuel_left m \<or> (\<exists>x. m = Inr x \<and> no_fuel_left (f x))"
  by (auto simp: no_fuel_left_def bindR_Inl_iff)

lemma no_fuel_left_readers [simp]:
  "no_fuel_left (rbind m f s) \<longleftrightarrow>
     no_fuel_left (m s) \<or> (\<exists>x t. m s = Inr (x, t) \<and> no_fuel_left (f x t))"
  "\<not> no_fuel_left (rreturn a s)"
  "no_fuel_left (rfail e s) \<longleftrightarrow> e = No_fuel"
  "no_fuel_left (rlift r s) \<longleftrightarrow> no_fuel_left r"
  by (auto simp: rbind_def rreturn_def rfail_def rlift_def)

lemma no_fuel_left_mapR: "(\<And>x. \<not> no_fuel_left (f x)) \<Longrightarrow> \<not> no_fuel_left (mapR f xs)"
  by (induction xs) auto

lemma no_fuel_left_prims [simp]:
  "\<not> no_fuel_left (read_raw n s)" "\<not> no_fuel_left (read_int s)" "\<not> no_fuel_left (read_long s)"
  "\<not> no_fuel_left (read_double s)" "\<not> no_fuel_left (read_boolean s)" "\<not> no_fuel_left (read_chars s)"
  "\<not> no_fuel_left (read_string s)" "\<not> no_fuel_left (skip n s)" "\<not> no_fuel_left (skip_chars s)"
  by (simp_all add: read_raw_def skip_def skip_chars_def stream_defs)

lemma no_fuel_left_select [simp]:
  "\<not> no_fuel_left (bson_splitSelect sel)" "\<not> no_fuel_left (bson_subselect sel key)"
proof -
  have loop: "\<not> no_fuel_left (subselect_loop x es first res)" for x es first res
    by (induction x es first res rule: subselect_loop.induct)
      (auto simp: trim_def Let_def strcpy_part_def)
  show "\<not> no_fuel_left (bson_splitSelect sel)" unfolding bson_splitSelect_def
    by (rule no_fuel_left_mapR) (auto simp: select_column_def trim_def Let_def substr_def)
  show "\<not> no_fuel_left (bson_subselect sel key)"
    by (simp add: bson_subselect_def format_s_def Let_def loop)
qed

lemma no_fuel_left_rloop:
  assumes "\<And>a s b t. f a s = Inr (b, t) \<Longrightarrow> length t \<le> length s"
    and "\<And>a t. length t \<le> length s \<Longrightarrow> \<not> no_fuel_left (f a t)"
  shows "\<not> no_fuel_left (rloop n f a s)"
proof
  assume "no_fuel_left (rloop n f a s)"
  then have "rloop n f a s = Inl No_fuel" by (simp add: no_fuel_left_def)
  then have "\<exists>a' t. length t \<le> length s \<and> f a' t = Inl No_fuel"
    by (rule rloop_Inl [rotated]) (erule assms(1))
  with assms(2) show False by (auto simp: no_fuel_left_def)
qed

lemma no_fuel_left_array:
  assumes "\<And>sel s x t. r sel s = Inr (x, t) \<Longrightarrow> length t \<le> length s"
    and "\<And>sel t. length t \<le> length s \<Longrightarrow> \<not> no_fuel_left (r sel t)"
  shows "\<not> no_fuel_left (readBSONInnerArray r sel s)"
proof -
  have "\<not> no_fuel_left (rloop k (\<lambda>result. rbind (r sel) (\<lambda>obj. rreturn (array_add result obj))) [] t)"
    if "length t \<le> length s" for k t
    using that assms by (intro no_fuel_left_rloop) (auto simp: rbind_def bindR_Inr_iff)
  then show ?thesis by (auto simp: readBSONInnerArray_def dest!: reads_le)
qed

lemma no_fuel_left_read_or_skip:
  "\<not> no_fuel_left (rd s) \<Longrightarrow> \<not> no_fuel_left (jump s) \<Longrightarrow>
   \<not> no_fuel_left (read_or_skip inc rd jump mk key obj s)"
  by (simp add: read_or_skip_def)

lemma no_fuel_left_element:
  assumes "\<And>sel s x t. r sel s = Inr (x, t) \<Longrightarrow> length t \<le> length s"
    and "\<And>sel t. length t \<le> length s \<Longrightarrow> \<not> no_fuel_left (r sel t)"
  shows "\<not> no_fuel_left (readElement r sel cols obj s)"
proof -
  have "\<not> no_fuel_left (readValue r sel inc key type obj t)"
    if t: "length t \<le> length s" for inc key type t
  proof -
    have "\<not> no_fuel_left (readBSONInnerArray r sub t)" for sub
      using t assms by (intro no_fuel_left_array) auto
    then show ?thesis using t assms(2)
      by (simp add: readValue_def Let_def no_fuel_left_read_or_skip)
  qed
  then show ?thesis by (auto simp: readElement_def dest!: reads_le intro: le_trans)
qed

lemma readBSON_fuel_returns: "length s < n \<Longrightarrow> \<not> no_fuel_left (readBSON_fuel n sel s)"
proof (induction n arbitrary: sel s)
  case (Suc n)
  have "\<not> no_fuel_left (rloop k (readElement (readBSON_fuel n) sel cols) [] t)"
    if "length s = 8 + length t" for k cols t
    using that Suc
    by (intro no_fuel_left_rloop no_fuel_left_element)
      (auto elim: readElement_fuel_shrinks readBSON_fuel_shrinks)
  then show ?case by (auto dest!: read_long_Inr)
qed simp

section \<open>Round trip under a selection\<close>

text \<open>The documents the format can carry: sizes fit their counters, texts hold no null byte.\<close>

definition key_ok :: "string \<Rightarrow> bool" where
  "key_ok key \<longleftrightarrow> no_nul key \<and> length key < 999"

fun content_ok :: "content \<Rightarrow> bool"
  and elements_ok :: "(string \<times> content) list \<Rightarrow> bool"
  and objects_ok :: "(string \<times> content) list list \<Rightarrow> bool" where
  "content_ok (CString s) = (no_nul s \<and> int32_size (length s))"
| "content_ok (CBson o1) = (int32_size (length o1) \<and> elements_ok o1)"
| "content_ok (CArray os) = (int32_size (length os) \<and> objects_ok os)"
| "content_ok _ = True"
| "elements_ok [] = True"
| "elements_ok ((k, c) # o1) = (key_ok k \<and> content_ok c \<and> elements_ok o1)"
| "objects_ok [] = True"
| "objects_ok (o1 # os) = (int32_size (length o1) \<and> elements_ok o1 \<and> objects_ok os)"

definition bson_ok :: "bson \<Rightarrow> bool" where
  "bson_ok o1 \<longleftrightarrow> bson_sorted o1 \<and> int32_size (length o1) \<and> elements_ok o1"

lemma sint_count [simp]: "int32_size n \<Longrightarrow> sint (of_nat n :: int64) = int n"
  by (simp add: int32_size_def signed_of_nat signed_take_bit_int_eq_self)

lemma wire_type_simps [simp]:
  "wire_type (CBson o1) = 5" "wire_type (CBool b) = 10" "wire_type (CInt i) = 0"
  "wire_type (CLong l) = 2" "wire_type (CDouble d) = 1" "wire_type (CString s) = 4"
  "wire_type (CArray os) = 6"
  by (simp_all add: wire_type_def)

lemma skip_chars_write [simp]:
  "int32_size (length s) \<Longrightarrow> skip_chars (write_chars s @ r) = Inr ((), r)"
proof -
  assume small: "int32_size (length s)"
  then have "sint (of_nat (length s) :: int32) = int (length s)"
    by (simp add: int32_size_def signed_of_nat signed_take_bit_int_eq_self)
  then show ?thesis by (simp add: skip_chars_def write_chars_def rbind_Inr)
qed

lemma bson_add_ignored: "select_loop ''*'' cols o1 obj = select_loop ''*'' cols' o1 obj"
  by (induction o1 arbitrary: obj) auto

lemma readBSON_fuel_step:
  assumes "select_ok sel" "int32_size (length o1)"
    and loop: "\<And>cols obj. \<exists>o2. select_loop sel cols o1 obj = Inr o2 \<and>
      rloop (length o1) (readElement (readBSON_fuel m) sel cols) obj (es @ r) = Inr (o2, r)"
  shows "\<exists>o2. bson_select sel o1 = Inr o2 \<and>
    readBSON_fuel (Suc m) sel (write_long (of_nat (length o1)) @ es @ r) = Inr (o2, r)"
proof -
  obtain cols where cols: "bson_splitSelect sel = Inr cols"
    using assms(1) by (auto simp: select_ok_def)
  let ?cols = "if sel = ''*'' then [] else cols"
  obtain o2 where o2: "select_loop sel ?cols o1 [] = Inr o2"
    "rloop (length o1) (readElement (readBSON_fuel m) sel ?cols) [] (es @ r) = Inr (o2, r)"
    using loop by blast
  have "bson_select sel o1 = Inr o2"
    using o2(1) cols bson_add_ignored [of "[]" o1 "[]" cols] by (auto split: if_splits)
  moreover have "rlift (if sel = ''*'' then Inr [] else bson_splitSelect sel) s = Inr (?cols, s)" for s
    by (simp add: cols)
  ultimately show ?thesis using o2(2) assms(2) by (simp add: rbind_Inr)
qed

lemma readValue_nested:
  assumes "if sel = ''*'' then sub = ''*'' else bson_subselect sel key = Inr sub"
  shows "r sub s = Inr (o1, t) \<Longrightarrow>
      readValue r sel inc key 5 obj s = Inr (if inc then bson_add key (CBson o1) obj else obj, t)"
    and "readBSONInnerArray r sub s = Inr (os, t) \<Longrightarrow>
      readValue r sel inc key 6 obj s = Inr (if inc then bson_add key (CArray os) obj else obj, t)"
proof -
  have "rlift (if sel = ''*'' then Inr ''*'' else bson_subselect sel key) s = Inr (sub, s)"
    using assms by (simp split: if_splits)
  then show "r sub s = Inr (o1, t) \<Longrightarrow>
      readValue r sel inc key 5 obj s = Inr (if inc then bson_add key (CBson o1) obj else obj, t)"
    and "readBSONInnerArray r sub s = Inr (os, t) \<Longrightarrow>
      readValue r sel inc key 6 obj s = Inr (if inc then bson_add key (CArray os) obj else obj, t)"
    by (simp_all add: readValue_def Let_def rbind_Inr rreturn_def)
qed

lemma read_or_skip_write:
  assumes "rd s = Inr (v, t)" "jump s = Inr ((), t)"
  shows "read_or_skip inc rd jump mk key obj s =
    Inr (if inc then bson_add key (mk v) obj else obj, t)"
  using assms by (simp add: read_or_skip_def rbind_Inr rreturn_def)

lemma length_writes [simp]:
  "length (write_int i) = 4" "length (write_long l) = 8" "length (write_boolean b) = 1"
  "length (write_double d) = 8"
  by (simp_all add: write_int_def write_long_def write_boolean_def write_double_def)

lemma skip_write [simp]:
  "skip 4 (write_int i @ r) = Inr ((), r)" "skip 8 (write_long l @ r) = Inr ((), r)"
  "skip (Suc 0) (write_boolean b @ r) = Inr ((), r)" "skip 8 (write_double d @ r) = Inr ((), r)"
  by simp_all

lemma read_string_chars:
  "no_nul s \<Longrightarrow> int32_size (length s) \<Longrightarrow> read_string (write_chars s @ r) = Inr (s, r)"
  by (simp add: read_string_def rbind_Inr rreturn_def)

lemma readValue_scalar:
  assumes "content_ok c" "\<forall>o1. c \<noteq> CBson o1" "\<forall>os. c \<noteq> CArray os"
  shows "select_content sel key c = Inr c"
    and "readValue rd sel inc key (wire_type c) obj (writeContent c @ r) =
      Inr (if inc then bson_add key c obj else obj, r)"
  using assms
  by (cases c; simp add: readValue_def Let_def read_or_skip_write read_string_chars)+

lemma readElement_write:
  assumes "key_ok key"
  shows "readElement rd sel cols obj (write_string key @ write_long (wire_type c) @ s) =
    readValue rd sel (sel = ''*'' \<or> key \<in> set cols) key (wire_type c) obj s"
proof -
  have "read_string (write_string key @ x) = Inr (key, x)" for x
    using assms by (simp add: key_ok_def int32_size_def)
  then show ?thesis by (simp add: readElement_def rbind_Inr)
qed

lemma sub_selection:
  assumes "select_ok sel" "key_ok key"
  obtains sub where "if sel = ''*'' then sub = ''*'' else bson_subselect sel key = Inr sub"
    and "select_ok sub"
proof (cases "sel = ''*''")
  case False
  have "length (c_str key) < 999" using assms(2) by (simp add: key_ok_def)
  from bson_subselect_ok [OF assms(1) this] False that show ?thesis by auto
qed (use that [of "''*''"] in simp)

lemma read_write_all:
  "select_ok sel \<Longrightarrow> key_ok key \<Longrightarrow> content_ok c \<Longrightarrow> content_sorted c \<Longrightarrow>
     length (writeContent c @ r) < n \<Longrightarrow>
     \<exists>c2. select_content sel key c = Inr c2 \<and>
       readValue (readBSON_fuel n) sel inc key (wire_type c) obj (writeContent c @ r) =
         Inr (if inc then bson_add key c2 obj else obj, r)"
  "select_ok sel \<Longrightarrow> elements_ok o1 \<Longrightarrow> bson_sorted o1 \<Longrightarrow> length (writeElements o1 @ r) < n \<Longrightarrow>
     \<exists>o2. select_loop sel cols o1 obj = Inr o2 \<and>
       rloop (length o1) (readElement (readBSON_fuel n) sel cols) obj (writeElements o1 @ r) =
         Inr (o2, r)"
  "select_ok sel \<Longrightarrow> objects_ok os \<Longrightarrow> array_sorted os \<Longrightarrow> length (writeObjects os @ r) < n \<Longrightarrow>
     \<exists>os2. array_select sel os = Inr os2 \<and>
       rloop (length os)
         (\<lambda>result. rbind (readBSON_fuel n sel) (\<lambda>obj. rreturn (array_add result obj))) acc
         (writeObjects os @ r) = Inr (acc @ os2, r)"
proof (induction c and o1 and os arbitrary: sel key n r inc obj and sel n r cols obj
    and sel n r acc rule: writeContent_writeElements_writeObjects.induct)
  case (1 inner)
  obtain sub where sub: "if sel = ''*'' then sub = ''*'' else bson_subselect sel key = Inr sub"
    "select_ok sub" using sub_selection [OF 1(2,3)] .
  obtain m where n: "n = Suc m" using 1(6) by (cases n) auto
  have "\<exists>o2. bson_select sub inner = Inr o2 \<and> readBSON_fuel n sub
      (write_long (of_nat (length inner)) @ writeElements inner @ r) = Inr (o2, r)"
    unfolding n using sub(2) 1 n by (intro readBSON_fuel_step) auto
  then obtain o2 where o2: "bson_select sub inner = Inr o2"
    "readBSON_fuel n sub (writeContent (CBson inner) @ r) = Inr (o2, r)"
    by (auto simp: bson_length_def)
  have "sel = ''*'' \<Longrightarrow> o2 = inner"
    using o2(1) sub(1) bson_select_star [of inner] 1(5) by simp
  with o2(1) sub(1) have "select_content sel key (CBson inner) = Inr (CBson o2)"
    by (cases "sel = ''*''") auto
  with readValue_nested(1) [where r = "readBSON_fuel n", OF sub(1) o2(2)] show ?case by simp
next
  case (7 array)
  obtain sub where sub: "if sel = ''*'' then sub = ''*'' else bson_subselect sel key = Inr sub"
    "select_ok sub" using sub_selection [OF 7(2,3)] .
  have "\<exists>os2. array_select sub array = Inr os2 \<and> rloop (length array)
      (\<lambda>result. rbind (readBSON_fuel n sub) (\<lambda>obj. rreturn (array_add result obj))) []
      (writeObjects array @ r) = Inr ([] @ os2, r)"
    using 7 sub(2) by (intro "7.IH") auto
  then obtain os2 where os2: "array_select sub array = Inr os2"
    "readBSONInnerArray (readBSON_fuel n) sub (writeContent (CArray array) @ r) = Inr (os2, r)"
    using 7(4) by (auto simp: readBSONInnerArray_def rbind_Inr)
  have "select_content sel key (CArray array) = Inr (CArray os2)"
    using os2(1) sub(1) by (cases "sel = ''*''") auto
  with readValue_nested(2) [where r = "readBSON_fuel n", OF sub(1) os2(2)] show ?case by simp
next
  case (9 key cont rest)
  let ?inc = "sel = ''*'' \<or> key \<in> set cols"
  obtain c2 where c2: "select_content sel key cont = Inr c2"
    "readValue (readBSON_fuel n) sel ?inc key (wire_type cont) obj
       (writeContent cont @ writeElements rest @ r) =
       Inr (if ?inc then bson_add key c2 obj else obj, writeElements rest @ r)"
    using "9.IH"(1) [of sel key "writeElements rest @ r" n ?inc obj] 9(3-) by auto
  obtain o2 where o2: "select_loop sel cols rest (if ?inc then bson_add key c2 obj else obj) = Inr o2"
    "rloop (length rest) (readElement (readBSON_fuel n) sel cols)
       (if ?inc then bson_add key c2 obj else obj) (writeElements rest @ r) = Inr (o2, r)"
    using "9.IH"(2) [of sel r n cols "if ?inc then bson_add key c2 obj else obj"] 9(3-) by auto
  have "key_ok key" using 9(4) by simp
  with c2 o2 show ?case
    by (auto simp: rbind_Inr readElement_write split: if_splits)
next
  case (11 obj rest)
  obtain m where n: "n = Suc m" using 11(6) by (cases n) auto
  have "\<exists>o2. bson_select sel obj = Inr o2 \<and> readBSON_fuel n sel
      (write_long (of_nat (length obj)) @ writeElements obj @ writeObjects rest @ r) =
      Inr (o2, writeObjects rest @ r)"
    unfolding n using 11 n by (intro readBSON_fuel_step) auto
  then obtain o2 where o2: "bson_select sel obj = Inr o2" "readBSON_fuel n sel
      (write_long (of_nat (length obj)) @ writeElements obj @ writeObjects rest @ r) =
      Inr (o2, writeObjects rest @ r)" by blast
  obtain os2 where os2: "array_select sel rest = Inr os2" "rloop (length rest)
      (\<lambda>result. rbind (readBSON_fuel n sel) (\<lambda>obj. rreturn (array_add result obj)))
      (array_add acc o2) (writeObjects rest @ r) = Inr (array_add acc o2 @ os2, r)"
    using "11.IH"(2) [of sel r n "array_add acc o2"] 11(3-) by auto
  have "(if sel = ''*'' then Inr obj else bson_select sel obj) = Inr o2"
    using o2(1) bson_select_star [of obj] 11(5) by (auto split: if_splits)
  with o2 os2 show ?case by (simp add: rbind_Inr rreturn_def bson_length_def array_add_def)
qed ((rule exI, rule conjI, (rule readValue_scalar; simp)+) | simp add: rreturn_def)+

lemma readBSON_select:
  assumes "bson_ok o1" "select_ok sel"
  shows "\<exists>o2. bson_select sel o1 = Inr o2 \<and> readBSON sel (writeBSON o1 @ r) = Inr (o2, r)"
proof -
  have "\<exists>o2. bson_select sel o1 = Inr o2 \<and>
      readBSON_fuel (Suc (length (writeBSON o1 @ r))) sel
        (write_long (of_nat (length o1)) @ writeElements o1 @ r) = Inr (o2, r)"
    using assms
    by (intro readBSON_fuel_step read_write_all(2)) (auto simp: bson_ok_def writeBSON_def)
  then show ?thesis by (simp add: readBSON_def writeBSON_def bson_length_def)
qed

lemma readBSON_star: "bson_ok o1 \<Longrightarrow> readBSON ''*'' (writeBSON o1 @ r) = Inr (o1, r)"
  using readBSON_select [of o1 "''*''" r] bson_select_star [of o1] by (auto simp: bson_ok_def)

interpretation bson_codec: record_codec writeBSON "readBSON ''*''" bson_ok
  by unfold_locales (rule readBSON_star, assumption, simp add: writeBSON_def)

lemma readBSON_returns: "readBSON sel s \<noteq> Inl No_fuel"
  using readBSON_fuel_returns [of s "Suc (length s)" sel] by (simp add: readBSON_def no_fuel_left_def)

lemma readBSON_any_fuel: "length s < n \<Longrightarrow> readBSON_fuel n sel s = readBSON sel s"
  unfolding readBSON_def by (rule readBSON_fuel_enough) simp_all

definition array_ok :: "bson list \<Rightarrow> bool" where
  "array_ok os \<longleftrightarrow> array_sorted os \<and> int32_size (length os) \<and> objects_ok os"

lemma readBSONArray_select:
  assumes "array_ok os" "select_ok sel"
  shows "\<exists>os2. array_select sel os = Inr os2 \<and>
    readBSONArray sel (writeBSONArray os @ r) = Inr (os2, r)"
proof -
  have "\<exists>os2. array_select sel os = Inr os2 \<and> rloop (length os) (\<lambda>result.
      rbind (readBSON_fuel (Suc (length (writeBSONArray os @ r))) sel)
        (\<lambda>obj. rreturn (array_add result obj))) [] (writeObjects os @ r) = Inr ([] @ os2, r)"
    using assms by (intro read_write_all(3)) (auto simp: array_ok_def writeBSONArray_def)
  with assms show ?thesis
    by (auto simp: readBSONArray_def readBSONInnerArray_def writeBSONArray_def rbind_Inr array_ok_def)
qed

interpretation array_codec: record_codec writeBSONArray "readBSONArray ''*''" array_ok
proof unfold_locales
  fix os :: "bson list" and rest :: "byte list"
  assume "array_ok os"
  from readBSONArray_select [OF this select_ok_star, of rest]
  show "readBSONArray ''*'' (writeBSONArray os @ rest) = Inr (os, rest)" by simp
qed (simp add: writeBSONArray_def)

end
