(* ===== verification/Filters.thy ===== *)
theory Filters
  imports Bson
begin

text \<open>
  Filter expressions (db/expressionresult.cpp, constantexpression.cpp, simpleexpression.cpp,
  unaryexpression.cpp, binaryexpression.cpp, filterdefs.cpp): the tree that the generated parser
  builds, its evaluation on a document and its copies. A null result pointer is None; using it
  is undefined.
\<close>

section \<open>Results and operators\<close>

datatype result_type =
  RT_INT | RT_DOUBLE | RT_LONG | RT_LONG64 | RT_BOOLEAN | RT_STRINGDB | RT_PTRCHAR | RT_BSON | RT_NULL

datatype eresult =
    ENull
  | EInt int32
  | ELong int64
  | EDouble int64
  | EBool bool
  | EStd string
  | EString string
  | EBson bson

fun rtype :: "eresult \<Rightarrow> result_type" where
  "rtype ENull = RT_NULL"
| "rtype (EInt _) = RT_INT"
| "rtype (ELong _) = RT_LONG"
| "rtype (EDouble _) = RT_DOUBLE"
| "rtype (EBool _) = RT_BOOLEAN"
| "rtype (EStd _) = RT_STRINGDB"
| "rtype (EString _) = RT_PTRCHAR"
| "rtype (EBson _) = RT_BSON"

definition as_bool :: "eresult \<Rightarrow> bool res" where
  "as_bool r = (case r of EBool b \<Rightarrow> Inr b | _ \<Rightarrow> Inl (Thrown ''Invalid cast''))"

definition as_int :: "eresult \<Rightarrow> int32 res" where
  "as_int r = (case r of EInt i \<Rightarrow> Inr i | _ \<Rightarrow> Inl (Thrown ''Invalid cast''))"

definition as_long :: "eresult \<Rightarrow> int64 res" where
  "as_long r = (case r of ELong l \<Rightarrow> Inr l | _ \<Rightarrow> Inl (Thrown ''Invalid cast''))"

definition as_double :: "eresult \<Rightarrow> int64 res" where
  "as_double r = (case r of EDouble d \<Rightarrow> Inr d | _ \<Rightarrow> Inl (Thrown ''Invalid cast''))"

definition as_string :: "eresult \<Rightarrow> string res" where
  "as_string r = (case r of EStd s \<Rightarrow> Inr s | _ \<Rightarrow> Inl (Thrown ''Invalid cast''))"

definition as_djstring :: "eresult \<Rightarrow> string res" where
  "as_djstring r = (case r of EString s \<Rightarrow> Inr s | _ \<Rightarrow> Inl (Thrown ''Invalid cast''))"

definition as_bson :: "eresult \<Rightarrow> bson res" where
  "as_bson r = (case r of EBson b \<Rightarrow> Inr b | _ \<Rightarrow> Inl (Thrown ''Invalid cast''))"

datatype filter_operator =
    FO_NONE | FO_TOKEN | FO_AND | FO_OR | FO_EQUALS | FO_NOT_EQUALS | FO_PARENTESIS_OPEN
  | FO_PARENTESIS_CLOSE | FO_NOT | FO_LESSTHAN | FO_LESSEQUALTHAN | FO_GREATERTHAN
  | FO_GREATEREQUALTHAN | FO_EXISTS

definition parseFilterOperator :: "string \<Rightarrow> filter_operator" where
  "parseFilterOperator txt =
     (if compareInsensitive txt ''or'' then FO_OR
      else if compareInsensitive txt ''and'' then FO_AND
      else if compareInsensitive txt ''!='' then FO_NOT_EQUALS
      else if compareInsensitive txt ''=='' then FO_EQUALS
      else if compareInsensitive txt ''>'' then FO_GREATERTHAN
      else if compareInsensitive txt ''>='' then FO_GREATEREQUALTHAN
      else if compareInsensitive txt ''<'' then FO_LESSTHAN
      else if compareInsensitive txt ''<='' then FO_LESSEQUALTHAN
      else FO_NONE)"

section \<open>Expressions\<close>

datatype const_value = KChars string | KBool bool | KInt int32 | KLong int64 | KDouble int64

datatype expr =
    Constant const_value
  | Simple string
  | Unary filter_operator "expr option"
  | Binary filter_operator "expr option" "expr option"

fun constant_value :: "const_value \<Rightarrow> eresult" where
  "constant_value (KChars s) = EString (c_str s)"
| "constant_value (KBool b) = EBool b"
| "constant_value (KInt i) = EInt i"
| "constant_value (KLong l) = ELong l"
| "constant_value (KDouble d) = EDouble d"

text \<open>The constructor of a path drops the leading dollar and quote and the last quote.\<close>

definition strip_quotes :: "string \<Rightarrow> string res" where
  "strip_quotes txt =
     (if length txt < 3 then Inl Undefined_behaviour
      else Inr (take (length txt - 3) (drop 2 txt)))"

definition new_simple :: "string \<Rightarrow> expr res" where
  "new_simple txt = bindR (strip_quotes (c_str txt)) (\<lambda>e. Inr (Simple e))"

definition push_unary :: "expr \<Rightarrow> expr \<Rightarrow> expr" where
  "push_unary u e = (case u of Unary oper None \<Rightarrow> Unary oper (Some e) | _ \<Rightarrow> u)"

definition push_binary :: "expr \<Rightarrow> expr \<Rightarrow> expr" where
  "push_binary b e =
     (case b of Binary oper None r \<Rightarrow> Binary oper (Some e) r
      | Binary oper l None \<Rightarrow> Binary oper l (Some e) | _ \<Rightarrow> b)"

definition binary_full :: "expr \<Rightarrow> bool" where
  "binary_full b = (case b of Binary oper (Some l) (Some r) \<Rightarrow> True | _ \<Rightarrow> False)"

section \<open>Evaluation\<close>

definition eval_simple :: "string \<Rightarrow> bson \<Rightarrow> eresult res" where
  "eval_simple path bson =
     (case getXpath bson path of
        None \<Rightarrow> Inr ENull
      | Some (CBool b) \<Rightarrow> Inr (EBool b)
      | Some (CInt i) \<Rightarrow> Inr (EInt i)
      | Some (CLong l) \<Rightarrow> Inr (ELong l)
      | Some (CDouble d) \<Rightarrow> Inr (EDouble d)
      | Some (CString s) \<Rightarrow> Inr (EString s)
      | Some _ \<Rightarrow> Inl (Bson_exception ''Unsupported type''))"

text \<open>The two operands of a binary operator after their evaluation.\<close>

definition evalEqual :: "eresult \<Rightarrow> eresult \<Rightarrow> bool res" where
  "evalEqual valLeft valRight =
     (if rtype valLeft \<noteq> rtype valRight then Inr False
      else if (rtype valLeft \<noteq> RT_NULL \<and> rtype valRight = RT_NULL) \<or>
              (rtype valLeft = RT_NULL \<and> rtype valRight \<noteq> RT_NULL) then Inr False
      else (case rtype valLeft of
          RT_INT \<Rightarrow> bindR (as_int valLeft) (\<lambda>a. bindR (as_int valRight) (\<lambda>b. Inr (a = b)))
        | RT_LONG \<Rightarrow> bindR (as_long valLeft) (\<lambda>a. bindR (as_long valRight) (\<lambda>b. Inr (a = b)))
        | RT_LONG64 \<Rightarrow> bindR (as_long valLeft) (\<lambda>a. bindR (as_long valRight) (\<lambda>b. Inr (a = b)))
        | RT_DOUBLE \<Rightarrow> bindR (as_double valLeft) (\<lambda>a. bindR (as_double valRight) (\<lambda>b. Inr (ieee_eq a b)))
        | RT_BOOLEAN \<Rightarrow> bindR (as_bool valLeft) (\<lambda>a. bindR (as_bool valRight) (\<lambda>b. Inr (a = b)))
        | RT_PTRCHAR \<Rightarrow> bindR (as_djstring valLeft) (\<lambda>a. bindR (as_djstring valRight) (\<lambda>b. Inr (dj_equal a b)))
        | RT_STRINGDB \<Rightarrow> bindR (as_string valLeft) (\<lambda>a. bindR (as_string valRight) (\<lambda>b. Inr (a = b)))
        | RT_BSON \<Rightarrow> bindR (as_bson valLeft) (\<lambda>a. bindR (as_bson valRight) (\<lambda>b. bson_eq a b))
        | RT_NULL \<Rightarrow> Inr False))"

definition evalNotEqual :: "eresult \<Rightarrow> eresult \<Rightarrow> bool res" where
  "evalNotEqual valLeft valRight = bindR (evalEqual valLeft valRight) (\<lambda>b. Inr (\<not> b))"

text \<open>Strings, booleans and documents are never greater.\<close>

definition resultGreater :: "eresult \<Rightarrow> eresult \<Rightarrow> bool" where
  "resultGreater valLeft valRight =
     (if rtype valLeft \<noteq> RT_NULL \<and> rtype valRight = RT_NULL then True
      else if rtype valLeft = RT_NULL \<and> rtype valRight \<noteq> RT_NULL then False
      else (case (valLeft, valRight) of
          (EInt a, EInt b) \<Rightarrow> sint a > sint b
        | (ELong a, ELong b) \<Rightarrow> sint a > sint b
        | (EDouble a, EDouble b) \<Rightarrow> ieee_gt a b
        | _ \<Rightarrow> False))"

definition evalComparison :: "filter_operator \<Rightarrow> eresult \<Rightarrow> eresult \<Rightarrow> bool res" where
  "evalComparison oper valLeft valRight =
     (if rtype valLeft \<noteq> rtype valRight then Inr False
      else let greater = resultGreater valLeft valRight in
        if (\<not> greater \<and> oper = FO_GREATEREQUALTHAN) \<or> (greater \<and> oper = FO_LESSEQUALTHAN)
        then evalEqual valLeft valRight
        else Inr (if oper = FO_LESSTHAN \<or> oper = FO_LESSEQUALTHAN then \<not> greater else greater))"

definition evalAndOr :: "filter_operator \<Rightarrow> eresult \<Rightarrow> eresult \<Rightarrow> bool option" where
  "evalAndOr oper valLeft valRight =
     (case (valLeft, valRight) of
        (EBool l, EBool r) \<Rightarrow> Some (if oper = FO_AND then l \<and> r else l \<or> r)
      | _ \<Rightarrow> None)"

definition binary_result :: "filter_operator \<Rightarrow> eresult \<Rightarrow> eresult \<Rightarrow> eresult option res" where
  "binary_result oper l r =
     (let ok = (\<lambda>m. bindR m (\<lambda>b. Inr (Some (EBool b)))) in
      case oper of
        FO_EQUALS \<Rightarrow> ok (evalEqual l r)
      | FO_NOT_EQUALS \<Rightarrow> ok (evalNotEqual l r)
      | FO_AND \<Rightarrow> Inr (map_option EBool (evalAndOr oper l r))
      | FO_OR \<Rightarrow> Inr (map_option EBool (evalAndOr oper l r))
      | FO_LESSTHAN \<Rightarrow> ok (evalComparison oper l r)
      | FO_LESSEQUALTHAN \<Rightarrow> ok (evalComparison oper l r)
      | FO_GREATERTHAN \<Rightarrow> ok (evalComparison oper l r)
      | FO_GREATEREQUALTHAN \<Rightarrow> ok (evalComparison oper l r)
      | _ \<Rightarrow> Inl Undefined_behaviour)"

text \<open>Dereferencing the result pointer.\<close>

definition present :: "eresult option \<Rightarrow> eresult res" where
  "present r = (case r of Some v \<Rightarrow> Inr v | None \<Rightarrow> Inl Undefined_behaviour)"

definition signature_error :: "eresult option res" where
  "signature_error =
     Inl (Parse_exception 101 (''Exists signature is wrong. Use Exists($'' @ [CHR 0x27] @ ''field'' @
       [CHR 0x27] @ '').''))"

text \<open>
  Expressions call getXpath and has on the document, which are virtual: the evaluation takes what a
  path evaluates to and whether there is such a key.
\<close>

fun eval_with :: "(string \<Rightarrow> eresult res) \<Rightarrow> (string \<Rightarrow> bool res) \<Rightarrow> expr \<Rightarrow> eresult option res" where
  "eval_with field has (Constant k) = Inr (Some (constant_value k))"
| "eval_with field has (Simple path) = bindR (field path) (\<lambda>v. Inr (Some v))"
| "eval_with field has (Unary oper None) =
     (if oper = FO_NOT \<or> oper = FO_EXISTS then Inl Undefined_behaviour else Inr None)"
| "eval_with field has (Unary oper (Some e)) =
     (if oper = FO_NOT then
        bindR (eval_with field has e) (\<lambda>t. bindR (present t) (\<lambda>v.
        case v of EBool b \<Rightarrow> Inr (Some (EBool (\<not> b))) | _ \<Rightarrow> signature_error))
      else if oper = FO_EXISTS then
        (case e of Simple path \<Rightarrow> bindR (has path) (\<lambda>b. Inr (Some (EBool b))) | _ \<Rightarrow> signature_error)
      else Inr None)"
| "eval_with field has (Binary oper (Some l) (Some r)) =
     bindR (eval_with field has l) (\<lambda>vl. bindR (eval_with field has r) (\<lambda>vr.
     bindR (present vl) (\<lambda>vl. bindR (present vr) (\<lambda>vr. binary_result oper vl vr))))"
| "eval_with field has (Binary oper _ _) = Inl Undefined_behaviour"

definition eval_expr :: "bson \<Rightarrow> expr \<Rightarrow> eresult option res" where
  "eval_expr bson = eval_with (\<lambda>path. eval_simple path bson) (\<lambda>path. Inr (bson_has bson path))"

lemma eval_expr_simps [simp]:
  "eval_expr bson (Constant k) = Inr (Some (constant_value k))"
  "eval_expr bson (Simple path) = bindR (eval_simple path bson) (\<lambda>v. Inr (Some v))"
  "eval_expr bson (Unary oper None) =
     (if oper = FO_NOT \<or> oper = FO_EXISTS then Inl Undefined_behaviour else Inr None)"
  "eval_expr bson (Unary oper (Some e)) =
     (if oper = FO_NOT then
        bindR (eval_expr bson e) (\<lambda>t. bindR (present t) (\<lambda>v.
        case v of EBool b \<Rightarrow> Inr (Some (EBool (\<not> b))) | _ \<Rightarrow> signature_error))
      else if oper = FO_EXISTS then
        (case e of Simple path \<Rightarrow> Inr (Some (EBool (bson_has bson path))) | _ \<Rightarrow> signature_error)
      else Inr None)"
  "eval_expr bson (Binary oper (Some l) (Some r)) =
     bindR (eval_expr bson l) (\<lambda>vl. bindR (eval_expr bson r) (\<lambda>vr.
     bindR (present vl) (\<lambda>vl. bindR (present vr) (\<lambda>vr. binary_result oper vl vr))))"
  "eval_expr bson (Binary oper None r') = Inl Undefined_behaviour"
  "eval_expr bson (Binary oper l' None) = Inl Undefined_behaviour"
  by (simp_all add: eval_expr_def split: expr.split)

text \<open>A filter without an expression accepts every document.\<close>

definition filter_with :: "(string \<Rightarrow> eresult res) \<Rightarrow> (string \<Rightarrow> bool res) \<Rightarrow> expr option \<Rightarrow> eresult option res" where
  "filter_with field has root =
     (case root of Some e \<Rightarrow> eval_with field has e | None \<Rightarrow> Inr (Some (EBool True)))"

definition filter_eval :: "expr option \<Rightarrow> bson \<Rightarrow> eresult option res" where
  "filter_eval root bson = (case root of Some e \<Rightarrow> eval_expr bson e | None \<Rightarrow> Inr (Some (EBool True)))"

text \<open>The callers take a result that is not a truth value for a mismatch.\<close>

definition match_result :: "eresult option res \<Rightarrow> bool res" where
  "match_result r = bindR r (\<lambda>r. bindR (present r) (\<lambda>v. Inr (case v of EBool b \<Rightarrow> b | _ \<Rightarrow> False)))"

section \<open>Copies\<close>

text \<open>
  The copy of a path goes through the constructor that strips the quotes, a second time. The
  copy of a double constant reads the long pointer its constructor never set.
\<close>

fun copy_constant :: "const_value \<Rightarrow> const_value res" where
  "copy_constant (KChars s) = Inr (KChars (c_str s))"
| "copy_constant (KBool b) = Inr (KBool b)"
| "copy_constant (KInt i) = Inr (KInt i)"
| "copy_constant (KLong l) = Inr (KLong l)"
| "copy_constant (KDouble d) = Inl Undefined_behaviour"

fun copyExpression :: "expr \<Rightarrow> expr res" where
  "copyExpression (Constant k) = bindR (copy_constant k) (\<lambda>k. Inr (Constant k))"
| "copyExpression (Simple path) = new_simple path"
| "copyExpression (Unary oper e) = Inr (Unary oper e)"
| "copyExpression (Binary oper None None) = Inr (Binary oper None None)"
| "copyExpression (Binary oper (Some l) None) =
     bindR (copyExpression l) (\<lambda>l. Inr (Binary oper (Some l) None))"
| "copyExpression (Binary oper None (Some r)) =
     bindR (copyExpression r) (\<lambda>r. Inr (Binary oper None (Some r)))"
| "copyExpression (Binary oper (Some l) (Some r)) =
     bindR (copyExpression l) (\<lambda>l. bindR (copyExpression r) (\<lambda>r. Inr (Binary oper (Some l) (Some r))))"

section \<open>Facts\<close>

lemmas result_casts = as_bool_def as_int_def as_long_def as_double_def as_string_def
  as_djstring_def as_bson_def

lemma evalEqual_total: "(\<forall>b. v \<noteq> EBson b) \<Longrightarrow> \<exists>b. evalEqual v w = Inr b"
  by (cases v; cases w) (auto simp: evalEqual_def result_casts)

lemma evalComparison_total: "(\<forall>b. v \<noteq> EBson b) \<Longrightarrow> \<exists>b. evalComparison oper v w = Inr b"
  using evalEqual_total [of v w] by (auto simp: evalComparison_def Let_def)

lemma evalEqual_int: "evalEqual (EInt a) (EInt b) = Inr (a = b)"
  by (simp add: evalEqual_def result_casts)

lemma evalEqual_long: "evalEqual (ELong a) (ELong b) = Inr (a = b)"
  by (simp add: evalEqual_def result_casts)

lemma sint_le_cases: "sint a \<le> sint b \<longleftrightarrow> sint a < sint b \<or> a = (b :: 'a::len word)"
  by (metis order_le_less signed_word_eqI)

text \<open>The four comparisons of two integers: less-than also accepts equal values.\<close>

lemma comparison_int:
  "evalComparison FO_LESSTHAN (EInt a) (EInt b) = Inr (sint a \<le> sint b)"
  "evalComparison FO_LESSEQUALTHAN (EInt a) (EInt b) = Inr (sint a \<le> sint b)"
  "evalComparison FO_GREATERTHAN (EInt a) (EInt b) = Inr (sint a > sint b)"
  "evalComparison FO_GREATEREQUALTHAN (EInt a) (EInt b) = Inr (sint a \<ge> sint b)"
  by (auto simp: evalComparison_def resultGreater_def evalEqual_int Let_def sint_le_cases [of b a])

lemma comparison_long:
  "evalComparison FO_LESSTHAN (ELong a) (ELong b) = Inr (sint a \<le> sint b)"
  "evalComparison FO_LESSEQUALTHAN (ELong a) (ELong b) = Inr (sint a \<le> sint b)"
  "evalComparison FO_GREATERTHAN (ELong a) (ELong b) = Inr (sint a > sint b)"
  "evalComparison FO_GREATEREQUALTHAN (ELong a) (ELong b) = Inr (sint a \<ge> sint b)"
  by (auto simp: evalComparison_def resultGreater_def evalEqual_long Let_def sint_le_cases [of b a])

text \<open>Expressions that are a truth value on a document, and those that are some scalar.\<close>

definition scalar_path :: "bson \<Rightarrow> string \<Rightarrow> bool" where
  "scalar_path doc path = (case getXpath doc path of
      Some (CBson _) \<Rightarrow> False | Some (CArray _) \<Rightarrow> False | _ \<Rightarrow> True)"

fun bool_expr :: "bson \<Rightarrow> expr \<Rightarrow> bool" and val_expr :: "bson \<Rightarrow> expr \<Rightarrow> bool" where
  "bool_expr doc (Constant k) = (case k of KBool _ \<Rightarrow> True | _ \<Rightarrow> False)"
| "bool_expr doc (Unary oper (Some e)) =
     (if oper = FO_EXISTS then (case e of Simple _ \<Rightarrow> True | _ \<Rightarrow> False)
      else oper = FO_NOT \<and> bool_expr doc e)"
| "bool_expr doc (Binary oper (Some l) (Some r)) =
     (if oper = FO_AND \<or> oper = FO_OR then bool_expr doc l \<and> bool_expr doc r
      else oper \<in> {FO_EQUALS, FO_NOT_EQUALS, FO_LESSTHAN, FO_LESSEQUALTHAN, FO_GREATERTHAN,
             FO_GREATEREQUALTHAN} \<and> val_expr doc l \<and> val_expr doc r)"
| "bool_expr doc _ = False"
| "val_expr doc (Constant k) = True"
| "val_expr doc (Simple path) = scalar_path doc path"
| "val_expr doc (Unary oper e) = bool_expr doc (Unary oper e)"
| "val_expr doc (Binary oper l r) = bool_expr doc (Binary oper l r)"

lemma binary_result_comparison:
  "oper \<in> {FO_EQUALS, FO_NOT_EQUALS, FO_LESSTHAN, FO_LESSEQUALTHAN, FO_GREATERTHAN,
     FO_GREATEREQUALTHAN} \<Longrightarrow> (\<forall>b. v \<noteq> EBson b) \<Longrightarrow>
   \<exists>b. binary_result oper v w = Inr (Some (EBool b))"
  using evalEqual_total [of v w] evalComparison_total [of v oper w]
  by (auto simp: binary_result_def evalNotEqual_def)

lemma eval_scalar:
  "scalar_path doc path \<Longrightarrow> \<exists>v. eval_simple path doc = Inr v \<and> (\<forall>b. v \<noteq> EBson b)"
  by (auto simp: scalar_path_def eval_simple_def split: option.splits content.splits)

lemma constant_not_bson [simp]: "constant_value k \<noteq> EBson b"
  by (cases k) simp_all

text \<open>A well-typed filter always yields a truth value: no exception and no null result.\<close>

lemma eval_typed:
  "bool_expr doc e \<Longrightarrow> \<exists>b. eval_expr doc e = Inr (Some (EBool b))"
  "val_expr doc e \<Longrightarrow> \<exists>v. eval_expr doc e = Inr (Some v) \<and> (\<forall>b. v \<noteq> EBson b)"
proof (induction doc e and doc e rule: bool_expr_val_expr.induct)
  case (3 doc oper l r)
  show ?case
  proof (cases "oper = FO_AND \<or> oper = FO_OR")
    case True
    with 3 show ?thesis
      by (auto simp: present_def binary_result_def evalAndOr_def)
  next
    case False
    with 3 obtain v w where "eval_expr doc l = Inr (Some v)" "\<forall>b. v \<noteq> EBson b"
      "eval_expr doc r = Inr (Some w)" by auto
    with 3(5) False binary_result_comparison [of oper v w] show ?thesis
      by (simp add: present_def)
  qed
qed (auto simp: present_def split: if_splits const_value.splits expr.splits dest!: eval_scalar)

text \<open>Negation distributes over the connectives on well-typed operands.\<close>

definition neg :: "expr \<Rightarrow> expr" where
  "neg e = Unary FO_NOT (Some e)"

lemma eval_de_morgan:
  assumes "bool_expr doc l" "bool_expr doc r"
  shows "eval_expr doc (neg (Binary FO_AND (Some l) (Some r))) =
      eval_expr doc (Binary FO_OR (Some (neg l)) (Some (neg r)))"
    and "eval_expr doc (neg (Binary FO_OR (Some l) (Some r))) =
      eval_expr doc (Binary FO_AND (Some (neg l)) (Some (neg r)))"
  using eval_typed(1) [OF assms(1)] eval_typed(1) [OF assms(2)]
  by (auto simp: neg_def present_def binary_result_def evalAndOr_def)

text \<open>A copied path has lost its first two characters and its last one.\<close>

lemma copy_simple:
  "no_nul path \<Longrightarrow> copyExpression (Simple path) =
     (if length path < 3 then Inl Undefined_behaviour
      else Inr (Simple (take (length path - 3) (drop 2 path))))"
  by (simp add: new_simple_def strip_quotes_def)

end
