(* ===== verification/Bson_Buffered.thy ===== *)
theory Bson_Buffered
  imports Bson_Codec Filters
begin

text \<open>
  Documents that are left in the mapped data file: BSONBufferedObj, BSONBufferedContent and
  BSONBufferedArrayObj (filesystem/bsonbuffered*). A pointer into the file is the memory from there
  on, so reading behind the last byte of the mapping is undefined. The constructor only finds out
  where the keys and the values begin; the getters, the paths and the selections read them later.
\<close>

section \<open>State\<close>

text \<open>The arrays _keySize, _keys, _types and _values hold one entry for every element.\<close>

datatype bentry = BEntry (key_size: int32) (key_at: "byte list") (type_at: int64) (value_at: bvalue)
  and bvalue =
    VPtr "byte list"
  | VObj "bentry list" nat
  | VArr "(bentry list \<times> nat) list" nat

text \<open>A buffered document: its entries and its length in the buffer.\<close>

type_synonym buffered = "bentry list \<times> nat"

section \<open>BSONBufferedObj::initialize\<close>

definition deref :: "'a reader \<Rightarrow> 'a reader" where
  "deref rd = (\<lambda>p. case rd p of Inl Past_end \<Rightarrow> Inl Undefined_behaviour | r \<Rightarrow> r)"

definition here :: "byte list reader" where
  "here = (\<lambda>p. Inr (p, p))"

text \<open>A negative length, which no writer produces, moves the pointer back and is outside the model.\<close>

definition advance :: "int32 \<Rightarrow> unit reader" where
  "advance len = (if sint len < 0 then rfail Undefined_behaviour else skip (nat (sint len)))"

definition buffered_array :: "buffered reader \<Rightarrow> ((bentry list \<times> nat) list \<times> nat) reader" where
  "buffered_array robj = rbind (deref read_long) (\<lambda>elements.
     rloop (nat (sint elements))
       (\<lambda>(objs, n). rbind robj (\<lambda>obj. rreturn (objs @ [obj], n + snd obj))) ([], 8))"

definition buffered_value :: "buffered reader \<Rightarrow> int64 \<Rightarrow> (bvalue \<times> nat) reader" where
  "buffered_value robj type = rbind here (\<lambda>p.
     let fixed = (\<lambda>n. rbind (skip n) (\<lambda>_. rreturn (VPtr p, n))) in
     if type = 10 then fixed 1
     else if type = 0 then fixed 4
     else if type = 2 \<or> type = 9 then fixed 8
     else if type = 1 then fixed 8
     else if type = 3 \<or> type = 4 then
       rbind (deref read_int) (\<lambda>len. rbind (advance len) (\<lambda>_. rreturn (VPtr p, 4 + nat (sint len))))
     else if type = 5 then rbind robj (\<lambda>(es, n). rreturn (VObj es n, n))
     else if type = 6 then rbind (buffered_array robj) (\<lambda>(objs, n). rreturn (VArr objs n, n))
     else rreturn (VPtr p, 0))"

definition buffered_element :: "buffered reader \<Rightarrow> buffered \<Rightarrow> buffered reader" where
  "buffered_element robj = (\<lambda>(es, n).
     rbind (deref read_int) (\<lambda>keySize. rbind here (\<lambda>key. rbind (advance keySize) (\<lambda>_.
     rbind (deref read_long) (\<lambda>type. rbind (buffered_value robj type) (\<lambda>(v, k).
     rreturn (es @ [BEntry keySize key type v], n + 4 + nat (sint keySize) + 8 + k)))))))"

text \<open>The fuel counts the levels of nesting, each of which reads its eight bytes of count.\<close>

primrec buffered_fuel :: "nat \<Rightarrow> buffered reader" where
  "buffered_fuel 0 = rfail No_fuel"
| "buffered_fuel (Suc n) = rbind (deref read_long) (\<lambda>elements.
     rloop (nat (sint elements)) (buffered_element (buffered_fuel n)) ([], 8))"

definition new_buffered :: "byte list \<Rightarrow> buffered res" where
  "new_buffered p = bindR (buffered_fuel (Suc (length p)) p) (\<lambda>(obj, _). Inr obj)"

section \<open>Keys and types\<close>

text \<open>strncmp of memory with a C string, for equality.\<close>

fun strncmp_eq :: "nat \<Rightarrow> byte list \<Rightarrow> string \<Rightarrow> bool res" where
  "strncmp_eq 0 p s = Inr True"
| "strncmp_eq (Suc n) [] s = Inl Undefined_behaviour"
| "strncmp_eq (Suc n) (c # p) [] = Inr (c = CHR 0x00)"
| "strncmp_eq (Suc n) (c # p) (d # s) = (if c = d then strncmp_eq n p s else Inr False)"

text \<open>The value is looked up by the whole key.\<close>

fun buffered_getValue :: "bentry list \<Rightarrow> string \<Rightarrow> bvalue option res" where
  "buffered_getValue [] key = Inr None"
| "buffered_getValue (BEntry k p t v # es) key =
     (if int (length key) = sint k then
        bindR (strncmp_eq (length key) p key) (\<lambda>eq.
        if eq then Inr (Some v) else buffered_getValue es key)
      else buffered_getValue es key)"

text \<open>The type is that of the first entry whose key is the front of the one asked for.\<close>

fun buffered_getType :: "bentry list \<Rightarrow> string \<Rightarrow> int32 res" where
  "buffered_getType [] key = key_not_found key"
| "buffered_getType (BEntry k p t v # es) key =
     bindR (strncmp_eq (nat (sint k)) p key) (\<lambda>eq.
     if eq then Inr (if (ucast t :: int32) = 4 then 3 else ucast t) else buffered_getType es key)"

section \<open>Getters\<close>

definition buffered_read :: "'a reader \<Rightarrow> bentry list \<Rightarrow> string \<Rightarrow> 'a res" where
  "buffered_read rd es key =
     bindR (buffered_getValue es (c_str key)) (\<lambda>value.
     case value of
       None \<Rightarrow> key_not_found key
     | Some (VPtr p) \<Rightarrow> bindR (deref rd p) (\<lambda>(x, _). Inr x)
     | Some _ \<Rightarrow> Inl Undefined_behaviour)"

definition buffered_getBoolean :: "bentry list \<Rightarrow> string \<Rightarrow> bool res" where
  "buffered_getBoolean = buffered_read read_boolean"

definition buffered_getInt :: "bentry list \<Rightarrow> string \<Rightarrow> int32 res" where
  "buffered_getInt = buffered_read read_int"

definition buffered_getDouble :: "bentry list \<Rightarrow> string \<Rightarrow> int64 res" where
  "buffered_getDouble = buffered_read read_double"

definition buffered_getLong :: "bentry list \<Rightarrow> string \<Rightarrow> int64 res" where
  "buffered_getLong = buffered_read read_long"

definition buffered_getDJString :: "bentry list \<Rightarrow> string \<Rightarrow> string res" where
  "buffered_getDJString = buffered_read read_chars"

definition buffered_getBSON :: "bentry list \<Rightarrow> string \<Rightarrow> bentry list res" where
  "buffered_getBSON es key =
     bindR (buffered_getValue es (c_str key)) (\<lambda>value.
     case value of
       None \<Rightarrow> key_not_found key | Some (VObj inner n) \<Rightarrow> Inr inner | Some _ \<Rightarrow> Inl Undefined_behaviour)"

definition buffered_getBSONArray :: "bentry list \<Rightarrow> string \<Rightarrow> (bentry list \<times> nat) list res" where
  "buffered_getBSONArray es key =
     bindR (buffered_getValue es (c_str key)) (\<lambda>value.
     case value of
       None \<Rightarrow> key_not_found key | Some (VArr objs n) \<Rightarrow> Inr objs | Some _ \<Rightarrow> Inl Undefined_behaviour)"

definition buffered_has :: "bentry list \<Rightarrow> string \<Rightarrow> bool res" where
  "buffered_has es key = bindR (buffered_getValue es (c_str key)) (\<lambda>value. Inr (value \<noteq> None))"

definition buffered_length :: "bentry list \<Rightarrow> nat" where
  "buffered_length es = length es"

section \<open>Contents and paths\<close>

record bcontent =
  bc_element :: "bvalue option"
  bc_type :: int32
  bc_size :: int32

definition buffered_getContent :: "bentry list \<Rightarrow> string \<Rightarrow> bcontent res" where
  "buffered_getContent es key =
     bindR (buffered_getValue es (c_str key)) (\<lambda>value.
     case value of
       None \<Rightarrow> Inr \<lparr>bc_element = None, bc_type = 8, bc_size = 0\<rparr>
     | Some value \<Rightarrow>
         bindR (buffered_getType es (c_str key)) (\<lambda>type.
         let content = (\<lambda>len. Inr \<lparr>bc_element = Some value, bc_type = type, bc_size = len\<rparr>) in
         if type = 5 then (case value of VObj inner n \<Rightarrow> content (of_nat n) | _ \<Rightarrow> Inl Undefined_behaviour)
         else if type = 6 \<or> type = 10 then content 1
         else if type = 0 then content 4
         else if type = 2 \<or> type = 9 then content 8
         else if type = 1 then content 8
         else if type = 3 \<or> type = 4 then
           (case value of
              VPtr p \<Rightarrow> bindR (deref read_int p) (\<lambda>(len, chars).
                Inr \<lparr>bc_element = Some (VPtr chars), bc_type = type, bc_size = len\<rparr>)
            | _ \<Rightarrow> Inl Undefined_behaviour)
         else content 0))"

function buffered_getXpath :: "bentry list \<Rightarrow> string \<Rightarrow> bcontent res" where
  "buffered_getXpath es xpath =
     (let path = takeWhile (\<lambda>c. c \<noteq> CHR ''.'') xpath;
          cpyXpath = (if CHR ''.'' \<in> set xpath then drop (Suc (length path)) xpath else []) in
      bindR (buffered_getContent es path) (\<lambda>content.
      if bc_type content = 5 \<and> length xpath > 0 then
        (case bc_element content of
           Some (VObj inner n) \<Rightarrow> buffered_getXpath inner cpyXpath | _ \<Rightarrow> Inl Undefined_behaviour)
      else Inr content))"
  by pat_completeness auto
termination
  by (relation "measure (\<lambda>(es, p). length p)") (auto intro: diff_less)
declare buffered_getXpath.simps [simp del]

text \<open>The conversions of a BSONBufferedContent, as SimpleExpression::eval uses them.\<close>

definition content_read :: "'a reader \<Rightarrow> bcontent \<Rightarrow> 'a res" where
  "content_read rd content =
     (case bc_element content of
        Some (VPtr p) \<Rightarrow> bindR (deref rd p) (\<lambda>(x, _). Inr x) | _ \<Rightarrow> Inl Undefined_behaviour)"

definition content_chars :: "bcontent \<Rightarrow> string reader" where
  "content_chars content =
     (if sint (bc_size content) < 0 then rfail Undefined_behaviour else read_raw (nat (sint (bc_size content))))"

definition buffered_eval_simple :: "bentry list \<Rightarrow> string \<Rightarrow> eresult res" where
  "buffered_eval_simple es path =
     bindR (buffered_getXpath es path) (\<lambda>content.
     let type = bc_type content in
     if type = 10 then bindR (content_read read_boolean content) (\<lambda>b. Inr (EBool b))
     else if type = 0 then bindR (content_read read_int content) (\<lambda>i. Inr (EInt i))
     else if type = 2 \<or> type = 9 then bindR (content_read read_long content) (\<lambda>l. Inr (ELong l))
     else if type = 1 then bindR (content_read read_double content) (\<lambda>d. Inr (EDouble d))
     else if type = 3 \<or> type = 4 then
       bindR (content_read (content_chars content) content) (\<lambda>s. Inr (EString s))
     else if type = 8 then Inr ENull
     else Inl (Bson_exception ''Unsupported type''))"

definition buffered_match :: "expr option \<Rightarrow> bentry list \<Rightarrow> bool res" where
  "buffered_match root es = match_result (filter_with (buffered_eval_simple es) (buffered_has es) root)"

section \<open>Selections\<close>

text \<open>std::string(key, size) reads the whole key.\<close>

definition entry_key :: "bentry \<Rightarrow> string res" where
  "entry_key e = bindR (deref (read_raw (nat (sint (key_size e)))) (key_at e)) (\<lambda>(key, _). Inr key)"

text \<open>
  The value that a key with a scalar type adds to the result. The value and its type are looked up
  again by the key, not taken from the entry.
\<close>

definition buffered_scalar :: "bentry list \<Rightarrow> string \<Rightarrow> int32 \<Rightarrow> content option res" where
  "buffered_scalar es key type =
     (if type = 10 then bindR (buffered_getBoolean es key) (\<lambda>b. Inr (Some (CBool b)))
      else if type = 0 then bindR (buffered_getInt es key) (\<lambda>i. Inr (Some (CInt i)))
      else if type = 2 \<or> type = 9 then bindR (buffered_getLong es key) (\<lambda>l. Inr (Some (CLong l)))
      else if type = 1 then bindR (buffered_getDouble es key) (\<lambda>d. Inr (Some (CDouble d)))
      else if type = 3 \<or> type = 4 then bindR (buffered_getDJString es key) (\<lambda>s. Inr (Some (CString s)))
      else Inr None)"

lemma buffered_getValue_in: "buffered_getValue es key = Inr (Some v) \<Longrightarrow> v \<in> value_at ` set es"
  by (induction es key rule: buffered_getValue.induct) (fastforce simp: bindR_Inr_iff split: if_splits)+

lemma entry_size: "e \<in> set es \<Longrightarrow> size (e :: bentry) \<le> size_list size es"
  by (induction es) auto

lemma key_not_found_fails [simp]: "key_not_found key \<noteq> Inr x"
  by (simp add: key_not_found_def bindR_Inr_iff)

lemma buffered_getBSON_size [termination_simp]:
  "buffered_getBSON es key = Inr inner \<Longrightarrow> size_list size inner < size_list size es"
proof -
  assume "buffered_getBSON es key = Inr inner"
  then obtain n where "buffered_getValue es (c_str key) = Inr (Some (VObj inner n))"
    by (auto simp: buffered_getBSON_def bindR_def split: sum.split_asm option.split_asm bvalue.split_asm)
  then obtain e where e: "e \<in> set es" "value_at e = VObj inner n" by (auto dest!: buffered_getValue_in)
  from e(2) have "size_list size inner < size e" by (cases e) simp
  with entry_size [OF e(1)] show ?thesis by simp
qed

lemma buffered_getBSONArray_size [termination_simp]:
  "buffered_getBSONArray es key = Inr objs \<Longrightarrow>
   size_list (size_prod (size_list size) (\<lambda>_. 0)) objs < size_list size es"
proof -
  assume "buffered_getBSONArray es key = Inr objs"
  then obtain n where "buffered_getValue es (c_str key) = Inr (Some (VArr objs n))"
    by (auto simp: buffered_getBSONArray_def bindR_def split: sum.split_asm option.split_asm bvalue.split_asm)
  then obtain e where e: "e \<in> set es" "value_at e = VArr objs n" by (auto dest!: buffered_getValue_in)
  from e(2) have "size_list (size_prod (size_list size) (\<lambda>_. 0)) objs < size e" by (cases e) simp
  with entry_size [OF e(1)] show ?thesis by simp
qed

function buffered_select :: "string \<Rightarrow> bentry list \<Rightarrow> bson res"
  and buffered_select_loop :: "string \<Rightarrow> string list \<Rightarrow> bentry list \<Rightarrow> bentry list \<Rightarrow> bson \<Rightarrow> bson res"
  and buffered_array_select :: "string \<Rightarrow> (bentry list \<times> nat) list \<Rightarrow> bson list res" where
  "buffered_select sel es =
     bindR (bson_splitSelect sel) (\<lambda>columns. buffered_select_loop sel columns es es [])"
| "buffered_select_loop sel columns es [] result = Inr result"
| "buffered_select_loop sel columns es (e # rest) result =
     bindR (entry_key e) (\<lambda>key.
     if sel = ''*'' \<or> key \<in> set columns then
       bindR (buffered_getType es (c_str key)) (\<lambda>type.
       if type = 5 then
         bindR (buffered_getBSON es key) (\<lambda>inner.
         bindR (if sel = ''*'' then Inr ''*'' else bson_subselect sel (c_str key)) (\<lambda>subselect.
         bindR (buffered_select subselect inner) (\<lambda>sub.
         buffered_select_loop sel columns es rest (bson_add key (CBson sub) result))))
       else if type = 6 then
         bindR (buffered_getBSONArray es key) (\<lambda>innerArray.
         bindR (if sel = ''*'' then Inr ''*'' else bson_subselect sel (c_str key)) (\<lambda>subselect.
         bindR (buffered_array_select subselect innerArray) (\<lambda>subs.
         buffered_select_loop sel columns es rest (bson_add key (CArray subs) result))))
       else
         bindR (buffered_scalar es key type) (\<lambda>val.
         buffered_select_loop sel columns es rest
           (case val of Some c \<Rightarrow> bson_add key c result | None \<Rightarrow> result)))
     else buffered_select_loop sel columns es rest result)"
| "buffered_array_select sel [] = Inr []"
| "buffered_array_select sel (element # objs) =
     bindR (buffered_select sel (fst element)) (\<lambda>sub.
     bindR (buffered_array_select sel objs) (\<lambda>subs. Inr (sub # subs)))"
  by pat_completeness auto
termination
  by (relation "measures [\<lambda>x. case x of
        Inl (sel, es) \<Rightarrow> size_list size es
      | Inr (Inl (sel, cols, es, rest, r)) \<Rightarrow> size_list size es
      | Inr (Inr (sel, objs)) \<Rightarrow> size_list (size_prod (size_list size) (\<lambda>_. 0)) objs,
      \<lambda>x. case x of Inl (sel, es) \<Rightarrow> Suc (length es) | Inr (Inl (sel, cols, es, rest, r)) \<Rightarrow> length rest
        | Inr (Inr (sel, objs)) \<Rightarrow> 0]")
    (auto dest!: buffered_getBSON_size buffered_getBSONArray_size)

section \<open>Documents in the buffer\<close>

text \<open>The entries point to the bytes that the writer produced for the elements of a document.\<close>

fun lies_value :: "content \<Rightarrow> bvalue \<Rightarrow> bool"
  and lies :: "(string \<times> content) list \<Rightarrow> bentry list \<Rightarrow> bool"
  and lies_array :: "(string \<times> content) list list \<Rightarrow> (bentry list \<times> nat) list \<Rightarrow> bool" where
  "lies_value (CBson inner) v \<longleftrightarrow> (\<exists>es. v = VObj es (length (writeContent (CBson inner))) \<and> lies inner es)"
| "lies_value (CArray os) v \<longleftrightarrow> (\<exists>objs. v = VArr objs (length (writeContent (CArray os))) \<and> lies_array os objs)"
| "lies_value c v \<longleftrightarrow> (\<exists>p. v = VPtr (writeContent c @ p))"
| "lies [] es \<longleftrightarrow> es = []"
| "lies ((key, c) # rest) es \<longleftrightarrow> (\<exists>p v es'. es = BEntry (of_nat (length key)) (key @ p) (wire_type c) v # es' \<and>
     lies_value c v \<and> lies rest es')"
| "lies_array [] objs \<longleftrightarrow> objs = []"
| "lies_array (o1 # os) objs \<longleftrightarrow> (\<exists>es objs'. objs = (es, length (writeBSON o1)) # objs' \<and> lies o1 es \<and> lies_array os objs')"

lemma deref_Inr: "rd p = Inr x \<Longrightarrow> deref rd p = Inr x"
  by (simp add: deref_def)

lemma deref_write [simp]:
  "deref read_int (write_int i @ r) = Inr (i, r)" "deref read_long (write_long l @ r) = Inr (l, r)"
  "deref read_double (write_double d @ r) = Inr (d, r)" "deref read_boolean (write_boolean b @ r) = Inr (b, r)"
  "int32_size (length s) \<Longrightarrow> deref read_chars (write_chars s @ r) = Inr (s, r)"
  "length xs = n \<Longrightarrow> deref (read_raw n) (xs @ r) = Inr (xs, r)"
  by (simp_all add: deref_Inr)

lemma sint_int32 [simp]: "int32_size n \<Longrightarrow> sint (of_nat n :: int32) = int n"
  by (simp add: int32_size_def signed_of_nat signed_take_bit_int_eq_self)

lemma advance_append [simp]: "int32_size (length xs) \<Longrightarrow> advance (of_nat (length xs)) (xs @ r) = Inr ((), r)"
  by (simp add: advance_def)

lemma here_bind [simp]: "rbind here f p = f p p"
  by (simp add: here_def rbind_def)

lemma buffered_value_scalar:
  assumes "content_ok c" "\<forall>o1. c \<noteq> CBson o1" "\<forall>os. c \<noteq> CArray os"
  shows "buffered_value rd (wire_type c) (writeContent c @ r) =
    Inr ((VPtr (writeContent c @ r), length (writeContent c)), r)"
  using assms
  by (cases c; simp add: buffered_value_def Let_def rbind_Inr rreturn_def write_chars_def)

lemma buffered_step:
  assumes "int32_size (length o1)"
    and "\<exists>es. rloop (length o1) (buffered_element (buffered_fuel n)) ([], 8) (writeElements o1 @ r) =
      Inr ((es, 8 + length (writeElements o1)), r) \<and> lies o1 es"
  shows "\<exists>es. buffered_fuel (Suc n) (write_long (of_nat (length o1)) @ writeElements o1 @ r) =
    Inr ((es, length (writeBSON o1)), r) \<and> lies o1 es"
  using assms by (auto simp: rbind_Inr writeBSON_def bson_length_def)

lemma buffered_write:
  "content_ok c \<Longrightarrow> length (writeContent c @ r) < n \<Longrightarrow>
   \<exists>v. buffered_value (buffered_fuel n) (wire_type c) (writeContent c @ r) =
     Inr ((v, length (writeContent c)), r) \<and> lies_value c v"
  "elements_ok o1 \<Longrightarrow> length (writeElements o1 @ r) < n \<Longrightarrow>
   \<exists>es'. rloop (length o1) (buffered_element (buffered_fuel n)) (es, k) (writeElements o1 @ r) =
     Inr ((es @ es', k + length (writeElements o1)), r) \<and> lies o1 es'"
  "objects_ok os \<Longrightarrow> length (writeObjects os @ r) < n \<Longrightarrow>
   \<exists>objs'. rloop (length os) (\<lambda>(objs, n'). rbind (buffered_fuel n) (\<lambda>obj. rreturn (objs @ [obj], n' + snd obj)))
     (objs, k) (writeObjects os @ r) = Inr ((objs @ objs', k + length (writeObjects os)), r) \<and> lies_array os objs'"
proof (induction c and o1 and os arbitrary: n r and n r es k and n r objs k
    rule: writeContent_writeElements_writeObjects.induct)
  case (1 inner)
  obtain m where n: "n = Suc m" using 1 by (cases n) auto
  have "\<exists>es. buffered_fuel (Suc m) (write_long (of_nat (length inner)) @ writeElements inner @ r) =
      Inr ((es, length (writeBSON inner)), r) \<and> lies inner es"
    using 1 n "1.IH" [of r m "[]" 8] by (intro buffered_step) simp_all
  then obtain es where "buffered_fuel (Suc m) (writeContent (CBson inner) @ r) =
      Inr ((es, length (writeBSON inner)), r)" "lies inner es" by (auto simp: bson_length_def)
  then show ?case by (simp add: buffered_value_def Let_def n rbind_Inr rreturn_def writeBSON_def)
next
  case (7 array)
  then obtain objs where o: "rloop (length array)
      (\<lambda>(objs, n'). rbind (buffered_fuel n) (\<lambda>obj. rreturn (objs @ [obj], n' + snd obj)))
      ([], 8) (writeObjects array @ r) = Inr ((objs, 8 + length (writeObjects array)), r)" "lies_array array objs"
    using "7.IH" [of r n "[]" 8] by auto
  with 7(2) have "buffered_array (buffered_fuel n) (writeContent (CArray array) @ r) =
      Inr ((objs, length (writeContent (CArray array))), r)"
    by (simp add: buffered_array_def rbind_Inr)
  with o(2) show ?case by (simp add: buffered_value_def Let_def rbind_Inr rreturn_def)
next
  case (9 key cont rest)
  have key: "no_nul key" "int32_size (length key)" using 9(3) by (auto simp: key_ok_def int32_size_def)
  obtain v where v: "buffered_value (buffered_fuel n) (wire_type cont) (writeContent cont @ writeElements rest @ r) =
      Inr ((v, length (writeContent cont)), writeElements rest @ r)" "lies_value cont v"
    using "9.IH"(1) [of "writeElements rest @ r" n] 9(3-) by auto
  let ?p = "write_long (wire_type cont) @ writeContent cont @ writeElements rest @ r"
  let ?e = "BEntry (of_nat (length key)) (key @ ?p) (wire_type cont) v"
  have "buffered_element (buffered_fuel n) (es, k) (write_string key @ ?p) =
      Inr ((es @ [?e], k + length (write_string key @ write_long (wire_type cont) @ writeContent cont)),
        writeElements rest @ r)"
    using key v(1)
    by (simp add: buffered_element_def write_string_def write_chars_def rbind_Inr rreturn_def)
  moreover obtain es' where "rloop (length rest) (buffered_element (buffered_fuel n))
      (es @ [?e], k + length (write_string key @ write_long (wire_type cont) @ writeContent cont))
      (writeElements rest @ r) = Inr (((es @ [?e]) @ es', k + length (write_string key @
        write_long (wire_type cont) @ writeContent cont) + length (writeElements rest)), r)" "lies rest es'"
    using "9.IH"(2) [of r n "es @ [?e]" "k + length (write_string key @ write_long (wire_type cont) @ writeContent cont)"]
      9(3-) by auto
  ultimately show ?case using v(2) by (simp add: rbind_Inr add.assoc)
next
  case (11 obj rest)
  obtain m where n: "n = Suc m" using 11 by (cases n) auto
  have "\<exists>es. buffered_fuel (Suc m) (write_long (of_nat (length obj)) @ writeElements obj @ writeObjects rest @ r) =
      Inr ((es, length (writeBSON obj)), writeObjects rest @ r) \<and> lies obj es"
    using 11 n "11.IH"(1) [of "writeObjects rest @ r" m "[]" 8] by (intro buffered_step) simp_all
  then obtain es where es: "buffered_fuel n (write_long (of_nat (bson_length obj)) @ writeElements obj @ writeObjects rest @ r) =
      Inr ((es, length (writeBSON obj)), writeObjects rest @ r)" "lies obj es"
    using n by (auto simp: bson_length_def)
  obtain objs' where "rloop (length rest)
      (\<lambda>(objs, n'). rbind (buffered_fuel n) (\<lambda>obj. rreturn (objs @ [obj], n' + snd obj)))
      (objs @ [(es, length (writeBSON obj))], k + length (writeBSON obj)) (writeObjects rest @ r) =
      Inr (((objs @ [(es, length (writeBSON obj))]) @ objs', k + length (writeBSON obj) + length (writeObjects rest)), r)"
      "lies_array rest objs'"
    using "11.IH"(2) [of r n "objs @ [(es, length (writeBSON obj))]" "k + length (writeBSON obj)"] 11(3-) by auto
  with es show ?case by (simp add: rbind_Inr rreturn_def writeBSON_def add.assoc)
qed ((rule exI, rule conjI, rule buffered_value_scalar; simp) | simp add: rreturn_def)+

text \<open>A document at the front of the memory is found with its entries and its length.\<close>

lemma new_buffered_write:
  assumes "elements_ok o1" "int32_size (length o1)"
  shows "\<exists>es. new_buffered (writeBSON o1 @ r) = Inr (es, length (writeBSON o1)) \<and> lies o1 es"
proof -
  have "\<exists>es. buffered_fuel (Suc (length (writeBSON o1 @ r)))
      (write_long (of_nat (length o1)) @ writeElements o1 @ r) = Inr ((es, length (writeBSON o1)), r) \<and> lies o1 es"
    using assms buffered_write(2) [OF assms(1), of r "length (writeBSON o1 @ r)" "[]" 8]
    by (intro buffered_step) (auto simp: writeBSON_def)
  then show ?thesis by (auto simp: new_buffered_def writeBSON_def bson_length_def)
qed

section \<open>Lookups\<close>

text \<open>
  No key of a document is the front of another one, at any depth: this is what the lookup of a type
  needs to find the entry that the lookup of the value finds.
\<close>

definition front :: "string \<Rightarrow> string \<Rightarrow> bool" where
  "front k key \<longleftrightarrow> take (length k) key = k"

fun content_apart :: "content \<Rightarrow> bool"
  and bson_apart :: "(string \<times> content) list \<Rightarrow> bool"
  and array_apart :: "(string \<times> content) list list \<Rightarrow> bool" where
  "content_apart (CBson o1) = bson_apart o1"
| "content_apart (CArray os) = array_apart os"
| "content_apart _ = True"
| "bson_apart [] = True"
| "bson_apart ((k, c) # o1) \<longleftrightarrow>
     (\<forall>q\<in>set o1. \<not> front k (fst q) \<and> \<not> front (fst q) k) \<and> content_apart c \<and> bson_apart o1"
| "array_apart [] = True"
| "array_apart (o1 # os) = (bson_apart o1 \<and> array_apart os)"

lemma strncmp_front: "no_nul k \<Longrightarrow> strncmp_eq (length k) (k @ p) key = Inr (front k key)"
proof (induction k arbitrary: key)
  case (Cons c k)
  then show ?case by (cases key) (auto simp: no_nul_def front_def)
qed (simp add: front_def)

lemma lookup_value:
  "lies o1 es \<Longrightarrow> elements_ok o1 \<Longrightarrow>
   \<exists>x. buffered_getValue es key = Inr x \<and>
     (case getContent o1 key of None \<Rightarrow> x = None | Some c \<Rightarrow> \<exists>v. x = Some v \<and> lies_value c v)"
proof (induction o1 arbitrary: es)
  case Nil
  then show ?case by (simp add: getContent_def)
next
  case (Cons q rest)
  obtain k c where q: "q = (k, c)" by (cases q)
  with Cons.prems(1) obtain p v es' where es: "es = BEntry (of_nat (length k)) (k @ p) (wire_type c) v # es'"
    "lies_value c v" "lies rest es'" by auto
  have k: "no_nul k" "int32_size (length k)" using Cons.prems(2) q by (auto simp: key_ok_def int32_size_def)
  have eq: "length key = length k \<Longrightarrow> front k key \<longleftrightarrow> k = key" by (auto simp: front_def)
  show ?case
  proof (cases "k = key")
    case True
    then show ?thesis using k es q strncmp_front [OF k(1), of p key] eq by (simp add: getContent_def)
  next
    case False
    then have "buffered_getValue es key = buffered_getValue es' key"
      using k es(1) strncmp_front [OF k(1), of p key] eq by auto
    with Cons.IH [OF es(3)] Cons.prems(2) q False show ?thesis by (simp add: getContent_def)
  qed
qed

definition buffered_type :: "content \<Rightarrow> int32" where
  "buffered_type c = (if (ucast (wire_type c) :: int32) = 4 then 3 else ucast (wire_type c))"

lemma buffered_type_simps [simp]:
  "buffered_type (CBson o1) = 5" "buffered_type (CBool b) = 10" "buffered_type (CInt i) = 0"
  "buffered_type (CLong l) = 2" "buffered_type (CDouble d) = 1" "buffered_type (CString s) = 3"
  "buffered_type (CArray os) = 6"
  by (simp_all add: buffered_type_def)

text \<open>The type that is found is that of the first key that is a front of the one asked for.\<close>

lemma lookup_type:
  "lies o1 es \<Longrightarrow> elements_ok o1 \<Longrightarrow> find (\<lambda>q. front (fst q) key) o1 = Some (k, c) \<Longrightarrow>
   buffered_getType es key = Inr (buffered_type c)"
proof (induction o1 arbitrary: es)
  case (Cons q rest)
  obtain k' c' where q: "q = (k', c')" by (cases q)
  with Cons.prems(1) obtain p v es' where es: "es = BEntry (of_nat (length k')) (k' @ p) (wire_type c') v # es'"
    "lies rest es'" by auto
  have k: "no_nul k'" "int32_size (length k')" using Cons.prems(2) q by (auto simp: key_ok_def int32_size_def)
  show ?case
    using Cons.IH [OF es(2)] Cons.prems(2,3) q k es(1) strncmp_front [OF k(1), of p key]
    by (auto simp: buffered_type_def split: if_splits)
qed simp

lemma find_apart:
  assumes "bson_apart o1" "getContent o1 key = Some c"
  shows "find (\<lambda>q. front (fst q) key) o1 = Some (key, c)"
  using assms
proof (induction o1)
  case (Cons q rest)
  obtain k c' where q: "q = (k, c')" by (cases q)
  show ?case
  proof (cases "k = key")
    case True
    with Cons.prems(2) q show ?thesis by (simp add: front_def getContent_def)
  next
    case False
    with Cons.prems(2) q have "getContent rest key = Some c" by (simp add: getContent_def)
    moreover from this have "(key, c) \<in> set rest" unfolding getContent_def by (rule map_find_in)
    ultimately show ?thesis using Cons q False by auto
  qed
qed (simp add: getContent_def)

section \<open>Paths and filters\<close>

text \<open>What the content of a value that lies in the buffer looks like.\<close>

fun shows_content :: "content \<Rightarrow> bcontent \<Rightarrow> bool" where
  "shows_content (CBson inner) b \<longleftrightarrow>
     bc_type b = 5 \<and> (\<exists>es n. bc_element b = Some (VObj es n) \<and> lies inner es)"
| "shows_content (CArray os) b \<longleftrightarrow> bc_type b = 6"
| "shows_content (CString s) b \<longleftrightarrow>
     bc_type b = 3 \<and> bc_size b = of_nat (length s) \<and> (\<exists>p. bc_element b = Some (VPtr (s @ p)))"
| "shows_content c b \<longleftrightarrow> bc_type b = buffered_type c \<and> (\<exists>p. bc_element b = Some (VPtr (writeContent c @ p)))"

definition null_content :: bcontent where
  "null_content = \<lparr>bc_element = None, bc_type = 8, bc_size = 0\<rparr>"

definition shows_lookup :: "content option \<Rightarrow> bcontent res \<Rightarrow> bool" where
  "shows_lookup x r \<longleftrightarrow> (case x of None \<Rightarrow> r = Inr null_content | Some c \<Rightarrow> \<exists>b. r = Inr b \<and> shows_content c b)"

lemma elements_ok_value: "elements_ok o1 \<Longrightarrow> getContent o1 key = Some c \<Longrightarrow> content_ok c \<and> no_nul key"
  unfolding getContent_def by (induction o1) (auto simp: key_ok_def split: if_splits)

lemma bson_apart_value: "bson_apart o1 \<Longrightarrow> getContent o1 key = Some c \<Longrightarrow> content_apart c"
  unfolding getContent_def by (induction o1) (auto split: if_splits)

lemma lookup_content:
  assumes "lies o1 es" "elements_ok o1" "bson_apart o1" "no_nul key"
  shows "shows_lookup (getContent o1 key) (buffered_getContent es key)"
proof -
  from lookup_value [OF assms(1,2), of key] obtain x where x: "buffered_getValue es key = Inr x"
    "case getContent o1 key of None \<Rightarrow> x = None | Some c \<Rightarrow> \<exists>v. x = Some v \<and> lies_value c v" by blast
  show ?thesis
  proof (cases "getContent o1 key")
    case None
    with x assms(4) show ?thesis by (simp add: shows_lookup_def buffered_getContent_def null_content_def)
  next
    case (Some c)
    with x obtain v where v: "x = Some v" "lies_value c v" by auto
    have "buffered_getType es key = Inr (buffered_type c)"
      using lookup_type [OF assms(1,2) find_apart [OF assms(3) Some]] .
    moreover have "content_ok c" using elements_ok_value [OF assms(2) Some] by simp
    ultimately show ?thesis using Some x v assms(4)
      by (cases c) (auto simp: shows_lookup_def buffered_getContent_def Let_def write_chars_def)
  qed
qed

lemma shows_flat:
  assumes "shows_lookup x r" "\<forall>inner. x \<noteq> Some (CBson inner)"
  shows "\<exists>b. r = Inr b \<and> bc_type b \<noteq> 5"
proof (cases x)
  case None
  with assms(1) show ?thesis by (simp add: shows_lookup_def null_content_def)
next
  case (Some c)
  with assms show ?thesis by (cases c) (auto simp: shows_lookup_def)
qed

lemma lookup_path:
  "lies o1 es \<Longrightarrow> elements_ok o1 \<Longrightarrow> bson_apart o1 \<Longrightarrow> no_nul path \<Longrightarrow>
   \<forall>inner. getXpath o1 path \<noteq> Some (CBson inner) \<Longrightarrow>
   shows_lookup (getXpath o1 path) (buffered_getXpath es path)"
proof (induction o1 path arbitrary: es rule: getXpath.induct)
  case (1 o1 xpath)
  let ?path = "takeWhile (\<lambda>c. c \<noteq> CHR ''.'') xpath"
  have "no_nul ?path" using "1.prems"(4) by (auto simp: no_nul_def dest: set_takeWhileD)
  from lookup_content [OF "1.prems"(1-3) this] have
    look: "shows_lookup (getContent o1 ?path) (buffered_getContent es ?path)" .
  show ?case
  proof (cases "CHR ''.'' \<in> set xpath")
    case False
    then have p: "?path = xpath" by (simp add: takeWhile_absent)
    have x: "getXpath o1 xpath = getContent o1 xpath" using False by (simp add: getXpath.simps)
    then have "\<forall>inner. getContent o1 ?path \<noteq> Some (CBson inner)" using "1.prems"(5) unfolding p by simp
    with shows_flat [OF look] obtain b where b: "buffered_getContent es ?path = Inr b" "bc_type b \<noteq> 5" by blast
    then have "buffered_getXpath es xpath = buffered_getContent es ?path"
      by (subst buffered_getXpath.simps) (simp add: Let_def)
    with look x show ?thesis unfolding p by simp
  next
    case True
    let ?rest = "drop (Suc (length ?path)) xpath"
    show ?thesis
    proof (cases "\<exists>inner. getContent o1 ?path = Some (CBson inner)")
      case deep: True
      then obtain inner where inner: "getContent o1 ?path = Some (CBson inner)" by blast
      with look obtain b es' n where b: "buffered_getContent es ?path = Inr b" "bc_type b = 5"
        "bc_element b = Some (VObj es' n)" "lies inner es'" by (auto simp: shows_lookup_def)
      have eq: "getXpath o1 xpath = getXpath inner ?rest" "buffered_getXpath es xpath = buffered_getXpath es' ?rest"
        by (subst getXpath.simps, use True inner in simp)
          (subst buffered_getXpath.simps, use True b in \<open>auto simp: Let_def\<close>)
      have "no_nul ?rest" using "1.prems"(4) by (auto simp: no_nul_def dest: in_set_dropD)
      with "1.IH" [OF _ refl inner refl b(4)] True "1.prems" eq(1) elements_ok_value [OF _ inner]
        bson_apart_value [OF _ inner]
      have "shows_lookup (getXpath inner ?rest) (buffered_getXpath es' ?rest)" by simp
      then show ?thesis by (simp add: eq)
    next
      case flat: False
      have x: "getXpath o1 xpath = getContent o1 ?path"
        using True flat by (subst getXpath.simps) (auto simp: Let_def split: option.split content.split)
      from shows_flat [OF look] flat obtain b where b: "buffered_getContent es ?path = Inr b" "bc_type b \<noteq> 5" by blast
      then have "buffered_getXpath es xpath = buffered_getContent es ?path"
        by (subst buffered_getXpath.simps) (simp add: Let_def)
      with look x show ?thesis by simp
    qed
  qed
qed

lemma elements_ok_path: "elements_ok o1 \<Longrightarrow> getXpath o1 path = Some c \<Longrightarrow> content_ok c"
proof (induction o1 path rule: getXpath.induct)
  case (1 o1 xpath)
  let ?path = "takeWhile (\<lambda>c. c \<noteq> CHR ''.'') xpath"
  show ?case
  proof (cases "CHR ''.'' \<in> set xpath")
    case True
    show ?thesis
    proof (cases "\<exists>inner. getContent o1 ?path = Some (CBson inner)")
      case deep: True
      then obtain inner where inner: "getContent o1 ?path = Some (CBson inner)" by blast
      then have "getXpath inner (drop (Suc (length ?path)) xpath) = Some c"
        using "1.prems"(2) True by (subst (asm) getXpath.simps) simp
      with "1.IH" [OF _ refl inner refl] True elements_ok_value [OF "1.prems"(1) inner] show ?thesis by simp
    next
      case False
      then have "getContent o1 ?path = Some c"
        using "1.prems"(2) True by (subst (asm) getXpath.simps) (auto simp: Let_def split: option.splits content.splits)
      with elements_ok_value [OF "1.prems"(1)] show ?thesis by blast
    qed
  next
    case False
    then have "getContent o1 xpath = Some c" using "1.prems"(2) by (simp add: getXpath.simps)
    with elements_ok_value [OF "1.prems"(1)] show ?thesis by blast
  qed
qed

text \<open>A path to a value that is no document evaluates as on the document in memory.\<close>

lemma buffered_eval_path:
  assumes "lies o1 es" "elements_ok o1" "bson_apart o1" "no_nul path"
    and "\<forall>inner. getXpath o1 path \<noteq> Some (CBson inner)"
  shows "buffered_eval_simple es path = eval_simple path o1"
proof -
  have look: "shows_lookup (getXpath o1 path) (buffered_getXpath es path)" by (rule lookup_path [OF assms])
  show ?thesis
  proof (cases "getXpath o1 path")
    case None
    with look show ?thesis
      by (simp add: buffered_eval_simple_def eval_simple_def shows_lookup_def null_content_def Let_def)
  next
    case (Some c)
    with look assms(5) elements_ok_path [OF assms(2) Some] show ?thesis
      by (cases c)
        (auto simp: buffered_eval_simple_def eval_simple_def shows_lookup_def Let_def content_read_def content_chars_def)
  qed
qed

lemma buffered_has_key:
  assumes "lies o1 es" "elements_ok o1" "no_nul key"
  shows "buffered_has es key = Inr (bson_has o1 key)"
  using lookup_value [OF assms(1,2), of key] assms(3)
  by (auto simp: buffered_has_def bson_has_iff split: option.splits)

text \<open>The paths that a filter reads, and the keys that it looks for.\<close>

fun field_paths :: "expr \<Rightarrow> string set" where
  "field_paths (Constant k) = {}"
| "field_paths (Simple path) = {path}"
| "field_paths (Unary oper (Some e)) = (if oper = FO_NOT then field_paths e else {})"
| "field_paths (Unary oper None) = {}"
| "field_paths (Binary oper l r) =
     (case l of Some l \<Rightarrow> field_paths l | None \<Rightarrow> {}) \<union> (case r of Some r \<Rightarrow> field_paths r | None \<Rightarrow> {})"

fun exists_keys :: "expr \<Rightarrow> string set" where
  "exists_keys (Unary oper (Some e)) =
     (if oper = FO_NOT then exists_keys e else case e of Simple path \<Rightarrow> {path} | _ \<Rightarrow> {})"
| "exists_keys (Binary oper l r) =
     (case l of Some l \<Rightarrow> exists_keys l | None \<Rightarrow> {}) \<union> (case r of Some r \<Rightarrow> exists_keys r | None \<Rightarrow> {})"
| "exists_keys _ = {}"

lemma eval_with_cong:
  "\<forall>p\<in>field_paths e. field p = field' p \<Longrightarrow> \<forall>p\<in>exists_keys e. has p = has' p \<Longrightarrow>
   eval_with field has e = eval_with field' has' e"
proof (induction field has e rule: eval_with.induct)
  case (4 field has oper e)
  then show ?case by (auto intro!: bindR_cong split: expr.split)
next
  case (5 field has oper l r)
  then have l: "eval_with field has l = eval_with field' has' l" by simp
  show ?case
  proof (cases "eval_with field has l")
    case (Inr x)
    from "5.IH"(2) [OF Inr] 5(3,4) have "eval_with field has r = eval_with field' has' r" by simp
    with l show ?thesis by simp
  qed (use l in simp)
qed simp_all

text \<open>A filter that is safe on a document: its paths end at values that are no documents.\<close>

definition filter_safe :: "expr option \<Rightarrow> bson \<Rightarrow> bool" where
  "filter_safe root o1 \<longleftrightarrow> (case root of None \<Rightarrow> True | Some e \<Rightarrow>
     (\<forall>p\<in>field_paths e. no_nul p \<and> (\<forall>inner. getXpath o1 p \<noteq> Some (CBson inner))) \<and>
     (\<forall>p\<in>exists_keys e. no_nul p))"

lemma buffered_match_eq:
  assumes "lies o1 es" "elements_ok o1" "bson_apart o1" "filter_safe root o1"
  shows "buffered_match root es = match_result (filter_eval root o1)"
proof (cases root)
  case (Some e)
  have "eval_with (buffered_eval_simple es) (buffered_has es) e = eval_expr o1 e"
    unfolding eval_expr_def using assms Some
    by (intro eval_with_cong) (auto simp: filter_safe_def buffered_eval_path buffered_has_key)
  with Some show ?thesis by (simp add: buffered_match_def filter_with_def filter_eval_def)
qed (simp add: buffered_match_def filter_with_def filter_eval_def)

section \<open>Selections of buffered documents\<close>

declare bson_select.simps [simp del] buffered_select.simps [simp del]
lemmas select_unfold = bson_select.simps buffered_select.simps

lemma getContent_member: "map_sorted o1 \<Longrightarrow> (key, c) \<in> set o1 \<Longrightarrow> getContent o1 key = Some c"
  unfolding getContent_def by (induction o1) auto

lemma entry_key_write:
  "int32_size (length key) \<Longrightarrow> entry_key (BEntry (of_nat (length key)) (key @ p) t v) = Inr key"
  by (simp add: entry_key_def)

text \<open>What the selection adds for one key of the document.\<close>

definition selects :: "content \<Rightarrow> bool" where
  "selects c \<longleftrightarrow> (case c of
     CBson inner \<Rightarrow> \<forall>es sel. lies inner es \<longrightarrow> buffered_select sel es = bson_select sel inner
   | CArray os \<Rightarrow> \<forall>objs sel. lies_array os objs \<longrightarrow> buffered_array_select sel objs = array_select sel os
   | _ \<Rightarrow> True)"

lemma buffered_select_step:
  assumes doc: "lies o1 es" "elements_ok o1" "bson_apart o1" "map_sorted o1"
    and el: "(key, c) \<in> set o1" "content_sorted c" "selects c"
  shows "buffered_select_loop sel columns es (BEntry (of_nat (length key)) (key @ p) t v # er) result =
    (if sel = ''*'' \<or> key \<in> set columns then bindR (select_content sel key c) (\<lambda>c'.
       buffered_select_loop sel columns es er (bson_add key c' result))
     else buffered_select_loop sel columns es er result)"
proof -
  have get: "getContent o1 key = Some c" by (rule getContent_member [OF doc(4) el(1)])
  have key: "no_nul key" "content_ok c" using elements_ok_value [OF doc(2) get] by auto
  have "int32_size (length key)"
    using doc(2) el(1) by (induction o1) (auto simp: key_ok_def int32_size_def)
  then have ek: "entry_key (BEntry (of_nat (length key)) (key @ p) t v) = Inr key" by (rule entry_key_write)
  have type: "buffered_getType es key = Inr (buffered_type c)"
    by (rule lookup_type [OF doc(1,2) find_apart [OF doc(3) get]])
  from lookup_value [OF doc(1,2), of key] get obtain w where
    w: "buffered_getValue es key = Inr (Some w)" "lies_value c w" by auto
  show ?thesis
  proof (cases c)
    case (CBson inner)
    have "select_content sel key c = bindR (if sel = ''*'' then Inr ''*'' else bson_subselect sel key)
        (\<lambda>sub. bindR (bson_select sub inner) (\<lambda>i. Inr (CBson i)))"
      using CBson el(2) bson_select_star [of inner] by simp
    with CBson w el(3) ek type key show ?thesis
      by (auto simp: buffered_getBSON_def selects_def bindR_assoc)
  next
    case (CArray os)
    have "select_content sel key c = bindR (if sel = ''*'' then Inr ''*'' else bson_subselect sel key)
        (\<lambda>sub. bindR (array_select sub os) (\<lambda>a. Inr (CArray a)))"
      using CArray by simp
    with CArray w el(3) ek type key show ?thesis
      by (auto simp: buffered_getBSONArray_def selects_def bindR_assoc)
  qed (use w ek type key in \<open>auto simp: buffered_scalar_def buffered_getBoolean_def buffered_getInt_def
      buffered_getLong_def buffered_getDouble_def buffered_getDJString_def buffered_read_def\<close>)
qed

lemma buffered_select_all:
  "content_ok c \<Longrightarrow> content_sorted c \<Longrightarrow> content_apart c \<Longrightarrow> selects c"
  "\<And>o1 es er sel columns result. elements_ok rest \<Longrightarrow> bson_sorted rest \<Longrightarrow> bson_apart rest \<Longrightarrow>
     lies o1 es \<Longrightarrow> elements_ok o1 \<Longrightarrow> bson_apart o1 \<Longrightarrow> map_sorted o1 \<Longrightarrow> set rest \<subseteq> set o1 \<Longrightarrow> lies rest er \<Longrightarrow>
     buffered_select_loop sel columns es er result = select_loop sel columns rest result"
  "\<And>objs sel. objects_ok os \<Longrightarrow> array_sorted os \<Longrightarrow> array_apart os \<Longrightarrow> lies_array os objs \<Longrightarrow>
     buffered_array_select sel objs = array_select sel os"
proof (induction c and rest and os rule: writeContent_writeElements_writeObjects.induct)
  case (1 inner)
  show ?case unfolding selects_def
    using "1.IH" [of inner] 1(2-4) by (auto simp: select_unfold intro!: bindR_cong)
next
  case (7 array)
  then show ?case by (simp add: selects_def)
next
  case (9 key cont rest)
  from 9(11) obtain p v er' where er: "er = BEntry (of_nat (length key)) (key @ p) (wire_type cont) v # er'"
    "lies rest er'" by auto
  have step: "buffered_select_loop sel columns es er result =
    (if sel = ''*'' \<or> key \<in> set columns then bindR (select_content sel key cont) (\<lambda>c'.
       buffered_select_loop sel columns es er' (bson_add key c' result))
     else buffered_select_loop sel columns es er' result)"
    unfolding er(1) using 9 by (intro buffered_select_step) auto
  have rec: "buffered_select_loop sel columns es er' r = select_loop sel columns rest r" for r
    using 9 er(2) by (intro "9.IH"(2) [where ?o1.0 = o1]) auto
  show ?case unfolding step by (simp add: rec)
next
  case (11 obj rest)
  from 11(6) obtain es objs' where o: "objs = (es, length (writeBSON obj)) # objs'" "lies obj es"
    "lies_array rest objs'" by auto
  have "buffered_select sel es = bson_select sel obj"
    using 11 o(2) by (auto simp: select_unfold intro!: bindR_cong "11.IH"(1) [of obj])
  moreover have "(if sel = ''*'' then Inr obj else bson_select sel obj) = bson_select sel obj"
    using bson_select_star [of obj] 11(4) by auto
  moreover have "buffered_array_select sel objs' = array_select sel rest"
    using 11 o(3) by auto
  ultimately show ?case by (simp add: o(1))
qed (auto simp: selects_def)

text \<open>The selection on the buffer gives the selection of the document in memory, errors included.\<close>

lemma buffered_select_eq:
  assumes "lies o1 es" "elements_ok o1" "bson_apart o1" "bson_sorted o1"
  shows "buffered_select sel es = bson_select sel o1"
  using buffered_select_all(2) [OF assms(2,4,3,1,2,3) _ subset_refl assms(1)] assms(4)
  by (auto simp: select_unfold intro!: bindR_cong)

end
