(* ===== verification/Buffered_Text.thy ===== *)
theory Buffered_Text
  imports Bson_Text Bson_Buffered
begin

text \<open>
  The text of a document that is read in place: BSONBufferedObj::toChar (filesystem/bsonbufferedobj.cpp) and
  BSONBufferedArrayObj::toChar (filesystem/bsonbufferedarrayobj.cpp). It is the text of the document, apart
  from the arrays in it, of which it prints nothing.
\<close>

section \<open>Printing\<close>

text \<open>A value that is read from the buffer; long integers of the type LONG64_TYPE are not printed.\<close>

definition pointed_text :: "(int64 \<Rightarrow> string) \<Rightarrow> int64 \<Rightarrow> byte list \<Rightarrow> string option res" where
  "pointed_text fmt type p =
     (if type = 10 then bindR (deref read_boolean p) (\<lambda>(b, _). Inr (Some (if b then ''true'' else ''false'')))
      else if type = 0 then bindR (deref read_int p) (\<lambda>(i, _). Inr (Some (int_text (sint i))))
      else if type = 2 then bindR (deref read_long p) (\<lambda>(l, _). Inr (Some (int_text (sint l))))
      else if type = 1 then bindR (deref read_double p) (\<lambda>(d, _). Inr (Some (fmt d)))
      else if type = 4 \<or> type = 3 then
        bindR (deref read_chars p) (\<lambda>(s, _). Inr (Some ([CHR 0x22] @ c_str s @ [CHR 0x22])))
      else Inr None)"

fun buffered_value_text :: "(int64 \<Rightarrow> string) \<Rightarrow> int64 \<Rightarrow> bvalue \<Rightarrow> string option res"
  and buffered_pairs_text :: "(int64 \<Rightarrow> string) \<Rightarrow> bool \<Rightarrow> string \<Rightarrow> bentry list \<Rightarrow> string res" where
  "buffered_value_text fmt type (VObj es n) =
     (if type = 5 then bindR (buffered_pairs_text fmt True ''{'' es) (\<lambda>txt. Inr (Some txt))
      else if type = 6 then Inr None else Inl Undefined_behaviour)"
| "buffered_value_text fmt type (VArr objs n) = (if type = 6 then Inr None else Inl Undefined_behaviour)"
| "buffered_value_text fmt type (VPtr p) = (if type = 5 then Inl Undefined_behaviour else pointed_text fmt type p)"
| "buffered_pairs_text fmt first result [] = print_at result ''}''"
| "buffered_pairs_text fmt first result (BEntry k p t v # es) =
     bindR (entry_key (BEntry k p t v)) (\<lambda>key.
     bindR (buffered_value_text fmt t v) (\<lambda>txt.
     bindR (print_key (if first then result else result @ '','') key) (\<lambda>result.
     bindR (case txt of None \<Rightarrow> Inr result | Some txt \<Rightarrow> print_value result key txt) (\<lambda>result.
     buffered_pairs_text fmt False result es))))"

definition buffered_toChar :: "(int64 \<Rightarrow> string) \<Rightarrow> bentry list \<Rightarrow> string res" where
  "buffered_toChar fmt es = buffered_pairs_text fmt True ''{'' es"

primrec buffered_docs_text :: "(int64 \<Rightarrow> string) \<Rightarrow> bool \<Rightarrow> buffered list \<Rightarrow> string res" where
  "buffered_docs_text fmt first [] = Inr ''''"
| "buffered_docs_text fmt first (element # objs) =
     bindR (buffered_toChar fmt (fst element)) (\<lambda>txt.
     bindR (buffered_docs_text fmt False objs) (\<lambda>rest.
     Inr ((if first then '''' else '', '') @ txt @ rest)))"

definition buffered_array_toChar :: "(int64 \<Rightarrow> string) \<Rightarrow> buffered list \<Rightarrow> string res" where
  "buffered_array_toChar fmt objs = bindR (buffered_docs_text fmt True objs) (\<lambda>txt. Inr (''['' @ txt @ '']''))"

section \<open>The text of the document\<close>

fun content_flat :: "content \<Rightarrow> bool"
  and pairs_flat :: "(string \<times> content) list \<Rightarrow> bool" where
  "content_flat (CArray os) = False"
| "content_flat (CBson o1) = pairs_flat o1"
| "content_flat _ = True"
| "pairs_flat [] = True"
| "pairs_flat ((key, c) # o1) = (content_flat c \<and> pairs_flat o1)"

lemma buffered_text_eq:
  "content_ok c \<Longrightarrow> content_flat c \<Longrightarrow> lies_value c v \<Longrightarrow>
     buffered_value_text fmt (wire_type c) v = bindR (content_toChar fmt c) (\<lambda>txt. Inr (Some txt))"
  "elements_ok o1 \<Longrightarrow> pairs_flat o1 \<Longrightarrow> lies o1 es \<Longrightarrow>
     buffered_pairs_text fmt first result es = pairs_toChar fmt first result o1"
proof (induction c and o1 arbitrary: v and es first result rule: content_flat_pairs_flat.induct)
  case (5 key c o1)
  from "5.prems"(3) obtain p v es' where es: "es = BEntry (of_nat (length key)) (key @ p) (wire_type c) v # es'"
    "lies_value c v" "lies o1 es'" by auto
  have ok: "int32_size (length key)" "content_ok c" "elements_ok o1" "content_flat c" "pairs_flat o1"
    using "5.prems"(1,2) by (auto simp: key_ok_def int32_size_def)
  note val = "5.IH"(1) [OF ok(2,4) es(2)] and rest = "5.IH"(2) [OF ok(3,5) es(3)]
  show ?case
    unfolding es(1) buffered_pairs_text.simps pairs_toChar.simps entry_key_write [OF ok(1)] val rest bindR_simps
    by (cases "content_toChar fmt c"; simp add: print_field_def bindR_def split: sum.split)
qed (auto simp: pointed_text_def)

lemma buffered_docs_text_eq:
  "objects_ok os \<Longrightarrow> \<forall>o1\<in>set os. pairs_flat o1 \<Longrightarrow> lies_array os objs \<Longrightarrow>
     buffered_docs_text fmt first objs = array_toChar fmt first os"
proof (induction os arbitrary: objs first)
  case (Cons o1 os)
  then obtain es objs' where "objs = (es, length (writeBSON o1)) # objs'" "lies o1 es" "lies_array os objs'" by auto
  with Cons show ?case using buffered_text_eq(2) [of o1 es fmt True "''{''"] by (simp add: buffered_toChar_def)
qed simp

lemma buffered_array_toChar_eq:
  "objects_ok os \<Longrightarrow> \<forall>o1\<in>set os. pairs_flat o1 \<Longrightarrow> lies_array os objs \<Longrightarrow>
     buffered_array_toChar fmt objs = bsonarray_toChar fmt os"
  by (simp add: buffered_array_toChar_def bsonarray_toChar_def buffered_docs_text_eq)

text \<open>Of an array there is its key only.\<close>

lemma buffered_text_array:
  assumes "plain_text key" "length key < 1000" "lies [(key, CArray os)] es"
  shows "buffered_toChar fmt es = Inr (''{ '' @ [CHR 0x22] @ key @ [CHR 0x22] @ '' : }'')"
proof -
  from assms(3) obtain p objs n where es: "es = [BEntry (of_nat (length key)) (key @ p) 6 (VArr objs n)]" by auto
  have "entry_key (BEntry (of_nat (length key)) (key @ p) 6 (VArr objs n)) = Inr key"
    using assms(2) by (intro entry_key_write) (simp add: int32_size_def)
  with assms(1,2) show ?thesis
    by (simp add: es buffered_toChar_def print_key_def print_at_def MAX_BSONOBJ_BUFFER_def plain_no_nul)
qed

end
