(* ===== verification/Memory_Stream.thy ===== *)
theory Memory_Stream
  imports Bson_Codec
begin

text \<open>
  MemoryStream (filesystem/memorystream.cpp): bytes kept in up to 100 chunks of the same size,
  with a cursor that is a chunk number and an offset. The abstract specification is a flat list
  of bytes with a position; the facts at the end show that writing at the end, seeking from the
  start and reading refine it, so that the codecs of the other theories run on it.
\<close>

section \<open>State and operations\<close>

text \<open>
  The chunk pointers are options (null or a block); the field of the current chunk is the entry
  at the current index. Counts and positions are taken below 2 ^ 31.
\<close>

record memstream =
  ms_open :: bool
  ms_length :: nat
  ms_index :: nat
  ms_pos :: nat
  ms_buffer :: "byte list option list"
  ms_chunk :: nat
  ms_max :: nat

definition ms_blank :: "nat \<Rightarrow> byte list" where
  "ms_blank n = replicate (n + 1) (CHR 0x00)"

text \<open>allocate on a fresh stream makes chunk 0.\<close>

definition ms_new :: "nat \<Rightarrow> memstream" where
  "ms_new bufferSize =
     \<lparr>ms_open = True, ms_length = 0, ms_index = 0, ms_pos = 0,
      ms_buffer = Some (ms_blank bufferSize) # replicate 99 None,
      ms_chunk = bufferSize, ms_max = 1\<rparr>"

definition ms_allocate :: "memstream \<Rightarrow> memstream res" where
  "ms_allocate s =
     (let i = ms_index s + 1 in
      if i \<ge> 100 then Inl Assertion_failed
      else Inr (case ms_buffer s ! i of
          None \<Rightarrow> s\<lparr>ms_index := i, ms_pos := 0,
                     ms_buffer := (ms_buffer s)[i := Some (ms_blank (ms_chunk s))], ms_max := i + 1\<rparr>
        | Some _ \<Rightarrow> s\<lparr>ms_index := i, ms_pos := 0\<rparr>))"

definition ms_nextBuffer :: "memstream \<Rightarrow> memstream res" where
  "ms_nextBuffer s =
     (if ms_index s + 1 < 100 then Inr (s\<lparr>ms_index := ms_index s + 1, ms_pos := 0\<rparr>)
      else Inl Undefined_behaviour)"

text \<open>memcpy into and out of the current chunk; nothing is touched when there is nothing to copy.\<close>

definition ms_store :: "memstream \<Rightarrow> byte list \<Rightarrow> memstream res" where
  "ms_store s xs =
     (if xs = [] then Inr s
      else if ms_index s \<ge> 100 then Inl Undefined_behaviour
      else case ms_buffer s ! ms_index s of
          None \<Rightarrow> Inl Undefined_behaviour
        | Some b \<Rightarrow>
            if ms_pos s + length xs > length b then Inl Undefined_behaviour
            else Inr (s\<lparr>ms_buffer := (ms_buffer s)[ms_index s :=
                   Some (take (ms_pos s) b @ xs @ drop (ms_pos s + length xs) b)]\<rparr>))"

definition ms_fetch :: "memstream \<Rightarrow> nat \<Rightarrow> byte list res" where
  "ms_fetch s n =
     (if n = 0 then Inr []
      else if ms_index s \<ge> 100 then Inl Undefined_behaviour
      else case ms_buffer s ! ms_index s of
          None \<Rightarrow> Inl Undefined_behaviour
        | Some b \<Rightarrow> if ms_pos s + n > length b then Inl Undefined_behaviour
                    else Inr (take n (drop (ms_pos s) b)))"

lemma ms_allocate_index: "ms_allocate s = Inr t \<Longrightarrow> ms_index t = ms_index s + 1 \<and> ms_index t < 100"
  by (auto simp: ms_allocate_def Let_def split: if_splits option.splits)

lemma ms_store_keeps:
  "ms_store s xs = Inr t \<Longrightarrow> ms_index t = ms_index s \<and> ms_pos t = ms_pos s \<and> ms_chunk t = ms_chunk s \<and>
     ms_length t = ms_length s \<and> ms_max t = ms_max s"
  by (auto simp: ms_store_def split: if_splits option.splits)

function ms_write :: "memstream \<Rightarrow> byte list \<Rightarrow> memstream res" where
  "ms_write s xs =
     (if ms_pos s + length xs < ms_chunk s then
        bindR (ms_store s xs) (\<lambda>t.
        Inr (t\<lparr>ms_pos := ms_pos s + length xs, ms_length := ms_length s + length xs\<rparr>))
      else if ms_pos s > ms_chunk s then Inl Undefined_behaviour
      else
        (let space = ms_chunk s - ms_pos s in
         bindR (ms_store s (take space xs)) (\<lambda>t.
         bindR (ms_allocate (t\<lparr>ms_length := ms_length s + space\<rparr>)) (\<lambda>u.
         ms_write u (drop space xs)))))"
  by pat_completeness auto
termination
  by (relation "measure (\<lambda>(s, xs). 100 - ms_index s)")
    (auto dest!: ms_allocate_index ms_store_keeps)
declare ms_write.simps [simp del]

text \<open>The bound of a read compares the whole length with the offset inside the current chunk.\<close>

function ms_read :: "memstream \<Rightarrow> nat \<Rightarrow> (byte list \<times> memstream) res" where
  "ms_read s count =
     (let count = (if ms_pos s \<le> ms_length s \<and> count > ms_length s - ms_pos s
                   then ms_length s - ms_pos s else count) in
      if ms_pos s + count < ms_chunk s then
        bindR (ms_fetch s count) (\<lambda>xs. Inr (xs, s\<lparr>ms_pos := ms_pos s + count\<rparr>))
      else if ms_pos s > ms_chunk s then Inl Undefined_behaviour
      else
        (let space = ms_chunk s - ms_pos s in
         bindR (ms_fetch s space) (\<lambda>xs.
         bindR (ms_nextBuffer s) (\<lambda>t.
         bindR (ms_read t (count - space)) (\<lambda>(ys, u). Inr (xs @ ys, u))))))"
  by pat_completeness auto
termination
  by (relation "measure (\<lambda>(s, n). 100 - ms_index s)")
    (auto simp: ms_nextBuffer_def split: if_splits)
declare ms_read.simps [simp del]

text \<open>readChar does not take the last byte of a chunk but goes on to the next one.\<close>

function ms_readChar :: "memstream \<Rightarrow> (byte \<times> memstream) res" where
  "ms_readChar s =
     (let count = (if ms_length s < ms_pos s then 0 else 1) in
      if ms_pos s + count < ms_chunk s then
        bindR (ms_fetch s 1) (\<lambda>xs. Inr (hd xs, s\<lparr>ms_pos := ms_pos s + 1\<rparr>))
      else bindR (ms_nextBuffer s) ms_readChar)"
  by pat_completeness auto
termination
  by (relation "measure (\<lambda>s. 100 - ms_index s)") (auto simp: ms_nextBuffer_def split: if_splits)
declare ms_readChar.simps [simp del]

definition ms_seek :: "memstream \<Rightarrow> nat \<Rightarrow> memstream" where
  "ms_seek s i =
     (let i = (if i > ms_length s then ms_length s else i) in
      s\<lparr>ms_index := i div ms_chunk s, ms_pos := i mod ms_chunk s\<rparr>)"

text \<open>The direction FROMEND_SEEK ignores the distance.\<close>

definition ms_seek_end :: "memstream \<Rightarrow> memstream" where
  "ms_seek_end s =
     s\<lparr>ms_index := (ms_length s + ms_chunk s - 1) div ms_chunk s,
       ms_pos := ms_length s - ms_length s mod ms_chunk s\<rparr>"

definition ms_currentPos :: "memstream \<Rightarrow> nat" where
  "ms_currentPos s = ms_index s * ms_chunk s + ms_pos s"

definition ms_eof :: "memstream \<Rightarrow> bool" where
  "ms_eof s \<longleftrightarrow> \<not> ms_length s > ms_index s * ms_chunk s + ms_pos s"

definition ms_size :: "memstream \<Rightarrow> nat" where
  "ms_size s = ms_length s"

definition ms_reset :: "memstream \<Rightarrow> memstream" where
  "ms_reset s = ms_seek (s\<lparr>ms_length := 0\<rparr>) 0"

definition ms_close :: "memstream \<Rightarrow> memstream" where
  "ms_close s = s\<lparr>ms_open := False\<rparr>"

text \<open>toChars copies whole chunks and then the part of the last one; an empty stream has no last one.\<close>

definition ms_toChars :: "memstream \<Rightarrow> byte list res" where
  "ms_toChars s =
     (let n = (ms_length s + ms_chunk s - 1) div ms_chunk s;
          part = (\<lambda>x k. ms_fetch (s\<lparr>ms_index := x, ms_pos := 0\<rparr>) k) in
      if n = 0 then Inl Undefined_behaviour
      else bindR (mapR (\<lambda>x. part x (ms_chunk s)) [0..<n - 1]) (\<lambda>whole.
           bindR (part (n - 1) (ms_length s - ms_chunk s * (n - 1))) (\<lambda>last.
           Inr (concat whole @ last))))"

section \<open>The flat view\<close>

definition ms_at :: "memstream \<Rightarrow> nat \<Rightarrow> byte" where
  "ms_at s k = (case ms_buffer s ! (k div ms_chunk s) of
      None \<Rightarrow> CHR 0x00 | Some b \<Rightarrow> b ! (k mod ms_chunk s))"

lemma ms_at_cong: "ms_buffer s = ms_buffer t \<Longrightarrow> ms_chunk s = ms_chunk t \<Longrightarrow> ms_at s k = ms_at t k"
  by (simp add: ms_at_def cong: option.case_cong)

definition ms_bytes :: "memstream \<Rightarrow> byte list" where
  "ms_bytes s = map (ms_at s) [0..<ms_length s]"

text \<open>The chunks up to the last allocated one exist and have one spare byte.\<close>

definition ms_shape :: "memstream \<Rightarrow> bool" where
  "ms_shape s \<longleftrightarrow> 0 < ms_chunk s \<and> length (ms_buffer s) = 100 \<and> ms_max s \<le> 100 \<and>
     ms_index s < ms_max s \<and> ms_pos s < ms_chunk s \<and>
     (\<forall>i<ms_max s. \<exists>b. ms_buffer s ! i = Some b \<and> length b = Suc (ms_chunk s)) \<and>
     (\<forall>i<100. ms_max s \<le> i \<longrightarrow> ms_buffer s ! i = None)"

definition ms_inv :: "memstream \<Rightarrow> bool" where
  "ms_inv s \<longleftrightarrow> ms_shape s \<and> ms_length s div ms_chunk s < ms_max s"

lemma ms_shape_chunk:
  "ms_shape s \<Longrightarrow> i < ms_max s \<Longrightarrow> \<exists>b. ms_buffer s ! i = Some b \<and> length b = ms_chunk s + 1"
  by (simp add: ms_shape_def)

lemma ms_new_inv: "0 < c \<Longrightarrow> ms_inv (ms_new c)"
  by (auto simp: ms_inv_def ms_shape_def ms_new_def ms_blank_def nth_Cons')

lemma spliced_nth:
  assumes "pos + length xs \<le> length b" "j < length b"
  shows "(take pos b @ xs @ drop (pos + length xs) b) ! j =
    (if pos \<le> j \<and> j < pos + length xs then xs ! (j - pos) else b ! j)"
  using assms by (auto simp: nth_append min_def)

lemma chunk_arith:
  fixes c k i pos :: nat
  assumes "0 < c" "pos + n \<le> c" "n \<noteq> 0"
  shows "(i * c + pos \<le> k \<and> k < i * c + pos + n) \<longleftrightarrow>
     (k div c = i \<and> pos \<le> k mod c \<and> k mod c < pos + n)"
proof -
  define q r where "q = k div c" and "r = k mod c"
  then have k: "k = q * c + r" and r: "r < c" using assms(1) by simp_all
  have goal: "(i * c + pos \<le> q * c + r \<and> q * c + r < i * c + pos + n) \<longleftrightarrow>
      (q = i \<and> pos \<le> r \<and> r < pos + n)"
  proof (cases q i rule: linorder_cases)
    case less
    then have "(q + 1) * c \<le> i * c" by (intro mult_le_mono1) simp
    then have "q * c + c \<le> i * c" by simp
    with less r show ?thesis by linarith
  next
    case greater
    then have "(i + 1) * c \<le> q * c" by (intro mult_le_mono1) simp
    then have "i * c + c \<le> q * c" by simp
    with greater assms r show ?thesis by linarith
  qed auto
  from goal show ?thesis unfolding k [symmetric] unfolding q_def r_def .
qed

lemma ms_store_spec:
  assumes "ms_shape s" "ms_pos s + length xs \<le> ms_chunk s"
  shows "\<exists>b. ms_store s xs = Inr (s\<lparr>ms_buffer := b\<rparr>) \<and> ms_shape (s\<lparr>ms_buffer := b\<rparr>) \<and>
    (\<forall>k. ms_at (s\<lparr>ms_buffer := b\<rparr>) k =
       (if ms_currentPos s \<le> k \<and> k < ms_currentPos s + length xs
        then xs ! (k - ms_currentPos s) else ms_at s k))"
proof (cases "xs = []")
  case True
  have "s\<lparr>ms_buffer := ms_buffer s\<rparr> = s" by simp
  with True assms(1) show ?thesis by (intro exI [of _ "ms_buffer s"]) (auto simp: ms_store_def)
next
  case False
  let ?i = "ms_index s"
  have i: "?i < ms_max s" "?i < 100" "length (ms_buffer s) = 100" "0 < ms_chunk s"
    using assms(1) by (auto simp: ms_shape_def)
  obtain b where b: "ms_buffer s ! ?i = Some b" "length b = ms_chunk s + 1"
    using ms_shape_chunk [OF assms(1) i(1)] by blast
  let ?b = "take (ms_pos s) b @ xs @ drop (ms_pos s + length xs) b"
  let ?B = "(ms_buffer s)[?i := Some ?b]"
  have store: "ms_store s xs = Inr (s\<lparr>ms_buffer := ?B\<rparr>)"
    using False i b assms(2) by (simp add: ms_store_def)
  have shape: "ms_shape (s\<lparr>ms_buffer := ?B\<rparr>)"
    using assms i b by (auto simp: ms_shape_def nth_list_update)
  have "ms_at (s\<lparr>ms_buffer := ?B\<rparr>) k =
       (if ms_currentPos s \<le> k \<and> k < ms_currentPos s + length xs
        then xs ! (k - ms_currentPos s) else ms_at s k)" for k
  proof (cases "k div ms_chunk s = ?i")
    case True
    have "k mod ms_chunk s < length b" using b(2) i(4) by (simp add: less_Suc_eq)
    moreover have "k - (?i * ms_chunk s + ms_pos s) = k mod ms_chunk s - ms_pos s"
      using True by (metis diff_diff_left minus_div_mult_eq_mod)
    ultimately show ?thesis
      using True i b assms(2) False
        chunk_arith [of "ms_chunk s" "ms_pos s" "length xs" ?i k]
      by (simp add: ms_at_def ms_currentPos_def spliced_nth del: append_assoc)
  next
    case nothere: False
    with False i assms(2) chunk_arith [of "ms_chunk s" "ms_pos s" "length xs" ?i k]
    show ?thesis by (auto simp: ms_at_def ms_currentPos_def cong: option.case_cong)
  qed
  with store shape show ?thesis by blast
qed

lemma ms_allocate_spec:
  assumes "ms_shape s" "ms_index s + 1 < 100"
  shows "\<exists>t. ms_allocate s = Inr t \<and> ms_shape t \<and> ms_at t = ms_at s \<and> ms_pos t = 0 \<and>
    ms_index t = ms_index s + 1 \<and> ms_length t = ms_length s \<and> ms_chunk t = ms_chunk s \<and>
    ms_max s \<le> ms_max t \<and> ms_open t = ms_open s"
proof (cases "ms_buffer s ! (ms_index s + 1)")
  case None
  have max: "ms_max s = ms_index s + 1"
    using assms None ms_shape_chunk [OF assms(1), of "ms_index s + 1"]
    by (cases "ms_index s + 1 < ms_max s") (auto simp: ms_shape_def)
  let ?t = "s\<lparr>ms_index := ms_index s + 1, ms_pos := 0, ms_buffer :=
    (ms_buffer s)[ms_index s + 1 := Some (ms_blank (ms_chunk s))], ms_max := ms_index s + 2\<rparr>"
  have "ms_allocate s = Inr ?t" using assms(2) None by (simp add: ms_allocate_def)
  moreover have "ms_shape ?t"
    using assms max by (auto simp: ms_shape_def ms_blank_def nth_list_update less_Suc_eq)
  moreover have "ms_at ?t = ms_at s"
  proof
    fix k
    have "length (ms_buffer s) = 100" "0 < ms_chunk s" using assms(1) by (auto simp: ms_shape_def)
    then show "ms_at ?t k = ms_at s k"
      using assms(2) None
      by (cases "k div ms_chunk s = ms_index s + 1")
        (auto simp: ms_at_def ms_blank_def less_Suc_eq simp del: replicate_Suc cong: option.case_cong)
  qed
  ultimately show ?thesis using max by (intro exI [of _ ?t]) simp
next
  case (Some b)
  let ?t = "s\<lparr>ms_index := ms_index s + 1, ms_pos := 0\<rparr>"
  have "ms_index s + 1 < ms_max s"
    using Some assms unfolding ms_shape_def by (metis not_le option.distinct(1))
  then have "ms_shape ?t" using assms by (simp add: ms_shape_def)
  moreover have "ms_allocate s = Inr ?t" using assms(2) Some by (simp add: ms_allocate_def)
  moreover have "ms_at ?t = ms_at s" by (rule ext, rule ms_at_cong) simp_all
  ultimately show ?thesis by (intro exI [of _ ?t]) simp
qed

text \<open>
  A write puts its bytes at the cursor and adds their number to the length, wherever the cursor
  is; it stops on the assertion of allocate when it would need a chunk beyond the hundredth.
\<close>

lemma ms_write_spec:
  "ms_shape s \<Longrightarrow> ms_currentPos s + length xs < 100 * ms_chunk s \<Longrightarrow>
   \<exists>t. ms_write s xs = Inr t \<and> ms_shape t \<and> ms_chunk t = ms_chunk s \<and>
     ms_length t = ms_length s + length xs \<and> ms_max s \<le> ms_max t \<and>
     ms_currentPos t = ms_currentPos s + length xs \<and>
     (\<forall>k. ms_at t k = (if ms_currentPos s \<le> k \<and> k < ms_currentPos s + length xs
        then xs ! (k - ms_currentPos s) else ms_at s k))"
proof (induction s xs rule: ms_write.induct)
  case (1 s xs)
  have pos: "ms_pos s < ms_chunk s" using "1.prems"(1) by (simp add: ms_shape_def)
  show ?case
  proof (cases "ms_pos s + length xs < ms_chunk s")
    case True
    with ms_store_spec [OF "1.prems"(1), of xs] obtain b where b:
      "ms_store s xs = Inr (s\<lparr>ms_buffer := b\<rparr>)" "ms_shape (s\<lparr>ms_buffer := b\<rparr>)"
      "\<forall>k. ms_at (s\<lparr>ms_buffer := b\<rparr>) k = (if ms_currentPos s \<le> k \<and>
         k < ms_currentPos s + length xs then xs ! (k - ms_currentPos s) else ms_at s k)"
      by auto
    let ?t = "s\<lparr>ms_buffer := b, ms_pos := ms_pos s + length xs, ms_length := ms_length s + length xs\<rparr>"
    have "ms_write s xs = Inr ?t" using True b(1) by (simp add: ms_write.simps)
    moreover have "ms_shape ?t" using True b(2) by (simp add: ms_shape_def)
    moreover have "ms_at ?t k = ms_at (s\<lparr>ms_buffer := b\<rparr>) k" for k by (rule ms_at_cong) simp_all
    ultimately show ?thesis using b(3) by (intro exI [of _ ?t]) (simp add: ms_currentPos_def)
  next
    case False
    define space where "space = ms_chunk s - ms_pos s"
    have space: "length (take space xs) = space" "ms_pos s + space = ms_chunk s"
      using False pos by (simp_all add: space_def)
    with ms_store_spec [OF "1.prems"(1), of "take space xs"] obtain b where b:
      "ms_store s (take space xs) = Inr (s\<lparr>ms_buffer := b\<rparr>)" "ms_shape (s\<lparr>ms_buffer := b\<rparr>)"
      "\<forall>k. ms_at (s\<lparr>ms_buffer := b\<rparr>) k = (if ms_currentPos s \<le> k \<and>
         k < ms_currentPos s + space then take space xs ! (k - ms_currentPos s) else ms_at s k)"
      by auto
    let ?t = "s\<lparr>ms_buffer := b, ms_length := ms_length s + space\<rparr>"
    have next_chunk: "ms_currentPos s + space = (ms_index s + 1) * ms_chunk s"
      using space(2) by (simp add: ms_currentPos_def algebra_simps)
    have "ms_currentPos s + space < 100 * ms_chunk s"
      using "1.prems"(2) False pos by (simp add: space_def)
    then have "ms_index s + 1 < 100"
      unfolding next_chunk by (simp only: mult_less_cancel2)
    then have idx: "ms_index ?t + 1 < 100"
      "ms_currentPos s + space = (ms_index s + 1) * ms_chunk s"
      by (simp_all add: next_chunk)
    have "ms_shape ?t" using b(2) by (simp add: ms_shape_def)
    from ms_allocate_spec [OF this idx(1)] obtain u where u: "ms_allocate ?t = Inr u" "ms_shape u"
      "ms_at u = ms_at ?t" "ms_pos u = 0" "ms_index u = ms_index s + 1"
      "ms_length u = ms_length s + space" "ms_chunk u = ms_chunk s" "ms_max s \<le> ms_max u"
      by auto
    have at_b: "ms_at ?t k = ms_at (s\<lparr>ms_buffer := b\<rparr>) k" for k by (rule ms_at_cong) simp_all
    have cur: "ms_currentPos u = ms_currentPos s + space"
      using u(4,5,7) idx(2) by (simp add: ms_currentPos_def)
    have fits: "ms_currentPos u + length (drop space xs) < 100 * ms_chunk u"
      using "1.prems"(2) False pos by (simp add: cur u(7) space_def)
    have wr: "ms_write s xs = ms_write u (drop space xs)"
      using False pos b(1) u(1) by (simp add: ms_write.simps [of s xs] Let_def space_def)
    have store: "ms_store s (take (ms_chunk s - ms_pos s) xs) = Inr (s\<lparr>ms_buffer := b\<rparr>)"
      using b(1) by (simp add: space_def)
    have "\<exists>v. ms_write u (drop space xs) = Inr v \<and> ms_shape v \<and> ms_chunk v = ms_chunk u \<and>
      ms_length v = ms_length u + length (drop space xs) \<and> ms_max u \<le> ms_max v \<and>
      ms_currentPos v = ms_currentPos u + length (drop space xs) \<and>
      (\<forall>k. ms_at v k = (if ms_currentPos u \<le> k \<and> k < ms_currentPos u + length (drop space xs)
         then drop space xs ! (k - ms_currentPos u) else ms_at u k))"
      unfolding space_def
      by (rule "1.IH" [OF False _ refl store, of u])
        (use pos u(1,2) fits in \<open>simp_all add: space_def\<close>)
    then obtain v where v: "ms_write s xs = Inr v" "ms_shape v" "ms_chunk v = ms_chunk s"
      "ms_length v = ms_length s + length xs" "ms_max s \<le> ms_max v"
      "ms_currentPos v = ms_currentPos s + length xs"
      "\<forall>k. ms_at v k = (if ms_currentPos u \<le> k \<and> k < ms_currentPos u + length (drop space xs)
         then drop space xs ! (k - ms_currentPos u) else ms_at u k)"
      using wr u cur space(1) by auto
    have "ms_at v k = (if ms_currentPos s \<le> k \<and> k < ms_currentPos s + length xs
        then xs ! (k - ms_currentPos s) else ms_at s k)" for k
      using v(7) b(3) at_b [of k] u(3) cur space(1) by auto
    with v show ?thesis by blast
  qed
qed

lemma ms_write_full:
  "ms_shape s \<Longrightarrow> 100 * ms_chunk s \<le> ms_currentPos s + length xs \<Longrightarrow>
   ms_write s xs = Inl Assertion_failed"
proof (induction s xs rule: ms_write.induct)
  case (1 s xs)
  have pos: "ms_pos s < ms_chunk s" "ms_index s < 100"
    using "1.prems"(1) by (auto simp: ms_shape_def)
  have nofit: "\<not> ms_pos s + length xs < ms_chunk s"
  proof
    assume "ms_pos s + length xs < ms_chunk s"
    then have "ms_currentPos s + length xs < (ms_index s + 1) * ms_chunk s"
      by (simp add: ms_currentPos_def)
    also have "\<dots> \<le> 100 * ms_chunk s" using pos(2) by (intro mult_le_mono1) simp
    finally show False using "1.prems"(2) by simp
  qed
  let ?space = "ms_chunk s - ms_pos s"
  from ms_store_spec [OF "1.prems"(1), of "take ?space xs"] nofit pos obtain b where b:
    "ms_store s (take ?space xs) = Inr (s\<lparr>ms_buffer := b\<rparr>)" "ms_shape (s\<lparr>ms_buffer := b\<rparr>)"
    by auto
  let ?t = "s\<lparr>ms_buffer := b, ms_length := ms_length s + ?space\<rparr>"
  have shape: "ms_shape ?t" using b(2) by (simp add: ms_shape_def)
  show ?case
  proof (cases "ms_index s + 1 < 100")
    case True
    with ms_allocate_spec [OF shape] obtain u where u: "ms_allocate ?t = Inr u" "ms_shape u"
      "ms_pos u = 0" "ms_index u = ms_index s + 1" "ms_chunk u = ms_chunk s" by auto
    have "100 * ms_chunk u \<le> ms_currentPos u + length (drop ?space xs)"
      using "1.prems"(2) u nofit pos by (simp add: ms_currentPos_def)
    with "1.IH" [OF nofit _ refl b(1)] u pos have "ms_write u (drop ?space xs) = Inl Assertion_failed"
      by simp
    with nofit pos b(1) u(1) show ?thesis by (simp add: ms_write.simps [of s xs] Let_def)
  next
    case False
    with nofit pos b(1) show ?thesis
      by (simp add: ms_write.simps [of s xs] Let_def ms_allocate_def)
  qed
qed

lemma ms_fetch_spec:
  assumes "ms_shape s" "ms_pos s + n \<le> ms_chunk s"
  shows "ms_fetch s n = Inr (map (ms_at s) [ms_currentPos s..<ms_currentPos s + n])"
proof (cases "n = 0")
  case False
  have i: "ms_index s < ms_max s" "ms_index s < 100" "0 < ms_chunk s"
    using assms(1) by (auto simp: ms_shape_def)
  obtain b where b: "ms_buffer s ! ms_index s = Some b" "length b = ms_chunk s + 1"
    using ms_shape_chunk [OF assms(1) i(1)] by blast
  have "ms_at s (ms_currentPos s + j) = b ! (ms_pos s + j)" if "j < n" for j
  proof -
    have "(ms_currentPos s + j) div ms_chunk s = ms_index s"
      "(ms_currentPos s + j) mod ms_chunk s = ms_pos s + j"
      using that assms(2) i(3) by (simp_all add: ms_currentPos_def add.assoc)
    with b show ?thesis by (simp add: ms_at_def)
  qed
  then have "take n (drop (ms_pos s) b) = map (ms_at s) [ms_currentPos s..<ms_currentPos s + n]"
    using assms(2) b(2) by (intro nth_equalityI) auto
  with False i b assms(2) show ?thesis by (simp add: ms_fetch_def)
qed (simp add: ms_fetch_def)

lemma map_upt_append:
  "i \<le> j \<Longrightarrow> j \<le> k \<Longrightarrow> map f [i..<j] @ map f [j..<k] = map f [i..<k]"
  by (metis map_append upt_add_eq_append le_Suc_ex)

text \<open>A read inside the length returns the bytes at the cursor and moves it.\<close>

lemma ms_read_spec:
  "ms_inv s \<Longrightarrow> ms_currentPos s + n \<le> ms_length s \<Longrightarrow>
   \<exists>i p. ms_read s n = Inr (map (ms_at s) [ms_currentPos s..<ms_currentPos s + n],
        s\<lparr>ms_index := i, ms_pos := p\<rparr>) \<and> ms_inv (s\<lparr>ms_index := i, ms_pos := p\<rparr>) \<and>
     ms_currentPos (s\<lparr>ms_index := i, ms_pos := p\<rparr>) = ms_currentPos s + n"
proof (induction s n rule: ms_read.induct)
  case (1 s n)
  have shape: "ms_shape s" and pos: "ms_pos s < ms_chunk s" and len: "ms_length s div ms_chunk s < ms_max s"
    and max: "ms_max s \<le> 100"
    using "1.prems"(1) by (auto simp: ms_inv_def ms_shape_def)
  have "ms_pos s \<le> ms_currentPos s" by (simp add: ms_currentPos_def)
  with "1.prems"(2) have clamp: "(if ms_pos s \<le> ms_length s \<and> n > ms_length s - ms_pos s
      then ms_length s - ms_pos s else n) = n" by auto
  show ?case
  proof (cases "ms_pos s + n < ms_chunk s")
    case True
    let ?t = "s\<lparr>ms_index := ms_index s, ms_pos := ms_pos s + n\<rparr>"
    have "ms_read s n = Inr (map (ms_at s) [ms_currentPos s..<ms_currentPos s + n], ?t)"
      unfolding ms_read.simps [of s n] Let_def clamp
      using True shape by (simp add: ms_fetch_spec)
    moreover have "ms_inv ?t" using True shape len by (simp add: ms_inv_def ms_shape_def)
    moreover have "ms_currentPos ?t = ms_currentPos s + n" by (simp add: ms_currentPos_def)
    ultimately show ?thesis by blast
  next
    case False
    define space where "space = ms_chunk s - ms_pos s"
    let ?t = "s\<lparr>ms_index := ms_index s + 1, ms_pos := 0\<rparr>"
    have cur: "ms_currentPos ?t = ms_currentPos s + space" "space \<le> n" "ms_pos s + space = ms_chunk s"
      using False pos by (simp_all add: ms_currentPos_def space_def)
    have "(ms_index s + 1) * ms_chunk s \<le> ms_length s"
      using "1.prems"(2) cur by (simp add: ms_currentPos_def)
    then have "ms_index s + 1 \<le> ms_length s div ms_chunk s"
      using pos by (simp add: less_eq_div_iff_mult_less_eq)
    with len have idx: "ms_index s + 1 < ms_max s" by simp
    have inv: "ms_inv ?t" using shape idx len pos by (auto simp: ms_inv_def ms_shape_def)
    have nb: "ms_nextBuffer s = Inr ?t" using idx max by (simp add: ms_nextBuffer_def)
    have fetch: "ms_fetch s space = Inr (map (ms_at s) [ms_currentPos s..<ms_currentPos s + space])"
      using shape cur(3) by (simp add: ms_fetch_spec)
    have at_t: "ms_at ?t = ms_at s" by (rule ext, rule ms_at_cong) simp_all
    have rest: "ms_currentPos ?t + (n - space) = ms_currentPos s + n" using cur by simp
    have "\<exists>i p. ms_read ?t (n - space) = Inr (map (ms_at ?t)
         [ms_currentPos ?t..<ms_currentPos ?t + (n - space)], ?t\<lparr>ms_index := i, ms_pos := p\<rparr>) \<and>
        ms_inv (?t\<lparr>ms_index := i, ms_pos := p\<rparr>) \<and>
        ms_currentPos (?t\<lparr>ms_index := i, ms_pos := p\<rparr>) = ms_currentPos ?t + (n - space)"
      using "1.IH" [OF refl, unfolded clamp, OF False _ refl, folded space_def, OF _ fetch nb]
        pos inv "1.prems"(2) rest by simp
    moreover have "ms_currentPos s + space + (n - space) = ms_currentPos s + n" using cur(2) by simp
    ultimately obtain i p where ip: "ms_read ?t (n - space) = Inr (map (ms_at s)
         [ms_currentPos s + space..<ms_currentPos s + n], s\<lparr>ms_index := i, ms_pos := p\<rparr>)"
        "ms_inv (s\<lparr>ms_index := i, ms_pos := p\<rparr>)"
        "ms_currentPos (s\<lparr>ms_index := i, ms_pos := p\<rparr>) = ms_currentPos s + n"
      unfolding at_t cur(1) by auto
    have "ms_read s n = Inr (map (ms_at s) [ms_currentPos s..<ms_currentPos s + n],
        s\<lparr>ms_index := i, ms_pos := p\<rparr>)"
      unfolding ms_read.simps [of s n] Let_def clamp
      using False pos fetch nb ip(1) cur(2)
        map_upt_append [of "ms_currentPos s" "ms_currentPos s + space" "ms_currentPos s + n" "ms_at s"]
      by (simp add: space_def)
    with ip show ?thesis by blast
  qed
qed

section \<open>Refinement of the flat byte list\<close>

text \<open>What is left to read.\<close>

definition ms_rest :: "memstream \<Rightarrow> byte list" where
  "ms_rest s = drop (ms_currentPos s) (ms_bytes s)"

text \<open>Appending: the cursor is at the end, as it is on a stream that was only written to.\<close>

definition ms_at_end :: "memstream \<Rightarrow> bool" where
  "ms_at_end s \<longleftrightarrow> ms_currentPos s = ms_length s"

lemma ms_new_empty: "ms_bytes (ms_new c) = [] \<and> ms_at_end (ms_new c)"
  by (simp add: ms_bytes_def ms_at_end_def ms_currentPos_def ms_new_def)

lemma currentPos_div:
  "ms_shape s \<Longrightarrow> ms_currentPos s div ms_chunk s = ms_index s \<and> ms_index s < ms_max s"
  by (auto simp: ms_currentPos_def ms_shape_def)

lemma ms_append:
  assumes "ms_inv s" "ms_at_end s" "ms_length s + length xs < 100 * ms_chunk s"
  shows "\<exists>t. ms_write s xs = Inr t \<and> ms_inv t \<and> ms_at_end t \<and> ms_chunk t = ms_chunk s \<and>
    ms_bytes t = ms_bytes s @ xs"
proof -
  from assms obtain t where t: "ms_write s xs = Inr t" "ms_shape t" "ms_chunk t = ms_chunk s"
    "ms_length t = ms_length s + length xs" "ms_max s \<le> ms_max t"
    "ms_currentPos t = ms_length s + length xs"
    "\<forall>k. ms_at t k = (if ms_length s \<le> k \<and> k < ms_length s + length xs
       then xs ! (k - ms_length s) else ms_at s k)"
    using ms_write_spec [of s xs] by (auto simp: ms_inv_def ms_at_end_def)
  have "ms_bytes t = ms_bytes s @ xs"
    using t(4,7) by (intro nth_equalityI) (auto simp: ms_bytes_def nth_append)
  moreover have "ms_inv t"
    using t(2,4,6) currentPos_div [of t] by (simp add: ms_inv_def)
  ultimately show ?thesis using t by (auto simp: ms_at_end_def)
qed

lemma ms_append_full:
  "ms_inv s \<Longrightarrow> ms_at_end s \<Longrightarrow> 100 * ms_chunk s \<le> ms_length s + length xs \<Longrightarrow>
   ms_write s xs = Inl Assertion_failed"
  using ms_write_full [of s xs] by (simp add: ms_inv_def ms_at_end_def)

lemma ms_seek_spec:
  assumes "ms_inv s" "i \<le> ms_length s"
  shows "ms_inv (ms_seek s i) \<and> ms_currentPos (ms_seek s i) = i \<and> ms_bytes (ms_seek s i) = ms_bytes s"
proof -
  have c: "0 < ms_chunk s" "ms_length s div ms_chunk s < ms_max s"
    using assms(1) by (auto simp: ms_inv_def ms_shape_def)
  have "i div ms_chunk s < ms_max s"
    using div_le_mono [OF assms(2), of "ms_chunk s"] c(2) by simp
  moreover have "ms_at (ms_seek s i) = ms_at s"
    by (rule ext, rule ms_at_cong) (simp_all add: ms_seek_def Let_def)
  ultimately show ?thesis using assms c
    by (auto simp: ms_inv_def ms_shape_def ms_seek_def ms_currentPos_def ms_bytes_def Let_def)
qed

text \<open>A read is the read of the flat list.\<close>

lemma ms_read_refines:
  assumes "ms_inv s" "n \<le> length (ms_rest s)"
  shows "\<exists>t. ms_read s n = Inr (take n (ms_rest s), t) \<and> ms_inv t \<and> ms_bytes t = ms_bytes s \<and>
    ms_rest t = drop n (ms_rest s) \<and> read_raw n (ms_rest s) = Inr (take n (ms_rest s), ms_rest t)"
proof (cases "n = 0")
  case True
  have "ms_pos s < ms_chunk s" using assms(1) by (simp add: ms_inv_def ms_shape_def)
  then have "ms_read s 0 = Inr ([], s)"
    using assms(1) by (simp add: ms_read.simps [of s 0] Let_def ms_fetch_def)
  with True assms(1) show ?thesis by (intro exI [of _ s]) (simp add: read_raw_def)
next
  case False
  with assms(2) have bound: "ms_currentPos s + n \<le> ms_length s"
    by (simp add: ms_rest_def ms_bytes_def)
  obtain i p where ip: "ms_read s n = Inr (map (ms_at s) [ms_currentPos s..<ms_currentPos s + n],
        s\<lparr>ms_index := i, ms_pos := p\<rparr>)" "ms_inv (s\<lparr>ms_index := i, ms_pos := p\<rparr>)"
     "ms_currentPos (s\<lparr>ms_index := i, ms_pos := p\<rparr>) = ms_currentPos s + n"
    using ms_read_spec [OF assms(1) bound] by blast
  let ?t = "s\<lparr>ms_index := i, ms_pos := p\<rparr>"
  have "ms_at ?t = ms_at s" by (rule ext, rule ms_at_cong) simp_all
  then have bytes: "ms_bytes ?t = ms_bytes s" by (simp add: ms_bytes_def)
  have "map (ms_at s) [ms_currentPos s..<ms_currentPos s + n] = take n (ms_rest s)"
    using bound by (simp add: ms_rest_def ms_bytes_def drop_map take_map)
  moreover have "ms_rest ?t = drop n (ms_rest s)"
    using bytes ip(3) by (simp add: ms_rest_def add.commute)
  ultimately show ?thesis using ip assms(2) bytes
    by (intro exI [of _ ?t]) (simp add: read_raw_def)
qed

lemma ms_readChar_skips:
  assumes s: "ms_inv s" "ms_pos s + 1 = ms_chunk s" "1 < ms_chunk s" "ms_currentPos s + 1 < ms_length s"
  shows "\<exists>t. ms_readChar s = Inr (ms_bytes s ! (ms_currentPos s + 1), t) \<and> ms_currentPos t = ms_currentPos s + 2"
proof -
  have shape: "ms_shape s" "ms_length s div ms_chunk s < ms_max s" "ms_max s \<le> 100" using s(1) by (auto simp: ms_inv_def ms_shape_def)
  have cur: "ms_currentPos s + 1 = (ms_index s + 1) * ms_chunk s" using s(2) by (simp add: ms_currentPos_def)
  have "(ms_index s + 1) * ms_chunk s \<le> ms_length s" using s(4) cur by simp
  then have "ms_index s + 1 \<le> ms_length s div ms_chunk s" using s(3) by (simp add: less_eq_div_iff_mult_less_eq)
  with shape have idx: "ms_index s + 1 < ms_max s" "ms_index s + 1 < 100" by simp_all
  let ?t = "s\<lparr>ms_index := ms_index s + 1, ms_pos := 0\<rparr>"
  have t: "ms_shape ?t" "ms_currentPos ?t = ms_currentPos s + 1" "ms_pos ?t + 1 \<le> ms_chunk ?t"
    using shape idx s cur by (simp_all add: ms_shape_def ms_currentPos_def)
  from ms_fetch_spec [OF t(1,3)] t(2) have "ms_fetch ?t 1 = Inr [ms_at ?t (ms_currentPos s + 1)]" by simp
  moreover have "ms_at ?t = ms_at s" by (rule ext, rule ms_at_cong) simp_all
  ultimately have "ms_readChar ?t = Inr (ms_bytes s ! (ms_currentPos s + 1), ?t\<lparr>ms_pos := 1\<rparr>)"
    using s(3,4) by (subst ms_readChar.simps) (simp add: ms_bytes_def)
  moreover have "ms_readChar s = ms_readChar ?t"
    using s(2,4) idx by (simp add: ms_readChar.simps [of s] ms_nextBuffer_def ms_currentPos_def)
  ultimately show ?thesis using t(2) by (intro exI [of _ "?t\<lparr>ms_pos := 1\<rparr>"]) (simp add: ms_currentPos_def)
qed

lemma concat_chunks:
  "concat (map (\<lambda>x. map f [x * c..<x * c + c]) [0..<m]) = map f [0..<m * c]"
proof (induction m)
  case (Suc m)
  have "map f [0..<m * c] @ map f [m * c..<m * c + c] = map f [0..<m * c + c]"
    by (rule map_upt_append) simp_all
  with Suc show ?case by (simp add: add.commute)
qed simp

lemma ms_toChars_spec:
  assumes "ms_inv s" "0 < ms_length s"
  shows "ms_toChars s = Inr (ms_bytes s)"
proof -
  have c: "0 < ms_chunk s" "ms_length s div ms_chunk s < ms_max s" and shape: "ms_shape s"
    using assms(1) by (auto simp: ms_inv_def ms_shape_def)
  define n where "n = (ms_length s + ms_chunk s - 1) div ms_chunk s"
  have up: "ms_length s + ms_chunk s - 1 = (ms_length s - 1) + ms_chunk s" using assms(2) by simp
  have nd: "n = (ms_length s - 1) div ms_chunk s + 1"
    unfolding n_def up by (rule div_add_self2) (use c(1) in simp)
  define m where "m = (ms_length s - 1) div ms_chunk s"
  have nm: "n = Suc m" using nd m_def by simp
  have low: "m * ms_chunk s \<le> ms_length s - 1"
    unfolding m_def by (rule div_times_less_eq_dividend)
  have high: "ms_length s - 1 < m * ms_chunk s + ms_chunk s"
    unfolding m_def using c(1) by (metis add.commute dividend_less_div_times)
  have "m \<le> ms_length s div ms_chunk s" unfolding m_def by (rule div_le_mono) simp
  with c(2) have mmax: "m < ms_max s" by simp
  have part: "ms_fetch (s\<lparr>ms_index := x, ms_pos := 0\<rparr>) k =
      Inr (map (ms_at s) [x * ms_chunk s..<x * ms_chunk s + k])"
    if "x \<le> m" "k \<le> ms_chunk s" for x k
  proof -
    let ?u = "s\<lparr>ms_index := x, ms_pos := 0\<rparr>"
    have "ms_shape ?u" using shape that mmax by (simp add: ms_shape_def)
    moreover have "ms_at ?u = ms_at s" by (rule ext, rule ms_at_cong) simp_all
    ultimately show ?thesis using ms_fetch_spec [of ?u k] that(2) by (simp add: ms_currentPos_def)
  qed
  have whole: "mapR (\<lambda>x. ms_fetch (s\<lparr>ms_index := x, ms_pos := 0\<rparr>) (ms_chunk s)) [0..<m] =
      Inr (map (\<lambda>x. map (ms_at s) [x * ms_chunk s..<x * ms_chunk s + ms_chunk s]) [0..<m])"
    by (rule mapR_Inr) (simp add: part)
  have tail: "ms_length s - ms_chunk s * m \<le> ms_chunk s"
    "m * ms_chunk s + (ms_length s - ms_chunk s * m) = ms_length s"
    using low high assms(2) by (simp_all add: mult.commute)
  show ?thesis
    unfolding ms_toChars_def Let_def n_def [symmetric] nm ms_bytes_def
    using whole part [of m, OF _ tail(1)] tail(2) low assms(2)
      map_upt_append [of 0 "m * ms_chunk s" "ms_length s" "ms_at s"]
    by (simp add: concat_chunks)
qed

lemma ms_toChars_empty: "0 < ms_chunk s \<Longrightarrow> ms_length s = 0 \<Longrightarrow> ms_toChars s = Inl Undefined_behaviour"
  by (simp add: ms_toChars_def)

lemma ms_reset_empty:
  "ms_inv s \<Longrightarrow> ms_inv (ms_reset s) \<and> ms_bytes (ms_reset s) = [] \<and> ms_at_end (ms_reset s)"
  by (auto simp: ms_inv_def ms_shape_def ms_reset_def ms_seek_def ms_bytes_def ms_at_end_def
      ms_currentPos_def)

text \<open>Several writes append in order.\<close>

fun ms_writes :: "memstream \<Rightarrow> byte list list \<Rightarrow> memstream res" where
  "ms_writes s [] = Inr s"
| "ms_writes s (xs # xss) = bindR (ms_write s xs) (\<lambda>t. ms_writes t xss)"

lemma ms_length_bytes [simp]: "length (ms_bytes s) = ms_length s"
  by (simp add: ms_bytes_def)

lemma ms_writes_spec:
  "ms_inv s \<Longrightarrow> ms_at_end s \<Longrightarrow> ms_length s + length (concat xss) < 100 * ms_chunk s \<Longrightarrow>
   \<exists>t. ms_writes s xss = Inr t \<and> ms_inv t \<and> ms_at_end t \<and> ms_chunk t = ms_chunk s \<and>
     ms_bytes t = ms_bytes s @ concat xss"
proof (induction xss arbitrary: s)
  case (Cons xs xss)
  then obtain t where t: "ms_write s xs = Inr t" "ms_inv t" "ms_at_end t" "ms_chunk t = ms_chunk s"
    "ms_bytes t = ms_bytes s @ xs"
    using ms_append [of s xs] by auto
  have "ms_length t = ms_length s + length xs"
    using arg_cong [OF t(5), of length] by simp
  with Cons t show ?case by (force dest: Cons.IH [of t])
qed simp

end
