(* ===== verification/Network_Streams.thy ===== *)
theory Network_Streams
  imports Memory_Stream Std_Map
begin

text \<open>
  The two ends of a connection: NetworkInputStream and NetworkOutputStream (filesystem/networkinputstream.cpp,
  networkoutputstream.cpp) over what the sockets do, and the streams that the server keeps for each socket
  (network/networkserver.cpp). The bytes of a connection arrive in pieces of any size; what is read does not
  depend on them.
\<close>

section \<open>Reading from a socket\<close>

text \<open>
  What the next select and recv on a socket give: bytes (none when the other side has closed it), a
  failure or a timeout of select, or a failure of recv. Nothing more to come is a timeout.
\<close>

datatype socket_event = Received "byte list" | Select_fails | Recv_fails

text \<open>ni_buffer has the bytes that recv put into the buffer; ni_size is _bufferSize.\<close>

record net_in =
  ni_socket :: "socket_event list"
  ni_buffer :: "byte list"
  ni_pos :: nat
  ni_size :: int
  ni_open :: bool

definition new_input :: "socket_event list \<Rightarrow> net_in" where
  "new_input events = \<lparr>ni_socket = events, ni_buffer = [], ni_pos = 0, ni_size = 0, ni_open = True\<rparr>"

definition ni_close :: "net_in \<Rightarrow> net_in" where
  "ni_close s = s\<lparr>ni_open := False\<rparr>"

text \<open>recv takes at most STREAM_BUFFER_SIZE bytes, the others stay in the socket.\<close>

definition recv :: "byte list \<Rightarrow> byte list \<times> byte list" where
  "recv xs = (if int (length xs) \<le> 100000 then (xs, []) else (take 100000 xs, drop 100000 xs))"

text \<open>A result less than 0 is False. On a socket that was closed, select fails.\<close>

definition fillBuffer :: "net_in \<Rightarrow> bool \<times> net_in" where
  "fillBuffer s =
     (let s = s\<lparr>ni_buffer := []\<rparr> in
      if \<not> ni_open s then (False, s)
      else (case ni_socket s of
          [] \<Rightarrow> (False, ni_close s)
        | Select_fails # events \<Rightarrow> (False, ni_close (s\<lparr>ni_socket := events\<rparr>))
        | Recv_fails # events \<Rightarrow> (False, ni_close (s\<lparr>ni_socket := events, ni_pos := 0, ni_size := - 1\<rparr>))
        | Received xs # events \<Rightarrow>
            (let (got, left) = recv xs;
                 s = s\<lparr>ni_socket := (if left = [] then events else Received left # events),
                       ni_buffer := got, ni_pos := 0, ni_size := int (length got)\<rparr> in
             if got = [] then (False, ni_close s) else (True, s))))"

definition waitAvailable :: "net_in \<Rightarrow> bool \<times> net_in" where
  "waitAvailable s = (if int (ni_pos s) \<ge> ni_size s then fillBuffer s else (True, s))"

definition checkStatus :: "net_in \<Rightarrow> bool \<times> net_in" where
  "checkStatus s = (if ni_open s then (case waitAvailable s of (ok, s) \<Rightarrow> (ok, if ok then s else ni_close s)) else (True, s))"

definition net_isClosed :: "net_in \<Rightarrow> bool \<times> net_in" where
  "net_isClosed s = (case checkStatus s of (_, s) \<Rightarrow> (\<not> ni_open s, s))"

definition net_available :: "net_in \<Rightarrow> int" where
  "net_available s = ni_size s - int (ni_pos s)"

lemma waitAvailable_True: "waitAvailable s = (True, t) \<Longrightarrow> int (ni_pos t) < ni_size t"
  by (auto simp: waitAvailable_def fillBuffer_def recv_def Let_def split: if_splits list.splits socket_event.splits)

text \<open>The loop of readBufferData: a failure after the first wait is an assertion.\<close>

function read_loop :: "nat \<Rightarrow> net_in \<Rightarrow> (byte list \<times> net_in) res" where
  "read_loop n s =
     (if n = 0 then Inr ([], s)
      else case waitAvailable s of
          (False, _) \<Rightarrow> Inl Assertion_failed
        | (True, s) \<Rightarrow>
            (let k = min n (nat (ni_size s - int (ni_pos s))) in
             bindR (read_loop (n - k) (s\<lparr>ni_pos := ni_pos s + k\<rparr>)) (\<lambda>(xs, t).
             Inr (take k (drop (ni_pos s) (ni_buffer s)) @ xs, t))))"
  by pat_completeness auto
termination
  by (relation "measure fst") (auto dest!: waitAvailable_True [OF sym])
declare read_loop.simps [simp del]

text \<open>None: the result is -1 and nothing was stored.\<close>

definition readBufferData :: "nat \<Rightarrow> net_in \<Rightarrow> (byte list option \<times> net_in) res" where
  "readBufferData n s = (case checkStatus s of
     (False, s) \<Rightarrow> Inr (None, s)
   | (True, s) \<Rightarrow> bindR (read_loop n s) (\<lambda>(xs, s). Inr (Some xs, s)))"

text \<open>readChars with a length fills the result with zeros first; the numbers are read through it (readData).\<close>

definition net_raw :: "nat \<Rightarrow> net_in \<Rightarrow> (byte list \<times> net_in) res" where
  "net_raw n s = bindR (readBufferData n s) (\<lambda>(r, s).
     Inr (case r of Some xs \<Rightarrow> xs | None \<Rightarrow> replicate n (CHR 0x00), s))"

text \<open>A char or a double that was not stored is not initialised.\<close>

definition net_stored :: "nat \<Rightarrow> net_in \<Rightarrow> (byte list \<times> net_in) res" where
  "net_stored n s = bindR (readBufferData n s) (\<lambda>(r, s).
     case r of Some xs \<Rightarrow> Inr (xs, s) | None \<Rightarrow> Inl Undefined_behaviour)"

definition net_readChar :: "net_in \<Rightarrow> (byte \<times> net_in) res" where
  "net_readChar s = bindR (net_stored 1 s) (\<lambda>(xs, s). Inr (hd xs, s))"

definition net_readDouble :: "net_in \<Rightarrow> (int64 \<times> net_in) res" where
  "net_readDouble s = bindR (net_stored 8 s) (\<lambda>(xs, s). Inr (of_nat (le_value xs), s))"

definition net_readBoolean :: "net_in \<Rightarrow> (bool \<times> net_in) res" where
  "net_readBoolean s = bindR (net_raw 1 s) (\<lambda>(xs, s). Inr (le_value xs \<noteq> 0, s))"

definition net_readInt :: "net_in \<Rightarrow> (int32 \<times> net_in) res" where
  "net_readInt s = bindR (net_raw 4 s) (\<lambda>(xs, s). Inr (of_nat (le_value xs), s))"

definition net_readLong :: "net_in \<Rightarrow> (int64 \<times> net_in) res" where
  "net_readLong s = bindR (net_raw 8 s) (\<lambda>(xs, s). Inr (of_nat (le_value xs), s))"

definition net_readChars :: "net_in \<Rightarrow> (string \<times> net_in) res" where
  "net_readChars s = bindR (net_readInt s) (\<lambda>(len, s).
     if 0 < sint len then net_raw (nat (sint len)) s else Inr ([], s))"

definition net_readString :: "net_in \<Rightarrow> (string \<times> net_in) res" where
  "net_readString s = bindR (net_readChars s) (\<lambda>(c, s). Inr (c_str c, s))"

section \<open>Writing to a socket\<close>

text \<open>no_sent has the bytes that the socket took.\<close>

record net_out =
  no_buffer :: memstream
  no_sent :: "byte list"

definition new_output :: net_out where
  "new_output = \<lparr>no_buffer = ms_new 2048, no_sent = []\<rparr>"

definition net_put :: "byte list list \<Rightarrow> net_out \<Rightarrow> net_out res" where
  "net_put xss s = bindR (ms_writes (no_buffer s) xss) (\<lambda>b. Inr (s\<lparr>no_buffer := b\<rparr>))"

text \<open>writeData writes the bytes of a number one by one.\<close>

definition writeData :: "byte list \<Rightarrow> net_out \<Rightarrow> net_out res" where
  "writeData xs s = net_put (map (\<lambda>c. [c]) xs) s"

definition net_writeChar :: "byte \<Rightarrow> net_out \<Rightarrow> net_out res" where
  "net_writeChar v s = net_put [[v]] s"

definition net_writeBoolean :: "bool \<Rightarrow> net_out \<Rightarrow> net_out res" where
  "net_writeBoolean v s = writeData (write_boolean v) s"

definition net_writeInt :: "int32 \<Rightarrow> net_out \<Rightarrow> net_out res" where
  "net_writeInt v s = writeData (write_int v) s"

definition net_writeLong :: "int64 \<Rightarrow> net_out \<Rightarrow> net_out res" where
  "net_writeLong v s = writeData (write_long v) s"

definition net_writeDouble :: "int64 \<Rightarrow> net_out \<Rightarrow> net_out res" where
  "net_writeDouble v s = net_put [write_double v] s"

definition net_writeChars :: "string \<Rightarrow> net_out \<Rightarrow> net_out res" where
  "net_writeChars txt s = net_put (map (\<lambda>c. [c]) (write_int (of_nat (length txt))) @ [txt]) s"

text \<open>The writeString of a memory stream goes by strlen.\<close>

definition net_writeString :: "string \<Rightarrow> net_out \<Rightarrow> net_out res" where
  "net_writeString txt s = net_writeChars (c_str txt) s"

text \<open>
  The socket takes a part of the bytes or fails. What it did not take is dropped: the result of send is
  compared with 0 only.
\<close>

definition net_flush :: "(nat \<Rightarrow> nat option) \<Rightarrow> net_out \<Rightarrow> net_out res" where
  "net_flush send s =
     (let n = ms_size (no_buffer s) in
      if n > 0 then
        bindR (ms_toChars (no_buffer s)) (\<lambda>xs.
        case send n of
          None \<Rightarrow> Inl (Djondb_exception 0 ''send'')
        | Some k \<Rightarrow> Inr (s\<lparr>no_buffer := ms_reset (no_buffer s), no_sent := no_sent s @ take k xs\<rparr>))
      else Inr (s\<lparr>no_buffer := ms_reset (no_buffer s)\<rparr>))"

text \<open>No function calls checkBuffer.\<close>

definition checkBuffer :: "(nat \<Rightarrow> nat option) \<Rightarrow> net_out \<Rightarrow> net_out res" where
  "checkBuffer send s = (if int (ms_size (no_buffer s)) > 1024 then net_flush send s else Inr s)"

section \<open>Any pieces give the same bytes\<close>

text \<open>The stream has the bytes xs to come, in any pieces, before the other events.\<close>

definition feeds :: "net_in \<Rightarrow> byte list \<Rightarrow> socket_event list \<Rightarrow> bool" where
  "feeds s xs events \<longleftrightarrow> ni_open s \<and> ni_size s = int (length (ni_buffer s)) \<and> ni_pos s \<le> length (ni_buffer s) \<and>
     (\<exists>pieces. ni_socket s = map Received pieces @ events \<and> [] \<notin> set pieces \<and>
        xs = drop (ni_pos s) (ni_buffer s) @ concat pieces)"

lemma feeds_new: "[] \<notin> set pieces \<Longrightarrow> feeds (new_input (map Received pieces @ events)) (concat pieces) events"
  by (auto simp: feeds_def new_input_def)

lemma wait_feeds:
  assumes s: "feeds s xs events" "xs \<noteq> []"
  obtains t where "waitAvailable s = (True, t)" "feeds t xs events" "ni_pos t < length (ni_buffer t)"
proof (cases "ni_pos s < length (ni_buffer s)")
  case True
  with s(1) that [of s] show ?thesis by (simp add: waitAvailable_def feeds_def)
next
  case False
  from s(1) obtain pieces where p: "ni_socket s = map Received pieces @ events" "[] \<notin> set pieces"
    "xs = drop (ni_pos s) (ni_buffer s) @ concat pieces" "ni_open s" "ni_size s = int (length (ni_buffer s))"
    "ni_pos s \<le> length (ni_buffer s)" by (auto simp: feeds_def)
  from False p s(2) obtain piece more where pieces: "pieces = piece # more" "xs = piece @ concat more" by (cases pieces) auto
  obtain got left where r: "recv piece = (got, left)" by (cases "recv piece")
  then have split: "got @ left = piece" "got \<noteq> []" using p(2) pieces(1) by (auto simp: recv_def split: if_splits)
  define t where "t = s\<lparr>ni_socket := (if left = [] then map Received more @ events else Received left # map Received more @ events),
      ni_buffer := got, ni_pos := 0, ni_size := int (length got)\<rparr>"
  have "waitAvailable s = (True, t)"
    using False p pieces r split by (simp add: waitAvailable_def fillBuffer_def t_def Let_def)
  moreover have "feeds t xs events"
  proof -
    let ?pieces = "if left = [] then more else left # more"
    have "ni_socket t = map Received ?pieces @ events" by (simp add: t_def)
    moreover have "[] \<notin> set ?pieces" using p(2) pieces(1) by auto
    moreover have "xs = drop (ni_pos t) (ni_buffer t) @ concat ?pieces" using pieces(2) split(1) by (auto simp: t_def)
    moreover have "ni_open t" "ni_size t = int (length (ni_buffer t))" "ni_pos t \<le> length (ni_buffer t)"
      using p(4) by (simp_all add: t_def)
    ultimately show ?thesis unfolding feeds_def by blast
  qed
  moreover have "ni_pos t < length (ni_buffer t)" using split(2) by (simp add: t_def)
  ultimately show ?thesis by (rule that)
qed

lemma feeds_step:
  assumes u: "feeds u xs events" "ni_pos u < length (ni_buffer u)" and k: "k \<le> length (ni_buffer u) - ni_pos u"
  shows "feeds (u\<lparr>ni_pos := ni_pos u + k\<rparr>) (drop k xs) events" "k \<le> length xs"
    "take k (drop (ni_pos u) (ni_buffer u)) = take k xs"
proof -
  let ?v = "u\<lparr>ni_pos := ni_pos u + k\<rparr>"
  from u(1) obtain pieces where p: "ni_socket u = map Received pieces @ events" "[] \<notin> set pieces"
    "xs = drop (ni_pos u) (ni_buffer u) @ concat pieces" "ni_open u" "ni_size u = int (length (ni_buffer u))"
    by (auto simp: feeds_def)
  have "drop k xs = drop (ni_pos ?v) (ni_buffer ?v) @ concat pieces" using p(3) k by (simp add: add.commute)
  with p u(2) k show "feeds ?v (drop k xs) events" by (auto simp: feeds_def)
  show "k \<le> length xs" "take k (drop (ni_pos u) (ni_buffer u)) = take k xs" using p(3) k by simp_all
qed

lemma read_loop_feeds:
  "feeds s xs events \<Longrightarrow> n \<le> length xs \<Longrightarrow> \<exists>t. read_loop n s = Inr (take n xs, t) \<and> feeds t (drop n xs) events"
proof (induction n arbitrary: s xs rule: less_induct)
  case (less n)
  show ?case
  proof (cases "n = 0")
    case True
    with less.prems show ?thesis by (simp add: read_loop.simps)
  next
    case False
    with less.prems have "xs \<noteq> []" by auto
    from wait_feeds [OF less.prems(1) this] obtain u where
      u: "waitAvailable s = (True, u)" "feeds u xs events" "ni_pos u < length (ni_buffer u)" .
    define k where "k = min n (length (ni_buffer u) - ni_pos u)"
    let ?v = "u\<lparr>ni_pos := ni_pos u + k\<rparr>"
    have k: "0 < k" "k \<le> n" "k \<le> length (ni_buffer u) - ni_pos u" using False u(3) by (auto simp: k_def)
    note v = feeds_step [OF u(2,3) k(3)]
    have "n - k \<le> length (drop k xs)" using less.prems(2) by simp
    with v(1) obtain t where t: "read_loop (n - k) ?v = Inr (take (n - k) (drop k xs), t)"
      "feeds t (drop (n - k) (drop k xs)) events" using less.IH [of "n - k" ?v "drop k xs"] k False by auto
    have "nat (ni_size u - int (ni_pos u)) = length (ni_buffer u) - ni_pos u" using u(2) by (simp add: feeds_def)
    then have "read_loop n s = Inr (take k xs @ take (n - k) (drop k xs), t)"
      using False u(1) t(1) v(3) by (simp add: read_loop.simps [of n s] Let_def k_def [symmetric])
    moreover have "take k xs @ take (n - k) (drop k xs) = take n xs" using k(2) by (metis le_add_diff_inverse take_add)
    ultimately show ?thesis using t(2) k(2) by simp
  qed
qed

lemma read_feeds:
  assumes s: "feeds s (xs @ r) events" and xs: "xs \<noteq> []"
  shows "\<exists>t. readBufferData (length xs) s = Inr (Some xs, t) \<and> feeds t r events"
proof -
  have "xs @ r \<noteq> []" using xs by simp
  from wait_feeds [OF s this] obtain u where u: "waitAvailable s = (True, u)" "feeds u (xs @ r) events" .
  then have "checkStatus s = (True, u)" using s by (auto simp: checkStatus_def feeds_def)
  moreover from read_loop_feeds [OF u(2), of "length xs"] obtain t where
    "read_loop (length xs) u = Inr (xs, t)" "feeds t r events" by auto
  ultimately show ?thesis by (simp add: readBufferData_def)
qed

lemma raw_feeds:
  assumes "feeds s (xs @ r) events" "xs \<noteq> []"
  obtains t where "net_raw (length xs) s = Inr (xs, t)" "net_stored (length xs) s = Inr (xs, t)" "feeds t r events"
  using read_feeds [OF assms] by (auto simp: net_raw_def net_stored_def)

section \<open>Values over a connection\<close>

datatype net_item = NChar byte | NBool bool | NInt int32 | NLong int64 | NDouble int64 | NChars string | NString string

datatype net_kind = Char_kind | Bool_kind | Int_kind | Long_kind | Double_kind | Chars_kind | String_kind

primrec item_kind :: "net_item \<Rightarrow> net_kind" where
  "item_kind (NChar v) = Char_kind"
| "item_kind (NBool v) = Bool_kind"
| "item_kind (NInt v) = Int_kind"
| "item_kind (NLong v) = Long_kind"
| "item_kind (NDouble v) = Double_kind"
| "item_kind (NChars v) = Chars_kind"
| "item_kind (NString v) = String_kind"

primrec net_write :: "net_item \<Rightarrow> net_out \<Rightarrow> net_out res" where
  "net_write (NChar v) s = net_writeChar v s"
| "net_write (NBool v) s = net_writeBoolean v s"
| "net_write (NInt v) s = net_writeInt v s"
| "net_write (NLong v) s = net_writeLong v s"
| "net_write (NDouble v) s = net_writeDouble v s"
| "net_write (NChars v) s = net_writeChars v s"
| "net_write (NString v) s = net_writeString v s"

primrec net_read :: "net_kind \<Rightarrow> net_in \<Rightarrow> (net_item \<times> net_in) res" where
  "net_read Char_kind s = bindR (net_readChar s) (\<lambda>(v, s). Inr (NChar v, s))"
| "net_read Bool_kind s = bindR (net_readBoolean s) (\<lambda>(v, s). Inr (NBool v, s))"
| "net_read Int_kind s = bindR (net_readInt s) (\<lambda>(v, s). Inr (NInt v, s))"
| "net_read Long_kind s = bindR (net_readLong s) (\<lambda>(v, s). Inr (NLong v, s))"
| "net_read Double_kind s = bindR (net_readDouble s) (\<lambda>(v, s). Inr (NDouble v, s))"
| "net_read Chars_kind s = bindR (net_readChars s) (\<lambda>(v, s). Inr (NChars v, s))"
| "net_read String_kind s = bindR (net_readString s) (\<lambda>(v, s). Inr (NString v, s))"

primrec item_bytes :: "net_item \<Rightarrow> byte list" where
  "item_bytes (NChar v) = [v]"
| "item_bytes (NBool v) = write_boolean v"
| "item_bytes (NInt v) = write_int v"
| "item_bytes (NLong v) = write_long v"
| "item_bytes (NDouble v) = write_double v"
| "item_bytes (NChars v) = write_chars v"
| "item_bytes (NString v) = write_chars v"

primrec item_ok :: "net_item \<Rightarrow> bool" where
  "item_ok (NChar v) \<longleftrightarrow> True"
| "item_ok (NBool v) \<longleftrightarrow> True"
| "item_ok (NInt v) \<longleftrightarrow> True"
| "item_ok (NLong v) \<longleftrightarrow> True"
| "item_ok (NDouble v) \<longleftrightarrow> True"
| "item_ok (NChars v) \<longleftrightarrow> int32_size (length v)"
| "item_ok (NString v) \<longleftrightarrow> int32_size (length v) \<and> no_nul v"

lemma number_bytes: "(of_nat (le_value (write_int v)) :: int32) = v" "(of_nat (le_value (write_long w)) :: int64) = w"
  "(of_nat (le_value (write_double w)) :: int64) = w"
  using unsigned_less [of v, where ?'a = nat] unsigned_less [of w, where ?'a = nat]
  by (simp_all add: write_int_def write_long_def write_double_def)

lemma int_feeds:
  assumes "feeds s (write_int v @ r) events"
  obtains t where "net_readInt s = Inr (v, t)" "feeds t r events"
proof -
  have "length (write_int v) = 4" "write_int v \<noteq> []" by (simp_all add: write_int_def)
  with raw_feeds [OF assms] obtain t where t: "net_raw 4 s = Inr (write_int v, t)" "feeds t r events" by metis
  with that show ?thesis by (simp add: net_readInt_def number_bytes)
qed

lemma chars_feeds:
  assumes s: "feeds s (write_chars txt @ r) events" and small: "int32_size (length txt)"
  obtains t where "net_readChars s = Inr (txt, t)" "feeds t r events"
proof -
  have len: "sint (of_nat (length txt) :: int32) = int (length txt)" using small by (simp add: int32_size_def signed_of_nat signed_take_bit_int_eq_self)
  from s have "feeds s (write_int (of_nat (length txt)) @ (txt @ r)) events" by (simp add: write_chars_def)
  from int_feeds [OF this] obtain u where u: "net_readInt s = Inr (of_nat (length txt), u)" "feeds u (txt @ r) events" .
  show ?thesis
  proof (cases "txt = []")
    case True
    with u len that [of u] show ?thesis by (simp add: net_readChars_def)
  next
    case False
    from raw_feeds [OF u(2) False] obtain t where "net_raw (length txt) u = Inr (txt, t)" "feeds t r events" .
    with u(1) len False that [of t] show ?thesis by (simp add: net_readChars_def)
  qed
qed

lemma item_feeds:
  assumes "feeds s (item_bytes item @ r) events" "item_ok item"
  shows "\<exists>t. net_read (item_kind item) s = Inr (item, t) \<and> feeds t r events"
proof (cases item)
  case (NChar v)
  with assms have s: "feeds s ([v] @ r) events" by simp
  from raw_feeds [OF s] obtain t where "net_stored 1 s = Inr ([v], t)" "feeds t r events"
    by (metis One_nat_def length_Cons list.size(3) list.distinct(1))
  with NChar show ?thesis by (simp add: net_readChar_def)
next
  case (NBool v)
  with assms have s: "feeds s (write_boolean v @ r) events" by simp
  have "length (write_boolean v) = 1" "write_boolean v \<noteq> []" by (simp_all add: write_boolean_def)
  with raw_feeds [OF s] obtain t where t: "net_raw 1 s = Inr (write_boolean v, t)" "feeds t r events" by metis
  have "(le_value (write_boolean v) \<noteq> 0) = v" by (simp add: write_boolean_def)
  with t NBool show ?thesis by (simp add: net_readBoolean_def)
next
  case (NInt v)
  with assms obtain t where "net_readInt s = Inr (v, t)" "feeds t r events" by (auto elim: int_feeds)
  with NInt show ?thesis by simp
next
  case (NLong v)
  with assms have s: "feeds s (write_long v @ r) events" by simp
  have "length (write_long v) = 8" "write_long v \<noteq> []" by (simp_all add: write_long_def)
  with raw_feeds [OF s] obtain t where t: "net_raw 8 s = Inr (write_long v, t)" "feeds t r events" by metis
  with NLong show ?thesis by (simp add: net_readLong_def number_bytes)
next
  case (NDouble v)
  with assms have s: "feeds s (write_double v @ r) events" by simp
  have "length (write_double v) = 8" "write_double v \<noteq> []" by (simp_all add: write_double_def)
  with raw_feeds [OF s] obtain t where t: "net_stored 8 s = Inr (write_double v, t)" "feeds t r events" by metis
  with NDouble show ?thesis by (simp add: net_readDouble_def number_bytes)
next
  case (NChars v)
  with assms obtain t where "net_readChars s = Inr (v, t)" "feeds t r events" by (auto elim: chars_feeds)
  with NChars show ?thesis by simp
next
  case (NString v)
  with assms obtain t where "net_readChars s = Inr (v, t)" "feeds t r events" by (auto elim: chars_feeds)
  with NString assms show ?thesis by (simp add: net_readString_def)
qed

primrec net_writes :: "net_item list \<Rightarrow> net_out \<Rightarrow> net_out res" where
  "net_writes [] s = Inr s"
| "net_writes (item # items) s = bindR (net_write item s) (net_writes items)"

primrec net_reads :: "net_kind list \<Rightarrow> net_in \<Rightarrow> (net_item list \<times> net_in) res" where
  "net_reads [] s = Inr ([], s)"
| "net_reads (kind # kinds) s = bindR (net_read kind s) (\<lambda>(item, s).
     bindR (net_reads kinds s) (\<lambda>(items, s). Inr (item # items, s)))"

lemma items_feeds:
  "feeds s (concat (map item_bytes items) @ r) events \<Longrightarrow> \<forall>item\<in>set items. item_ok item \<Longrightarrow>
   \<exists>t. net_reads (map item_kind items) s = Inr (items, t) \<and> feeds t r events"
proof (induction items arbitrary: s)
  case (Cons item items)
  then have "feeds s (item_bytes item @ (concat (map item_bytes items) @ r)) events" "item_ok item" by simp_all
  from item_feeds [OF this] obtain u where u: "net_read (item_kind item) s = Inr (item, u)"
    "feeds u (concat (map item_bytes items) @ r) events" by blast
  with Cons.IH [OF u(2)] Cons.prems(2) show ?case by auto
qed auto

section \<open>What is written is sent\<close>

definition out_ok :: "net_out \<Rightarrow> byte list \<Rightarrow> bool" where
  "out_ok s xs \<longleftrightarrow> ms_inv (no_buffer s) \<and> ms_at_end (no_buffer s) \<and> ms_chunk (no_buffer s) = 2048 \<and> ms_bytes (no_buffer s) = xs"

lemma out_new: "out_ok new_output []"
  using ms_new_inv [of 2048] ms_new_empty [of 2048] by (simp add: out_ok_def new_output_def ms_new_def)

lemma put_ok:
  assumes "out_ok s xs" "length xs + length (concat yss) < 204800"
  shows "\<exists>t. net_put yss s = Inr t \<and> out_ok t (xs @ concat yss) \<and> no_sent t = no_sent s"
proof -
  have "ms_length (no_buffer s) = length xs" using assms(1) ms_length_bytes [of "no_buffer s"] by (simp add: out_ok_def)
  with assms have s: "ms_inv (no_buffer s)" "ms_at_end (no_buffer s)" "ms_chunk (no_buffer s) = 2048" "ms_bytes (no_buffer s) = xs"
    "ms_length (no_buffer s) + length (concat yss) < 100 * ms_chunk (no_buffer s)" by (simp_all add: out_ok_def)
  from ms_writes_spec [OF s(1,2,5)] obtain b where b: "ms_writes (no_buffer s) yss = Inr b" "ms_inv b" "ms_at_end b"
    "ms_chunk b = ms_chunk (no_buffer s)" "ms_bytes b = ms_bytes (no_buffer s) @ concat yss" by blast
  then have "net_put yss s = Inr (s\<lparr>no_buffer := b\<rparr>)" by (simp add: net_put_def)
  with b s show ?thesis by (simp add: out_ok_def)
qed

lemma concat_single: "concat (map (\<lambda>c. [c]) xs) = xs"
  by (induction xs) simp_all

lemma write_ok:
  assumes "out_ok s xs" "item_ok item" "length xs + length (item_bytes item) < 204800"
  shows "\<exists>t. net_write item s = Inr t \<and> out_ok t (xs @ item_bytes item) \<and> no_sent t = no_sent s"
proof (cases item)
  case (NChar v)
  with put_ok [OF assms(1), of "[[v]]"] assms(3) show ?thesis by (auto simp: net_writeChar_def)
next
  case (NBool v)
  with put_ok [OF assms(1), of "map (\<lambda>c. [c]) (write_boolean v)"] assms(3) show ?thesis
    by (simp add: net_writeBoolean_def writeData_def concat_single)
next
  case (NInt v)
  with put_ok [OF assms(1), of "map (\<lambda>c. [c]) (write_int v)"] assms(3) show ?thesis
    by (simp add: net_writeInt_def writeData_def concat_single)
next
  case (NLong v)
  with put_ok [OF assms(1), of "map (\<lambda>c. [c]) (write_long v)"] assms(3) show ?thesis
    by (simp add: net_writeLong_def writeData_def concat_single)
next
  case (NDouble v)
  with put_ok [OF assms(1), of "[write_double v]"] assms(3) show ?thesis by (simp add: net_writeDouble_def)
next
  case (NChars v)
  with put_ok [OF assms(1), of "map (\<lambda>c. [c]) (write_int (of_nat (length v))) @ [v]"] assms(3) show ?thesis
    by (simp add: net_writeChars_def concat_single write_chars_def)
next
  case (NString v)
  with put_ok [OF assms(1), of "map (\<lambda>c. [c]) (write_int (of_nat (length v))) @ [v]"] assms(2,3) show ?thesis
    by (simp add: net_writeString_def net_writeChars_def concat_single write_chars_def)
qed

lemma writes_ok:
  "out_ok s xs \<Longrightarrow> \<forall>item\<in>set items. item_ok item \<Longrightarrow> length xs + length (concat (map item_bytes items)) < 204800 \<Longrightarrow>
   \<exists>t. net_writes items s = Inr t \<and> out_ok t (xs @ concat (map item_bytes items)) \<and> no_sent t = no_sent s"
proof (induction items arbitrary: s xs)
  case (Cons item items)
  have "length xs + length (item_bytes item) < 204800" using Cons.prems(3) by simp
  with write_ok [OF Cons.prems(1)] Cons.prems(2) obtain u where
    u: "net_write item s = Inr u" "out_ok u (xs @ item_bytes item)" "no_sent u = no_sent s" by auto
  with Cons.IH [OF u(2)] Cons.prems(2,3) show ?case by simp
qed auto

lemma flush_ok:
  assumes "out_ok s xs"
  shows "net_flush send s = (if xs = [] then Inr (s\<lparr>no_buffer := ms_reset (no_buffer s)\<rparr>) else
      case send (length xs) of None \<Rightarrow> Inl (Djondb_exception 0 ''send'')
      | Some k \<Rightarrow> Inr (s\<lparr>no_buffer := ms_reset (no_buffer s), no_sent := no_sent s @ take k xs\<rparr>))"
    and "out_ok (s\<lparr>no_buffer := ms_reset (no_buffer s), no_sent := ys\<rparr>) []"
proof -
  have n: "ms_length (no_buffer s) = length xs" using assms ms_length_bytes [of "no_buffer s"] by (simp add: out_ok_def)
  have "ms_toChars (no_buffer s) = Inr xs" if "xs \<noteq> []"
    using ms_toChars_spec [of "no_buffer s"] assms that n by (simp add: out_ok_def)
  with n show "net_flush send s = (if xs = [] then Inr (s\<lparr>no_buffer := ms_reset (no_buffer s)\<rparr>) else
      case send (length xs) of None \<Rightarrow> Inl (Djondb_exception 0 ''send'')
      | Some k \<Rightarrow> Inr (s\<lparr>no_buffer := ms_reset (no_buffer s), no_sent := no_sent s @ take k xs\<rparr>))"
    by (simp add: net_flush_def ms_size_def Let_def)
  show "out_ok (s\<lparr>no_buffer := ms_reset (no_buffer s), no_sent := ys\<rparr>) []"
    using assms ms_reset_empty [of "no_buffer s"] by (simp add: out_ok_def ms_reset_def ms_seek_def Let_def)
qed

lemma items_sent: "items \<noteq> [] \<Longrightarrow> concat (map item_bytes items) \<noteq> []"
proof (cases items)
  case (Cons item more)
  then show ?thesis
    by (cases item) (simp_all add: write_boolean_def write_int_def write_long_def write_double_def write_chars_def)
qed simp

lemma writes_sent:
  assumes "\<forall>item\<in>set items. item_ok item" "length (concat (map item_bytes items)) < 204800" "items \<noteq> []"
  shows "\<exists>out. bindR (net_writes items new_output) (net_flush Some) = Inr out \<and> no_sent out = concat (map item_bytes items)"
proof -
  let ?xs = "concat (map item_bytes items)"
  from writes_ok [OF out_new assms(1)] assms(2) obtain s where
    s: "net_writes items new_output = Inr s" "out_ok s ?xs" "no_sent s = []" by (auto simp: new_output_def)
  have "net_flush Some s = Inr (s\<lparr>no_buffer := ms_reset (no_buffer s), no_sent := no_sent s @ take (length ?xs) ?xs\<rparr>)"
    unfolding flush_ok(1) [OF s(2)] if_not_P [OF items_sent [OF assms(3)]] option.case by (rule refl)
  with s(1,3) show ?thesis by simp
qed

section \<open>A connection that ends\<close>

text \<open>Nothing more comes: the other side has closed the connection, or select or recv fail.\<close>

definition lost :: "socket_event list \<Rightarrow> bool" where
  "lost events \<longleftrightarrow> (case events of Received (x # xs) # _ \<Rightarrow> False | _ \<Rightarrow> True)"

lemma feeds_nothing:
  assumes "feeds s [] events" "lost events"
  obtains t where "waitAvailable s = (False, t)" "\<not> ni_open t" "ni_open s"
proof -
  from assms obtain pieces where p: "ni_socket s = map Received pieces @ events" "[] \<notin> set pieces" "concat pieces = []"
    "ni_open s" "ni_size s = int (length (ni_buffer s))" "length (ni_buffer s) \<le> ni_pos s" by (auto simp: feeds_def)
  from p(2,3) have "pieces = []" by (cases pieces) auto
  moreover have "\<exists>t. fillBuffer s = (False, t) \<and> \<not> ni_open t" if "ni_socket s = events"
    using assms(2) that p(4)
    by (auto simp: fillBuffer_def lost_def recv_def ni_close_def Let_def neq_Nil_conv split: list.splits socket_event.splits)
  ultimately show ?thesis using p that by (auto simp: waitAvailable_def)
qed

lemma read_loop_short:
  "feeds s xs events \<Longrightarrow> lost events \<Longrightarrow> length xs < n \<Longrightarrow> read_loop n s = Inl Assertion_failed"
proof (induction n arbitrary: s xs rule: less_induct)
  case (less n)
  show ?case
  proof (cases "xs = []")
    case True
    with less.prems(1) have "feeds s [] events" by simp
    from feeds_nothing [OF this less.prems(2)] obtain t where "waitAvailable s = (False, t)" .
    with less.prems(3) show ?thesis by (simp add: read_loop.simps [of n s])
  next
    case False
    from wait_feeds [OF less.prems(1) this] obtain u where
      u: "waitAvailable s = (True, u)" "feeds u xs events" "ni_pos u < length (ni_buffer u)" .
    define k where "k = min n (length (ni_buffer u) - ni_pos u)"
    let ?v = "u\<lparr>ni_pos := ni_pos u + k\<rparr>"
    have k: "0 < k" "k \<le> n" "k \<le> length (ni_buffer u) - ni_pos u" using less.prems(3) u(3) by (auto simp: k_def)
    from feeds_step [OF u(2,3) k(3)] have v: "feeds ?v (drop k xs) events" "k \<le> length xs" by simp_all
    then have "length (drop k xs) < n - k" using less.prems(3) by simp
    then have "read_loop (n - k) ?v = Inl Assertion_failed" using less.IH [of "n - k" ?v "drop k xs"] v less.prems k by simp
    moreover have "nat (ni_size u - int (ni_pos u)) = length (ni_buffer u) - ni_pos u" using u(2) by (simp add: feeds_def)
    ultimately show ?thesis using less.prems(3) u(1) by (simp add: read_loop.simps [of n s] Let_def k_def [symmetric])
  qed
qed

lemma raw_short:
  assumes "feeds s xs events" "lost events" "length xs < n"
  shows "xs \<noteq> [] \<Longrightarrow> net_raw n s = Inl Assertion_failed"
    and "xs = [] \<Longrightarrow> \<exists>t. net_raw n s = Inr (replicate n (CHR 0x00), t) \<and> \<not> ni_open t"
proof -
  show "net_raw n s = Inl Assertion_failed" if "xs \<noteq> []"
  proof -
    from wait_feeds [OF assms(1) that] obtain u where u: "waitAvailable s = (True, u)" "feeds u xs events" .
    with assms(1) have "checkStatus s = (True, u)" by (auto simp: checkStatus_def feeds_def)
    with read_loop_short [OF u(2) assms(2,3)] show ?thesis by (simp add: net_raw_def readBufferData_def)
  qed
  show "\<exists>t. net_raw n s = Inr (replicate n (CHR 0x00), t) \<and> \<not> ni_open t" if "xs = []"
  proof -
    from assms(1) that have "feeds s [] events" by simp
    from feeds_nothing [OF this assms(2)] obtain t where "waitAvailable s = (False, t)" "\<not> ni_open t" "ni_open s" .
    then show ?thesis by (simp add: net_raw_def readBufferData_def checkStatus_def ni_close_def)
  qed
qed

lemma feeds_not_closed:
  assumes "feeds s xs events" "xs \<noteq> []"
  obtains t where "net_isClosed s = (False, t)" "feeds t xs events"
proof -
  from wait_feeds [OF assms] obtain t where t: "waitAvailable s = (True, t)" "feeds t xs events" .
  with assms(1) have "net_isClosed s = (False, t)" by (simp add: net_isClosed_def checkStatus_def feeds_def)
  with t(2) show ?thesis by (intro that)
qed

text \<open>The start of readCommand: a closed stream gives a null command, which the caller uses.\<close>

definition read_version :: "net_in \<Rightarrow> (string \<times> net_in) res" where
  "read_version s = (case net_isClosed s of (closed, s) \<Rightarrow> if closed then Inl Undefined_behaviour else net_readString s)"

text \<open>A number or a text of which only a part arrives stops the process.\<close>

lemma string_short:
  assumes "feeds s xs events" "lost events" "xs \<noteq> []" "length xs < 4"
  shows "net_readString s = Inl Assertion_failed" "read_version s = Inl Assertion_failed"
proof -
  have "net_readString s = Inl Assertion_failed" if "feeds s xs events" for s
    using raw_short(1) [OF that assms(2) _ assms(3)] assms(4)
    by (simp add: net_readString_def net_readChars_def net_readInt_def)
  moreover from feeds_not_closed [OF assms(1,3)] obtain t where "net_isClosed s = (False, t)" "feeds t xs events" .
  ultimately show "net_readString s = Inl Assertion_failed" "read_version s = Inl Assertion_failed"
    using assms(1) by (auto simp: read_version_def)
qed

section \<open>The streams of the server\<close>

text \<open>The two maps of NetworkServer from sockets to streams.\<close>

record net_server =
  ns_inputs :: "(nat, net_in) std_map"
  ns_outputs :: "(nat, net_out) std_map"

text \<open>The events are those of a socket that has no streams yet. False is the result -1.\<close>

definition createStreams :: "nat \<Rightarrow> socket_event list \<Rightarrow> net_server \<Rightarrow> (bool \<times> net_server) res" where
  "createStreams sock events srv =
     bindR (case map_find (ns_inputs srv) sock of
         None \<Rightarrow> Inr (new_input events, new_output)
       | Some nis \<Rightarrow> (case map_find (ns_outputs srv) sock of
             None \<Rightarrow> Inl Undefined_behaviour | Some nos \<Rightarrow> Inr (nis, nos))) (\<lambda>(nis, nos).
     case net_isClosed nis of (closed, nis) \<Rightarrow>
       Inr (if closed then (False, srv\<lparr>ns_inputs := map_erase sock (ns_inputs srv), ns_outputs := map_erase sock (ns_outputs srv)\<rparr>)
            else (True, srv\<lparr>ns_inputs := map_put sock nis (ns_inputs srv), ns_outputs := map_put sock nos (ns_outputs srv)\<rparr>)))"

text \<open>The callback changes the two streams and the rest of the process; its result is not looked at.\<close>

definition process_socket ::
    "(net_in \<times> net_out \<times> 'a \<Rightarrow> (net_in \<times> net_out \<times> 'a) res) \<Rightarrow> nat \<Rightarrow> socket_event list \<Rightarrow> net_server \<times> 'a \<Rightarrow>
     (bool \<times> net_server \<times> 'a) res" where
  "process_socket callback sock events = (\<lambda>(srv, a).
     bindR (createStreams sock events srv) (\<lambda>(ok, srv).
     if \<not> ok then Inr (False, srv, a)
     else (case (map_find (ns_inputs srv) sock, map_find (ns_outputs srv) sock) of
         (Some nis, Some nos) \<Rightarrow>
           bindR (callback (nis, nos, a)) (\<lambda>(nis, nos, a).
           Inr (True, srv\<lparr>ns_inputs := map_put sock nis (ns_inputs srv), ns_outputs := map_put sock nos (ns_outputs srv)\<rparr>, a))
       | _ \<Rightarrow> Inl Undefined_behaviour)))"

text \<open>
  The pass over the sockets with bytes left in their buffers; a socket whose streams are removed there
  invalidates the iterator.
\<close>

fun process_pending ::
    "(net_in \<times> net_out \<times> 'a \<Rightarrow> (net_in \<times> net_out \<times> 'a) res) \<Rightarrow> nat list \<Rightarrow> net_server \<times> 'a \<Rightarrow> (net_server \<times> 'a) res" where
  "process_pending callback [] s = Inr s"
| "process_pending callback (sock # socks) s =
     (case map_find (ns_inputs (fst s)) sock of
        None \<Rightarrow> Inl Undefined_behaviour
      | Some nis \<Rightarrow>
          if net_available nis > 0 then
            bindR (process_socket callback sock [] s) (\<lambda>(ok, s).
            if ok then process_pending callback socks s else Inl Undefined_behaviour)
          else process_pending callback socks s)"

definition server_ok :: "net_server \<Rightarrow> bool" where
  "server_ok srv \<longleftrightarrow> map_sorted (ns_inputs srv) \<and> map_sorted (ns_outputs srv) \<and>
     fst ` set (ns_inputs srv) = fst ` set (ns_outputs srv)"

text \<open>The first bytes of a new socket reach the callback, whatever their pieces; a socket that closes leaves no streams.\<close>

lemma process_new_socket:
  assumes srv: "server_ok srv" "map_find (ns_inputs srv) sock = None" and xs: "[] \<notin> set pieces" "pieces \<noteq> []"
  shows "\<exists>nis. feeds nis (concat pieces) events \<and>
    process_socket callback sock (map Received pieces @ events) (srv, a) =
      bindR (callback (nis, new_output, a)) (\<lambda>(nis, nos, a).
        Inr (True, srv\<lparr>ns_inputs := map_put sock nis (ns_inputs srv), ns_outputs := map_put sock nos (ns_outputs srv)\<rparr>, a))"
proof -
  have "concat pieces \<noteq> []" using xs by (cases pieces) auto
  from feeds_not_closed [OF feeds_new [OF xs(1)] this] obtain t where
    t: "net_isClosed (new_input (map Received pieces @ events)) = (False, t)" "feeds t (concat pieces) events" .
  with srv show ?thesis
    by (intro exI [of _ t]) (simp add: process_socket_def createStreams_def server_ok_def map_put_put split: prod.splits)
qed

lemma process_truncated:
  assumes srv: "server_ok srv" "map_find (ns_inputs srv) sock = None" and xs: "[] \<notin> set pieces" "pieces \<noteq> []"
    and short: "length (concat pieces) < 4" "lost events"
  shows "process_socket (\<lambda>(nis, nos, a). bindR (read_version nis) (\<lambda>(v, nis). go v (nis, nos, a))) sock
    (map Received pieces @ events) (srv, a) = Inl Assertion_failed"
proof -
  have "concat pieces \<noteq> []" using xs by (cases pieces) auto
  moreover from process_new_socket [OF srv xs, of events
      "\<lambda>(nis, nos, a). bindR (read_version nis) (\<lambda>(v, nis). go v (nis, nos, a))" a] obtain nis where
    "feeds nis (concat pieces) events" "process_socket (\<lambda>(nis, nos, a). bindR (read_version nis) (\<lambda>(v, nis). go v (nis, nos, a))) sock
      (map Received pieces @ events) (srv, a) = bindR (bindR (read_version nis) (\<lambda>(v, nis). go v (nis, new_output, a)))
      (\<lambda>(nis, nos, a). Inr (True, srv\<lparr>ns_inputs := map_put sock nis (ns_inputs srv), ns_outputs := map_put sock nos (ns_outputs srv)\<rparr>, a))"
    by auto
  ultimately show ?thesis using short by (simp add: string_short)
qed

lemma process_closed_socket:
  assumes "map_find (ns_inputs srv) sock = None"
  shows "process_socket callback sock (Received [] # events) (srv, a) =
    Inr (False, srv\<lparr>ns_inputs := map_erase sock (ns_inputs srv), ns_outputs := map_erase sock (ns_outputs srv)\<rparr>, a)"
  using assms by (simp add: process_socket_def createStreams_def net_isClosed_def checkStatus_def waitAvailable_def
      fillBuffer_def new_input_def recv_def ni_close_def)

end
