(* ===== verification/Commands.thy ===== *)
theory Commands
  imports Bson_Codec
begin

text \<open>
  The client protocol (command/): one constructor per command class, CommandWriter and
  CommandReader, and the results that go back. What the commands execute is in Server.
\<close>

section \<open>Commands\<close>

text \<open>The body of a command holds what its class sets; the filter and the columns may be null.\<close>

datatype command_body =
    InsertCommand string string bson
  | UpdateCommand string string bson
  | FindCommand string string "string option" "string option"
  | CloseCommand
  | DropnamespaceCommand string string
  | ShutdownCommand
  | ShowdbsCommand
  | ShownamespacesCommand string
  | RemoveCommand string string string string
  | CommitCommand string
  | RollbackCommand string

record command =
  command_options :: "bson option"
  command_body :: command_body

fun commandType :: "command_body \<Rightarrow> nat" where
  "commandType (InsertCommand _ _ _) = 0"
| "commandType (UpdateCommand _ _ _) = 1"
| "commandType (FindCommand _ _ _ _) = 2"
| "commandType CloseCommand = 3"
| "commandType (DropnamespaceCommand _ _) = 4"
| "commandType ShutdownCommand = 5"
| "commandType ShowdbsCommand = 6"
| "commandType (ShownamespacesCommand _) = 7"
| "commandType (RemoveCommand _ _ _ _) = 8"
| "commandType (CommitCommand _) = 9"
| "commandType (RollbackCommand _) = 10"

definition insert_bytes :: "string \<Rightarrow> string \<Rightarrow> bson \<Rightarrow> byte list res" where
  "insert_bytes db ns bson = Inr (write_string db @ write_string ns @ writeBSON bson)"

definition update_bytes :: "string \<Rightarrow> string \<Rightarrow> bson \<Rightarrow> byte list res" where
  "update_bytes db ns bson = Inr (write_string db @ write_string ns @ writeBSON bson)"

text \<open>A missing filter is sent as the empty text; missing columns are a null pointer.\<close>

definition find_bytes :: "string \<Rightarrow> string \<Rightarrow> string option \<Rightarrow> string option \<Rightarrow> byte list res" where
  "find_bytes db ns flt select =
     (case select of
        None \<Rightarrow> Inl Undefined_behaviour
      | Some sel \<Rightarrow> Inr (write_string db @ write_string ns @
          write_string (case flt of Some f \<Rightarrow> f | None \<Rightarrow> []) @ write_string sel))"

definition dropnamespace_bytes :: "string \<Rightarrow> string \<Rightarrow> byte list res" where
  "dropnamespace_bytes db ns = Inr (write_string db @ write_string ns)"

definition shownamespaces_bytes :: "string \<Rightarrow> byte list res" where
  "shownamespaces_bytes db = Inr (write_string db)"

definition remove_bytes :: "string \<Rightarrow> string \<Rightarrow> string \<Rightarrow> string \<Rightarrow> byte list res" where
  "remove_bytes db ns rid rev_no =
     Inr (write_string db @ write_string ns @ write_string rid @ write_string rev_no)"

definition commit_bytes :: "string \<Rightarrow> byte list res" where
  "commit_bytes txId = Inr (write_string txId)"

definition rollback_bytes :: "string \<Rightarrow> byte list res" where
  "rollback_bytes txId = Inr (write_string txId)"

lemmas body_bytes [simp] = insert_bytes_def update_bytes_def find_bytes_def dropnamespace_bytes_def
  shownamespaces_bytes_def remove_bytes_def commit_bytes_def rollback_bytes_def

fun write_body :: "command_body \<Rightarrow> byte list res" where
  "write_body (InsertCommand db ns bson) = insert_bytes db ns bson"
| "write_body (UpdateCommand db ns bson) = update_bytes db ns bson"
| "write_body (FindCommand db ns flt select) = find_bytes db ns flt select"
| "write_body CloseCommand = Inr []"
| "write_body (DropnamespaceCommand db ns) = dropnamespace_bytes db ns"
| "write_body ShutdownCommand = Inr []"
| "write_body ShowdbsCommand = Inr []"
| "write_body (ShownamespacesCommand db) = shownamespaces_bytes db"
| "write_body (RemoveCommand db ns rid rev_no) = remove_bytes db ns rid rev_no"
| "write_body (CommitCommand txId) = commit_bytes txId"
| "write_body (RollbackCommand txId) = rollback_bytes txId"

definition writeCommand :: "command \<Rightarrow> byte list res" where
  "writeCommand cmd = bindR (write_body (command_body cmd)) (\<lambda>body.
     Inr (write_string ''0.3.0'' @ write_int (of_nat (commandType (command_body cmd))) @
       writeBSON (case command_options cmd of Some o1 \<Rightarrow> o1 | None \<Rightarrow> []) @ body))"

section \<open>CommandReader\<close>

definition read_two :: "(string \<Rightarrow> string \<Rightarrow> 'a reader) \<Rightarrow> 'a reader" where
  "read_two f = rbind read_string (\<lambda>a. rbind read_string (\<lambda>b. f a b))"

definition parseInsert :: "command_body reader" where
  "parseInsert = read_two (\<lambda>db ns. rbind (readBSON ''*'') (\<lambda>obj. rreturn (InsertCommand db ns obj)))"

definition parseUpdate :: "command_body reader" where
  "parseUpdate = read_two (\<lambda>db ns. rbind (readBSON ''*'') (\<lambda>obj. rreturn (UpdateCommand db ns obj)))"

definition parseFind :: "command_body reader" where
  "parseFind = read_two (\<lambda>db ns. read_two (\<lambda>flt select.
     rreturn (FindCommand db ns (Some flt) (Some select))))"

definition parseDropnamespace :: "command_body reader" where
  "parseDropnamespace = read_two (\<lambda>db ns. rreturn (DropnamespaceCommand db ns))"

definition parseShownamespaces :: "command_body reader" where
  "parseShownamespaces = rbind read_string (\<lambda>db. rreturn (ShownamespacesCommand db))"

definition parseRemove :: "command_body reader" where
  "parseRemove = read_two (\<lambda>db ns. read_two (\<lambda>rid rev_no. rreturn (RemoveCommand db ns rid rev_no)))"

definition parseCommit :: "command_body reader" where
  "parseCommit = rbind read_string (\<lambda>txId. rreturn (CommitCommand txId))"

definition parseRollback :: "command_body reader" where
  "parseRollback = rbind read_string (\<lambda>txId. rreturn (RollbackCommand txId))"

definition readOptions :: "bson reader" where
  "readOptions = readBSON ''*''"

lemmas [simp] = readOptions_def

text \<open>An unknown type leaves the command null, and its options are set before the assertion.\<close>

definition read_body :: "int32 \<Rightarrow> command_body reader" where
  "read_body type =
     (if type = 0 then parseInsert
      else if type = 1 then parseUpdate
      else if type = 2 then parseFind
      else if type = 4 then parseDropnamespace
      else if type = 5 then rreturn ShutdownCommand
      else if type = 3 then rreturn CloseCommand
      else if type = 6 then rreturn ShowdbsCommand
      else if type = 7 then parseShownamespaces
      else if type = 8 then parseRemove
      else if type = 9 then parseCommit
      else if type = 10 then parseRollback
      else rfail Undefined_behaviour)"

text \<open>Clients before 0.3.0 send no options. The comparison is the one of the Version class.\<close>

definition readCommand :: "bool \<Rightarrow> command option reader" where
  "readCommand isClosed =
     (if isClosed then rreturn None
      else rbind read_string (\<lambda>sversion.
           rbind (rlift (parse_version sversion)) (\<lambda>version.
           rbind read_int (\<lambda>type.
           rbind (rlift (parse_version ''0.3.0'')) (\<lambda>v030.
           rbind (if version_ge version v030 then readOptions else rreturn []) (\<lambda>options.
           rbind (read_body type) (\<lambda>body.
           rreturn (Some \<lparr>command_options = Some options, command_body = body\<rparr>))))))))"

section \<open>Results\<close>

text \<open>Lists of names (showdbs, shownamespaces), the code of dropnamespace, the documents of find.\<close>

definition write_names :: "string list \<Rightarrow> byte list" where
  "write_names results = write_int (of_nat (length results)) @ concat (map write_string results)"

definition read_names :: "string list reader" where
  "read_names = rbind read_int (\<lambda>results.
     rloop (nat (sint results)) (\<lambda>acc. rbind read_string (\<lambda>db. rreturn (acc @ [db]))) [])"

definition write_drop_result :: "bool \<Rightarrow> byte list" where
  "write_drop_result result = write_int (if result then 1 else 0)"

definition read_drop_result :: "bool reader" where
  "read_drop_result = rbind read_int (\<lambda>i. rreturn (i \<noteq> 0))"

section \<open>Round trips\<close>

definition text_ok :: "string \<Rightarrow> bool" where
  "text_ok s \<longleftrightarrow> no_nul s \<and> int32_size (length s)"

fun body_ok :: "command_body \<Rightarrow> bool" where
  "body_ok (InsertCommand db ns bson) = (text_ok db \<and> text_ok ns \<and> bson_ok bson)"
| "body_ok (UpdateCommand db ns bson) = (text_ok db \<and> text_ok ns \<and> bson_ok bson)"
| "body_ok (FindCommand db ns flt select) =
     (text_ok db \<and> text_ok ns \<and> pred_option text_ok flt \<and> (\<exists>s. select = Some s \<and> text_ok s))"
| "body_ok (DropnamespaceCommand db ns) = (text_ok db \<and> text_ok ns)"
| "body_ok (ShownamespacesCommand db) = text_ok db"
| "body_ok (RemoveCommand db ns rid rev_no) = (text_ok db \<and> text_ok ns \<and> text_ok rid \<and> text_ok rev_no)"
| "body_ok (CommitCommand txId) = text_ok txId"
| "body_ok (RollbackCommand txId) = text_ok txId"
| "body_ok _ = True"

definition command_ok :: "command \<Rightarrow> bool" where
  "command_ok cmd \<longleftrightarrow> body_ok (command_body cmd) \<and> pred_option bson_ok (command_options cmd)"

text \<open>What the reader cannot tell apart: a null filter from an empty one, null options from none.\<close>

fun normal_body :: "command_body \<Rightarrow> command_body" where
  "normal_body (FindCommand db ns flt select) =
     FindCommand db ns (Some (case flt of Some f \<Rightarrow> f | None \<Rightarrow> [])) select"
| "normal_body b = b"

definition normal_command :: "command \<Rightarrow> command" where
  "normal_command cmd = \<lparr>command_options = Some (case command_options cmd of Some o1 \<Rightarrow> o1 | None \<Rightarrow> []),
     command_body = normal_body (command_body cmd)\<rparr>"

lemma read_text [simp]: "text_ok s \<Longrightarrow> read_string (write_string s @ r) = Inr (s, r)"
  by (simp add: text_ok_def)

lemma text_ok_Nil [simp]: "text_ok []"
  by (simp add: text_ok_def no_nul_def int32_size_def)

lemmas parse_defs = parseInsert_def parseUpdate_def parseFind_def parseDropnamespace_def
  parseShownamespaces_def parseRemove_def parseCommit_def parseRollback_def read_two_def

lemma read_body_write:
  "body_ok b \<Longrightarrow> \<exists>bytes. write_body b = Inr bytes \<and>
     read_body (of_nat (commandType b)) (bytes @ r) = Inr (normal_body b, r)"
  by (cases b) (auto simp: read_body_def parse_defs rbind_Inr readBSON_star rreturn_def
      split: option.splits)

lemma bson_ok_Nil [simp]: "bson_ok []"
  by (simp add: bson_ok_def int32_size_def)

lemma parse_current: "parse_version ''0.3.0'' =
   Inr \<lparr>version_text = ''0.3.0'', mayor = 0, minor = 3, revision = 0\<rparr>"
  by (simp add: parse_version_def split_def strtok_def c_str_def Let_def)

lemma text_ok_current: "text_ok ''0.3.0''"
  by (simp add: text_ok_def no_nul_def int32_size_def)

lemma readCommand_gate:
  assumes "text_ok sv" "parse_version sv = Inr v" "body_ok b" "write_body b = Inr bytes"
  shows "\<not> version_ge v \<lparr>version_text = ''0.3.0'', mayor = 0, minor = 3, revision = 0\<rparr> \<Longrightarrow>
      readCommand False (write_string sv @ write_int (of_nat (commandType b)) @ bytes @ r) =
        Inr (Some \<lparr>command_options = Some [], command_body = normal_body b\<rparr>, r)"
    and "version_ge v \<lparr>version_text = ''0.3.0'', mayor = 0, minor = 3, revision = 0\<rparr> \<Longrightarrow> bson_ok o1 \<Longrightarrow>
      readCommand False (write_string sv @ write_int (of_nat (commandType b)) @ writeBSON o1 @ bytes @ r) =
        Inr (Some \<lparr>command_options = Some o1, command_body = normal_body b\<rparr>, r)"
  using assms read_body_write [OF assms(3), of r]
  by (auto simp: readCommand_def rbind_Inr rlift_def parse_current readBSON_star rreturn_def)

lemma readCommand_write:
  assumes "command_ok cmd"
  shows "\<exists>bytes. writeCommand cmd = Inr bytes \<and>
    readCommand False (bytes @ r) = Inr (Some (normal_command cmd), r)"
proof -
  let ?b = "command_body cmd" and ?o = "case command_options cmd of Some o1 \<Rightarrow> o1 | None \<Rightarrow> []"
  have body: "body_ok ?b" and opts: "bson_ok ?o"
    using assms by (auto simp: command_ok_def split: option.split)
  obtain bytes where bytes: "write_body ?b = Inr bytes" using read_body_write [OF body] by blast
  have "readCommand False (write_string ''0.3.0'' @ write_int (of_nat (commandType ?b)) @
      writeBSON ?o @ bytes @ r) =
      Inr (Some \<lparr>command_options = Some ?o, command_body = normal_body ?b\<rparr>, r)"
    by (rule readCommand_gate(2) [OF text_ok_current parse_current body bytes _ opts])
      (simp add: version_defs)
  with bytes show ?thesis by (simp add: writeCommand_def normal_command_def)
qed

lemma read_names_write:
  assumes "int32_size (length xs)" "\<forall>x\<in>set xs. text_ok x"
  shows "read_names (write_names xs @ r) = Inr (xs, r)"
proof -
  have "sint (of_nat (length xs) :: int32) = int (length xs)"
    using assms(1) by (simp add: int32_size_def signed_of_nat signed_take_bit_int_eq_self)
  moreover have "rloop (length xs) (\<lambda>acc. rbind read_string (\<lambda>db. rreturn (acc @ [db]))) []
      (concat (map write_string xs) @ r) = Inr ([] @ xs, r)"
    using assms(2) by (intro string_codec.dec_many) (simp add: text_ok_def)
  ultimately show ?thesis by (simp add: read_names_def write_names_def rbind_Inr)
qed

interpretation names_codec: record_codec write_names read_names
  "\<lambda>xs. int32_size (length xs) \<and> (\<forall>x\<in>set xs. text_ok x)"
  by unfold_locales (simp_all add: read_names_write, simp add: write_names_def)

text \<open>The drop result is sent as an int and read back into a bool.\<close>

interpretation drop_result_codec: record_codec write_drop_result read_drop_result "\<lambda>_. True"
  by unfold_locales (simp_all add: write_drop_result_def read_drop_result_def rbind_Inr rreturn_def)

end
