(* ===== verification/Stream_Manager.thy ===== *)
theory Stream_Manager
  imports Bson_Codec
begin

text \<open>
  The files of the database: FileInputOutputStream (filesystem/fileinputoutputstream.cpp), the
  versioned DBFileStream over it (db/dbfilestream.cpp) and StreamManager (db/streammanager.cpp), which
  owns the open streams and the catalog djondb.dat that a restart reads (DBController::initialize).
\<close>

section \<open>State\<close>

datatype file_type = DATA_FTYPE | STRC_FTYPE | INDEX_FTYPE

fun ftype_code :: "file_type \<Rightarrow> nat" where
  "ftype_code DATA_FTYPE = 0"
| "ftype_code STRC_FTYPE = 1"
| "ftype_code INDEX_FTYPE = 2"

lemma ftype_code_inj: "ftype_code a = ftype_code b \<longleftrightarrow> a = b"
  by (cases a; cases b) auto

text \<open>std::map orders the enumerators.\<close>

instantiation file_type :: linorder
begin

definition less_eq_file_type :: "file_type \<Rightarrow> file_type \<Rightarrow> bool" where
  "less_eq_file_type a b \<longleftrightarrow> ftype_code a \<le> ftype_code b"

definition less_file_type :: "file_type \<Rightarrow> file_type \<Rightarrow> bool" where
  "less_file_type a b \<longleftrightarrow> ftype_code a < ftype_code b"

instance
  by standard (auto simp: less_eq_file_type_def less_file_type_def ftype_code_inj)

end

text \<open>
  A DBFileStream: the name of its file, the position of the file and the offset that it adds to
  positions. A stream is named by the database, the namespace and the type it is registered under;
  several streams may read and write one file, so the contents are kept by the name of the file.
\<close>

record db_stream =
  ds_path :: string
  ds_pos :: nat
  ds_offset :: nat
  ds_version :: version

type_synonym stream_id = "string \<times> string \<times> file_type"
type_synonym spaces = "(string, string, file_type) nested"

record stream_manager =
  sm_spaces :: spaces
  sm_streams :: "stream_id \<Rightarrow> db_stream option"
  sm_files :: "string \<Rightarrow> byte list option"
  sm_dataDir :: string
  sm_initializing :: bool

section \<open>FileInputOutputStream\<close>

text \<open>Reading at the end of the file leaves the zeros of the buffer; writing behind it fills the gap.\<close>

definition file_read :: "nat \<Rightarrow> nat \<Rightarrow> byte list \<Rightarrow> byte list \<times> nat" where
  "file_read n pos bs =
     (let got = take n (drop pos bs) in (got @ replicate (n - length got) (CHR 0x00), pos + length got))"

definition file_write :: "byte list \<Rightarrow> nat \<Rightarrow> byte list \<Rightarrow> byte list" where
  "file_write xs pos bs =
     take pos bs @ replicate (pos - length bs) (CHR 0x00) @ xs @ drop (pos + length xs) bs"

definition file_readInt :: "nat \<Rightarrow> byte list \<Rightarrow> int32 \<times> nat" where
  "file_readInt pos bs = (let (raw, pos) = file_read 4 pos bs in (of_nat (le_value raw), pos))"

definition file_readChars :: "nat \<Rightarrow> byte list \<Rightarrow> (string \<times> nat) res" where
  "file_readChars pos bs =
     (let (len, pos) = file_readInt pos bs in
      if sint len < 0 then Inl Undefined_behaviour else Inr (file_read (nat (sint len)) pos bs))"

section \<open>DBFileStream\<close>

definition version_mark :: "byte list" where
  "version_mark = write_chars ''djondb_dat'' @ write_chars ''0.300000000''"

text \<open>The constructor, on the contents of the file; it may write the mark.\<close>

definition new_db_stream :: "string \<Rightarrow> byte list \<Rightarrow> (db_stream \<times> byte list) res" where
  "new_db_stream path bs =
     bindR (file_readChars 0 bs) (\<lambda>(mark, pos).
     if c_str mark = ''djondb_dat'' then
       bindR (file_readChars pos bs) (\<lambda>(v, pos).
       bindR (parse_version (c_str v)) (\<lambda>v.
       Inr (\<lparr>ds_path = path, ds_pos = length bs, ds_offset = pos, ds_version = v\<rparr>, bs)))
     else
       bindR (parse_version ''0.300000000'') (\<lambda>v.
       let bs = file_write version_mark 0 bs in
       Inr (\<lparr>ds_path = path, ds_pos = length bs, ds_offset = 0, ds_version = v\<rparr>, bs)))"

definition ds_seek :: "nat \<Rightarrow> db_stream \<Rightarrow> db_stream" where
  "ds_seek i s = s\<lparr>ds_pos := ds_offset s + i\<rparr>"

text \<open>The position is never in front of the offset.\<close>

definition ds_currentPos :: "db_stream \<Rightarrow> nat" where
  "ds_currentPos s = ds_pos s - ds_offset s"

section \<open>StreamManager\<close>

fun ftype_ext :: "file_type \<Rightarrow> string" where
  "ftype_ext DATA_FTYPE = ''dat''"
| "ftype_ext STRC_FTYPE = ''stt''"
| "ftype_ext INDEX_FTYPE = ''idx''"

definition fileName :: "string \<Rightarrow> file_type \<Rightarrow> string" where
  "fileName ns type = c_str ns @ ''.'' @ ftype_ext type"

definition file_at :: "string \<Rightarrow> string \<Rightarrow> string \<Rightarrow> file_type \<Rightarrow> string" where
  "file_at dataDir db ns type = concatStrings (concatStrings dataDir db @ ''/'') (fileName ns type)"

definition sm_path :: "stream_manager \<Rightarrow> string \<Rightarrow> string \<Rightarrow> file_type \<Rightarrow> string" where
  "sm_path m = file_at (sm_dataDir m)"

definition space_bytes :: "string \<Rightarrow> string \<Rightarrow> file_type list \<Rightarrow> byte list" where
  "space_bytes db ns types =
     write_string db @ write_string ns @ write_int (of_nat (length types)) @
     concat (map (\<lambda>type. write_int (of_nat (ftype_code type))) types)"

definition catalog_bytes :: "spaces \<Rightarrow> byte list" where
  "catalog_bytes spaces =
     concat (map (\<lambda>(db, nss). concat (map (\<lambda>(ns, types). space_bytes db ns types) nss)) spaces)"

definition saveDatabases :: "stream_manager \<Rightarrow> stream_manager" where
  "saveDatabases m = m\<lparr>sm_files := (sm_files m)(sm_dataDir m @ ''djondb.dat'' \<mapsto> catalog_bytes (sm_spaces m))\<rparr>"

text \<open>
  The migration of files that are older than 0.120121216 is outside the model. Only a file with a mark
  has a version of its own.
\<close>

definition checkVersion :: "db_stream \<Rightarrow> unit res" where
  "checkVersion s = bindR (parse_version ''0.120121216'') (\<lambda>v.
     if version_lt (ds_version s) v then Inl Undefined_behaviour else Inr ())"

definition sm_open :: "string \<Rightarrow> string \<Rightarrow> file_type \<Rightarrow> stream_manager \<Rightarrow> stream_manager res" where
  "sm_open db ns type m =
     (let nss = nested_at (sm_spaces m) db;
          types = (case map_find nss ns of None \<Rightarrow> [] | Some types \<Rightarrow> types);
          m = m\<lparr>sm_spaces := map_insert db nss (sm_spaces m)\<rparr>;
          path = sm_path m db ns type in
      if type \<in> set types then Inr m
      else
        bindR (new_db_stream path (case sm_files m path of None \<Rightarrow> [] | Some bs \<Rightarrow> bs)) (\<lambda>(s, bs).
        bindR (checkVersion s) (\<lambda>_.
        let m = m\<lparr>sm_files := (sm_files m)(path \<mapsto> bs), sm_streams := (sm_streams m)((db, ns, type) \<mapsto> s),
              sm_spaces := map_put db (map_put ns (insort type types) nss) (sm_spaces m)\<rparr> in
        Inr (if sm_initializing m then m else saveDatabases m))))"

definition closeDatabases :: "stream_manager \<Rightarrow> stream_manager" where
  "closeDatabases m = (saveDatabases m)\<lparr>sm_streams := (\<lambda>_. None)\<rparr>"

definition sm_dbs :: "stream_manager \<Rightarrow> string list" where
  "sm_dbs m = map fst (sm_spaces m)"

text \<open>The name up to its last dot.\<close>

definition strip_ext :: "string \<Rightarrow> string" where
  "strip_ext key = (if CHR ''.'' \<in> set key then rev (tl (dropWhile (\<lambda>c. c \<noteq> CHR ''.'') (rev key))) else key)"

definition sm_namespaces :: "string \<Rightarrow> stream_manager \<Rightarrow> string list" where
  "sm_namespaces db m = (case map_find (sm_spaces m) db of None \<Rightarrow> [] | Some nss \<Rightarrow> map (\<lambda>(key, _). strip_ext key) nss)"

text \<open>The files are removed until one cannot be removed; the result is true all the same.\<close>

fun remove_files :: "string list \<Rightarrow> (string \<Rightarrow> byte list option) \<Rightarrow> string \<Rightarrow> byte list option" where
  "remove_files [] files = files"
| "remove_files (p # ps) files = (if files p = None then files else remove_files ps (files(p := None)))"

definition sm_dropNamespace :: "string \<Rightarrow> string \<Rightarrow> stream_manager \<Rightarrow> (bool \<times> stream_manager) res" where
  "sm_dropNamespace db ns m =
     bindR (sm_open db ns DATA_FTYPE m) (\<lambda>m.
     bindR (sm_open db ns INDEX_FTYPE m) (\<lambda>m.
     case map_find (sm_spaces m) db of
       None \<Rightarrow> Inr (False, m)
     | Some nss \<Rightarrow>
         (case map_find nss ns of
            None \<Rightarrow> Inr (False, m)
          | Some types \<Rightarrow>
              Inr (True, m\<lparr>sm_files := remove_files (map (sm_path m db ns) types) (sm_files m),
                sm_streams := (\<lambda>(d, n, type). if d = db \<and> n = ns then None else sm_streams m (d, n, type)),
                sm_spaces := map_put db (map_erase ns nss) (sm_spaces m)\<rparr>))))"

section \<open>DBController::initialize\<close>

definition data_dir :: "string \<Rightarrow> string" where
  "data_dir setting = (if setting \<noteq> [] \<and> \<not> endsWith setting ''/'' then setting @ ''/'' else [])"

definition ftype_of :: "int32 \<Rightarrow> file_type res" where
  "ftype_of code = (if code = 0 then Inr DATA_FTYPE else if code = 1 then Inr STRC_FTYPE
     else if code = 2 then Inr INDEX_FTYPE else Inl Undefined_behaviour)"

text \<open>
  The index that is made ready here belongs to Index_Factory; the migration of indexes that are older
  than 0.3 is outside the model.
\<close>

definition open_type :: "string \<Rightarrow> string \<Rightarrow> file_type \<Rightarrow> stream_manager \<Rightarrow> stream_manager res" where
  "open_type db ns type m =
     bindR (sm_open db ns type m) (\<lambda>m.
     if type = INDEX_FTYPE then
       bindR (sm_open db ns DATA_FTYPE m) (\<lambda>m.
       bindR (parse_version ''0.300000000'') (\<lambda>vindex.
       case sm_streams m (db, ns, DATA_FTYPE) of
         None \<Rightarrow> Inl Undefined_behaviour
       | Some dbstream \<Rightarrow> if version_lt (ds_version dbstream) vindex then Inl Undefined_behaviour else Inr m))
     else Inr m)"

primrec open_types :: "string \<Rightarrow> string \<Rightarrow> nat \<Rightarrow> stream_manager \<Rightarrow> stream_manager reader" where
  "open_types db ns 0 m = rreturn m"
| "open_types db ns (Suc n) m = rbind read_int (\<lambda>code.
     rbind (rlift (bindR (ftype_of code) (\<lambda>type. open_type db ns type m))) (open_types db ns n))"

text \<open>Every entry has its two names, so the length of the catalog bounds the rounds.\<close>

primrec load_catalog :: "nat \<Rightarrow> stream_manager \<Rightarrow> stream_manager reader" where
  "load_catalog 0 m = rfail No_fuel"
| "load_catalog (Suc n) m = (\<lambda>bs.
     if bs = [] then Inr (m, [])
     else rbind read_string (\<lambda>db. rbind read_string (\<lambda>ns. rbind read_int (\<lambda>streams.
       rbind (open_types db ns (nat (sint streams)) m) (load_catalog n)))) bs)"

definition initialize :: "string \<Rightarrow> stream_manager \<Rightarrow> stream_manager res" where
  "initialize dataDir m =
     (let m = m\<lparr>sm_dataDir := dataDir, sm_initializing := True\<rparr>;
          catalog = (case sm_files m (dataDir @ ''djondb.dat'') of None \<Rightarrow> [] | Some bs \<Rightarrow> bs) in
      bindR (load_catalog (Suc (length catalog)) m catalog) (\<lambda>(m, _). Inr (m\<lparr>sm_initializing := False\<rparr>)))"

text \<open>A process starts with no stream and finds the files.\<close>

definition sm_start :: "(string \<Rightarrow> byte list option) \<Rightarrow> stream_manager" where
  "sm_start files = \<lparr>sm_spaces = [], sm_streams = (\<lambda>_. None), sm_files = files, sm_dataDir = [], sm_initializing = False\<rparr>"

section \<open>Opening a file\<close>

definition v03 :: version where
  "v03 = \<lparr>version_text = ''0.300000000'', mayor = 0, minor = 300000000, revision = 0\<rparr>"

definition v012 :: version where
  "v012 = \<lparr>version_text = ''0.120121216'', mayor = 0, minor = 120121216, revision = 0\<rparr>"

lemma parse_versions:
  "parse_version ''0.300000000'' = Inr v03" "parse_version ''0.120121216'' = Inr v012"
  by (simp_all add: parse_version_def split_def strtok_def c_str_def Let_def v03_def v012_def)

lemma v03_current [simp]: "version_lt v03 v03 = False" "version_lt v03 v012 = False"
  by (simp_all add: version_lt_def v03_def v012_def)

lemma check_v03 [simp]: "ds_version s = v03 \<Longrightarrow> checkVersion s = Inr ()"
  by (simp add: checkVersion_def parse_versions)

declare length_write_chars [simp]

lemma length_version_mark [simp]: "length version_mark = 29"
  by (simp add: version_mark_def)

lemma file_readChars_at:
  assumes "int32_size (length s)"
  shows "file_readChars (length pre) (pre @ write_chars s @ r) = Inr (s, length pre + 4 + length s)"
proof -
  have "file_readInt (length pre) (pre @ write_int i @ r) = (i, length pre + 4)" for i :: int32 and r
    using read_write_int [of i "[]"]
    by (simp add: file_readInt_def file_read_def Let_def read_int_def rbind_def rreturn_def read_raw_def write_int_def)
  from this [of "of_nat (length s)" "s @ r"] assms show ?thesis
    by (simp add: file_readChars_def write_chars_def Let_def file_read_def int32_size_def signed_of_nat
        signed_take_bit_int_eq_self write_int_def)
qed

lemma open_marked:
  "new_db_stream path (version_mark @ rest) =
     Inr (\<lparr>ds_path = path, ds_pos = 29 + length rest, ds_offset = 29, ds_version = v03\<rparr>, version_mark @ rest)"
  using file_readChars_at [of "''djondb_dat''" "[]" "write_chars ''0.300000000'' @ rest"]
    file_readChars_at [of "''0.300000000''" "write_chars ''djondb_dat''" rest]
  by (simp add: new_db_stream_def version_mark_def int32_size_def c_str_def parse_versions)

lemma open_fresh:
  "new_db_stream path [] = Inr (\<lparr>ds_path = path, ds_pos = 29, ds_offset = 0, ds_version = v03\<rparr>, version_mark)"
  by (simp add: new_db_stream_def file_readChars_def file_readInt_def file_read_def parse_versions Let_def file_write_def
      c_str_def numeral_eq_Suc)

section \<open>A restart\<close>

definition name_ok :: "string \<Rightarrow> bool" where
  "name_ok s \<longleftrightarrow> no_nul s \<and> int32_size (length s)"

text \<open>Between the operations every namespace with an index file has a data file.\<close>

definition types_ok :: "file_type list \<Rightarrow> bool" where
  "types_ok types \<longleftrightarrow> types \<noteq> [] \<and> sorted types \<and> distinct types \<and> (INDEX_FTYPE \<in> set types \<longrightarrow> DATA_FTYPE \<in> set types)"

definition spaces_ok :: "spaces \<Rightarrow> bool" where
  "spaces_ok spaces \<longleftrightarrow> map_sorted spaces \<and> (\<forall>(db, nss)\<in>set spaces. name_ok db \<and> map_sorted nss \<and>
     (\<forall>(ns, types)\<in>set nss. name_ok ns \<and> types_ok types))"

definition entries :: "spaces \<Rightarrow> (string \<times> string \<times> file_type list) list" where
  "entries spaces = concat (map (\<lambda>(db, nss). map (\<lambda>(ns, types). (db, ns, types)) nss) spaces)"

text \<open>A file that this version wrote, or none.\<close>

definition openable :: "(string \<Rightarrow> byte list option) \<Rightarrow> string \<Rightarrow> bool" where
  "openable files path \<longleftrightarrow> files path = None \<or> (\<exists>rest. files path = Some (version_mark @ rest))"

text \<open>Opening streams creates files and leaves the others alone; the catalog is no file of a stream.\<close>

definition created :: "string \<Rightarrow> (string \<Rightarrow> byte list option) \<Rightarrow> (string \<Rightarrow> byte list option) \<Rightarrow> bool" where
  "created dataDir files files' \<longleftrightarrow> (\<forall>db ns type. let p = file_at dataDir db ns type in
     files' p = files p \<or> files p = None \<and> files' p = Some version_mark)"

lemma created_refl: "created dataDir files files"
  by (simp add: created_def)

lemma created_trans: "created dataDir a b \<Longrightarrow> created dataDir b c \<Longrightarrow> created dataDir a c"
  unfolding created_def Let_def by (metis option.distinct(1))

lemma created_there: "created dataDir a b \<Longrightarrow> a (file_at dataDir db ns type) \<noteq> None \<Longrightarrow> b (file_at dataDir db ns type) \<noteq> None"
  unfolding created_def Let_def by metis

lemma openable_created:
  "openable a (file_at dataDir db ns type) \<Longrightarrow> created dataDir a b \<Longrightarrow> openable b (file_at dataDir db ns type)"
  unfolding openable_def created_def Let_def by (metis append_Nil2)

lemma catalog_no_stream: "file_at dataDir db ns type \<noteq> dataDir @ ''djondb.dat''"
proof
  assume "file_at dataDir db ns type = dataDir @ ''djondb.dat''"
  then have "db @ CHR ''/'' # fileName ns type = ''djondb.dat''" by (simp add: file_at_def concatStrings_def)
  moreover have "CHR ''/'' \<in> set (db @ CHR ''/'' # fileName ns type)" by simp
  ultimately have "CHR ''/'' \<in> set ''djondb.dat''" by (simp only:)
  then show False by simp
qed

lemma created_save: "created (sm_dataDir m) files (sm_files m) \<Longrightarrow> created (sm_dataDir m) files (sm_files (saveDatabases m))"
  using catalog_no_stream [of "sm_dataDir m"] by (simp add: created_def saveDatabases_def Let_def)

lemma catalog_entries: "catalog_bytes spaces = concat (map (\<lambda>(db, ns, types). space_bytes db ns types) (entries spaces))"
  by (induction spaces) (auto simp: catalog_bytes_def entries_def comp_def split_def)

text \<open>
  While the catalog is read every registered stream is one on a file of this version, and the streams
  on files that were there before have their positions behind the mark.
\<close>

definition streams_ok :: "(string \<Rightarrow> byte list option) \<Rightarrow> stream_manager \<Rightarrow> bool" where
  "streams_ok files m \<longleftrightarrow> nested_sorted (sm_spaces m) \<and> created (sm_dataDir m) files (sm_files m) \<and>
     (\<forall>db ns. \<forall>type\<in>set (nested_get (sm_spaces m) db ns). \<exists>s. sm_streams m (db, ns, type) = Some s \<and>
        ds_version s = v03 \<and> (files (sm_path m db ns type) \<noteq> None \<longrightarrow> ds_offset s = 29))"

definition loading :: "(string \<Rightarrow> byte list option) \<Rightarrow> stream_manager \<Rightarrow> bool" where
  "loading files m \<longleftrightarrow> sm_initializing m \<and> streams_ok files m \<and>
     sm_files m (sm_dataDir m @ ''djondb.dat'') = files (sm_dataDir m @ ''djondb.dat'')"

lemmas loading_defs = loading_def streams_ok_def

lemma sm_open_known:
  assumes "nested_sorted (sm_spaces m)" "type \<in> set (nested_get (sm_spaces m) db ns)"
  shows "sm_open db ns type m = Inr m"
proof -
  obtain nss where f: "map_find (sm_spaces m) db = Some nss" "map_find nss ns = Some (nested_get (sm_spaces m) db ns)"
    using nested_get_in [of "sm_spaces m" db ns] assms(2) by fastforce
  have "m\<lparr>sm_spaces := sm_spaces m\<rparr> = m" by simp
  with f map_insert_there [of "sm_spaces m" db nss nss] assms(1) show ?thesis
    using assms(2) by (simp add: sm_open_def nested_sorted_def nested_at_def)
qed

text \<open>The state after a stream is opened for the first time, before the catalog is saved.\<close>

definition opened :: "string \<Rightarrow> string \<Rightarrow> file_type \<Rightarrow> stream_manager \<Rightarrow> stream_manager \<Rightarrow> bool" where
  "opened db ns type m m2 \<longleftrightarrow> sm_dataDir m2 = sm_dataDir m \<and> sm_initializing m2 = sm_initializing m \<and>
     sm_files m2 (sm_dataDir m @ ''djondb.dat'') = sm_files m (sm_dataDir m @ ''djondb.dat'') \<and>
     sm_files m2 (sm_path m db ns type) \<noteq> None \<and>
     (sm_files m (sm_path m db ns type) = None \<longrightarrow> (\<exists>s. sm_streams m2 (db, ns, type) = Some s \<and> ds_offset s = 0)) \<and>
     sm_spaces m2 = nested_put db ns (insort type (nested_get (sm_spaces m) db ns)) (sm_spaces m)"

lemma sm_open_new:
  assumes "streams_ok files m" "openable files (sm_path m db ns type)" "type \<notin> set (nested_get (sm_spaces m) db ns)"
  shows "\<exists>m2. sm_open db ns type m = Inr (if sm_initializing m then m2 else saveDatabases m2) \<and> streams_ok files m2 \<and>
    opened db ns type m m2 \<and> created (sm_dataDir m) (sm_files m) (sm_files m2)"
proof -
  let ?types = "nested_get (sm_spaces m) db ns" and ?path = "sm_path m db ns type"
  have sorted: "nested_sorted (sm_spaces m)" and created: "created (sm_dataDir m) files (sm_files m)"
    using assms(1) by (auto simp: streams_ok_def)
  define old where "old = (case sm_files m ?path of None \<Rightarrow> [] | Some bs \<Rightarrow> bs)"
  have open_now: "openable (sm_files m) ?path" 
    using openable_created [OF assms(2) [unfolded sm_path_def] created] by (simp add: sm_path_def)
  then obtain rest s where new: "new_db_stream ?path old = Inr (s, version_mark @ rest)" "ds_version s = v03"
    "sm_files m ?path \<noteq> None \<Longrightarrow> ds_offset s = 29 \<and> sm_files m ?path = Some (version_mark @ rest)"
    "sm_files m ?path = None \<Longrightarrow> rest = [] \<and> ds_offset s = 0"
    unfolding openable_def old_def using open_marked [of ?path] open_fresh [of ?path] by fastforce
  define m2 where "m2 = m\<lparr>sm_files := (sm_files m)(?path \<mapsto> version_mark @ rest), sm_streams := (sm_streams m)((db, ns, type) \<mapsto> s),
      sm_spaces := nested_put db ns (insort type ?types) (sm_spaces m)\<rparr>"
  define nss where "nss = nested_at (sm_spaces m) db"
  have types: "(case map_find nss ns of None \<Rightarrow> [] | Some types \<Rightarrow> types) = ?types"
    by (simp add: nss_def nested_get_def)
  have "map_put db w (map_insert db nss (sm_spaces m)) = map_put db w (sm_spaces m)" for w
    using sorted by (intro map_find_ext) (auto simp: nested_sorted_def map_sorted_insert map_find_insert)
  moreover have "sm_path (m\<lparr>sm_spaces := x\<rparr>) db ns type = ?path" for x by (simp add: sm_path_def)
  ultimately have "sm_open db ns type m = Inr (if sm_initializing m then m2 else saveDatabases m2)"
    using assms(3) new(1) check_v03 [OF new(2)]
    unfolding sm_open_def Let_def nss_def [symmetric] types
    by (simp add: m2_def nested_put_def nss_def [symmetric] old_def [symmetric])
  moreover have made: "created (sm_dataDir m) (sm_files m) (sm_files m2)"
    using new(3,4) by (cases "sm_files m ?path") (auto simp: created_def m2_def Let_def)
  moreover have "streams_ok files m2"
    unfolding streams_ok_def
  proof (intro conjI allI ballI)
    show "nested_sorted (sm_spaces m2)" using nested_put_sorted [OF sorted] by (simp add: m2_def)
    show "created (sm_dataDir m2) files (sm_files m2)" using created_trans [OF created made] by (simp add: m2_def)
    fix db' ns' type'
    assume t: "type' \<in> set (nested_get (sm_spaces m2) db' ns')"
    show "\<exists>s. sm_streams m2 (db', ns', type') = Some s \<and> ds_version s = v03 \<and>
        (files (sm_path m2 db' ns' type') \<noteq> None \<longrightarrow> ds_offset s = 29)"
    proof (cases "(db', ns', type') = (db, ns, type)")
      case True
      have "files ?path \<noteq> None \<Longrightarrow> sm_files m ?path \<noteq> None"
        using created_there [OF created] by (simp add: sm_path_def)
      with True new(2,3) show ?thesis by (simp add: m2_def sm_path_def)
    next
      case False
      then have "type' \<in> set (nested_get (sm_spaces m) db' ns')"
        using t nested_get_put [OF sorted] nested_get_put_other [OF sorted, of db' ns' db ns]
        by (cases "(db', ns') = (db, ns)") (auto simp: m2_def set_insort_key)
      with False assms(1) show ?thesis by (auto simp: streams_ok_def m2_def sm_path_def)
    qed
  qed
  moreover have "dataDir @ ''djondb.dat'' \<noteq> file_at dataDir db ns type" for dataDir
    using catalog_no_stream [of dataDir db ns type] by metis
  ultimately show ?thesis using new(4) by (auto simp: opened_def m2_def sm_path_def)
qed

lemma open_type_load:
  assumes "loading files m" "openable files (sm_path m db ns type)" "type \<notin> set (nested_get (sm_spaces m) db ns)"
    and "type = INDEX_FTYPE \<Longrightarrow> DATA_FTYPE \<in> set (nested_get (sm_spaces m) db ns)"
  shows "\<exists>m2. open_type db ns type m = Inr m2 \<and> loading files m2 \<and> opened db ns type m m2"
proof -
  from sm_open_new [OF _ assms(2,3)] assms(1) obtain m2 where m2: "sm_open db ns type m = Inr m2" "streams_ok files m2"
    "opened db ns type m m2" by (auto simp: loading_def)
  have load: "loading files m2" using assms(1) m2(2,3) by (simp add: loading_def opened_def)
  have sorted: "nested_sorted (sm_spaces m)" "nested_sorted (sm_spaces m2)" using assms(1) m2(2) by (auto simp: loading_defs)
  show ?thesis
  proof (cases "type = INDEX_FTYPE")
    case True
    then have data: "DATA_FTYPE \<in> set (nested_get (sm_spaces m2) db ns)"
      using assms(4) m2(3) nested_get_put [OF sorted(1)] by (simp add: opened_def set_insort_key)
    obtain s where "sm_streams m2 (db, ns, DATA_FTYPE) = Some s" "ds_version s = v03"
      using m2(2) data unfolding streams_ok_def by blast
    with m2 load sm_open_known [OF sorted(2) data] True show ?thesis by (simp add: open_type_def parse_versions)
  qed (use m2 load in \<open>simp add: open_type_def\<close>)
qed

lemma ftype_of_code: "ftype_of (of_nat (ftype_code type)) = Inr type"
  by (cases type) (simp_all add: ftype_of_def)

lemma insort_last: "sorted (xs @ [x]) \<Longrightarrow> x \<notin> set xs \<Longrightarrow> insort x xs = xs @ [x]"
  by (induction xs) (auto simp: sorted_append intro: antisym)

lemma DATA_least: "DATA_FTYPE \<le> type"
  by (simp add: less_eq_file_type_def)

abbreviation put_entries :: "(string \<times> string \<times> file_type list) list \<Rightarrow> spaces \<Rightarrow> spaces" where
  "put_entries \<equiv> fold (\<lambda>(db, ns, types). nested_put db ns types)"

abbreviation codes :: "file_type list \<Rightarrow> byte list" where
  "codes types \<equiv> concat (map (\<lambda>type. write_int (of_nat (ftype_code type))) types)"

lemma open_types_load:
  "loading files m \<Longrightarrow> \<forall>type\<in>set ts. openable files (sm_path m db ns type) \<Longrightarrow> nested_get (sm_spaces m) db ns = known \<Longrightarrow> ts \<noteq> [] \<Longrightarrow>
   types_ok (known @ ts) \<Longrightarrow>
   \<exists>m2. open_types db ns (length ts) m (codes ts @ r) = Inr (m2, r) \<and> loading files m2 \<and> sm_dataDir m2 = sm_dataDir m \<and>
     sm_spaces m2 = nested_put db ns (known @ ts) (sm_spaces m)"
proof (induction ts arbitrary: m known)
  case (Cons t ts)
  have sorted: "nested_sorted (sm_spaces m)" using Cons.prems(1) by (simp add: loading_defs)
  have t: "t \<notin> set known" "insort t known = known @ [t]"
    using Cons.prems(5) insort_last [of known t] by (auto simp: types_ok_def sorted_append)
  have "DATA_FTYPE \<in> set known" if "t = INDEX_FTYPE"
  proof -
    have "DATA_FTYPE \<in> set (known @ t # ts)" "sorted (t # ts)" using Cons.prems(5) that by (auto simp: types_ok_def sorted_append)
    moreover have "\<not> INDEX_FTYPE \<le> DATA_FTYPE" by (simp add: less_eq_file_type_def)
    ultimately show ?thesis using that by auto
  qed
  with open_type_load [OF Cons.prems(1), of db ns t] Cons.prems(2,3) t obtain m2 where
    m2: "open_type db ns t m = Inr m2" "loading files m2" "sm_dataDir m2 = sm_dataDir m"
    "sm_spaces m2 = nested_put db ns (known @ [t]) (sm_spaces m)" by (auto simp: opened_def)
  have step: "open_types db ns (length (t # ts)) m (codes (t # ts) @ r) = open_types db ns (length ts) m2 (codes ts @ r)"
    by (simp add: rbind_Inr rlift_def ftype_of_code m2(1))
  show ?case
  proof (cases "ts = []")
    case True
    with step m2 show ?thesis by (auto simp: rreturn_def)
  next
    case False
    have "\<forall>type\<in>set ts. openable files (sm_path m2 db ns type)" using Cons.prems(2) m2(3) by (simp add: sm_path_def)
    moreover have "nested_get (sm_spaces m2) db ns = known @ [t]" using m2(4) nested_get_put [OF sorted] by simp
    moreover have "types_ok ((known @ [t]) @ ts)" using Cons.prems(5) by simp
    ultimately obtain m3 where "open_types db ns (length ts) m2 (codes ts @ r) = Inr (m3, r)"
      "loading files m3" "sm_dataDir m3 = sm_dataDir m2" "sm_spaces m3 = nested_put db ns ((known @ [t]) @ ts) (sm_spaces m2)"
      using Cons.IH [OF m2(2) _ _ False] by blast
    with step m2 nested_put_put [OF sorted] show ?thesis by (intro exI [of _ m3]) simp
  qed
qed simp

text \<open>One entry of the catalog, then all of them.\<close>

definition entry_ok :: "(string \<Rightarrow> byte list option) \<Rightarrow> string \<Rightarrow> string \<times> string \<times> file_type list \<Rightarrow> bool" where
  "entry_ok files dataDir = (\<lambda>(db, ns, types). name_ok db \<and> name_ok ns \<and> types_ok types \<and>
     (\<forall>type\<in>set types. openable files (file_at dataDir db ns type)))"

lemma nat_sint_size: "int32_size n \<Longrightarrow> nat (sint (of_nat n :: int32)) = n"
  by (simp add: int32_size_def signed_of_nat signed_take_bit_int_eq_self)

lemma types_few: "types_ok types \<Longrightarrow> int32_size (length types)"
proof -
  assume "types_ok types"
  moreover have "ftype_code t < 3" for t by (cases t) simp_all
  ultimately have "distinct (map ftype_code types)" "set (map ftype_code types) \<subseteq> {..<3}"
    by (auto simp: types_ok_def distinct_map inj_on_def ftype_code_inj)
  then have "length types \<le> 3" by (metis card_lessThan card_mono distinct_card finite_lessThan length_map)
  then show ?thesis by (simp add: int32_size_def)
qed

lemma load_entry:
  assumes "entry_ok files dataDir (db, ns, types)" "open_types db ns (length types) m (codes types @ r) = Inr (m2, r)"
  shows "load_catalog (Suc n) m (space_bytes db ns types @ r) = load_catalog n m2 r"
proof -
  have "space_bytes db ns types \<noteq> []"
    by (simp add: space_bytes_def write_string_def write_chars_def write_int_def)
  moreover have "rbind read_string f (write_string s @ q) = f s q" if "name_ok s" for f :: "string \<Rightarrow> stream_manager reader" and s q
    using that read_write_string [of s q] by (simp add: name_ok_def rbind_Inr del: read_write_string)
  ultimately show ?thesis
    using assms types_few [of types] by (simp add: entry_ok_def space_bytes_def rbind_Inr nat_sint_size)
qed

lemma load_entries:
  "loading files m \<Longrightarrow> \<forall>e\<in>set es. entry_ok files (sm_dataDir m) e \<Longrightarrow> distinct (map (\<lambda>(db, ns, _). (db, ns)) es) \<Longrightarrow>
   \<forall>(db, ns, _)\<in>set es. nested_get (sm_spaces m) db ns = [] \<Longrightarrow> length es < n \<Longrightarrow>
   \<exists>m2. load_catalog n m (concat (map (\<lambda>(db, ns, types). space_bytes db ns types) es)) = Inr (m2, []) \<and> loading files m2 \<and>
     sm_dataDir m2 = sm_dataDir m \<and> sm_spaces m2 = put_entries es (sm_spaces m)"
proof (induction es arbitrary: m n)
  case Nil
  then show ?case by (cases n) auto
next
  case (Cons e es)
  obtain db ns types where e: "e = (db, ns, types)" by (cases e)
  obtain k where k: "n = Suc k" using Cons.prems(5) by (cases n) auto
  let ?r = "concat (map (\<lambda>(db, ns, types). space_bytes db ns types) es)"
  have sorted: "nested_sorted (sm_spaces m)" using Cons.prems(1) by (simp add: loading_defs)
  have ok: "entry_ok files (sm_dataDir m) (db, ns, types)" using Cons.prems(2) e by simp
  have "\<exists>m2. open_types db ns (length types) m (codes types @ ?r) = Inr (m2, ?r) \<and>
     loading files m2 \<and> sm_dataDir m2 = sm_dataDir m \<and> sm_spaces m2 = nested_put db ns ([] @ types) (sm_spaces m)"
    using ok Cons.prems(4) e by (intro open_types_load [OF Cons.prems(1)]) (auto simp: entry_ok_def types_ok_def sm_path_def)
  then obtain m2 where m2: "open_types db ns (length types) m (codes types @ ?r) = Inr (m2, ?r)"
    "loading files m2" "sm_dataDir m2 = sm_dataDir m" "sm_spaces m2 = nested_put db ns types (sm_spaces m)" by auto
  have "\<forall>e\<in>set es. entry_ok files (sm_dataDir m2) e" using Cons.prems(2) m2(3) by simp
  moreover have "\<forall>(db, ns, _)\<in>set es. nested_get (sm_spaces m2) db ns = []"
  proof (clarify)
    fix db' ns' t assume i: "(db', ns', t) \<in> set es"
    then have "(db', ns') \<noteq> (db, ns)" using Cons.prems(3) e by force
    with nested_get_put_other [OF sorted this, of types] m2(4) Cons.prems(4) i
    show "nested_get (sm_spaces m2) db' ns' = []" by fastforce
  qed
  ultimately obtain m3 where "load_catalog k m2 ?r = Inr (m3, [])" "loading files m3"
    "sm_dataDir m3 = sm_dataDir m2" "sm_spaces m3 = put_entries es (sm_spaces m2)"
    using Cons.IH [OF m2(2), of k] Cons.prems(3,5) k by auto
  with m2 load_entry [OF ok m2(1), of k] k e show ?case by (intro exI [of _ m3]) simp
qed

text \<open>The entries of a catalog rebuild it; a database without a namespace leaves no entry.\<close>

lemma nested_put_last:
  "\<forall>q\<in>set spaces. fst q < db \<Longrightarrow> \<forall>q\<in>set nss. fst q < ns \<Longrightarrow>
   nested_put db ns types (if nss = [] then spaces else spaces @ [(db, nss)]) = spaces @ [(db, nss @ [(ns, types)])]"
proof -
  assume above: "\<forall>q\<in>set spaces. fst q < db" and ns: "\<forall>q\<in>set nss. fst q < ns"
  then have none: "map_find spaces db = None" by (auto simp: map_find_None)
  have find: "map_find (spaces @ [(db, nss)]) db = Some nss" using none by (induction spaces db rule: map_find.induct) auto
  have erase: "map_erase db (spaces @ [(db, nss)]) = spaces" using above by (auto simp: map_erase_def filter_id_conv)
  show ?thesis
    using map_put_last [OF above] map_put_last [OF ns] map_insert_last [OF above] none find erase
    by (cases "nss = []") (simp_all add: nested_put_def nested_at_def map_put_def [of db])
qed

lemma put_space:
  "\<forall>q\<in>set spaces. fst q < db \<Longrightarrow> map_sorted (done @ nss) \<Longrightarrow>
   put_entries (map (\<lambda>(ns, types). (db, ns, types)) nss) (if done = [] then spaces else spaces @ [(db, done)]) =
     (if done @ nss = [] then spaces else spaces @ [(db, done @ nss)])"
proof (induction nss arbitrary: "done")
  case (Cons p nss)
  obtain ns types where p: "p = (ns, types)" by (cases p)
  have "\<forall>q\<in>set done. fst q < ns" using Cons.prems(2) p by (auto simp: map_sorted_def sorted_wrt_append)
  from nested_put_last [OF Cons.prems(1) this, of types] Cons.IH [of "done @ [(ns, types)]"] Cons.prems p show ?case by simp
qed simp

lemma put_all_entries:
  "map_sorted (done @ spaces) \<Longrightarrow> \<forall>p\<in>set spaces. map_sorted (snd p) \<Longrightarrow>
   put_entries (entries spaces) done = done @ filter (\<lambda>p. snd p \<noteq> []) spaces"
proof (induction spaces arbitrary: "done")
  case (Cons p spaces)
  obtain db nss where p: "p = (db, nss)" by (cases p)
  have above: "\<forall>q\<in>set done. fst q < db" using Cons.prems(1) p by (auto simp: map_sorted_def sorted_wrt_append)
  have "map_sorted ((if nss = [] then done else done @ [(db, nss)]) @ spaces)"
    using Cons.prems(1) p by (auto simp: map_sorted_def sorted_wrt_append)
  from Cons.IH [OF this] put_space [OF above, of "[]" nss] Cons.prems(2) p show ?case
    by (cases "nss = []") (simp_all add: entries_def)
qed (simp add: entries_def)

section \<open>Reopening the database\<close>

definition entries_ok :: "(string \<Rightarrow> byte list option) \<Rightarrow> string \<Rightarrow> spaces \<Rightarrow> bool" where
  "entries_ok files dataDir spaces \<longleftrightarrow> nested_sorted spaces \<and> (\<forall>e\<in>set (entries spaces). entry_ok files dataDir e)"

lemma entries_distinct: "nested_sorted spaces \<Longrightarrow> distinct (map (\<lambda>(db, ns, _). (db, ns)) (entries spaces))"
proof (induction spaces)
  case (Cons p spaces)
  obtain db nss where p: "p = (db, nss)" by (cases p)
  have "map_sorted nss \<Longrightarrow> distinct (map (\<lambda>(ns, types). (db, ns)) nss)"
    by (induction nss) force+
  moreover have "(db, ns) \<notin> (\<lambda>(db, ns, _). (db, ns)) ` set (entries spaces)" for ns
    using Cons.prems p by (fastforce simp: nested_sorted_def entries_def)
  ultimately show ?case
    using Cons p by (auto simp: nested_sorted_def entries_def comp_def split_def)
qed (simp add: entries_def)

lemma catalog_long: "length (entries spaces) \<le> length (catalog_bytes spaces)"
proof -
  have "length es \<le> length (concat (map (\<lambda>(db, ns, types). space_bytes db ns types) es))" for es
  proof (induction es)
    case (Cons e es)
    obtain db ns types where "e = (db, ns, types)" by (cases e)
    moreover have "1 \<le> length (space_bytes db ns types)" by (simp add: space_bytes_def write_string_def)
    ultimately show ?case using Cons by simp
  qed simp
  then show ?thesis by (simp add: catalog_entries)
qed

lemma initialize_catalog:
  assumes "entries_ok files dataDir spaces"
    and "files (dataDir @ ''djondb.dat'') = Some (catalog_bytes spaces) \<or>
      files (dataDir @ ''djondb.dat'') = None \<and> spaces = []"
  shows "\<exists>m. initialize dataDir (sm_start files) = Inr m \<and> \<not> sm_initializing m \<and> sm_dataDir m = dataDir \<and>
    streams_ok files m \<and> sm_spaces m = filter (\<lambda>p. snd p \<noteq> []) spaces \<and>
    sm_files m (dataDir @ ''djondb.dat'') = files (dataDir @ ''djondb.dat'')"
proof -
  let ?m = "(sm_start files)\<lparr>sm_dataDir := dataDir, sm_initializing := True\<rparr>"
  define catalog where "catalog = (case files (dataDir @ ''djondb.dat'') of None \<Rightarrow> [] | Some bs \<Rightarrow> bs)"
  have catalog: "catalog = concat (map (\<lambda>(db, ns, types). space_bytes db ns types) (entries spaces))"
    using assms(2) by (auto simp: catalog_def catalog_entries entries_def)
  have sorted: "nested_sorted spaces" using assms(1) by (simp add: entries_ok_def)
  have load: "loading files ?m"
    by (simp add: loading_defs sm_start_def nested_sorted_def nested_get_def nested_at_def created_refl)
  have ok: "\<forall>e\<in>set (entries spaces). entry_ok files (sm_dataDir ?m) e" using assms(1) by (simp add: entries_ok_def)
  have none: "\<forall>(db, ns, _)\<in>set (entries spaces). nested_get (sm_spaces ?m) db ns = []"
    by (simp add: sm_start_def nested_get_def nested_at_def split_def)
  have len: "length (entries spaces) < Suc (length catalog)"
    using catalog_long [of spaces] by (simp add: catalog catalog_entries)
  obtain m where m: "load_catalog (Suc (length catalog)) ?m catalog = Inr (m, [])" "loading files m"
    "sm_dataDir m = dataDir" "sm_spaces m = put_entries (entries spaces) []"
    using load_entries [OF load ok entries_distinct [OF sorted] none len] unfolding catalog [symmetric]
    by (auto simp: sm_start_def simp del: load_catalog.simps)
  have "sm_spaces m = filter (\<lambda>p. snd p \<noteq> []) spaces"
    using m(4) put_all_entries [of "[]" spaces] sorted by (simp add: nested_sorted_def)
  moreover have "initialize dataDir (sm_start files) = Inr (m\<lparr>sm_initializing := False\<rparr>)"
    using m(1) by (simp add: initialize_def Let_def catalog_def sm_start_def del: load_catalog.simps)
  ultimately show ?thesis using m(2,3) by (auto simp: loading_defs sm_path_def)
qed

section \<open>A running manager\<close>

text \<open>
  Between the operations of a session: every file in the directory is one of this version, the catalog
  on disk is the map in memory.
\<close>

definition dir_ok :: "string \<Rightarrow> (string \<Rightarrow> byte list option) \<Rightarrow> bool" where
  "dir_ok dataDir files \<longleftrightarrow> (\<forall>db ns type. openable files (file_at dataDir db ns type))"

definition space_ok :: "string \<times> (string, file_type list) std_map \<Rightarrow> bool" where
  "space_ok = (\<lambda>(db, nss). nss \<noteq> [] \<and> name_ok db \<and> (\<forall>(ns, types)\<in>set nss. name_ok ns \<and> types_ok types))"

definition names_ok :: "spaces \<Rightarrow> bool" where
  "names_ok spaces \<longleftrightarrow> (\<forall>p\<in>set spaces. space_ok p)"

definition saved :: "stream_manager \<Rightarrow> bool" where
  "saved m \<longleftrightarrow> sm_files m (sm_dataDir m @ ''djondb.dat'') = Some (catalog_bytes (sm_spaces m)) \<or>
     sm_files m (sm_dataDir m @ ''djondb.dat'') = None \<and> sm_spaces m = []"

definition manager_ok :: "stream_manager \<Rightarrow> bool" where
  "manager_ok m \<longleftrightarrow> \<not> sm_initializing m \<and> (\<exists>files. dir_ok (sm_dataDir m) files \<and> streams_ok files m) \<and>
     names_ok (sm_spaces m) \<and> saved m"

fun open_all :: "(string \<times> string \<times> file_type) list \<Rightarrow> stream_manager \<Rightarrow> stream_manager res" where
  "open_all [] m = Inr m"
| "open_all ((db, ns, type) # reqs) m = bindR (sm_open db ns type m) (open_all reqs)"

text \<open>The program opens the data file of a namespace before its index file.\<close>

definition request_ok :: "string \<Rightarrow> string \<Rightarrow> file_type \<Rightarrow> stream_manager \<Rightarrow> bool" where
  "request_ok db ns type m \<longleftrightarrow> name_ok db \<and> name_ok ns \<and>
     (type = INDEX_FTYPE \<longrightarrow> DATA_FTYPE \<in> set (nested_get (sm_spaces m) db ns))"

fun requests_ok :: "(string \<times> string) set \<Rightarrow> (string \<times> string \<times> file_type) list \<Rightarrow> bool" where
  "requests_ok known [] = True"
| "requests_ok known ((db, ns, type) # reqs) \<longleftrightarrow> name_ok db \<and> name_ok ns \<and> (type = INDEX_FTYPE \<longrightarrow> (db, ns) \<in> known) \<and>
     requests_ok (if type = DATA_FTYPE then insert (db, ns) known else known) reqs"

lemma names_at:
  assumes "names_ok spaces" "nested_get spaces db ns \<noteq> []"
  shows "types_ok (nested_get spaces db ns)"
proof -
  obtain nss where "map_find spaces db = Some nss" "map_find nss ns = Some (nested_get spaces db ns)"
    using nested_get_in [OF assms(2)] by blast
  then have "(db, nss) \<in> set spaces" "(ns, nested_get spaces db ns) \<in> set nss" by (auto dest: map_find_in)
  with assms(1) show ?thesis unfolding names_ok_def space_ok_def by fastforce
qed

lemma map_put_some: "map_put k v m \<noteq> []"
  by (cases "map_erase k m") (auto simp: map_put_def split: if_splits)

lemma names_put:
  assumes "names_ok spaces" "name_ok db" "name_ok ns" "types_ok types"
  shows "names_ok (nested_put db ns types spaces)"
proof -
  let ?nss = "nested_at spaces db"
  have old: "\<forall>(ns, types)\<in>set ?nss. name_ok ns \<and> types_ok types"
  proof (cases "map_find spaces db")
    case (Some nss)
    with map_find_in [OF this] assms(1) have "space_ok (db, ?nss)" by (simp add: names_ok_def nested_at_def)
    then show ?thesis by (simp add: space_ok_def)
  qed (simp add: nested_at_def)
  have "\<forall>(ns, types)\<in>set (map_put ns types ?nss). name_ok ns \<and> types_ok types"
    using old set_map_put [of ns types ?nss] assms(3,4) by blast
  with map_put_some [of ns types ?nss] assms(2) have new: "space_ok (db, map_put ns types ?nss)"
    by (simp add: space_ok_def)
  show ?thesis
    unfolding names_ok_def nested_put_def
  proof
    fix p assume "p \<in> set (map_put db (map_put ns types ?nss) spaces)"
    with set_map_put have "p \<in> insert (db, map_put ns types ?nss) (set spaces)" by (rule subsetD)
    then have "p = (db, map_put ns types ?nss) \<or> p \<in> set spaces" by simp
    then show "space_ok p"
    proof
      assume "p = (db, map_put ns types ?nss)"
      with new show ?thesis by (simp only:)
    next
      assume "p \<in> set spaces"
      with assms(1) [unfolded names_ok_def] show ?thesis by (rule bspec)
    qed
  qed
qed

lemma names_entries:
  "names_ok spaces \<Longrightarrow> nested_sorted spaces \<Longrightarrow> dir_ok dataDir files \<Longrightarrow> entries_ok files dataDir spaces"
  unfolding names_ok_def space_ok_def entries_ok_def entries_def entry_ok_def dir_ok_def by fastforce

lemma types_insort:
  assumes "types_ok types \<or> types = []" "type \<notin> set types" "type = INDEX_FTYPE \<Longrightarrow> DATA_FTYPE \<in> set types"
  shows "types_ok (insort type types)"
  using assms by (auto simp: types_ok_def sorted_insort distinct_insort set_insort_key)

lemma dir_ok_created: "dir_ok dataDir files \<Longrightarrow> created dataDir files files' \<Longrightarrow> dir_ok dataDir files'"
  using openable_created unfolding dir_ok_def by blast

lemma saved_save: "saved (saveDatabases m)"
  by (simp add: saved_def saveDatabases_def)

lemma save_keeps [simp]:
  "sm_spaces (saveDatabases m) = sm_spaces m" "sm_streams (saveDatabases m) = sm_streams m"
  "sm_dataDir (saveDatabases m) = sm_dataDir m" "sm_initializing (saveDatabases m) = sm_initializing m"
  "sm_path (saveDatabases m) = sm_path m"
  by (simp_all add: saveDatabases_def sm_path_def)

lemma manager_open:
  assumes "manager_ok m" "request_ok db ns type m"
  shows "\<exists>m2. sm_open db ns type m = Inr m2 \<and> manager_ok m2 \<and> sm_dataDir m2 = sm_dataDir m \<and>
    sm_spaces m2 = (if type \<in> set (nested_get (sm_spaces m) db ns) then sm_spaces m
      else nested_put db ns (insort type (nested_get (sm_spaces m) db ns)) (sm_spaces m)) \<and>
    (type \<notin> set (nested_get (sm_spaces m) db ns) \<longrightarrow> sm_files m2 (sm_path m db ns type) \<noteq> None \<and>
      (sm_files m (sm_path m db ns type) = None \<longrightarrow> (\<exists>s. sm_streams m2 (db, ns, type) = Some s \<and> ds_offset s = 0)))"
proof (cases "type \<in> set (nested_get (sm_spaces m) db ns)")
  case True
  moreover have "nested_sorted (sm_spaces m)" using assms(1) by (auto simp: manager_ok_def streams_ok_def)
  ultimately show ?thesis using assms(1) sm_open_known [of m type db ns] by simp
next
  case False
  obtain files where files: "dir_ok (sm_dataDir m) files" "streams_ok files m" using assms(1) by (auto simp: manager_ok_def)
  have init: "\<not> sm_initializing m" and names: "names_ok (sm_spaces m)" using assms(1) by (simp_all add: manager_ok_def)
  have "openable files (sm_path m db ns type)" using files(1) by (simp add: dir_ok_def sm_path_def)
  from sm_open_new [OF files(2) this False] init obtain m2 where
    m2: "sm_open db ns type m = Inr (saveDatabases m2)" "streams_ok files m2" "opened db ns type m m2" by auto
  have "types_ok (insort type (nested_get (sm_spaces m) db ns))"
    using assms(2) names_at [OF names, of db ns] False by (intro types_insort) (auto simp: request_ok_def)
  with names assms(2) m2(3) have "names_ok (sm_spaces m2)" by (simp add: opened_def request_ok_def names_put)
  moreover have "streams_ok files (saveDatabases m2)"
    using m2(2) created_save [of m2 files] by (simp add: streams_ok_def)
  ultimately have "manager_ok (saveDatabases m2)"
    using files(1) m2(3) init saved_save by (auto simp: manager_ok_def opened_def)
  moreover have "sm_files (saveDatabases m2) (sm_path m db ns type) = sm_files m2 (sm_path m db ns type)"
    using catalog_no_stream [of "sm_dataDir m2"] m2(3) by (simp add: opened_def saveDatabases_def sm_path_def)
  ultimately show ?thesis using m2 False by (auto simp: opened_def)
qed

text \<open>What a restart finds after a session.\<close>

definition restart :: "stream_manager \<Rightarrow> stream_manager res" where
  "restart m = initialize (sm_dataDir m) (sm_start (sm_files m))"

lemma restart_ok:
  assumes "manager_ok m"
  shows "\<exists>m2. restart m = Inr m2 \<and> manager_ok m2 \<and> sm_spaces m2 = sm_spaces m \<and>
    streams_ok (sm_files m) m2 \<and> sm_dataDir m2 = sm_dataDir m"
proof -
  obtain files where files: "dir_ok (sm_dataDir m) files" "streams_ok files m" using assms(1) by (auto simp: manager_ok_def)
  have dir: "dir_ok (sm_dataDir m) (sm_files m)" using dir_ok_created files by (auto simp: streams_ok_def)
  have sorted: "nested_sorted (sm_spaces m)" and names: "names_ok (sm_spaces m)"
    using assms files by (simp_all add: manager_ok_def streams_ok_def)
  have all: "filter (\<lambda>p. snd p \<noteq> []) (sm_spaces m) = sm_spaces m"
    using names by (auto simp: names_ok_def space_ok_def filter_id_conv)
  from initialize_catalog [OF names_entries [OF names sorted dir]] assms obtain m2 where
    m2: "restart m = Inr m2" "\<not> sm_initializing m2" "sm_dataDir m2 = sm_dataDir m" "streams_ok (sm_files m) m2"
    "sm_spaces m2 = sm_spaces m" "sm_files m2 (sm_dataDir m @ ''djondb.dat'') = sm_files m (sm_dataDir m @ ''djondb.dat'')"
    by (auto simp: restart_def manager_ok_def saved_def all)
  have "saved m2" using m2(3,5,6) assms by (simp add: manager_ok_def saved_def)
  with m2 dir names show ?thesis by (auto simp: manager_ok_def)
qed

lemma types_grow:
  "nested_sorted spaces \<Longrightarrow> t \<in> set (nested_get spaces db' ns') \<Longrightarrow>
   t \<in> set (nested_get (nested_put db ns (insort type (nested_get spaces db ns)) spaces) db' ns')"
  using nested_get_put [of spaces db ns] nested_get_put_other [of spaces db' ns' db ns]
  by (cases "(db', ns') = (db, ns)") (auto simp: set_insort_key)

lemma manager_open_types:
  assumes "manager_ok m" "request_ok db ns type m"
  shows "\<exists>m2. sm_open db ns type m = Inr m2 \<and> manager_ok m2 \<and> sm_dataDir m2 = sm_dataDir m \<and>
    type \<in> set (nested_get (sm_spaces m2) db ns) \<and>
    (\<forall>db ns. set (nested_get (sm_spaces m) db ns) \<subseteq> set (nested_get (sm_spaces m2) db ns))"
proof -
  have sorted: "nested_sorted (sm_spaces m)" using assms(1) by (auto simp: manager_ok_def streams_ok_def)
  from manager_open [OF assms] types_grow [OF sorted] nested_get_put [OF sorted, of db ns] show ?thesis
    by (auto simp: set_insort_key)
qed

lemma manager_open_all:
  "manager_ok m \<Longrightarrow> requests_ok known reqs \<Longrightarrow>
   \<forall>(db, ns)\<in>known. DATA_FTYPE \<in> set (nested_get (sm_spaces m) db ns) \<Longrightarrow>
   \<exists>m2. open_all reqs m = Inr m2 \<and> manager_ok m2 \<and>
     (\<forall>db ns. set (nested_get (sm_spaces m) db ns) \<subseteq> set (nested_get (sm_spaces m2) db ns)) \<and>
     (\<forall>(db, ns, type)\<in>set reqs. type \<in> set (nested_get (sm_spaces m2) db ns))"
proof (induction reqs arbitrary: m known)
  case (Cons req reqs)
  obtain db ns type where req: "req = (db, ns, type)" by (cases req)
  have "request_ok db ns type m" using Cons.prems(2,3) req by (auto simp: request_ok_def)
  from manager_open_types [OF Cons.prems(1) this] obtain m2 where m2: "sm_open db ns type m = Inr m2" "manager_ok m2"
    "type \<in> set (nested_get (sm_spaces m2) db ns)"
    "\<forall>db ns. set (nested_get (sm_spaces m) db ns) \<subseteq> set (nested_get (sm_spaces m2) db ns)" by blast
  let ?known = "if type = DATA_FTYPE then insert (db, ns) known else known"
  have "\<forall>(db, ns)\<in>?known. DATA_FTYPE \<in> set (nested_get (sm_spaces m2) db ns)"
    using Cons.prems(3) m2(3,4) by (cases "type = DATA_FTYPE") (auto, blast+)
  moreover have "requests_ok ?known reqs" using Cons.prems(2) req by simp
  ultimately obtain m3 where m3: "open_all reqs m2 = Inr m3" "manager_ok m3"
    "\<forall>db ns. set (nested_get (sm_spaces m2) db ns) \<subseteq> set (nested_get (sm_spaces m3) db ns)"
    "\<forall>(db, ns, type)\<in>set reqs. type \<in> set (nested_get (sm_spaces m3) db ns)"
    using Cons.IH [OF m2(2)] by blast
  have "\<forall>db ns. set (nested_get (sm_spaces m) db ns) \<subseteq> set (nested_get (sm_spaces m3) db ns)"
    using m2(4) m3(3) by blast
  with m2(1,3) m3 req show ?case by (intro exI [of _ m3]) auto
qed simp

subsection \<open>Dropping a namespace\<close>

lemma remove_files_less: "remove_files ps files p = files p \<or> remove_files ps files p = None"
  by (induction ps files rule: remove_files.induct) (auto simp: fun_upd_def split: if_splits)

lemma remove_files_other: "p \<notin> set ps \<Longrightarrow> remove_files ps files p = files p"
  by (induction ps files rule: remove_files.induct) auto

lemma remove_files_first: "remove_files (p # ps) files p = None"
  using remove_files_less [of ps "files(p := None)" p] by auto

lemma dir_ok_remove: "dir_ok dataDir files \<Longrightarrow> dir_ok dataDir (remove_files ps files)"
  unfolding dir_ok_def openable_def using remove_files_less by metis

lemma drop_then_restart:
  assumes "manager_ok m" "name_ok db" "name_ok ns"
  shows "\<exists>m2 m3. sm_dropNamespace db ns m = Inr (True, m2) \<and> nested_get (sm_spaces m2) db ns = [] \<and>
    sm_files m2 (sm_path m db ns DATA_FTYPE) = None \<and> restart m2 = Inr m3 \<and>
    {DATA_FTYPE, INDEX_FTYPE} \<subseteq> set (nested_get (sm_spaces m3) db ns)"
proof -
  have "request_ok db ns DATA_FTYPE m" using assms by (simp add: request_ok_def)
  from manager_open_types [OF assms(1) this] obtain m1 where m1: "sm_open db ns DATA_FTYPE m = Inr m1" "manager_ok m1"
    "sm_dataDir m1 = sm_dataDir m" "DATA_FTYPE \<in> set (nested_get (sm_spaces m1) db ns)" by blast
  then have "request_ok db ns INDEX_FTYPE m1" using assms by (simp add: request_ok_def)
  from manager_open_types [OF m1(2) this] obtain m2 where m2: "sm_open db ns INDEX_FTYPE m1 = Inr m2" "manager_ok m2"
    "sm_dataDir m2 = sm_dataDir m" "INDEX_FTYPE \<in> set (nested_get (sm_spaces m2) db ns)"
    "DATA_FTYPE \<in> set (nested_get (sm_spaces m2) db ns)" using m1(3,4) by auto
  have sorted: "nested_sorted (sm_spaces m2)" and names: "names_ok (sm_spaces m2)"
    using m2(2) by (auto simp: manager_ok_def streams_ok_def)
  define types where "types = nested_get (sm_spaces m2) db ns"
  obtain nss where nss: "map_find (sm_spaces m2) db = Some nss" and types: "map_find nss ns = Some types"
    using nested_get_in [of "sm_spaces m2" db ns] m2(4) unfolding types_def by fastforce
  have listed: "nested_get (sm_spaces m2) db ns = types" by (simp add: types_def)
  then have "types_ok types" using names_at [OF names, of db ns] m2(4) by (cases types) auto
  then obtain rest where rest: "types = DATA_FTYPE # rest"
    using m2(5) listed DATA_least by (cases types) (auto simp: types_ok_def intro: antisym)
  let ?files = "remove_files (map (sm_path m2 db ns) types) (sm_files m2)"
  define m3 where "m3 = m2\<lparr>sm_files := ?files,
      sm_streams := (\<lambda>(d, n, type). if d = db \<and> n = ns then None else sm_streams m2 (d, n, type)),
      sm_spaces := map_put db (map_erase ns nss) (sm_spaces m2)\<rparr>"
  have "sm_dropNamespace db ns m = Inr (True, m3)"
    using m1(1) m2(1) nss types by (simp add: sm_dropNamespace_def m3_def)
  moreover have "nested_get (sm_spaces m3) db ns = []"
    using sorted by (simp add: m3_def nested_get_def nested_at_def nested_sorted_def map_find_erase)
  moreover have "sm_files m3 (sm_path m db ns DATA_FTYPE) = None"
    using remove_files_first [of "sm_path m2 db ns DATA_FTYPE"] m2(3) rest by (simp add: m3_def sm_path_def del: remove_files.simps)
  moreover have "\<exists>m4. restart m3 = Inr m4 \<and> sm_spaces m4 = sm_spaces m2"
  proof -
    obtain files where "dir_ok (sm_dataDir m2) files" "streams_ok files m2" using m2(2) by (auto simp: manager_ok_def)
    then have dir: "dir_ok (sm_dataDir m2) ?files" using dir_ok_created dir_ok_remove by (auto simp: streams_ok_def)
    have "sm_dataDir m2 @ ''djondb.dat'' \<notin> set (map (sm_path m2 db ns) types)"
      using catalog_no_stream [of "sm_dataDir m2"] by (fastforce simp: sm_path_def)
    then have "?files (sm_dataDir m2 @ ''djondb.dat'') = sm_files m2 (sm_dataDir m2 @ ''djondb.dat'')"
      by (rule remove_files_other)
    moreover have "sm_spaces m2 \<noteq> []" using nss by auto
    ultimately have "?files (sm_dataDir m2 @ ''djondb.dat'') = Some (catalog_bytes (sm_spaces m2))"
      using m2(2) by (auto simp: manager_ok_def saved_def)
    moreover have "filter (\<lambda>p. snd p \<noteq> []) (sm_spaces m2) = sm_spaces m2"
      using names by (auto simp: names_ok_def space_ok_def filter_id_conv)
    ultimately show ?thesis
      using initialize_catalog [OF names_entries [OF names sorted dir]] by (auto simp: restart_def m3_def)
  qed
  ultimately show ?thesis using m2(4,5) by fastforce
qed

lemma fresh_offset:
  assumes "manager_ok m" "request_ok db ns type m" "type \<notin> set (nested_get (sm_spaces m) db ns)"
    and "sm_files m (sm_path m db ns type) = None"
  shows "\<exists>m2 s m3 s'. sm_open db ns type m = Inr m2 \<and> sm_streams m2 (db, ns, type) = Some s \<and> ds_offset s = 0 \<and>
    restart m2 = Inr m3 \<and> sm_streams m3 (db, ns, type) = Some s' \<and> ds_offset s' = 29"
proof -
  have sorted: "nested_sorted (sm_spaces m)" using assms(1) by (auto simp: manager_ok_def streams_ok_def)
  from manager_open [OF assms(1,2)] assms(3,4) obtain m2 s where m2: "sm_open db ns type m = Inr m2" "manager_ok m2"
    "sm_dataDir m2 = sm_dataDir m" "sm_spaces m2 = nested_put db ns (insort type (nested_get (sm_spaces m) db ns)) (sm_spaces m)"
    "sm_files m2 (sm_path m db ns type) \<noteq> None" "sm_streams m2 (db, ns, type) = Some s" "ds_offset s = 0" by auto
  from restart_ok [OF m2(2)] obtain m3 where m3: "restart m2 = Inr m3" "sm_spaces m3 = sm_spaces m2"
    "streams_ok (sm_files m2) m3" "sm_dataDir m3 = sm_dataDir m2" by auto
  have "type \<in> set (nested_get (sm_spaces m3) db ns)"
    using m2(4) m3(2) nested_get_put [OF sorted] by (simp add: set_insort_key)
  with m3(3) obtain s' where "sm_streams m3 (db, ns, type) = Some s'"
    "sm_files m2 (sm_path m3 db ns type) \<noteq> None \<longrightarrow> ds_offset s' = 29" unfolding streams_ok_def by blast
  with m2 m3 show ?thesis by (auto simp: sm_path_def)
qed

end
