(* ===== verification/Index_Tree.thy ===== *)
theory Index_Tree
  imports Filters
begin

text \<open>
  The persistent index: BPlusIndexP and IndexPage (db/bplusindexp.cpp), a B+ tree with five elements
  in a page whose elements are in descending order. Pages point to their children and to their
  parent, so they live in a heap: a page is named by its position in the list of all pages.
\<close>

section \<open>State\<close>

text \<open>
  Every key document that the controller builds is {_id: id}; an element keeps the id. The element
  field indexPos is not in use.
\<close>

record index_elem =
  ie_id :: string
  ie_documentId :: string
  ie_posData :: nat

type_synonym page_id = nat

record index_page =
  pg_elements :: "index_elem option list"
  pg_pointers :: "page_id option list"
  pg_size :: nat
  pg_parent :: "page_id option"

record bptree =
  bt_pages :: "index_page list"
  bt_head :: page_id

definition BUCKET_MAX_ELEMENTS :: nat where
  "BUCKET_MAX_ELEMENTS = 5"

lemmas bucket [simp] = BUCKET_MAX_ELEMENTS_def

section \<open>Arrays of pointers\<close>

text \<open>One round of the outer loops; the indices of the inner loop go down or up.\<close>

definition move_slot :: "nat \<Rightarrow> nat \<Rightarrow> 'a option list \<Rightarrow> 'a option list" where
  "move_slot from to array = (array[to := array ! from])[from := None]"

definition shiftRightArray :: "'a option list \<Rightarrow> nat \<Rightarrow> nat \<Rightarrow> nat \<Rightarrow> 'a option list" where
  "shiftRightArray array startPoint count len =
     ((fold (\<lambda>x array. move_slot x (x + 1) array) (rev [startPoint..<len - 1])) ^^ count) array"

definition shiftLeftArray :: "'a option list \<Rightarrow> nat \<Rightarrow> nat \<Rightarrow> nat \<Rightarrow> 'a option list" where
  "shiftLeftArray array startPoint count len =
     ((fold (\<lambda>x array. move_slot x (x - 1) array) [startPoint + 1..<len]) ^^ count) array"

definition insertArray :: "'a option list \<Rightarrow> 'a \<Rightarrow> nat \<Rightarrow> nat \<Rightarrow> 'a option list" where
  "insertArray array element pos n = (shiftRightArray array pos 1 n)[pos := Some element]"

definition initializeArray :: "'a option list \<Rightarrow> nat \<Rightarrow> 'a option list" where
  "initializeArray array n = fold (\<lambda>x array. array[x := None]) [0..<n] array"

definition copyArray :: "'a option list \<Rightarrow> 'a option list \<Rightarrow> nat \<Rightarrow> nat \<Rightarrow> nat \<Rightarrow> 'a option list" where
  "copyArray source destination startIndex endIndex offset =
     fold (\<lambda>x destination. destination[offset + (x - startIndex) := source ! x]) [startIndex..<endIndex + 1] destination"

text \<open>The first slot that is empty or holds a smaller key.\<close>

fun find_position :: "string \<Rightarrow> index_elem option list \<Rightarrow> nat \<Rightarrow> nat" where
  "find_position key [] x = x"
| "find_position key (None # elements) x = x"
| "find_position key (Some current # elements) x =
     (if dj_compare (ie_id current) key < 0 then x else find_position key elements (x + 1))"

definition findInsertPositionArray :: "index_elem option list \<Rightarrow> index_elem \<Rightarrow> nat \<Rightarrow> nat \<Rightarrow> nat" where
  "findInsertPositionArray elements index len slots =
     (if len = 0 then 0 else find_position (ie_id index) (take slots elements) 0)"

section \<open>Pages\<close>

definition new_page :: index_page where
  "new_page = \<lparr>pg_elements = replicate BUCKET_MAX_ELEMENTS None,
     pg_pointers = replicate (BUCKET_MAX_ELEMENTS + 1) None, pg_size = 0, pg_parent = None\<rparr>"

definition isLeaf :: "index_page \<Rightarrow> bool" where
  "isLeaf page \<longleftrightarrow> (\<forall>x\<in>set [0..<pg_size page + 1]. pg_pointers page ! x = None)"

definition isFull :: "index_page \<Rightarrow> bool" where
  "isFull page \<longleftrightarrow> pg_size page \<ge> BUCKET_MAX_ELEMENTS"

definition page_at :: "bptree \<Rightarrow> page_id \<Rightarrow> index_page res" where
  "page_at t p = (if p < length (bt_pages t) then Inr (bt_pages t ! p) else Inl Undefined_behaviour)"

definition set_page :: "page_id \<Rightarrow> index_page \<Rightarrow> bptree \<Rightarrow> bptree" where
  "set_page p page t = t\<lparr>bt_pages := (bt_pages t)[p := page]\<rparr>"

definition set_parent :: "page_id option \<Rightarrow> page_id \<Rightarrow> bptree \<Rightarrow> bptree" where
  "set_parent parent p t = set_page p ((bt_pages t ! p)\<lparr>pg_parent := parent\<rparr>) t"

text \<open>refreshParentRelationship goes over all six pointers.\<close>

definition refresh_parent :: "page_id \<Rightarrow> bptree \<Rightarrow> bptree" where
  "refresh_parent p t =
     fold (\<lambda>pointer t. case pointer of None \<Rightarrow> t | Some child \<Rightarrow> set_parent (Some p) child t)
       (take (BUCKET_MAX_ELEMENTS + 1) (pg_pointers (bt_pages t ! p))) t"

definition alloc_page :: "index_page \<Rightarrow> bptree \<Rightarrow> page_id \<times> bptree" where
  "alloc_page page t = (length (bt_pages t), t\<lparr>bt_pages := bt_pages t @ [page]\<rparr>)"

definition new_tree :: bptree where
  "new_tree = \<lparr>bt_pages = [new_page], bt_head = 0\<rparr>"

section \<open>Searching\<close>

datatype search_step = Descend page_id | Found nat | Missing

text \<open>The loop over the elements of a page from the index x on; a null element is dereferenced.\<close>

fun find_loop :: "index_page \<Rightarrow> string \<Rightarrow> nat \<Rightarrow> nat \<Rightarrow> search_step res" where
  "find_loop page key x 0 =
     Inr (case pg_pointers page ! pg_size page of Some child \<Rightarrow> Descend child | None \<Rightarrow> Missing)"
| "find_loop page key x (Suc n) =
     (case pg_elements page ! x of
        None \<Rightarrow> Inl Undefined_behaviour
      | Some current \<Rightarrow>
          if dj_compare (ie_id current) key < 0 then
            Inr (case pg_pointers page ! x of Some child \<Rightarrow> Descend child | None \<Rightarrow> Missing)
          else if dj_compare (ie_id current) key = 0 then Inr (Found x)
          else find_loop page key (x + 1) n)"

text \<open>The element is found where it is: the page and the slot. The fuel counts levels.\<close>

primrec findIndex :: "nat \<Rightarrow> bptree \<Rightarrow> page_id \<Rightarrow> string \<Rightarrow> (page_id \<times> nat) option res" where
  "findIndex 0 t start key = Inl No_fuel"
| "findIndex (Suc n) t start key =
     bindR (page_at t start) (\<lambda>page.
     bindR (find_loop page key 0 (pg_size page)) (\<lambda>step.
     case step of
       Descend child \<Rightarrow> findIndex n t child key
     | Found x \<Rightarrow> Inr (Some (start, x))
     | Missing \<Rightarrow> Inr None))"

fun find_page_loop :: "index_page \<Rightarrow> string \<Rightarrow> nat \<Rightarrow> nat \<Rightarrow> page_id option res" where
  "find_page_loop page key x 0 = Inr (pg_pointers page ! pg_size page)"
| "find_page_loop page key x (Suc n) =
     (case pg_elements page ! x of
        None \<Rightarrow> Inl Undefined_behaviour
      | Some current \<Rightarrow>
          if dj_compare (ie_id current) key < 0 then Inr (pg_pointers page ! x)
          else find_page_loop page key (x + 1) n)"

primrec findIndexPage :: "nat \<Rightarrow> bptree \<Rightarrow> page_id \<Rightarrow> string \<Rightarrow> page_id res" where
  "findIndexPage 0 t start key = Inl No_fuel"
| "findIndexPage (Suc n) t start key =
     bindR (page_at t start) (\<lambda>page.
     if isLeaf page then Inr start
     else bindR (find_page_loop page key 0 (pg_size page)) (\<lambda>next_page.
       case next_page of Some child \<Rightarrow> findIndexPage n t child key | None \<Rightarrow> Inr start))"

text \<open>Every level has a page of its own, so the number of pages bounds the levels.\<close>

definition bt_fuel :: "bptree \<Rightarrow> nat" where
  "bt_fuel t = length (bt_pages t)"

definition bt_element :: "bptree \<Rightarrow> page_id \<times> nat \<Rightarrow> index_elem option" where
  "bt_element t = (\<lambda>(p, x). pg_elements (bt_pages t ! p) ! x)"

definition index_find :: "bptree \<Rightarrow> string \<Rightarrow> index_elem option res" where
  "index_find t key = bindR (findIndex (bt_fuel t) t (bt_head t) key) (\<lambda>found.
     Inr (case found of None \<Rightarrow> None | Some slot \<Rightarrow> bt_element t slot))"

section \<open>Inserting\<close>

text \<open>addElement on a page with room; the page on the right becomes its child.\<close>

definition add_to_page :: "page_id \<Rightarrow> index_elem \<Rightarrow> page_id option \<Rightarrow> bptree \<Rightarrow> bptree" where
  "add_to_page p index rightPointer t =
     (let page = bt_pages t ! p;
          pos = findInsertPositionArray (pg_elements page) index (pg_size page) BUCKET_MAX_ELEMENTS;
          elements = shiftRightArray (pg_elements page) pos 1 BUCKET_MAX_ELEMENTS;
          pointers = shiftRightArray (pg_pointers page) (pos + 1) 1 (BUCKET_MAX_ELEMENTS + 1);
          t = set_page p (page\<lparr>pg_elements := elements[pos := Some index],
                pg_pointers := pointers[pos + 1 := rightPointer], pg_size := pg_size page + 1\<rparr>) t in
      case rightPointer of None \<Rightarrow> t | Some r \<Rightarrow> set_parent (Some p) r t)"

definition createRoot :: "index_elem \<Rightarrow> page_id \<Rightarrow> page_id \<Rightarrow> bptree \<Rightarrow> bptree" where
  "createRoot element left right t =
     (let (h, t) = alloc_page (new_page\<lparr>
            pg_pointers := (pg_pointers new_page)[0 := Some left, 1 := Some right],
            pg_elements := (pg_elements new_page)[0 := Some element], pg_size := 1\<rparr>) t in
      set_parent (Some h) right (set_parent (Some h) left (t\<lparr>bt_head := h\<rparr>)))"

text \<open>
  The first halves of splitAddLeaf and splitAddInner: the six elements are spread over the page and a
  new one on its right. The last slot of the temporary arrays is not initialised; the insertion
  overwrites it.
\<close>

definition midPoint :: nat where
  "midPoint = BUCKET_MAX_ELEMENTS div 2"

definition clear_tail :: "index_page \<Rightarrow> index_page" where
  "clear_tail page = page\<lparr>
     pg_elements := fold (\<lambda>x es. es[x := None]) [pg_size page..<BUCKET_MAX_ELEMENTS] (pg_elements page),
     pg_pointers := (fold (\<lambda>x ps. ps[x + 1 := None]) [pg_size page..<BUCKET_MAX_ELEMENTS]
       (pg_pointers page))[BUCKET_MAX_ELEMENTS := None]\<rparr>"

definition split_leaf :: "page_id \<Rightarrow> index_elem \<Rightarrow> bptree \<Rightarrow> page_id \<times> bptree" where
  "split_leaf p index t =
     (let page = bt_pages t ! p;
          tmpelements = copyArray (pg_elements page) (replicate (BUCKET_MAX_ELEMENTS + 1) None) 0 (BUCKET_MAX_ELEMENTS - 1) 0;
          posToInsert = findInsertPositionArray tmpelements index (pg_size page) BUCKET_MAX_ELEMENTS;
          tmpelements = insertArray tmpelements index posToInsert (BUCKET_MAX_ELEMENTS + 1);
          cleared = initializeArray (pg_elements page) BUCKET_MAX_ELEMENTS;
          t = set_page p (clear_tail (page\<lparr>pg_elements := copyArray tmpelements cleared 0 midPoint 0,
                pg_size := midPoint + 1\<rparr>)) t;
          t = refresh_parent p t;
          (r, t) = alloc_page (new_page\<lparr>pg_elements :=
                copyArray tmpelements (pg_elements new_page) (midPoint + 1) BUCKET_MAX_ELEMENTS 0,
                pg_size := midPoint + 1\<rparr>) t in
      (r, refresh_parent r t))"

definition split_inner :: "page_id \<Rightarrow> index_elem \<Rightarrow> page_id option \<Rightarrow> bptree \<Rightarrow> page_id \<times> bptree" where
  "split_inner p index rightPage t =
     (let page = bt_pages t ! p;
          tmpelements = copyArray (pg_elements page) (replicate (BUCKET_MAX_ELEMENTS + 1) None) 0 (BUCKET_MAX_ELEMENTS - 1) 0;
          tmppointers = copyArray (pg_pointers page) (replicate (BUCKET_MAX_ELEMENTS + 2) None) 0 BUCKET_MAX_ELEMENTS 0;
          posToInsert = findInsertPositionArray tmpelements index (pg_size page) BUCKET_MAX_ELEMENTS;
          tmpelements = insertArray tmpelements index posToInsert (BUCKET_MAX_ELEMENTS + 1);
          tmppointers = (shiftRightArray tmppointers (posToInsert + 1) 1 (BUCKET_MAX_ELEMENTS + 2))
            [posToInsert + 1 := rightPage];
          elements = initializeArray (pg_elements page) BUCKET_MAX_ELEMENTS;
          pointers = initializeArray (pg_pointers page) (BUCKET_MAX_ELEMENTS + 1);
          t = set_page p (clear_tail (page\<lparr>pg_elements := copyArray tmpelements elements 0 midPoint 0,
                pg_pointers := copyArray tmppointers pointers 0 (midPoint + 1) 0, pg_size := midPoint + 1\<rparr>)) t;
          t = refresh_parent p t;
          (r, t) = alloc_page (new_page\<lparr>
                pg_elements := copyArray tmpelements (pg_elements new_page) (midPoint + 1) BUCKET_MAX_ELEMENTS 0,
                pg_pointers := copyArray tmppointers (pg_pointers new_page) (midPoint + 2) (BUCKET_MAX_ELEMENTS + 1) 1,
                pg_size := midPoint + 1\<rparr>) t in
      (r, refresh_parent r t))"

text \<open>The last part of splitAddInner: the promoted element leaves the new page.\<close>

definition drop_first :: "page_id \<Rightarrow> bptree \<Rightarrow> bptree" where
  "drop_first r t =
     (let page = bt_pages t ! r in
      set_page r (page\<lparr>pg_elements := shiftLeftArray (pg_elements page) 0 1 (BUCKET_MAX_ELEMENTS - 1),
        pg_pointers := shiftLeftArray (pg_pointers page) 0 1 BUCKET_MAX_ELEMENTS,
        pg_size := pg_size page - 1\<rparr>) t)"

text \<open>
  The promotion of the first element of the new page: a new root, or addElement on the parent.
  addElement calls splitAdd, which calls addElement on the parent again.
\<close>

definition promote ::
    "(page_id \<Rightarrow> index_elem \<Rightarrow> page_id option \<Rightarrow> bptree \<Rightarrow> bptree res) \<Rightarrow> page_id \<Rightarrow> page_id \<Rightarrow> bptree \<Rightarrow> bptree res" where
  "promote add page right t =
     (case pg_elements (bt_pages t ! right) ! 0 of
        None \<Rightarrow> Inl Undefined_behaviour
      | Some element \<Rightarrow>
          (case pg_parent (bt_pages t ! page) of
             None \<Rightarrow> Inr (createRoot element page right t)
           | Some parentElement \<Rightarrow> add parentElement element (Some right) t))"

definition refresh_parent_of :: "page_id \<Rightarrow> bptree \<Rightarrow> bptree res" where
  "refresh_parent_of r t =
     (case pg_parent (bt_pages t ! r) of
        None \<Rightarrow> Inl Undefined_behaviour | Some parentElement \<Rightarrow> Inr (refresh_parent parentElement t))"

primrec addElement :: "nat \<Rightarrow> page_id \<Rightarrow> index_elem \<Rightarrow> page_id option \<Rightarrow> bptree \<Rightarrow> bptree res" where
  "addElement 0 p index rightPointer t = Inl No_fuel"
| "addElement (Suc n) p index rightPointer t =
     bindR (page_at t p) (\<lambda>page.
     if \<not> isFull page then Inr (add_to_page p index rightPointer t)
     else if isLeaf page then
       (if rightPointer \<noteq> None then Inl Assertion_failed
        else let (r, t) = split_leaf p index t in
          bindR (promote (addElement n) p r t) (refresh_parent_of r))
     else
       (let (r, t) = split_inner p index rightPointer t in
        bindR (promote (addElement n) p r t) (\<lambda>t. refresh_parent_of r (drop_first r t))))"

definition index_add :: "string \<Rightarrow> string \<Rightarrow> nat \<Rightarrow> bptree \<Rightarrow> bptree res" where
  "index_add key docId filePos t =
     bindR (findIndexPage (bt_fuel t) t (bt_head t) key) (\<lambda>pageFound.
     addElement (bt_fuel t) pageFound \<lparr>ie_id = key, ie_documentId = docId, ie_posData = filePos\<rparr> None t)"

text \<open>update looks for the element from the page that an insertion would use.\<close>

definition index_update :: "string \<Rightarrow> nat \<Rightarrow> bptree \<Rightarrow> (bool \<times> bptree) res" where
  "index_update key filePos t =
     bindR (findIndexPage (bt_fuel t) t (bt_head t) key) (\<lambda>pageFound.
     bindR (findIndex (bt_fuel t) t pageFound key) (\<lambda>found.
     case found of
       None \<Rightarrow> Inr (False, t)
     | Some (p, x) \<Rightarrow>
         (case bt_element t (p, x) of
            None \<Rightarrow> Inl Undefined_behaviour
          | Some current \<Rightarrow>
              Inr (True, set_page p ((bt_pages t ! p)\<lparr>pg_elements :=
                (pg_elements (bt_pages t ! p))[x := Some (current\<lparr>ie_posData := filePos\<rparr>)]\<rparr>) t))))"

definition index_remove :: "string \<Rightarrow> bptree \<Rightarrow> bptree" where
  "index_remove key t = t"

end
