(* ===== verification/Index_Inv.thy ===== *)
theory Index_Inv
  imports Index_Tree "HOL-Library.Product_Lexorder"
begin

text \<open>
  The invariant of the B+ tree of Index_Tree and what a search finds in a tree that has it.
  Every page has a node: its elements, its children and its parent as the arrays hold them, with the
  level and the interval of keys that the page stands for, which the program does not store.
\<close>

declare split_paired_All [simp del] split_paired_Ex [simp del]

section \<open>The order of the keys\<close>

definition dk :: "string \<Rightarrow> nat \<times> string" where
  "dk s = (length s, c_str s)"

lemma byte_diff_less: "byte_diff x y < 0 \<longleftrightarrow> x < y"
  by (simp add: byte_diff_def less_char_def)

lemma strncmp_less: "length a = length b \<Longrightarrow> strncmp a b < 0 \<longleftrightarrow> c_str a < c_str b"
proof (induction a b rule: strncmp.induct)
  case (1 x as y bs)
  have zero: "x = CHR 0x00 \<Longrightarrow> \<not> y < x" for x y :: char by (simp add: less_char_def)
  have "CHR 0x00 < x" if "x \<noteq> CHR 0x00" for x :: char
    using that zero [of "CHR 0x00" x] by (meson linorder_neqE)
  with 1 zero show ?case by (auto simp: c_str_def byte_diff_less)
qed (auto simp: c_str_def)

lemma dj_compare_less: "dj_compare a b < 0 \<longleftrightarrow> dk a < dk b"
  by (auto simp: dj_compare_def dk_def strncmp_less)

lemma dj_compare_eq: "dj_compare a b = 0 \<longleftrightarrow> dk a = dk b"
  by (auto simp: dj_compare_def dk_def strncmp_eq)

lemma dk_inj: "no_nul a \<Longrightarrow> no_nul b \<Longrightarrow> dk a = dk b \<longleftrightarrow> a = b"
  by (auto simp: dk_def)

section \<open>Arrays\<close>

definition pad :: "nat \<Rightarrow> 'a list \<Rightarrow> 'a option list" where
  "pad n xs = map Some xs @ replicate (n - length xs) None"

lemma length_pad [simp]: "length xs \<le> n \<Longrightarrow> length (pad n xs) = n"
  by (simp add: pad_def)

lemma shift_right:
  "k \<le> length xs \<Longrightarrow>
   fold (\<lambda>x array. move_slot x (x + 1) array) (rev [k..<length xs]) (xs @ [y]) =
     take k xs @ (if k < length xs then None # drop k xs else [y])"
proof (induction "length xs - k" arbitrary: k)
  case (Suc m)
  then have k: "k < length xs" by simp
  let ?tail = "if Suc k < length xs then None # drop (Suc k) xs else [y]"
  have "fold (\<lambda>x array. move_slot x (x + 1) array) (rev [Suc k..<length xs]) (xs @ [y]) = take (Suc k) xs @ ?tail"
    using Suc k by auto
  moreover have "rev [k..<length xs] = rev [Suc k..<length xs] @ [k]" using k by (simp add: upt_rec)
  moreover obtain z zs where "drop k xs = z # zs" "take (Suc k) xs = take k xs @ [z]" "zs = drop (Suc k) xs"
    using k by (metis Cons_nth_drop_Suc take_Suc_conv_app_nth)
  ultimately show ?case using k by (auto simp: move_slot_def [of k] nth_append list_update_append)
qed simp

lemma shiftRight_set:
  assumes "length xs = n" "p < n"
  shows "(shiftRightArray xs p 1 n)[p := v] = take p xs @ v # drop p (butlast xs)"
proof -
  obtain ys y where xs: "xs = ys @ [y]" using assms by (cases xs rule: rev_cases) auto
  with assms have n: "n - 1 = length ys" "p \<le> length ys" by auto
  have "shiftRightArray xs p 1 n = take p ys @ (if p < length ys then None # drop p ys else [y])"
    using shift_right [OF n(2), of y] n(1) by (simp add: shiftRightArray_def xs)
  then show ?thesis using n xs by (auto simp: list_update_append)
qed

lemma pad_insert:
  assumes "length xs < n" "p \<le> length xs"
  shows "take p (pad n xs) @ Some v # drop p (butlast (pad n xs)) = pad n (take p xs @ v # drop p xs)"
proof -
  obtain m where m: "n - length xs = Suc m" using assms(1) by (cases "n - length xs") auto
  then have "n - Suc (length xs) = m" by simp
  have "replicate (Suc m) (None :: 'a option) = replicate m None @ [None]" by (metis replicate_append_same replicate_Suc)
  then have "butlast (pad n xs) = map Some xs @ replicate m None"
    by (simp add: pad_def m butlast_append del: replicate_Suc)
  with assms m show ?thesis by (simp add: pad_def take_map drop_map)
qed

lemma copyArray_eq:
  assumes "off + (e + 1 - s) \<le> length dst" "e + 1 \<le> length src" "s \<le> e"
  shows "copyArray src dst s e off = take off dst @ take (e + 1 - s) (drop s src) @ drop (off + (e + 1 - s)) dst"
proof -
  have "fold (\<lambda>x destination. destination[off + (x - s) := src ! x]) [s..<s + m] dst =
      take off dst @ take m (drop s src) @ drop (off + m) dst" if "m \<le> e + 1 - s" for m
    using that
  proof (induction m)
    case (Suc m)
    then have m: "off + m < length dst" "s + m < length src" using assms by auto
    have "take (Suc m) (drop s src) = take m (drop s src) @ [src ! (s + m)]"
      using m(2) by (simp add: take_Suc_conv_app_nth)
    moreover have "drop (off + m) dst = dst ! (off + m) # drop (off + Suc m) dst"
      using m(1) by (simp add: Cons_nth_drop_Suc)
    ultimately show ?case using Suc m by (simp add: list_update_append)
  qed simp
  from this [of "e + 1 - s"] assms show ?thesis by (simp add: copyArray_def)
qed

lemma initializeArray_eq: "length xs = n \<Longrightarrow> initializeArray xs n = replicate n None"
proof -
  have "fold (\<lambda>x array. array[x := None]) [0..<m] xs = replicate m None @ drop m xs" if "m \<le> length xs" for m
    using that
  proof (induction m)
    case (Suc m)
    then have "drop m xs = xs ! m # drop (Suc m) xs" by (simp add: Cons_nth_drop_Suc)
    with Suc show ?case by (simp add: list_update_append replicate_append_same)
  qed simp
  then show "length xs = n \<Longrightarrow> initializeArray xs n = replicate n None" by (simp add: initializeArray_def)
qed

lemma find_position_pad:
  "find_position key (map Some es @ replicate m None) x = x + length (takeWhile (\<lambda>e. dk key \<le> dk (ie_id e)) es)"
proof (induction es arbitrary: x)
  case Nil
  show ?case by (cases m) auto
next
  case (Cons e es)
  then show ?case by (simp add: dj_compare_less not_less)
qed

section \<open>Intervals\<close>

type_synonym dkey = "nat \<times> string"
type_synonym 'k bound = "'k option"

text \<open>A page stands for the keys above its lower bound, up to its upper one.\<close>

definition above :: "'k::linorder bound \<Rightarrow> 'k \<Rightarrow> bool" where
  "above lo k \<longleftrightarrow> (case lo of None \<Rightarrow> True | Some l \<Rightarrow> l < k)"

definition upto :: "'k::linorder \<Rightarrow> 'k bound \<Rightarrow> bool" where
  "upto k hi \<longleftrightarrow> (case hi of None \<Rightarrow> True | Some h \<Rightarrow> k \<le> h)"

definition within :: "'k::linorder \<Rightarrow> 'k bound \<times> 'k bound \<Rightarrow> bool" where
  "within k b \<longleftrightarrow> above (fst b) k \<and> upto k (snd b)"

lemmas bounds = above_def upto_def within_def

text \<open>The intervals of the children between the keys of a page.\<close>

fun ivs :: "'k::linorder bound \<Rightarrow> 'k list \<Rightarrow> 'k bound \<Rightarrow> ('k bound \<times> 'k bound) list" where
  "ivs hi [] lo = [(lo, hi)]"
| "ivs hi (k # ks) lo = (Some k, hi) # ivs (Some k) ks lo"

definition desc :: "'k::linorder list \<Rightarrow> bool" where
  "desc ks \<longleftrightarrow> sorted_wrt (\<lambda>a b. b < a) ks"

lemma desc_simps [simp]: "desc []" "desc (k # ks) \<longleftrightarrow> (\<forall>x\<in>set ks. x < k) \<and> desc ks"
  by (simp_all add: desc_def)

lemma desc_append [simp]: "desc (xs @ ys) \<longleftrightarrow> desc xs \<and> desc ys \<and> (\<forall>x\<in>set xs. \<forall>y\<in>set ys. y < x)"
  by (auto simp: desc_def sorted_wrt_append)

lemma length_ivs [simp]: "length (ivs hi ks lo) = Suc (length ks)"
  by (induction hi ks lo rule: ivs.induct) auto

lemma ivs_append: "ivs hi (ks1 @ k # ks2) lo = ivs hi ks1 (Some k) @ ivs (Some k) ks2 lo"
  by (induction hi ks1 lo rule: ivs.induct) auto

lemma ivs_insert:
  "\<exists>P h l Q. length P = length ks1 \<and> ivs hi (ks1 @ ks2) lo = P @ (l, h) # Q \<and>
     ivs hi (ks1 @ k # ks2) lo = P @ (Some k, h) # (l, Some k) # Q"
proof (induction ks1 arbitrary: hi)
  case Nil
  show ?case by (cases ks2) auto
next
  case (Cons a ks1)
  from Cons [of "Some a"] obtain P h l Q where "length P = length ks1"
    "ivs (Some a) (ks1 @ ks2) lo = P @ (l, h) # Q" "ivs (Some a) (ks1 @ k # ks2) lo = P @ (Some k, h) # (l, Some k) # Q"
    by blast
  then show ?case by (intro exI [of _ "(Some a, hi) # P"] exI [of _ h] exI [of _ l] exI [of _ Q]) simp
qed

definition slot :: "'k::linorder \<Rightarrow> 'k list \<Rightarrow> nat" where
  "slot k ks = length (takeWhile (\<lambda>x. k \<le> x) ks)"

lemma slot_le: "slot k ks \<le> length ks"
  by (simp add: slot_def length_takeWhile_le)

text \<open>The slot of a key is the child whose interval holds it, and there is no other one.\<close>

lemma slot_within: "within k (lo, hi) \<Longrightarrow> desc ks \<Longrightarrow> within k (ivs hi ks lo ! slot k ks)"
proof (induction hi ks lo rule: ivs.induct)
  case (2 hi x ks lo)
  show ?case
  proof (cases "k \<le> x")
    case True
    with 2 show ?thesis by (simp add: slot_def bounds)
  next
    case False
    with 2(2) show ?thesis by (simp add: slot_def bounds)
  qed
qed (simp add: slot_def)

lemma slot_unique:
  "i \<le> length ks \<Longrightarrow> within k (ivs hi ks lo ! i) \<Longrightarrow> desc ks \<Longrightarrow> \<forall>x\<in>set ks. upto x hi \<Longrightarrow>
   slot k ks = i \<and> upto k hi"
proof (induction hi ks lo arbitrary: i rule: ivs.induct)
  case (2 hi x ks lo)
  show ?case
  proof (cases i)
    case 0
    with 2(3) show ?thesis by (auto simp: slot_def bounds)
  next
    case (Suc j)
    have "\<forall>y\<in>set ks. upto y (Some x)" using 2(4) by (auto simp: upto_def)
    with 2 Suc have "slot k ks = j" "upto k (Some x)" by auto
    moreover from this 2(5) have "k \<le> x" "upto k hi" by (auto simp: upto_def split: option.splits)
    ultimately show ?thesis using Suc by (simp add: slot_def)
  qed
qed (simp add: slot_def bounds)

lemma ivs_within:
  "b \<in> set (ivs hi ks lo) \<Longrightarrow> within k b \<Longrightarrow> desc ks \<Longrightarrow> \<forall>x\<in>set ks. within x (lo, hi) \<Longrightarrow> within k (lo, hi)"
proof (induction hi ks lo rule: ivs.induct)
  case (2 hi x ks lo)
  show ?case
  proof (cases "b = (Some x, hi)")
    case True
    with 2(3,5) show ?thesis by (auto simp: bounds split: option.splits)
  next
    case False
    with 2(2) have b: "b \<in> set (ivs (Some x) ks lo)" by simp
    have "\<forall>y\<in>set ks. within y (lo, Some x)" using 2(4,5) by (auto simp: bounds)
    with 2 b have "within k (lo, Some x)" by simp
    with 2(5) show ?thesis by (auto simp: bounds split: option.splits)
  qed
qed simp

section \<open>Nodes and the invariant\<close>

record node =
  n_es :: "index_elem list"
  n_cs :: "page_id list"
  n_par :: "page_id option"
  n_level :: nat
  n_lo :: "dkey bound"
  n_hi :: "dkey bound"

abbreviation n_keys :: "node \<Rightarrow> dkey list" where
  "n_keys N \<equiv> map (\<lambda>e. dk (ie_id e)) (n_es N)"

abbreviation n_iv :: "node \<Rightarrow> dkey bound \<times> dkey bound" where
  "n_iv N \<equiv> (n_lo N, n_hi N)"

definition mk :: "node \<Rightarrow> index_page" where
  "mk N = \<lparr>pg_elements = pad 5 (n_es N), pg_pointers = pad 6 (n_cs N), pg_size = length (n_es N), pg_parent = n_par N\<rparr>"

text \<open>The new page on the right of an inner page, before the promoted element has left it.\<close>

definition mk_dirty :: "index_elem \<Rightarrow> node \<Rightarrow> index_page" where
  "mk_dirty e N = \<lparr>pg_elements = pad 5 (e # n_es N), pg_pointers = None # pad 5 (n_cs N),
     pg_size = Suc (length (n_es N)), pg_parent = n_par N\<rparr>"

definition page_of :: "index_elem option \<Rightarrow> node \<Rightarrow> index_page" where
  "page_of d N = (case d of None \<Rightarrow> mk N | Some e \<Rightarrow> mk_dirty e N)"

type_synonym dirt = "page_id \<Rightarrow> index_elem option"

definition conc :: "bptree \<Rightarrow> (page_id \<Rightarrow> node) \<Rightarrow> dirt \<Rightarrow> bool" where
  "conc t G D \<longleftrightarrow> (\<forall>i<length (bt_pages t). bt_pages t ! i = page_of (D i) (G i))"

text \<open>All of the invariant of a page but its length, which is too large while an element is added.\<close>

definition shape_ok :: "(page_id \<Rightarrow> node) \<Rightarrow> nat \<Rightarrow> page_id \<Rightarrow> bool" where
  "shape_ok G n i \<longleftrightarrow> (let N = G i in
     desc (n_keys N) \<and> (\<forall>k\<in>set (n_keys N). within k (n_iv N)) \<and>
     (if n_level N = 0 then n_cs N = []
      else map (\<lambda>c. n_iv (G c)) (n_cs N) = ivs (n_hi N) (n_keys N) (n_lo N) \<and>
        (\<forall>c\<in>set (n_cs N). c < n \<and> n_level N = Suc (n_level (G c)) \<and> n_par (G c) = Some i)))"

definition node_ok :: "(page_id \<Rightarrow> node) \<Rightarrow> nat \<Rightarrow> page_id \<Rightarrow> bool" where
  "node_ok G n i \<longleftrightarrow> length (n_es (G i)) \<le> 5 \<and> shape_ok G n i"

definition link_ok :: "(page_id \<Rightarrow> node) \<Rightarrow> nat \<Rightarrow> page_id \<Rightarrow> page_id \<Rightarrow> bool" where
  "link_ok G n head i \<longleftrightarrow> (if i = head then n_par (G i) = None
     else \<exists>q<n. n_par (G i) = Some q \<and> i \<in> set (n_cs (G q)))"

definition good :: "(page_id \<Rightarrow> node) \<Rightarrow> nat \<Rightarrow> page_id \<Rightarrow> bool" where
  "good G n head \<longleftrightarrow> head < n \<and> n_lo (G head) = None \<and> n_hi (G head) = None \<and> n_level (G head) < n \<and>
     (\<forall>i<n. n_level (G i) \<le> n_level (G head) \<and> node_ok G n i \<and> link_ok G n head i)"

lemma goodD:
  assumes "good G n head"
  shows "head < n" "n_lo (G head) = None" "n_hi (G head) = None" "n_level (G head) < n"
    "i < n \<Longrightarrow> n_level (G i) \<le> n_level (G head)" "i < n \<Longrightarrow> node_ok G n i" "i < n \<Longrightarrow> link_ok G n head i"
  using assms by (auto simp: good_def)

text \<open>A child of an inner page.\<close>

lemma body_child:
  assumes "node_ok G n i" "0 < n_level (G i)" "x \<le> length (n_es (G i))"
  shows "x < length (n_cs (G i))" "n_cs (G i) ! x < n" "n_level (G i) = Suc (n_level (G (n_cs (G i) ! x)))"
    "n_iv (G (n_cs (G i) ! x)) = ivs (n_hi (G i)) (n_keys (G i)) (n_lo (G i)) ! x"
    "n_par (G (n_cs (G i) ! x)) = Some i"
proof -
  have m: "map (\<lambda>c. n_iv (G c)) (n_cs (G i)) = ivs (n_hi (G i)) (n_keys (G i)) (n_lo (G i))"
    using assms(1,2) by (simp add: node_ok_def shape_ok_def Let_def)
  from arg_cong [OF this, of length] have "length (n_cs (G i)) = Suc (length (n_es (G i)))" by simp
  then show x: "x < length (n_cs (G i))" using assms(3) by simp
  show "n_iv (G (n_cs (G i) ! x)) = ivs (n_hi (G i)) (n_keys (G i)) (n_lo (G i)) ! x"
    using x by (simp flip: m)
  from x have "n_cs (G i) ! x \<in> set (n_cs (G i))" by simp
  then show "n_cs (G i) ! x < n" "n_level (G i) = Suc (n_level (G (n_cs (G i) ! x)))" "n_par (G (n_cs (G i) ! x)) = Some i"
    using assms(1,2) by (auto simp: node_ok_def shape_ok_def Let_def)
qed

lemma body_kids:
  assumes "node_ok G n i" "0 < n_level (G i)"
  shows "map (\<lambda>c. n_iv (G c)) (n_cs (G i)) = ivs (n_hi (G i)) (n_keys (G i)) (n_lo (G i))"
    "length (n_cs (G i)) = Suc (length (n_es (G i)))"
proof -
  show m: "map (\<lambda>c. n_iv (G c)) (n_cs (G i)) = ivs (n_hi (G i)) (n_keys (G i)) (n_lo (G i))"
    using assms by (simp add: node_ok_def shape_ok_def Let_def)
  from arg_cong [OF this, of length] show "length (n_cs (G i)) = Suc (length (n_es (G i)))" by simp
qed

lemmas length_kids = body_kids(2)

lemma body_kid:
  assumes "node_ok G n i" "0 < n_level (G i)" "x \<in> set (n_cs (G i))"
  shows "n_level (G i) = Suc (n_level (G x))" "x < n" "n_par (G x) = Some i"
  using assms unfolding node_ok_def shape_ok_def Let_def by (auto split: if_splits)

lemma body_desc: "node_ok G n i \<Longrightarrow> desc (n_keys (G i))"
  by (simp add: node_ok_def shape_ok_def Let_def)

lemma body_within: "node_ok G n i \<Longrightarrow> k \<in> set (n_keys (G i)) \<Longrightarrow> within k (n_iv (G i))"
  unfolding node_ok_def shape_ok_def Let_def by blast

text \<open>The child that a key leads to, and that it is the only one.\<close>

lemma child_within:
  assumes "node_ok G n i" "0 < n_level (G i)" "within k (n_iv (G i))"
  shows "within k (n_iv (G (n_cs (G i) ! slot k (n_keys (G i)))))"
  using body_child(4) [OF assms(1,2)] slot_le [of k "n_keys (G i)"] slot_within [OF assms(3) body_desc [OF assms(1)]]
  by simp

lemma child_slot:
  assumes "node_ok G n i" "0 < n_level (G i)" "x \<le> length (n_es (G i))" "within k (n_iv (G (n_cs (G i) ! x)))"
  shows "x = slot k (n_keys (G i))" "within k (n_iv (G i))"
proof -
  have "\<forall>y\<in>set (n_keys (G i)). upto y (n_hi (G i))" using body_within [OF assms(1)] by (auto simp: within_def)
  with slot_unique [of x "n_keys (G i)" k "n_hi (G i)" "n_lo (G i)"] assms body_child(4) [OF assms(1-3)]
    body_desc [OF assms(1)] show "x = slot k (n_keys (G i))" by simp
  show "within k (n_iv (G i))"
  proof (rule ivs_within)
    show "n_iv (G (n_cs (G i) ! x)) \<in> set (ivs (n_hi (G i)) (n_keys (G i)) (n_lo (G i)))"
      unfolding body_child(4) [OF assms(1-3)] using assms(3) by (intro nth_mem) simp
    show "\<forall>y\<in>set (n_keys (G i)). within y (n_lo (G i), n_hi (G i))" using body_within [OF assms(1)] by blast
  qed (use assms(4) body_desc [OF assms(1)] in auto)
qed

lemma child_level:
  assumes "good G n head" "q < n" "i \<in> set (n_cs (G q))"
  shows "n_level (G q) = Suc (n_level (G i))" "0 < n_level (G q)" "i < n" "n_par (G i) = Some q"
proof -
  note B = goodD(6) [OF assms(1,2)]
  show pos: "0 < n_level (G q)" using B assms(3) by (cases "n_level (G q)") (auto simp: node_ok_def shape_ok_def Let_def)
  show "n_level (G q) = Suc (n_level (G i))" "i < n" "n_par (G i) = Some q"
    using B pos assms(3) unfolding node_ok_def shape_ok_def Let_def by auto
qed

lemma parent_of:
  assumes "good G n head" "i < n" "i \<noteq> head"
  obtains q x where "q < n" "x \<le> length (n_es (G q))" "n_cs (G q) ! x = i" "i \<in> set (n_cs (G q))"
proof -
  obtain q where q: "q < n" "i \<in> set (n_cs (G q))" using goodD(7) [OF assms(1,2)] assms(3) by (auto simp: link_ok_def)
  then obtain x where "x < length (n_cs (G q))" "n_cs (G q) ! x = i" by (metis in_set_conv_nth)
  with q length_kids [OF goodD(6) [OF assms(1) q(1)] child_level(2) [OF assms(1) q]] that [of q x]
  show ?thesis by simp
qed

lemma top_level: "good G n head \<Longrightarrow> i < n \<Longrightarrow> n_level (G i) = n_level (G head) \<Longrightarrow> i = head"
proof (rule ccontr)
  assume g: "good G n head" "i < n" "n_level (G i) = n_level (G head)" "i \<noteq> head"
  from parent_of [OF g(1,2,4)] obtain q where q: "q < n" "i \<in> set (n_cs (G q))" by blast
  from child_level(1) [OF g(1) q] goodD(5) [OF g(1) q(1)] g(3) show False by simp
qed

text \<open>Two pages of a level that stand for the same key are the same page.\<close>

lemma page_unique:
  assumes good: "good G n head"
  shows "i < n \<Longrightarrow> j < n \<Longrightarrow> n_level (G i) = n_level (G j) \<Longrightarrow> within k (n_iv (G i)) \<Longrightarrow> within k (n_iv (G j)) \<Longrightarrow> i = j"
proof (induction "n_level (G head) - n_level (G i)" arbitrary: i j)
  case 0
  then have "n_level (G i) = n_level (G head)" using goodD(5) [OF good, of i] by simp
  with 0 top_level [OF good 0(2)] top_level [OF good 0(3)] show ?case by metis
next
  case (Suc m)
  have ne: "i \<noteq> head" "j \<noteq> head" using Suc.hyps(2) Suc.prems(3) by auto
  from parent_of [OF good Suc.prems(1) ne(1)] obtain a x where
    a: "a < n" "x \<le> length (n_es (G a))" "n_cs (G a) ! x = i" "i \<in> set (n_cs (G a))" .
  from parent_of [OF good Suc.prems(2) ne(2)] obtain b y where
    b: "b < n" "y \<le> length (n_es (G b))" "n_cs (G b) ! y = j" "j \<in> set (n_cs (G b))" .
  note la = child_level(1,2) [OF good a(1,4)] and lb = child_level(1,2) [OF good b(1,4)]
  have cx: "x = slot k (n_keys (G a))" "within k (n_iv (G a))"
    using child_slot [OF goodD(6) [OF good a(1)] la(2) a(2), of k] Suc.prems(4) a(3) by simp_all
  have cy: "y = slot k (n_keys (G b))" "within k (n_iv (G b))"
    using child_slot [OF goodD(6) [OF good b(1)] lb(2) b(2), of k] Suc.prems(5) b(3) by simp_all
  have "m = n_level (G head) - n_level (G a)" "n_level (G a) = n_level (G b)"
    using Suc.hyps(2) la(1) lb(1) Suc.prems(3) by linarith+
  then have "a = b" by (rule Suc.hyps(1) [OF _ a(1) b(1) _ cx(2) cy(2)])
  moreover from this have "x = y" unfolding cx(1) cy(1) by simp
  ultimately show ?case using a(3) b(3) by blast
qed

section \<open>Searching\<close>

lemma pad_nth: "i < n \<Longrightarrow> pad n xs ! i = (if i < length xs then Some (xs ! i) else None)"
  by (simp add: pad_def nth_append)

lemma body_short: "node_ok G n i \<Longrightarrow> length (n_es (G i)) \<le> 5"
  by (simp add: node_ok_def shape_ok_def Let_def)

lemma isLeaf_mk: "node_ok G n i \<Longrightarrow> isLeaf (mk (G i)) \<longleftrightarrow> n_level (G i) = 0"
proof
  assume B: "node_ok G n i" and leaf: "isLeaf (mk (G i))"
  show "n_level (G i) = 0"
  proof (rule ccontr)
    assume "n_level (G i) \<noteq> 0"
    then have "0 < length (n_cs (G i))" using length_kids [OF B] by simp
    moreover have "0 \<in> set [0..<pg_size (mk (G i)) + 1]" unfolding set_upt by simp
    with leaf have "pg_pointers (mk (G i)) ! 0 = None" unfolding isLeaf_def by blast
    ultimately show False by (simp add: mk_def pad_nth)
  qed
next
  assume "node_ok G n i" "n_level (G i) = 0"
  then show "isLeaf (mk (G i))"
    by (auto simp: isLeaf_def mk_def node_ok_def shape_ok_def Let_def pad_nth)
qed

definition first_at :: "string \<Rightarrow> index_elem list \<Rightarrow> nat" where
  "first_at key es = length (takeWhile (\<lambda>e. dk key < dk (ie_id e)) es)"

lemma find_loop_eq:
  assumes "pg_elements page = pad 5 es" "pg_size page = length es" "length es \<le> 5"
  shows "x + n = length es \<Longrightarrow> find_loop page key x n =
    (let i = x + first_at key (drop x es) in
     Inr (if i < length es \<and> dk (ie_id (es ! i)) = dk key then Found i
       else case pg_pointers page ! i of Some child \<Rightarrow> Descend child | None \<Rightarrow> Missing))"
proof (induction n arbitrary: x)
  case 0
  then show ?case by (simp add: first_at_def assms)
next
  case (Suc n)
  then have x: "x < length es" by simp
  then have d: "drop x es = es ! x # drop (Suc x) es" by (simp add: Cons_nth_drop_Suc)
  have e: "pg_elements page ! x = Some (es ! x)" using x assms(1,3) by (simp add: pad_nth)
  show ?case
  proof (cases "dk key < dk (ie_id (es ! x))")
    case True
    then have "\<not> dk (ie_id (es ! x)) < dk key" "dk (ie_id (es ! x)) \<noteq> dk key" by auto
    with e Suc.IH [of "Suc x"] Suc.prems d True show ?thesis
      by (simp add: dj_compare_less dj_compare_eq first_at_def)
  next
    case False
    with e d x show ?thesis by (auto simp: dj_compare_less dj_compare_eq first_at_def)
  qed
qed

lemma find_page_loop_eq:
  assumes "pg_elements page = pad 5 es" "pg_size page = length es" "length es \<le> 5"
  shows "x + n = length es \<Longrightarrow> find_page_loop page key x n =
    Inr (pg_pointers page ! (x + slot (dk key) (map (\<lambda>e. dk (ie_id e)) (drop x es))))"
proof (induction n arbitrary: x)
  case 0
  then show ?case by (simp add: slot_def assms)
next
  case (Suc n)
  then have x: "x < length es" by simp
  then have d: "drop x es = es ! x # drop (Suc x) es" by (simp add: Cons_nth_drop_Suc)
  have e: "pg_elements page ! x = Some (es ! x)" using x assms(1,3) by (simp add: pad_nth)
  from e Suc.IH [of "Suc x"] Suc.prems d show ?case
    by (auto simp: dj_compare_less slot_def not_less)
qed

text \<open>A key that a page does not have is found where the search for its page goes.\<close>

lemma first_at_slot:
  assumes "dk key \<notin> (\<lambda>e. dk (ie_id e)) ` set es"
  shows "first_at key es = slot (dk key) (map (\<lambda>e. dk (ie_id e)) es)"
  using assms by (induction es) (auto simp: first_at_def slot_def)

lemma first_at_found:
  assumes "desc (map (\<lambda>e. dk (ie_id e)) es)" "e \<in> set es" "dk (ie_id e) = dk key"
  shows "first_at key es < length es \<and> dk (ie_id (es ! first_at key es)) = dk key"
  using assms by (induction es) (auto simp: first_at_def)

abbreviation clean :: dirt where
  "clean \<equiv> \<lambda>_. None"

lemma conc_clean: "conc t G clean \<Longrightarrow> i < length (bt_pages t) \<Longrightarrow> bt_pages t ! i = mk (G i)"
  by (simp add: conc_def page_of_def)

lemma mk_sel [simp]: "pg_elements (mk N) = pad 5 (n_es N)" "pg_size (mk N) = length (n_es N)"
  "pg_pointers (mk N) = pad 6 (n_cs N)" "pg_parent (mk N) = n_par N"
  by (simp_all add: mk_def)

lemma findIndexPage_spec:
  assumes good: "good G n head" and conc: "conc t G clean" and n: "n = length (bt_pages t)"
  shows "p < n \<Longrightarrow> within (dk key) (n_iv (G p)) \<Longrightarrow> n_level (G p) < m \<Longrightarrow>
    \<exists>q. findIndexPage m t p key = Inr q \<and> q < n \<and> n_level (G q) = 0 \<and> within (dk key) (n_iv (G q))"
proof (induction m arbitrary: p)
  case (Suc m)
  note B = goodD(6) [OF good Suc.prems(1)]
  have at: "page_at t p = Inr (mk (G p))" using conc_clean [OF conc] Suc.prems(1) n by (simp add: page_at_def)
  show ?case
  proof (cases "n_level (G p) = 0")
    case True
    with Suc.prems at isLeaf_mk [OF B] show ?thesis by simp
  next
    case False
    let ?s = "slot (dk key) (n_keys (G p))" and ?c = "n_cs (G p) ! slot (dk key) (n_keys (G p))"
    have s: "?s \<le> length (n_es (G p))" using slot_le [of "dk key" "n_keys (G p)"] by simp
    note ch = body_child [OF B _ s] child_within [OF B _ Suc.prems(2)]
    have "find_page_loop (mk (G p)) key 0 (length (n_es (G p))) = Inr (Some ?c)"
      using find_page_loop_eq [of "mk (G p)" "n_es (G p)" 0 "length (n_es (G p))" key] body_short [OF B] s ch(1) False
      by (simp add: pad_nth)
    moreover have "n_level (G ?c) < m" using Suc.prems(3) ch(3) False by simp
    then obtain q where "findIndexPage m t ?c key = Inr q" "q < n" "n_level (G q) = 0" "within (dk key) (n_iv (G q))"
      using Suc.IH [of ?c] ch(2,6) False by auto
    ultimately show ?thesis using at isLeaf_mk [OF B] False by simp
  qed
qed simp

text \<open>The element that is found is the one on the highest level that has the key.\<close>

definition found_at :: "(page_id \<Rightarrow> node) \<Rightarrow> nat \<Rightarrow> nat \<Rightarrow> dkey \<Rightarrow> (page_id \<times> nat) option \<Rightarrow> bool" where
  "found_at G n lev k found \<longleftrightarrow> (case found of
     None \<Rightarrow> \<forall>j<n. n_level (G j) \<le> lev \<longrightarrow> k \<notin> set (n_keys (G j))
   | Some (q, x) \<Rightarrow> q < n \<and> x < length (n_es (G q)) \<and> dk (ie_id (n_es (G q) ! x)) = k \<and> n_level (G q) \<le> lev \<and>
       (\<forall>j<n. n_level (G q) < n_level (G j) \<and> n_level (G j) \<le> lev \<longrightarrow> k \<notin> set (n_keys (G j))))"

lemma findIndex_spec:
  assumes good: "good G n head" and conc: "conc t G clean" and n: "n = length (bt_pages t)"
  shows "p < n \<Longrightarrow> within (dk key) (n_iv (G p)) \<Longrightarrow> n_level (G p) < m \<Longrightarrow>
    \<exists>found. findIndex m t p key = Inr found \<and> found_at G n (n_level (G p)) (dk key) found"
proof (induction m arbitrary: p)
  case (Suc m)
  note B = goodD(6) [OF good Suc.prems(1)]
  have at: "page_at t p = Inr (mk (G p))" using conc_clean [OF conc] Suc.prems(1) n by (simp add: page_at_def)
  note loop = find_loop_eq [of "mk (G p)" "n_es (G p)" 0 "length (n_es (G p))" key, simplified, OF body_short [OF B]]
  show ?case
  proof (cases "dk key \<in> set (n_keys (G p))")
    case True
    then obtain e where "e \<in> set (n_es (G p))" "dk (ie_id e) = dk key" by auto
    from first_at_found [OF body_desc [OF B] this] loop at Suc.prems(1) show ?thesis by (auto simp: found_at_def)
  next
    case False
    then have s: "first_at key (n_es (G p)) = slot (dk key) (n_keys (G p))" by (intro first_at_slot) auto
    have no: "\<not> (first_at key (n_es (G p)) < length (n_es (G p)) \<and> dk (ie_id (n_es (G p) ! first_at key (n_es (G p)))) = dk key)"
      using False by (metis (no_types, lifting) imageI list.set_map nth_mem)
    have others: "dk key \<notin> set (n_keys (G j))" if "j < n" "n_level (G j) = n_level (G p)" for j
    proof
      assume "dk key \<in> set (n_keys (G j))"
      with body_within [OF goodD(6) [OF good that(1)]] have "within (dk key) (n_iv (G j))" by blast
      with page_unique [OF good that(1) Suc.prems(1) that(2)] Suc.prems(2) have "j = p" by blast
      with \<open>dk key \<in> set (n_keys (G j))\<close> False show False by simp
    qed
    show ?thesis
    proof (cases "n_level (G p) = 0")
      case leaf: True
      then have "n_cs (G p) = []" using B by (simp add: node_ok_def shape_ok_def Let_def)
      then have "pad 6 (n_cs (G p)) ! first_at key (n_es (G p)) = None"
        using slot_le [of "dk key" "n_keys (G p)"] body_short [OF B] s by (simp add: pad_nth)
      with loop no at leaf others show ?thesis by (auto simp: found_at_def Let_def)
    next
      case inner: False
      let ?c = "n_cs (G p) ! slot (dk key) (n_keys (G p))"
      have sl: "slot (dk key) (n_keys (G p)) \<le> length (n_es (G p))" using slot_le [of "dk key" "n_keys (G p)"] by simp
      note ch = body_child [OF B _ sl] child_within [OF B _ Suc.prems(2)]
      have "pad 6 (n_cs (G p)) ! slot (dk key) (n_keys (G p)) = Some ?c"
        using sl body_short [OF B] ch(1) inner by (simp add: pad_nth)
      then have step: "find_loop (mk (G p)) key 0 (length (n_es (G p))) = Inr (Descend ?c)"
        using loop no s by (simp add: Let_def)
      have lev: "n_level (G p) = Suc (n_level (G ?c))" using ch(3) inner by simp
      with Suc.prems(3) ch(2,6) inner Suc.IH [of ?c] obtain found where
        f: "findIndex m t ?c key = Inr found" "found_at G n (n_level (G ?c)) (dk key) found" by auto
      have "found_at G n (n_level (G p)) (dk key) found"
        using f(2) others unfolding found_at_def lev
        by (auto split: option.splits simp: le_Suc_eq)
      with f(1) step at show ?thesis by simp
    qed
  qed
qed simp

end
