(* ===== verification/Index_Insert.thy ===== *)
theory Index_Insert
  imports Index_Inv
begin

text \<open>
  The proof that an insertion into the B+ tree keeps the invariant of Index_Inv: what adding an
  element and splitting do to the nodes, that the operations on pages do just that, and the
  induction over the levels of the tree. The last section states it for whole trees by the elements
  on inner pages and on leaves.
\<close>

declare split_paired_All [simp del] split_paired_Ex [simp del]

section \<open>Adding an element to a node\<close>

lemma shape_inner:
  assumes "0 < n_level (G i)" "desc (n_keys (G i))" "\<forall>k\<in>set (n_keys (G i)). within k (n_lo (G i), n_hi (G i))"
    and "map (\<lambda>c. n_iv (G c)) (n_cs (G i)) = ivs (n_hi (G i)) (n_keys (G i)) (n_lo (G i))"
    and "\<forall>c\<in>set (n_cs (G i)). c < n \<and> n_level (G i) = Suc (n_level (G c)) \<and> n_par (G c) = Some i"
  shows "shape_ok G n i"
  using assms unfolding shape_ok_def Let_def by auto

lemma shape_cong:
  assumes "shape_ok G n i" "n \<le> n'"
    and "n_es (G' i) = n_es (G i)" "n_cs (G' i) = n_cs (G i)" "n_level (G' i) = n_level (G i)" "n_iv (G' i) = n_iv (G i)"
    and "\<forall>x\<in>set (n_cs (G i)). n_iv (G' x) = n_iv (G x) \<and> n_level (G' x) = n_level (G x) \<and> n_par (G' x) = n_par (G x)"
  shows "shape_ok G' n' i"
proof -
  have m: "map (\<lambda>c. n_iv (G' c)) (n_cs (G i)) = map (\<lambda>c. n_iv (G c)) (n_cs (G i))"
    using assms(7) by simp
  have iv: "n_lo (G' i) = n_lo (G i)" "n_hi (G' i) = n_hi (G i)" using assms(6) by auto
  show ?thesis
    using assms(1,2,7) unfolding shape_ok_def Let_def assms(3-6) iv m by (auto split: if_splits)
qed

lemma ivs_sides:
  "desc ks \<Longrightarrow> i \<le> length ks \<Longrightarrow> ivs hi ks lo ! i = (l, h) \<Longrightarrow>
   (\<forall>x\<in>set (take i ks). \<exists>y. h = Some y \<and> y \<le> x) \<and> (\<forall>x\<in>set (drop i ks). \<exists>y. l = Some y \<and> x \<le> y)"
proof (induction hi ks lo arbitrary: i rule: ivs.induct)
  case (2 hi x ks lo)
  show ?case
  proof (cases i)
    case 0
    with 2 show ?thesis by auto
  next
    case (Suc j)
    with 2 have IH: "(\<forall>x\<in>set (take j ks). \<exists>y. h = Some y \<and> y \<le> x) \<and> (\<forall>x\<in>set (drop j ks). \<exists>y. l = Some y \<and> x \<le> y)" by auto
    have "\<exists>y. h = Some y \<and> y \<le> x"
    proof (cases j)
      case 0
      then have "h = Some x" using 2(4) Suc by (cases ks) auto
      then show ?thesis by simp
    next
      case (Suc j')
      with 2(3) \<open>i = Suc j\<close> obtain y where "y \<in> set (take j ks)" by (cases ks) auto
      moreover from this 2(2) have "y < x" by (auto dest: in_set_takeD)
      ultimately show ?thesis using IH by (meson less_imp_le order_trans)
    qed
    with IH Suc show ?thesis by auto
  qed
qed simp

text \<open>
  The state in which addElement is called on an inner page: its child c has given the lower part of
  its interval to the new page r, which no page points to yet.
\<close>

definition below :: "'k::linorder \<Rightarrow> 'k bound \<Rightarrow> bool" where
  "below k hi \<longleftrightarrow> (case hi of None \<Rightarrow> True | Some h \<Rightarrow> k < h)"

definition frame_ok :: "(page_id \<Rightarrow> node) \<Rightarrow> nat \<Rightarrow> page_id \<Rightarrow> bool" where
  "frame_ok G n head \<longleftrightarrow> head < n \<and> n_iv (G head) = (None, None) \<and> n_level (G head) < n \<and>
     (\<forall>i<n. n_level (G i) \<le> n_level (G head))"

definition pend :: "(page_id \<Rightarrow> node) \<Rightarrow> nat \<Rightarrow> page_id \<Rightarrow> page_id \<Rightarrow> page_id \<Rightarrow> page_id \<Rightarrow> dkey \<Rightarrow> bool" where
  "pend G n head p c r k \<longleftrightarrow> frame_ok G n head \<and> p < n \<and> 0 < n_level (G p) \<and> c \<in> set (n_cs (G p)) \<and>
     r < n \<and> r \<noteq> p \<and> r \<noteq> head \<and>
     (\<forall>i<n. i \<noteq> p \<longrightarrow> node_ok G n i) \<and> node_ok (G(c := G c\<lparr>n_lo := n_lo (G r)\<rparr>)) n p \<and>
     (\<forall>i<n. i \<noteq> r \<longrightarrow> link_ok G n head i) \<and>
     n_hi (G r) = Some k \<and> n_lo (G c) = Some k \<and> above (n_lo (G r)) k \<and> below k (n_hi (G c)) \<and>
     n_level (G r) = n_level (G c) \<and> (\<forall>i<n. r \<notin> set (n_cs (G i)))"

lemma pendD:
  assumes "pend G n head p c r k"
  shows "frame_ok G n head" "p < n" "0 < n_level (G p)" "c \<in> set (n_cs (G p))" "r < n" "r \<noteq> p" "r \<noteq> head"
    "i < n \<Longrightarrow> i \<noteq> p \<Longrightarrow> node_ok G n i" "node_ok (G(c := G c\<lparr>n_lo := n_lo (G r)\<rparr>)) n p"
    "i < n \<Longrightarrow> i \<noteq> r \<Longrightarrow> link_ok G n head i" "n_hi (G r) = Some k" "n_lo (G c) = Some k"
    "above (n_lo (G r)) k" "below k (n_hi (G c))" "n_level (G r) = n_level (G c)" "i < n \<Longrightarrow> r \<notin> set (n_cs (G i))"
  using assms by (simp_all add: pend_def)

definition over :: "(page_id \<Rightarrow> node) \<Rightarrow> nat \<Rightarrow> page_id \<Rightarrow> page_id \<Rightarrow> bool" where
  "over G n head p \<longleftrightarrow> frame_ok G n head \<and> p < n \<and> shape_ok G n p \<and>
     (\<forall>i<n. i \<noteq> p \<longrightarrow> node_ok G n i) \<and> (\<forall>i<n. link_ok G n head i)"

lemma over_good: "over G n head p \<Longrightarrow> length (n_es (G p)) \<le> 5 \<Longrightarrow> good G n head"
  unfolding over_def good_def frame_ok_def node_ok_def by auto

definition put_es :: "index_elem \<Rightarrow> index_elem list \<Rightarrow> index_elem list" where
  "put_es e es = (let s = slot (dk (ie_id e)) (map (\<lambda>e. dk (ie_id e)) es) in take s es @ e # drop s es)"

definition put_cs :: "nat \<Rightarrow> page_id \<Rightarrow> page_id list \<Rightarrow> page_id list" where
  "put_cs s r cs = take (s + 1) cs @ r # drop (s + 1) cs"

definition put_node :: "index_elem \<Rightarrow> page_id \<Rightarrow> node \<Rightarrow> node" where
  "put_node e r N = N\<lparr>n_es := put_es e (n_es N), n_cs := put_cs (slot (dk (ie_id e)) (n_keys N)) r (n_cs N)\<rparr>"

definition put_inner :: "page_id \<Rightarrow> index_elem \<Rightarrow> page_id \<Rightarrow> (page_id \<Rightarrow> node) \<Rightarrow> page_id \<Rightarrow> node" where
  "put_inner p e r G = G(p := put_node e r (G p), r := G r\<lparr>n_par := Some p\<rparr>)"

lemma map_split:
  assumes "map f (xs @ x # ys) = P @ y # Q" "length xs = length P"
  shows "map f xs = P" "f x = y" "map f ys = Q"
  using assms by (simp_all add: append_eq_append_conv)

lemma put_inner_over:
  assumes pend: "pend G n head p c r (dk (ie_id e))"
  shows "over (put_inner p e r G) n head p"
proof -
  let ?k = "dk (ie_id e)" and ?G0 = "G(c := G c\<lparr>n_lo := n_lo (G r)\<rparr>)"
  note F = pendD(1-7) [OF pend] and others = pendD(8) [OF pend] and B0 = pendD(9) [OF pend]
    and links = pendD(10) [OF pend] and K = pendD(11-15) [OF pend] and fresh = pendD(16) [OF pend]
  have cr: "c \<noteq> r" using F(2,4) fresh by blast
  have cp: "c \<noteq> p"
  proof
    assume eq: "c = p"
    have "n_level (?G0 p) = Suc (n_level (?G0 p))"
      using body_kid(1) [OF B0, of p] F(3,4) unfolding eq by simp
    then show False by simp
  qed
  define N where "N = G p"
  have Np: "?G0 p = N" using cp by (simp add: N_def)
  have lev: "0 < n_level (?G0 p)" using F(3) Np by (simp add: N_def)
  note B = body_kids [OF B0 lev, unfolded Np] body_desc [OF B0, unfolded Np] body_within [OF B0, unfolded Np]
  obtain j where j: "j < length (n_cs N)" "n_cs N ! j = c" using F(4) by (metis in_set_conv_nth N_def)
  have within_c: "within ?k (n_iv (?G0 c))" using K(3,4) by (auto simp: bounds below_def split: option.splits)
  have slot_j: "x = slot ?k (n_keys N)" if "x < length (n_cs N)" "n_cs N ! x = c" for x
    using child_slot(1) [OF B0 lev, of x ?k] that B(2) within_c Np by simp
  let ?s = "slot ?k (n_keys N)"
  have s: "?s < length (n_cs N)" "n_cs N ! ?s = c" using slot_j [OF j] j by auto
  have s_le: "?s \<le> length (n_es N)" using s(1) B(2) by simp
  define cs1 cs2 where "cs1 = take ?s (n_cs N)" and "cs2 = drop (Suc ?s) (n_cs N)"
  have cs: "n_cs N = cs1 @ c # cs2" using id_take_nth_drop [OF s(1)] s(2) by (simp add: cs1_def cs2_def)
  have notin: "c \<notin> set cs1" "c \<notin> set cs2"
  proof -
    show "c \<notin> set cs1"
    proof
      assume "c \<in> set cs1"
      then obtain x where "x < length cs1" "cs1 ! x = c" by (metis in_set_conv_nth)
      with slot_j [of x] s show False by (simp add: cs1_def)
    qed
    show "c \<notin> set cs2"
    proof
      assume "c \<in> set cs2"
      then obtain x where x: "x < length cs2" "cs2 ! x = c" by (metis in_set_conv_nth)
      then have "Suc ?s + x < length (n_cs N)" by (simp add: cs2_def less_diff_conv)
      with slot_j [of "Suc ?s + x"] x s show False by (simp add: cs2_def)
    qed
  qed
  have put: "put_cs ?s r (n_cs N) = cs1 @ c # r # cs2"
    using s by (simp add: put_cs_def cs1_def cs2_def take_Suc_conv_app_nth)
  define ks1 ks2 where "ks1 = take ?s (n_keys N)" and "ks2 = drop ?s (n_keys N)"
  have ks: "n_keys N = ks1 @ ks2" by (simp add: ks1_def ks2_def)
  obtain P h l Q where ivs: "length P = length ks1" "ivs (n_hi N) (n_keys N) (n_lo N) = P @ (l, h) # Q"
      "ivs (n_hi N) (ks1 @ ?k # ks2) (n_lo N) = P @ (Some ?k, h) # (l, Some ?k) # Q"
    using ivs_insert [of ks1 "n_hi N" ks2 "n_lo N" ?k] unfolding ks by blast
  have len: "length cs1 = length ks1" using s(1) s_le by (simp add: cs1_def ks1_def)
  have "map (\<lambda>x. n_iv (?G0 x)) (cs1 @ c # cs2) = P @ (l, h) # Q" using B(1) unfolding ivs(2) cs .
  note split = map_split [OF this, unfolded len ivs(1), OF refl]
  have keys: "map (\<lambda>e. dk (ie_id e)) (put_es e (n_es N)) = ks1 @ ?k # ks2"
    by (simp add: put_es_def Let_def ks1_def ks2_def take_map drop_map)
  have "ivs (n_hi N) (n_keys N) (n_lo N) ! ?s = (l, h)"
    using ivs(1,2) s_le by (simp add: ks1_def nth_append)
  note sides = ivs_sides [OF B(3) _ this]
  have lh: "l = n_lo (G r)" "h = n_hi (G c)" using split(2) by auto
  have "?s \<le> length (n_keys N)" using s_le by simp
  note sides = sides [OF this, folded ks1_def ks2_def]
  have "?k < x" if x: "x \<in> set ks1" for x
  proof -
    from sides [THEN conjunct1, rule_format, OF x] obtain y where "h = Some y" "y \<le> x" by (elim exE conjE)
    with K(4) lh show ?thesis by (auto simp: below_def split: option.splits)
  qed
  moreover have "x < ?k" if x: "x \<in> set ks2" for x
  proof -
    from sides [THEN conjunct2, rule_format, OF x] obtain y where "l = Some y" "x \<le> y" by (elim exE conjE)
    with K(3) lh show ?thesis by (auto simp: above_def split: option.splits)
  qed
  ultimately have desc: "desc (ks1 @ ?k # ks2)" using B(3) unfolding ks by auto
  have "within ?k (n_iv N)" using child_slot(2) [OF B0 lev, of ?s ?k] s s_le within_c Np by simp
  then have wi: "\<forall>x\<in>set (ks1 @ ?k # ks2). within x (n_iv N)" using B(4) unfolding ks by auto
  let ?G = "put_inner p e r G"
  have G: "?G p = put_node e r N" "?G r = G r\<lparr>n_par := Some p\<rparr>" "\<And>x. x \<noteq> p \<Longrightarrow> x \<noteq> r \<Longrightarrow> ?G x = G x"
    using F(6) by (auto simp: put_inner_def N_def)
  have rc: "r \<notin> set cs1" "r \<notin> set cs2" using fresh [OF F(2)] cs by (auto simp: N_def)
  have pc: "p \<notin> set cs1" "p \<notin> set cs2"
    using body_kid(1) [OF B0 lev, of p] unfolding Np cs by auto
  have kids: "x < n \<and> n_level N = Suc (n_level (G x)) \<and> n_par (G x) = Some p" if "x \<in> set (n_cs N)" for x
    using body_kid [OF B0 lev, of x] that unfolding Np by (auto split: if_splits)
  have same: "n_iv (?G x) = n_iv (G x)" "n_level (?G x) = n_level (G x)"
    "x \<noteq> r \<Longrightarrow> n_par (?G x) = n_par (G x)" "x \<noteq> p \<Longrightarrow> n_es (?G x) = n_es (G x) \<and> n_cs (?G x) = n_cs (G x)" for x
    by (simp_all add: put_inner_def put_node_def)
  have sel: "n_keys (?G p) = ks1 @ ?k # ks2" "n_cs (?G p) = cs1 @ c # r # cs2" "n_level (?G p) = n_level N"
    "n_lo (?G p) = n_lo N" "n_hi (?G p) = n_hi N"
    unfolding G(1) by (simp_all add: put_node_def keys put)
  have "map (\<lambda>x. n_iv (?G x)) cs1 = P" "map (\<lambda>x. n_iv (?G x)) cs2 = Q"
    unfolding split(1) [symmetric] split(3) [symmetric] same using notin by (auto intro!: map_cong)
  then have "map (\<lambda>x. n_iv (?G x)) (cs1 @ c # r # cs2) = ivs (n_hi N) (ks1 @ ?k # ks2) (n_lo N)"
    unfolding ivs(3) by (simp add: same lh K(1,2))
  moreover have "\<forall>x\<in>set (cs1 @ c # r # cs2). x < n \<and> n_level N = Suc (n_level (?G x)) \<and> n_par (?G x) = Some p"
  proof
    fix x assume x: "x \<in> set (cs1 @ c # r # cs2)"
    show "x < n \<and> n_level N = Suc (n_level (?G x)) \<and> n_par (?G x) = Some p"
    proof (cases "x = r")
      case True
      with kids [of c] cs K(5) F(5) G(2) show ?thesis by (simp add: same)
    next
      case False
      with x have "x \<in> set (n_cs N)" by (auto simp: cs)
      with kids [of x] same(3) [OF False] show ?thesis by (simp add: same)
    qed
  qed
  moreover have "0 < n_level N" using lev unfolding Np .
  ultimately have shape: "shape_ok ?G n p" using desc wi by (intro shape_inner; unfold sel)
  have "node_ok ?G n i" if i: "i < n" "i \<noteq> p" for i
  proof -
    have "\<forall>x\<in>set (n_cs (G i)). n_par (?G x) = n_par (G x)" using fresh [OF i(1)] same(3) by metis
    then have "shape_ok ?G n i"
      using others [OF i] same(4) [OF i(2)]
      by (intro shape_cong [of G n i n ?G]) (simp_all only: node_ok_def same order_refl simp_thms ball_simps)
    with others [OF i] same(4) [OF i(2)] show ?thesis by (simp add: node_ok_def)
  qed
  moreover have "link_ok ?G n head i" if i: "i < n" for i
  proof (cases "i = r")
    case True
    then have "i \<in> set (n_cs (?G p))" by (simp add: G(1) put_node_def put)
    with True F(2,7) G(2) show ?thesis by (auto simp: link_ok_def)
  next
    case False
    have "set (n_cs (G q)) \<subseteq> set (n_cs (?G q))" for q
      using same(4) [of q] sel(2) cs by (cases "q = p") (auto simp: N_def [symmetric])
    with links [OF i False] same(3) [OF False] show ?thesis unfolding link_ok_def by (auto split: if_splits)
  qed
  moreover have "frame_ok ?G n head" using F(1) same unfolding frame_ok_def by simp
  ultimately show ?thesis using shape F(2) unfolding over_def by blast
qed

definition put_leaf :: "page_id \<Rightarrow> index_elem \<Rightarrow> (page_id \<Rightarrow> node) \<Rightarrow> page_id \<Rightarrow> node" where
  "put_leaf p e G = G(p := G p\<lparr>n_es := put_es e (n_es (G p))\<rparr>)"

lemma put_es_keys:
  "map (\<lambda>e. dk (ie_id e)) (put_es e es) =
     (let ks = map (\<lambda>e. dk (ie_id e)) es; s = slot (dk (ie_id e)) ks in take s ks @ dk (ie_id e) # drop s ks)"
  by (simp add: put_es_def Let_def take_map drop_map)

lemma take_drop_set: "set (take n xs) \<union> set (drop n xs) = set xs"
  using arg_cong [OF append_take_drop_id, of set n xs] by (simp only: set_append)

lemma put_es_set [simp]: "set (put_es e es) = insert e (set es)"
proof -
  have "set (take n es) \<union> set (drop n es) = set es" for n by (rule take_drop_set)
  then show ?thesis unfolding put_es_def Let_def by simp
qed

lemma put_cs_set [simp]: "set (put_cs s r cs) = insert r (set cs)"
  using take_drop_set [of "Suc s" cs] by (simp add: put_cs_def)

lemma length_put_es [simp]: "length (put_es e es) = Suc (length es)"
  using slot_le [of "dk (ie_id e)" "map (\<lambda>e. dk (ie_id e)) es"] by (simp add: put_es_def Let_def)

lemma slot_desc:
  assumes "desc ks" "k \<notin> set ks"
  shows "desc (take (slot k ks) ks @ k # drop (slot k ks) ks)"
proof -
  have t: "take (slot k ks) ks = takeWhile (\<lambda>x. k \<le> x) ks" unfolding slot_def by (rule takeWhile_eq_take [symmetric])
  have d: "drop (slot k ks) ks = dropWhile (\<lambda>x. k \<le> x) ks" unfolding slot_def by (rule dropWhile_eq_drop [symmetric])
  have ks: "ks = takeWhile (\<lambda>x. k \<le> x) ks @ dropWhile (\<lambda>x. k \<le> x) ks" by simp
  have a: "x \<noteq> k" if "x \<in> set ks" for x using that assms(2) by blast
  have up: "\<forall>x\<in>set (takeWhile (\<lambda>x. k \<le> x) ks). k < x"
    using a by (auto dest!: set_takeWhileD simp: order_less_le)
  have "\<forall>x\<in>set (dropWhile (\<lambda>x. k \<le> x) ks). x < k"
  proof (cases "dropWhile (\<lambda>x. k \<le> x) ks")
    case (Cons y ys)
    then have "y < k" using hd_dropWhile [of "\<lambda>x. k \<le> x" ks] by simp
    moreover have "desc (y # ys)" using assms(1) ks Cons by (metis desc_append)
    ultimately show ?thesis unfolding Cons by auto
  next
    case Nil
    show ?thesis unfolding Nil by simp
  qed
  with up assms(1) show ?thesis unfolding t d using desc_append [of "takeWhile (\<lambda>x. k \<le> x) ks" "dropWhile (\<lambda>x. k \<le> x) ks"]
    by auto
qed

lemma put_leaf_over:
  assumes good: "good G n head" and p: "p < n" "n_level (G p) = 0" "within (dk (ie_id e)) (n_iv (G p))"
    and fresh: "dk (ie_id e) \<notin> set (n_keys (G p))"
  shows "over (put_leaf p e G) n head p"
proof -
  let ?G = "put_leaf p e G"
  note B = goodD(6) [OF good p(1)]
  have same: "n_iv (?G x) = n_iv (G x)" "n_level (?G x) = n_level (G x)" "n_par (?G x) = n_par (G x)"
    "n_cs (?G x) = n_cs (G x)" "x \<noteq> p \<Longrightarrow> n_es (?G x) = n_es (G x)" for x
    by (simp_all add: put_leaf_def)
  have "n_cs (G p) = []" using B p(2) by (simp add: node_ok_def shape_ok_def Let_def)
  moreover have "n_keys (?G p) = (let s = slot (dk (ie_id e)) (n_keys (G p)) in
      take s (n_keys (G p)) @ dk (ie_id e) # drop s (n_keys (G p)))"
    by (simp add: put_leaf_def put_es_keys Let_def)
  moreover have "\<forall>k\<in>set (n_keys (?G p)). within k (n_iv (G p))"
    using body_within [OF B] p(3) by (auto simp: put_leaf_def)
  ultimately have "shape_ok ?G n p"
    using p(2) slot_desc [OF body_desc [OF B] fresh] unfolding shape_ok_def Let_def by (simp add: same)
  moreover have "node_ok ?G n i" if i: "i < n" "i \<noteq> p" for i
    using goodD(6) [OF good i(1)] same(5) [OF i(2)] shape_cong [of G n i n ?G] by (simp add: node_ok_def same)
  moreover have "link_ok ?G n head i" if "i < n" for i
    using goodD(7) [OF good that] unfolding link_ok_def same .
  moreover have "frame_ok ?G n head" using goodD(1-5) [OF good] by (simp add: frame_ok_def same)
  ultimately show ?thesis using p(1) by (simp add: over_def)
qed

section \<open>Splitting a node\<close>

definition split_key :: "node \<Rightarrow> index_elem" where
  "split_key N = n_es N ! 3"

definition split_left :: "node \<Rightarrow> node" where
  "split_left N = N\<lparr>n_es := take 3 (n_es N), n_cs := take 4 (n_cs N), n_lo := Some (dk (ie_id (split_key N)))\<rparr>"

text \<open>A leaf keeps a copy of the promoted element.\<close>

definition split_right :: "node \<Rightarrow> node" where
  "split_right N = \<lparr>n_es = drop (if n_level N = 0 then 3 else 4) (n_es N), n_cs = drop 4 (n_cs N), n_par = None,
     n_level = n_level N, n_lo = n_lo N, n_hi = Some (dk (ie_id (split_key N)))\<rparr>"

definition adopt :: "page_id \<Rightarrow> page_id set \<Rightarrow> (page_id \<Rightarrow> node) \<Rightarrow> page_id \<Rightarrow> node" where
  "adopt q cs G = (\<lambda>i. if i \<in> cs then G i\<lparr>n_par := Some q\<rparr> else G i)"

lemma adopt_empty [simp]: "adopt q {} G = G"
  by (simp add: adopt_def)

definition split_ghost :: "page_id \<Rightarrow> nat \<Rightarrow> (page_id \<Rightarrow> node) \<Rightarrow> page_id \<Rightarrow> node" where
  "split_ghost p n G = adopt n (set (drop 4 (n_cs (G p)))) (G(p := split_left (G p), n := split_right (G p)))"

lemma ivs_fst: "map fst (ivs hi ks lo) = map Some ks @ [lo]"
  by (induction hi ks lo rule: ivs.induct) auto

lemma distinct_ivs:
  assumes "desc ks" "\<forall>k\<in>set ks. within k (lo, hi)"
  shows "distinct (ivs hi ks lo)"
proof -
  have "distinct ks" using assms(1) by (induction ks) auto
  moreover have "lo \<notin> Some ` set ks" using assms(2) by (force simp: bounds)
  ultimately have "distinct (map fst (ivs hi ks lo))" by (simp add: ivs_fst distinct_map)
  then show ?thesis by (simp add: distinct_map)
qed

text \<open>The node p is too long; its invariant otherwise.\<close>

lemma overD:
  assumes "over G n head p"
  shows "frame_ok G n head" "p < n" "shape_ok G n p" "i < n \<Longrightarrow> i \<noteq> p \<Longrightarrow> node_ok G n i" "i < n \<Longrightarrow> link_ok G n head i"
    "i < n \<Longrightarrow> shape_ok G n i"
proof -
  show "i < n \<Longrightarrow> shape_ok G n i" using assms by (cases "i = p") (auto simp: over_def node_ok_def)
qed (use assms in \<open>simp_all add: over_def\<close>)

lemma shapeD:
  assumes "shape_ok G n i"
  shows "desc (n_keys (G i))" "k \<in> set (n_keys (G i)) \<Longrightarrow> within k (n_iv (G i))"
    "c \<in> set (n_cs (G i)) \<Longrightarrow> c < n \<and> n_level (G i) = Suc (n_level (G c)) \<and> n_par (G c) = Some i"
    "0 < n_level (G i) \<Longrightarrow> map (\<lambda>c. n_iv (G c)) (n_cs (G i)) = ivs (n_hi (G i)) (n_keys (G i)) (n_lo (G i))"
    "n_level (G i) = 0 \<Longrightarrow> n_cs (G i) = []"
proof -
  show "c \<in> set (n_cs (G i)) \<Longrightarrow> c < n \<and> n_level (G i) = Suc (n_level (G c)) \<and> n_par (G c) = Some i"
    using assms unfolding shape_ok_def Let_def by (auto split: if_splits)
  show "k \<in> set (n_keys (G i)) \<Longrightarrow> within k (n_iv (G i))" using assms unfolding shape_ok_def Let_def by blast
qed (use assms in \<open>simp_all add: shape_ok_def Let_def\<close>)

lemma shape_distinct: "shape_ok G n i \<Longrightarrow> distinct (n_cs (G i))"
proof (cases "n_level (G i) = 0")
  case False
  assume s: "shape_ok G n i"
  have "distinct (map (\<lambda>c. n_iv (G c)) (n_cs (G i)))"
    using shapeD(4) [OF s] False distinct_ivs [OF shapeD(1) [OF s], of "n_lo (G i)" "n_hi (G i)"] shapeD(2) [OF s] by simp
  then show ?thesis by (simp add: distinct_map)
qed (simp add: shapeD(5))

lemma split_list:
  assumes "length xs = 6"
  shows "xs = take 3 xs @ xs ! 3 # drop 4 xs" "drop 3 xs = xs ! 3 # drop 4 xs"
proof -
  show "drop 3 xs = xs ! 3 # drop 4 xs" using Cons_nth_drop_Suc [of 3 xs] assms by simp
  then show "xs = take 3 xs @ xs ! 3 # drop 4 xs" by (metis append_take_drop_id)
qed

text \<open>What a split leaves: every page is in order but the parent of the two halves.\<close>

lemma split_facts:
  assumes over: "over G n head p" and len: "length (n_es (G p)) = 6"
  defines "G' \<equiv> split_ghost p n G" and "k \<equiv> dk (ie_id (split_key (G p)))"
  shows split_same: "i < n \<Longrightarrow> i \<noteq> p \<Longrightarrow> n_es (G' i) = n_es (G i) \<and> n_cs (G' i) = n_cs (G i) \<and> n_iv (G' i) = n_iv (G i)"
      "i < n \<Longrightarrow> n_level (G' i) = n_level (G i)" "n_hi (G' p) = n_hi (G p)" "n_lo (G' p) = Some k"
      "n_lo (G' n) = n_lo (G p)" "n_hi (G' n) = Some k" "n_level (G' n) = n_level (G p)"
      "n_par (G' p) = n_par (G p)" "n_par (G' n) = None"
      "n_es (G' p) = take 3 (n_es (G p))" "n_es (G' n) = n_es (split_right (G p))"
      "n_cs (G' p) = take 4 (n_cs (G p))" "n_cs (G' n) = drop 4 (n_cs (G p))"
    and split_par: "i < n \<Longrightarrow> n_par (G' i) = (if i \<in> set (drop 4 (n_cs (G p))) then Some n else n_par (G i))"
proof -
  note S = overD(3) [OF over]
  have "x < n \<and> x \<noteq> p" if "x \<in> set (drop 4 (n_cs (G p)))" for x
  proof -
    have "x \<in> set (n_cs (G p))" using that by (rule in_set_dropD)
    with shapeD(3) [OF S this] show ?thesis by auto
  qed
  then have notin: "p \<notin> set (drop 4 (n_cs (G p)))" "n \<notin> set (drop 4 (n_cs (G p)))" by blast+
  have pn: "p \<noteq> n" using overD(2) [OF over] by simp
  have sel: "n_iv (split_left (G p)) = (Some k, n_hi (G p))" "n_level (split_left (G p)) = n_level (G p)"
    "n_par (split_left (G p)) = n_par (G p)" "n_es (split_left (G p)) = take 3 (n_es (G p))"
    "n_cs (split_left (G p)) = take 4 (n_cs (G p))" "n_iv (split_right (G p)) = (n_lo (G p), Some k)"
    "n_level (split_right (G p)) = n_level (G p)" "n_par (split_right (G p)) = None" "n_cs (split_right (G p)) = drop 4 (n_cs (G p))"
    by (simp_all add: split_left_def split_right_def k_def)
  have halves: "G' p = split_left (G p)" "G' n = split_right (G p)" using notin pn by (simp_all add: G'_def split_ghost_def adopt_def)
  show "i < n \<Longrightarrow> i \<noteq> p \<Longrightarrow> n_es (G' i) = n_es (G i) \<and> n_cs (G' i) = n_cs (G i) \<and> n_iv (G' i) = n_iv (G i)"
    by (simp add: G'_def split_ghost_def adopt_def)
  show "i < n \<Longrightarrow> n_level (G' i) = n_level (G i)"
    using sel(2) by (simp add: G'_def split_ghost_def adopt_def)
  show "i < n \<Longrightarrow> n_par (G' i) = (if i \<in> set (drop 4 (n_cs (G p))) then Some n else n_par (G i))"
    using sel(3) by (auto simp: G'_def split_ghost_def adopt_def)
  show "n_hi (G' p) = n_hi (G p)" "n_lo (G' p) = Some k" "n_lo (G' n) = n_lo (G p)" "n_hi (G' n) = Some k"
    "n_level (G' n) = n_level (G p)" "n_par (G' p) = n_par (G p)" "n_par (G' n) = None"
    "n_es (G' p) = take 3 (n_es (G p))" "n_es (G' n) = n_es (split_right (G p))"
    "n_cs (G' p) = take 4 (n_cs (G p))" "n_cs (G' n) = drop 4 (n_cs (G p))"
    unfolding halves using sel by simp_all
qed

lemma split_keys:
  assumes "length (n_es N) = 6"
  shows "n_keys N = take 3 (n_keys N) @ dk (ie_id (split_key N)) # drop 4 (n_keys N)"
  unfolding split_key_def take_map drop_map
  using arg_cong [OF split_list(1) [OF assms], of "map (\<lambda>e. dk (ie_id e))"] by simp

lemma split_body:
  assumes over: "over G n head p" and len: "length (n_es (G p)) = 6" and i: "i < Suc n" "p \<notin> set (n_cs (G i)) \<or> i = n"
  shows "node_ok (split_ghost p n G) (Suc n) i"
proof -
  let ?G = "split_ghost p n G" and ?N = "G p"
  note S = overD(3) [OF over]
  note same = split_same [OF over len] and par = split_par [OF over len]
  define k where "k = dk (ie_id (split_key ?N))"
  define ks1 ks2 where "ks1 = take 3 (n_keys ?N)" and "ks2 = drop 4 (n_keys ?N)"
  have ks: "n_keys ?N = ks1 @ k # ks2" using split_keys [OF len] by (simp add: k_def ks1_def ks2_def)
  have desc: "desc ks1" "desc ks2" "\<forall>x\<in>set ks1. k < x" "\<forall>x\<in>set ks2. x < k"
    using shapeD(1) [OF S] unfolding ks by simp_all
  have wi: "\<forall>x\<in>set (ks1 @ k # ks2). within x (n_iv ?N)" using shapeD(2) [OF S] unfolding ks by blast
  have kid: "c < n \<and> n_level ?N = Suc (n_level (G c)) \<and> n_par (G c) = Some p \<and> c \<noteq> p" if "c \<in> set (n_cs ?N)" for c
    using shapeD(3) [OF S that] by auto
  have len1: "length ks1 = 3" using len by (simp add: ks1_def)
  have iv: "map (\<lambda>c. n_iv (?G c)) (take 4 (n_cs ?N)) = ivs (n_hi ?N) ks1 (Some k) \<and>
      map (\<lambda>c. n_iv (?G c)) (drop 4 (n_cs ?N)) = ivs (Some k) ks2 (n_lo ?N)" if pos: "0 < n_level ?N"
  proof -
    have "map (\<lambda>c. n_iv (?G c)) (n_cs ?N) = map (\<lambda>c. n_iv (G c)) (n_cs ?N)" using kid same(1) by auto
    then have "map (\<lambda>c. n_iv (?G c)) (n_cs ?N) = ivs (n_hi ?N) ks1 (Some k) @ ivs (Some k) ks2 (n_lo ?N)"
      using shapeD(4) [OF S pos] unfolding ks ivs_append by simp
    then have "map (\<lambda>c. n_iv (?G c)) (take 4 (n_cs ?N)) = take 4 (ivs (n_hi ?N) ks1 (Some k) @ ivs (Some k) ks2 (n_lo ?N))"
      "map (\<lambda>c. n_iv (?G c)) (drop 4 (n_cs ?N)) = drop 4 (ivs (n_hi ?N) ks1 (Some k) @ ivs (Some k) ks2 (n_lo ?N))"
      unfolding take_map [symmetric] drop_map [symmetric] by simp_all
    then show ?thesis using len1 by simp
  qed
  have dist: "set (take 4 (n_cs ?N)) \<inter> set (drop 4 (n_cs ?N)) = {}"
    using shape_distinct [OF S] by (simp add: set_take_disj_set_drop_if_distinct)
  consider (left) "i = p" | (right) "i = n" | (other) "i < n" "i \<noteq> p" using i(1) by linarith
  then show ?thesis
  proof cases
    case left
    have keys: "n_keys (?G p) = ks1" using same(10) by (simp add: ks1_def take_map)
    have kids: "c < Suc n \<and> n_level ?N = Suc (n_level (?G c)) \<and> n_par (?G c) = Some p" if c: "c \<in> set (take 4 (n_cs ?N))" for c
      using kid [OF in_set_takeD [OF c]] same(2) [of c] par [of c] dist c by auto
    have "shape_ok ?G (Suc n) p"
    proof (cases "n_level ?N = 0")
      case True
      then show ?thesis using same(2-13) keys shapeD(5) [OF S] desc wi overD(2) [OF over]
        unfolding shape_ok_def Let_def by (auto simp: k_def [symmetric] bounds)
    next
      case False
      then show ?thesis
        using same(2-13) keys iv desc wi kids overD(2) [OF over]
        by (intro shape_inner) (auto simp: k_def [symmetric] bounds)
    qed
    then show ?thesis using same(10) len left by (simp add: node_ok_def)
  next
    case right
    have kids: "c < Suc n \<and> n_level ?N = Suc (n_level (?G c)) \<and> n_par (?G c) = Some n" if c: "c \<in> set (drop 4 (n_cs ?N))" for c
      using kid [OF in_set_dropD [OF c]] same(2) [of c] par [of c] c by auto
    have "shape_ok ?G (Suc n) n"
    proof (cases "n_level ?N = 0")
      case True
      have keys: "n_keys (?G n) = k # ks2"
        using same(11) True split_list(2) [OF len] by (simp add: split_right_def k_def ks2_def drop_map split_key_def)
      show ?thesis using same(2-13) keys shapeD(5) [OF S True] desc wi True
        unfolding shape_ok_def Let_def by (auto simp: k_def [symmetric] bounds split: option.splits)
    next
      case False
      have keys: "n_keys (?G n) = ks2" using same(11) False by (simp add: split_right_def ks2_def drop_map)
      from False show ?thesis
        using same(2-13) keys iv desc wi kids
        by (intro shape_inner) (auto simp: k_def [symmetric] bounds split: option.splits)
    qed
    then show ?thesis using same(11) len right by (simp add: node_ok_def split_right_def)
  next
    case other
    note B = overD(4) [OF over other]
    have "n_iv (?G x) = n_iv (G x) \<and> n_level (?G x) = n_level (G x) \<and> n_par (?G x) = n_par (G x)"
      if x: "x \<in> set (n_cs (G i))" for x
    proof -
      have xs: "x < n" "n_par (G x) = Some i" using shapeD(3) [OF overD(6) [OF over other(1)] x] by auto
      have "x \<noteq> p" using i(2) x other(1) by auto
      moreover have "x \<notin> set (drop 4 (n_cs ?N))"
      proof
        assume "x \<in> set (drop 4 (n_cs ?N))"
        from kid [OF in_set_dropD [OF this]] xs(2) other(2) show False by simp
      qed
      ultimately show ?thesis using same(1) [OF xs(1)] same(2) [OF xs(1)] par [OF xs(1)] by simp
    qed
    with shape_cong [OF overD(6) [OF over other(1)], of "Suc n" ?G] same(1) [OF other] same(2) [OF other(1)] B
    show ?thesis by (simp add: node_ok_def)
  qed
qed

lemma split_parent_body:
  assumes over: "over G n head p" and len: "length (n_es (G p)) = 6" and q: "q < n" "p \<in> set (n_cs (G q))"
  shows "node_ok ((split_ghost p n G)(p := split_ghost p n G p\<lparr>n_lo := n_lo (G p)\<rparr>)) (Suc n) q"
proof -
  let ?G = "split_ghost p n G"
  note S = overD(3) [OF over]
  note same = split_same [OF over len] and par = split_par [OF over len]
  have qp: "q \<noteq> p" using shapeD(3) [OF overD(6) [OF over q(1)] q(2)] by auto
  have "n_iv ((?G(p := ?G p\<lparr>n_lo := n_lo (G p)\<rparr>)) x) = n_iv (G x) \<and> n_level ((?G(p := ?G p\<lparr>n_lo := n_lo (G p)\<rparr>)) x) = n_level (G x) \<and>
      n_par ((?G(p := ?G p\<lparr>n_lo := n_lo (G p)\<rparr>)) x) = n_par (G x)"
    if x: "x \<in> set (n_cs (G q))" for x
  proof -
    have xs: "x < n" "n_par (G x) = Some q" using shapeD(3) [OF overD(6) [OF over q(1)] x] by auto
    have "x \<notin> set (drop 4 (n_cs (G p)))"
    proof
      assume "x \<in> set (drop 4 (n_cs (G p)))"
      from shapeD(3) [OF S in_set_dropD [OF this]] xs(2) qp show False by simp
    qed
    then show ?thesis using same(1) [OF xs(1)] same(2,3) same(2) [OF xs(1)] par [OF xs(1)] by (cases "x = p") simp_all
  qed
  with shape_cong [OF overD(6) [OF over q(1)], of "Suc n" "?G(p := ?G p\<lparr>n_lo := n_lo (G p)\<rparr>)"] same(1) [OF q(1) qp]
    same(2) [OF q(1)] overD(4) [OF over q(1) qp] qp
  show ?thesis by (simp add: node_ok_def)
qed

lemma split_link:
  assumes over: "over G n head p" and len: "length (n_es (G p)) = 6" and i: "i < n"
  shows "link_ok (split_ghost p n G) (Suc n) head i"
proof -
  note same = split_same [OF over len] and par = split_par [OF over len]
  note L = overD(5) [OF over i]
  have kid: "n_par (G c) = Some p" if "c \<in> set (drop 4 (n_cs (G p)))" for c
    using shapeD(3) [OF overD(3) [OF over] in_set_dropD [OF that]] by simp
  show ?thesis
  proof (cases "i \<in> set (drop 4 (n_cs (G p)))")
    case True
    with kid L have "i \<noteq> head" by (auto simp: link_ok_def)
    with True par [OF i] same(13) show ?thesis by (auto simp: link_ok_def)
  next
    case False
    show ?thesis
    proof (cases "i = head")
      case True
      with False L par [OF i] show ?thesis by (simp add: link_ok_def)
    next
      case ne: False
      then obtain q where q: "q < n" "n_par (G i) = Some q" "i \<in> set (n_cs (G q))" using L by (auto simp: link_ok_def)
      have "i \<in> set (n_cs (split_ghost p n G q))"
      proof (cases "q = p")
        case True
        with q(3) False have "i \<in> set (take 4 (n_cs (G p)))" by (metis append_take_drop_id Un_iff set_append)
        with True same(12) show ?thesis by simp
      qed (use same(1) [OF q(1)] q(3) in simp)
      with q False ne par [OF i] show ?thesis by (auto simp: link_ok_def intro!: exI [of _ q])
    qed
  qed
qed

lemma split_key_in:
  assumes over: "over G n head p" and len: "length (n_es (G p)) = 6"
  shows "split_key (G p) \<in> set (n_es (G p))" "above (n_lo (G p)) (dk (ie_id (split_key (G p))))"
    "below (dk (ie_id (split_key (G p)))) (n_hi (G p))"
proof -
  let ?k = "dk (ie_id (split_key (G p)))"
  note S = overD(3) [OF over] and keys = split_keys [OF len]
  show "split_key (G p) \<in> set (n_es (G p))" using len by (simp add: split_key_def)
  then have "within ?k (n_iv (G p))" using shapeD(2) [OF S, of ?k] by simp
  then show "above (n_lo (G p)) ?k" by (simp add: bounds)
  from shapeD(1) [OF S] have "\<forall>x\<in>set (take 3 (n_keys (G p))). ?k < x" by (subst (asm) keys) simp
  moreover have "n_keys (G p) ! 0 \<in> set (take 3 (n_keys (G p)))" using len by (cases "n_es (G p)") auto
  moreover have "within (n_keys (G p) ! 0) (n_iv (G p))" using shapeD(2) [OF S] len by simp
  ultimately show "below ?k (n_hi (G p))" by (auto simp: below_def bounds split: option.splits)
qed

lemma split_pend:
  assumes over: "over G n head p" and len: "length (n_es (G p)) = 6" and q: "n_par (G p) = Some q"
  shows "pend (split_ghost p n G) (Suc n) head q p n (dk (ie_id (split_key (G p))))"
proof -
  let ?G = "split_ghost p n G" and ?k = "dk (ie_id (split_key (G p)))"
  note same = split_same [OF over len] and F = overD(1) [OF over] and p = overD(2) [OF over]
  have "p \<noteq> head" "q < n" "p \<in> set (n_cs (G q))" using overD(5) [OF over p] q by (auto simp: link_ok_def split: if_splits)
  note q = this(2,3) and ph = this(1)
  note kid = shapeD(3) [OF overD(6) [OF over q(1)] q(2)]
  have qp: "q \<noteq> p" using kid by auto
  have frame: "frame_ok ?G (Suc n) head"
    using F same(1) [of head] ph same(2,7) p unfolding frame_ok_def by (auto simp: less_Suc_eq)
  have others: "node_ok ?G (Suc n) i" if "i < Suc n" "i \<noteq> q" for i
  proof (rule split_body [OF over len that(1)])
    show "p \<notin> set (n_cs (G i)) \<or> i = n"
    proof (cases "i = n")
      case False
      then have "i < n" using that(1) by simp
      from shapeD(3) [OF overD(6) [OF over this], of p] kid that(2) show ?thesis by auto
    qed simp
  qed
  have free: "n \<notin> set (n_cs (?G i))" if i: "i < Suc n" for i
  proof
    assume n: "n \<in> set (n_cs (?G i))"
    have "set (n_cs (?G i)) \<subseteq> set (n_cs (G (if i = n then p else i)))"
      using same(1) [of i] same(12,13) i by (cases "i = p") (auto simp: less_Suc_eq dest: in_set_takeD in_set_dropD)
    with n have "n \<in> set (n_cs (G (if i = n then p else i)))" by blast
    moreover have "(if i = n then p else i) < n" using i p by simp
    ultimately show False using shapeD(3) [OF overD(6) [OF over]] by blast
  qed
  have "p \<in> set (n_cs (?G q))" "0 < n_level (?G q)" using same(1,2) q qp kid by simp_all
  with frame others split_parent_body [OF over len q] split_link [OF over len] free split_key_in(2,3) [OF over len] F
    same(2-7) q(1) p show ?thesis
    unfolding pend_def frame_ok_def by auto
qed

definition root_ghost :: "page_id \<Rightarrow> nat \<Rightarrow> (page_id \<Rightarrow> node) \<Rightarrow> page_id \<Rightarrow> node" where
  "root_ghost p n G = adopt (Suc n) {p, n} ((split_ghost p n G)
     (Suc n := \<lparr>n_es = [split_key (G p)], n_cs = [p, n], n_par = None, n_level = Suc (n_level (G p)), n_lo = None, n_hi = None\<rparr>))"

lemma split_root:
  assumes over: "over G n head p" and len: "length (n_es (G p)) = 6" and root: "n_par (G p) = None"
  shows "good (root_ghost p n G) (Suc (Suc n)) (Suc n)"
proof -
  let ?S = "split_ghost p n G" and ?G = "root_ghost p n G"
  note same = split_same [OF over len] and F = overD(1) [OF over] and p = overD(2) [OF over]
  have head: "p = head" using overD(5) [OF over p] root by (auto simp: link_ok_def split: if_splits)
  have at_root: "?G (Suc n) = \<lparr>n_es = [split_key (G p)], n_cs = [p, n], n_par = None, n_level = Suc (n_level (G p)), n_lo = None, n_hi = None\<rparr>"
    using p by (simp add: root_ghost_def adopt_def)
  have old: "n_es (?G i) = n_es (?S i)" "n_cs (?G i) = n_cs (?S i)" "n_level (?G i) = n_level (?S i)" "n_iv (?G i) = n_iv (?S i)"
    "n_par (?G i) = (if i = p \<or> i = n then Some (Suc n) else n_par (?S i))" if "i < Suc n" for i
    using that by (auto simp: root_ghost_def adopt_def)
  have orphan: "p \<notin> set (n_cs (G i))" if "i < n" for i
    using shapeD(3) [OF overD(6) [OF over that], of p] root by auto
  have free: "p \<notin> set (n_cs (?S i)) \<and> n \<notin> set (n_cs (?S i)) \<and> (\<forall>x\<in>set (n_cs (?S i)). x < n)" if i: "i < Suc n" for i
  proof -
    have "set (n_cs (?S i)) \<subseteq> set (n_cs (G (if i = n then p else i)))"
      using same(1) [of i] same(12,13) i by (cases "i = p") (auto simp: less_Suc_eq dest: in_set_takeD in_set_dropD)
    moreover have lt: "(if i = n then p else i) < n" using i p by simp
    ultimately show ?thesis using shapeD(3) [OF overD(6) [OF over lt]] orphan [OF lt] by blast
  qed
  have levels: "n_level (?G i) \<le> Suc (n_level (G p))" if "i < Suc (Suc n)" for i
  proof (cases "i = Suc n")
    case False
    then have "i < Suc n" using that by simp
    then show ?thesis using old(3) same(2,7) F head by (cases "i = n") (auto simp: frame_ok_def intro: le_SucI)
  qed (simp add: at_root)
  have bodies: "node_ok ?G (Suc (Suc n)) i" if i: "i < Suc (Suc n)" for i
  proof (cases "i = Suc n")
    case True
    have "shape_ok ?G (Suc (Suc n)) (Suc n)"
      using at_root old(3-5) [of p] old(3-5) [of n] same(2-7) p F head
      by (intro shape_inner) (auto simp: frame_ok_def bounds)
    then show ?thesis using True by (simp add: node_ok_def at_root)
  next
    case False
    then have i: "i < Suc n" using that by simp
    have B: "node_ok ?S (Suc n) i" using orphan [of i] i by (intro split_body [OF over len i]) (auto simp: less_Suc_eq)
    have "n_iv (?G x) = n_iv (?S x) \<and> n_level (?G x) = n_level (?S x) \<and> n_par (?G x) = n_par (?S x)"
      if x: "x \<in> set (n_cs (?S i))" for x
      using free [OF i] x old(3-5) [of x] by auto
    then have "shape_ok ?G (Suc (Suc n)) i"
      using B shape_cong [of ?S "Suc n" i "Suc (Suc n)" ?G] old(1-4) [OF i] by (simp add: node_ok_def)
    with B old(1) [OF i] show ?thesis by (simp add: node_ok_def)
  qed
  have links: "link_ok ?G (Suc (Suc n)) (Suc n) i" if i: "i < Suc (Suc n)" for i
  proof -
    consider (root) "i = Suc n" | (half) "i = p \<or> i = n" | (other) "i < n" "i \<noteq> p" using i by linarith
    then show ?thesis
    proof cases
      case root
      then show ?thesis by (simp add: link_ok_def at_root)
    next
      case half
      then show ?thesis using old(5) [of i] p by (auto simp: link_ok_def at_root intro!: exI [of _ "Suc n"])
    next
      case other
      from split_link [OF over len other(1)] head other obtain q where
        "q < Suc n" "n_par (?S i) = Some q" "i \<in> set (n_cs (?S q))" by (auto simp: link_ok_def)
      with old(2) [of q] old(5) [of i] other show ?thesis by (auto simp: link_ok_def intro!: exI [of _ q])
    qed
  qed
  have "n_level (G p) < n" using F head by (simp add: frame_ok_def)
  then show ?thesis using levels bodies links by (simp add: good_def at_root)
qed

section \<open>The pages that stand for nodes\<close>

abbreviation pages :: "bptree \<Rightarrow> nat" where
  "pages t \<equiv> length (bt_pages t)"

lemma page_of_simps [simp]: "page_of None N = mk N" "page_of (Some e) N = mk_dirty e N"
  by (simp_all add: page_of_def)

lemma page_of_parent [simp]:
  "(page_of d N)\<lparr>pg_parent := x\<rparr> = page_of d (N\<lparr>n_par := x\<rparr>)" "pg_parent (page_of d N) = n_par N"
  by (cases d; simp add: mk_def mk_dirty_def)+

lemma set_page_fields [simp]: "pages (set_page p pg t) = pages t" "bt_head (set_page p pg t) = bt_head t"
  by (simp_all add: set_page_def)

lemma set_parent_fields [simp]: "pages (set_parent x p t) = pages t" "bt_head (set_parent x p t) = bt_head t"
  by (simp_all add: set_parent_def)

lemma conc_set:
  "conc t G D \<Longrightarrow> p < pages t \<Longrightarrow> pg = page_of d N \<Longrightarrow> conc (set_page p pg t) (G(p := N)) (D(p := d))"
  by (simp add: conc_def set_page_def nth_list_update)

lemma conc_set_clean:
  "conc t G D \<Longrightarrow> p < pages t \<Longrightarrow> D p = None \<Longrightarrow> pg = mk N \<Longrightarrow> conc (set_page p pg t) (G(p := N)) D"
  using conc_set [of t G D p pg None N] by (simp add: fun_upd_idem)

lemma conc_parent:
  assumes "conc t G D" "p < pages t"
  shows "conc (set_parent x p t) (G(p := G p\<lparr>n_par := x\<rparr>)) D"
proof -
  have "bt_pages t ! p = page_of (D p) (G p)" using assms by (simp add: conc_def)
  then have "(bt_pages t ! p)\<lparr>pg_parent := x\<rparr> = page_of (D p) (G p\<lparr>n_par := x\<rparr>)" by simp
  from conc_set [OF assms this] show ?thesis by (simp add: set_parent_def)
qed

lemma conc_alloc:
  assumes "conc t G D" "pg = page_of d N"
  shows "conc (snd (alloc_page pg t)) (G(pages t := N)) (D(pages t := d))" "fst (alloc_page pg t) = pages t"
    "pages (snd (alloc_page pg t)) = Suc (pages t)" "bt_head (snd (alloc_page pg t)) = bt_head t"
  using assms by (auto simp: conc_def alloc_page_def nth_append less_Suc_eq)

lemma conc_fold_parent:
  "conc t G D \<Longrightarrow> \<forall>c. Some c \<in> set ps \<longrightarrow> c < pages t \<Longrightarrow>
   conc (fold (\<lambda>pointer t. case pointer of None \<Rightarrow> t | Some child \<Rightarrow> set_parent (Some p) child t) ps t)
     (adopt p {c. Some c \<in> set ps} G) D \<and>
   pages (fold (\<lambda>pointer t. case pointer of None \<Rightarrow> t | Some child \<Rightarrow> set_parent (Some p) child t) ps t) = pages t \<and>
   bt_head (fold (\<lambda>pointer t. case pointer of None \<Rightarrow> t | Some child \<Rightarrow> set_parent (Some p) child t) ps t) = bt_head t"
proof (induction ps arbitrary: t G)
  case Nil
  then show ?case by (simp add: adopt_def)
next
  case (Cons x ps)
  show ?case
  proof (cases x)
    case None
    with Cons show ?thesis by simp
  next
    case (Some c)
    have "adopt p {c. Some c \<in> set ps} (G(c := G c\<lparr>n_par := Some p\<rparr>)) = adopt p {d. d = c \<or> Some d \<in> set ps} G"
      by (auto simp: adopt_def)
    with Some Cons.IH [OF conc_parent [OF Cons.prems(1)], of c "Some p"] Cons.prems(2) show ?thesis
      by (simp del: fun_upd_apply)
  qed
qed

lemma refresh_conc:
  assumes "conc t G D" "length (pg_pointers (bt_pages t ! p)) = 6" "cs = {c. Some c \<in> set (pg_pointers (bt_pages t ! p))}"
    and "\<forall>c\<in>cs. c < pages t"
  shows "conc (refresh_parent p t) (adopt p cs G) D" "pages (refresh_parent p t) = pages t" "bt_head (refresh_parent p t) = bt_head t"
  using conc_fold_parent [of t G D "pg_pointers (bt_pages t ! p)" p] assms by (simp_all add: refresh_parent_def)

lemma pad_some: "{c. Some c \<in> set (pad n cs)} = set cs"
  by (auto simp: pad_def)

lemma slot_keys: "length (takeWhile (\<lambda>e. k \<le> dk (ie_id e)) es) = slot k (map (\<lambda>e. dk (ie_id e)) es)"
  by (simp add: slot_def takeWhile_map comp_def)

lemma find_insert_pad:
  assumes "length es \<le> m" "m \<le> 6" "length es \<le> 5"
  shows "findInsertPositionArray (pad m es) e (length es) 5 = slot (dk (ie_id e)) (map (\<lambda>e. dk (ie_id e)) es)"
proof (cases "es = []")
  case False
  have "take 5 (pad m es) = map Some es @ replicate (min (5 - length es) (m - length es)) None"
    using assms by (simp add: pad_def)
  with False show ?thesis by (simp add: findInsertPositionArray_def find_position_pad slot_keys)
qed (simp add: findInsertPositionArray_def slot_def)

lemma put_cs_insert:
  "s < length cs \<Longrightarrow> length cs < n \<Longrightarrow> (shiftRightArray (pad n cs) (s + 1) 1 n)[s + 1 := Some r] = pad n (put_cs s r cs)"
  using shiftRight_set [of "pad n cs" n "s + 1" "Some r"] pad_insert [of cs n "s + 1" r] by (simp add: put_cs_def)

lemma put_es_insert:
  assumes "length es < n" "s = slot (dk (ie_id e)) (map (\<lambda>e. dk (ie_id e)) es)"
  shows "(shiftRightArray (pad n es) s 1 n)[s := Some e] = pad n (put_es e es)"
proof -
  have "s \<le> length es" using slot_le [of "dk (ie_id e)" "map (\<lambda>e. dk (ie_id e)) es"] assms(2) by simp
  then show ?thesis using shiftRight_set [of "pad n es" n s "Some e"] pad_insert [of es n s e] assms
    by (simp add: put_es_def Let_def)
qed

text \<open>addElement on a page with room.\<close>

lemma add_inner_conc:
  assumes conc: "conc t G D" and p: "p < pages t" "r < pages t" "r \<noteq> p" "D p = None"
    and len: "length (n_es (G p)) < 5" "length (n_cs (G p)) = Suc (length (n_es (G p)))"
  shows "conc (add_to_page p e (Some r) t) (put_inner p e r G) D" "pages (add_to_page p e (Some r) t) = pages t"
    "bt_head (add_to_page p e (Some r) t) = bt_head t"
proof -
  let ?s = "slot (dk (ie_id e)) (n_keys (G p))"
  have page: "bt_pages t ! p = mk (G p)" using conc p by (simp add: conc_def)
  have s: "?s < length (n_cs (G p))" using slot_le [of "dk (ie_id e)" "n_keys (G p)"] len(2) by simp
  have "findInsertPositionArray (pad 5 (n_es (G p))) e (length (n_es (G p))) 5 = ?s" using len by (intro find_insert_pad) auto
  moreover have "(mk (G p))\<lparr>pg_elements := pad 5 (put_es e (n_es (G p))),
      pg_pointers := pad 6 (put_cs ?s r (n_cs (G p))), pg_size := Suc (length (n_es (G p)))\<rparr> = mk (put_node e r (G p))"
    by (simp add: mk_def put_node_def)
  ultimately have step: "add_to_page p e (Some r) t = set_parent (Some p) r (set_page p (mk (put_node e r (G p))) t)"
    using put_cs_insert [of ?s "n_cs (G p)" 6 r] put_es_insert [of "n_es (G p)" 5 ?s e] len s
    by (simp add: add_to_page_def page Let_def)
  note c = conc_set_clean [OF conc p(1,4) refl, of "put_node e r (G p)"]
  show "conc (add_to_page p e (Some r) t) (put_inner p e r G) D"
    using conc_parent [OF c, of r "Some p"] p(2,3) by (simp add: step put_inner_def)
  show "pages (add_to_page p e (Some r) t) = pages t" "bt_head (add_to_page p e (Some r) t) = bt_head t" by (simp_all add: step)
qed

lemma empty_shift: "p < n \<Longrightarrow> (shiftRightArray (pad n []) p 1 n)[p := None] = pad n ([] :: 'a list)"
proof -
  assume p: "p < n"
  have "butlast (replicate n None) = replicate (n - 1) (None :: 'a option)" by (simp add: butlast_conv_take min_def)
  moreover have "replicate p (None :: 'a option) @ None # replicate (n - 1 - p) None = replicate n None"
    using p replicate_add [of p "Suc (n - 1 - p)" "None :: 'a option"] by simp
  ultimately show ?thesis using p shiftRight_set [of "pad n ([] :: 'a list)" n p None] by (simp add: pad_def min_def)
qed

lemma add_leaf_conc:
  assumes conc: "conc t G D" and p: "p < pages t" "D p = None"
    and len: "length (n_es (G p)) < 5" "n_cs (G p) = []"
  shows "conc (add_to_page p e None t) (put_leaf p e G) D" "pages (add_to_page p e None t) = pages t"
    "bt_head (add_to_page p e None t) = bt_head t"
proof -
  let ?s = "slot (dk (ie_id e)) (n_keys (G p))"
  have page: "bt_pages t ! p = mk (G p)" using conc p by (simp add: conc_def)
  have s: "?s + 1 < 6" using slot_le [of "dk (ie_id e)" "n_keys (G p)"] len(1) by simp
  have "findInsertPositionArray (pad 5 (n_es (G p))) e (length (n_es (G p))) 5 = ?s" using len by (intro find_insert_pad) auto
  moreover have "(mk (G p))\<lparr>pg_elements := pad 5 (put_es e (n_es (G p))),
      pg_pointers := pad 6 [], pg_size := Suc (length (n_es (G p)))\<rparr> = mk (G p\<lparr>n_es := put_es e (n_es (G p))\<rparr>)"
    using len(2) by (simp add: mk_def)
  ultimately have step: "add_to_page p e None t = set_page p (mk (G p\<lparr>n_es := put_es e (n_es (G p))\<rparr>)) t"
    using empty_shift [OF s, where 'a = nat] put_es_insert [of "n_es (G p)" 5 ?s e] len
    by (simp add: add_to_page_def page Let_def mk_def)
  show "conc (add_to_page p e None t) (put_leaf p e G) D"
    using conc_set_clean [OF conc p refl] by (simp add: step put_leaf_def)
  show "pages (add_to_page p e None t) = pages t" "bt_head (add_to_page p e None t) = bt_head t" by (simp_all add: step)
qed

text \<open>The temporary arrays of a split.\<close>

lemma pad_exact: "length xs = n \<Longrightarrow> pad n xs = map Some xs"
  by (simp add: pad_def)

lemma pad_Suc: "length xs = n \<Longrightarrow> pad (Suc n) xs = map Some xs @ [None]"
  by (simp add: pad_def)

lemma copy_slots:
  assumes "length xs = m" "e + 1 = m" "m < k"
  shows "copyArray (pad m xs) (replicate k None) 0 e 0 = pad k xs"
proof -
  have "copyArray (pad m xs) (replicate k None) 0 e 0 = map Some xs @ replicate (k - m) None"
    using copyArray_eq [of 0 e 0 "replicate k None" "pad m xs"] assms by (simp add: pad_exact drop_replicate)
  then show ?thesis using assms by (simp add: pad_def)
qed

lemma copy_front:
  assumes "length xs = m" "e + 1 \<le> k" "e < m"
  shows "copyArray (pad m xs) (replicate k None) 0 e 0 = pad k (take (e + 1) xs)"
  using copyArray_eq [of 0 e 0 "replicate k None" "pad m xs"] assms
  by (simp add: pad_def take_map drop_replicate min_def) arith

lemma copy_back:
  assumes "length xs = m" "e + 1 = m" "s \<le> e" "off + (m - s) \<le> k"
  shows "copyArray (pad m xs) (replicate k None) s e off = replicate off None @ pad (k - off) (drop s xs)"
  using copyArray_eq [of off e s "replicate k None" "pad m xs"] assms by (simp add: pad_def drop_map drop_replicate min_def)

lemma clear_tail_mk:
  assumes "length es = 3" "cs = [] \<or> length cs = 4"
  shows "clear_tail \<lparr>pg_elements = pad 5 es, pg_pointers = pad 6 cs, pg_size = 3, pg_parent = x\<rparr> =
    \<lparr>pg_elements = pad 5 es, pg_pointers = pad 6 cs, pg_size = 3, pg_parent = x\<rparr>"
proof -
  have "[3..<5::nat] = [3, 4]" by (simp add: upt_rec)
  moreover have "pad 5 es = map Some es @ [None, None]" using assms(1) by (simp add: pad_def numeral_2_eq_2)
  moreover have "pad 6 cs = [None, None, None, None, None, None] \<or> pad 6 cs = map Some cs @ [None, None]"
    using assms(2) by (auto simp: pad_def numeral_eq_Suc)
  moreover have "length es = 3" by fact
  ultimately show ?thesis
    using assms(2) by (auto simp: clear_tail_def list_update_append nth_append)
qed

lemma split_leaf_conc:
  assumes conc: "conc t G D" and p: "p < pages t" "D p = None"
    and len: "length (n_es (G p)) = 5" "n_cs (G p) = []" "n_level (G p) = 0" and D: "D (pages t) = None"
  obtains u where "split_leaf p e t = (pages t, u)" "conc u (split_ghost p (pages t) (put_leaf p e G)) D"
    "pages u = Suc (pages t)" "bt_head u = bt_head t"
proof -
  let ?n = "pages t" and ?N = "G p\<lparr>n_es := put_es e (n_es (G p))\<rparr>"
  define es where "es = put_es e (n_es (G p))"
  have les: "length es = 6" using len by (simp add: es_def)
  have page: "bt_pages t ! p = mk (G p)" using conc p by (simp add: conc_def)
  have tmp: "copyArray (pad 5 (n_es (G p))) (replicate 6 None) 0 4 0 = pad 6 (n_es (G p))"
    using len by (intro copy_slots) auto
  have ins: "insertArray (pad 6 (n_es (G p))) e (findInsertPositionArray (pad 6 (n_es (G p))) e 5 5) 6 = pad 6 es"
    using find_insert_pad [of "n_es (G p)" 6 e] put_es_insert [of "n_es (G p)" 6 "slot (dk (ie_id e)) (n_keys (G p))" e] len
    by (simp add: insertArray_def es_def)
  have front: "copyArray (pad 6 es) (replicate 5 None) 0 2 0 = pad 5 (take 3 es)" using copy_front [of es 6 2 5] les by simp
  have rear: "copyArray (pad 6 es) (replicate 5 None) 3 5 0 = pad 5 (drop 3 es)" using copy_back [of es 6 5 3 0 5] les by simp
  have init: "initializeArray (pad 5 (n_es (G p))) 5 = replicate 5 None" using len by (simp add: initializeArray_eq)
  define left where "left = split_left ?N"
  define right where "right = split_right ?N"
  have nodes: "mk left = \<lparr>pg_elements = pad 5 (take 3 es), pg_pointers = pad 6 [], pg_size = 3, pg_parent = n_par (G p)\<rparr>"
      "mk right = \<lparr>pg_elements = pad 5 (drop 3 es), pg_pointers = pad 6 [], pg_size = 3, pg_parent = None\<rparr>"
    using les len by (simp_all add: left_def right_def split_left_def split_right_def mk_def es_def)
  define t1 where "t1 = set_page p (mk left) t"
  have c1: "conc t1 (G(p := left)) D" unfolding t1_def using conc_set_clean [OF conc p refl] .
  have t1: "pages t1 = ?n" "bt_head t1 = bt_head t" "bt_pages t1 ! p = mk left" using p by (simp_all add: t1_def set_page_def)
  define t2 where "t2 = refresh_parent p t1"
  have empty: "{c. Some c \<in> set (pg_pointers (bt_pages t1 ! p))} = {}" using nodes by (simp add: t1 pad_def)
  have "length (pg_pointers (bt_pages t1 ! p)) = 6" using nodes by (simp add: t1)
  note r2 = refresh_conc [OF c1 this empty [symmetric], folded t2_def]
  with t1 have c2: "conc t2 (G(p := left)) D" "pages t2 = ?n" "bt_head t2 = bt_head t" by simp_all
  define t3 where "t3 = snd (alloc_page (mk right) t2)"
  have al: "alloc_page (mk right) t2 = (?n, t3)" unfolding t3_def using c2(2) by (simp add: alloc_page_def)
  have "mk right = page_of None right" by simp
  from conc_alloc [OF c2(1) this] have c3: "conc t3 (G(p := left, ?n := right)) D" "pages t3 = Suc ?n" "bt_head t3 = bt_head t"
    using c2 D unfolding t3_def by (simp_all add: fun_upd_idem)
  have pg3: "bt_pages t3 ! ?n = mk right" using c2(2) by (simp add: t3_def alloc_page_def nth_append)
  have "{c. Some c \<in> set (pg_pointers (bt_pages t3 ! ?n))} = {}" "length (pg_pointers (bt_pages t3 ! ?n)) = 6"
    using nodes by (simp_all add: pg3 pad_def)
  from refresh_conc [OF c3(1) this(2) this(1) [symmetric]] c3
  have c4: "conc (refresh_parent ?n t3) (G(p := left, ?n := right)) D" "pages (refresh_parent ?n t3) = Suc ?n"
    "bt_head (refresh_parent ?n t3) = bt_head t" by (simp_all del: fun_upd_apply)
  have ghost: "split_ghost p ?n (put_leaf p e G) = G(p := left, ?n := right)"
    using len(2) by (auto simp: split_ghost_def put_leaf_def left_def right_def)
  have "split_leaf p e t = (?n, refresh_parent ?n t3)"
  proof -
    have "clear_tail ((mk (G p))\<lparr>pg_elements := pad 5 (take 3 es), pg_size := 3\<rparr>) = mk left"
      using clear_tail_mk [of "take 3 es" "[]" "n_par (G p)"] les len(2) nodes(1) by (simp add: mk_def)
    moreover have "new_page\<lparr>pg_elements := pad 5 (drop 3 es), pg_size := 3\<rparr> = mk right"
      using nodes(2) by (simp add: new_page_def pad_def)
    ultimately show ?thesis
      using tmp ins front rear init len al
      by (simp add: split_leaf_def page Let_def midPoint_def t1_def [symmetric] t2_def [symmetric] new_page_def)
  qed
  from that [OF this] c4 show ?thesis unfolding ghost by blast
qed

lemma split_inner_conc:
  assumes conc: "conc t G D" and p: "p < pages t" "D p = None"
    and r: "r < pages t" "r \<noteq> p"
    and len: "length (n_es (G p)) = 5" "length (n_cs (G p)) = 6" "0 < n_level (G p)" and D: "D (pages t) = None"
    and kids: "\<forall>c\<in>set (n_cs (G p)). c < pages t \<and> c \<noteq> p \<and> n_par (G c) = Some p"
  obtains u where "split_inner p e (Some r) t = (pages t, u)"
    "conc u (split_ghost p (pages t) (put_inner p e r G)) (D(pages t := Some (split_key (put_node e r (G p)))))"
    "pages u = Suc (pages t)" "bt_head u = bt_head t"
proof -
  let ?n = "pages t" and ?N = "put_node e r (G p)"
  define es where "es = put_es e (n_es (G p))"
  let ?s = "slot (dk (ie_id e)) (n_keys (G p))"
  define cs where "cs = put_cs ?s r (n_cs (G p))"
  have s: "?s < length (n_cs (G p))" using slot_le [of "dk (ie_id e)" "n_keys (G p)"] len by simp
  have les: "length es = 6" "length cs = 7" using len s by (simp_all add: es_def cs_def put_cs_def)
  have page: "bt_pages t ! p = mk (G p)" using conc p by (simp add: conc_def)
  have tmp: "copyArray (pad 5 (n_es (G p))) (replicate 6 None) 0 4 0 = pad 6 (n_es (G p))"
    "copyArray (pad 6 (n_cs (G p))) (replicate 7 None) 0 5 0 = pad 7 (n_cs (G p))"
    using len by (auto intro!: copy_slots)
  have pos: "findInsertPositionArray (pad 6 (n_es (G p))) e 5 5 = ?s" using find_insert_pad [of "n_es (G p)" 6 e] len by simp
  have ins: "insertArray (pad 6 (n_es (G p))) e ?s 6 = pad 6 es"
    using put_es_insert [of "n_es (G p)" 6 ?s e] len by (simp add: insertArray_def es_def)
  have insp: "(shiftRightArray (pad 7 (n_cs (G p))) (Suc ?s) (Suc 0) 7)[Suc ?s := Some r] = pad 7 cs"
    using put_cs_insert [OF s, of 7 r] len by (simp add: cs_def)
  have front: "copyArray (pad 6 es) (replicate 5 None) 0 2 0 = pad 5 (take 3 es)" using copy_front [of es 6 2 5] les by simp
  have frontp: "copyArray (pad 7 cs) (replicate 6 None) 0 3 0 = pad 6 (take 4 cs)" using copy_front [of cs 7 3 6] les by simp
  have rear: "copyArray (pad 6 es) (replicate 5 None) 3 5 0 = pad 5 (drop 3 es)" using copy_back [of es 6 5 3 0 5] les by simp
  have rearp: "copyArray (pad 7 cs) (replicate 6 None) 4 6 (Suc 0) = None # pad 5 (drop 4 cs)"
    using copy_back [of cs 7 6 4 1 6] les by simp
  have init: "initializeArray (pad 5 (n_es (G p))) 5 = replicate 5 None"
    "initializeArray (pad 6 (n_cs (G p))) 6 = replicate 6 None" using len by (simp_all add: initializeArray_eq)
  define left where "left = split_left ?N"
  define right where "right = split_right ?N"
  define k where "k = split_key ?N"
  have fields: "n_es ?N = es" "n_cs ?N = cs" "n_level ?N = n_level (G p)" "n_par ?N = n_par (G p)"
    by (simp_all add: put_node_def es_def cs_def)
  have d3: "drop 3 es = k # drop 4 es" using split_list(2) [OF les(1)] by (simp add: k_def split_key_def fields)
  have nodes: "mk left = \<lparr>pg_elements = pad 5 (take 3 es), pg_pointers = pad 6 (take 4 cs), pg_size = 3, pg_parent = n_par (G p)\<rparr>"
      "mk_dirty k right = \<lparr>pg_elements = pad 5 (drop 3 es), pg_pointers = None # pad 5 (drop 4 cs), pg_size = 3, pg_parent = None\<rparr>"
    using les len(3) by (simp_all add: left_def right_def split_left_def split_right_def mk_def mk_dirty_def fields d3)
  have rcs: "c < ?n \<and> c \<noteq> p \<and> (c = r \<or> n_par (G c) = Some p)" if "c \<in> set cs" for c
  proof -
    have "set cs = insert r (set (n_cs (G p)))"
      by (simp add: cs_def)
    with that kids r show ?thesis by auto
  qed
  define t1 where "t1 = set_page p (mk left) t"
  have c1: "conc t1 (G(p := left)) D" unfolding t1_def using conc_set_clean [OF conc p refl] .
  have t1: "pages t1 = ?n" "bt_head t1 = bt_head t" "bt_pages t1 ! p = mk left" using p by (simp_all add: t1_def set_page_def)
  define t2 where "t2 = refresh_parent p t1"
  have ptrs: "{c. Some c \<in> set (pg_pointers (bt_pages t1 ! p))} = set (take 4 cs)" "length (pg_pointers (bt_pages t1 ! p)) = 6"
    using nodes les by (simp_all add: t1 pad_some)
  have "\<forall>c\<in>set (take 4 cs). c < pages t1" using rcs t1(1) by (auto dest: in_set_takeD)
  from refresh_conc [OF c1 ptrs(2) ptrs(1) [symmetric] this] t1
  have c2: "conc t2 (adopt p (set (take 4 cs)) (G(p := left))) D" "pages t2 = ?n" "bt_head t2 = bt_head t"
    unfolding t2_def by simp_all
  define t3 where "t3 = snd (alloc_page (mk_dirty k right) t2)"
  have al: "alloc_page (mk_dirty k right) t2 = (?n, t3)" unfolding t3_def using c2(2) by (simp add: alloc_page_def)
  have "mk_dirty k right = page_of (Some k) right" by simp
  from conc_alloc [OF c2(1) this]
  have c3: "conc t3 ((adopt p (set (take 4 cs)) (G(p := left)))(?n := right)) (D(?n := Some k))" "pages t3 = Suc ?n" "bt_head t3 = bt_head t"
    using c2 unfolding t3_def by (simp_all del: fun_upd_apply)
  have pg3: "bt_pages t3 ! ?n = mk_dirty k right" using c2(2) by (simp add: t3_def alloc_page_def nth_append)
  have ptrs3: "{c. Some c \<in> set (pg_pointers (bt_pages t3 ! ?n))} = set (drop 4 cs)" "length (pg_pointers (bt_pages t3 ! ?n)) = 6"
    using nodes les by (simp_all add: pg3 pad_some)
  have "\<forall>c\<in>set (drop 4 cs). c < pages t3" using rcs c3(2) by (auto dest: in_set_dropD intro: less_SucI)
  note c4 = refresh_conc [OF c3(1) ptrs3(2) ptrs3(1) [symmetric] this, unfolded c3(2,3)]
  have ghost: "split_ghost p ?n (put_inner p e r G) =
      adopt ?n (set (drop 4 cs)) ((adopt p (set (take 4 cs)) (G(p := left)))(?n := right))"
  proof
    fix i
    have N: "put_inner p e r G p = ?N" using r(2) by (simp add: put_inner_def)
    show "split_ghost p ?n (put_inner p e r G) i = adopt ?n (set (drop 4 cs)) ((adopt p (set (take 4 cs)) (G(p := left)))(?n := right)) i"
    proof (cases "i \<in> set (take 4 cs) \<or> i \<in> set (drop 4 cs)")
      case True
      then have i: "i < ?n" "i \<noteq> p" "i = r \<or> n_par (G i) = Some p" using rcs by (auto dest: in_set_takeD in_set_dropD)
      then have "G i\<lparr>n_par := Some p\<rparr> = G i" if "i \<noteq> r" using that by simp
      with i True show ?thesis
        unfolding split_ghost_def N fields by (auto simp: adopt_def put_inner_def left_def right_def)
    next
      case False
      have "r \<in> set cs" by (simp add: cs_def put_cs_def)
      then have "r \<in> set (take 4 cs) \<or> r \<in> set (drop 4 cs)" by (metis append_take_drop_id Un_iff set_append)
      with False have "i \<noteq> r" by blast
      with False show ?thesis unfolding split_ghost_def N fields by (simp add: adopt_def put_inner_def left_def right_def)
    qed
  qed
  have "split_inner p e (Some r) t = (?n, refresh_parent ?n t3)"
  proof -
    have "clear_tail ((mk (G p))\<lparr>pg_elements := pad 5 (take 3 es), pg_pointers := pad 6 (take 4 cs), pg_size := 3\<rparr>) = mk left"
      using clear_tail_mk [of "take 3 es" "take 4 cs" "n_par (G p)"] les nodes(1) by (simp add: mk_def)
    moreover have "new_page\<lparr>pg_elements := pad 5 (drop 3 es), pg_pointers := None # pad 5 (drop 4 cs), pg_size := 3\<rparr> = mk_dirty k right"
      using nodes(2) by (simp add: new_page_def)
    ultimately show ?thesis
      using tmp pos ins insp front frontp rear rearp init len al
      by (simp add: split_inner_def page Let_def midPoint_def t1_def [symmetric] t2_def [symmetric] new_page_def)
  qed
  from that [OF this] c4 show ?thesis unfolding ghost k_def by blast
qed

lemma drop_first_conc:
  assumes conc: "conc t G D" and p: "p < pages t" "D p = Some k" and len: "length (n_es (G p)) = 2" "length (n_cs (G p)) = 3"
  shows "conc (drop_first p t) G (D(p := None))" "pages (drop_first p t) = pages t" "bt_head (drop_first p t) = bt_head t"
proof -
  obtain a b where es: "n_es (G p) = [a, b]" using len(1) by (auto simp: length_Suc_conv numeral_eq_Suc)
  obtain x y z where cs: "n_cs (G p) = [x, y, z]" using len(2) by (auto simp: length_Suc_conv numeral_eq_Suc)
  have pads: "pad 5 [k, a, b] = [Some k, Some a, Some b, None, None]" "pad 5 [x, y, z] = [Some x, Some y, Some z, None, None]"
    "pad 5 [a, b] = [Some a, Some b, None, None, None]" "pad 6 [x, y, z] = [Some x, Some y, Some z, None, None, None]"
    by (simp_all add: pad_def numeral_eq_Suc)
  have ranges: "[1..<4::nat] = [1, 2, 3]" "[1..<5::nat] = [1, 2, 3, 4]" by (simp_all add: upt_rec)
  have "bt_pages t ! p = mk_dirty k (G p)" using conc p by (simp add: conc_def)
  then have "drop_first p t = set_page p (mk (G p)) t"
    unfolding drop_first_def Let_def using ranges
    by (simp add: mk_dirty_def mk_def es cs pads shiftLeftArray_def move_slot_def)
  with conc_set [OF conc p(1), of "mk (G p)" None "G p"] show "conc (drop_first p t) G (D(p := None))"
    "pages (drop_first p t) = pages t" "bt_head (drop_first p t) = bt_head t" by simp_all
qed

lemma adopt_two: "p \<noteq> n \<Longrightarrow> (H(p := H p\<lparr>n_par := Some q\<rparr>))(n := (H(p := H p\<lparr>n_par := Some q\<rparr>)) n\<lparr>n_par := Some q\<rparr>) = adopt q {p, n} H"
  by (rule ext) (simp add: adopt_def)

lemma createRoot_conc:
  assumes conc: "conc t (split_ghost p n G) D" and n: "pages t = Suc n" "p < n" and D: "D (Suc n) = None"
  shows "conc (createRoot (split_key (G p)) p n t) (root_ghost p n G) D"
    "pages (createRoot (split_key (G p)) p n t) = Suc (Suc n)" "bt_head (createRoot (split_key (G p)) p n t) = Suc n"
proof -
  let ?R = "\<lparr>n_es = [split_key (G p)], n_cs = [p, n], n_par = None, n_level = Suc (n_level (G p)), n_lo = None, n_hi = None\<rparr>"
  let ?pg = "new_page\<lparr>pg_pointers := (pg_pointers new_page)[0 := Some p, 1 := Some n],
      pg_elements := (pg_elements new_page)[0 := Some (split_key (G p))], pg_size := 1\<rparr>"
  define t1 where "t1 = snd (alloc_page ?pg t)"
  have "?pg = page_of None ?R" by (simp add: new_page_def mk_def pad_def numeral_eq_Suc)
  from conc_alloc [OF conc this] have c1: "conc t1 ((split_ghost p n G)(Suc n := ?R)) D" "pages t1 = Suc (Suc n)"
    unfolding t1_def using n D by (simp_all add: fun_upd_idem)
  have al: "alloc_page ?pg t = (Suc n, t1)" unfolding t1_def using n by (simp add: alloc_page_def)
  let ?t2 = "t1\<lparr>bt_head := Suc n\<rparr>"
  have c2: "conc ?t2 ((split_ghost p n G)(Suc n := ?R)) D" using c1(1) by (simp add: conc_def)
  have root: "createRoot (split_key (G p)) p n t = set_parent (Some (Suc n)) n (set_parent (Some (Suc n)) p ?t2)"
    unfolding createRoot_def al by simp
  have "conc (set_parent (Some (Suc n)) n (set_parent (Some (Suc n)) p ?t2)) (root_ghost p n G) D"
  proof -
    have c3: "conc (set_parent (Some (Suc n)) p ?t2) (((split_ghost p n G)(Suc n := ?R))
        (p := ((split_ghost p n G)(Suc n := ?R)) p\<lparr>n_par := Some (Suc n)\<rparr>)) D"
      using conc_parent [OF c2, of p "Some (Suc n)"] c1(2) n(2) by simp
    let ?G3 = "((split_ghost p n G)(Suc n := ?R))(p := ((split_ghost p n G)(Suc n := ?R)) p\<lparr>n_par := Some (Suc n)\<rparr>)"
    have "?G3(n := ?G3 n\<lparr>n_par := Some (Suc n)\<rparr>) = root_ghost p n G"
      unfolding root_ghost_def by (rule adopt_two) (use n(2) in simp)
    with conc_parent [OF c3, of n "Some (Suc n)"] c1(2) show ?thesis by simp
  qed
  with root c1(2) show "conc (createRoot (split_key (G p)) p n t) (root_ghost p n G) D"
    "pages (createRoot (split_key (G p)) p n t) = Suc (Suc n)" "bt_head (createRoot (split_key (G p)) p n t) = Suc n" by simp_all
qed

text \<open>The last refresh of the parent changes nothing.\<close>

lemma refresh_parent_of_conc:
  assumes conc: "conc t G D" and good: "good G (pages t) (bt_head t)" and r: "r < pages t" "r \<noteq> bt_head t"
    and clean: "\<forall>q<pages t. D q \<noteq> None \<longrightarrow> n_level (G q) \<le> n_level (G r)"
  obtains u where "refresh_parent_of r t = Inr u" "conc u G D" "pages u = pages t" "bt_head u = bt_head t"
proof -
  obtain q where q: "q < pages t" "n_par (G r) = Some q" "r \<in> set (n_cs (G q))"
    using goodD(7) [OF good r(1)] r(2) by (auto simp: link_ok_def)
  note lev = child_level(1) [OF good q(1,3)]
  have "D q = None"
  proof (rule ccontr)
    assume "D q \<noteq> None"
    with clean q(1) have "n_level (G q) \<le> n_level (G r)" by blast
    with lev show False by linarith
  qed
  then have pg: "bt_pages t ! q = mk (G q)" using conc q(1) by (simp add: conc_def)
  have "pg_parent (bt_pages t ! r) = Some q" using conc r(1) q(2) by (simp add: conc_def)
  then have step: "refresh_parent_of r t = Inr (refresh_parent q t)" by (simp add: refresh_parent_of_def)
  note B = goodD(6) [OF good q(1)]
  have "length (n_cs (G q)) \<le> 6" using length_kids [OF B child_level(2) [OF good q(1,3)]] body_short [OF B] by linarith
  then have six: "length (pg_pointers (bt_pages t ! q)) = 6" unfolding pg mk_sel by (rule length_pad)
  have ptrs: "set (n_cs (G q)) = {c. Some c \<in> set (pg_pointers (bt_pages t ! q))}" by (simp add: pg pad_some)
  have "\<forall>c\<in>set (n_cs (G q)). c < pages t" using child_level(3) [OF good q(1)] by blast
  note fresh = refresh_conc [OF conc six ptrs this]
  have "adopt q (set (n_cs (G q))) G = G"
  proof
    fix i
    have "n_par (G i) = Some q" if "i \<in> set (n_cs (G q))" using child_level(4) [OF good q(1) that] .
    then show "adopt q (set (n_cs (G q))) G i = G i" by (auto simp: adopt_def)
  qed
  with that [OF step] fresh show ?thesis by simp
qed

section \<open>Insertion keeps the invariant\<close>

definition inner_es :: "(page_id \<Rightarrow> node) \<Rightarrow> nat \<Rightarrow> index_elem set" where
  "inner_es G n = (\<Union>i\<in>{i. i < n \<and> 0 < n_level (G i)}. set (n_es (G i)))"

definition leaf_es :: "(page_id \<Rightarrow> node) \<Rightarrow> nat \<Rightarrow> index_elem set" where
  "leaf_es G n = (\<Union>i\<in>{i. i < n \<and> n_level (G i) = 0}. set (n_es (G i)))"

lemma in_inner: "e \<in> inner_es G n \<longleftrightarrow> (\<exists>i<n. 0 < n_level (G i) \<and> e \<in> set (n_es (G i)))"
  by (auto simp: inner_es_def)

lemma in_leaf: "e \<in> leaf_es G n \<longleftrightarrow> (\<exists>i<n. n_level (G i) = 0 \<and> e \<in> set (n_es (G i)))"
  by (auto simp: leaf_es_def)

text \<open>An insertion on a level leaves the pages below as they are, and new pages are on it or higher.\<close>

definition grown :: "(page_id \<Rightarrow> node) \<Rightarrow> nat \<Rightarrow> nat \<Rightarrow> (page_id \<Rightarrow> node) \<Rightarrow> nat \<Rightarrow> bool" where
  "grown G n l G' n' \<longleftrightarrow> n \<le> n' \<and> (\<forall>i<n. n_level (G' i) = n_level (G i) \<and>
     (n_level (G i) < l \<longrightarrow> n_es (G' i) = n_es (G i) \<and> n_cs (G' i) = n_cs (G i) \<and> n_iv (G' i) = n_iv (G i))) \<and>
     (\<forall>i. n \<le> i \<and> i < n' \<longrightarrow> l \<le> n_level (G' i))"

definition adds_inner :: "nat \<Rightarrow> bool" where
  "adds_inner m \<longleftrightarrow> (\<forall>G n p c r e t D. pend G n (bt_head t) p c r (dk (ie_id e)) \<longrightarrow> conc t G D \<longrightarrow> n = pages t \<longrightarrow>
     (\<forall>i. D i \<noteq> None \<longrightarrow> i < n \<and> n_level (G i) < n_level (G p)) \<longrightarrow> n_level (G (bt_head t)) - n_level (G p) < m \<longrightarrow>
     (\<exists>u G'. addElement m p e (Some r) t = Inr u \<and> conc u G' D \<and> good G' (pages u) (bt_head u) \<and>
        grown G n (n_level (G p)) G' (pages u) \<and> inner_es G' (pages u) = insert e (inner_es G n)))"

lemma split_sets:
  assumes over: "over G n head p" and len: "length (n_es (G p)) = 6"
  defines "G' \<equiv> split_ghost p n G" and "k \<equiv> split_key (G p)"
  shows "n_level (G p) = 0 \<Longrightarrow> leaf_es G' (Suc n) = leaf_es G n"
    "n_level (G p) = 0 \<Longrightarrow> inner_es G' (Suc n) = inner_es G n"
    "0 < n_level (G p) \<Longrightarrow> insert k (inner_es G' (Suc n)) = inner_es G n"
proof -
  note same = split_same [OF over len, folded G'_def] and p = overD(2) [OF over]
  have whole: "set (n_es (G p)) = set (take 3 (n_es (G p))) \<union> insert k (set (drop 4 (n_es (G p))))"
    using arg_cong [OF split_list(1) [OF len], of set] by (simp add: k_def split_key_def)
  have right: "set (n_es (G' n)) = (if n_level (G p) = 0 then insert k (set (drop 4 (n_es (G p)))) else set (drop 4 (n_es (G p))))"
    using split_list(2) [OF len] by (simp add: same(11) split_right_def k_def split_key_def)
  have union: "(\<Union>i\<in>{i. i < Suc n \<and> P (n_level (G' i))}. set (n_es (G' i))) =
      (if P (n_level (G p)) then set (n_es (G' p)) \<union> set (n_es (G' n)) else {}) \<union>
      (\<Union>i\<in>{i. i < n \<and> i \<noteq> p \<and> P (n_level (G i))}. set (n_es (G i)))" for P
  proof -
    have "{i. i < Suc n \<and> P (n_level (G' i))} =
        (if P (n_level (G p)) then {p, n} else {}) \<union> {i. i < n \<and> i \<noteq> p \<and> P (n_level (G i))}"
      using same(2) same(7) p by (auto simp: less_Suc_eq)
    then show ?thesis using same(1) by auto
  qed
  have old: "(\<Union>i\<in>{i. i < n \<and> P (n_level (G i))}. set (n_es (G i))) =
      (if P (n_level (G p)) then set (n_es (G p)) else {}) \<union>
      (\<Union>i\<in>{i. i < n \<and> i \<noteq> p \<and> P (n_level (G i))}. set (n_es (G i)))" for P
    using p by auto
  show "n_level (G p) = 0 \<Longrightarrow> leaf_es G' (Suc n) = leaf_es G n"
    unfolding leaf_es_def union [of "\<lambda>l. l = 0"] old [of "\<lambda>l. l = 0"] using same(10) right whole by auto
  show "n_level (G p) = 0 \<Longrightarrow> inner_es G' (Suc n) = inner_es G n"
    unfolding inner_es_def union [of "\<lambda>l. 0 < l"] old [of "\<lambda>l. 0 < l"] by simp
  show "0 < n_level (G p) \<Longrightarrow> insert k (inner_es G' (Suc n)) = inner_es G n"
    unfolding inner_es_def union [of "\<lambda>l. 0 < l"] old [of "\<lambda>l. 0 < l"] using same(10) right whole by auto
qed

lemma put_sets:
  assumes "p < n"
  shows "0 < n_level (G p) \<Longrightarrow> r \<noteq> p \<Longrightarrow> inner_es (put_inner p e r G) n = insert e (inner_es G n)"
    "n_level (G p) = 0 \<Longrightarrow> leaf_es (put_leaf p e G) n = insert e (leaf_es G n)"
    "n_level (G p) = 0 \<Longrightarrow> inner_es (put_leaf p e G) n = inner_es G n"
proof -
  show "n_level (G p) = 0 \<Longrightarrow> inner_es (put_leaf p e G) n = inner_es G n"
    unfolding inner_es_def by (rule SUP_cong) (auto simp: put_leaf_def)
  have inner: "set (n_es (put_inner p e r G i)) = (if i = p then insert e (set (n_es (G i))) else set (n_es (G i)))"
    "n_level (put_inner p e r G i) = n_level (G i)" if "r \<noteq> p" for i
    using that by (auto simp: put_inner_def put_node_def)
  show "0 < n_level (G p) \<Longrightarrow> r \<noteq> p \<Longrightarrow> inner_es (put_inner p e r G) n = insert e (inner_es G n)"
    unfolding inner_es_def using assms by (auto simp: inner split: if_splits)
  have leaf: "set (n_es (put_leaf p e G i)) = (if i = p then insert e (set (n_es (G i))) else set (n_es (G i)))"
    "n_level (put_leaf p e G i) = n_level (G i)" for i
    by (auto simp: put_leaf_def)
  show "n_level (G p) = 0 \<Longrightarrow> leaf_es (put_leaf p e G) n = insert e (leaf_es G n)"
    unfolding leaf_es_def using assms by (auto simp: leaf split: if_splits)
qed

lemma root_sets:
  assumes over: "over G n head p" and len: "length (n_es (G p)) = 6"
  shows "inner_es (root_ghost p n G) (Suc (Suc n)) = insert (split_key (G p)) (inner_es (split_ghost p n G) (Suc n))"
    "grown (split_ghost p n G) (Suc n) (Suc (n_level (G p))) (root_ghost p n G) (Suc (Suc n))"
    "n_level (root_ghost p n G (Suc n)) = Suc (n_level (G p))"
proof -
  let ?R = "root_ghost p n G" and ?S = "split_ghost p n G"
  have root: "n_es (?R (Suc n)) = [split_key (G p)]" "n_level (?R (Suc n)) = Suc (n_level (G p))"
    using overD(2) [OF over] by (simp_all add: root_ghost_def adopt_def)
  have old: "n_es (?R i) = n_es (?S i)" "n_level (?R i) = n_level (?S i)" "n_cs (?R i) = n_cs (?S i)" "n_iv (?R i) = n_iv (?S i)"
    if "i < Suc n" for i
    using that by (auto simp: root_ghost_def adopt_def)
  have "{i. i < Suc (Suc n) \<and> 0 < n_level (?R i)} = insert (Suc n) {i. i < Suc n \<and> 0 < n_level (?S i)}"
    using root(2) old(2) by (auto simp: less_Suc_eq_le le_Suc_eq)
  then show "inner_es ?R (Suc (Suc n)) = insert (split_key (G p)) (inner_es ?S (Suc n))"
    unfolding inner_es_def using root(1) old(1) by auto
  show "grown ?S (Suc n) (Suc (n_level (G p))) ?R (Suc (Suc n))"
  proof -
    have "Suc (n_level (G p)) \<le> n_level (?R i)" if "Suc n \<le> i \<and> i < Suc (Suc n)" for i
    proof -
      have "i = Suc n" using that by simp
      with root(2) show ?thesis by simp
    qed
    with old show ?thesis unfolding grown_def by simp
  qed
qed (use overD(2) [OF over] in \<open>simp add: root_ghost_def adopt_def\<close>)

text \<open>The promotion: the root of a taller tree, or the insertion into the parent.\<close>

lemma promote_spec:
  assumes IH: "adds_inner m" and over: "over G n (bt_head t) p" and len: "length (n_es (G p)) = 6"
    and conc: "conc t (split_ghost p n G) D" and n: "pages t = Suc n"
    and D: "\<forall>i. D i \<noteq> None \<longrightarrow> i < Suc n \<and> n_level (split_ghost p n G i) \<le> n_level (G p)"
      "D p = None" "D n = (if n_level (G p) = 0 then None else Some (split_key (G p)))"
    and m: "n_level (G (bt_head t)) \<le> n_level (G p) + m"
  shows "\<exists>u G'. promote (addElement m) p n t = Inr u \<and> conc u G' D \<and> good G' (pages u) (bt_head u) \<and>
    grown (split_ghost p n G) (Suc n) (Suc (n_level (G p))) G' (pages u) \<and>
    inner_es G' (pages u) = insert (split_key (G p)) (inner_es (split_ghost p n G) (Suc n)) \<and>
    n_level (G p) < n_level (G' (bt_head u))"
proof -
  let ?G = "split_ghost p n G" and ?k = "split_key (G p)"
  note same = split_same [OF over len] and p = overD(2) [OF over]
  have pn: "bt_pages t ! p = mk (?G p)" "bt_pages t ! n = page_of (D n) (?G n)" using conc n p D(2) by (auto simp: conc_def)
  have first: "pg_elements (bt_pages t ! n) ! 0 = Some ?k"
    using split_list(2) [OF len] same(11) unfolding pn(2) D(3)
    by (simp add: mk_dirty_def pad_def split_right_def split_key_def)
  have par: "pg_parent (bt_pages t ! p) = n_par (G p)" using pn(1) same(8) by simp
  show ?thesis
  proof (cases "n_par (G p)")
    case None
    have "D (Suc n) = None" using D(1) by blast
    note root = createRoot_conc [OF conc n p this]
    have "promote (addElement m) p n t = Inr (createRoot ?k p n t)" by (simp add: promote_def first par None)
    with root split_root [OF over len None] root_sets [OF over len] show ?thesis by auto
  next
    case (Some q)
    note pend = split_pend [OF over len Some]
    have lev: "n_level (?G q) = Suc (n_level (G p))"
      using body_kid(1) [OF pendD(9) [OF pend], of p] pendD(3,4,6) [OF pend] same(2) [OF p]
      by (cases "q = p") auto
    have q: "q < Suc n" "n_level (?G q) \<le> n_level (?G (bt_head t))"
      using pendD(1,2) [OF pend] by (auto simp: frame_ok_def)
    have "bt_head t < n" using overD(1) [OF over] by (simp add: frame_ok_def)
    then have "n_level (?G (bt_head t)) - n_level (?G q) < m" using same(2) [of "bt_head t"] m lev q(2) by linarith
    moreover have "\<forall>i. D i \<noteq> None \<longrightarrow> i < Suc n \<and> n_level (?G i) < n_level (?G q)" using D(1) unfolding lev less_Suc_eq_le .
    ultimately obtain u G' where u: "addElement m q ?k (Some n) t = Inr u" "conc u G' D" "good G' (pages u) (bt_head u)"
      "grown ?G (Suc n) (Suc (n_level (G p))) G' (pages u)" "inner_es G' (pages u) = insert ?k (inner_es ?G (Suc n))"
      using IH pend conc n unfolding adds_inner_def lev [symmetric] by metis
    have "promote (addElement m) p n t = Inr u" by (simp add: promote_def first par Some u(1))
    moreover have "n_level (G p) < n_level (G' (bt_head u))"
    proof -
      have "q < pages u" "n_level (G' q) = n_level (?G q)" using u(4) q(1) by (auto simp: grown_def)
      with goodD(5) [OF u(3), of q] lev show ?thesis by linarith
    qed
    ultimately show ?thesis using u(2-5) by (intro exI [of _ u] exI [of _ G']) blast
  qed
qed

lemma grown_trans: "grown G n l G1 n1 \<Longrightarrow> grown G1 n1 l' G2 n2 \<Longrightarrow> l \<le> l' \<Longrightarrow> grown G n l G2 n2"
  unfolding grown_def by (smt (verit, best) dual_order.trans not_le_imp_less order_less_le_trans)

lemma grown_put: "r \<noteq> p \<Longrightarrow> grown G n (n_level (G p)) (put_inner p e r G) n"
  by (auto simp: grown_def put_inner_def put_node_def)

lemma grown_split: "over G n head p \<Longrightarrow> length (n_es (G p)) = 6 \<Longrightarrow> grown G n (n_level (G p)) (split_ghost p n G) (Suc n)"
  using split_same [of G n head p] unfolding grown_def by (auto simp: less_Suc_eq)

lemma pend_page:
  assumes pend: "pend G n head p c r k"
  shows "length (n_es (G p)) \<le> 5" "length (n_cs (G p)) = Suc (length (n_es (G p)))"
    "\<forall>x\<in>set (n_cs (G p)). x < n \<and> x \<noteq> p \<and> n_par (G x) = Some p"
proof -
  let ?G0 = "G(c := G c\<lparr>n_lo := n_lo (G r)\<rparr>)"
  note B0 = pendD(9) [OF pend]
  have same: "n_es (?G0 x) = n_es (G x)" "n_cs (?G0 x) = n_cs (G x)" "n_level (?G0 x) = n_level (G x)" "n_par (?G0 x) = n_par (G x)" for x
    by simp_all
  show "length (n_es (G p)) \<le> 5" using body_short [OF B0] unfolding same .
  have pos: "0 < n_level (?G0 p)" using pendD(3) [OF pend] unfolding same .
  show "length (n_cs (G p)) = Suc (length (n_es (G p)))" using length_kids [OF B0 pos] unfolding same .
  show "\<forall>x\<in>set (n_cs (G p)). x < n \<and> x \<noteq> p \<and> n_par (G x) = Some p"
  proof
    fix x assume "x \<in> set (n_cs (G p))"
    then have "x \<in> set (n_cs (?G0 p))" unfolding same .
    from body_kid [OF B0 pos this] show "x < n \<and> x \<noteq> p \<and> n_par (G x) = Some p" unfolding same by auto
  qed
qed

lemma adds_inner_Suc:
  assumes IH: "adds_inner m"
  shows "adds_inner (Suc m)"
  unfolding adds_inner_def
proof (intro allI impI)
  fix G n p c r D and e :: index_elem and t :: bptree
  assume pend: "pend G n (bt_head t) p c r (dk (ie_id e))" and conc: "conc t G D" and n: "n = pages t"
    and D: "\<forall>i. D i \<noteq> None \<longrightarrow> i < n \<and> n_level (G i) < n_level (G p)"
    and m: "n_level (G (bt_head t)) - n_level (G p) < Suc m"
  note P = pendD(1-7) [OF pend] and page = pend_page [OF pend] and over = put_inner_over [OF pend]
  let ?l = "n_level (G p)" and ?G = "put_inner p e r G"
  have Dp: "D p = None" "D n = None" using D by auto
  have pg: "bt_pages t ! p = mk (G p)" "page_at t p = Inr (mk (G p))"
    using conc P(2) n Dp by (simp_all add: conc_def page_at_def)
  have Gp: "?G p = put_node e r (G p)" "n_level (?G p) = ?l" "length (n_es (?G p)) = Suc (length (n_es (G p)))"
    using P(6) by (simp_all add: put_inner_def put_node_def)
  have lev: "n_level (?G i) = n_level (G i)" for i by (simp add: put_inner_def put_node_def)
  note sets = put_sets(1) [of p n G r e, OF P(2,3,6)]
  show "\<exists>u G'. addElement (Suc m) p e (Some r) t = Inr u \<and> conc u G' D \<and> good G' (pages u) (bt_head u) \<and>
      grown G n ?l G' (pages u) \<and> inner_es G' (pages u) = insert e (inner_es G n)"
  proof (cases "length (n_es (G p)) < 5")
    case True
    note step = add_inner_conc [OF conc _ _ P(6) Dp(1) True page(2), unfolded n [symmetric], OF P(2,5)]
    have "addElement (Suc m) p e (Some r) t = Inr (add_to_page p e (Some r) t)" using True by (simp add: pg isFull_def)
    moreover have "good ?G n (bt_head t)" using over_good [OF over] Gp(3) True by simp
    ultimately show ?thesis using step grown_put [OF P(6)] sets by (intro exI [of _ "add_to_page p e (Some r) t"] exI [of _ ?G]) simp
  next
    case False
    then have len: "length (n_es (G p)) = 5" using page(1) by simp
    then have len6: "length (n_es (?G p)) = 6" using Gp(3) by simp
    have leaf: "\<not> isLeaf (mk (G p))"
    proof
      assume "isLeaf (mk (G p))"
      then have "pg_pointers (mk (G p)) ! 0 = None" unfolding isLeaf_def set_upt by auto
      with page(2) show False by (simp add: pad_nth)
    qed
    let ?k = "split_key (?G p)" and ?S = "split_ghost p n ?G"
    have "length (n_cs (G p)) = 6" using page(2) len by simp
    then obtain u where "split_inner p e (Some r) t = (n, u)" "conc u ?S (D(n := Some (split_key (put_node e r (G p)))))"
      "pages u = Suc n" "bt_head u = bt_head t"
      by (rule split_inner_conc [OF conc _ Dp(1) _ P(6) len _ P(3), unfolded n [symmetric], OF P(2,5) _ Dp(2) page(3), of e])
    note u = this [folded Gp(1)]
    have S: "n_level (?S i) = n_level (G i)" if "i < n" for i using split_same(2) [OF over len6 that] lev by simp
    have Sn: "n_level (?S n) = ?l" using split_same(7) [OF over len6] lev by simp
    have "\<exists>v G'. promote (addElement m) p n u = Inr v \<and> conc v G' (D(n := Some ?k)) \<and> good G' (pages v) (bt_head v) \<and>
      grown ?S (Suc n) (Suc (n_level (?G p))) G' (pages v) \<and>
      inner_es G' (pages v) = insert ?k (inner_es ?S (Suc n)) \<and> n_level (?G p) < n_level (G' (bt_head v))"
    proof (rule promote_spec [OF IH _ len6 u(2,3)])
      show "over ?G n (bt_head u) p" unfolding u(4) by (rule over)
      show "\<forall>i. (D(n := Some ?k)) i \<noteq> None \<longrightarrow> i < Suc n \<and> n_level (?S i) \<le> n_level (?G p)"
        using D S Sn lev by (auto simp: less_SucI less_imp_le)
      show "(D(n := Some ?k)) p = None" using Dp P(2) by simp
      show "(D(n := Some ?k)) n = (if n_level (?G p) = 0 then None else Some ?k)" using P(3) lev by simp
      show "n_level (?G (bt_head u)) \<le> n_level (?G p) + m" using m unfolding u(4) lev by linarith
    qed
    then obtain v G' where v: "promote (addElement m) p n u = Inr v" "conc v G' (D(n := Some ?k))" "good G' (pages v) (bt_head v)"
      "grown ?S (Suc n) (Suc ?l) G' (pages v)" "inner_es G' (pages v) = insert ?k (inner_es ?S (Suc n))" "?l < n_level (G' (bt_head v))"
      unfolding Gp(2) by blast
    have nv: "n < pages v" "n_level (G' n) = ?l" "n_es (G' n) = n_es (?S n)" "n_cs (G' n) = n_cs (?S n)"
      using v(4) Sn by (auto simp: grown_def)
    have "length (n_es (G' n)) = 2" "length (n_cs (G' n)) = 3"
      unfolding nv(3,4) using split_same(11,13) [OF over len6] len6 P(3) lev page(2) len
      by (simp_all add: split_right_def Gp put_node_def put_cs_def)
    from drop_first_conc [OF v(2) nv(1) _ this]
    have w: "conc (drop_first n v) G' D" "pages (drop_first n v) = pages v" "bt_head (drop_first n v) = bt_head v"
      using Dp(2) by (simp_all add: fun_upd_idem)
    have clean: "\<forall>q<pages v. D q \<noteq> None \<longrightarrow> n_level (G' q) \<le> n_level (G' n)"
    proof (intro allI impI)
      fix q assume q: "q < pages v" "D q \<noteq> None"
      then have "q < n" "n_level (G q) < ?l" using D by auto
      moreover from this v(4) S have "n_level (G' q) = n_level (G q)" by (simp add: grown_def)
      ultimately show "n_level (G' q) \<le> n_level (G' n)" using nv(2) by simp
    qed
    have "n \<noteq> bt_head v" using v(6) nv(2) by auto
    from refresh_parent_of_conc [OF w(1), unfolded w(2,3), OF v(3) nv(1) this clean]
    obtain x where x: "refresh_parent_of n (drop_first n v) = Inr x" "conc x G' D" "pages x = pages v" "bt_head x = bt_head v"
      by blast
    have "addElement (Suc m) p e (Some r) t = Inr x" using len leaf u(1) v(1) x(1) by (simp add: pg isFull_def)
    moreover have "grown G n ?l G' (pages v)"
      using grown_trans [OF grown_trans [OF grown_put [OF P(6)] grown_split [OF over len6]] v(4)] lev by simp
    moreover have "inner_es G' (pages v) = insert e (inner_es G n)"
      using v(5) split_sets(3) [OF over len6] P(3) sets lev by simp
    ultimately show ?thesis using x(2-4) v(3) by (intro exI [of _ x] exI [of _ G']) simp
  qed
qed

lemma adds_inner_all: "adds_inner m"
  by (induction m) (simp_all add: adds_inner_Suc adds_inner_def [of 0])

text \<open>A key of an inner page is the upper bound of the leaf that stands for it.\<close>

lemma ivs_snd:
  "desc ks \<Longrightarrow> x \<in> set ks \<or> hi = Some x \<and> (\<forall>y\<in>set ks. y \<le> x) \<Longrightarrow> snd (ivs hi ks lo ! slot x ks) = Some x"
proof (induction hi ks lo rule: ivs.induct)
  case (2 hi k ks lo)
  show ?case
  proof (cases "x \<le> k")
    case True
    have "x \<in> set ks \<or> Some k = Some x \<and> (\<forall>y\<in>set ks. y \<le> x)" using 2(2,3) True by auto
    with 2(1,2) True show ?thesis by (simp add: slot_def)
  next
    case False
    with 2(2,3) show ?thesis by (auto simp: slot_def)
  qed
qed (simp add: slot_def)

lemma leaf_bound:
  assumes good: "good G n head"
  shows "i < n \<Longrightarrow> within x (n_iv (G i)) \<Longrightarrow> n_hi (G i) = Some x \<Longrightarrow>
    \<exists>l<n. n_level (G l) = 0 \<and> within x (n_iv (G l)) \<and> n_hi (G l) = Some x"
proof (induction "n_level (G i)" arbitrary: i)
  case 0
  then show ?case by auto
next
  case (Suc m)
  note B = goodD(6) [OF good Suc.prems(1)]
  have pos: "0 < n_level (G i)" using Suc.hyps(2) by simp
  let ?s = "slot x (n_keys (G i))"
  have s: "?s \<le> length (n_es (G i))" using slot_le [of x "n_keys (G i)"] by simp
  note ch = body_child [OF B pos s] child_within [OF B pos Suc.prems(2)]
  have le: "\<forall>y\<in>set (n_keys (G i)). y \<le> x" using body_within [OF B] Suc.prems(3) by (auto simp: bounds)
  have "snd (ivs (n_hi (G i)) (n_keys (G i)) (n_lo (G i)) ! ?s) = Some x"
    using Suc.prems(3) le by (intro ivs_snd [OF body_desc [OF B]] disjI2 conjI)
  then have "n_hi (G (n_cs (G i) ! ?s)) = Some x" unfolding ch(4) [symmetric] by simp
  moreover have "m = n_level (G (n_cs (G i) ! ?s))" using Suc.hyps(2) ch(3) by linarith
  ultimately show ?case using Suc.hyps(1) [OF _ ch(2,6)] by blast
qed

lemma inner_key_bound:
  assumes good: "good G n head" and j: "e \<in> inner_es G n" "dk (ie_id e) = x"
    and p: "p < n" "n_level (G p) = 0" "within x (n_iv (G p))"
  shows "n_hi (G p) = Some x"
proof -
  obtain j where j: "j < n" "0 < n_level (G j)" "x \<in> set (n_keys (G j))" using j by (auto simp: in_inner)
  note B = goodD(6) [OF good j(1)]
  let ?s = "slot x (n_keys (G j))"
  have s: "?s \<le> length (n_es (G j))" using slot_le [of x "n_keys (G j)"] by simp
  note ch = body_child [OF B j(2) s] child_within [OF B j(2) body_within [OF B j(3)]]
  have "snd (ivs (n_hi (G j)) (n_keys (G j)) (n_lo (G j)) ! ?s) = Some x"
    by (rule ivs_snd [OF body_desc [OF B] disjI1]) (rule j(3))
  then have "n_hi (G (n_cs (G j) ! ?s)) = Some x" unfolding ch(4) [symmetric] by simp
  from leaf_bound [OF good ch(2,6) this] obtain l where l: "l < n" "n_level (G l) = 0" "within x (n_iv (G l))" "n_hi (G l) = Some x"
    by blast
  have "n_level (G l) = n_level (G p)" using l(2) p(2) by simp
  from page_unique [OF good l(1) p(1) this l(3) p(3)] l(4) show ?thesis by simp
qed

lemma leaf_sets_grown:
  assumes "grown G n (Suc l) G' n'"
  shows "leaf_es G' n' = leaf_es G n"
proof -
  have old: "n \<le> n'" "\<forall>i<n. n_level (G' i) = n_level (G i)" "\<forall>i<n. n_level (G i) = 0 \<longrightarrow> n_es (G' i) = n_es (G i)"
    "\<forall>i. n \<le> i \<and> i < n' \<longrightarrow> 0 < n_level (G' i)"
    using assms by (auto simp: grown_def)
  have "{i. i < n' \<and> n_level (G' i) = 0} = {i. i < n \<and> n_level (G i) = 0}"
    using old by (metis (no_types, lifting) less_le_trans not_gr_zero not_less)
  then show ?thesis using old(2,3) by (auto simp: leaf_es_def)
qed

lemma addElement_leaf:
  assumes good: "good G (pages t) (bt_head t)" and conc: "conc t G clean"
    and p: "p < pages t" "n_level (G p) = 0" "within (dk (ie_id e)) (n_iv (G p))" "dk (ie_id e) \<notin> set (n_keys (G p))"
    and m: "n_level (G (bt_head t)) \<le> m"
  shows "\<exists>u G'. addElement (Suc m) p e None t = Inr u \<and> conc u G' clean \<and> good G' (pages u) (bt_head u) \<and>
    leaf_es G' (pages u) = insert e (leaf_es G (pages t)) \<and>
    (inner_es G' (pages u) = inner_es G (pages t) \<or> (\<exists>k\<in>leaf_es G' (pages u).
      inner_es G' (pages u) = insert k (inner_es G (pages t)) \<and> (\<forall>x\<in>inner_es G (pages t). dk (ie_id x) \<noteq> dk (ie_id k))))"
proof -
  let ?n = "pages t" and ?G = "put_leaf p e G"
  note B = goodD(6) [OF good p(1)] and over = put_leaf_over [OF good p]
  note sets = put_sets(2,3) [of p ?n G, OF p(1,2), of e]
  have cs: "n_cs (G p) = []" using B p(2) by (simp add: node_ok_def shape_ok_def Let_def)
  have pg: "page_at t p = Inr (mk (G p))" using conc p(1) by (simp add: conc_clean page_at_def)
  have Gp: "n_level (?G p) = 0" "length (n_es (?G p)) = Suc (length (n_es (G p)))" "n_iv (?G p) = n_iv (G p)"
    using p(2) by (simp_all add: put_leaf_def)
  have lev: "n_level (?G i) = n_level (G i)" for i by (simp add: put_leaf_def)
  show ?thesis
  proof (cases "length (n_es (G p)) < 5")
    case True
    note step = add_leaf_conc [OF conc p(1) refl True cs, of e]
    have "addElement (Suc m) p e None t = Inr (add_to_page p e None t)" using True by (simp add: pg isFull_def)
    moreover have "good ?G ?n (bt_head t)" using over_good [OF over] Gp(2) True by simp
    ultimately show ?thesis using step sets by (intro exI [of _ "add_to_page p e None t"] exI [of _ ?G]) simp
  next
    case False
    then have len: "length (n_es (G p)) = 5" using body_short [OF B] by simp
    then have len6: "length (n_es (?G p)) = 6" using Gp(2) by simp
    have leaf: "isLeaf (mk (G p))" using isLeaf_mk [OF B] p(2) by simp
    let ?k = "split_key (?G p)" and ?S = "split_ghost p ?n ?G"
    obtain u where u: "split_leaf p e t = (?n, u)" "conc u ?S clean" "pages u = Suc ?n" "bt_head u = bt_head t"
      by (rule split_leaf_conc [OF conc p(1) refl len cs p(2) refl, of e])
    have "\<exists>v G'. promote (addElement m) p ?n u = Inr v \<and> conc v G' clean \<and> good G' (pages v) (bt_head v) \<and>
      grown ?S (Suc ?n) (Suc (n_level (?G p))) G' (pages v) \<and>
      inner_es G' (pages v) = insert ?k (inner_es ?S (Suc ?n)) \<and> n_level (?G p) < n_level (G' (bt_head v))"
    proof (rule promote_spec [OF adds_inner_all _ len6 u(2,3)])
      show "over ?G ?n (bt_head u) p" unfolding u(4) by (rule over)
      show "n_level (?G (bt_head u)) \<le> n_level (?G p) + m" using m unfolding u(4) lev by linarith
    qed (use Gp(1) in simp_all)
    then obtain v G' where v: "promote (addElement m) p ?n u = Inr v" "conc v G' clean" "good G' (pages v) (bt_head v)"
      "grown ?S (Suc ?n) (Suc 0) G' (pages v)" "inner_es G' (pages v) = insert ?k (inner_es ?S (Suc ?n))" "0 < n_level (G' (bt_head v))"
      unfolding Gp(1) by blast
    have nv: "?n < pages v" "n_level (G' ?n) = 0" using v(4) split_same(7) [OF over len6] Gp(1) by (auto simp: grown_def)
    have "?n \<noteq> bt_head v" using v(6) nv(2) by auto
    from refresh_parent_of_conc [OF v(2,3) nv(1) this] obtain x where
      x: "refresh_parent_of ?n v = Inr x" "conc x G' clean" "pages x = pages v" "bt_head x = bt_head v" by auto
    have step: "addElement (Suc m) p e None t = Inr x" using len leaf u(1) v(1) x(1) by (simp add: pg isFull_def)
    have leafs: "leaf_es G' (pages v) = insert e (leaf_es G ?n)"
      using leaf_sets_grown [OF v(4)] split_sets(1) [OF over len6 Gp(1)] sets(1) by simp
    have inner: "inner_es G' (pages v) = insert ?k (inner_es G ?n)"
      using v(5) split_sets(2) [OF over len6 Gp(1)] sets(2) by simp
    note key = split_key_in [OF over len6]
    have "?k \<in> leaf_es ?G ?n" using key(1) p(1) Gp(1) by (auto simp: in_leaf)
    then have k: "?k \<in> leaf_es G' (pages v)" using leafs sets(1) by simp
    have "dk (ie_id y) \<noteq> dk (ie_id ?k)" if y: "y \<in> inner_es G ?n" for y
    proof
      assume eq: "dk (ie_id y) = dk (ie_id ?k)"
      have "within (dk (ie_id ?k)) (n_iv (G p))"
        using key(2,3) Gp(3) by (auto simp: bounds below_def split: option.splits)
      from inner_key_bound [OF good y eq p(1,2) this] key(3) Gp(3) show False by (simp add: below_def)
    qed
    with step x(2-4) v(3) leafs inner k show ?thesis by (intro exI [of _ x] exI [of _ G']) auto
  qed
qed

section \<open>The operations of the index\<close>

abbreviation el_key :: "index_elem \<Rightarrow> dkey" where
  "el_key e \<equiv> dk (ie_id e)"

text \<open>
  A tree with the elements I on its inner pages and L on its leaves. Every key is on a leaf; an inner
  element is a copy that was made when a leaf was split.
\<close>

definition tree_holds :: "bptree \<Rightarrow> index_elem set \<Rightarrow> index_elem set \<Rightarrow> bool" where
  "tree_holds t I L \<longleftrightarrow> (\<exists>G. conc t G clean \<and> good G (pages t) (bt_head t) \<and>
     inner_es G (pages t) = I \<and> leaf_es G (pages t) = L \<and>
     inj_on el_key I \<and> inj_on el_key L \<and> el_key ` I \<subseteq> el_key ` L)"

lemma new_tree_holds: "tree_holds new_tree {} {}"
proof -
  let ?G = "\<lambda>i. \<lparr>n_es = [], n_cs = [], n_par = None, n_level = 0, n_lo = None, n_hi = None\<rparr> :: node"
  have "conc new_tree ?G clean" by (simp add: conc_def new_tree_def new_page_def mk_def pad_def)
  moreover have "good ?G (pages new_tree) (bt_head new_tree)"
    by (simp add: good_def node_ok_def shape_ok_def link_ok_def new_tree_def)
  ultimately show ?thesis unfolding tree_holds_def by (intro exI [of _ ?G]) (auto simp: inner_es_def leaf_es_def)
qed

lemma root_within: "good G n head \<Longrightarrow> within k (n_iv (G head))"
  by (simp add: good_def bounds)

lemma index_find_holds:
  assumes "tree_holds t I L"
  shows "\<exists>r. index_find t key = Inr r \<and> (case r of
      Some e \<Rightarrow> el_key e = dk key \<and> (e \<in> I \<or> e \<in> L \<and> dk key \<notin> el_key ` I)
    | None \<Rightarrow> dk key \<notin> el_key ` L)"
proof -
  obtain G where G: "conc t G clean" "good G (pages t) (bt_head t)" "inner_es G (pages t) = I" "leaf_es G (pages t) = L"
    and sub: "el_key ` I \<subseteq> el_key ` L"
    using assms by (auto simp: tree_holds_def)
  note head = goodD(1) [OF G(2)]
  from findIndex_spec [OF G(2,1) refl head root_within [OF G(2)] goodD(4) [OF G(2)]] obtain found where
    f: "findIndex (pages t) t (bt_head t) key = Inr found" "found_at G (pages t) (n_level (G (bt_head t))) (dk key) found" by blast
  show ?thesis
  proof (cases found)
    case None
    have "dk key \<notin> el_key ` L"
      using f(2) goodD(5) [OF G(2)] unfolding None found_at_def G(4) [symmetric] by (force simp: in_leaf)
    with f(1) None show ?thesis by (simp add: index_find_def bt_fuel_def)
  next
    case (Some a)
    obtain q x where a: "a = (q, x)" by (cases a)
    let ?e = "n_es (G q) ! x"
    have q: "q < pages t" "x < length (n_es (G q))" "el_key ?e = dk key"
      "\<forall>j<pages t. n_level (G q) < n_level (G j) \<and> n_level (G j) \<le> n_level (G (bt_head t)) \<longrightarrow> dk key \<notin> set (n_keys (G j))"
      using f(2) unfolding Some a found_at_def by auto
    have el: "bt_element t (q, x) = Some ?e"
      using conc_clean [OF G(1) q(1)] body_short [OF goodD(6) [OF G(2) q(1)]] q(2) by (simp add: bt_element_def pad_nth)
    have mem: "?e \<in> set (n_es (G q))" using q(2) by simp
    have "?e \<in> I \<or> ?e \<in> L \<and> dk key \<notin> el_key ` I"
    proof (cases "n_level (G q) = 0")
      case True
      then have "?e \<in> L" using mem q(1) unfolding G(4) [symmetric] in_leaf by blast
      moreover have "dk key \<notin> el_key ` I"
      proof
        assume "dk key \<in> el_key ` I"
        then obtain j where "j < pages t" "0 < n_level (G j)" "dk key \<in> set (n_keys (G j))"
          unfolding G(3) [symmetric] by (auto simp: in_inner)
        with q(4) True goodD(5) [OF G(2)] show False by simp
      qed
      ultimately show ?thesis by blast
    next
      case False
      then show ?thesis using mem q(1) unfolding G(3) [symmetric] in_inner by blast
    qed
    with f(1) el q(3) show ?thesis by (simp add: index_find_def bt_fuel_def Some a)
  qed
qed

lemma index_add_holds:
  fixes docId :: string and pos :: nat
  assumes "tree_holds t I L" "dk key \<notin> el_key ` L"
  defines "e \<equiv> \<lparr>ie_id = key, ie_documentId = docId, ie_posData = pos\<rparr>"
  shows "\<exists>u J. index_add key docId pos t = Inr u \<and> tree_holds u J (insert e L) \<and>
    (J = I \<or> (\<exists>k\<in>insert e L. J = insert k I \<and> el_key k \<notin> el_key ` I))"
proof -
  obtain G where G: "conc t G clean" "good G (pages t) (bt_head t)" "inner_es G (pages t) = I" "leaf_es G (pages t) = L"
    and sub: "el_key ` I \<subseteq> el_key ` L" "inj_on el_key I" "inj_on el_key L"
    using assms(1) by (auto simp: tree_holds_def)
  note head = goodD(1) [OF G(2)]
  from findIndexPage_spec [OF G(2,1) refl head root_within [OF G(2)] goodD(4) [OF G(2)]] obtain q where
    q: "findIndexPage (pages t) t (bt_head t) key = Inr q" "q < pages t" "n_level (G q) = 0" "within (dk key) (n_iv (G q))" by blast
  obtain m where m: "pages t = Suc m" using head by (cases "pages t") auto
  have key: "el_key e = dk key" by (simp add: e_def)
  have "dk key \<notin> set (n_keys (G q))"
  proof
    assume "dk key \<in> set (n_keys (G q))"
    then obtain x where "x \<in> set (n_es (G q))" "el_key x = dk key" by auto
    moreover from this(1) q(2,3) have "x \<in> L" unfolding G(4) [symmetric] in_leaf by blast
    ultimately show False using assms(2) by (metis imageI)
  qed
  moreover have "n_level (G (bt_head t)) \<le> m" using goodD(4) [OF G(2)] m by simp
  ultimately obtain u G' where
    u: "addElement (pages t) q e None t = Inr u" "conc u G' clean" "good G' (pages u) (bt_head u)"
    "leaf_es G' (pages u) = insert e L" and J: "inner_es G' (pages u) = I \<or> (\<exists>k\<in>insert e L.
      inner_es G' (pages u) = insert k I \<and> (\<forall>x\<in>I. el_key x \<noteq> el_key k))"
    using addElement_leaf [OF G(2,1) q(2,3), of e m, unfolded key, OF q(4)]
    unfolding G(3,4) m [symmetric] by metis
  have J2: "inner_es G' (pages u) = I \<or> (\<exists>k\<in>insert e L. inner_es G' (pages u) = insert k I \<and> el_key k \<notin> el_key ` I)"
    using J by fastforce
  have step: "index_add key docId pos t = Inr u" using q(1) u(1) by (simp add: index_add_def bt_fuel_def e_def)
  have "inj_on el_key (insert e L)" using sub(3) assms(2) key by (auto simp: inj_on_insert)
  moreover have "inj_on el_key (inner_es G' (pages u))" using J2 sub(2) by (auto simp: inj_on_insert)
  moreover have "el_key ` inner_es G' (pages u) \<subseteq> el_key ` insert e L"
  proof (cases "inner_es G' (pages u) = I")
    case True
    with sub(1) show ?thesis by (simp add: subset_insertI2)
  next
    case False
    with J2 obtain k where k: "k \<in> insert e L" "inner_es G' (pages u) = insert k I" by blast
    from imageI [OF k(1), of el_key] sub(1) k(2) show ?thesis by (simp add: subset_insertI2)
  qed
  ultimately have "tree_holds u (inner_es G' (pages u)) (insert e L)"
    unfolding tree_holds_def using u(2-4) by (intro exI [of _ G']) simp
  with step J2 show ?thesis by (intro exI [of _ u] exI [of _ "inner_es G' (pages u)"]) simp
qed

end
