(* ===== verification/Index_Map.thy ===== *)
theory Index_Map
  imports Index_Insert
begin

text \<open>
  What the users of an index rely on, as an interface: a search finds the element that was added under
  a key. The B+ tree of Index_Tree provides it; updates of positions are described apart, as they
  leave the copies on inner pages behind.
\<close>

declare split_paired_All [simp del] split_paired_Ex [simp del]

section \<open>The interface\<close>

primrec add_all :: "(string \<Rightarrow> string \<Rightarrow> nat \<Rightarrow> 't \<Rightarrow> 't res) \<Rightarrow> (string \<times> string \<times> nat) list \<Rightarrow> 't \<Rightarrow> 't res" where
  "add_all add [] t = Inr t"
| "add_all add (x # xs) t = bindR (add (fst x) (fst (snd x)) (snd (snd x)) t) (add_all add xs)"

definition entry_elem :: "string \<times> string \<times> nat \<Rightarrow> index_elem" where
  "entry_elem x = \<lparr>ie_id = fst x, ie_documentId = fst (snd x), ie_posData = snd (snd x)\<rparr>"

locale position_index =
  fixes ok :: "'t \<Rightarrow> bool" and none :: 't and look :: "'t \<Rightarrow> string \<Rightarrow> index_elem option res"
    and add :: "string \<Rightarrow> string \<Rightarrow> nat \<Rightarrow> 't \<Rightarrow> 't res"
  assumes ok_none: "ok none"
    and look_none: "look none k = Inr None"
    and look_returns: "ok t \<Longrightarrow> \<exists>r. look t k = Inr r"
    and add_new: "ok t \<Longrightarrow> no_nul key \<Longrightarrow> look t key = Inr None \<Longrightarrow>
      \<exists>u. add key docId pos t = Inr u \<and> ok u \<and>
        (\<forall>k. no_nul k \<longrightarrow> look u k = (if k = key then Inr (Some (entry_elem (key, docId, pos))) else look t k))"
begin

lemma add_all_look:
  "ok t \<Longrightarrow> distinct (map fst xs) \<Longrightarrow> \<forall>x\<in>set xs. no_nul (fst x) \<and> look t (fst x) = Inr None \<Longrightarrow>
   \<exists>u. add_all add xs t = Inr u \<and> ok u \<and> (\<forall>k. no_nul k \<longrightarrow>
     look u k = (case map_of (map (\<lambda>x. (fst x, entry_elem x)) xs) k of Some e \<Rightarrow> Inr (Some e) | None \<Rightarrow> look t k))"
proof (induction xs arbitrary: t)
  case (Cons x xs)
  obtain key docId pos where x: "x = (key, docId, pos)" by (cases x)
  from Cons.prems x have fresh: "no_nul key" "look t key = Inr None" by auto
  from add_new [OF Cons.prems(1) this, of docId pos] obtain u where u: "add key docId pos t = Inr u" "ok u"
    "\<forall>k. no_nul k \<longrightarrow> look u k = (if k = key then Inr (Some (entry_elem x)) else look t k)"
    unfolding x by blast
  have "\<forall>y\<in>set xs. no_nul (fst y) \<and> look u (fst y) = Inr None"
  proof
    fix y assume y: "y \<in> set xs"
    then have "fst y \<noteq> key" using Cons.prems(2) x by force
    with y Cons.prems(3) u(3) show "no_nul (fst y) \<and> look u (fst y) = Inr None" by simp
  qed
  with Cons.IH [OF u(2)] Cons.prems(2) obtain v where v: "add_all add xs u = Inr v" "ok v"
    "\<forall>k. no_nul k \<longrightarrow> look v k = (case map_of (map (\<lambda>x. (fst x, entry_elem x)) xs) k of Some e \<Rightarrow> Inr (Some e) | None \<Rightarrow> look u k)"
    by auto
  have "map_of (map (\<lambda>x. (fst x, entry_elem x)) xs) key = None"
    using Cons.prems(2) x by (auto simp: map_of_eq_None_iff image_image)
  with u(3) v(3) x have "\<forall>k. no_nul k \<longrightarrow>
      look v k = (case map_of (map (\<lambda>x. (fst x, entry_elem x)) (x # xs)) k of Some e \<Rightarrow> Inr (Some e) | None \<Rightarrow> look t k)"
    by (auto split: option.split)
  with u(1) v(1,2) x show ?case by simp
qed simp

lemma built_index:
  assumes "distinct (map fst xs)" "\<forall>x\<in>set xs. no_nul (fst x)"
  shows "\<exists>u. add_all add xs none = Inr u \<and> ok u \<and>
    (\<forall>k. no_nul k \<longrightarrow> look u k = Inr (map_of (map (\<lambda>x. (fst x, entry_elem x)) xs) k))"
proof -
  from add_all_look [OF ok_none assms(1), unfolded look_none] assms(2) obtain u where "add_all add xs none = Inr u" "ok u"
    "\<forall>k. no_nul k \<longrightarrow> look u k = (case map_of (map (\<lambda>x. (fst x, entry_elem x)) xs) k of Some e \<Rightarrow> Inr (Some e) | None \<Rightarrow> Inr None)"
    by auto
  then show ?thesis by (intro exI [of _ u]) (auto split: option.splits)
qed

end

section \<open>The B+ tree provides it\<close>

definition tree_ok :: "bptree \<Rightarrow> bool" where
  "tree_ok t \<longleftrightarrow> (\<exists>I L. tree_holds t I L)"

lemma holdsD:
  assumes "tree_holds t I L"
  shows "inj_on el_key I" "inj_on el_key L" "el_key ` I \<subseteq> el_key ` L"
  using assms by (auto simp: tree_holds_def)

lemma find_element:
  assumes "tree_holds t I L" "el_key e = dk key" "e \<in> I \<or> e \<in> L \<and> dk key \<notin> el_key ` I"
  shows "index_find t key = Inr (Some e)"
proof -
  from index_find_holds [OF assms(1), of key] obtain r where r: "index_find t key = Inr r"
    "case r of Some e \<Rightarrow> el_key e = dk key \<and> (e \<in> I \<or> e \<in> L \<and> dk key \<notin> el_key ` I) | None \<Rightarrow> dk key \<notin> el_key ` L" by blast
  have "dk key \<in> el_key ` L" using assms(2,3) holdsD(3) [OF assms(1)] by (metis imageI subset_iff)
  with r(2) obtain x where x: "r = Some x" "el_key x = dk key" "x \<in> I \<or> x \<in> L \<and> dk key \<notin> el_key ` I"
    by (cases r) simp_all
  have "x = e"
  proof (cases "dk key \<in> el_key ` I")
    case True
    with x(3) assms(3) have "x \<in> I" "e \<in> I" by blast+
    then show ?thesis using holdsD(1) [OF assms(1)] x(2) assms(2) by (simp add: inj_on_def)
  next
    case False
    have "y \<notin> I" if "el_key y = dk key" for y using False that by (metis imageI)
    with x assms(2,3) have "x \<in> L" "e \<in> L" by blast+
    then show ?thesis using holdsD(2) [OF assms(1)] x(2) assms(2) by (simp add: inj_on_def)
  qed
  with r(1) x(1) show ?thesis by simp
qed

lemma find_missing:
  assumes "tree_holds t I L"
  shows "index_find t key = Inr None \<longleftrightarrow> dk key \<notin> el_key ` L"
proof -
  from index_find_holds [OF assms, of key] obtain r where r: "index_find t key = Inr r"
    "case r of Some e \<Rightarrow> el_key e = dk key \<and> (e \<in> I \<or> e \<in> L \<and> dk key \<notin> el_key ` I) | None \<Rightarrow> dk key \<notin> el_key ` L" by blast
  show ?thesis
  proof (cases r)
    case (Some x)
    with r(2) have "el_key x = dk key" "x \<in> I \<or> x \<in> L" by auto
    then have "dk key \<in> el_key ` L" using holdsD(3) [OF assms] by (metis imageI subsetD)
    with r(1) Some show ?thesis by simp
  qed (use r in simp)
qed

lemma find_found:
  assumes "tree_holds t I L" "index_find t key = Inr (Some e)"
  shows "el_key e = dk key" "e \<in> I \<or> e \<in> L \<and> dk key \<notin> el_key ` I"
  using index_find_holds [OF assms(1), of key] assms(2) by auto

lemma index_add_new:
  assumes "tree_ok t" "no_nul key" "index_find t key = Inr None"
  shows "\<exists>u. index_add key docId pos t = Inr u \<and> tree_ok u \<and>
    (\<forall>k. no_nul k \<longrightarrow> index_find u k = (if k = key then Inr (Some (entry_elem (key, docId, pos))) else index_find t k))"
proof -
  obtain I L where t: "tree_holds t I L" using assms(1) by (auto simp: tree_ok_def)
  let ?e = "entry_elem (key, docId, pos)"
  have fresh: "dk key \<notin> el_key ` L" using find_missing [OF t] assms(3) by simp
  from index_add_holds [OF t this, of docId pos] obtain u J where u: "index_add key docId pos t = Inr u"
    "tree_holds u J (insert ?e L)" and J: "J = I \<or> (\<exists>k\<in>insert ?e L. J = insert k I \<and> el_key k \<notin> el_key ` I)"
    by (auto simp: entry_elem_def)
  note inj = holdsD(2) [OF u(2)]
  have e: "el_key ?e = dk key" by (simp add: entry_elem_def)
  have sub: "x \<in> J" if "x \<in> I" for x using J that by auto
  have own: "x \<in> J" if x: "x \<in> insert ?e L" "el_key x \<in> el_key ` J" "el_key x \<notin> el_key ` I" for x
  proof -
    have "J \<noteq> I" using x(2,3) by blast
    then obtain k where k: "k \<in> insert ?e L" "J = insert k I" using J by blast
    from x(2,3) have "el_key x = el_key k" unfolding k(2) image_insert by blast
    with inj x(1) k(1) have "x = k" by (meson inj_onD)
    with k(2) show ?thesis by simp
  qed
  have "index_find u k = (if k = key then Inr (Some ?e) else index_find t k)" if k: "no_nul k" for k
  proof (cases "k = key")
    case True
    have "dk key \<notin> el_key ` I" using fresh holdsD(3) [OF t] by blast
    with own [of ?e] have "?e \<in> J \<or> ?e \<in> insert ?e L \<and> dk key \<notin> el_key ` J" unfolding e by blast
    from find_element [OF u(2) e this] True show ?thesis by simp
  next
    case False
    then have ne: "dk k \<noteq> dk key" using dk_inj k assms(2) by blast
    show ?thesis
    proof (cases "dk k \<in> el_key ` L")
      case True
      then obtain x where x: "index_find t k = Inr (Some x)"
        using index_find_holds [OF t, of k] by (auto split: option.splits)
      note found = find_found [OF t x]
      have "x \<in> J \<or> x \<in> insert ?e L \<and> dk k \<notin> el_key ` J"
        using found(2) own [of x] sub [of x] unfolding found(1) by blast
      from find_element [OF u(2) found(1) this] x False show ?thesis by simp
    next
      case missing: False
      then have "dk k \<notin> el_key ` insert ?e L" using ne e by simp
      then show ?thesis using find_missing [OF u(2), of k] find_missing [OF t, of k] missing False by simp
    qed
  qed
  with u show ?thesis by (auto simp: tree_ok_def)
qed

interpretation bplus: position_index tree_ok new_tree index_find index_add
proof
  show "tree_ok new_tree" using new_tree_holds by (auto simp: tree_ok_def)
  show "index_find new_tree k = Inr None" for k using find_missing [OF new_tree_holds] by simp
  show "tree_ok t \<Longrightarrow> \<exists>r. index_find t k = Inr r" for t k
    using index_find_holds by (fastforce simp: tree_ok_def)
qed (rule index_add_new)

section \<open>Updates of positions\<close>

text \<open>update changes the element of the leaf; a search stops at a copy on an inner page.\<close>

definition moved :: "dkey \<Rightarrow> nat \<Rightarrow> index_elem \<Rightarrow> index_elem" where
  "moved k pos e = (if el_key e = k then e\<lparr>ie_posData := pos\<rparr> else e)"

lemma moved_key [simp]: "el_key (moved k pos e) = el_key e"
  by (simp add: moved_def)

definition promoted :: "string \<Rightarrow> bptree \<Rightarrow> bool" where
  "promoted key t \<longleftrightarrow> list_ex (\<lambda>page. \<not> isLeaf page \<and>
     list_ex (\<lambda>slot. case slot of None \<Rightarrow> False | Some e \<Rightarrow> dj_compare (ie_id e) key = 0) (pg_elements page)) (bt_pages t)"

lemma promoted_holds: "tree_holds t I L \<Longrightarrow> promoted key t \<longleftrightarrow> dk key \<in> el_key ` I"
proof -
  assume "tree_holds t I L"
  then obtain G where G: "conc t G clean" "good G (pages t) (bt_head t)" "inner_es G (pages t) = I"
    by (auto simp: tree_holds_def)
  have slots: "list_ex (\<lambda>slot. case slot of None \<Rightarrow> False | Some e \<Rightarrow> dj_compare (ie_id e) key = 0) (pg_elements (mk N)) \<longleftrightarrow>
      dk key \<in> el_key ` set (n_es N)" for N
    unfolding list_ex_iff mk_sel pad_def set_append bex_Un set_map bex_simps
    by (auto simp: dj_compare_eq image_iff eq_commute [of "dk key"] split: if_splits)
  have "promoted key t \<longleftrightarrow> (\<exists>i<pages t. \<not> isLeaf (bt_pages t ! i) \<and>
      list_ex (\<lambda>slot. case slot of None \<Rightarrow> False | Some e \<Rightarrow> dj_compare (ie_id e) key = 0) (pg_elements (bt_pages t ! i)))"
    unfolding promoted_def list_ex_length ..
  also have "\<dots> \<longleftrightarrow> (\<exists>i<pages t. 0 < n_level (G i) \<and> dk key \<in> el_key ` set (n_es (G i)))"
    by (intro ex_cong1 conj_cong refl, simp_all only: conc_clean [OF G(1)])
      (use slots isLeaf_mk [OF goodD(6) [OF G(2)]] in auto)
  also have "\<dots> \<longleftrightarrow> (\<exists>e\<in>I. dk key = el_key e)" unfolding G(3) [symmetric] Bex_def in_inner image_iff by blast
  also have "\<dots> \<longleftrightarrow> dk key \<in> el_key ` I" by (simp only: image_iff)
  finally show ?thesis .
qed

lemma index_update_holds:
  assumes "tree_holds t I L"
  shows "\<exists>u. index_update key pos t = Inr (dk key \<in> el_key ` L, u) \<and> tree_holds u I (moved (dk key) pos ` L)"
proof -
  obtain G where G: "conc t G clean" "good G (pages t) (bt_head t)" "inner_es G (pages t) = I" "leaf_es G (pages t) = L"
    and inj: "inj_on el_key I" "inj_on el_key L" and sub: "el_key ` I \<subseteq> el_key ` L"
    using assms by (auto simp: tree_holds_def)
  note head = goodD(1) [OF G(2)]
  from findIndexPage_spec [OF G(2,1) refl head root_within [OF G(2)] goodD(4) [OF G(2)]] obtain p where
    p: "findIndexPage (pages t) t (bt_head t) key = Inr p" "p < pages t" "n_level (G p) = 0" "within (dk key) (n_iv (G p))" by blast
  have "n_level (G p) < pages t" using p(2,3) by linarith
  from findIndex_spec [OF G(2,1) refl p(2,4) this] obtain found where
    f: "findIndex (pages t) t p key = Inr found" "found_at G (pages t) 0 (dk key) found" unfolding p(3) by blast
  show ?thesis
  proof (cases found)
    case None
    then have none: "dk key \<notin> el_key ` L" using f(2) unfolding found_at_def G(4) [symmetric] by (force simp: in_leaf)
    have "moved (dk key) pos e = e" if e: "e \<in> L" for e
    proof -
      have "el_key e \<noteq> dk key" using none imageI [OF e, of el_key] by metis
      then show ?thesis by (simp add: moved_def)
    qed
    then have "moved (dk key) pos ` L = L" by simp
    with none None p(1) f(1) assms show ?thesis by (simp add: index_update_def bt_fuel_def)
  next
    case (Some a)
    obtain q x where a: "a = (q, x)" by (cases a)
    have q: "q < pages t" "x < length (n_es (G q))" "el_key (n_es (G q) ! x) = dk key" "n_level (G q) = 0"
      using f(2) unfolding Some a found_at_def by auto
    let ?N = "G q\<lparr>n_es := (n_es (G q))[x := (n_es (G q) ! x)\<lparr>ie_posData := pos\<rparr>]\<rparr>"
    let ?G = "G(q := ?N)"
    note B = goodD(6) [OF G(2) q(1)]
    have len: "length (n_es (G q)) \<le> 5" using body_short [OF B] .
    have pg: "bt_pages t ! q = mk (G q)" using conc_clean [OF G(1) q(1)] .
    define u where "u = set_page q (mk ?N) t"
    have "(mk (G q))\<lparr>pg_elements := (pad 5 (n_es (G q)))[x := Some ((n_es (G q) ! x)\<lparr>ie_posData := pos\<rparr>)]\<rparr> = mk ?N"
      using q(2) len by (simp add: mk_def pad_def list_update_append map_update)
    moreover have "bt_element t (q, x) = Some (n_es (G q) ! x)" using q(2) len by (simp add: bt_element_def pg pad_nth)
    ultimately have step: "index_update key pos t = Inr (True, u)"
      using p(1) f(1) Some a by (simp add: index_update_def bt_fuel_def pg u_def)
    have conc: "conc u ?G clean" unfolding u_def using conc_set_clean [OF G(1) q(1) refl refl] .
    have pages: "pages u = pages t" "bt_head u = bt_head t" by (simp_all add: u_def)
    have keys: "n_keys (?G i) = n_keys (G i)" for i
      using q(2) by (cases "i = q") (simp_all add: map_update list_update_same_conv)
    have same: "n_iv (?G i) = n_iv (G i)" "n_level (?G i) = n_level (G i)" "n_cs (?G i) = n_cs (G i)" "n_par (?G i) = n_par (G i)"
      "length (n_es (?G i)) = length (n_es (G i))" for i
      by simp_all
    have lohi: "n_lo (?G i) = n_lo (G i)" "n_hi (?G i) = n_hi (G i)" for i by simp_all
    have "node_ok ?G (pages t) i \<longleftrightarrow> node_ok G (pages t) i" "link_ok ?G (pages t) (bt_head t) i \<longleftrightarrow> link_ok G (pages t) (bt_head t) i" for i
      unfolding node_ok_def shape_ok_def link_ok_def Let_def keys same lohi by (rule refl)+
    then have good: "good ?G (pages t) (bt_head t)" using G(2) unfolding good_def same lohi by blast
    have inner: "inner_es ?G (pages t) = I"
      unfolding G(3) [symmetric] inner_es_def by (rule SUP_cong) (use q(4) in auto)
    have els: "set (n_es (?G i)) = moved (dk key) pos ` set (n_es (G i))" if i: "i < pages t" "n_level (G i) = 0" for i
    proof -
      have other: "moved (dk key) pos e = e" if e: "e \<in> set (n_es (G i))" "e \<noteq> n_es (G q) ! x" for e
      proof -
        have "e \<in> L" using e(1) i unfolding G(4) [symmetric] in_leaf by blast
        moreover have "n_es (G q) ! x \<in> L" using q(1,2,4) unfolding G(4) [symmetric] in_leaf by (blast intro: nth_mem)
        ultimately have "el_key e \<noteq> dk key" using inj(2) e(2) q(3) by (metis inj_onD)
        then show ?thesis by (simp add: moved_def)
      qed
      show ?thesis
      proof (cases "i = q")
        case True
        have "n_es (?G q) = map (moved (dk key) pos) (n_es (G q))"
        proof (rule nth_equalityI)
          fix j assume "j < length (n_es (?G q))"
          then have j: "j < length (n_es (G q))" by simp
          show "n_es (?G q) ! j = map (moved (dk key) pos) (n_es (G q)) ! j"
          proof (cases "j = x")
            case True
            then show ?thesis using j q(3) by (simp add: moved_def)
          next
            case False
            have "distinct (n_keys (G q))" using body_desc [OF B] by (simp add: desc_def sorted_wrt_iff_nth_less distinct_conv_nth) (metis less_irrefl linorder_neqE_nat)
            then have "n_es (G q) ! j \<noteq> n_es (G q) ! x" using False j q(2) by (metis distinct_conv_nth length_map nth_map)
            then show ?thesis using False j other [of "n_es (G q) ! j"] True by simp
          qed
        qed simp
        with True show ?thesis by simp
      next
        case False
        have "moved (dk key) pos e = e" if "e \<in> set (n_es (G i))" for e
        proof (cases "e = n_es (G q) ! x")
          case True
          with that q(3) have "dk key \<in> set (n_keys (G i))" "dk key \<in> set (n_keys (G q))" using q(2) by (auto simp: image_iff) (metis nth_mem)+
          then have "within (dk key) (n_iv (G i))" "within (dk key) (n_iv (G q))"
            using body_within [OF goodD(6) [OF G(2) i(1)]] body_within [OF B] by blast+
          then have "i = q" using page_unique [OF G(2) i(1) q(1)] i(2) q(4) by simp
          with False show ?thesis by simp
        qed (rule other [OF that])
        with False show ?thesis by simp
      qed
    qed
    have "leaf_es ?G (pages t) = moved (dk key) pos ` leaf_es G (pages t)"
      unfolding leaf_es_def image_UN same by (rule SUP_cong) (use els in auto)
    then have leaf: "leaf_es ?G (pages t) = moved (dk key) pos ` L" unfolding G(4) .
    have "inj_on el_key (moved (dk key) pos ` L)" using inj(2) by (auto simp: inj_on_def)
    moreover have "el_key ` (moved (dk key) pos ` L) = el_key ` L" by (simp add: image_image)
    ultimately have "tree_holds u I (moved (dk key) pos ` L)"
      unfolding tree_holds_def pages using conc good inner leaf inj(1) sub by (intro exI [of _ ?G]) simp
    moreover have "dk key \<in> el_key ` L"
    proof -
      have "n_es (G q) ! x \<in> L" using q(1,2,4) unfolding G(4) [symmetric] in_leaf by (blast intro: nth_mem)
      then show ?thesis using q(3) by (metis imageI)
    qed
    ultimately show ?thesis using step by auto
  qed
qed

lemma index_update_find:
  assumes "tree_ok t"
  shows "\<exists>u. index_update key pos t = Inr (index_find t key \<noteq> Inr None, u) \<and> tree_ok u \<and>
    (\<forall>k. promoted k u = promoted k t) \<and>
    (\<forall>k. index_find u k = (if dk k = dk key \<and> \<not> promoted key t
       then bindR (index_find t k) (\<lambda>r. Inr (map_option (\<lambda>e. e\<lparr>ie_posData := pos\<rparr>) r)) else index_find t k))"
proof -
  obtain I L where t: "tree_holds t I L" using assms by (auto simp: tree_ok_def)
  from index_update_holds [OF t, of key pos] obtain u where u: "index_update key pos t = Inr (dk key \<in> el_key ` L, u)"
    "tree_holds u I (moved (dk key) pos ` L)" by blast
  have keys: "el_key ` moved (dk key) pos ` L = el_key ` L" by (simp add: image_image)
  have "index_find u k = (if dk k = dk key \<and> \<not> promoted key t
      then bindR (index_find t k) (\<lambda>r. Inr (map_option (\<lambda>e. e\<lparr>ie_posData := pos\<rparr>) r)) else index_find t k)" for k
  proof (cases "index_find t k = Inr None")
    case True
    then have "index_find u k = Inr None" using find_missing [OF t] find_missing [OF u(2)] unfolding keys by simp
    with True show ?thesis by simp
  next
    case False
    then obtain e where e: "index_find t k = Inr (Some e)"
      using index_find_holds [OF t, of k] by (auto split: option.splits)
    note found = find_found [OF t e]
    show ?thesis
    proof (cases "dk k = dk key \<and> \<not> promoted key t")
      case True
      then have no: "dk k \<notin> el_key ` I" using promoted_holds [OF t] by simp
      then have "e \<notin> I" using found(1) by (metis imageI)
      with found(2) have "e \<in> L" by blast
      moreover have "moved (dk key) pos e = e\<lparr>ie_posData := pos\<rparr>" using found(1) True by (simp add: moved_def)
      ultimately have "e\<lparr>ie_posData := pos\<rparr> \<in> moved (dk key) pos ` L" by (metis imageI)
      with no find_element [OF u(2), of "e\<lparr>ie_posData := pos\<rparr>" k] found(1) e True show ?thesis by simp
    next
      case keep: False
      have "e \<in> I \<or> e \<in> moved (dk key) pos ` L \<and> dk k \<notin> el_key ` I"
      proof (cases "e \<in> I")
        case notI: False
        with found(2) have e2: "e \<in> L" "dk k \<notin> el_key ` I" by blast+
        then have "dk k \<noteq> dk key" using keep promoted_holds [OF t] by auto
        then have "moved (dk key) pos e = e" using found(1) by (simp add: moved_def)
        with e2 show ?thesis by (metis imageI)
      qed simp
      from find_element [OF u(2) found(1) this] e keep show ?thesis by auto
    qed
  qed
  moreover have "dk key \<in> el_key ` L \<longleftrightarrow> index_find t key \<noteq> Inr None" using find_missing [OF t] by simp
  moreover have "promoted k u = promoted k t" for k using promoted_holds [OF t] promoted_holds [OF u(2)] by simp
  ultimately show ?thesis using u by (auto simp: tree_ok_def)
qed

text \<open>The trees that additions of new keys and updates build.\<close>

inductive index_reach :: "bptree \<Rightarrow> bool" where
  reach_new: "index_reach new_tree"
| reach_add: "index_reach t \<Longrightarrow> no_nul key \<Longrightarrow> index_find t key = Inr None \<Longrightarrow> index_add key docId pos t = Inr u \<Longrightarrow>
    index_reach u"
| reach_update: "index_reach t \<Longrightarrow> index_update key pos t = Inr (b, u) \<Longrightarrow> index_reach u"

lemma index_reach_ok: "index_reach t \<Longrightarrow> tree_ok t"
proof (induction rule: index_reach.induct)
  case (reach_add t key docId pos u)
  with index_add_new [of t key docId pos] show ?case by auto
next
  case (reach_update t key pos b u)
  with index_update_find [of t key pos] show ?case by auto
qed (rule bplus.ok_none)

lemma index_reach_built:
  "index_reach t \<Longrightarrow> distinct (map fst xs) \<Longrightarrow> \<forall>x\<in>set xs. no_nul (fst x) \<and> index_find t (fst x) = Inr None \<Longrightarrow>
   \<exists>u. add_all index_add xs t = Inr u \<and> index_reach u"
proof (induction xs arbitrary: t)
  case (Cons x xs)
  obtain key docId pos where x: "x = (key, docId, pos)" by (cases x)
  from Cons.prems x have fresh: "no_nul key" "index_find t key = Inr None" by auto
  from index_add_new [OF index_reach_ok [OF Cons.prems(1)] this, of docId pos] obtain u where
    u: "index_add key docId pos t = Inr u" "\<forall>k. no_nul k \<longrightarrow> k \<noteq> key \<longrightarrow> index_find u k = index_find t k" by auto
  have "\<forall>y\<in>set xs. fst y \<noteq> key" using Cons.prems(2) x by force
  with Cons.prems(3) u(2) have "\<forall>y\<in>set xs. no_nul (fst y) \<and> index_find u (fst y) = Inr None" by simp
  with Cons.IH [OF reach_add [OF Cons.prems(1) fresh u(1)]] Cons.prems(2) u(1) x show ?case by auto
qed simp

end
