(* ===== verification/Index_Factory.thy ===== *)
theory Index_Factory
  imports Index_Map
begin

text \<open>
  IndexFactory (db/indexfactory.cpp): the indexes of the process by database, namespace and set of
  keys, and IndexPage::find (db/bplusindexp.cpp), which lists the elements whose key document matches.
  What the constructor of BPlusIndexP finds in its file is an argument of the definition that calls it.
\<close>

section \<open>The registry\<close>

text \<open>A set of keys is the list of its elements in order. An algorithm is its keys and its tree.\<close>

type_synonym algorithms = "(string list \<times> bptree) list"
type_synonym index_factory = "(string, string, string list \<times> bptree) nested"

text \<open>Two sets are walked together; two empty sets do not match.\<close>

fun keys_match :: "string list \<Rightarrow> string list \<Rightarrow> bool" where
  "keys_match (key1 # iKeys) (key2 # implKeys) =
     (if key1 \<noteq> key2 then False else if iKeys = [] \<and> implKeys = [] then True else keys_match iKeys implKeys)"
| "keys_match iKeys implKeys = False"

fun if_findIndex :: "algorithms \<Rightarrow> string list \<Rightarrow> nat option" where
  "if_findIndex [] keys = None"
| "if_findIndex ((implKeys, impl) # algs) keys =
     (if keys_match keys implKeys then Some 0 else map_option Suc (if_findIndex algs keys))"

definition if_containsIndex :: "string \<Rightarrow> string \<Rightarrow> string list \<Rightarrow> index_factory \<Rightarrow> bool" where
  "if_containsIndex db ns keys f =
     (case map_find f db of
        None \<Rightarrow> False
      | Some byns \<Rightarrow>
          (case map_find byns ns of None \<Rightarrow> False | Some algorithms \<Rightarrow> if_findIndex algorithms keys \<noteq> None))"

definition if_findAlgorithms :: "string \<Rightarrow> string \<Rightarrow> index_factory \<Rightarrow> algorithms \<times> index_factory" where
  "if_findAlgorithms db ns f =
     (let byns = nested_at f db;
          algorithms = (case map_find byns ns of None \<Rightarrow> [] | Some algorithms \<Rightarrow> algorithms) in
      (algorithms, map_put db (map_put ns algorithms byns) f))"

text \<open>The registry with other algorithms for one namespace, as they are changed through the pointer.\<close>

definition if_set :: "string \<Rightarrow> string \<Rightarrow> algorithms \<Rightarrow> index_factory \<Rightarrow> index_factory" where
  "if_set db ns algorithms f = nested_put db ns algorithms f"

definition index_file :: "string \<Rightarrow> string \<Rightarrow> string" where
  "index_file db ns = c_str db @ ''/'' @ c_str ns @ ''.ixp''"

text \<open>The result is the position of the index in the list of its namespace.\<close>

definition if_index ::
    "(string \<Rightarrow> bptree) \<Rightarrow> string \<Rightarrow> string \<Rightarrow> string list \<Rightarrow> index_factory \<Rightarrow> nat \<times> index_factory" where
  "if_index load db ns keys f =
     (let (algorithms, f) = if_findAlgorithms db ns f in
      case if_findIndex algorithms keys of
        Some i \<Rightarrow> (i, f)
      | None \<Rightarrow> (length algorithms, if_set db ns (algorithms @ [(keys, load (index_file db ns))]) f))"

text \<open>
  The loop of dropIndex does not end when one set is a prefix of the other (None); after an index was
  erased the iterator of the list is used again.
\<close>

datatype drop_step = Erase_index | Next_index | No_end

fun drop_loop :: "string list \<Rightarrow> string list \<Rightarrow> drop_step" where
  "drop_loop (key1 # iKeys) (key2 # implKeys) =
     (if key1 \<noteq> key2 then Next_index else if iKeys = [] \<and> implKeys = [] then Erase_index else drop_loop iKeys implKeys)"
| "drop_loop iKeys implKeys = No_end"

fun drop_algorithms :: "algorithms \<Rightarrow> string list \<Rightarrow> algorithms res option" where
  "drop_algorithms [] keys = Some (Inr [])"
| "drop_algorithms ((implKeys, impl) # algs) keys =
     (case drop_loop keys implKeys of
        No_end \<Rightarrow> None
      | Erase_index \<Rightarrow> Some (Inl Undefined_behaviour)
      | Next_index \<Rightarrow> map_option (\<lambda>r. bindR r (\<lambda>algs. Inr ((implKeys, impl) # algs))) (drop_algorithms algs keys))"

definition if_dropIndex :: "string \<Rightarrow> string \<Rightarrow> string list \<Rightarrow> index_factory \<Rightarrow> index_factory res option" where
  "if_dropIndex db ns keys f =
     (let (algorithms, f) = if_findAlgorithms db ns f in
      map_option (\<lambda>r. bindR r (\<lambda>algorithms. Inr (if_set db ns algorithms f))) (drop_algorithms algorithms keys))"

definition if_dropIndexes :: "string \<Rightarrow> string \<Rightarrow> index_factory \<Rightarrow> index_factory" where
  "if_dropIndexes db ns f =
     map_put db (map_erase ns (nested_at f db)) f"

section \<open>Listing an index\<close>

text \<open>
  The elements of a page that match, and before them what its children list; a child is listed before
  those that come earlier. The fuel counts levels.
\<close>

fun page_elements :: "(bson \<Rightarrow> bool res) \<Rightarrow> index_elem option list \<Rightarrow> index_elem list res" where
  "page_elements match [] = Inr []"
| "page_elements match (None # slots) = Inl Undefined_behaviour"
| "page_elements match (Some e # slots) =
     bindR (match [(''_id'', CString (ie_id e))]) (\<lambda>m.
     bindR (page_elements match slots) (\<lambda>es. Inr (if m then e # es else es)))"

fun page_children :: "(page_id \<Rightarrow> index_elem list res) \<Rightarrow> page_id option list \<Rightarrow> index_elem list \<Rightarrow> index_elem list res" where
  "page_children list [] result = Inr result"
| "page_children list (None # pointers) result = page_children list pointers result"
| "page_children list (Some inner # pointers) result =
     bindR (list inner) (\<lambda>found. page_children list pointers (found @ result))"

primrec page_find :: "nat \<Rightarrow> bptree \<Rightarrow> (bson \<Rightarrow> bool res) \<Rightarrow> page_id \<Rightarrow> index_elem list res" where
  "page_find 0 t match p = Inl No_fuel"
| "page_find (Suc n) t match p =
     bindR (page_at t p) (\<lambda>page.
     bindR (page_elements match (take (pg_size page) (pg_elements page))) (\<lambda>result.
     page_children (page_find n t match) (take (pg_size page + 1) (pg_pointers page)) result))"

definition index_list :: "bptree \<Rightarrow> (bson \<Rightarrow> bool res) \<Rightarrow> index_elem list res" where
  "index_list t match = page_find (bt_fuel t) t match (bt_head t)"

section \<open>What the registry keeps\<close>

lemma keys_match_eq: "keys_match ks is \<longleftrightarrow> ks = is \<and> ks \<noteq> []"
  by (induction ks "is" rule: keys_match.induct) auto

section \<open>What a listing gives\<close>

text \<open>The pages that are reached from a page in so many steps.\<close>

primrec pages_under :: "nat \<Rightarrow> (page_id \<Rightarrow> node) \<Rightarrow> page_id \<Rightarrow> page_id set" where
  "pages_under 0 G p = {p}"
| "pages_under (Suc k) G p = insert p (\<Union>c\<in>set (n_cs (G p)). pages_under k G c)"

lemma under_more: "pages_under k G p \<subseteq> pages_under (Suc k) G p"
proof (induction k arbitrary: p)
  case (Suc k)
  have "pages_under (Suc k) G p = insert p (\<Union>c\<in>set (n_cs (G p)). pages_under k G c)"
    "pages_under (Suc (Suc k)) G p = insert p (\<Union>c\<in>set (n_cs (G p)). pages_under (Suc k) G c)" by simp_all
  with Suc show ?case by blast
qed simp

lemma under_le: "k \<le> k' \<Longrightarrow> pages_under k G p \<subseteq> pages_under k' G p"
  by (rule lift_Suc_mono_le [of "\<lambda>k. pages_under k G p"]) (rule under_more)

lemma under_child: "q \<in> pages_under k G p \<Longrightarrow> c \<in> set (n_cs (G q)) \<Longrightarrow> c \<in> pages_under (Suc k) G p"
proof (induction k arbitrary: p)
  case (Suc k)
  then show ?case by (subst pages_under.simps(2)) auto
qed auto

lemma all_under:
  assumes good: "good G n head"
  shows "i < n \<Longrightarrow> i \<in> pages_under (n_level (G head) - n_level (G i)) G head"
proof (induction "n_level (G head) - n_level (G i)" arbitrary: i)
  case 0
  then have "n_level (G i) = n_level (G head)" using goodD(5) [OF good, of i] by simp
  with top_level [OF good 0(2)] show ?case by simp
next
  case (Suc m)
  then have "i \<noteq> head" by auto
  from parent_of [OF good Suc.prems this] obtain q where q: "q < n" "i \<in> set (n_cs (G q))" by blast
  have m: "m = n_level (G head) - n_level (G q)" using child_level(1) [OF good q] Suc.hyps(2) by simp
  have "q \<in> pages_under m G head" using Suc.hyps(1) [OF m q(1)] m by simp
  from under_child [OF this q(2)] Suc.hyps(2) show ?case by simp
qed

lemma under_pages:
  assumes good: "good G n head"
  shows "p < n \<Longrightarrow> q \<in> pages_under k G p \<Longrightarrow> q < n"
proof (induction k arbitrary: p)
  case (Suc k)
  with child_level(3) [OF good Suc.prems(1)] show ?case by auto
qed simp

lemma page_elements_some:
  "\<forall>e\<in>set es. match [(''_id'', CString (ie_id e))] = Inr (Q e) \<Longrightarrow> page_elements match (map Some es) = Inr (filter Q es)"
  by (induction es) auto

lemma page_children_some:
  "\<forall>c\<in>set cs. \<exists>es. list c = Inr es \<and> set es = F c \<Longrightarrow>
   \<exists>es. page_children list (map Some cs) result = Inr es \<and> set es = set result \<union> (\<Union>c\<in>set cs. F c)"
proof (induction cs arbitrary: result)
  case (Cons c cs)
  then obtain es where es: "list c = Inr es" "set es = F c" by auto
  from Cons.IH [of "es @ result"] Cons.prems obtain rs where
    "page_children list (map Some cs) (es @ result) = Inr rs" "set rs = set (es @ result) \<union> (\<Union>c\<in>set cs. F c)" by auto
  with es show ?case by auto
qed simp

lemma page_children_none: "page_children list (replicate m None) result = Inr result"
  by (induction m) auto

lemma page_find_spec:
  assumes good: "good G n head" and conc: "conc t G clean" and n: "n = length (bt_pages t)"
    and match: "\<forall>i<n. \<forall>e\<in>set (n_es (G i)). match [(''_id'', CString (ie_id e))] = Inr (Q e)"
  shows "p < n \<Longrightarrow> n_level (G p) \<le> k \<Longrightarrow>
    \<exists>es. page_find (Suc k) t match p = Inr es \<and> set es = {e. Q e \<and> (\<exists>q\<in>pages_under k G p. e \<in> set (n_es (G q)))}"
proof (induction k arbitrary: p)
  case 0
  note B = goodD(6) [OF good 0(1)]
  have at: "page_at t p = Inr (mk (G p))" using conc_clean [OF conc] 0(1) n by (simp add: page_at_def)
  have "n_cs (G p) = []" using B 0(2) by (simp add: node_ok_def shape_ok_def Let_def)
  then show ?case using at page_elements_some [of "n_es (G p)" match Q] match 0(1) body_short [OF B]
    by (auto simp: pad_def page_children_none min_def)
next
  case (Suc k)
  note B = goodD(6) [OF good Suc.prems(1)]
  have at: "page_at t p = Inr (mk (G p))" using conc_clean [OF conc] Suc.prems(1) n by (simp add: page_at_def)
  have own: "page_elements match (take (length (n_es (G p))) (pad 5 (n_es (G p)))) = Inr (filter Q (n_es (G p)))"
    using page_elements_some [of "n_es (G p)" match Q] match Suc.prems(1) body_short [OF B] by (simp add: pad_def)
  show ?case
  proof (cases "n_level (G p) = 0")
    case True
    then have "n_cs (G p) = []" using B by (simp add: node_ok_def shape_ok_def Let_def)
    with at own body_short [OF B] show ?thesis by (auto simp: pad_def page_children_none min_def)
  next
    case False
    have "\<exists>es. page_find (Suc k) t match c = Inr es \<and> set es = {e. Q e \<and> (\<exists>q\<in>pages_under k G c. e \<in> set (n_es (G q)))}"
      if "c \<in> set (n_cs (G p))" for c
      using Suc.IH [of c] child_level(1,3) [OF good Suc.prems(1) that] Suc.prems(2) by simp
    then have kids: "\<forall>c\<in>set (n_cs (G p)). \<exists>es. page_find (Suc k) t match c = Inr es \<and>
        set es = {e. Q e \<and> (\<exists>q\<in>pages_under k G c. e \<in> set (n_es (G q)))}" by blast
    have "take (length (n_es (G p)) + 1) (pad 6 (n_cs (G p))) = map Some (n_cs (G p))"
      using length_kids [OF B] False by (simp add: pad_def)
    with page_children_some [OF kids, of "filter Q (n_es (G p))"] at own show ?thesis
      by (subst page_find.simps(2)) (auto simp del: page_find.simps)
  qed
qed

text \<open>
  A listing of an index has the matching elements of its leaves and those of its inner pages, which are
  copies of elements of leaves as they were when they were promoted.
\<close>

lemma index_list_holds:
  assumes "tree_holds t I L" "\<forall>e\<in>I \<union> L. match [(''_id'', CString (ie_id e))] = Inr (Q e)"
  shows "\<exists>es. index_list t match = Inr es \<and> set es = {e \<in> I \<union> L. Q e}"
proof -
  obtain G where G: "conc t G clean" "good G (pages t) (bt_head t)" "inner_es G (pages t) = I" "leaf_es G (pages t) = L"
    using assms(1) by (auto simp: tree_holds_def)
  note head = goodD(1) [OF G(2)]
  have elems: "I \<union> L = {e. \<exists>i<pages t. e \<in> set (n_es (G i))}"
    unfolding G(3,4) [symmetric] inner_es_def leaf_es_def by auto
  obtain k where k: "pages t = Suc k" using head by (cases "pages t") auto
  have level: "n_level (G (bt_head t)) \<le> k" using goodD(4) [OF G(2)] k by simp
  have "\<forall>i<pages t. \<forall>e\<in>set (n_es (G i)). match [(''_id'', CString (ie_id e))] = Inr (Q e)" using assms(2) elems by auto
  from page_find_spec [OF G(2,1) refl this head level] obtain es where
    es: "page_find (Suc k) t match (bt_head t) = Inr es"
    "set es = {e. Q e \<and> (\<exists>q\<in>pages_under k G (bt_head t). e \<in> set (n_es (G q)))}" by blast
  have "q < pages t" if "q \<in> pages_under k G (bt_head t)" for q by (rule under_pages [OF G(2) head that])
  moreover have "q \<in> pages_under k G (bt_head t)" if "q < pages t" for q
  proof -
    have "n_level (G (bt_head t)) - n_level (G q) \<le> k" using level by simp
    from subsetD [OF under_le [OF this] all_under [OF G(2) that]] show ?thesis .
  qed
  ultimately have "set es = {e \<in> I \<union> L. Q e}" unfolding es(2) elems by blast
  with es(1) k show ?thesis by (simp only: index_list_def bt_fuel_def) blast
qed

text \<open>In terms of searches: everything that a search can find is listed, and nothing else is.\<close>

lemma index_list_find:
  assumes "tree_ok t" "\<And>i. match [(''_id'', CString i)] = Inr (M i)"
  shows "\<exists>es. index_list t match = Inr es \<and>
    (\<forall>key e. index_find t key = Inr (Some e) \<longrightarrow> M (ie_id e) \<longrightarrow> e \<in> set es) \<and>
    (\<forall>e\<in>set es. M (ie_id e) \<and> (\<exists>e'. index_find t (ie_id e) = Inr (Some e') \<and> dk (ie_id e') = dk (ie_id e)))"
proof -
  obtain I L where t: "tree_holds t I L" using assms(1) by (auto simp: tree_ok_def)
  obtain es where es: "index_list t match = Inr es" "set es = {e \<in> I \<union> L. M (ie_id e)}"
    using index_list_holds [OF t, of match "\<lambda>e. M (ie_id e)"] assms(2) by auto
  have "e \<in> I \<union> L" if "index_find t key = Inr (Some e)" for key e
    using index_find_holds [OF t, of key] that by auto
  moreover have "\<exists>e'. index_find t (ie_id e) = Inr (Some e') \<and> dk (ie_id e') = dk (ie_id e)" if "e \<in> I \<union> L" for e
  proof -
    have "dk (ie_id e) \<in> el_key ` L" using that holdsD(3) [OF t] by auto
    with index_find_holds [OF t, of "ie_id e"] show ?thesis by (auto split: option.splits)
  qed
  ultimately show ?thesis using es by blast
qed

end
