(* ===== verification/Tx_Log.thy ===== *)
theory Tx_Log
  imports Memory_Stream
begin

text \<open>
  The write-ahead log (tx/transactiondefs.h, tx/txbuffer.cpp, tx/txbuffermanager.cpp): the bytes
  of an operation, the buffers that are mapped regions of log files, and the manager that keeps
  active buffers, buffers to reuse and a control file. Log files are an explicit store, so that
  buffers that map the same region share its bytes.
\<close>

section \<open>Operations and their bytes\<close>

datatype tx_action =
    TxDropNamespace
  | TxInsert bson
  | TxUpdate bson
  | TxRemove string string
  | TxOther int32

record tx_operation =
  op_db :: string
  op_ns :: string
  op_action :: tx_action

fun action_code :: "tx_action \<Rightarrow> int32" where
  "action_code TxDropNamespace = 1"
| "action_code (TxInsert _) = 2"
| "action_code (TxUpdate _) = 3"
| "action_code (TxRemove _ _) = 4"
| "action_code (TxOther c) = c"

fun action_bytes :: "tx_action \<Rightarrow> byte list" where
  "action_bytes (TxInsert bson) = writeBSON bson"
| "action_bytes (TxUpdate bson) = writeBSON bson"
| "action_bytes (TxRemove key rev_no) = write_string key @ write_string rev_no"
| "action_bytes _ = []"

definition TXOS_NORMAL :: byte where
  "TXOS_NORMAL = CHR 0x02"

text \<open>
  The two memory streams of writeOperationToRegister: the operation itself, and the record that
  puts its status, database, namespace and length in front so that readers can jump over it.
\<close>

definition operation_pieces :: "tx_operation \<Rightarrow> byte list list" where
  "operation_pieces oper =
     [write_int (action_code (op_action oper)), write_string (op_db oper), write_string (op_ns oper),
      action_bytes (op_action oper)]"

definition record_pieces :: "tx_operation \<Rightarrow> byte list \<Rightarrow> byte list list" where
  "record_pieces oper chrs =
     [[TXOS_NORMAL], write_chars (c_str (op_db oper)), write_chars (c_str (op_ns oper)),
      write_int (of_nat (length chrs)), write_chars chrs]"

definition encode_operation :: "tx_operation \<Rightarrow> byte list res" where
  "encode_operation oper =
     bindR (ms_writes (ms_new 1024) (operation_pieces oper)) (\<lambda>ms.
     bindR (ms_toChars ms) (\<lambda>chrs.
     bindR (ms_writes (ms_new 1024) (record_pieces oper chrs)) (\<lambda>buffer.
     ms_toChars buffer)))"

text \<open>strcmp of two C strings.\<close>

definition same_text :: "string \<Rightarrow> string \<Rightarrow> bool" where
  "same_text a b \<longleftrightarrow> c_str a = c_str b"

definition wanted :: "string option \<Rightarrow> string option \<Rightarrow> string \<Rightarrow> string \<Rightarrow> bool" where
  "wanted db ns rdb rns =
     (case db of None \<Rightarrow> True
      | Some d \<Rightarrow> same_text rdb d \<and> (case ns of None \<Rightarrow> True | Some n \<Rightarrow> same_text rns n))"

definition decode_operation :: "byte list \<Rightarrow> tx_operation res" where
  "decode_operation bytes =
     bindR (rbind read_int (\<lambda>code. rbind read_chars (\<lambda>db. rbind read_chars (\<lambda>ns.
       rbind (if code = 2 then rbind (readBSON ''*'') (\<lambda>b. rreturn (TxInsert b))
              else if code = 3 then rbind (readBSON ''*'') (\<lambda>b. rreturn (TxUpdate b))
              else if code = 1 then rreturn TxDropNamespace
              else if code = 4 then rbind read_chars (\<lambda>key. rbind read_chars (\<lambda>rev_no.
                rreturn (TxRemove (c_str key) (c_str rev_no))))
              else rreturn (TxOther code)) (\<lambda>act.
       rreturn \<lparr>op_db = c_str db, op_ns = c_str ns, op_action = act\<rparr>)))) bytes)
     (\<lambda>(oper, rest). Inr oper)"

text \<open>The test of the status against the bit TXOS_NORMAL.\<close>

definition status_normal :: "byte \<Rightarrow> bool" where
  "status_normal status \<longleftrightarrow> odd ((of_char status :: nat) div 2)"

text \<open>A record that is not wanted, or whose status is not normal, gives no operation.\<close>

definition decode_record :: "string option \<Rightarrow> string option \<Rightarrow> byte list \<Rightarrow> tx_operation option res" where
  "decode_record db ns bytes =
     bindR (rbind (read_raw 1) (\<lambda>status. rbind read_chars (\<lambda>rdb. rbind read_chars (\<lambda>rns.
       rbind read_int (\<lambda>len.
       if \<not> status_normal (hd status) then rreturn None
       else if \<not> wanted db ns rdb rns then rreturn None
       else rbind read_chars (\<lambda>cs.
         if sint len < 0 \<or> int (length cs) < sint len then rfail Undefined_behaviour
         else rlift (bindR (decode_operation (take (nat (sint len)) cs)) (\<lambda>oper. Inr (Some oper)))))))) bytes)
     (\<lambda>(r, rest). Inr r)"

section \<open>Facts about the bytes\<close>

definition operation_bytes :: "tx_operation \<Rightarrow> byte list" where
  "operation_bytes oper = concat (operation_pieces oper)"

definition record_bytes :: "tx_operation \<Rightarrow> byte list" where
  "record_bytes oper = concat (record_pieces oper (operation_bytes oper))"

fun action_ok :: "tx_action \<Rightarrow> bool" where
  "action_ok (TxInsert b) = bson_ok b"
| "action_ok (TxUpdate b) = bson_ok b"
| "action_ok (TxRemove key rev_no) = (no_nul key \<and> no_nul rev_no)"
| "action_ok TxDropNamespace = True"
| "action_ok (TxOther _) = False"

text \<open>An operation whose record fits the hundred chunks of 1024 bytes of a memory stream.\<close>

definition operation_ok :: "tx_operation \<Rightarrow> bool" where
  "operation_ok oper \<longleftrightarrow> no_nul (op_db oper) \<and> no_nul (op_ns oper) \<and> action_ok (op_action oper) \<and>
     length (record_bytes oper) < 102400"

declare length_write_chars [simp]

lemma length_write_string [simp]: "length (write_string s) = 4 + length (c_str s)"
  by (simp add: write_string_def)

lemma operation_shorter: "length (operation_bytes oper) < length (record_bytes oper)"
  by (simp add: record_bytes_def record_pieces_def)

lemma ms_flat:
  assumes "concat xss \<noteq> []" "length (concat xss) < 102400"
  shows "bindR (ms_writes (ms_new 1024) xss) ms_toChars = Inr (concat xss)"
proof -
  have "ms_length (ms_new 1024) + length (concat xss) < 100 * ms_chunk (ms_new 1024)"
    using assms(2) by (simp add: ms_new_def)
  with ms_writes_spec [of "ms_new 1024" xss] ms_new_inv [of 1024] ms_new_empty [of 1024]
  obtain t where t: "ms_writes (ms_new 1024) xss = Inr t" "ms_inv t" "ms_bytes t = concat xss"
    by auto
  have "0 < ms_length t" using arg_cong [OF t(3), of length] assms(1) by (cases "ms_length t") auto
  with t show ?thesis by (simp add: ms_toChars_spec)
qed

lemma encode_operation_ok:
  assumes "length (record_bytes oper) < 102400"
  shows "encode_operation oper = Inr (record_bytes oper)"
proof -
  have small: "length (operation_bytes oper) < 102400"
    using assms operation_shorter [of oper] by simp
  have "bindR (ms_writes (ms_new 1024) (operation_pieces oper)) ms_toChars = Inr (operation_bytes oper)"
    unfolding operation_bytes_def
    by (rule ms_flat) (use small in \<open>simp_all add: operation_bytes_def operation_pieces_def\<close>)
  then obtain ms where ms: "ms_writes (ms_new 1024) (operation_pieces oper) = Inr ms"
    "ms_toChars ms = Inr (operation_bytes oper)"
    by (auto simp: bindR_Inr_iff)
  have "bindR (ms_writes (ms_new 1024) (record_pieces oper (operation_bytes oper))) ms_toChars =
      Inr (record_bytes oper)"
    unfolding record_bytes_def
    by (rule ms_flat) (use assms in \<open>simp_all add: record_bytes_def record_pieces_def\<close>)
  with ms show ?thesis by (simp add: encode_operation_def)
qed

lemma int32_small: "n < 2 ^ 31 \<Longrightarrow> sint (of_nat n :: int32) = int n"
  by (simp add: signed_of_nat signed_take_bit_int_eq_self)

lemma decode_operation_bytes:
  assumes "operation_ok oper"
  shows "decode_operation (operation_bytes oper) = Inr oper"
proof -
  have len: "length (operation_bytes oper) < 102400"
    using assms operation_shorter [of oper] by (simp add: operation_ok_def)
  have texts: "read_chars (write_string s @ r) = Inr (s, r)" if "no_nul s" "int32_size (length s)" for s r
    using that by (simp add: write_string_def)
  have sizes: "int32_size (length (op_db oper))" "int32_size (length (op_ns oper))"
    using len assms by (auto simp: operation_bytes_def operation_pieces_def int32_size_def operation_ok_def)
  show ?thesis
  proof (cases "op_action oper")
    case (TxRemove key rev_no)
    have "int32_size (length key)" "int32_size (length rev_no)"
      using len assms TxRemove
      by (auto simp: operation_bytes_def operation_pieces_def int32_size_def operation_ok_def)
    with TxRemove assms sizes texts [of key] texts [of rev_no] texts [of "op_db oper"]
      texts [of "op_ns oper"] texts [of rev_no "[]"]
    show ?thesis
      by (simp add: decode_operation_def operation_bytes_def operation_pieces_def rbind_Inr rreturn_def
          operation_ok_def)
  qed (use assms sizes texts texts [of "op_ns oper" "[]"] in \<open>auto simp: decode_operation_def operation_bytes_def
      operation_pieces_def rbind_Inr rreturn_def operation_ok_def readBSON_star
      readBSON_star [of _ "[]", simplified]\<close>)
qed

lemma decode_record_bytes:
  assumes "operation_ok oper"
  shows "decode_record db ns (record_bytes oper) =
    Inr (if wanted db ns (op_db oper) (op_ns oper) then Some oper else None)"
proof -
  have small: "length (operation_bytes oper) < 102400" "length (record_bytes oper) < 102400"
    using assms operation_shorter [of oper] by (simp_all add: operation_ok_def)
  have sizes: "int32_size (length (op_db oper))" "int32_size (length (op_ns oper))"
    "int32_size (length (operation_bytes oper))"
    using small assms by (auto simp: record_bytes_def record_pieces_def int32_size_def operation_ok_def)
  have status: "read_raw 1 (TXOS_NORMAL # r) = Inr ([TXOS_NORMAL], r)" for r
    by (simp add: read_raw_def)
  have "status_normal TXOS_NORMAL" by (simp add: TXOS_NORMAL_def status_normal_def)
  moreover have "read_chars (write_chars (operation_bytes oper)) = Inr (operation_bytes oper, [])"
    using read_write_chars [OF sizes(3), of "[]"] by simp
  ultimately show ?thesis
    using assms sizes small status
    by (simp add: decode_record_def record_bytes_def record_pieces_def rbind_Inr rreturn_def rlift_def
        int32_small decode_operation_bytes operation_ok_def [of oper] del: One_nat_def)
qed

section \<open>Buffers\<close>

text \<open>
  A log file gives a byte at every offset; a region never written to is zero, as the mapping
  extends the file. A buffer is a window of such a file with the length of its valid part, its
  cursor (the field of TxBuffer), the cursor of the stream under it, and its place in the
  control file.
\<close>

type_synonym disk = "string \<Rightarrow> nat \<Rightarrow> byte"

record txbuffer =
  tb_file :: string
  tb_start :: nat
  tb_max :: nat
  tb_len :: nat
  tb_pos :: nat
  tb_spos :: nat
  tb_control :: nat
  tb_mainLog :: bool

definition disk_write :: "disk \<Rightarrow> string \<Rightarrow> nat \<Rightarrow> byte list \<Rightarrow> disk" where
  "disk_write d f off xs = d(f := \<lambda>i. if off \<le> i \<and> i < off + length xs then xs ! (i - off) else d f i)"

text \<open>
  A removed file reads as zeros. A mapping that is still open would keep its bytes; the theorems on
  removal show that no buffer in use maps the file.
\<close>

definition disk_remove :: "disk \<Rightarrow> string \<Rightarrow> disk" where
  "disk_remove d f = d(f := \<lambda>_. CHR 0x00)"

text \<open>The bytes a buffer sees from its start to the end of the mapping.\<close>

definition tb_view :: "disk \<Rightarrow> txbuffer \<Rightarrow> byte list" where
  "tb_view d b = map (d (tb_file b)) [tb_start b..<tb_start b + tb_max b]"

definition tb_seek :: "nat \<Rightarrow> txbuffer \<Rightarrow> txbuffer" where
  "tb_seek p b = b\<lparr>tb_pos := p, tb_spos := p\<rparr>"

definition tb_reset :: "txbuffer \<Rightarrow> txbuffer" where
  "tb_reset b = tb_seek 0 (b\<lparr>tb_len := 0\<rparr>)"

definition tb_eof :: "txbuffer \<Rightarrow> bool" where
  "tb_eof b \<longleftrightarrow> tb_len b \<le> tb_pos b"

definition tb_acquireLock :: "txbuffer \<Rightarrow> txbuffer" where
  "tb_acquireLock b = b\<lparr>tb_spos := tb_pos b\<rparr>"

text \<open>A write past the mapping is undefined.\<close>

definition tb_put :: "byte list \<Rightarrow> disk \<times> txbuffer \<Rightarrow> (disk \<times> txbuffer) res" where
  "tb_put xs = (\<lambda>(d, b).
     if tb_spos b + length xs > tb_max b then Inl Undefined_behaviour
     else Inr (disk_write d (tb_file b) (tb_start b + tb_spos b) xs,
               b\<lparr>tb_spos := tb_spos b + length xs\<rparr>))"

definition tb_writeLong :: "int64 \<Rightarrow> disk \<times> txbuffer \<Rightarrow> (disk \<times> txbuffer) res" where
  "tb_writeLong v db = bindR (tb_put (write_long v) db) (\<lambda>(d, b).
     Inr (d, b\<lparr>tb_len := tb_len b + 8, tb_pos := tb_len b + 8\<rparr>))"

definition tb_writeChars :: "string \<Rightarrow> disk \<times> txbuffer \<Rightarrow> (disk \<times> txbuffer) res" where
  "tb_writeChars txt db = bindR (tb_put (write_chars txt) db) (\<lambda>(d, b).
     Inr (d, b\<lparr>tb_len := tb_spos b, tb_pos := tb_spos b\<rparr>))"

definition tb_read :: "'a reader \<Rightarrow> disk \<Rightarrow> txbuffer \<Rightarrow> ('a \<times> txbuffer) res" where
  "tb_read rd d b = bindR (rd (drop (tb_spos b) (tb_view d b))) (\<lambda>(x, rest).
     let n = length (drop (tb_spos b) (tb_view d b)) - length rest in
     Inr (x, b\<lparr>tb_spos := tb_spos b + n, tb_pos := tb_pos b + n\<rparr>))"

definition tb_readLong :: "disk \<Rightarrow> txbuffer \<Rightarrow> (int64 \<times> txbuffer) res" where
  "tb_readLong d b = tb_read read_long d b"

definition tb_readChars :: "disk \<Rightarrow> txbuffer \<Rightarrow> (string \<times> txbuffer) res" where
  "tb_readChars d b = bindR (tb_read read_chars d b) (\<lambda>(x, b). Inr (x, b\<lparr>tb_pos := tb_spos b\<rparr>))"

text \<open>readOperationFromRegister: None at the end of the buffer, otherwise what the record gives.\<close>

definition readOperation ::
    "disk \<Rightarrow> string option \<Rightarrow> string option \<Rightarrow> txbuffer \<Rightarrow> (tx_operation option \<times> txbuffer) res" where
  "readOperation d db ns b =
     (if tb_eof b then Inr (None, b)
      else bindR (tb_readLong d (tb_acquireLock b)) (\<lambda>(size, b).
           bindR (tb_readChars d b) (\<lambda>(fullBuffer, b).
           if sint size < 0 \<or> int (length fullBuffer) < sint size then Inl Undefined_behaviour
           else bindR (decode_record db ns (take (nat (sint size)) fullBuffer)) (\<lambda>r. Inr (r, b)))))"

text \<open>The loop that reads a buffer to its end; the fuel bounds the number of records.\<close>

primrec read_buffer ::
    "nat \<Rightarrow> disk \<Rightarrow> string option \<Rightarrow> string option \<Rightarrow> txbuffer \<Rightarrow> (tx_operation list \<times> txbuffer) res" where
  "read_buffer 0 d db ns b = Inl No_fuel"
| "read_buffer (Suc n) d db ns b =
     (if tb_eof b then Inr ([], b)
      else bindR (readOperation d db ns b) (\<lambda>(r, b).
           bindR (read_buffer n d db ns b) (\<lambda>(rs, b).
           Inr ((case r of Some oper \<Rightarrow> [oper] | None \<Rightarrow> []) @ rs, b))))"

definition log_entry :: "tx_operation \<Rightarrow> byte list" where
  "log_entry oper = write_long (of_nat (length (record_bytes oper))) @ write_chars (record_bytes oper)"

definition log_bytes :: "tx_operation list \<Rightarrow> byte list" where
  "log_bytes ops = concat (map log_entry ops)"

text \<open>What the valid part of a buffer holds.\<close>

definition tb_holds :: "disk \<Rightarrow> txbuffer \<Rightarrow> tx_operation list \<Rightarrow> bool" where
  "tb_holds d b ops \<longleftrightarrow> (\<forall>oper\<in>set ops. operation_ok oper) \<and>
     tb_len b = length (log_bytes ops) \<and> tb_len b \<le> tb_max b \<and>
     take (tb_len b) (tb_view d b) = log_bytes ops"

lemma log_bytes_simps [simp]:
  "log_bytes [] = []" "log_bytes (oper # ops) = log_entry oper @ log_bytes ops"
  "log_bytes (ops @ ops') = log_bytes ops @ log_bytes ops'"
  by (simp_all add: log_bytes_def)

lemma length_log_entry [simp]: "length (log_entry oper) = 12 + length (record_bytes oper)"
  by (simp add: log_entry_def)

lemma length_tb_view [simp]: "length (tb_view d b) = tb_max b"
  by (simp add: tb_view_def)

lemma tb_view_cursor [simp]:
  "tb_view d (b\<lparr>tb_pos := p\<rparr>) = tb_view d b" "tb_view d (b\<lparr>tb_spos := p\<rparr>) = tb_view d b"
  "tb_view d (b\<lparr>tb_len := p\<rparr>) = tb_view d b" "tb_view d (b\<lparr>tb_control := p\<rparr>) = tb_view d b"
  by (simp_all add: tb_view_def)

lemma int64_small: "n < 2 ^ 31 \<Longrightarrow> sint (of_nat n :: int64) = int n"
  by (simp add: signed_of_nat signed_take_bit_int_eq_self)

lemma readOperation_entry:
  assumes "tb_pos b < tb_len b" "operation_ok oper"
    and rest: "drop (tb_pos b) (tb_view d b) = log_entry oper @ rest"
  shows "readOperation d db ns b = Inr (if wanted db ns (op_db oper) (op_ns oper) then Some oper else None,
    tb_seek (tb_pos b + length (log_entry oper)) b)"
proof -
  let ?n = "length (record_bytes oper)"
  have small: "?n < 102400" using assms(2) by (simp add: operation_ok_def)
  then have size: "sint (of_nat ?n :: int64) = int ?n" "int32_size ?n"
    by (simp_all add: int64_small int32_size_def)
  have tail: "drop 8 (log_entry oper @ rest) = write_chars (record_bytes oper) @ rest"
    by (simp add: log_entry_def)
  have long: "tb_readLong d (tb_acquireLock b) = Inr (of_nat ?n, b\<lparr>tb_pos := tb_pos b + 8, tb_spos := tb_pos b + 8\<rparr>)"
    using rest by (simp add: tb_readLong_def tb_read_def tb_acquireLock_def log_entry_def Let_def)
  have "drop (tb_pos b + 8) (tb_view d b) = write_chars (record_bytes oper) @ rest"
    using tail rest by (metis add.commute drop_drop)
  then have chars: "tb_readChars d (b\<lparr>tb_pos := tb_pos b + 8, tb_spos := tb_pos b + 8\<rparr>) =
      Inr (record_bytes oper, tb_seek (tb_pos b + length (log_entry oper)) b)"
    using size(2) by (simp add: tb_readChars_def tb_read_def tb_seek_def Let_def)
  show ?thesis
    using assms(1,2) long chars size(1)
    by (simp add: readOperation_def tb_eof_def decode_record_bytes)
qed

lemma read_buffer_from:
  "\<forall>oper\<in>set ops. operation_ok oper \<Longrightarrow> tb_pos b + length (log_bytes ops) = tb_len b \<Longrightarrow>
   take (length (log_bytes ops)) (drop (tb_pos b) (tb_view d b)) = log_bytes ops \<Longrightarrow>
   length ops < n \<Longrightarrow>
   \<exists>b2. read_buffer n d db ns b = Inr (filter (\<lambda>oper. wanted db ns (op_db oper) (op_ns oper)) ops, b2) \<and>
     (b2 = b \<or> b2 = tb_seek (tb_len b) b) \<and> tb_pos b2 = tb_len b"
proof (induction ops arbitrary: n b)
  case Nil
  then obtain n' where "n = Suc n'" by (cases n) auto
  with Nil show ?case by (simp add: tb_eof_def)
next
  case (Cons oper ops)
  obtain n' where n: "n = Suc n'" "length ops < n'" using Cons.prems(4) by (cases n) auto
  have ok: "operation_ok oper" using Cons.prems(1) by simp
  have pos: "tb_pos b < tb_len b" using Cons.prems(2) by simp
  let ?l = "length (log_entry oper)"
  have "take ?l (drop (tb_pos b) (tb_view d b)) = log_entry oper"
    using arg_cong [OF Cons.prems(3), of "take ?l"] by (simp add: min_def)
  then have "drop (tb_pos b) (tb_view d b) = log_entry oper @ drop ?l (drop (tb_pos b) (tb_view d b))"
    by (metis append_take_drop_id)
  note step = readOperation_entry [OF pos ok this, of db ns]
  let ?b = "tb_seek (tb_pos b + ?l) b"
  have "take (length (log_bytes ops)) (drop (tb_pos ?b) (tb_view d ?b)) = log_bytes ops"
    using arg_cong [OF Cons.prems(3), of "drop ?l"]
    by (simp add: tb_seek_def drop_take add.commute)
  with Cons.IH [of ?b n'] Cons.prems n obtain b2 where b2:
    "read_buffer n' d db ns ?b = Inr (filter (\<lambda>oper. wanted db ns (op_db oper) (op_ns oper)) ops, b2)"
    "b2 = ?b \<or> b2 = tb_seek (tb_len b) ?b" "tb_pos b2 = tb_len b"
    by (auto simp: tb_seek_def)
  have "b2 = tb_seek (tb_len b) b" using b2(2,3) by (auto simp: tb_seek_def)
  with b2(1,3) step pos n(1) show ?case by (simp add: tb_eof_def)
qed

text \<open>Reading from the start: the wanted operations, and the cursor ends behind the valid part.\<close>

definition read_all ::
    "disk \<Rightarrow> string option \<Rightarrow> string option \<Rightarrow> txbuffer \<Rightarrow> (tx_operation list \<times> txbuffer) res" where
  "read_all d db ns b = read_buffer (Suc (tb_len b)) d db ns (tb_seek 0 b)"

lemma length_log_bytes: "length ops \<le> length (log_bytes ops)"
  by (induction ops) simp_all

lemma read_all_holds:
  assumes "tb_holds d b ops"
  shows "read_all d db ns b =
    Inr (filter (\<lambda>oper. wanted db ns (op_db oper) (op_ns oper)) ops, tb_seek (tb_len b) b)"
proof -
  let ?b = "tb_seek 0 b"
  have "\<exists>b2. read_buffer (Suc (tb_len b)) d db ns ?b =
      Inr (filter (\<lambda>oper. wanted db ns (op_db oper) (op_ns oper)) ops, b2) \<and>
      (b2 = ?b \<or> b2 = tb_seek (tb_len ?b) ?b) \<and> tb_pos b2 = tb_len ?b"
    using assms length_log_bytes [of ops]
    by (intro read_buffer_from) (auto simp: tb_holds_def tb_seek_def)
  then show ?thesis by (auto simp: read_all_def tb_seek_def)
qed

text \<open>The loop ends: every record moves the cursor.\<close>

lemma no_fuel_left_decode [simp]: "\<not> no_fuel_left (decode_record db ns bytes)"
proof -
  have bson: "\<not> no_fuel_left (readBSON sel s)" for sel s
    using readBSON_returns by (auto simp: no_fuel_left_def)
  have "\<not> no_fuel_left (decode_operation xs)" for xs
    by (auto simp: decode_operation_def bson)
  then show ?thesis by (auto simp: decode_record_def)
qed

lemma readOperation_moves:
  assumes "readOperation d db ns b = Inr (r, b2)" "\<not> tb_eof b"
  shows "tb_pos b < tb_pos b2 \<and> tb_len b2 = tb_len b"
proof -
  have read: "tb_spos c2 = tb_spos c + (length (drop (tb_spos c) (tb_view d c)) - length rest) \<and> tb_len c2 = tb_len c"
    if "tb_read rd d c = Inr (x, c2)" "rd (drop (tb_spos c) (tb_view d c)) = Inr (x, rest)"
    for rd :: "'b reader" and x c c2 rest
    using that by (auto simp: tb_read_def Let_def)
  from assms obtain size c full e where steps:
    "tb_readLong d (tb_acquireLock b) = Inr (size, c)" "tb_readChars d c = Inr (full, e)" "b2 = e"
    by (auto simp: readOperation_def bindR_Inr_iff split: if_splits)
  have "tb_spos c = tb_pos b + 8" "tb_len c = tb_len b"
    using steps(1) by (auto simp: tb_readLong_def tb_read_def tb_acquireLock_def bindR_Inr_iff Let_def
        dest: read_long_Inr)
  moreover have "tb_spos c \<le> tb_pos e" "tb_len e = tb_len c"
    using steps(2) by (auto simp: tb_readChars_def tb_read_def bindR_Inr_iff Let_def)
  ultimately show ?thesis using steps(3) by simp
qed

lemma no_fuel_left_readOperation [simp]: "\<not> no_fuel_left (readOperation d db ns b)"
  by (auto simp: readOperation_def tb_readLong_def tb_readChars_def tb_read_def Let_def)

lemma read_buffer_returns: "tb_len b - tb_pos b < n \<Longrightarrow> \<not> no_fuel_left (read_buffer n d db ns b)"
proof (induction n arbitrary: b)
  case (Suc n)
  have "\<not> no_fuel_left (read_buffer n d db ns b2)"
    if "readOperation d db ns b = Inr (r, b2)" "\<not> tb_eof b" for r b2
    using readOperation_moves [OF that] Suc that(2) by (auto simp: tb_eof_def)
  then show ?case by auto
qed simp

lemma read_all_returns: "read_all d db ns b \<noteq> Inl No_fuel"
  using read_buffer_returns [of "tb_seek 0 b" "Suc (tb_len b)" d db ns]
  by (auto simp: read_all_def no_fuel_left_def tb_seek_def)

subsection \<open>Appending\<close>

definition tb_disjoint :: "txbuffer \<Rightarrow> txbuffer \<Rightarrow> bool" where
  "tb_disjoint b c \<longleftrightarrow> tb_file b \<noteq> tb_file c \<or> tb_start b + tb_max b \<le> tb_start c \<or>
     tb_start c + tb_max c \<le> tb_start b"

lemma disk_write_view_other:
  "tb_disjoint b c \<Longrightarrow> off + length xs \<le> tb_max b \<Longrightarrow>
   tb_view (disk_write d (tb_file b) (tb_start b + off) xs) c = tb_view d c"
  by (auto simp: tb_disjoint_def tb_view_def disk_write_def)

lemma disk_write_view:
  "off + length xs \<le> tb_max b \<Longrightarrow>
   tb_view (disk_write d (tb_file b) (tb_start b + off) xs) b =
     take off (tb_view d b) @ xs @ drop (off + length xs) (tb_view d b)"
  by (rule nth_equalityI) (auto simp: tb_view_def disk_write_def nth_append)

lemma disk_write_append:
  "disk_write (disk_write d f off xs) f (off + length xs) ys = disk_write d f off (xs @ ys)"
  by (auto simp: disk_write_def nth_append fun_eq_iff)

text \<open>The two writes of writeOperationToRegister, with the cursor of the stream behind the data.\<close>

lemma tb_append:
  assumes "tb_holds d b ops" "operation_ok oper" "tb_spos b = tb_len b"
    and "tb_len b + length (log_entry oper) \<le> tb_max b"
  shows "\<exists>d2 b2. bindR (tb_writeLong (of_nat (length (record_bytes oper))) (d, b))
      (tb_writeChars (record_bytes oper)) = Inr (d2, b2) \<and>
    d2 = disk_write d (tb_file b) (tb_start b + tb_len b) (log_entry oper) \<and>
    b2 = tb_seek (tb_len b + length (log_entry oper)) (b\<lparr>tb_len := tb_len b + length (log_entry oper)\<rparr>) \<and>
    tb_holds d2 b2 (ops @ [oper])"
proof -
  let ?d2 = "disk_write d (tb_file b) (tb_start b + tb_len b) (log_entry oper)"
  let ?b2 = "tb_seek (tb_len b + length (log_entry oper)) (b\<lparr>tb_len := tb_len b + length (log_entry oper)\<rparr>)"
  have le: "log_entry oper = write_long (of_nat (length (record_bytes oper))) @ write_chars (record_bytes oper)"
    by (simp add: log_entry_def)
  have dw: "disk_write (disk_write d (tb_file b) (tb_start b + tb_len b)
        (write_long (of_nat (length (record_bytes oper))))) (tb_file b) (tb_start b + tb_len b + 8)
        (write_chars (record_bytes oper)) = ?d2"
    unfolding le by (subst disk_write_append [symmetric]) simp
  have "bindR (tb_writeLong (of_nat (length (record_bytes oper))) (d, b)) (tb_writeChars (record_bytes oper)) =
      Inr (?d2, ?b2)"
    using assms(3,4) dw
    by (simp add: tb_writeLong_def tb_writeChars_def tb_put_def tb_seek_def algebra_simps)
  moreover have "tb_holds ?d2 ?b2 (ops @ [oper])"
  proof -
    have "tb_view ?d2 ?b2 = tb_view ?d2 b" by (simp add: tb_seek_def)
    also have "\<dots> = take (tb_len b) (tb_view d b) @ log_entry oper @
        drop (tb_len b + length (log_entry oper)) (tb_view d b)"
      using assms(4) by (rule disk_write_view)
    finally show ?thesis using assms by (auto simp: tb_holds_def tb_seek_def)
  qed
  ultimately show ?thesis by blast
qed

lemma tb_holds_other:
  "tb_holds d c ops \<Longrightarrow> tb_disjoint b c \<Longrightarrow> off + length xs \<le> tb_max b \<Longrightarrow>
   tb_holds (disk_write d (tb_file b) (tb_start b + off) xs) c ops"
  by (auto simp: tb_holds_def disk_write_view_other)

end
