(* ===== verification/Tx_Manager.thy ===== *)
theory Tx_Manager
  imports Tx_Log "HOL-Library.Multiset"
begin

text \<open>
  TxBufferManager (tx/txbuffermanager.cpp): the queue of active buffers, the buffers to reuse,
  the reference counts of log files and the control file, with registration, loading, writing,
  flushing and dropping. The queue and the vector of active buffers of the class always hold
  the same buffers; they are one list here, front first.
\<close>

section \<open>State\<close>

record txmanager =
  tm_logFile :: string
  tm_mainLog :: bool
  tm_buffersSize :: nat
  tm_buffersCount :: nat
  tm_active :: "txbuffer list"
  tm_reusable :: "txbuffer list"
  tm_byLog :: "(string, int) std_map"
  tm_control :: "byte list"

text \<open>A write into a file at a position; a gap is filled with zeros.\<close>

definition patch :: "byte list \<Rightarrow> nat \<Rightarrow> byte list \<Rightarrow> byte list" where
  "patch file pos xs = take pos file @ replicate (pos - length file) (CHR 0x00) @ xs @
     drop (pos + length xs) file"

section \<open>Buffers in and out\<close>

definition tm_createNewBuffer :: "txmanager \<Rightarrow> txbuffer" where
  "tm_createNewBuffer m =
     \<lparr>tb_file = tm_logFile m, tb_start = tm_buffersCount m * tm_buffersSize m, tb_max = tm_buffersSize m,
      tb_len = 0, tb_pos = 0, tb_spos = 0, tb_control = 0, tb_mainLog = tm_mainLog m\<rparr>"

definition count_log :: "string \<Rightarrow> (string, int) std_map \<Rightarrow> (string, int) std_map" where
  "count_log f m = (case map_find m f of None \<Rightarrow> map_insert f 1 m | Some n \<Rightarrow> map_put f (n + 1) m)"

text \<open>The entry of a buffer in the control file; its length field is written as zero.\<close>

definition control_entry :: "txbuffer \<Rightarrow> byte list" where
  "control_entry b = [CHR 0x01] @ write_long (of_nat (tb_start b)) @ write_long 0 @
     write_chars (tb_file b) @ write_int (if tb_mainLog b then 1 else 0)"

definition tm_register :: "txmanager \<Rightarrow> txbuffer \<Rightarrow> bool \<Rightarrow> txmanager \<times> txbuffer" where
  "tm_register m b newBuffer =
     (let ctl = patch (tm_control m) 8 (write_int (of_nat (tm_buffersCount m)));
          b = (if newBuffer then b\<lparr>tb_control := length ctl\<rparr> else tb_reset b) in
      (m\<lparr>tm_control := patch ctl (tb_control b) (control_entry b),
         tm_byLog := count_log (tb_file b) (tm_byLog m)\<rparr>, b))"

definition tm_addBuffer :: "txmanager \<Rightarrow> txbuffer \<Rightarrow> txmanager" where
  "tm_addBuffer m b = m\<lparr>tm_active := tm_active m @ [b], tm_buffersCount := tm_buffersCount m + 1\<rparr>"

text \<open>
  getBuffer makes the buffer to write to the last active one. A new or reused buffer is added
  before it is registered; registering changes the buffer in place.
\<close>

definition tm_getBuffer :: "txmanager \<Rightarrow> nat \<Rightarrow> bool \<Rightarrow> txmanager" where
  "tm_getBuffer m minimumSize force =
     (if force \<or> tm_active m = [] \<or>
         int (tm_buffersSize m) - int (tb_pos (last (tm_active m))) < int minimumSize then
        (let (b, reusable, newBuffer) =
               (case tm_reusable m of
                  [] \<Rightarrow> (tm_createNewBuffer m, [], True)
                | b # bs \<Rightarrow> (tb_reset b, bs, False));
             m1 = m\<lparr>tm_reusable := reusable, tm_buffersCount := tm_buffersCount m + 1\<rparr>;
             (m2, b2) = tm_register m1 (tb_seek 0 b) newBuffer in
         m2\<lparr>tm_active := tm_active m @ [b2]\<rparr>)
      else m\<lparr>tm_active := butlast (tm_active m) @
              [tb_seek (tb_pos (last (tm_active m))) (last (tm_active m))]\<rparr>)"

text \<open>writeOperationToRegister: the log, then the new length in the control file.\<close>

definition tm_writeOperation :: "disk \<times> txmanager \<Rightarrow> tx_operation \<Rightarrow> (disk \<times> txmanager) res" where
  "tm_writeOperation = (\<lambda>(d, m) oper.
     bindR (encode_operation oper) (\<lambda>chrs.
     let m = tm_getBuffer m (length chrs + 8) False;
         b = tb_acquireLock (last (tm_active m)) in
     bindR (tb_writeLong (of_nat (length chrs)) (d, b)) (\<lambda>db.
     bindR (tb_writeChars chrs db) (\<lambda>(d, b).
     Inr (d, m\<lparr>tm_active := butlast (tm_active m) @ [b],
               tm_control := patch (tm_control m) (tb_control b + 9) (write_long (of_nat (tb_len b)))\<rparr>)))))"

definition tm_pop :: "txmanager \<Rightarrow> (txbuffer \<times> txmanager) res" where
  "tm_pop m =
     (case tm_active m of
        [] \<Rightarrow> Inl Undefined_behaviour
      | b # bs \<Rightarrow> Inr (b, m\<lparr>tm_active := bs,
          tm_byLog := (case map_find (tm_byLog m) (tb_file b) of
             Some n \<Rightarrow> map_put (tb_file b) (n - 1) (tm_byLog m) | None \<Rightarrow> tm_byLog m),
          tm_buffersCount := tm_buffersCount m - 1\<rparr>))"

primrec tm_popN :: "nat \<Rightarrow> txmanager \<Rightarrow> (txbuffer list \<times> txmanager) res" where
  "tm_popN 0 m = Inr ([], m)"
| "tm_popN (Suc n) m = bindR (tm_pop m) (\<lambda>(b, m). bindR (tm_popN n m) (\<lambda>(bs, m). Inr (b # bs, m)))"

definition tm_popAll :: "txmanager \<Rightarrow> (txbuffer list \<times> txmanager) res" where
  "tm_popAll m = tm_popN (tm_buffersCount m) m"

fun tm_addEach :: "txmanager \<Rightarrow> txbuffer list \<Rightarrow> txmanager" where
  "tm_addEach m [] = m"
| "tm_addEach m (b # bs) =
     (let (m, b) = tm_register (m\<lparr>tm_buffersCount := tm_buffersCount m + 1\<rparr>) b True in
      tm_addEach (m\<lparr>tm_active := tm_active m @ [b]\<rparr>) bs)"

definition tm_addBuffers :: "txmanager \<Rightarrow> txbuffer list \<Rightarrow> txmanager" where
  "tm_addBuffers m buffers = tm_getBuffer (tm_addEach m buffers) 0 True"

text \<open>A log file is removed with the last buffer that refers to it; the main log never is.\<close>

definition tm_dropBuffer :: "disk \<times> txmanager \<Rightarrow> txbuffer \<Rightarrow> disk \<times> txmanager" where
  "tm_dropBuffer = (\<lambda>(d, m) b.
     if tb_mainLog b then (d, m)
     else case map_find (tm_byLog m) (tb_file b) of
         None \<Rightarrow> (disk_remove d (tb_file b), m)
       | Some n \<Rightarrow>
           if n \<le> 0 then (disk_remove d (tb_file b), m\<lparr>tm_byLog := map_erase (tb_file b) (tm_byLog m)\<rparr>)
           else (d, m))"

definition tm_dropAllBuffers :: "disk \<times> txmanager \<Rightarrow> (disk \<times> txmanager) res" where
  "tm_dropAllBuffers = (\<lambda>(d, m). bindR (tm_popAll m) (\<lambda>(bs, m).
     Inr (foldl tm_dropBuffer (d, m) bs)))"

text \<open>
  flushBuffer hands the operations of the oldest buffer to the controller, a parameter. The
  loop stops at the first result that is null.
\<close>

primrec flush_loop ::
    "(tx_operation \<Rightarrow> 's \<Rightarrow> 's res) \<Rightarrow> nat \<Rightarrow> disk \<Rightarrow> txbuffer \<Rightarrow> 's \<Rightarrow> (txbuffer \<times> 's) res" where
  "flush_loop perform 0 d b s = Inl No_fuel"
| "flush_loop perform (Suc n) d b s =
     bindR (readOperation d None None b) (\<lambda>(r, b).
     case r of None \<Rightarrow> Inr (b, s)
     | Some oper \<Rightarrow> bindR (perform oper s) (\<lambda>s. flush_loop perform n d b s))"

definition tm_flushBuffer ::
    "(tx_operation \<Rightarrow> 's \<Rightarrow> 's res) \<Rightarrow> disk \<times> txmanager \<Rightarrow> 's \<Rightarrow> ((disk \<times> txmanager) \<times> 's) res" where
  "tm_flushBuffer perform = (\<lambda>(d, m) s.
     if tm_buffersCount m > 1 then
       bindR (tm_pop m) (\<lambda>(b, m).
       bindR (flush_loop perform (Suc (Suc (tb_len b))) d (tb_seek 0 (tb_acquireLock b)) s) (\<lambda>(b, s).
       if tb_mainLog b then
         (let (m2, b2) = tm_register m (tb_reset b) False in
          Inr ((d, m2\<lparr>tm_reusable := tm_reusable m2 @ [b2]\<rparr>), s))
       else Inr (tm_dropBuffer (d, m) b, s)))
     else Inr ((d, m), s))"

section \<open>Loading the control file\<close>

definition read_entry :: "nat \<Rightarrow> nat \<Rightarrow> (bool \<times> txbuffer) reader" where
  "read_entry buffersSize controlPosition =
     rbind (read_raw 1) (\<lambda>flag. rbind read_long (\<lambda>startOffset. rbind read_long (\<lambda>bufferLen.
     rbind read_chars (\<lambda>logFileName. rbind read_int (\<lambda>mainLog.
     rreturn (odd (of_char (hd flag) :: nat),
       \<lparr>tb_file = c_str logFileName, tb_start = unat startOffset, tb_max = buffersSize,
        tb_len = unat bufferLen, tb_pos = 0, tb_spos = 0, tb_control = controlPosition,
        tb_mainLog = (mainLog \<noteq> 0)\<rparr>))))))"

text \<open>Reusable entries split the active ones: those behind go to the front of the queue.\<close>

primrec read_entries ::
    "nat \<Rightarrow> nat \<Rightarrow> nat \<Rightarrow> bool \<Rightarrow> (txbuffer list \<times> txbuffer list \<times> txbuffer list) reader" where
  "read_entries buffersSize fileLen 0 addToTail = rreturn ([], [], [])"
| "read_entries buffersSize fileLen (Suc n) addToTail = (\<lambda>s.
     rbind (read_entry buffersSize (fileLen - length s)) (\<lambda>(active, b).
     rbind (read_entries buffersSize fileLen n (addToTail \<and> active)) (\<lambda>(front, tail, reusable).
     rreturn (if active then (if addToTail then (front, b # tail, reusable) else (b # front, tail, reusable))
              else (front, tail, b # reusable)))) s)"

definition tm_load :: "string \<Rightarrow> bool \<Rightarrow> byte list \<Rightarrow> txmanager res" where
  "tm_load file mainLog ctl =
     bindR (read_long ctl) (\<lambda>(buffersSize, rest).
     bindR (read_int rest) (\<lambda>(buffers, rest).
     bindR (read_entries (unat buffersSize) (length ctl) (nat (sint buffers)) True rest)
       (\<lambda>((front, tail, reusable), rest).
     Inr \<lparr>tm_logFile = file @ ''.log'', tm_mainLog = mainLog, tm_buffersSize = unat buffersSize,
          tm_buffersCount = length (front @ tail), tm_active = front @ tail, tm_reusable = reusable,
          tm_byLog = [], tm_control = ctl\<rparr>)))"

text \<open>Without a control file, one is written with the size of the buffers and no entries.\<close>

definition tm_create :: "string \<Rightarrow> bool \<Rightarrow> nat \<Rightarrow> txmanager" where
  "tm_create file mainLog buffersSize =
     \<lparr>tm_logFile = file @ ''.log'', tm_mainLog = mainLog, tm_buffersSize = buffersSize,
      tm_buffersCount = 0, tm_active = [], tm_reusable = [], tm_byLog = [],
      tm_control = write_long (of_nat buffersSize) @ write_int 0\<rparr>"

section \<open>The invariant of a log of its own\<close>

text \<open>
  As long as no buffers of other logs are added, the regions of the buffers are the first
  multiples of the buffer size, each once, and the cursor of the buffer to write to is behind
  its data. The lists of operations are what the active buffers hold, front first.
\<close>

definition tm_buffers :: "txmanager \<Rightarrow> txbuffer list" where
  "tm_buffers m = tm_active m @ tm_reusable m"

definition tm_regions :: "txmanager \<Rightarrow> bool" where
  "tm_regions m \<longleftrightarrow> 0 < tm_buffersSize m \<and> tm_buffersCount m = length (tm_active m) \<and>
     (\<forall>b\<in>set (tm_buffers m). tb_file b = tm_logFile m \<and> tb_max b = tm_buffersSize m \<and>
        tb_mainLog b = tm_mainLog m) \<and>
     mset (map tb_start (tm_buffers m)) =
       mset (map (\<lambda>i. i * tm_buffersSize m) [0..<length (tm_buffers m)])"

definition tm_inv :: "disk \<Rightarrow> txmanager \<Rightarrow> tx_operation list list \<Rightarrow> bool" where
  "tm_inv d m opss \<longleftrightarrow> tm_regions m \<and> list_all2 (tb_holds d) (tm_active m) opss \<and>
     (tm_active m \<noteq> [] \<longrightarrow> tb_pos (last (tm_active m)) = tb_len (last (tm_active m)))"

lemma tm_starts_distinct: "tm_regions m \<Longrightarrow> distinct (map tb_start (tm_buffers m))"
proof -
  assume m: "tm_regions m"
  then have "distinct (map (\<lambda>i. i * tm_buffersSize m) [0..<length (tm_buffers m)])"
    by (auto simp: tm_regions_def distinct_map inj_on_def)
  with m show ?thesis unfolding tm_regions_def by (metis distinct_count_atmost_1 set_mset_mset)
qed

lemma tm_start_multiple:
  assumes "tm_regions m" "b \<in> set (tm_buffers m)"
  shows "\<exists>i<length (tm_buffers m). tb_start b = i * tm_buffersSize m"
proof -
  have "set (map tb_start (tm_buffers m)) =
      set (map (\<lambda>i. i * tm_buffersSize m) [0..<length (tm_buffers m)])"
    using assms(1) unfolding tm_regions_def by (intro mset_eq_setD) simp
  moreover have "tb_start b \<in> set (map tb_start (tm_buffers m))" using assms(2) by simp
  ultimately have "tb_start b \<in> set (map (\<lambda>i. i * tm_buffersSize m) [0..<length (tm_buffers m)])"
    by (simp only:)
  then show ?thesis by auto
qed

lemma tm_disjoint:
  assumes "tm_regions m" "b \<in> set (tm_buffers m)" "c \<in> set (tm_buffers m)" "tb_start b \<noteq> tb_start c"
  shows "tb_disjoint b c"
proof -
  let ?s = "tm_buffersSize m"
  obtain i j where ij: "tb_start b = i * ?s" "tb_start c = j * ?s"
    using tm_start_multiple [OF assms(1,2)] tm_start_multiple [OF assms(1,3)] by blast
  with assms(4) have "i < j \<or> j < i" by auto
  then have "Suc i * ?s \<le> j * ?s \<or> Suc j * ?s \<le> i * ?s"
    by (meson Suc_leI mult_le_mono1)
  with ij assms(1-3) show ?thesis by (auto simp: tb_disjoint_def tm_regions_def add.commute)
qed

lemma tb_holds_cong:
  "tb_file b = tb_file c \<Longrightarrow> tb_start b = tb_start c \<Longrightarrow> tb_max b = tb_max c \<Longrightarrow> tb_len b = tb_len c \<Longrightarrow>
   tb_holds d b ops = tb_holds d c ops"
  by (simp add: tb_holds_def tb_view_def)

lemma tb_holds_empty: "tb_len b = 0 \<Longrightarrow> tb_holds d b []"
  by (simp add: tb_holds_def)

lemma tm_register_simps [simp]:
  "tm_active (fst (tm_register m b new)) = tm_active m"
  "tm_reusable (fst (tm_register m b new)) = tm_reusable m"
  "tm_buffersCount (fst (tm_register m b new)) = tm_buffersCount m"
  "tm_buffersSize (fst (tm_register m b new)) = tm_buffersSize m"
  "tm_logFile (fst (tm_register m b new)) = tm_logFile m"
  "tm_mainLog (fst (tm_register m b new)) = tm_mainLog m"
  "tb_file (snd (tm_register m b new)) = tb_file b"
  "tb_start (snd (tm_register m b new)) = tb_start b"
  "tb_max (snd (tm_register m b new)) = tb_max b"
  "tb_mainLog (snd (tm_register m b new)) = tb_mainLog b"
  "new \<Longrightarrow> tb_len (snd (tm_register m b new)) = tb_len b"
  "new \<Longrightarrow> tb_pos (snd (tm_register m b new)) = tb_pos b"
  "\<not> new \<Longrightarrow> tb_len (snd (tm_register m b new)) = 0"
  "\<not> new \<Longrightarrow> tb_pos (snd (tm_register m b new)) = 0"
  by (simp_all add: tm_register_def Let_def tb_reset_def tb_seek_def)

text \<open>Whether getBuffer takes another buffer.\<close>

definition tm_full :: "txmanager \<Rightarrow> nat \<Rightarrow> bool \<Rightarrow> bool" where
  "tm_full m minimumSize force \<longleftrightarrow> force \<or> tm_active m = [] \<or>
     int (tm_buffersSize m) - int (tb_pos (last (tm_active m))) < int minimumSize"

lemma tm_getBuffer_new:
  assumes "tm_regions m" "tm_full m n force"
  shows "\<exists>b. tm_active (tm_getBuffer m n force) = tm_active m @ [b] \<and> tb_len b = 0 \<and> tb_pos b = 0 \<and>
    tm_regions (tm_getBuffer m n force) \<and> tm_buffersSize (tm_getBuffer m n force) = tm_buffersSize m"
proof (cases "tm_reusable m")
  case Nil
  let ?b = "tb_seek 0 (tm_createNewBuffer m)"
  let ?m1 = "m\<lparr>tm_reusable := [], tm_buffersCount := tm_buffersCount m + 1\<rparr>"
  let ?r = "tm_register ?m1 ?b True"
  have get: "tm_getBuffer m n force = (fst ?r)\<lparr>tm_active := tm_active m @ [snd ?r]\<rparr>"
    using assms(2) Nil by (simp add: tm_getBuffer_def tm_full_def Let_def case_prod_beta)
  have "tm_regions (tm_getBuffer m n force)"
    unfolding get using assms(1) Nil
    by (auto simp: tm_regions_def tm_buffers_def tm_createNewBuffer_def tb_seek_def)
  then show ?thesis unfolding get
    by (intro exI [of _ "snd ?r"]) (simp add: tm_createNewBuffer_def tb_seek_def)
next
  case (Cons c cs)
  let ?b = "tb_seek 0 (tb_reset c)"
  let ?m1 = "m\<lparr>tm_reusable := cs, tm_buffersCount := tm_buffersCount m + 1\<rparr>"
  let ?r = "tm_register ?m1 ?b False"
  have get: "tm_getBuffer m n force = (fst ?r)\<lparr>tm_active := tm_active m @ [snd ?r]\<rparr>"
    using assms(2) Cons by (simp add: tm_getBuffer_def tm_full_def Let_def case_prod_beta)
  have "tm_regions (tm_getBuffer m n force)"
    unfolding get using assms(1) Cons
    by (auto simp: tm_regions_def tm_buffers_def tb_seek_def tb_reset_def)
  then show ?thesis unfolding get by (intro exI [of _ "snd ?r"]) simp
qed

lemma tm_getBuffer_same:
  assumes "\<not> tm_full m n force"
  shows "tm_getBuffer m n force = m\<lparr>tm_active := butlast (tm_active m) @
    [tb_seek (tb_pos (last (tm_active m))) (last (tm_active m))]\<rparr>"
  using assms by (simp add: tm_getBuffer_def tm_full_def)

section \<open>Writing\<close>

lemma tm_inv_replace_last:
  assumes "tm_inv d m (os @ [ops])" "tm_active m = bs @ [b]"
    and "d2 = disk_write d (tb_file b) (tb_start b + off) xs" "off + length xs \<le> tb_max b"
    and "tb_file b2 = tb_file b" "tb_start b2 = tb_start b" "tb_max b2 = tb_max b"
      "tb_mainLog b2 = tb_mainLog b" "tb_holds d2 b2 ops2" "tb_pos b2 = tb_len b2"
  shows "tm_inv d2 (m\<lparr>tm_active := bs @ [b2], tm_control := ctl\<rparr>) (os @ [ops2])"
proof -
  have regions: "tm_regions m" and holds: "list_all2 (tb_holds d) bs os" "length bs = length os"
    using assms(1,2) by (auto simp: tm_inv_def list_all2_append1 dest: list_all2_lengthD)
  have b: "b \<in> set (tm_buffers m)" using assms(2) by (simp add: tm_buffers_def)
  have "tb_holds d2 c o1" if c: "c \<in> set bs" "tb_holds d c o1" for c o1
  proof -
    have "c \<in> set (tm_buffers m)" using c assms(2) by (simp add: tm_buffers_def)
    moreover have "tb_start b \<noteq> tb_start c"
      using tm_starts_distinct [OF regions] c assms(2) by (auto simp: tm_buffers_def)
    ultimately have "tb_disjoint b c" using tm_disjoint [OF regions b] by blast
    with c(2) assms(3,4) show ?thesis by (simp add: tb_holds_other)
  qed
  with holds have "list_all2 (tb_holds d2) bs os" by (simp add: list_all2_conv_all_nth)
  moreover have "tm_regions (m\<lparr>tm_active := bs @ [b2], tm_control := ctl\<rparr>)"
    using regions assms(2,5-8) by (auto simp: tm_regions_def tm_buffers_def)
  ultimately show ?thesis using assms(9,10) holds(2) by (simp add: tm_inv_def list_all2_append)
qed

lemma tm_getBuffer_inv:
  assumes "tm_inv d m opss"
  shows "\<exists>bs b os ops. tm_active (tm_getBuffer m n force) = bs @ [b] \<and>
    tm_inv d (tm_getBuffer m n force) (os @ [ops]) \<and> concat (os @ [ops]) = concat opss \<and>
    tb_pos b = tb_len b \<and> tb_max b = tm_buffersSize m \<and>
    (if tm_full m n force then tb_len b = 0 else tb_len b = tb_len (last (tm_active m)))"
proof (cases "tm_full m n force")
  case True
  have regions: "tm_regions m" using assms by (simp add: tm_inv_def)
  from tm_getBuffer_new [OF regions True] obtain b where b:
    "tm_active (tm_getBuffer m n force) = tm_active m @ [b]" "tb_len b = 0" "tb_pos b = 0"
    "tm_regions (tm_getBuffer m n force)" "tm_buffersSize (tm_getBuffer m n force) = tm_buffersSize m"
    by blast
  have "tm_inv d (tm_getBuffer m n force) (opss @ [[]])"
    using assms b by (simp add: tm_inv_def list_all2_appendI tb_holds_empty)
  moreover have "tb_max b = tm_buffersSize m"
    using b(1,4,5) by (simp add: tm_regions_def tm_buffers_def)
  ultimately show ?thesis using b True by (intro exI [of _ "tm_active m"] exI [of _ b] exI [of _ opss]
        exI [of _ "[]"]) simp
next
  case False
  then have ne: "tm_active m \<noteq> []" by (simp add: tm_full_def)
  then obtain bs b where bs: "tm_active m = bs @ [b]" by (metis rev_exhaust)
  obtain os ops where os: "opss = os @ [ops]" "list_all2 (tb_holds d) bs os" "tb_holds d b ops"
    using assms bs by (auto simp: tm_inv_def list_all2_append1 list_all2_Cons1)
  have pos: "tb_pos b = tb_len b" using assms bs by (simp add: tm_inv_def)
  have get: "tm_getBuffer m n force = m\<lparr>tm_active := bs @ [tb_seek (tb_pos b) b]\<rparr>"
    using tm_getBuffer_same [OF False] bs by simp
  have "tb_holds d (tb_seek (tb_pos b) b) ops"
    using os(3) tb_holds_cong [of "tb_seek (tb_pos b) b" b d ops] by (simp add: tb_seek_def)
  then have "tm_inv d (tm_getBuffer m n force) (os @ [ops])"
    unfolding get using assms bs os(2) pos
    by (auto simp: tm_inv_def tm_regions_def tm_buffers_def tb_seek_def list_all2_appendI)
  moreover have "tb_max b = tm_buffersSize m"
    using assms bs by (simp add: tm_inv_def tm_regions_def tm_buffers_def)
  ultimately show ?thesis using False bs get os(1) pos
    by (intro exI [of _ bs] exI [of _ "tb_seek (tb_pos b) b"] exI [of _ os] exI [of _ ops])
      (simp add: tb_seek_def)
qed

text \<open>The room that is asked for is four bytes less than what is written.\<close>

definition tm_short :: "txmanager \<Rightarrow> tx_operation \<Rightarrow> bool" where
  "tm_short m oper \<longleftrightarrow> \<not> tm_full m (length (record_bytes oper) + 8) False \<and>
     tm_buffersSize m < tb_len (last (tm_active m)) + length (log_entry oper)"

lemma tm_writeOperation_spec:
  assumes inv: "tm_inv d m opss" and ok: "operation_ok oper"
    and fits: "length (log_entry oper) \<le> tm_buffersSize m" and room: "\<not> tm_short m oper"
  shows "\<exists>d2 m2 opss2. tm_writeOperation (d, m) oper = Inr (d2, m2) \<and> tm_inv d2 m2 opss2 \<and>
    concat opss2 = concat opss @ [oper]"
proof -
  let ?n = "length (record_bytes oper) + 8"
  let ?m = "tm_getBuffer m ?n False"
  from tm_getBuffer_inv [OF inv, of ?n False] obtain bs b os ops where b:
    "tm_active ?m = bs @ [b]" "tm_inv d ?m (os @ [ops])" "concat (os @ [ops]) = concat opss"
    "tb_pos b = tb_len b" "tb_max b = tm_buffersSize m"
    "if tm_full m ?n False then tb_len b = 0 else tb_len b = tb_len (last (tm_active m))"
    by blast
  have holds: "tb_holds d (tb_acquireLock b) ops"
    using b(1,2) tb_holds_cong [of "tb_acquireLock b" b d ops]
    by (auto simp: tm_inv_def list_all2_append1 list_all2_Cons1 tb_acquireLock_def)
  have space: "tb_len b + length (log_entry oper) \<le> tb_max b"
    using b(5,6) fits room by (auto simp: tm_short_def split: if_splits)
  obtain d2 b2 where w: "bindR (tb_writeLong (of_nat (length (record_bytes oper))) (d, tb_acquireLock b))
      (tb_writeChars (record_bytes oper)) = Inr (d2, b2)"
    "d2 = disk_write d (tb_file b) (tb_start b + tb_len b) (log_entry oper)"
    "b2 = tb_seek (tb_len b + length (log_entry oper))
      (tb_acquireLock b\<lparr>tb_len := tb_len b + length (log_entry oper)\<rparr>)"
    "tb_holds d2 b2 (ops @ [oper])"
    using tb_append [OF holds ok] space b(4) by (auto simp: tb_acquireLock_def)
  let ?m2 = "?m\<lparr>tm_active := bs @ [b2], tm_control := patch (tm_control ?m) (tb_control b2 + 9)
    (write_long (of_nat (tb_len b2)))\<rparr>"
  have enc: "encode_operation oper = Inr (record_bytes oper)"
    using ok by (simp add: operation_ok_def encode_operation_ok)
  have "tm_writeOperation (d, m) oper = Inr (d2, ?m2)"
    using w(1) b(1) by (auto simp: tm_writeOperation_def enc Let_def bindR_Inr_iff)
  moreover have "tm_inv d2 ?m2 (os @ [ops @ [oper]])"
    by (rule tm_inv_replace_last [OF b(2,1) w(2) space _ _ _ _ w(4)])
      (simp_all add: w(3) tb_seek_def tb_acquireLock_def)
  ultimately show ?thesis using b(3)
    by (intro exI [of _ d2] exI [of _ ?m2] exI [of _ "os @ [ops @ [oper]]"]) simp
qed

text \<open>In the short window, and for an entry larger than a buffer, the write leaves the mapping.\<close>

lemma tm_writeOperation_over:
  assumes inv: "tm_inv d m opss" and ok: "operation_ok oper"
    and over: "tm_short m oper \<or> tm_buffersSize m < length (log_entry oper)"
  shows "tm_writeOperation (d, m) oper = Inl Undefined_behaviour"
proof -
  let ?n = "length (record_bytes oper) + 8"
  from tm_getBuffer_inv [OF inv, of ?n False] obtain bs b where b:
    "tm_active (tm_getBuffer m ?n False) = bs @ [b]" "tb_pos b = tb_len b" "tb_max b = tm_buffersSize m"
    "if tm_full m ?n False then tb_len b = 0 else tb_len b = tb_len (last (tm_active m))"
    by blast
  have "tb_max b < tb_len b + (12 + length (record_bytes oper))"
    using b(3,4) over by (auto simp: tm_short_def split: if_splits)
  moreover have "encode_operation oper = Inr (record_bytes oper)"
    using ok by (simp add: operation_ok_def encode_operation_ok)
  ultimately show ?thesis using b(1,2)
    by (simp add: tm_writeOperation_def Let_def tb_writeLong_def tb_writeChars_def tb_put_def
        tb_acquireLock_def tb_seek_def)
qed

lemma tm_writeOperation_Inr:
  assumes "tm_inv d m opss" "operation_ok oper" "tm_writeOperation (d, m) oper = Inr (d2, m2)"
  shows "\<exists>opss2. tm_inv d2 m2 opss2 \<and> concat opss2 = concat opss @ [oper]"
proof -
  have "\<not> tm_short m oper" "length (log_entry oper) \<le> tm_buffersSize m"
    using tm_writeOperation_over [OF assms(1,2)] assms(3) by (auto simp: not_less [symmetric])
  from tm_writeOperation_spec [OF assms(1,2) this(2,1)] assms(3) show ?thesis by auto
qed

section \<open>Reading back\<close>

text \<open>The loop of BaseTransaction::findOperations over the active buffers of its log.\<close>

definition tm_findOperations ::
    "string option \<Rightarrow> string option \<Rightarrow> disk \<times> txmanager \<Rightarrow> (tx_operation list \<times> txmanager) res" where
  "tm_findOperations db ns = (\<lambda>(d, m).
     bindR (mapR (read_all d db ns) (tm_active m)) (\<lambda>rs.
     Inr (concat (map fst rs), m\<lparr>tm_active := map snd rs\<rparr>)))"

lemma mapR_read_all:
  "list_all2 (tb_holds d) bs opss \<Longrightarrow> mapR (read_all d db ns) bs =
   Inr (map2 (\<lambda>b ops. (filter (\<lambda>oper. wanted db ns (op_db oper) (op_ns oper)) ops, tb_seek (tb_len b) b)) bs opss)"
  by (induction rule: list_all2_induct) (simp_all add: read_all_holds)

definition tm_rewound :: "txmanager \<Rightarrow> txmanager" where
  "tm_rewound m = m\<lparr>tm_active := map (\<lambda>b. tb_seek (tb_len b) b) (tm_active m)\<rparr>"

lemma tm_findOperations_holds:
  assumes "list_all2 (tb_holds d) (tm_active m) opss"
  shows "tm_findOperations db ns (d, m) =
    Inr (filter (\<lambda>oper. wanted db ns (op_db oper) (op_ns oper)) (concat opss), tm_rewound m)"
    and "list_all2 (tb_holds d) (tm_active (tm_rewound m)) opss"
proof -
  let ?seek = "\<lambda>b. tb_seek (tb_len b) b"
  have len: "length (tm_active m) = length opss" using assms by (rule list_all2_lengthD)
  have snds: "map snd (map2 (\<lambda>b ops. (f ops, ?seek b)) bs os) = map ?seek bs"
    and fsts: "map fst (map2 (\<lambda>b ops. (f ops, ?seek b)) bs os) = map f os"
    if "length bs = length os" for bs os and f :: "tx_operation list \<Rightarrow> tx_operation list"
    using that by (induction bs os rule: list_induct2) simp_all
  show "tm_findOperations db ns (d, m) =
      Inr (filter (\<lambda>oper. wanted db ns (op_db oper) (op_ns oper)) (concat opss), tm_rewound m)"
    using mapR_read_all [OF assms, of db ns] fsts [OF len] snds [OF len]
    by (simp add: tm_findOperations_def tm_rewound_def filter_concat del: map_map)
  show "list_all2 (tb_holds d) (tm_active (tm_rewound m)) opss"
    using assms tb_holds_cong [of "?seek b" b d for b]
    by (simp add: list_all2_conv_all_nth tb_seek_def tm_rewound_def)
qed

lemma tm_findOperations_spec:
  assumes "tm_inv d m opss"
  shows "tm_findOperations db ns (d, m) =
      Inr (filter (\<lambda>oper. wanted db ns (op_db oper) (op_ns oper)) (concat opss), tm_rewound m)"
    and "tm_inv d (tm_rewound m) opss"
proof -
  have holds: "list_all2 (tb_holds d) (tm_active m) opss" using assms by (simp add: tm_inv_def)
  show "tm_findOperations db ns (d, m) =
      Inr (filter (\<lambda>oper. wanted db ns (op_db oper) (op_ns oper)) (concat opss), tm_rewound m)"
    by (rule tm_findOperations_holds [OF holds])
  have "tm_regions (tm_rewound m)"
    using assms by (auto simp: tm_inv_def tm_regions_def tm_buffers_def tb_seek_def tm_rewound_def comp_def)
  moreover have "tb_pos (last (tm_active (tm_rewound m))) = tb_len (last (tm_active (tm_rewound m)))"
    if "tm_active m \<noteq> []"
    using that by (simp add: last_map tb_seek_def tm_rewound_def)
  ultimately show "tm_inv d (tm_rewound m) opss"
    using tm_findOperations_holds(2) [OF holds] by (auto simp: tm_inv_def tm_rewound_def)
qed

section \<open>Flushing\<close>

primrec perform_all :: "(tx_operation \<Rightarrow> 's \<Rightarrow> 's res) \<Rightarrow> tx_operation list \<Rightarrow> 's \<Rightarrow> 's res" where
  "perform_all perform [] s = Inr s"
| "perform_all perform (oper # ops) s = bindR (perform oper s) (perform_all perform ops)"

lemma perform_all_append:
  "perform_all perform (ops @ ops') s = bindR (perform_all perform ops s) (perform_all perform ops')"
  by (induction ops arbitrary: s) (simp_all add: bindR_def split: sum.splits)

lemma flush_loop_from:
  "\<forall>oper\<in>set ops. operation_ok oper \<Longrightarrow> tb_pos b + length (log_bytes ops) = tb_len b \<Longrightarrow>
   take (length (log_bytes ops)) (drop (tb_pos b) (tb_view d b)) = log_bytes ops \<Longrightarrow>
   length ops < n \<Longrightarrow>
   flush_loop perform n d b s = bindR (perform_all perform ops s)
     (\<lambda>s. Inr (if ops = [] then b else tb_seek (tb_len b) b, s))"
proof (induction ops arbitrary: n b s)
  case Nil
  then obtain n' where "n = Suc n'" by (cases n) auto
  with Nil show ?case by (simp add: readOperation_def tb_eof_def)
next
  case (Cons oper ops)
  obtain n' where n: "n = Suc n'" "length ops < n'" using Cons.prems(4) by (cases n) auto
  have ok: "operation_ok oper" using Cons.prems(1) by simp
  have pos: "tb_pos b < tb_len b" using Cons.prems(2) by simp
  let ?l = "length (log_entry oper)"
  have "take ?l (drop (tb_pos b) (tb_view d b)) = log_entry oper"
    using arg_cong [OF Cons.prems(3), of "take ?l"] by (simp add: min_def)
  then have "drop (tb_pos b) (tb_view d b) = log_entry oper @ drop ?l (drop (tb_pos b) (tb_view d b))"
    by (metis append_take_drop_id)
  note step = readOperation_entry [OF pos ok this, of None None]
  let ?b = "tb_seek (tb_pos b + ?l) b"
  have "take (length (log_bytes ops)) (drop (tb_pos ?b) (tb_view d ?b)) = log_bytes ops"
    using arg_cong [OF Cons.prems(3), of "drop ?l"]
    by (simp add: tb_seek_def drop_take add.commute)
  then have "flush_loop perform n' d ?b s = bindR (perform_all perform ops s)
     (\<lambda>s. Inr (if ops = [] then ?b else tb_seek (tb_len ?b) ?b, s))" for s
    using Cons.prems n by (intro Cons.IH) (auto simp: tb_seek_def)
  then have "flush_loop perform n' d ?b = (\<lambda>s. bindR (perform_all perform ops s)
     (\<lambda>s. Inr (tb_seek (tb_len b) b, s)))"
    using Cons.prems(2) by (auto simp: tb_seek_def fun_eq_iff)
  with step n(1) show ?case by (simp add: wanted_def bindR_assoc)
qed

lemma flush_loop_holds:
  assumes "tb_holds d b ops"
  shows "\<exists>b2. (\<forall>s. flush_loop perform (Suc (Suc (tb_len b))) d (tb_seek 0 (tb_acquireLock b)) s =
      bindR (perform_all perform ops s) (\<lambda>s. Inr (b2, s))) \<and> tb_file b2 = tb_file b \<and>
    tb_start b2 = tb_start b \<and> tb_max b2 = tb_max b \<and> tb_mainLog b2 = tb_mainLog b"
proof -
  let ?b = "tb_seek 0 (tb_acquireLock b)"
  have "flush_loop perform (Suc (Suc (tb_len b))) d ?b s = bindR (perform_all perform ops s)
     (\<lambda>s. Inr (if ops = [] then ?b else tb_seek (tb_len ?b) ?b, s))" for s
    using assms length_log_bytes [of ops]
    by (intro flush_loop_from) (auto simp: tb_holds_def tb_seek_def tb_acquireLock_def)
  then show ?thesis
    by (intro exI [of _ "if ops = [] then ?b else tb_seek (tb_len ?b) ?b"])
      (simp add: tb_seek_def tb_acquireLock_def del: flush_loop.simps)
qed

text \<open>
  With one active buffer or none nothing is flushed; otherwise the operations of the oldest
  buffer are performed, in order, and the buffer becomes the last one to reuse.
\<close>

lemma tm_flushBuffer_spec:
  assumes inv: "tm_inv d m opss" and main: "tm_mainLog m"
  shows "if length opss \<le> 1 then tm_flushBuffer perform (d, m) s = Inr ((d, m), s)
    else \<exists>m2. tm_inv d m2 (tl opss) \<and> tm_mainLog m2 \<and> tm_flushBuffer perform (d, m) s =
      bindR (perform_all perform (hd opss) s) (\<lambda>s. Inr ((d, m2), s))"
proof -
  have regions: "tm_regions m" and holds: "list_all2 (tb_holds d) (tm_active m) opss"
    using inv by (simp_all add: tm_inv_def)
  have count: "tm_buffersCount m = length opss"
    using regions list_all2_lengthD [OF holds] by (simp add: tm_regions_def)
  show ?thesis
  proof (cases "length opss \<le> 1")
    case True
    with count show ?thesis by (simp add: tm_flushBuffer_def)
  next
    case False
    then obtain ops os where opss: "opss = ops # os" "os \<noteq> []" by (cases opss) auto
    then obtain b bs where bs: "tm_active m = b # bs" "tb_holds d b ops" "list_all2 (tb_holds d) bs os"
      using holds by (auto simp: list_all2_Cons2)
    with opss(2) have ne: "bs \<noteq> []" by auto
    have mb: "tb_mainLog b" using regions main bs(1) by (auto simp: tm_regions_def tm_buffers_def)
    from flush_loop_holds [OF bs(2), of perform] obtain b2 where b2:
      "flush_loop perform (Suc (Suc (tb_len b))) d (tb_seek 0 (tb_acquireLock b)) s =
        bindR (perform_all perform ops s) (\<lambda>s. Inr (b2, s))"
      "tb_file b2 = tb_file b" "tb_start b2 = tb_start b" "tb_max b2 = tb_max b" "tb_mainLog b2 = tb_mainLog b"
      by blast
    define m1 where "m1 = m\<lparr>tm_active := bs, tm_byLog := (case map_find (tm_byLog m) (tb_file b) of
        Some n \<Rightarrow> map_put (tb_file b) (n - 1) (tm_byLog m) | None \<Rightarrow> tm_byLog m),
      tm_buffersCount := tm_buffersCount m - 1\<rparr>"
    let ?r = "tm_register m1 (tb_reset b2) False"
    let ?m2 = "(fst ?r)\<lparr>tm_reusable := tm_reusable (fst ?r) @ [snd ?r]\<rparr>"
    have "tm_pop m = Inr (b, m1)" using bs(1) by (simp add: tm_pop_def m1_def)
    then have "tm_flushBuffer perform (d, m) s =
        bindR (perform_all perform ops s) (\<lambda>s. Inr ((d, ?m2), s))"
      using False count mb b2(1,5)
      by (simp add: tm_flushBuffer_def bindR_assoc Let_def case_prod_beta del: flush_loop.simps)
    moreover have "tm_regions ?m2"
      using regions bs(1) b2(2-5)
      by (auto simp: tm_regions_def tm_buffers_def m1_def tb_reset_def tb_seek_def)
    moreover have "tm_mainLog ?m2" using main by (simp add: m1_def)
    ultimately show ?thesis using False opss(1) inv bs ne
      by (auto simp: tm_inv_def m1_def intro!: exI [of _ ?m2])
  qed
qed

lemma tm_getBuffer_main: "tm_mainLog (tm_getBuffer m n force) = tm_mainLog m"
  by (simp add: tm_getBuffer_def Let_def case_prod_beta split: list.splits)

lemma tm_writeOperation_main:
  "tm_writeOperation (d, m) oper = Inr (d2, m2) \<Longrightarrow> tm_mainLog m2 = tm_mainLog m"
  by (auto simp: tm_writeOperation_def bindR_Inr_iff Let_def tm_getBuffer_main)

section \<open>Runs of a log of its own\<close>

text \<open>The operations written so far and the store that the flushes have made.\<close>

inductive log_run ::
    "(tx_operation \<Rightarrow> 's \<Rightarrow> 's res) \<Rightarrow> (disk \<times> txmanager) \<times> 's \<Rightarrow> tx_operation list \<Rightarrow>
     (disk \<times> txmanager) \<times> 's \<Rightarrow> bool"
  for perform x where
  start: "log_run perform x [] x"
| write_step: "log_run perform x ops (y, s) \<Longrightarrow> tm_writeOperation y oper = Inr y2 \<Longrightarrow>
    log_run perform x (ops @ [oper]) (y2, s)"
| flush_step: "log_run perform x ops (y, s) \<Longrightarrow> tm_flushBuffer perform y s = Inr (y2, s2) \<Longrightarrow>
    log_run perform x ops (y2, s2)"

text \<open>
  Nothing is lost, repeated or reordered: the store is the result of a prefix of the written
  operations, and the active buffers hold the rest.
\<close>

lemma log_run_spec:
  assumes "log_run perform x ops y" "x = ((d, m), s)" "tm_inv d m []" "tm_mainLog m"
    "\<forall>oper\<in>set ops. operation_ok oper"
  shows "\<exists>d2 m2 s2 opss applied. y = ((d2, m2), s2) \<and> tm_inv d2 m2 opss \<and> tm_mainLog m2 \<and>
    ops = applied @ concat opss \<and> perform_all perform applied s = Inr s2"
  using assms
proof (induction rule: log_run.induct)
  case start
  then show ?case by (intro exI [of _ "[]"] exI) auto
next
  case (write_step ops z s1 oper y2)
  then obtain d1 m1 opss applied where IH: "z = (d1, m1)" "tm_inv d1 m1 opss" "tm_mainLog m1"
      "ops = applied @ concat opss" "perform_all perform applied s = Inr s1"
    by auto
  obtain d2 m2 where y2: "y2 = (d2, m2)" by (cases y2)
  have ok: "operation_ok oper" using write_step.prems(4) by simp
  from tm_writeOperation_Inr [OF IH(2) ok] write_step.hyps(2) IH(1) y2 obtain opss2 where
    "tm_inv d2 m2 opss2" "concat opss2 = concat opss @ [oper]" by blast
  moreover have "tm_mainLog m2"
    using tm_writeOperation_main write_step.hyps(2) IH(1,3) y2 by blast
  ultimately show ?case using IH(4,5) y2
    by (intro exI [of _ d2] exI [of _ m2] exI [of _ s1] exI [of _ opss2] exI [of _ applied]) simp
next
  case (flush_step ops z s1 y2 s2)
  then obtain d1 m1 opss applied where IH: "z = (d1, m1)" "tm_inv d1 m1 opss" "tm_mainLog m1"
      "ops = applied @ concat opss" "perform_all perform applied s = Inr s1"
    by auto
  show ?case
  proof (cases "length opss \<le> 1")
    case True
    then show ?thesis using tm_flushBuffer_spec [OF IH(2,3), of perform s1] flush_step.hyps(2) IH by auto
  next
    case False
    with tm_flushBuffer_spec [OF IH(2,3), of perform s1] obtain m2 where m2:
      "tm_inv d1 m2 (tl opss)" "tm_mainLog m2" "tm_flushBuffer perform (d1, m1) s1 =
        bindR (perform_all perform (hd opss) s1) (\<lambda>s. Inr ((d1, m2), s))"
      by auto
    moreover have "y2 = (d1, m2)" "perform_all perform (hd opss) s1 = Inr s2"
      using m2(3) flush_step.hyps(2) IH(1) by (auto simp: bindR_Inr_iff)
    moreover have "concat opss = hd opss @ concat (tl opss)" using False by (cases opss) auto
    ultimately show ?thesis using IH(4,5)
      by (intro exI [of _ d1] exI [of _ m2] exI [of _ s2] exI [of _ "tl opss"]
          exI [of _ "applied @ hd opss"]) (simp add: perform_all_append)
  qed
qed

lemma tm_create_inv: "0 < n \<Longrightarrow> tm_inv d (tm_create file main n) []"
  by (simp add: tm_inv_def tm_regions_def tm_buffers_def tm_create_def)

end
