(* ===== verification/Tx_Handover.thy ===== *)
theory Tx_Handover
  imports Tx_Manager
begin

text \<open>
  The hand-over of buffers from the log of a transaction to the main log (popAll, addBuffers) and
  what the main log then does with them: every flush performs the operations of one buffer, and
  the log file of the transaction is removed with the last buffer that refers to it.
\<close>

section \<open>The content of a log\<close>

definition tm_shows :: "disk \<Rightarrow> txmanager \<Rightarrow> tx_operation list list \<Rightarrow> bool" where
  "tm_shows d m opss \<longleftrightarrow> list_all2 (tb_holds d) (tm_active m) opss \<and>
     tm_buffersCount m = length (tm_active m)"

lemma tm_inv_shows: "tm_inv d m opss \<Longrightarrow> tm_shows d m opss"
  by (simp add: tm_inv_def tm_shows_def tm_regions_def)

lemma tm_shows_length: "tm_shows d m opss \<Longrightarrow> tm_buffersCount m = length opss"
  by (auto simp: tm_shows_def dest: list_all2_lengthD)

lemma tm_findOperations_shows:
  assumes "tm_shows d m opss"
  shows "tm_findOperations db ns (d, m) =
      Inr (filter (\<lambda>oper. wanted db ns (op_db oper) (op_ns oper)) (concat opss), tm_rewound m)"
    and "tm_shows d (tm_rewound m) opss"
  using assms tm_findOperations_holds [of d m opss]
  by (simp_all add: tm_shows_def) (simp add: tm_rewound_def)

lemma tm_popN_shows:
  "tm_shows d m opss \<Longrightarrow> \<exists>m2. tm_popN (length opss) m = Inr (tm_active m, m2) \<and> tm_active m2 = [] \<and>
     tm_buffersCount m2 = 0 \<and> tm_reusable m2 = tm_reusable m \<and> tm_logFile m2 = tm_logFile m \<and>
     tm_mainLog m2 = tm_mainLog m \<and> tm_buffersSize m2 = tm_buffersSize m"
proof (induction opss arbitrary: m)
  case Nil
  then show ?case by (simp add: tm_shows_def)
next
  case (Cons ops opss)
  then obtain b bs where bs: "tm_active m = b # bs" "list_all2 (tb_holds d) bs opss"
    by (auto simp: tm_shows_def list_all2_Cons2)
  define m1 where "m1 = m\<lparr>tm_active := bs, tm_byLog := (case map_find (tm_byLog m) (tb_file b) of
      Some n \<Rightarrow> map_put (tb_file b) (n - 1) (tm_byLog m) | None \<Rightarrow> tm_byLog m),
    tm_buffersCount := tm_buffersCount m - 1\<rparr>"
  have m1: "tm_pop m = Inr (b, m1)" "tm_active m1 = bs" "tm_buffersCount m1 = length bs"
      "tm_reusable m1 = tm_reusable m" "tm_logFile m1 = tm_logFile m" "tm_mainLog m1 = tm_mainLog m"
      "tm_buffersSize m1 = tm_buffersSize m"
    using bs(1) Cons.prems by (simp_all add: tm_pop_def tm_shows_def m1_def)
  then have "tm_shows d m1 opss" using bs(2) by (simp add: tm_shows_def)
  from Cons.IH [OF this] m1 bs(1) show ?case by auto
qed

lemma tm_popAll_shows:
  "tm_shows d m opss \<Longrightarrow> \<exists>m2. tm_popAll m = Inr (tm_active m, m2) \<and> tm_active m2 = [] \<and>
     tm_buffersCount m2 = 0 \<and> tm_reusable m2 = tm_reusable m \<and> tm_logFile m2 = tm_logFile m \<and>
     tm_mainLog m2 = tm_mainLog m \<and> tm_buffersSize m2 = tm_buffersSize m"
  using tm_popN_shows [of d m opss] tm_shows_length [of d m opss] by (simp add: tm_popAll_def)

lemma tm_addEach_shows:
  "tm_shows d m opss \<Longrightarrow> list_all2 (tb_holds d) bs opss' \<Longrightarrow> tm_shows d (tm_addEach m bs) (opss @ opss')"
proof (induction m bs arbitrary: opss opss' rule: tm_addEach.induct)
  case (1 m)
  then show ?case by simp
next
  case (2 m b bs)
  obtain ops os where os: "opss' = ops # os" "tb_holds d b ops" "list_all2 (tb_holds d) bs os"
    using 2(3) by (auto simp: list_all2_Cons1)
  let ?r = "tm_register (m\<lparr>tm_buffersCount := tm_buffersCount m + 1\<rparr>) b True"
  have "tb_holds d (snd ?r) ops" using os(2) tb_holds_cong [of "snd ?r" b d ops] by simp
  then have "tm_shows d ((fst ?r)\<lparr>tm_active := tm_active m @ [snd ?r]\<rparr>) (opss @ [ops])"
    using 2(2) by (simp add: tm_shows_def list_all2_appendI)
  with 2(1) [of ?r "fst ?r" "snd ?r" "opss @ [ops]" os] os show ?case
    by (simp add: case_prod_beta Let_def)
qed

lemma tm_getBuffer_forced:
  "tm_shows d m opss \<Longrightarrow> tm_shows d (tm_getBuffer m n True) (opss @ [[]])"
  by (auto simp: tm_getBuffer_def tm_shows_def Let_def case_prod_beta list_all2_appendI tb_holds_empty
      tm_createNewBuffer_def tb_seek_def split: list.splits)

lemma tm_addBuffers_shows:
  "tm_shows d m opss \<Longrightarrow> list_all2 (tb_holds d) bs opss' \<Longrightarrow>
   tm_shows d (tm_addBuffers m bs) (opss @ opss' @ [[]])"
  using tm_getBuffer_forced [OF tm_addEach_shows] by (simp add: tm_addBuffers_def)

section \<open>The references to log files\<close>

definition file_refs :: "string \<Rightarrow> txbuffer list \<Rightarrow> nat" where
  "file_refs f bs = length (filter (\<lambda>b. tb_file b = f) bs)"

text \<open>The manager counts the active buffers of every log file but its own.\<close>

definition tm_counted :: "txmanager \<Rightarrow> bool" where
  "tm_counted m \<longleftrightarrow> map_sorted (tm_byLog m) \<and>
     (\<forall>b\<in>set (tm_buffers m). tb_mainLog b = (tb_file b = tm_logFile m)) \<and>
     (\<forall>b\<in>set (tm_reusable m). tb_mainLog b) \<and> tm_mainLog m \<and>
     (\<forall>f. f \<noteq> tm_logFile m \<longrightarrow> map_find (tm_byLog m) f =
        (if file_refs f (tm_active m) = 0 then None else Some (int (file_refs f (tm_active m)))))"

lemma file_refs_simps [simp]:
  "file_refs f [] = 0"
  "file_refs f (b # bs) = (if tb_file b = f then Suc (file_refs f bs) else file_refs f bs)"
  "file_refs f (bs @ cs) = file_refs f bs + file_refs f cs"
  by (simp_all add: file_refs_def)

lemma map_find_count_log:
  "map_sorted m \<Longrightarrow> map_find (count_log g m) f =
     (if f = g then Some (case map_find m g of None \<Rightarrow> 1 | Some n \<Rightarrow> n + 1) else map_find m f)"
  by (simp add: count_log_def map_find_insert split: option.split)

lemma map_sorted_count_log [simp]: "map_sorted m \<Longrightarrow> map_sorted (count_log g m)"
  by (simp add: count_log_def map_sorted_insert split: option.split)

lemma tm_register_byLog [simp]:
  "tm_byLog (fst (tm_register m b new)) = count_log (tb_file b) (tm_byLog m)"
  by (simp add: tm_register_def Let_def tb_reset_def tb_seek_def)

text \<open>Registering a buffer that becomes active keeps the counts.\<close>

lemma tm_counted_add:
  assumes "tm_counted m" "tb_mainLog b = (tb_file b = tm_logFile m)"
    and "tm_active m2 = tm_active m @ [b]" "set (tm_reusable m2) \<subseteq> set (tm_reusable m)"
      "tm_byLog m2 = count_log (tb_file b) (tm_byLog m)" "tm_logFile m2 = tm_logFile m" "tm_mainLog m2"
  shows "tm_counted m2"
  using assms by (auto simp: tm_counted_def tm_buffers_def map_find_count_log)

lemma tm_counted_addEach:
  "tm_counted m \<Longrightarrow> \<forall>b\<in>set bs. \<not> tb_mainLog b \<and> tb_file b \<noteq> tm_logFile m \<Longrightarrow>
   tm_counted (tm_addEach m bs)"
proof (induction m bs rule: tm_addEach.induct)
  case (2 m b bs)
  let ?r = "tm_register (m\<lparr>tm_buffersCount := tm_buffersCount m + 1\<rparr>) b True"
  let ?m = "(fst ?r)\<lparr>tm_active := tm_active m @ [snd ?r]\<rparr>"
  have "tm_mainLog m" using 2(2) by (simp add: tm_counted_def)
  then have "tm_counted ?m"
    using 2(3) by (intro tm_counted_add [OF 2(2), of "snd ?r"]) simp_all
  with 2(1) [of ?r "fst ?r" "snd ?r"] 2(3) show ?case by (simp add: case_prod_beta Let_def)
qed simp

lemma tm_counted_getBuffer:
  assumes "tm_counted m" shows "tm_counted (tm_getBuffer m n True)"
proof (cases "tm_reusable m")
  case Nil
  let ?r = "tm_register (m\<lparr>tm_reusable := [], tm_buffersCount := tm_buffersCount m + 1\<rparr>)
    (tb_seek 0 (tm_createNewBuffer m)) True"
  have "tm_getBuffer m n True = (fst ?r)\<lparr>tm_active := tm_active m @ [snd ?r]\<rparr>"
    using Nil by (simp add: tm_getBuffer_def Let_def case_prod_beta)
  moreover have "tm_mainLog m" using assms by (simp add: tm_counted_def)
  ultimately show ?thesis using Nil
    by (intro tm_counted_add [OF assms, of "snd ?r"]) (simp_all add: tm_createNewBuffer_def tb_seek_def)
next
  case (Cons c cs)
  let ?r = "tm_register (m\<lparr>tm_reusable := cs, tm_buffersCount := tm_buffersCount m + 1\<rparr>)
    (tb_seek 0 (tb_reset c)) False"
  have "tm_getBuffer m n True = (fst ?r)\<lparr>tm_active := tm_active m @ [snd ?r]\<rparr>"
    using Cons by (simp add: tm_getBuffer_def Let_def case_prod_beta)
  moreover have "tm_mainLog m" "tb_mainLog c = (tb_file c = tm_logFile m)"
    using assms Cons by (simp_all add: tm_counted_def tm_buffers_def)
  ultimately show ?thesis using Cons
    by (intro tm_counted_add [OF assms, of "snd ?r"]) (auto simp: tb_reset_def tb_seek_def)
qed

lemma tm_addEach_logFile [simp]: "tm_logFile (tm_addEach m bs) = tm_logFile m"
  by (induction bs arbitrary: m) (simp_all add: case_prod_beta Let_def)

lemma tm_counted_addBuffers:
  "tm_counted m \<Longrightarrow> \<forall>b\<in>set bs. \<not> tb_mainLog b \<and> tb_file b \<noteq> tm_logFile m \<Longrightarrow>
   tm_counted (tm_addBuffers m bs)"
  by (simp add: tm_addBuffers_def tm_counted_addEach tm_counted_getBuffer)

lemma tm_counted_create: "tm_counted (tm_create file True n)"
  by (simp add: tm_counted_def tm_create_def tm_buffers_def)

section \<open>Flushing shared buffers\<close>

lemma file_refs_0: "file_refs f bs = 0 \<longleftrightarrow> (\<forall>b\<in>set bs. tb_file b \<noteq> f)"
  by (induction bs) auto

lemma tm_shows_remove:
  "tm_shows d m opss \<Longrightarrow> file_refs f (tm_active m) = 0 \<Longrightarrow> tm_shows (disk_remove d f) m opss"
proof -
  assume m: "tm_shows d m opss" "file_refs f (tm_active m) = 0"
  have "tb_holds (disk_remove d f) b ops" if "b \<in> set (tm_active m)" "tb_holds d b ops" for b ops
  proof -
    have "tb_view (disk_remove d f) b = tb_view d b"
      using m(2) that(1) by (simp add: file_refs_0 tb_view_def disk_remove_def)
    with that(2) show ?thesis unfolding tb_holds_def by metis
  qed
  with m(1) show ?thesis by (auto simp: tm_shows_def list_all2_conv_all_nth)
qed

text \<open>
  A flush performs the oldest buffer; the disk changes only when that was the last buffer of the
  log file of a transaction.
\<close>

lemma tm_flushBuffer_shared:
  assumes m: "tm_shows d m (ops # opss)" "opss \<noteq> []" "tm_counted m"
  shows "\<exists>d2 m2. (\<forall>s. tm_flushBuffer perform (d, m) s =
      bindR (perform_all perform ops s) (\<lambda>s. Inr ((d2, m2), s))) \<and>
    tm_shows d2 m2 opss \<and> tm_counted m2 \<and> tm_active m2 = tl (tm_active m) \<and>
    tm_logFile m2 = tm_logFile m \<and> tm_buffersSize m2 = tm_buffersSize m \<and>
    map tb_start (tm_reusable m2) = map tb_start (tm_reusable m) @
      (if tb_file (hd (tm_active m)) = tm_logFile m then [tb_start (hd (tm_active m))] else []) \<and>
    d2 = (let f = tb_file (hd (tm_active m)) in
          if f \<noteq> tm_logFile m \<and> file_refs f (tl (tm_active m)) = 0 then disk_remove d f else d)"
proof -
  obtain b bs where bs: "tm_active m = b # bs" "tb_holds d b ops" "list_all2 (tb_holds d) bs opss"
    using m(1) by (auto simp: tm_shows_def list_all2_Cons2)
  have bcount: "tm_buffersCount m > 1" using tm_shows_length [OF m(1)] m(2) by simp
  from flush_loop_holds [OF bs(2), of perform] obtain b2 where b2:
    "\<And>s. flush_loop perform (Suc (Suc (tb_len b))) d (tb_seek 0 (tb_acquireLock b)) s =
      bindR (perform_all perform ops s) (\<lambda>s. Inr (b2, s))"
    "tb_file b2 = tb_file b" "tb_mainLog b2 = tb_mainLog b" "tb_start b2 = tb_start b"
    by blast
  define m1 where "m1 = m\<lparr>tm_active := bs, tm_byLog := (case map_find (tm_byLog m) (tb_file b) of
      Some n \<Rightarrow> map_put (tb_file b) (n - 1) (tm_byLog m) | None \<Rightarrow> tm_byLog m),
    tm_buffersCount := tm_buffersCount m - 1\<rparr>"
  have pop: "tm_pop m = Inr (b, m1)" using bs(1) by (simp add: tm_pop_def m1_def)
  have shows1: "tm_shows d m1 opss"
    using m(1) bs by (simp add: tm_shows_def m1_def)
  have m1: "tm_active m1 = bs" "tm_reusable m1 = tm_reusable m" "tm_logFile m1 = tm_logFile m"
      "tm_mainLog m1 = tm_mainLog m" "tm_buffersSize m1 = tm_buffersSize m"
    by (simp_all add: m1_def)
  have others: "map_find (tm_byLog m1) g = map_find (tm_byLog m) g" if "g \<noteq> tb_file b" for g
    using that m(3) by (simp add: m1_def tm_counted_def split: option.split)
  have mainb: "tb_mainLog b = (tb_file b = tm_logFile m)"
    using m(3) bs(1) by (simp add: tm_counted_def tm_buffers_def)
  have byLog: "map_sorted (tm_byLog m1)" using m(3) by (simp add: m1_def tm_counted_def split: option.split)
  show ?thesis
  proof (cases "tb_mainLog b")
    case True
    let ?r = "tm_register m1 (tb_reset b2) False"
    let ?m2 = "(fst ?r)\<lparr>tm_reusable := tm_reusable (fst ?r) @ [snd ?r]\<rparr>"
    have "tm_flushBuffer perform (d, m) s = bindR (perform_all perform ops s) (\<lambda>s. Inr ((d, ?m2), s))" for s
      using True bcount pop b2
      by (simp add: tm_flushBuffer_def bindR_assoc Let_def case_prod_beta del: flush_loop.simps)
    moreover have "tm_shows d ?m2 opss" using shows1 by (simp add: tm_shows_def)
    moreover have "tm_counted ?m2"
      using m(3) bs(1) b2(2,3) True mainb byLog others
      by (auto simp: tm_counted_def tm_buffers_def map_find_count_log m1 tb_reset_def tb_seek_def)
    moreover have "tm_active ?m2 = tl (tm_active m)" "tm_logFile ?m2 = tm_logFile m"
        "tm_buffersSize ?m2 = tm_buffersSize m"
        "map tb_start (tm_reusable ?m2) = map tb_start (tm_reusable m) @ [tb_start b]"
      using bs(1) b2(4) by (simp_all add: m1 tb_reset_def tb_seek_def)
    ultimately show ?thesis using True mainb bs(1)
      by (intro exI [of _ d] exI [of _ ?m2]) (simp add: Let_def)
  next
    case False
    define m2 where "m2 = (if file_refs (tb_file b) bs = 0
        then m1\<lparr>tm_byLog := map_erase (tb_file b) (tm_byLog m1)\<rparr> else m1)"
    define d2 where "d2 = (if file_refs (tb_file b) bs = 0 then disk_remove d (tb_file b) else d)"
    have f: "tb_file b \<noteq> tm_logFile m" using False mainb by simp
    have find: "map_find (tm_byLog m1) (tb_file b) = Some (int (file_refs (tb_file b) bs))"
      using m(3) bs(1) f by (simp add: tm_counted_def m1_def)
    have "tm_dropBuffer (d, m1) b2 = (d2, m2)"
      using False b2(2,3) find by (simp add: tm_dropBuffer_def m2_def d2_def)
    then have "tm_flushBuffer perform (d, m) s = bindR (perform_all perform ops s) (\<lambda>s. Inr ((d2, m2), s))" for s
      using False bcount pop b2
      by (simp add: tm_flushBuffer_def bindR_assoc del: flush_loop.simps)
    moreover have "tm_shows d2 m1 opss"
      using shows1 tm_shows_remove [OF shows1, of "tb_file b"] by (simp add: d2_def m1)
    then have "tm_shows d2 m2 opss" by (simp add: tm_shows_def m2_def)
    moreover have m2: "tm_active m2 = bs" "tm_logFile m2 = tm_logFile m" "tm_reusable m2 = tm_reusable m"
        "tm_mainLog m2 = tm_mainLog m" "map_sorted (tm_byLog m2)" "tm_buffersSize m2 = tm_buffersSize m"
      using byLog by (simp_all add: m2_def m1 map_sorted_erase)
    moreover have "tm_counted m2"
    proof -
      have "map_find (tm_byLog m2) g = (if file_refs g bs = 0 then None else Some (int (file_refs g bs)))"
        if "g \<noteq> tm_logFile m" for g
        using that m(3) bs(1) find others [of g]
        by (cases "g = tb_file b") (simp_all add: m2_def map_find_erase tm_counted_def)
      then show ?thesis using m(3) bs(1) m2 by (auto simp: tm_counted_def tm_buffers_def)
    qed
    ultimately show ?thesis using bs(1) f
      by (intro exI [of _ d2] exI [of _ m2]) (simp add: d2_def Let_def)
  qed
qed

text \<open>The monitor thread, one round after the other.\<close>

primrec tm_flushes ::
    "(tx_operation \<Rightarrow> 's \<Rightarrow> 's res) \<Rightarrow> nat \<Rightarrow> disk \<times> txmanager \<Rightarrow> 's \<Rightarrow> ((disk \<times> txmanager) \<times> 's) res" where
  "tm_flushes perform 0 x s = Inr (x, s)"
| "tm_flushes perform (Suc n) x s =
     bindR (tm_flushBuffer perform x s) (\<lambda>(x, s). tm_flushes perform n x s)"

lemma tm_flushBuffer_one:
  "tm_shows d m [ops] \<Longrightarrow> tm_flushBuffer perform (d, m) s = Inr ((d, m), s)"
  using tm_shows_length [of d m "[ops]"] by (simp add: tm_flushBuffer_def)

lemma tm_flushes_one: "tm_shows d m [ops] \<Longrightarrow> tm_flushes perform n (d, m) s = Inr ((d, m), s)"
  by (induction n) (simp_all add: tm_flushBuffer_one)

lemma tm_flushes_shared:
  "tm_shows d m (opss @ [ops]) \<Longrightarrow> tm_counted m \<Longrightarrow> length opss \<le> n \<Longrightarrow>
   \<exists>d2 m2. (\<forall>s. tm_flushes perform n (d, m) s =
       bindR (perform_all perform (concat opss) s) (\<lambda>s. Inr ((d2, m2), s))) \<and>
     tm_shows d2 m2 [ops] \<and> tm_counted m2"
proof (induction opss arbitrary: d m n)
  case Nil
  then show ?case using tm_flushes_one [of d m ops perform n] by auto
next
  case (Cons o1 opss)
  obtain n' where n: "n = Suc n'" "length opss \<le> n'" using Cons.prems(3) by (cases n) auto
  have "opss @ [ops] \<noteq> []" by simp
  from tm_flushBuffer_shared [OF _ this Cons.prems(2), of d o1 perform] Cons.prems(1) obtain d1 m1 where d1:
    "\<And>s. tm_flushBuffer perform (d, m) s = bindR (perform_all perform o1 s) (\<lambda>s. Inr ((d1, m1), s))"
    "tm_shows d1 m1 (opss @ [ops])" "tm_counted m1"
    by auto
  from Cons.IH [OF d1(2,3) n(2)] obtain d2 m2 where d2:
    "\<And>s. tm_flushes perform n' (d1, m1) s =
       bindR (perform_all perform (concat opss) s) (\<lambda>s. Inr ((d2, m2), s))"
    "tm_shows d2 m2 [ops]" "tm_counted m2"
    by blast
  have "tm_flushes perform n (d, m) s =
      bindR (perform_all perform (concat (o1 # opss)) s) (\<lambda>s. Inr ((d2, m2), s))" for s
    using n(1) d1(1) d2(1) by (simp add: perform_all_append bindR_assoc)
  with d2(2,3) show ?case by blast
qed

section \<open>Writes one after the other\<close>

primrec tm_writes :: "disk \<times> txmanager \<Rightarrow> tx_operation list \<Rightarrow> (disk \<times> txmanager) res" where
  "tm_writes x [] = Inr x"
| "tm_writes x (oper # ops) = bindR (tm_writeOperation x oper) (\<lambda>x. tm_writes x ops)"

text \<open>Writes of a log leave the regions of other log files alone.\<close>

lemma tm_writeOperation_frame:
  assumes "tm_inv d m opss" "tm_writeOperation (d, m) oper = Inr (d2, m2)" "operation_ok oper"
  shows "tm_logFile m2 = tm_logFile m" "tb_file c \<noteq> tm_logFile m \<Longrightarrow> tb_view d2 c = tb_view d c"
proof -
  let ?n = "length (record_bytes oper) + 8"
  have lf: "tm_logFile (tm_getBuffer m ?n False) = tm_logFile m"
    by (simp add: tm_getBuffer_def Let_def case_prod_beta split: list.splits)
  from tm_getBuffer_inv [OF assms(1), of ?n False] obtain bs b os where b:
    "tm_active (tm_getBuffer m ?n False) = bs @ [b]" "tm_inv d (tm_getBuffer m ?n False) os"
    by blast
  have "tb_file b = tm_logFile m" using b lf by (auto simp: tm_inv_def tm_regions_def tm_buffers_def)
  moreover have "encode_operation oper = Inr (record_bytes oper)"
    using assms(3) by (simp add: operation_ok_def encode_operation_ok)
  ultimately show "tm_logFile m2 = tm_logFile m" "tb_file c \<noteq> tm_logFile m \<Longrightarrow> tb_view d2 c = tb_view d c"
    using assms(2) b(1) lf
    by (auto simp: tm_writeOperation_def Let_def bindR_Inr_iff tb_writeLong_def tb_writeChars_def tb_put_def
        tb_acquireLock_def disk_write_def tb_view_def split: if_splits)
qed

lemma tm_writes_spec:
  "tm_inv d m opss \<Longrightarrow> \<forall>oper\<in>set ops. operation_ok oper \<Longrightarrow> tm_writes (d, m) ops = Inr (d2, m2) \<Longrightarrow>
   \<exists>opss2. tm_inv d2 m2 opss2 \<and> concat opss2 = concat opss @ ops \<and> tm_logFile m2 = tm_logFile m \<and>
     (\<forall>c. tb_file c \<noteq> tm_logFile m \<longrightarrow> tb_view d2 c = tb_view d c)"
proof (induction ops arbitrary: d m opss)
  case Nil
  then show ?case by auto
next
  case (Cons oper ops)
  then obtain d1 m1 where w: "tm_writeOperation (d, m) oper = Inr (d1, m1)" "tm_writes (d1, m1) ops = Inr (d2, m2)"
    by (auto simp: bindR_Inr_iff)
  have ok: "operation_ok oper" using Cons.prems(2) by simp
  from tm_writeOperation_Inr [OF Cons.prems(1) ok w(1)] obtain opss1 where
    o1: "tm_inv d1 m1 opss1" "concat opss1 = concat opss @ [oper]" by blast
  note frame = tm_writeOperation_frame [OF Cons.prems(1) w(1) ok]
  from Cons.IH [OF o1(1) _ w(2)] Cons.prems(2) obtain opss2 where "tm_inv d2 m2 opss2"
    "concat opss2 = concat opss1 @ ops" "tm_logFile m2 = tm_logFile m1"
    "\<forall>c. tb_file c \<noteq> tm_logFile m1 \<longrightarrow> tb_view d2 c = tb_view d1 c" by auto
  with frame o1(2) show ?case by (intro exI [of _ opss2]) auto
qed

lemma tm_shows_frame:
  assumes "tm_shows d m opss" "\<forall>b\<in>set (tm_active m). tb_view d2 b = tb_view d b"
  shows "tm_shows d2 m opss"
proof -
  have "tb_holds d2 b ops" if "b \<in> set (tm_active m)" "tb_holds d b ops" for b ops
    using that assms(2) unfolding tb_holds_def by metis
  with assms(1) show ?thesis by (auto simp: tm_shows_def list_all2_conv_all_nth)
qed

section \<open>Commit and rollback of a log\<close>

text \<open>StdTransaction::commit and rollback; the control file of the transaction is dropped after either.\<close>

definition log_commit :: "txmanager \<Rightarrow> txmanager \<Rightarrow> (txmanager \<times> txmanager) res" where
  "log_commit base t =
     bindR (tm_popAll t) (\<lambda>(buffers, t). Inr (tm_addBuffers base buffers, t))"

definition log_rollback :: "disk \<times> txmanager \<Rightarrow> (disk \<times> txmanager) res" where
  "log_rollback = tm_dropAllBuffers"

lemma log_commit_spec:
  assumes base: "tm_shows d base opss" "tm_counted base"
    and t: "tm_inv d t topss" "\<not> tm_mainLog t" "tm_logFile t \<noteq> tm_logFile base"
  shows "\<exists>base2 t2. log_commit base t = Inr (base2, t2) \<and> tm_shows d base2 (opss @ topss @ [[]]) \<and>
    tm_counted base2 \<and> tm_active t2 = [] \<and> tm_buffersCount t2 = 0"
proof -
  from tm_popAll_shows [OF tm_inv_shows [OF t(1)]] obtain t2 where t2:
    "tm_popAll t = Inr (tm_active t, t2)" "tm_active t2 = []" "tm_buffersCount t2 = 0" by blast
  have "list_all2 (tb_holds d) (tm_active t) topss" using t(1) by (simp add: tm_inv_def)
  from tm_addBuffers_shows [OF base(1) this] have "tm_shows d (tm_addBuffers base (tm_active t)) (opss @ topss @ [[]])" .
  moreover have "\<forall>b\<in>set (tm_active t). \<not> tb_mainLog b \<and> tb_file b \<noteq> tm_logFile base"
    using t by (auto simp: tm_inv_def tm_regions_def tm_buffers_def)
  then have "tm_counted (tm_addBuffers base (tm_active t))" by (rule tm_counted_addBuffers [OF base(2)])
  ultimately show ?thesis using t2 by (simp add: log_commit_def)
qed

lemma tm_dropBuffer_other:
  "f \<noteq> tb_file b \<Longrightarrow> fst (tm_dropBuffer (d, m) b) f = d f"
  by (simp add: tm_dropBuffer_def disk_remove_def split: option.split)

lemma tm_dropBuffers_other:
  "\<forall>b\<in>set bs. tb_file b \<noteq> f \<Longrightarrow> fst (foldl tm_dropBuffer (d, m) bs) f = d f"
proof (induction bs arbitrary: d m)
  case (Cons b bs)
  obtain d1 m1 where 1: "tm_dropBuffer (d, m) b = (d1, m1)" by fastforce
  then have "d1 f = d f" using tm_dropBuffer_other [of f b d m] Cons.prems by auto
  with Cons 1 show ?case by simp
qed simp

lemma tm_dropBuffer_fields:
  "tm_active (snd (tm_dropBuffer x b)) = tm_active (snd x)"
  "tm_reusable (snd (tm_dropBuffer x b)) = tm_reusable (snd x)"
  "tm_buffersCount (snd (tm_dropBuffer x b)) = tm_buffersCount (snd x)"
  "tm_buffersSize (snd (tm_dropBuffer x b)) = tm_buffersSize (snd x)"
  "tm_logFile (snd (tm_dropBuffer x b)) = tm_logFile (snd x)"
  "tm_mainLog (snd (tm_dropBuffer x b)) = tm_mainLog (snd x)"
  by (simp_all add: tm_dropBuffer_def case_prod_beta split: option.split)

lemma tm_dropBuffers_fields:
  "tm_active (snd (foldl tm_dropBuffer x bs)) = tm_active (snd x)"
  "tm_reusable (snd (foldl tm_dropBuffer x bs)) = tm_reusable (snd x)"
  "tm_buffersCount (snd (foldl tm_dropBuffer x bs)) = tm_buffersCount (snd x)"
  "tm_buffersSize (snd (foldl tm_dropBuffer x bs)) = tm_buffersSize (snd x)"
  "tm_logFile (snd (foldl tm_dropBuffer x bs)) = tm_logFile (snd x)"
  "tm_mainLog (snd (foldl tm_dropBuffer x bs)) = tm_mainLog (snd x)"
  by (induction bs arbitrary: x) (simp_all add: tm_dropBuffer_fields)

text \<open>After a rollback the log is empty, and only its own file may have changed.\<close>

lemma log_rollback_spec:
  assumes t: "tm_inv d t topss" "tm_reusable t = []"
  shows "\<exists>d2 t2. log_rollback (d, t) = Inr (d2, t2) \<and> tm_inv d2 t2 [] \<and> tm_reusable t2 = [] \<and>
    tm_logFile t2 = tm_logFile t \<and> tm_mainLog t2 = tm_mainLog t \<and> (\<forall>f. f \<noteq> tm_logFile t \<longrightarrow> d2 f = d f)"
proof -
  from tm_popAll_shows [OF tm_inv_shows [OF t(1)]] t(2) obtain t2 where t2:
    "tm_popAll t = Inr (tm_active t, t2)" "tm_active t2 = []" "tm_buffersCount t2 = 0" "tm_reusable t2 = []"
    "tm_logFile t2 = tm_logFile t" "tm_mainLog t2 = tm_mainLog t" "tm_buffersSize t2 = tm_buffersSize t"
    by auto
  let ?r = "foldl tm_dropBuffer (d, t2) (tm_active t)"
  have "\<forall>b\<in>set (tm_active t). tb_file b = tm_logFile t" "0 < tm_buffersSize t"
    using t by (auto simp: tm_inv_def tm_regions_def tm_buffers_def)
  then have "fst ?r f = d f" if "f \<noteq> tm_logFile t" for f
    using that by (intro tm_dropBuffers_other) auto
  moreover have "log_rollback (d, t) = Inr (fst ?r, snd ?r)"
    using t2(1) by (simp add: log_rollback_def tm_dropAllBuffers_def)
  moreover have "tm_inv (fst ?r) (snd ?r) []"
    using t2 \<open>0 < tm_buffersSize t\<close>
    by (simp add: tm_inv_def tm_regions_def tm_buffers_def tm_dropBuffers_fields)
  ultimately show ?thesis using t2
    by (intro exI [of _ "fst ?r"] exI [of _ "snd ?r"]) (simp add: tm_dropBuffers_fields)
qed

section \<open>A commit upsets the regions\<close>

text \<open>
  The offset of a new buffer is the number of active buffers times their size. A buffer of another
  log that is active for a while moves the next main buffer past a gap; when it is gone, the
  counter comes back to the offset of a buffer in use.
\<close>

lemma tm_getBuffer_start:
  assumes "tm_full m n force"
  shows "\<exists>b. tm_active (tm_getBuffer m n force) = tm_active m @ [b] \<and>
    tb_start b = (case tm_reusable m of [] \<Rightarrow> tm_buffersCount m * tm_buffersSize m | c # cs \<Rightarrow> tb_start c) \<and>
    tm_reusable (tm_getBuffer m n force) = tl (tm_reusable m) \<and>
    tm_buffersCount (tm_getBuffer m n force) = tm_buffersCount m + 1 \<and>
    tm_buffersSize (tm_getBuffer m n force) = tm_buffersSize m"
  using assms
  by (auto simp: tm_getBuffer_def tm_full_def Let_def case_prod_beta tm_createNewBuffer_def tb_seek_def
      tb_reset_def split: list.splits)

lemma tm_full_forced [simp]: "tm_full m n True"
  by (simp add: tm_full_def)

lemma tm_register_start [simp]: "tb_start (snd (tm_register m b new)) = tb_start b"
  by (simp add: tm_register_def Let_def tb_reset_def tb_seek_def)

lemma commit_regions:
  assumes m: "tm_inv d m [ops]" "tm_counted m" "tm_reusable m = []"
    and t: "tm_inv d t [tops]" "\<not> tm_mainLog t" "tm_logFile t \<noteq> tm_logFile m"
    and run: "log_commit m t = Inr (m1, t1)" "tm_flushes perform 2 (d, m1) s = Inr ((d2, m2), s2)"
      "log_commit m2 t1 = Inr (m3, t2)" "log_commit m3 t2 = Inr (m4, t3)"
  shows "map tb_start (tm_active m4) = [2 * tm_buffersSize m, 0, 2 * tm_buffersSize m]"
proof -
  let ?s = "tm_buffersSize m"
  obtain b where b: "tm_active m = [b]"
    using m(1) by (auto simp: tm_inv_def list_all2_Cons2)
  have b0: "tb_start b = 0" "tb_file b = tm_logFile m" "tm_buffersCount m = 1"
    using m(1,3) b by (auto simp: tm_inv_def tm_regions_def tm_buffers_def)
  obtain c where c: "tm_active t = [c]"
    using t(1) by (auto simp: tm_inv_def list_all2_Cons2)
  have cf: "tb_file c \<noteq> tm_logFile m"
    using t(1,3) c by (simp add: tm_inv_def tm_regions_def tm_buffers_def)
  from tm_popAll_shows [OF tm_inv_shows [OF t(1)]] run(1) c have
    m1: "m1 = tm_addBuffers m [c]" and t1: "tm_active t1 = []" "tm_buffersCount t1 = 0"
    by (auto simp: log_commit_def)
  let ?r = "tm_register (m\<lparr>tm_buffersCount := tm_buffersCount m + 1\<rparr>) c True"
  let ?m = "(fst ?r)\<lparr>tm_active := tm_active m @ [snd ?r]\<rparr>"
  have "m1 = tm_getBuffer ?m 0 True" by (simp add: m1 tm_addBuffers_def case_prod_beta Let_def)
  then obtain e where e: "tm_active m1 = [b, snd ?r, e]" "tb_start e = 2 * ?s" "tm_reusable m1 = []"
      "tm_buffersSize m1 = ?s"
    using tm_getBuffer_start [of ?m 0 True] m(3) b b0(3) by auto
  have shows1: "tm_shows d m1 [ops, tops, []]" and counted1: "tm_counted m1" and file1: "tm_logFile m1 = tm_logFile m"
  proof -
    show "tm_shows d m1 [ops, tops, []]" "tm_counted m1"
      using log_commit_spec [OF tm_inv_shows [OF m(1)] m(2) t] run(1) by auto
    show "tm_logFile m1 = tm_logFile m"
      using \<open>m1 = tm_getBuffer ?m 0 True\<close>
      by (simp add: tm_getBuffer_def Let_def case_prod_beta split: list.splits)
  qed
  from tm_flushBuffer_shared [OF shows1 _ counted1, of perform] e b0 file1 obtain d3 n1 where n1:
    "\<And>s. tm_flushBuffer perform (d, m1) s = bindR (perform_all perform ops s) (\<lambda>s. Inr ((d3, n1), s))"
    "tm_shows d3 n1 [tops, []]" "tm_counted n1" "tm_active n1 = [snd ?r, e]" "tm_logFile n1 = tm_logFile m"
    "tm_buffersSize n1 = ?s" "map tb_start (tm_reusable n1) = [0]"
    by auto
  from tm_flushBuffer_shared [OF n1(2) _ n1(3), of perform] n1(4-7) cf obtain d4 n2 where n2:
    "\<And>s. tm_flushBuffer perform (d3, n1) s = bindR (perform_all perform tops s) (\<lambda>s. Inr ((d4, n2), s))"
    "tm_shows d4 n2 [[]]" "tm_active n2 = [e]" "tm_buffersSize n2 = ?s" "map tb_start (tm_reusable n2) = [0]"
    by auto
  have "m2 = n2" using run(2) n1(1) n2(1) by (auto simp: numeral_2_eq_2 bindR_Inr_iff)
  have count2: "tm_buffersCount n2 = 1" using tm_shows_length [OF n2(2)] by simp
  have "tm_popAll t1 = Inr ([], t1)" using t1 by (simp add: tm_popAll_def)
  then have m3: "m3 = tm_getBuffer n2 0 True" "t2 = t1"
    using run(3) \<open>m2 = n2\<close> by (auto simp: log_commit_def tm_addBuffers_def)
  obtain r where r: "tm_reusable n2 = [r]" "tb_start r = 0" using n2(5) by auto
  from tm_getBuffer_start [of n2 0 True] r n2(3,4) count2 m3(1) obtain f where f:
    "tm_active m3 = [e, f]" "tb_start f = 0" "tm_reusable m3 = []" "tm_buffersCount m3 = 2" "tm_buffersSize m3 = ?s"
    by auto
  have "m4 = tm_getBuffer m3 0 True"
    using run(4) m3(2) \<open>tm_popAll t1 = Inr ([], t1)\<close> by (auto simp: log_commit_def tm_addBuffers_def)
  with tm_getBuffer_start [of m3 0 True] f e(2) show ?thesis by auto
qed

end
