(* ===== verification/Containers.thy ===== *)
theory Containers
  imports Djon_Strings
begin

text \<open>
  The containers of util/ and cache/: LinkedMap (a map that remembers insertion order), Cache (a
  plain map) and PriorityCache (a bounded map that drops the least recently used key). The first two
  are interpreted in the dictionary interface.
\<close>

section \<open>util/linkedmap.hpp\<close>

record ('k, 'v) linked_map =
  lm_elements :: "('k, 'v) std_map"
  lm_keys :: "'k list"

definition lm_empty :: "('k, 'v) linked_map" where
  "lm_empty = \<lparr>lm_elements = [], lm_keys = []\<rparr>"

text \<open>list::erase of the first key the comparator accepts.\<close>

fun erase_first :: "('k \<Rightarrow> bool) \<Rightarrow> 'k list \<Rightarrow> 'k list" where
  "erase_first P [] = []"
| "erase_first P (k # ks) = (if P k then ks else k # erase_first P ks)"

definition lm_add ::
    "('k \<Rightarrow> 'k \<Rightarrow> bool) \<Rightarrow> 'k::linorder \<Rightarrow> 'v \<Rightarrow> ('k, 'v) linked_map \<Rightarrow> ('k, 'v) linked_map" where
  "lm_add keyComparator key val m =
     (let m' = (case map_find (lm_elements m) key of
          Some _ \<Rightarrow> \<lparr>lm_elements = map_erase key (lm_elements m),
                     lm_keys = erase_first (\<lambda>testKey. keyComparator key testKey) (lm_keys m)\<rparr>
        | None \<Rightarrow> m) in
      \<lparr>lm_elements = map_insert key val (lm_elements m'), lm_keys = lm_keys m' @ [key]\<rparr>)"

definition lm_erase :: "'k \<Rightarrow> ('k, 'v) linked_map \<Rightarrow> ('k, 'v) linked_map" where
  "lm_erase key m =
     \<lparr>lm_elements = map_erase key (lm_elements m), lm_keys = erase_first (\<lambda>k. k = key) (lm_keys m)\<rparr>"

definition lm_get :: "('k, 'v) linked_map \<Rightarrow> 'k \<Rightarrow> 'v option" where
  "lm_get m key = map_find (lm_elements m) key"

definition lm_containsKey :: "('k, 'v) linked_map \<Rightarrow> 'k \<Rightarrow> bool" where
  "lm_containsKey m key = (map_find (lm_elements m) key \<noteq> None)"

definition lm_size :: "('k, 'v) linked_map \<Rightarrow> nat" where
  "lm_size m = length (lm_elements m)"

text \<open>The iterator goes through the keys and looks each one up.\<close>

definition lm_iterate :: "('k, 'v) linked_map \<Rightarrow> ('k \<times> 'v option) list" where
  "lm_iterate m = map (\<lambda>k. (k, map_find (lm_elements m) k)) (lm_keys m)"

definition lm_inv :: "('k::linorder, 'v) linked_map \<Rightarrow> bool" where
  "lm_inv m \<longleftrightarrow> map_sorted (lm_elements m) \<and> distinct (lm_keys m) \<and>
     set (lm_keys m) = fst ` set (lm_elements m)"

lemma filter_absent: "x \<notin> set ks \<Longrightarrow> filter (\<lambda>k. k \<noteq> x) ks = ks"
  by (induction ks) auto

lemma erase_first_eq: "distinct ks \<Longrightarrow> erase_first (\<lambda>k. k = x) ks = filter (\<lambda>k. k \<noteq> x) ks"
  by (induction ks) (auto simp: filter_absent)

lemma erase_first_flip: "erase_first ((=) x) ks = erase_first (\<lambda>k. k = x) ks"
  by (induction ks) auto

lemma dom_insert: "fst ` set (map_insert k v m) = insert k (fst ` set m)"
  by (induction k v m rule: map_insert.induct) auto

lemma dom_erase: "fst ` set (map_erase k m) = fst ` set m - {k}"
  by (auto simp: map_erase_def)

lemma lm_add_form:
  assumes "lm_inv m"
  shows "lm_add (=) key val m = \<lparr>lm_elements = map_put key val (lm_elements m),
    lm_keys = filter (\<lambda>k. k \<noteq> key) (lm_keys m) @ [key]\<rparr>"
proof (cases "map_find (lm_elements m) key")
  case None
  then have "key \<notin> set (lm_keys m)" "map_erase key (lm_elements m) = lm_elements m"
    using assms by (force simp: map_find_None lm_inv_def map_erase_def filter_id_conv)+
  then have "filter (\<lambda>k. k \<noteq> key) (lm_keys m) = lm_keys m" by (auto simp: filter_id_conv)
  with None \<open>map_erase key (lm_elements m) = lm_elements m\<close> show ?thesis
    by (simp add: lm_add_def map_put_def)
next
  case (Some w)
  have "erase_first ((=) key) (lm_keys m) = filter (\<lambda>k. k \<noteq> key) (lm_keys m)"
    using assms by (simp add: erase_first_flip erase_first_eq lm_inv_def)
  with Some show ?thesis by (simp add: lm_add_def map_put_def)
qed

lemma lm_add_inv: "lm_inv m \<Longrightarrow> lm_inv (lm_add (=) key val m)"
  by (auto simp: lm_add_form) (auto simp: lm_inv_def map_put_def dom_insert dom_erase
      map_sorted_insert map_sorted_erase)

lemma lm_erase_inv: "lm_inv m \<Longrightarrow> lm_inv (lm_erase key m)"
  by (auto simp: lm_inv_def lm_erase_def erase_first_eq dom_erase map_sorted_erase)

interpretation linked_map: dictionary lm_empty "lm_add (=)" lm_erase lm_get lm_inv
proof unfold_locales
  fix m :: "('k::linorder, 'v) linked_map" and k k' v
  assume inv: "lm_inv m"
  then show "lm_get (lm_add (=) k v m) k' = (if k' = k then Some v else lm_get m k')"
    by (simp add: lm_add_form lm_get_def) (simp add: lm_inv_def)
  show "lm_get (lm_erase k m) k' = (if k' = k then None else lm_get m k')"
    by (simp add: lm_get_def lm_erase_def map_find_erase)
qed (simp_all add: lm_add_inv lm_erase_inv, simp_all add: lm_get_def lm_empty_def lm_inv_def)

section \<open>cache/cache.h\<close>

type_synonym ('k, 'v) cache = "('k, 'v) std_map"

definition cache_add :: "'k::linorder \<Rightarrow> 'v \<Rightarrow> ('k, 'v) cache \<Rightarrow> ('k, 'v) cache" where
  "cache_add key val m =
     map_insert key val (case map_find m key of Some _ \<Rightarrow> map_erase key m | None \<Rightarrow> m)"

definition cache_remove :: "'k \<Rightarrow> ('k, 'v) cache \<Rightarrow> ('k, 'v) cache" where
  "cache_remove key m = (case map_find m key of Some _ \<Rightarrow> map_erase key m | None \<Rightarrow> m)"

definition cache_containsKey :: "('k, 'v) cache \<Rightarrow> 'k \<Rightarrow> bool" where
  "cache_containsKey m key = (map_find m key \<noteq> None)"

text \<open>get and operator[] run off their end when the key is missing.\<close>

definition cache_get :: "('k, 'v) cache \<Rightarrow> 'k \<Rightarrow> 'v res" where
  "cache_get m key = (case map_find m key of Some v \<Rightarrow> Inr v | None \<Rightarrow> Inl Undefined_behaviour)"

lemma map_erase_absent: "map_find m k = None \<Longrightarrow> map_erase k m = m"
  by (force simp: map_find_None map_erase_def filter_id_conv)

lemma cache_add_put: "cache_add k v m = map_put k v m"
  by (simp add: cache_add_def map_put_def map_erase_absent split: option.split)

lemma cache_remove_erase: "cache_remove k m = map_erase k m"
  by (simp add: cache_remove_def map_erase_absent split: option.split)

interpretation cache: dictionary "[]" cache_add cache_remove map_find map_sorted
  by unfold_locales
    (simp_all add: cache_add_put cache_remove_erase map_find_erase map_sorted_erase)

section \<open>cache/prioritycache.h\<close>

text \<open>The comparator is optional; without one the keys are compared with ==.\<close>

record ('k, 'v) priority_cache =
  pc_elements :: "('k, 'v) std_map"
  pc_priority :: "'k list"
  pc_top :: nat

type_synonym 'k comparator = "('k \<Rightarrow> 'k \<Rightarrow> bool) option"

definition pc_new :: "nat \<Rightarrow> ('k, 'v) priority_cache" where
  "pc_new cap = \<lparr>pc_elements = [], pc_priority = [], pc_top = cap\<rparr>"

definition pc_erasePriority :: "'k comparator \<Rightarrow> 'k \<Rightarrow> 'k list \<Rightarrow> 'k list" where
  "pc_erasePriority keyComparator key priority =
     (case keyComparator of
        None \<Rightarrow> filter (\<lambda>k. k \<noteq> key) priority
      | Some cmp \<Rightarrow> erase_first (\<lambda>k. cmp key k) priority)"

definition pc_erase :: "'k comparator \<Rightarrow> 'k \<Rightarrow> ('k, 'v) priority_cache \<Rightarrow> ('k, 'v) priority_cache" where
  "pc_erase cmp key c =
     c\<lparr>pc_elements := map_erase key (pc_elements c),
       pc_priority := pc_erasePriority cmp key (pc_priority c)\<rparr>"

text \<open>A cache of size zero asks an empty list for its last element.\<close>

definition pc_add ::
    "'k comparator \<Rightarrow> 'k::linorder \<Rightarrow> 'v \<Rightarrow> ('k, 'v) priority_cache \<Rightarrow> ('k, 'v) priority_cache res" where
  "pc_add cmp key val c =
     bindR (if length (pc_priority c) = pc_top c then
              (if pc_priority c = [] then Inl Undefined_behaviour
               else Inr (pc_erase cmp (last (pc_priority c)) c))
            else Inr c) (\<lambda>c.
     let c = pc_erase cmp key c;
         es = (case map_find (pc_elements c) key of
                 Some _ \<Rightarrow> map_erase key (pc_elements c) | None \<Rightarrow> pc_elements c) in
     Inr (c\<lparr>pc_elements := map_insert key val es, pc_priority := key # pc_priority c\<rparr>))"

definition pc_get ::
    "'k comparator \<Rightarrow> ('k, 'v) priority_cache \<Rightarrow> 'k \<Rightarrow> 'v option \<times> ('k, 'v) priority_cache" where
  "pc_get cmp c key =
     (case map_find (pc_elements c) key of
        Some v \<Rightarrow> (Some v, c\<lparr>pc_priority := key # pc_erasePriority cmp key (pc_priority c)\<rparr>)
      | None \<Rightarrow> (None, c))"

definition pc_containsKey :: "('k, 'v) priority_cache \<Rightarrow> 'k \<Rightarrow> bool" where
  "pc_containsKey c key = (map_find (pc_elements c) key \<noteq> None)"

definition pc_clear :: "('k, 'v) priority_cache \<Rightarrow> ('k, 'v) priority_cache" where
  "pc_clear c = c\<lparr>pc_elements := [], pc_priority := []\<rparr>"

definition pc_size :: "('k, 'v) priority_cache \<Rightarrow> nat" where
  "pc_size c = length (pc_elements c)"

text \<open>The usage list holds each key of the map once and never more than the bound.\<close>

definition pc_inv :: "('k::linorder, 'v) priority_cache \<Rightarrow> bool" where
  "pc_inv c \<longleftrightarrow> map_sorted (pc_elements c) \<and> distinct (pc_priority c) \<and>
     set (pc_priority c) = fst ` set (pc_elements c) \<and> length (pc_priority c) \<le> pc_top c \<and> 0 < pc_top c"

definition key_comparator :: "'k comparator \<Rightarrow> bool" where
  "key_comparator cmp \<longleftrightarrow> cmp = None \<or> cmp = Some (=)"

lemma pc_erasePriority_eq:
  "key_comparator cmp \<Longrightarrow> distinct ks \<Longrightarrow> pc_erasePriority cmp key ks = filter (\<lambda>k. k \<noteq> key) ks"
  by (auto simp: key_comparator_def pc_erasePriority_def erase_first_flip erase_first_eq)

lemma length_filter_other:
  "distinct ks \<Longrightarrow> x \<in> set ks \<Longrightarrow> Suc (length (filter (\<lambda>k. k \<noteq> x) ks)) = length ks"
  by (induction ks) (auto simp: filter_absent)

lemma pc_erase_inv:
  assumes "key_comparator cmp" "pc_inv c"
  shows "pc_inv (pc_erase cmp key c)"
    and "pc_priority (pc_erase cmp key c) = filter (\<lambda>k. k \<noteq> key) (pc_priority c)"
    and "map_find (pc_elements (pc_erase cmp key c)) k = (if k = key then None else map_find (pc_elements c) k)"
    and "pc_top (pc_erase cmp key c) = pc_top c"
proof -
  show prio: "pc_priority (pc_erase cmp key c) = filter (\<lambda>k. k \<noteq> key) (pc_priority c)"
    using assms by (simp add: pc_erase_def pc_erasePriority_eq pc_inv_def)
  have "length (filter (\<lambda>k. k \<noteq> key) (pc_priority c)) \<le> length (pc_priority c)" by simp
  with assms(2) show "pc_inv (pc_erase cmp key c)"
    unfolding pc_inv_def prio
    by (auto simp: pc_erase_def dom_erase map_sorted_erase intro: le_trans [OF length_filter_le])
qed (simp_all add: pc_erase_def map_find_erase)

text \<open>
  Adding puts the key in front. A full cache first drops the least recently used key, even when
  the added key was in it already.
\<close>

lemma pc_add_spec:
  assumes "key_comparator cmp" "pc_inv c"
  shows "\<exists>c2. pc_add cmp key val c = Inr c2 \<and> pc_inv c2 \<and> pc_top c2 = pc_top c \<and>
    (\<forall>k. map_find (pc_elements c2) k =
       (if k = key then Some val
        else if length (pc_priority c) = pc_top c \<and> k = last (pc_priority c) then None
        else map_find (pc_elements c) k)) \<and>
    pc_priority c2 = key # filter (\<lambda>k. k \<noteq> key)
      (if length (pc_priority c) = pc_top c then butlast (pc_priority c) else pc_priority c)"
proof -
  define full where "full \<longleftrightarrow> length (pc_priority c) = pc_top c"
  define d where "d = (if full then pc_erase cmp (last (pc_priority c)) c else c)"
  have ne: "full \<Longrightarrow> pc_priority c \<noteq> []" using assms(2) by (auto simp: full_def pc_inv_def)
  note er = pc_erase_inv [OF assms]
  have d: "pc_inv d" "pc_top d = pc_top c"
    "\<And>k. map_find (pc_elements d) k = (if full \<and> k = last (pc_priority c) then None
       else map_find (pc_elements c) k)"
    using assms er by (auto simp: d_def)
  have prio: "pc_priority d = (if full then butlast (pc_priority c) else pc_priority c)"
  proof (cases full)
    case True
    obtain ks k where ks: "pc_priority c = ks @ [k]" using ne [OF True] by (metis rev_exhaust)
    moreover have "k \<notin> set ks" using assms(2) ks by (simp add: pc_inv_def)
    ultimately show ?thesis using True er(2) by (simp add: d_def filter_absent)
  qed (simp add: d_def)
  let ?e = "pc_erase cmp key d"
  note ee = pc_erase_inv [OF assms(1) d(1)]
  let ?r = "?e\<lparr>pc_elements := map_insert key val (pc_elements ?e), pc_priority := key # pc_priority ?e\<rparr>"
  have add: "pc_add cmp key val c = Inr ?r"
    using ne ee(3) [of key key] by (auto simp: pc_add_def d_def full_def Let_def)
  have room: "length (pc_priority ?e) < pc_top c"
  proof (cases full)
    case True
    have "length (pc_priority ?e) \<le> length (pc_priority d)" using ee(2) by simp
    moreover have "0 < pc_top c" using assms(2) by (simp add: pc_inv_def)
    ultimately show ?thesis using True prio by (simp add: full_def)
  next
    case False
    have "length (pc_priority ?e) \<le> length (pc_priority d)" using ee(2) by simp
    then show ?thesis using False assms(2) by (auto simp: full_def d_def pc_inv_def)
  qed
  have "pc_inv ?r"
    using ee(1) [of key] room d(2) ee(2,4) [of key]
    by (auto simp: pc_inv_def dom_insert map_sorted_insert)
  moreover have "map_find (pc_elements ?r) k = (if k = key then Some val
      else if full \<and> k = last (pc_priority c) then None else map_find (pc_elements c) k)" for k
    using ee(1) [of key] ee(3) [of key] d(3) by (simp add: pc_inv_def map_find_insert)
  ultimately show ?thesis
    unfolding add using ee(2,4) [of key] d(2) prio by (simp add: full_def)
qed

text \<open>A lookup that succeeds moves the key to the front and changes nothing else.\<close>

lemma pc_get_spec:
  assumes "key_comparator cmp" "pc_inv c"
  shows "fst (pc_get cmp c key) = map_find (pc_elements c) key \<and> pc_inv (snd (pc_get cmp c key)) \<and>
    pc_elements (snd (pc_get cmp c key)) = pc_elements c \<and>
    pc_priority (snd (pc_get cmp c key)) =
      (if pc_containsKey c key then key # filter (\<lambda>k. k \<noteq> key) (pc_priority c) else pc_priority c)"
proof (cases "map_find (pc_elements c) key")
  case None
  with assms(2) show ?thesis by (simp add: pc_get_def pc_containsKey_def)
next
  case (Some v)
  have "key \<in> set (pc_priority c)"
    using map_find_in [OF Some] assms(2) by (force simp: pc_inv_def)
  with length_filter_other [of "pc_priority c" key] assms(2)
  have "Suc (length (filter (\<lambda>k. k \<noteq> key) (pc_priority c))) = length (pc_priority c)"
    by (simp add: pc_inv_def)
  with Some assms \<open>key \<in> set (pc_priority c)\<close> show ?thesis
    by (auto simp: pc_get_def pc_containsKey_def pc_inv_def pc_erasePriority_eq)
qed

end
