(* ===== verification/Transactions.thy ===== *)
theory Transactions
  imports Tx_Handover Containers Filters Bson_Select
begin

text \<open>
  Transactions: the operations of BaseTransaction (tx/basetransaction.cpp) over its log and the
  controller below it, commit and rollback of StdTransaction (tx/stdtransaction.cpp) and the open
  transactions of TransactionManager (tx/transactionmanager.cpp). The parser of filters and the
  controller are arguments of the operations that call them.
\<close>

section \<open>Writing operations\<close>

text \<open>The required fields of a document; the two arguments are what uuid returns.\<close>

definition fillRequiredFields :: "string \<Rightarrow> string \<Rightarrow> bson \<Rightarrow> bson" where
  "fillRequiredFields tid trev obj =
     (let obj = (if bson_has obj ''_id'' then obj else bson_add_chars ''_id'' tid obj);
          obj = (if bson_has obj ''_revision'' then obj else bson_add_chars ''_revision'' trev obj) in
      bson_add ''_status'' (CInt 1) obj)"

text \<open>A log is the disk and a buffer manager.\<close>

type_synonym txlog = "disk \<times> txmanager"

definition tx_insert :: "string \<Rightarrow> string \<Rightarrow> string \<Rightarrow> string \<Rightarrow> bson \<Rightarrow> txlog \<Rightarrow> (bson \<times> txlog) res" where
  "tx_insert tid trev db ns bson x =
     (let bson = fillRequiredFields tid trev bson in
      bindR (tm_writeOperation x \<lparr>op_db = db, op_ns = ns, op_action = TxInsert bson\<rparr>) (\<lambda>x.
      Inr (bson, x)))"

definition tx_update :: "string \<Rightarrow> string \<Rightarrow> bson \<Rightarrow> txlog \<Rightarrow> txlog res" where
  "tx_update db ns bson x = tm_writeOperation x \<lparr>op_db = db, op_ns = ns, op_action = TxUpdate bson\<rparr>"

definition tx_remove :: "string \<Rightarrow> string \<Rightarrow> string \<Rightarrow> string \<Rightarrow> txlog \<Rightarrow> txlog res" where
  "tx_remove db ns documentId rev_no x =
     tm_writeOperation x \<lparr>op_db = db, op_ns = ns, op_action = TxRemove documentId rev_no\<rparr>"

definition tx_dropNamespace :: "string \<Rightarrow> string \<Rightarrow> txlog \<Rightarrow> (bool \<times> txlog) res" where
  "tx_dropNamespace db ns x =
     bindR (tm_writeOperation x \<lparr>op_db = db, op_ns = ns, op_action = TxDropNamespace\<rparr>) (\<lambda>x.
     Inr (True, x))"

section \<open>Reading through the pending operations\<close>

text \<open>
  find keeps pointers to documents; the flag of an entry says that the list of the controller
  owns it. Deleting such a document is noticed when that list is deleted at the end.
\<close>

type_synonym found = "(string, bool \<times> bson) linked_map"

definition filter_match :: "expr option \<Rightarrow> bson \<Rightarrow> bool res" where
  "filter_match root bson = match_result (filter_eval root bson)"

fun seed_found :: "bson list \<Rightarrow> found \<Rightarrow> found res" where
  "seed_found [] m = Inr m"
| "seed_found (obj # objs) m =
     bindR (getString obj ''_id'') (\<lambda>id. seed_found objs (lm_add (=) id (True, obj) m))"

fun overlay_step ::
    "expr option \<Rightarrow> string \<Rightarrow> tx_action \<Rightarrow> found \<times> bool \<Rightarrow> (found \<times> bool) res" where
  "overlay_step root sel (TxInsert bson) (m, freed) =
     bindR (filter_match root bson) (\<lambda>match.
     if match then
       bindR (getString bson ''_id'') (\<lambda>id. bindR (bson_select sel bson) (\<lambda>obj.
       Inr (lm_add (=) id (False, obj) m, freed)))
     else Inr (m, freed))"
| "overlay_step root sel (TxUpdate bson) (m, freed) =
     bindR (filter_match root bson) (\<lambda>match.
     if match then
       bindR (getString bson ''_id'') (\<lambda>id. bindR (bson_select sel bson) (\<lambda>obj.
       Inr (lm_add (=) id (False, obj) m, freed)))
     else
       bindR (getString bson ''_id'') (\<lambda>key.
       if lm_containsKey m key then
         (case lm_get m key of
            None \<Rightarrow> Inr (lm_erase key m, freed)
          | Some (stored, ofound) \<Rightarrow> Inr (lm_erase key m, freed \<or> stored))
       else Inr (m, freed)))"
| "overlay_step root sel (TxRemove key rev_no) (m, freed) =
     (case lm_get m key of
        None \<Rightarrow> Inr (m, freed)
      | Some (stored, obj) \<Rightarrow>
          bindR (getString obj ''_revision'') (\<lambda>r.
          Inr (if r = rev_no then lm_erase key m else m, freed)))"
| "overlay_step root sel TxDropNamespace (m, freed) = Inr (lm_empty, freed)"
| "overlay_step root sel (TxOther c) (m, freed) = Inr (m, freed)"

fun overlay :: "expr option \<Rightarrow> string \<Rightarrow> tx_operation list \<Rightarrow> found \<times> bool \<Rightarrow> (found \<times> bool) res" where
  "overlay root sel [] mf = Inr mf"
| "overlay root sel (oper # ops) mf =
     bindR (overlay_step root sel (op_action oper) mf) (overlay root sel ops)"

text \<open>The limit of an option document, of the setting max_results, or three thousand.\<close>

definition result_limit :: "string \<Rightarrow> bson option \<Rightarrow> int res" where
  "result_limit smax options =
     (let setting = (if smax = [] then Inr 3000
                     else let n = atoi smax in
                       if - (2 ^ 63) \<le> n \<and> n < 2 ^ 63 then Inr n else Inl Undefined_behaviour) in
      case options of
        None \<Rightarrow> setting
      | Some o1 \<Rightarrow>
          if bson_has o1 ''limit'' then
            (case getContent o1 ''limit'' of
               Some (CInt i) \<Rightarrow> Inr (sint i) | Some (CLong l) \<Rightarrow> Inr (sint l) | _ \<Rightarrow> Inr 3000)
          else setting)"

fun collect_found ::
    "string \<Rightarrow> int \<Rightarrow> int \<Rightarrow> (string \<times> (bool \<times> bson) option) list \<Rightarrow> bson list \<Rightarrow> bson list res" where
  "collect_found sel maxResults n [] result = Inr result"
| "collect_found sel maxResults n ((key, None) # rest) result = Inl Undefined_behaviour"
| "collect_found sel maxResults n ((key, Some (stored, r)) # rest) result =
     bindR (bson_select sel r) (\<lambda>bresult.
     if n + 1 \<ge> maxResults then Inr (array_add result bresult)
     else collect_found sel maxResults (n + 1) rest (array_add result bresult))"

definition tx_find ::
    "(string \<Rightarrow> expr option res) \<Rightarrow> string \<Rightarrow>
     (string \<Rightarrow> string \<Rightarrow> string \<Rightarrow> string \<Rightarrow> bson option \<Rightarrow> 'c \<Rightarrow> (bson list option \<times> 'c) res) \<Rightarrow>
     string \<Rightarrow> string \<Rightarrow> string \<Rightarrow> string \<Rightarrow> bson option \<Rightarrow> txlog \<times> 'c \<Rightarrow>
     (bson list \<times> txlog \<times> 'c) res" where
  "tx_find parse smax controller_find db ns sel filt options = (\<lambda>((d, m), c).
     bindR (tm_findOperations (Some db) (Some ns) (d, m)) (\<lambda>(ops, m).
     bindR (controller_find db ns ''*'' filt options c) (\<lambda>(origList, c).
     bindR (seed_found (case origList of None \<Rightarrow> [] | Some objs \<Rightarrow> objs) lm_empty) (\<lambda>found.
     bindR (parse filt) (\<lambda>root.
     bindR (overlay root sel ops (found, False)) (\<lambda>(found, freed).
     bindR (result_limit smax options) (\<lambda>maxResults.
     bindR (collect_found sel maxResults 0 (lm_iterate found) []) (\<lambda>result.
     if freed then Inl Undefined_behaviour else Inr (result, (d, m), c)))))))))"

definition tx_findFirst ::
    "(string \<Rightarrow> expr option res) \<Rightarrow> string \<Rightarrow>
     (string \<Rightarrow> string \<Rightarrow> string \<Rightarrow> string \<Rightarrow> bson option \<Rightarrow> 'c \<Rightarrow> (bson list option \<times> 'c) res) \<Rightarrow>
     string \<Rightarrow> string \<Rightarrow> string \<Rightarrow> string \<Rightarrow> bson option \<Rightarrow> txlog \<times> 'c \<Rightarrow>
     (bson option \<times> txlog \<times> 'c) res" where
  "tx_findFirst parse smax controller_find db ns sel filt options x =
     bindR (tx_find parse smax controller_find db ns sel filt options x) (\<lambda>(fullList, x).
     Inr (case fullList of [] \<Rightarrow> None | obj # _ \<Rightarrow> Some (copy_bson obj), x))"

section \<open>Names of databases and namespaces\<close>

type_synonym name_set = "(string, unit) std_map"

definition name_step :: "string \<Rightarrow> tx_action \<Rightarrow> name_set \<Rightarrow> name_set" where
  "name_step name action s =
     (case action of
        TxInsert _ \<Rightarrow> (if map_find s name = None then map_insert name () s else s)
      | TxDropNamespace \<Rightarrow> (if map_find s name = None then s else map_erase name s)
      | _ \<Rightarrow> s)"

definition tx_dbs ::
    "(bson option \<Rightarrow> 'c \<Rightarrow> (string list \<times> 'c) res) \<Rightarrow> bson option \<Rightarrow> txlog \<times> 'c \<Rightarrow>
     (string list \<times> txlog \<times> 'c) res" where
  "tx_dbs controller_dbs options = (\<lambda>((d, m), c).
     bindR (tm_findOperations None None (d, m)) (\<lambda>(ops, m).
     bindR (controller_dbs options c) (\<lambda>(dbss, c).
     let s = fold (\<lambda>db. map_insert db ()) dbss [];
         s = fold (\<lambda>oper. name_step (op_db oper) (op_action oper)) ops s in
     Inr (map fst s, (d, m), c))))"

definition tx_namespaces ::
    "(string \<Rightarrow> bson option \<Rightarrow> 'c \<Rightarrow> (string list \<times> 'c) res) \<Rightarrow> string \<Rightarrow> bson option \<Rightarrow> txlog \<times> 'c \<Rightarrow>
     (string list \<times> txlog \<times> 'c) res" where
  "tx_namespaces controller_namespaces db options = (\<lambda>((d, m), c).
     bindR (tm_findOperations (Some db) None (d, m)) (\<lambda>(ops, m).
     bindR (controller_namespaces db options c) (\<lambda>(nss, c).
     let s = fold (\<lambda>ns. map_insert ns ()) nss [];
         s = fold (\<lambda>oper. name_step (op_ns oper) (op_action oper)) ops s in
     Inr (map fst s, (d, m), c))))"

declare bson_select.simps [simp del]

section \<open>What a transaction sees\<close>

text \<open>
  The specification: the documents of the namespace in order, with the pending operations applied.
\<close>

definition doc_id :: "bson \<Rightarrow> string" where
  "doc_id obj = (case getString obj ''_id'' of Inr s \<Rightarrow> s | Inl _ \<Rightarrow> [])"

definition doc_revision :: "bson \<Rightarrow> string" where
  "doc_revision obj = (case getString obj ''_revision'' of Inr s \<Rightarrow> s | Inl _ \<Rightarrow> [])"

definition doc_ok :: "bson \<Rightarrow> bool" where
  "doc_ok obj \<longleftrightarrow> map_sorted obj \<and> getString obj ''_id'' = Inr (doc_id obj) \<and>
     getString obj ''_revision'' = Inr (doc_revision obj)"

definition view_put :: "bson \<Rightarrow> bson list \<Rightarrow> bson list" where
  "view_put obj docs = filter (\<lambda>e. doc_id e \<noteq> doc_id obj) docs @ [obj]"

fun view_step :: "tx_action \<Rightarrow> bson list \<Rightarrow> bson list" where
  "view_step (TxInsert obj) docs = view_put obj docs"
| "view_step (TxUpdate obj) docs = view_put obj docs"
| "view_step (TxRemove key rev_no) docs =
     filter (\<lambda>e. \<not> (doc_id e = key \<and> doc_revision e = rev_no)) docs"
| "view_step TxDropNamespace docs = []"
| "view_step (TxOther c) docs = docs"

definition view_ops :: "tx_operation list \<Rightarrow> bson list \<Rightarrow> bson list" where
  "view_ops ops docs = fold (\<lambda>oper. view_step (op_action oper)) ops docs"

fun action_docs :: "tx_action \<Rightarrow> bson list" where
  "action_docs (TxInsert obj) = [obj]"
| "action_docs (TxUpdate obj) = [obj]"
| "action_docs _ = []"

text \<open>An insert that does not match the filter must not hide a document with the same id.\<close>

fun inserts_fresh :: "(bson \<Rightarrow> bool) \<Rightarrow> tx_operation list \<Rightarrow> bson list \<Rightarrow> bool" where
  "inserts_fresh P [] docs = True"
| "inserts_fresh P (oper # ops) docs =
     ((case op_action oper of TxInsert obj \<Rightarrow> P obj \<or> doc_id obj \<notin> doc_id ` set docs | _ \<Rightarrow> True) \<and>
      inserts_fresh P ops (view_step (op_action oper) docs))"

text \<open>An update that does not match must not be of a document that the controller has found.\<close>

definition updates_kept :: "(bson \<Rightarrow> bool) \<Rightarrow> string set \<Rightarrow> tx_operation list \<Rightarrow> bool" where
  "updates_kept P S ops \<longleftrightarrow>
     (\<forall>oper\<in>set ops. case op_action oper of TxUpdate obj \<Rightarrow> P obj \<or> doc_id obj \<notin> S | _ \<Rightarrow> True)"

text \<open>The linked map of find shows a list of documents; those of the controller have ids in S.\<close>

definition shows_docs :: "string set \<Rightarrow> found \<Rightarrow> bson list \<Rightarrow> bool" where
  "shows_docs S m docs \<longleftrightarrow> lm_inv m \<and> lm_keys m = map doc_id docs \<and>
     (\<forall>obj\<in>set docs. \<exists>f. lm_get m (doc_id obj) = Some (f, obj) \<and> (f \<longrightarrow> doc_id obj \<in> S))"

lemma shows_empty: "shows_docs S lm_empty []"
  by (simp add: shows_docs_def linked_map.inv_empty) (simp add: lm_empty_def)

lemma shows_put:
  assumes "shows_docs S m docs" "f \<longrightarrow> doc_id obj \<in> S"
  shows "shows_docs S (lm_add (=) (doc_id obj) (f, obj) m) (view_put obj docs)"
proof -
  have inv: "lm_inv m" using assms(1) by (simp add: shows_docs_def)
  have "lm_keys (lm_add (=) (doc_id obj) (f, obj) m) = map doc_id (view_put obj docs)"
    using assms(1) by (simp add: lm_add_form [OF inv] view_put_def shows_docs_def filter_map comp_def)
  then show ?thesis using assms inv
    by (auto simp: shows_docs_def view_put_def linked_map.find_put lm_add_inv)
qed

lemma shows_erase:
  assumes "shows_docs S m docs"
  shows "shows_docs S (lm_erase key m) (filter (\<lambda>e. doc_id e \<noteq> key) docs)"
proof -
  have inv: "lm_inv m" using assms by (simp add: shows_docs_def)
  have "lm_keys (lm_erase key m) = filter (\<lambda>k. k \<noteq> key) (lm_keys m)"
    using inv by (simp add: lm_erase_def erase_first_eq lm_inv_def)
  then show ?thesis using assms
    by (auto simp: shows_docs_def linked_map.find_del [OF inv] lm_erase_inv filter_map comp_def)
qed

lemma shows_get:
  assumes "shows_docs S m docs"
  shows "lm_get m key = None \<longleftrightarrow> key \<notin> doc_id ` set docs"
    and "obj \<in> set docs \<Longrightarrow> \<exists>f. lm_get m (doc_id obj) = Some (f, obj) \<and> (f \<longrightarrow> doc_id obj \<in> S)"
proof -
  have "set (lm_keys m) = fst ` set (lm_elements m)" "lm_keys m = map doc_id docs"
    using assms unfolding shows_docs_def lm_inv_def by blast+
  then show "lm_get m key = None \<longleftrightarrow> key \<notin> doc_id ` set docs"
    by (metis lm_get_def map_find_None set_map)
qed (use assms in \<open>simp add: shows_docs_def\<close>)

lemma view_step_distinct: "distinct (map doc_id docs) \<Longrightarrow> distinct (map doc_id (view_step action docs))"
  by (cases action) (auto simp: view_put_def distinct_map inj_on_def)

lemma view_step_filter:
  assumes "distinct (map doc_id docs)"
  shows "filter P (view_step (TxRemove key rev_no) docs) =
    (if \<exists>obj\<in>set (filter P docs). doc_id obj = key \<and> doc_revision obj = rev_no
     then filter (\<lambda>e. doc_id e \<noteq> key) (filter P docs) else filter P docs)"
  using assms by (auto simp: filter_filter distinct_map inj_on_def intro!: filter_cong)

lemma overlay_step_view:
  assumes shown: "shows_docs S m (filter P docs)" and dist: "distinct (map doc_id docs)"
    and match: "\<forall>obj\<in>set (action_docs action). doc_ok obj \<and> filter_match root obj = Inr (P obj)"
    and docs: "\<forall>obj\<in>set docs. doc_ok obj"
    and fresh: "case action of TxInsert obj \<Rightarrow> P obj \<or> doc_id obj \<notin> doc_id ` set docs
      | TxUpdate obj \<Rightarrow> P obj \<or> doc_id obj \<notin> S | _ \<Rightarrow> True"
  shows "\<exists>m2. overlay_step root ''*'' action (m, False) = Inr (m2, False) \<and>
    shows_docs S m2 (filter P (view_step action docs))"
proof (cases action)
  case TxDropNamespace
  then show ?thesis by (simp add: shows_empty)
next
  case (TxOther c)
  then show ?thesis using shown by simp
next
  case (TxInsert obj)
  show ?thesis
  proof (cases "P obj")
    case True
    then have "filter P (view_step action docs) = view_put obj (filter P docs)"
      using TxInsert by (simp add: view_put_def filter_filter conj_commute)
    with True TxInsert match shows_put [OF shown, of False obj] show ?thesis
      by (simp add: doc_ok_def bson_select_star)
  next
    case False
    then have "filter P (view_step action docs) = filter P docs"
      using TxInsert fresh by (auto simp: view_put_def intro!: filter_cong) (metis image_eqI)
    with False TxInsert match shown show ?thesis by simp
  qed
next
  case (TxUpdate obj)
  show ?thesis
  proof (cases "P obj")
    case True
    then have "filter P (view_step action docs) = view_put obj (filter P docs)"
      using TxUpdate by (simp add: view_put_def filter_filter conj_commute)
    with True TxUpdate match shows_put [OF shown, of False obj] show ?thesis
      by (simp add: doc_ok_def bson_select_star)
  next
    case False
    then have view: "filter P (view_step action docs) = filter (\<lambda>e. doc_id e \<noteq> doc_id obj) (filter P docs)"
      using TxUpdate by (simp add: view_put_def filter_filter conj_commute)
    have id: "getString obj ''_id'' = Inr (doc_id obj)" using TxUpdate match by (simp add: doc_ok_def)
    show ?thesis
    proof (cases "lm_get m (doc_id obj)")
      case None
      then have "filter (\<lambda>e. doc_id e \<noteq> doc_id obj) (filter P docs) = filter P docs"
        using shows_get(1) [OF shown] by (metis (mono_tags, lifting) filter_True image_eqI)
      with None False TxUpdate match id shown view show ?thesis
        by (simp add: lm_containsKey_def lm_get_def)
    next
      case (Some e)
      then obtain d where d: "d \<in> set (filter P docs)" "doc_id d = doc_id obj"
        using shows_get(1) [OF shown, of "doc_id obj"] by auto
      from shows_get(2) [OF shown d(1)] d(2) Some False fresh TxUpdate have "e = (False, d)" by auto
      moreover have "lm_containsKey m (doc_id obj)"
        using Some by (simp add: lm_containsKey_def lm_get_def)
      ultimately show ?thesis
        using Some False TxUpdate match id view shows_erase [OF shown, of "doc_id obj"] by simp
    qed
  qed
next
  case (TxRemove key rev_no)
  show ?thesis
  proof (cases "lm_get m key")
    case None
    then have "\<not> (\<exists>obj\<in>set (filter P docs). doc_id obj = key \<and> doc_revision obj = rev_no)"
      using shows_get(1) [OF shown, of key] by auto
    then have "filter P (view_step action docs) = filter P docs"
      unfolding TxRemove view_step_filter [OF dist] by (rule if_not_P)
    with None TxRemove shown show ?thesis by simp
  next
    case (Some e)
    then obtain d where d: "d \<in> set (filter P docs)" "doc_id d = key"
      using shows_get(1) [OF shown, of key] by auto
    from shows_get(2) [OF shown d(1)] d(2) Some obtain f where e: "e = (f, d)" by auto
    have r: "getString d ''_revision'' = Inr (doc_revision d)" using d(1) docs by (simp add: doc_ok_def)
    have same: "(\<exists>obj\<in>set (filter P docs). doc_id obj = key \<and> doc_revision obj = rev_no) \<longleftrightarrow> doc_revision d = rev_no"
      using d dist by (auto simp: distinct_map inj_on_def)
    have "filter P (view_step action docs) = (if doc_revision d = rev_no
        then filter (\<lambda>e. doc_id e \<noteq> key) (filter P docs) else filter P docs)"
      unfolding TxRemove view_step_filter [OF dist] same ..
    with Some TxRemove e r shown shows_erase [OF shown, of key] show ?thesis by simp
  qed
qed

text \<open>The whole overlay, and the list that is collected from it.\<close>

lemma overlay_view:
  "shows_docs S m (filter P docs) \<Longrightarrow> distinct (map doc_id docs) \<Longrightarrow> \<forall>obj\<in>set docs. doc_ok obj \<Longrightarrow>
   \<forall>oper\<in>set ops. \<forall>obj\<in>set (action_docs (op_action oper)). doc_ok obj \<and> filter_match root obj = Inr (P obj) \<Longrightarrow>
   inserts_fresh P ops docs \<Longrightarrow> updates_kept P S ops \<Longrightarrow>
   \<exists>m2. overlay root ''*'' ops (m, False) = Inr (m2, False) \<and> shows_docs S m2 (filter P (view_ops ops docs))"
proof (induction ops arbitrary: m docs)
  case Nil
  then show ?case by (simp add: view_ops_def)
next
  case (Cons oper ops)
  have "\<exists>m2. overlay_step root ''*'' (op_action oper) (m, False) = Inr (m2, False) \<and>
      shows_docs S m2 (filter P (view_step (op_action oper) docs))"
    using Cons.prems by (intro overlay_step_view) (auto simp: updates_kept_def split: tx_action.splits)
  then obtain m2 where m2: "overlay_step root ''*'' (op_action oper) (m, False) = Inr (m2, False)"
    "shows_docs S m2 (filter P (view_step (op_action oper) docs))" by blast
  have "\<forall>obj\<in>set (view_step (op_action oper) docs). doc_ok obj"
    using Cons.prems(3,4) by (cases "op_action oper") (auto simp: view_put_def)
  then obtain m3 where "overlay root ''*'' ops (m2, False) = Inr (m3, False)"
    "shows_docs S m3 (filter P (view_ops ops (view_step (op_action oper) docs)))"
    using Cons.IH [OF m2(2) view_step_distinct [OF Cons.prems(2)]] Cons.prems(4-6)
    by (auto simp: updates_kept_def)
  with m2(1) show ?case by (simp add: view_ops_def)
qed

lemma view_docs_ok:
  "\<forall>obj\<in>set docs. doc_ok obj \<Longrightarrow> \<forall>oper\<in>set ops. \<forall>obj\<in>set (action_docs (op_action oper)). doc_ok obj \<Longrightarrow>
   \<forall>obj\<in>set (view_ops ops docs). doc_ok obj"
proof (induction ops arbitrary: docs)
  case (Cons oper ops)
  have "\<forall>obj\<in>set (view_step (op_action oper) docs). doc_ok obj"
    using Cons.prems by (cases "op_action oper") (auto simp: view_put_def)
  then have "\<forall>obj\<in>set (view_ops ops (view_step (op_action oper) docs)). doc_ok obj"
    using Cons.prems(2) by (intro Cons.IH) simp_all
  then show ?case by (simp only: view_ops_def fold_simps)
qed (simp add: view_ops_def)

lemma seed_shows:
  "\<forall>obj\<in>set objs. doc_ok obj \<Longrightarrow> doc_id ` set objs \<subseteq> S \<Longrightarrow> distinct (map doc_id (docs @ objs)) \<Longrightarrow>
   shows_docs S m docs \<Longrightarrow> \<exists>m2. seed_found objs m = Inr m2 \<and> shows_docs S m2 (docs @ objs)"
proof (induction objs arbitrary: docs m)
  case (Cons obj objs)
  have "view_put obj docs = docs @ [obj]"
    using Cons.prems(3) by (auto simp: view_put_def intro!: filter_True) (metis image_eqI)
  with shows_put [OF Cons.prems(4), of True obj] Cons.prems(2)
  have "shows_docs S (lm_add (=) (doc_id obj) (True, obj) m) (docs @ [obj])" by simp
  with Cons.IH [of "docs @ [obj]"] Cons.prems show ?case by (simp add: doc_ok_def)
qed simp

lemma collect_shown:
  assumes "\<forall>obj\<in>set docs. doc_ok obj"
  shows "(\<And>obj. obj \<in> set docs \<Longrightarrow> \<exists>f. g obj = Some (f, obj)) \<Longrightarrow>
    collect_found ''*'' k n (map (\<lambda>obj. (doc_id obj, g obj)) docs) result =
      Inr (result @ take (max 1 (nat (k - n))) docs)"
  using assms
proof (induction docs arbitrary: n result)
  case (Cons obj docs)
  obtain f where "g obj = Some (f, obj)" using Cons.prems(1) [of obj] by auto
  moreover have "bson_select ''*'' obj = Inr obj" using Cons.prems(2) by (simp add: doc_ok_def bson_select_star)
  moreover have "max 1 (nat (k - n)) = Suc (max 1 (nat (k - (n + 1))))" if "\<not> k \<le> n + 1"
    using that by (simp add: max_def) arith
  moreover have "max 1 (nat (k - n)) = 1" if "k \<le> n + 1" using that by simp
  ultimately show ?case using Cons by (simp add: array_add_def not_less)
qed simp

lemma collect_shows:
  assumes "shows_docs S m docs" "\<forall>obj\<in>set docs. doc_ok obj"
  shows "collect_found ''*'' k 0 (lm_iterate m) [] = Inr (take (max 1 (nat k)) docs)"
proof -
  have "lm_iterate m = map (\<lambda>obj. (doc_id obj, lm_get m (doc_id obj))) docs"
    using assms(1) by (simp add: lm_iterate_def shows_docs_def lm_get_def)
  moreover have "\<exists>f. lm_get m (doc_id obj) = Some (f, obj)" if "obj \<in> set docs" for obj
    using shows_get(2) [OF assms(1) that] by blast
  ultimately show ?thesis
    using collect_shown [OF assms(2), of "\<lambda>obj. lm_get m (doc_id obj)" k 0 "[]"] by simp
qed

text \<open>
  A find of all columns gives the documents that match in the view of the transaction, up to the
  limit; even a limit of zero gives one.
\<close>

lemma tx_find_view:
  assumes log: "tm_shows d m opss" and parse: "parse filt = Inr root"
    and controller: "controller_find db ns ''*'' filt options c = Inr (Some (filter P docs), c2)"
    and limit: "result_limit smax options = Inr k"
    and docs: "distinct (map doc_id docs)" "\<forall>obj\<in>set docs. doc_ok obj"
    and ops: "ops = filter (\<lambda>oper. wanted (Some db) (Some ns) (op_db oper) (op_ns oper)) (concat opss)"
    and match: "\<forall>oper\<in>set ops. \<forall>obj\<in>set (action_docs (op_action oper)).
      doc_ok obj \<and> filter_match root obj = Inr (P obj)"
    and fresh: "inserts_fresh P ops docs" "updates_kept P (doc_id ` set (filter P docs)) ops"
  shows "tx_find parse smax controller_find db ns ''*'' filt options ((d, m), c) =
    Inr (take (max 1 (nat k)) (filter P (view_ops ops docs)), (d, tm_rewound m), c2)"
proof -
  let ?S = "doc_id ` set (filter P docs)"
  have m2: "tm_findOperations (Some db) (Some ns) (d, m) = Inr (ops, tm_rewound m)"
    using tm_findOperations_shows(1) [OF log, of "Some db" "Some ns"] ops by simp
  have "\<exists>f1. seed_found (filter P docs) lm_empty = Inr f1 \<and> shows_docs ?S f1 ([] @ filter P docs)"
    using docs by (intro seed_shows) (auto simp: shows_empty distinct_map inj_on_def)
  then obtain f1 where f1: "seed_found (filter P docs) lm_empty = Inr f1" "shows_docs ?S f1 (filter P docs)"
    by auto
  from overlay_view [OF f1(2) docs match fresh] obtain f2 where f2:
    "overlay root ''*'' ops (f1, False) = Inr (f2, False)"
    "shows_docs ?S f2 (filter P (view_ops ops docs))" by blast
  have "\<forall>obj\<in>set (view_ops ops docs). doc_ok obj" using view_docs_ok docs(2) match by blast
  then have "collect_found ''*'' k 0 (lm_iterate f2) [] =
      Inr (take (max 1 (nat k)) (filter P (view_ops ops docs)))"
    using collect_shows [OF f2(2)] by simp
  with m2 parse controller limit f1(1) f2(1) show ?thesis by (simp add: tx_find_def)
qed

text \<open>
  A find of a transaction: its controller is the transaction of the main log, whose controller is
  the database. Both logs are on the same disk.
\<close>

definition base_controller ::
    "(string \<Rightarrow> expr option res) \<Rightarrow> string \<Rightarrow>
     (string \<Rightarrow> string \<Rightarrow> string \<Rightarrow> string \<Rightarrow> bson option \<Rightarrow> 'c \<Rightarrow> (bson list option \<times> 'c) res) \<Rightarrow> disk \<Rightarrow>
     string \<Rightarrow> string \<Rightarrow> string \<Rightarrow> string \<Rightarrow> bson option \<Rightarrow> txmanager \<times> 'c \<Rightarrow>
     (bson list option \<times> txmanager \<times> 'c) res" where
  "base_controller parse smax db_find d db ns sel filt options = (\<lambda>(base, c).
     bindR (tx_find parse smax db_find db ns sel filt options ((d, base), c)) (\<lambda>(r, (_, base), c).
     Inr (Some r, (base, c))))"

definition std_find ::
    "(string \<Rightarrow> expr option res) \<Rightarrow> string \<Rightarrow>
     (string \<Rightarrow> string \<Rightarrow> string \<Rightarrow> string \<Rightarrow> bson option \<Rightarrow> 'c \<Rightarrow> (bson list option \<times> 'c) res) \<Rightarrow>
     string \<Rightarrow> string \<Rightarrow> string \<Rightarrow> string \<Rightarrow> bson option \<Rightarrow> txlog \<times> txmanager \<times> 'c \<Rightarrow>
     (bson list \<times> txlog \<times> txmanager \<times> 'c) res" where
  "std_find parse smax db_find db ns sel filt options = (\<lambda>((d, t), (base, c)).
     tx_find parse smax (base_controller parse smax db_find d) db ns sel filt options ((d, t), (base, c)))"

lemma std_find_view:
  assumes base: "tm_shows d base mopss" and t: "tm_shows d t topss" and parse: "parse filt = Inr root"
    and database: "db_find db ns ''*'' filt options c = Inr (Some (filter P docs), c2)"
    and limit: "result_limit smax options = Inr k"
    and docs: "distinct (map doc_id docs)" "\<forall>obj\<in>set docs. doc_ok obj"
    and mops: "mops = filter (\<lambda>oper. wanted (Some db) (Some ns) (op_db oper) (op_ns oper)) (concat mopss)"
    and tops: "tops = filter (\<lambda>oper. wanted (Some db) (Some ns) (op_db oper) (op_ns oper)) (concat topss)"
    and match: "\<forall>oper\<in>set (mops @ tops). \<forall>obj\<in>set (action_docs (op_action oper)).
      doc_ok obj \<and> filter_match root obj = Inr (P obj)"
    and fresh: "inserts_fresh P mops docs" "updates_kept P (doc_id ` set (filter P docs)) mops"
      "inserts_fresh P tops (view_ops mops docs)"
      "updates_kept P (doc_id ` set (filter P (view_ops mops docs))) tops"
    and room: "int (length (filter P (view_ops mops docs))) \<le> k"
  shows "std_find parse smax db_find db ns ''*'' filt options ((d, t), (base, c)) =
    Inr (take (max 1 (nat k)) (filter P (view_ops (mops @ tops) docs)), (d, tm_rewound t), (tm_rewound base, c2))"
proof -
  let ?V = "view_ops mops docs"
  have V: "distinct (map doc_id ?V)" "\<forall>obj\<in>set ?V. doc_ok obj"
  proof -
    have "distinct (map doc_id (view_ops ops docs))" if "distinct (map doc_id docs)" for ops docs
      using that by (induction ops arbitrary: docs) (simp_all add: view_ops_def view_step_distinct)
    then show "distinct (map doc_id ?V)" using docs(1) by blast
    show "\<forall>obj\<in>set ?V. doc_ok obj" by (rule view_docs_ok [OF docs(2)]) (use match in auto)
  qed
  have "length (filter P ?V) \<le> max 1 (nat k)" using room by linarith
  moreover have mmatch: "\<forall>oper\<in>set mops. \<forall>obj\<in>set (action_docs (op_action oper)).
      doc_ok obj \<and> filter_match root obj = Inr (P obj)" using match by auto
  note tx_find_view [OF base, of parse filt root db_find db ns options c P docs c2 smax k mops,
      OF parse database limit docs mops mmatch fresh(1,2)]
  ultimately have "tx_find parse smax db_find db ns ''*'' filt options ((d, base), c) =
      Inr (filter P ?V, (d, tm_rewound base), c2)" by simp
  then have inner: "base_controller parse smax db_find d db ns ''*'' filt options (base, c) =
      Inr (Some (filter P ?V), (tm_rewound base, c2))"
    by (simp add: base_controller_def)
  have tmatch: "\<forall>oper\<in>set tops. \<forall>obj\<in>set (action_docs (op_action oper)).
      doc_ok obj \<and> filter_match root obj = Inr (P obj)" using match by auto
  have "view_ops (mops @ tops) docs = view_ops tops ?V" by (simp add: view_ops_def)
  moreover have "tx_find parse smax (base_controller parse smax db_find d) db ns ''*'' filt options
      ((d, t), (base, c)) =
    Inr (take (max 1 (nat k)) (filter P (view_ops tops ?V)), (d, tm_rewound t), (tm_rewound base, c2))"
    by (rule tx_find_view [where ops = tops and docs = ?V and P = P]) (fact t parse inner limit V tops tmatch fresh)+
  ultimately show ?thesis by (simp only: std_find_def prod.case)
qed

section \<open>Names\<close>

fun names_after :: "(tx_operation \<Rightarrow> string) \<Rightarrow> tx_operation list \<Rightarrow> string set \<Rightarrow> string set" where
  "names_after f [] S = S"
| "names_after f (oper # ops) S =
     names_after f ops (case op_action oper of
        TxInsert _ \<Rightarrow> insert (f oper) S | TxDropNamespace \<Rightarrow> S - {f oper} | _ \<Rightarrow> S)"

lemma name_fold:
  "map_sorted s \<Longrightarrow>
   map_sorted (fold (\<lambda>oper. name_step (f oper) (op_action oper)) ops s) \<and>
   fst ` set (fold (\<lambda>oper. name_step (f oper) (op_action oper)) ops s) = names_after f ops (fst ` set s)"
proof (induction ops arbitrary: s)
  case (Cons oper ops)
  have "map_sorted (name_step (f oper) (op_action oper) s)"
    using Cons.prems by (simp add: name_step_def map_sorted_insert map_sorted_erase split: tx_action.split)
  moreover have "fst ` set (name_step (f oper) (op_action oper) s) = (case op_action oper of
      TxInsert _ \<Rightarrow> insert (f oper) (fst ` set s) | TxDropNamespace \<Rightarrow> fst ` set s - {f oper} | _ \<Rightarrow> fst ` set s)"
    by (auto simp: name_step_def dom_insert dom_erase map_find_None split: tx_action.split)
  ultimately show ?case using Cons.IH by simp
qed simp

lemma name_seed:
  "map_sorted s \<Longrightarrow> map_sorted (fold (\<lambda>n. map_insert n ()) names s) \<and>
   fst ` set (fold (\<lambda>n. map_insert n ()) names s) = fst ` set s \<union> set names"
  by (induction names arbitrary: s) (auto simp: map_sorted_insert dom_insert)

lemma tx_namespaces_spec:
  assumes "tm_shows d m opss" "controller_namespaces db options c = Inr (nss, c2)"
  shows "\<exists>names. tx_namespaces controller_namespaces db options ((d, m), c) =
      Inr (names, (d, tm_rewound m), c2) \<and> sorted_wrt (<) names \<and>
    set names = names_after op_ns (filter (\<lambda>oper. wanted (Some db) None (op_db oper) (op_ns oper)) (concat opss)) (set nss)"
  using assms(2) name_seed [of "[]" nss] name_fold [of "fold (\<lambda>n. map_insert n ()) nss []" op_ns]
  by (auto simp: tx_namespaces_def tm_findOperations_shows(1) [OF assms(1)] map_sorted_def)

lemma tx_dbs_spec:
  assumes "tm_shows d m opss" "controller_dbs options c = Inr (dbss, c2)"
  shows "\<exists>names. tx_dbs controller_dbs options ((d, m), c) =
      Inr (names, (d, tm_rewound m), c2) \<and> sorted_wrt (<) names \<and>
    set names = names_after op_db (concat opss) (set dbss)"
  using assms(2) name_seed [of "[]" dbss] name_fold [of "fold (\<lambda>n. map_insert n ()) dbss []" op_db]
  by (auto simp: tx_dbs_def tm_findOperations_shows(1) [OF assms(1)] map_sorted_def wanted_def)

end
