(* ===== verification/Data_Store.thy ===== *)
theory Data_Store
  imports Stream_Manager Index_Factory Bson_Buffered Transactions
begin

text \<open>
  DBController (db/dbcontroller.cpp): the documents of a namespace are records of its data file, the
  index over _id maps an id to the position of a record. An update marks the old record and appends the
  new one, a removal marks the record; a find reads the file from its start, or the records that an
  index lists.
\<close>

section \<open>State\<close>

text \<open>The streams and files of StreamManager and the indexes of IndexFactory.\<close>

record data_store =
  dt_streams :: stream_manager
  dt_indexes :: index_factory

section \<open>Streams\<close>

text \<open>The data stream of a namespace with the contents of its file.\<close>

definition data_stream :: "string \<Rightarrow> string \<Rightarrow> stream_manager \<Rightarrow> (db_stream \<times> byte list) res" where
  "data_stream db ns m =
     (case sm_streams m (db, ns, DATA_FTYPE) of
        None \<Rightarrow> Inl Undefined_behaviour
      | Some s \<Rightarrow> (case sm_files m (ds_path s) of None \<Rightarrow> Inl Undefined_behaviour | Some bs \<Rightarrow> Inr (s, bs)))"

definition set_stream :: "string \<Rightarrow> string \<Rightarrow> db_stream \<Rightarrow> byte list \<Rightarrow> stream_manager \<Rightarrow> stream_manager" where
  "set_stream db ns s bs m = m\<lparr>sm_streams := (sm_streams m)((db, ns, DATA_FTYPE) \<mapsto> s),
     sm_files := (sm_files m)(ds_path s \<mapsto> bs)\<rparr>"

definition stream_currentPos :: "string \<Rightarrow> string \<Rightarrow> stream_manager \<Rightarrow> nat res" where
  "stream_currentPos db ns m = bindR (data_stream db ns m) (\<lambda>(s, _). Inr (ds_currentPos s))"

definition stream_seek :: "string \<Rightarrow> string \<Rightarrow> nat \<Rightarrow> stream_manager \<Rightarrow> stream_manager res" where
  "stream_seek db ns i m = bindR (data_stream db ns m) (\<lambda>(s, bs). Inr (set_stream db ns (ds_seek i s) bs m))"

definition ctl_writeBSON :: "string \<Rightarrow> string \<Rightarrow> bson \<Rightarrow> stream_manager \<Rightarrow> stream_manager res" where
  "ctl_writeBSON db ns obj m =
     bindR (data_stream db ns m) (\<lambda>(s, bs).
     let out = writeBSON obj in
     Inr (set_stream db ns (s\<lparr>ds_pos := ds_pos s + length out\<rparr>) (file_write out (ds_pos s) bs) m))"

definition ctl_readBSON :: "string \<Rightarrow> string \<Rightarrow> stream_manager \<Rightarrow> (bson \<times> stream_manager) res" where
  "ctl_readBSON db ns m =
     bindR (data_stream db ns m) (\<lambda>(s, bs).
     bindR (readBSON ''*'' (drop (ds_pos s) bs)) (\<lambda>(obj, rest).
     Inr (obj, set_stream db ns (s\<lparr>ds_pos := length bs - length rest\<rparr>) bs m)))"

text \<open>
  The steps that update and remove share: go to a record, read it, write it back with another status and
  return to the position of before.
\<close>

definition rewrite_status :: "string \<Rightarrow> string \<Rightarrow> nat \<Rightarrow> nat \<Rightarrow> int32 \<Rightarrow> stream_manager \<Rightarrow> stream_manager res" where
  "rewrite_status db ns posData currentPos status m =
     bindR (stream_seek db ns posData m) (\<lambda>m.
     bindR (ctl_readBSON db ns m) (\<lambda>(obj, m).
     bindR (stream_seek db ns posData m) (\<lambda>m.
     bindR (ctl_writeBSON db ns (bson_add ''_status'' (CInt status) obj) m) (stream_seek db ns currentPos))))"

section \<open>The index over the ids\<close>

text \<open>The index of a namespace, which is created when it is not there, and its tree.\<close>

definition ctl_index :: "(string \<Rightarrow> bptree) \<Rightarrow> string \<Rightarrow> string \<Rightarrow> index_factory \<Rightarrow> nat \<times> bptree \<times> index_factory" where
  "ctl_index load db ns f =
     (let (i, f) = if_index load db ns [''_id''] f in (i, snd (nested_get f db ns ! i), f))"

definition ctl_findIndex ::
    "(string \<Rightarrow> bptree) \<Rightarrow> string \<Rightarrow> string \<Rightarrow> string \<Rightarrow> index_factory \<Rightarrow> (index_elem option \<times> index_factory) res" where
  "ctl_findIndex load db ns documentId f =
     (let (i, impl, f) = ctl_index load db ns f in
      bindR (index_find impl (c_str documentId)) (\<lambda>index. Inr (index, f)))"

definition ctl_insertIndex ::
    "(string \<Rightarrow> bptree) \<Rightarrow> string \<Rightarrow> string \<Rightarrow> bson \<Rightarrow> nat \<Rightarrow> index_factory \<Rightarrow> index_factory res" where
  "ctl_insertIndex load db ns obj filePos f =
     bindR (getDJString obj ''_id'') (\<lambda>id.
     let (i, impl, f) = ctl_index load db ns f in
     bindR (index_add (c_str id) id filePos impl) (\<lambda>impl.
     Inr (if_set db ns ((nested_get f db ns)[i := (fst (nested_get f db ns ! i), impl)]) f)))"

definition ctl_updateIndex ::
    "(string \<Rightarrow> bptree) \<Rightarrow> string \<Rightarrow> string \<Rightarrow> bson \<Rightarrow> nat \<Rightarrow> index_factory \<Rightarrow> index_factory res" where
  "ctl_updateIndex load db ns obj filePos f =
     bindR (getDJString obj ''_id'') (\<lambda>id.
     let (i, impl, f) = ctl_index load db ns f in
     bindR (index_update (c_str id) filePos impl) (\<lambda>(_, impl).
     Inr (if_set db ns ((nested_get f db ns)[i := (fst (nested_get f db ns ! i), impl)]) f)))"

section \<open>Changing documents\<close>

text \<open>The arguments tid and trev are what uuid returns.\<close>

definition ctl_insert ::
    "(string \<Rightarrow> bptree) \<Rightarrow> string \<Rightarrow> string \<Rightarrow> string \<Rightarrow> string \<Rightarrow> bson \<Rightarrow> data_store \<Rightarrow> (bson \<times> data_store) res" where
  "ctl_insert load tid trev db ns obj st =
     bindR (sm_open db ns DATA_FTYPE (dt_streams st)) (\<lambda>m.
     let obj = fillRequiredFields tid trev obj in
     bindR (stream_currentPos db ns m) (\<lambda>pos.
     bindR (ctl_insertIndex load db ns obj pos (dt_indexes st)) (\<lambda>f.
     bindR (ctl_writeBSON db ns obj m) (\<lambda>m.
     Inr (obj, \<lparr>dt_streams = m, dt_indexes = f\<rparr>)))))"

definition ctl_update :: "(string \<Rightarrow> bptree) \<Rightarrow> string \<Rightarrow> string \<Rightarrow> bson \<Rightarrow> data_store \<Rightarrow> data_store res" where
  "ctl_update load db ns obj st =
     bindR (sm_open db ns DATA_FTYPE (dt_streams st)) (\<lambda>m.
     bindR (getDJString obj ''_id'') (\<lambda>id.
     bindR (ctl_findIndex load db ns id (dt_indexes st)) (\<lambda>(index, f).
     bindR (stream_currentPos db ns m) (\<lambda>currentPos.
     case index of
       None \<Rightarrow> Inl Undefined_behaviour
     | Some index \<Rightarrow>
         bindR (rewrite_status db ns (ie_posData index) currentPos 3 m) (\<lambda>m.
         bindR (stream_currentPos db ns m) (\<lambda>pos.
         bindR (ctl_updateIndex load db ns obj pos f) (\<lambda>f.
         bindR (ctl_writeBSON db ns (bson_add ''_status'' (CInt 1) obj) m) (\<lambda>m.
         Inr \<lparr>dt_streams = m, dt_indexes = f\<rparr>))))))))"

text \<open>The revision of a removal is not used.\<close>

definition ctl_remove ::
    "(string \<Rightarrow> bptree) \<Rightarrow> string \<Rightarrow> string \<Rightarrow> string \<Rightarrow> string \<Rightarrow> data_store \<Rightarrow> data_store res" where
  "ctl_remove load db ns documentId rev_no st =
     bindR (sm_open db ns DATA_FTYPE (dt_streams st)) (\<lambda>m.
     bindR (ctl_findIndex load db ns documentId (dt_indexes st)) (\<lambda>(index, f).
     case index of
       None \<Rightarrow> Inr \<lparr>dt_streams = m, dt_indexes = f\<rparr>
     | Some index \<Rightarrow>
         bindR (sm_open db ns DATA_FTYPE m) (\<lambda>m.
         bindR (stream_currentPos db ns m) (\<lambda>currentPos.
         bindR (rewrite_status db ns (ie_posData index) currentPos 2 m) (\<lambda>m.
         Inr \<lparr>dt_streams = m, dt_indexes = f\<rparr>)))))"

definition ctl_dropNamespace :: "string \<Rightarrow> string \<Rightarrow> data_store \<Rightarrow> (bool \<times> data_store) res" where
  "ctl_dropNamespace db ns st =
     bindR (sm_dropNamespace db ns (dt_streams st)) (\<lambda>(result, m). Inr (result, st\<lparr>dt_streams := m\<rparr>))"

definition ctl_dbs :: "data_store \<Rightarrow> string list" where
  "ctl_dbs st = sm_dbs (dt_streams st)"

definition ctl_namespaces :: "string \<Rightarrow> data_store \<Rightarrow> string list" where
  "ctl_namespaces db st = sm_namespaces db (dt_streams st)"

text \<open>
  What TxBufferManager::flushBuffer does with an operation of the log. Its documents have their ids
  and revisions, so uuid is not called.
\<close>

definition ctl_perform :: "(string \<Rightarrow> bptree) \<Rightarrow> tx_operation \<Rightarrow> data_store \<Rightarrow> data_store res" where
  "ctl_perform load oper st =
     (case op_action oper of
        TxInsert obj \<Rightarrow> bindR (ctl_insert load [] [] (op_db oper) (op_ns oper) obj st) (\<lambda>(_, st). Inr st)
      | TxUpdate obj \<Rightarrow> ctl_update load (op_db oper) (op_ns oper) obj st
      | TxRemove key rev_no \<Rightarrow> ctl_remove load (op_db oper) (op_ns oper) key rev_no st
      | TxDropNamespace \<Rightarrow> bindR (ctl_dropNamespace (op_db oper) (op_ns oper) st) (\<lambda>(_, st). Inr st)
      | TxOther c \<Rightarrow> Inr st)"

section \<open>Finding documents\<close>

text \<open>
  The loop of findFullScan over the mapped file, from the current position on. Every document takes
  eight bytes at least, so the length of the file bounds the rounds.
\<close>

primrec scan_loop :: "nat \<Rightarrow> int \<Rightarrow> string \<Rightarrow> expr option \<Rightarrow> byte list \<Rightarrow> int \<Rightarrow> bson list \<Rightarrow> bson list res" where
  "scan_loop 0 maxResults sel root bs n result = Inl No_fuel"
| "scan_loop (Suc k) maxResults sel root bs n result =
     (if bs = [] \<or> \<not> n < maxResults then Inr result
      else bindR (new_buffered bs) (\<lambda>(obj, len).
        let bs = drop len bs in
        bindR (buffered_getInt obj ''_status'') (\<lambda>status.
        if status = 1 then
          bindR (buffered_match root obj) (\<lambda>match.
          if match then
            bindR (buffered_select sel obj) (\<lambda>objSubselect.
            scan_loop k maxResults sel root bs (n + 1) (array_add result objSubselect))
          else scan_loop k maxResults sel root bs n result)
        else scan_loop k maxResults sel root bs n result)))"

definition data_file :: "string \<Rightarrow> string \<Rightarrow> stream_manager \<Rightarrow> byte list res" where
  "data_file db ns m =
     (case sm_files m (file_at (sm_dataDir m) db ns DATA_FTYPE) of
        None \<Rightarrow> Inl Undefined_behaviour | Some bs \<Rightarrow> Inr bs)"

definition ctl_findFullScan ::
    "string \<Rightarrow> string \<Rightarrow> string \<Rightarrow> string \<Rightarrow> expr option \<Rightarrow> bson option \<Rightarrow> stream_manager \<Rightarrow> (bson list \<times> stream_manager) res" where
  "ctl_findFullScan smax db ns sel root options m =
     bindR (sm_open db ns INDEX_FTYPE m) (\<lambda>m.
     bindR (sm_open db ns DATA_FTYPE m) (\<lambda>m.
     bindR (data_file db ns m) (\<lambda>bs.
     bindR (result_limit smax options) (\<lambda>maxResults.
     bindR (scan_loop (Suc (length bs)) maxResults sel root (drop 29 bs) 0 []) (\<lambda>result.
     Inr (result, m))))))"

text \<open>The first match of findFirst.\<close>

primrec first_loop :: "nat \<Rightarrow> string \<Rightarrow> expr option \<Rightarrow> byte list \<Rightarrow> bson option res" where
  "first_loop 0 sel root bs = Inl No_fuel"
| "first_loop (Suc k) sel root bs =
     (if bs = [] then Inr None
      else bindR (new_buffered bs) (\<lambda>(obj, len).
        let bs = drop len bs in
        bindR (buffered_getInt obj ''_status'') (\<lambda>status.
        if status = 1 then
          bindR (buffered_match root obj) (\<lambda>match.
          if match then bindR (buffered_select sel obj) (\<lambda>r. Inr (Some r))
          else first_loop k sel root bs)
        else first_loop k sel root bs)))"

definition ctl_findFirst ::
    "(string \<Rightarrow> (expr option \<times> string list) res) \<Rightarrow> string \<Rightarrow> string \<Rightarrow> string \<Rightarrow> string \<Rightarrow> data_store \<Rightarrow>
     (bson option \<times> data_store) res" where
  "ctl_findFirst parse db ns sel filt st =
     bindR (sm_open db ns DATA_FTYPE (dt_streams st)) (\<lambda>m.
     bindR (data_file db ns m) (\<lambda>bs.
     bindR (parse filt) (\<lambda>(root, tokens).
     bindR (first_loop (Suc (length bs)) sel root (drop 29 bs)) (\<lambda>result.
     Inr (result, st\<lparr>dt_streams := m\<rparr>)))))"

text \<open>
  The records that an index lists are read through a DBFileInputStream of their own, whose positions
  count from behind the mark of the file. A read that goes past the end of the file is the error
  Past_end, where the program goes on with what its buffers hold.
\<close>

definition input_offset :: "byte list \<Rightarrow> nat res" where
  "input_offset bs =
     bindR (file_readChars 0 bs) (\<lambda>(mark, pos).
     if c_str mark = ''djondb_dat'' then bindR (file_readChars pos bs) (\<lambda>(v, pos). Inr pos) else Inr 0)"

definition read_records :: "string \<Rightarrow> byte list \<Rightarrow> index_elem list \<Rightarrow> bson list res" where
  "read_records sel bs elements =
     bindR (input_offset bs) (\<lambda>offset.
     mapR (\<lambda>index. bindR (readBSON sel (drop (offset + ie_posData index) bs)) (\<lambda>(obj, _). Inr obj)) elements)"

text \<open>The parser gives the expression of a filter and the names that occur in it.\<close>

definition ctl_find ::
    "(string \<Rightarrow> bptree) \<Rightarrow> (string \<Rightarrow> (expr option \<times> string list) res) \<Rightarrow> string \<Rightarrow>
     string \<Rightarrow> string \<Rightarrow> string \<Rightarrow> string \<Rightarrow> bson option \<Rightarrow> data_store \<Rightarrow> (bson list \<times> data_store) res" where
  "ctl_find load parse smax db ns sel filt options st =
     bindR (parse filt) (\<lambda>(root, tokens).
     if if_containsIndex db ns tokens (dt_indexes st) then
       let (i, f) = if_index load db ns tokens (dt_indexes st) in
       bindR (index_list (snd (nested_get f db ns ! i)) (filter_match root)) (\<lambda>elements.
       bindR (data_file db ns (dt_streams st)) (\<lambda>bs.
       bindR (read_records sel bs elements) (\<lambda>result.
       Inr (result, st\<lparr>dt_indexes := f\<rparr>))))
     else
       bindR (ctl_findFullScan smax db ns sel root options (dt_streams st)) (\<lambda>(result, m).
       Inr (result, st\<lparr>dt_streams := m\<rparr>)))"

end
