(* ===== verification/Data_Refine.thy ===== *)
theory Data_Refine
  imports Data_Store
begin

text \<open>
  What the operations of DBController keep: the data file is the mark of the version followed by its
  records, the index points to records, and the documents of a namespace are the active records. The
  operations refine the changes of a list of documents, and a full scan reads that list.
\<close>

declare split_paired_All [simp del] split_paired_Ex [simp del]

section \<open>Records in a file\<close>

definition recs_bytes :: "bson list \<Rightarrow> byte list" where
  "recs_bytes recs = concat (map writeBSON recs)"

lemma recs_bytes_simps [simp]:
  "recs_bytes [] = []" "recs_bytes (r # recs) = writeBSON r @ recs_bytes recs"
  "recs_bytes (recs @ recs') = recs_bytes recs @ recs_bytes recs'"
  by (simp_all add: recs_bytes_def)

text \<open>Every record has an id and a status.\<close>

definition record_ok :: "bson \<Rightarrow> bool" where
  "record_ok r \<longleftrightarrow> bson_ok r \<and> (\<exists>docId. getContent r ''_id'' = Some (CString docId) \<and> no_nul docId) \<and>
     (\<exists>status. getContent r ''_status'' = Some (CInt status))"

definition live :: "bson \<Rightarrow> bool" where
  "live r \<longleftrightarrow> getContent r ''_status'' = Some (CInt 1)"

definition with_status :: "int32 \<Rightarrow> bson \<Rightarrow> bson" where
  "with_status status = bson_add ''_status'' (CInt status)"

lemma record_sorted: "record_ok r \<Longrightarrow> map_sorted r"
  by (simp add: record_ok_def bson_ok_def)

lemma with_status_get: "map_sorted r \<Longrightarrow>
   getContent (with_status k r) key = (if key = ''_status'' then Some (CInt k) else getContent r key)"
  by (simp add: with_status_def)

lemma record_id:
  assumes "record_ok r"
  shows "getDJString r ''_id'' = Inr (doc_id r)" "getContent r ''_id'' = Some (CString (doc_id r))" "no_nul (doc_id r)"
  using assms by (auto simp: record_ok_def getDJString_def doc_id_def getString_def)

lemma doc_id_status [simp]: "map_sorted r \<Longrightarrow> doc_id (with_status k r) = doc_id r"
  by (simp add: doc_id_def getString_def getDJString_def with_status_get)

lemma live_status [simp]: "map_sorted r \<Longrightarrow> live (with_status k r) \<longleftrightarrow> k = 1"
  by (simp add: live_def with_status_get)

text \<open>Replacing the value of a key that is there keeps the shape of the document.\<close>

lemma map_put_split:
  "map_sorted (xs @ (k, v) # ys) \<Longrightarrow> map_put k w (xs @ (k, v) # ys) = xs @ (k, w) # ys"
proof (induction xs)
  case Nil
  then have "map_erase k ys = ys" by (auto simp: map_erase_def filter_id_conv)
  moreover have "map_insert k w ys = (k, w) # ys" using Nil by (cases ys) auto
  ultimately show ?case by (simp add: map_put_def map_erase_def)
next
  case (Cons p xs)
  have "map_put k w (p # m) = p # map_put k w m" if "fst p < k" for m
    using that by (cases p) (auto simp: map_put_def map_erase_def)
  with Cons show ?case by auto
qed

lemma find_split: "map_find m k = Some v \<Longrightarrow> \<exists>xs ys. m = xs @ (k, v) # ys"
  by (induction m k rule: map_find.induct) (auto split: if_splits dest: map_find_in split_list, metis append_Cons)

lemma with_status_split:
  assumes "record_ok r"
  shows "\<exists>xs s ys. r = xs @ (''_status'', CInt s) # ys \<and> with_status k r = xs @ (''_status'', CInt k) # ys"
proof -
  obtain s where "getContent r ''_status'' = Some (CInt s)" using assms by (auto simp: record_ok_def)
  then obtain xs ys where r: "r = xs @ (''_status'', CInt s) # ys" using find_split by (fastforce simp: getContent_def)
  moreover have "with_status k r = xs @ (''_status'', CInt k) # ys"
    unfolding with_status_def bson_add_put r by (rule map_put_split) (use record_sorted [OF assms] r in simp)
  ultimately show ?thesis by blast
qed

lemma elements_ok_append [simp]: "elements_ok (xs @ ys) \<longleftrightarrow> elements_ok xs \<and> elements_ok ys"
  by (induction xs) auto

lemma writeElements_append [simp]: "writeElements (xs @ ys) = writeElements xs @ writeElements ys"
  by (induction xs) auto

lemma with_status_ok:
  assumes "record_ok r"
  shows "record_ok (with_status k r)" "length (writeBSON (with_status k r)) = length (writeBSON r)"
proof -
  obtain xs s ys where r: "r = xs @ (''_status'', CInt s) # ys" and w: "with_status k r = xs @ (''_status'', CInt k) # ys"
    using with_status_split [OF assms] by blast
  have "bson_ok (with_status k r)"
    using assms unfolding w unfolding r record_ok_def bson_ok_def by (auto simp: bson_sorted_iff map_sorted_def)
  then show "record_ok (with_status k r)"
    using assms with_status_get [OF record_sorted [OF assms]] by (auto simp: record_ok_def)
  show "length (writeBSON (with_status k r)) = length (writeBSON r)"
    unfolding w unfolding r by (simp add: writeBSON_def bson_length_def)
qed

definition record_at :: "bson list \<Rightarrow> nat \<Rightarrow> nat" where
  "record_at recs i = 29 + length (recs_bytes (take i recs))"

lemma record_split: "i < length recs \<Longrightarrow>
   recs_bytes recs = recs_bytes (take i recs) @ writeBSON (recs ! i) @ recs_bytes (drop (Suc i) recs)"
proof -
  assume "i < length recs"
  then have "recs = take i recs @ recs ! i # drop (Suc i) recs" by (rule id_take_nth_drop)
  then have "recs_bytes recs = recs_bytes (take i recs @ recs ! i # drop (Suc i) recs)" by (rule arg_cong)
  then show ?thesis by simp
qed

lemma record_at_less: "i < j \<Longrightarrow> j \<le> length recs \<Longrightarrow> record_at recs i < record_at recs j"
proof -
  assume "i < j" "j \<le> length recs"
  then have "recs_bytes (take j recs) = recs_bytes (take i (take j recs)) @ writeBSON (take j recs ! i) @
      recs_bytes (drop (Suc i) (take j recs))" by (intro record_split) simp
  with \<open>i < j\<close> show ?thesis by (simp add: record_at_def writeBSON_def write_long_def)
qed

lemma record_at_inj: "record_at recs i = record_at recs j \<Longrightarrow> i < length recs \<Longrightarrow> j < length recs \<Longrightarrow> i = j"
  using record_at_less by (metis less_imp_le less_irrefl linorder_neqE_nat)

lemma record_at_update [simp]:
  "length (writeBSON r) = length (writeBSON (recs ! k)) \<Longrightarrow> k < length recs \<Longrightarrow> record_at (recs[k := r]) i = record_at recs i"
proof -
  assume r: "length (writeBSON r) = length (writeBSON (recs ! k))" "k < length recs"
  have "map (length \<circ> writeBSON) (recs[k := r]) = map (length \<circ> writeBSON) recs"
    by (rule nth_equalityI) (use r in \<open>auto simp: nth_list_update\<close>)
  then have "map (length \<circ> writeBSON) (take i (recs[k := r])) = map (length \<circ> writeBSON) (take i recs)"
    by (simp only: take_map [symmetric])
  then show ?thesis by (simp add: record_at_def recs_bytes_def length_concat)
qed

lemma record_at_append [simp]: "i \<le> length recs \<Longrightarrow> record_at (recs @ rs) i = record_at recs i"
  by (simp add: record_at_def)

text \<open>Reading and rewriting the record at a position.\<close>

definition data_bytes :: "bson list \<Rightarrow> byte list" where
  "data_bytes recs = version_mark @ recs_bytes recs"

lemma drop_record: "i < length recs \<Longrightarrow>
   drop (record_at recs i) (data_bytes recs) = writeBSON (recs ! i) @ recs_bytes (drop (Suc i) recs)"
  by (simp add: record_at_def data_bytes_def record_split)

lemma read_record: "i < length recs \<Longrightarrow> record_ok (recs ! i) \<Longrightarrow>
   readBSON ''*'' (drop (record_at recs i) (data_bytes recs)) = Inr (recs ! i, recs_bytes (drop (Suc i) recs))"
  unfolding drop_record by (simp add: readBSON_star record_ok_def)

lemma write_record:
  assumes "i < length recs" "length (writeBSON r) = length (writeBSON (recs ! i))"
  shows "file_write (writeBSON r) (record_at recs i) (data_bytes recs) = data_bytes (recs[i := r])"
proof -
  let ?pre = "version_mark @ recs_bytes (take i recs)" and ?post = "recs_bytes (drop (Suc i) recs)"
  have old: "data_bytes recs = ?pre @ writeBSON (recs ! i) @ ?post" using record_split [OF assms(1)] by (simp add: data_bytes_def)
  have new: "data_bytes (recs[i := r]) = ?pre @ writeBSON r @ ?post"
    using record_split [of i "recs[i := r]"] assms(1) by (simp add: data_bytes_def)
  have "record_at recs i = length ?pre" by (simp add: record_at_def)
  then show ?thesis unfolding new unfolding old using assms(2) by (simp add: file_write_def)
qed

lemma append_record: "file_write (writeBSON r) (length (data_bytes recs)) (data_bytes recs) = data_bytes (recs @ [r])"
  by (simp add: file_write_def data_bytes_def)

lemma record_at_end: "record_at recs (length recs) = length (data_bytes recs)"
  by (simp add: record_at_def data_bytes_def)

lemma length_data_bytes: "29 \<le> length (data_bytes recs)" "length (data_bytes (recs @ [r])) = length (data_bytes recs) + length (writeBSON r)"
  by (simp_all add: data_bytes_def)

section \<open>The data stream\<close>

text \<open>The stream is at the end of its file.\<close>

definition stream_shows :: "stream_manager \<Rightarrow> string \<Rightarrow> string \<Rightarrow> db_stream \<Rightarrow> bson list \<Rightarrow> bool" where
  "stream_shows m db ns s recs \<longleftrightarrow> data_stream db ns m = Inr (s, data_bytes recs) \<and>
     ds_path s = sm_path m db ns DATA_FTYPE \<and> ds_pos s = length (data_bytes recs) \<and> ds_offset s \<le> 29"

lemma data_stream_iff: "data_stream db ns m = Inr (s, bs) \<longleftrightarrow>
   sm_streams m (db, ns, DATA_FTYPE) = Some s \<and> sm_files m (ds_path s) = Some bs"
  by (auto simp: data_stream_def split: option.splits)

lemma data_stream_set [simp]: "data_stream db ns (set_stream db ns s bs m) = Inr (s, bs)"
  by (simp add: data_stream_def set_stream_def)

lemma set_stream_set: "ds_path s2 = ds_path s \<Longrightarrow> set_stream db ns s2 bs2 (set_stream db ns s bs m) = set_stream db ns s2 bs2 m"
  by (simp add: set_stream_def)

lemma set_stream_same: "data_stream db ns m = Inr (s, bs) \<Longrightarrow> set_stream db ns s bs m = m"
  by (simp add: data_stream_iff set_stream_def fun_upd_idem)

lemma rewrite_status_shows:
  assumes "stream_shows m db ns s recs" "i < length recs" "record_ok (recs ! i)" "ds_offset s + posData = record_at recs i"
  shows "rewrite_status db ns posData (ds_currentPos s) k m =
    Inr (set_stream db ns s (data_bytes (recs[i := with_status k (recs ! i)])) m)"
proof -
  have s: "data_stream db ns m = Inr (s, data_bytes recs)" "ds_offset s \<le> ds_pos s"
    using assms(1) length_data_bytes(1) [of recs] by (auto simp: stream_shows_def)
  note w = with_status_ok [OF assms(3), of k, unfolded with_status_def]
  show ?thesis
    unfolding rewrite_status_def stream_seek_def ctl_readBSON_def ctl_writeBSON_def Let_def
    using s assms(2,3)
    by (simp add: set_stream_set read_record write_record w ds_seek_def assms(4) ds_currentPos_def with_status_def)
qed

lemma write_end_shows:
  assumes "stream_shows m db ns s recs"
  shows "ctl_writeBSON db ns r m = Inr (set_stream db ns (s\<lparr>ds_pos := length (data_bytes (recs @ [r]))\<rparr>) (data_bytes (recs @ [r])) m)"
  using assms append_record [of r recs] by (simp add: ctl_writeBSON_def stream_shows_def Let_def length_data_bytes(2))

lemma shows_set_stream:
  assumes "stream_shows m db ns s recs" "ds_path s2 = ds_path s" "ds_offset s2 = ds_offset s" "ds_pos s2 = length (data_bytes recs2)"
  shows "stream_shows (set_stream db ns s2 (data_bytes recs2) m) db ns s2 recs2"
  using assms by (simp add: stream_shows_def sm_path_def) (simp add: set_stream_def)

section \<open>The index over the ids\<close>

lemma findIndex_there: "if_findIndex algs keys = Some i \<Longrightarrow> i < length algs \<and> fst (algs ! i) = keys"
proof (induction algs keys arbitrary: i rule: if_findIndex.induct)
  case (2 implKeys impl algs keys)
  then show ?case by (cases i) (auto simp: keys_match_eq split: if_splits)
qed simp

lemma findIndex_set: "if_findIndex algs keys = Some i \<Longrightarrow> if_findIndex (algs[i := (fst (algs ! i), t)]) keys = Some i"
proof (induction algs keys arbitrary: i rule: if_findIndex.induct)
  case (2 implKeys impl algs keys)
  then show ?case by (cases i) (auto split: if_splits)
qed simp

lemma findIndex_new: "if_findIndex algs keys = None \<Longrightarrow> keys \<noteq> [] \<Longrightarrow> if_findIndex (algs @ [(keys, t)]) keys = Some (length algs)"
  by (induction algs keys rule: if_findIndex.induct) (auto simp: keys_match_eq split: if_splits)

text \<open>The tree that a namespace has, a new one if it has none.\<close>

definition id_tree :: "index_factory \<Rightarrow> string \<Rightarrow> string \<Rightarrow> bptree" where
  "id_tree f db ns =
     (case if_findIndex (nested_get f db ns) [''_id''] of None \<Rightarrow> new_tree | Some i \<Rightarrow> snd (nested_get f db ns ! i))"

text \<open>A process that found no index files.\<close>

abbreviation no_index_files :: "string \<Rightarrow> bptree" where
  "no_index_files \<equiv> \<lambda>_. new_tree"

lemma findAlgorithms_keeps:
  assumes "nested_sorted f"
  shows "if_findAlgorithms db ns f = (nested_get f db ns, nested_put db ns (nested_get f db ns) f)"
  by (simp add: if_findAlgorithms_def nested_put_def nested_get_def nested_at_def Let_def)

lemma ctl_index_tree:
  assumes "nested_sorted f"
  shows "\<exists>i f2. ctl_index no_index_files db ns f = (i, id_tree f db ns, f2) \<and> nested_sorted f2 \<and>
    if_findIndex (nested_get f2 db ns) [''_id''] = Some i \<and> id_tree f2 db ns = id_tree f db ns \<and>
    (\<forall>db' ns'. (db', ns') \<noteq> (db, ns) \<longrightarrow> nested_get f2 db' ns' = nested_get f db' ns')"
proof -
  let ?algs = "nested_get f db ns" and ?f = "nested_put db ns (nested_get f db ns) f"
  show ?thesis
  proof (cases "if_findIndex ?algs [''_id'']")
    case None
    let ?f2 = "if_set db ns (?algs @ [([''_id''], new_tree)]) ?f"
    have "nested_get ?f2 db ns = ?algs @ [([''_id''], new_tree)]" "nested_sorted ?f2"
      using assms by (simp_all add: if_set_def)
    moreover have "nested_get ?f2 db' ns' = nested_get f db' ns'" if "(db', ns') \<noteq> (db, ns)" for db' ns'
      using assms that by (simp add: if_set_def nested_get_put_other)
    ultimately show ?thesis using None findIndex_new [OF None] findAlgorithms_keeps [OF assms]
      by (intro exI [of _ "length ?algs"] exI [of _ ?f2])
        (simp add: ctl_index_def if_index_def id_tree_def)
  next
    case (Some i)
    have "nested_get ?f db ns = ?algs" "nested_sorted ?f" using assms by simp_all
    moreover have "nested_get ?f db' ns' = nested_get f db' ns'" if "(db', ns') \<noteq> (db, ns)" for db' ns'
      using assms that by (simp add: nested_get_put_other)
    ultimately show ?thesis using Some findAlgorithms_keeps [OF assms]
      by (intro exI [of _ i] exI [of _ ?f]) (simp add: ctl_index_def if_index_def id_tree_def)
  qed
qed

lemma id_tree_set:
  assumes "nested_sorted f" "if_findIndex (nested_get f db ns) [''_id''] = Some i"
    and "f2 = if_set db ns ((nested_get f db ns)[i := (fst (nested_get f db ns ! i), t)]) f"
  shows "nested_sorted f2" "id_tree f2 db ns = t"
    "(db', ns') \<noteq> (db, ns) \<Longrightarrow> nested_get f2 db' ns' = nested_get f db' ns'"
  using assms findIndex_set [OF assms(2), of t] findIndex_there [OF assms(2)]
  by (simp_all add: if_set_def id_tree_def nested_get_put_other)

text \<open>An index of a file: every id of a record is found, with the position of a record of that id.\<close>

definition points :: "nat \<Rightarrow> bson list \<Rightarrow> index_elem \<Rightarrow> nat \<Rightarrow> bool" where
  "points off recs e i \<longleftrightarrow> i < length recs \<and> off + ie_posData e = record_at recs i"

definition index_shows :: "nat \<Rightarrow> bson list \<Rightarrow> bptree \<Rightarrow> bool" where
  "index_shows off recs t \<longleftrightarrow> tree_ok t \<and> (\<forall>docId. no_nul docId \<longrightarrow>
     index_find t docId = Inr None \<and> docId \<notin> doc_id ` set recs \<or>
     (\<exists>e i. index_find t docId = Inr (Some e) \<and> points off recs e i \<and> doc_id (recs ! i) = docId))"

text \<open>The position is that of the only record of the id that may be active.\<close>

definition current :: "nat \<Rightarrow> bson list \<Rightarrow> bptree \<Rightarrow> string \<Rightarrow> bool" where
  "current off recs t docId \<longleftrightarrow> (\<forall>e i j. index_find t docId = Inr (Some e) \<longrightarrow> points off recs e i \<longrightarrow>
     j < length recs \<longrightarrow> j \<noteq> i \<longrightarrow> doc_id (recs ! j) = docId \<longrightarrow> \<not> live (recs ! j))"

lemma index_points:
  assumes "index_shows off recs t" "no_nul docId" "index_find t docId = Inr (Some e)"
  obtains i where "points off recs e i" "doc_id (recs ! i) = docId"
  using assms unfolding index_shows_def by fastforce

lemma index_missing:
  "index_shows off recs t \<Longrightarrow> no_nul docId \<Longrightarrow> index_find t docId = Inr None \<longleftrightarrow> docId \<notin> doc_id ` set recs"
  unfolding index_shows_def points_def by (metis imageI nth_mem old.sum.inject(2) option.distinct(1))

lemma points_unique: "points off recs e i \<Longrightarrow> points off recs e j \<Longrightarrow> i = j"
  using record_at_inj by (simp add: points_def) metis

lemma index_shows_none: "index_shows off [] t \<longleftrightarrow> tree_ok t \<and> (\<forall>docId. no_nul docId \<longrightarrow> index_find t docId = Inr None)"
  by (force simp: index_shows_def points_def)

lemma index_shows_new: "index_shows off [] new_tree"
  using bplus.ok_none bplus.look_none by (simp add: index_shows_none)

lemma doc_ids_status: "i < length recs \<Longrightarrow> map_sorted (recs ! i) \<Longrightarrow>
   doc_id (recs[i := with_status k (recs ! i)] ! j) = doc_id (recs ! j)"
  by (cases "j = i") simp_all

lemma points_status: "record_ok (recs ! i) \<Longrightarrow> i < length recs \<Longrightarrow>
   points off (recs[i := with_status k (recs ! i)]) e j \<longleftrightarrow> points off recs e j"
  by (simp add: points_def with_status_ok(2))

lemma points_append: "points off recs e i \<Longrightarrow> points off (recs @ rs) e i"
  by (simp add: points_def)

lemma ids_status: "i < length recs \<Longrightarrow> map_sorted (recs ! i) \<Longrightarrow>
   doc_id ` set (recs[i := with_status k (recs ! i)]) = doc_id ` set recs"
proof -
  assume i: "i < length recs" "map_sorted (recs ! i)"
  then have "map doc_id (recs[i := with_status k (recs ! i)]) = map doc_id recs"
    by (simp add: map_update list_update_same_conv)
  then show ?thesis by (metis set_map)
qed

lemma index_shows_status:
  assumes "index_shows off recs t" "i < length recs" "record_ok (recs ! i)"
  shows "index_shows off (recs[i := with_status k (recs ! i)]) t"
  using assms(1) record_sorted [OF assms(3)] assms(2,3)
  unfolding index_shows_def ids_status [OF assms(2) record_sorted [OF assms(3)]] points_status [OF assms(3,2)]
    doc_ids_status [OF assms(2) record_sorted [OF assms(3)]] by blast

lemma current_status:
  assumes "current off recs t docId" "i < length recs" "record_ok (recs ! i)" "k \<noteq> 1"
  shows "current off (recs[i := with_status k (recs ! i)]) t docId"
proof -
  have s: "map_sorted (recs ! i)" by (rule record_sorted [OF assms(3)])
  have "live (recs[i := with_status k (recs ! i)] ! j) \<Longrightarrow> live (recs ! j)" for j
    using s assms(2,4) by (cases "j = i") simp_all
  with assms s show ?thesis unfolding current_def by (metis (no_types, lifting) doc_ids_status points_status length_list_update)
qed

text \<open>Adding a record with a new id, and moving an id to a new record.\<close>

lemma index_add_record:
  assumes t: "index_shows off recs t" and docId: "no_nul docId" "docId \<notin> doc_id ` set recs" "doc_id r = docId"
    and pos: "off + pos = record_at recs (length recs)"
  shows "\<exists>u. index_add docId docId pos t = Inr u \<and> index_shows off (recs @ [r]) u \<and>
    (\<forall>d. no_nul d \<longrightarrow> current off recs t d \<longrightarrow> current off (recs @ [r]) u d)"
proof -
  have ok: "tree_ok t" and none: "index_find t docId = Inr None"
    using t index_missing [OF t docId(1)] docId(2) by (simp_all add: index_shows_def)
  from index_add_new [OF ok docId(1) none, of docId pos] obtain u where u: "index_add docId docId pos t = Inr u" "tree_ok u"
    "\<forall>k. no_nul k \<longrightarrow> index_find u k = (if k = docId then Inr (Some (entry_elem (docId, docId, pos))) else index_find t k)" by blast
  have new: "points off (recs @ [r]) (entry_elem (docId, docId, pos)) (length recs)"
    using pos by (simp add: points_def entry_elem_def)
  have "index_shows off (recs @ [r]) u"
    unfolding index_shows_def
  proof (intro conjI allI impI u(2))
    fix d assume d: "no_nul d"
    show "index_find u d = Inr None \<and> d \<notin> doc_id ` set (recs @ [r]) \<or>
      (\<exists>e i. index_find u d = Inr (Some e) \<and> points off (recs @ [r]) e i \<and> doc_id ((recs @ [r]) ! i) = d)"
    proof (cases "d = docId")
      case True
      have "doc_id ((recs @ [r]) ! length recs) = d" using True docId(3) by simp
      with u(3) d new True show ?thesis by auto
    next
      case False
      then have u_d: "index_find u d = index_find t d" using u(3) d by simp
      from t d consider "index_find t d = Inr None" "d \<notin> doc_id ` set recs"
        | e i where "index_find t d = Inr (Some e)" "points off recs e i" "doc_id (recs ! i) = d"
        unfolding index_shows_def by blast
      then show ?thesis
      proof cases
        case 1
        with u_d False docId(3) show ?thesis by simp
      next
        case 2
        then have "doc_id ((recs @ [r]) ! i) = d" by (simp add: points_def nth_append)
        with points_append [OF 2(2), of "[r]"] 2(1) u_d show ?thesis by auto
      qed
    qed
  qed
  moreover have "current off (recs @ [r]) u d" if d: "no_nul d" "current off recs t d" for d
  proof (cases "d = docId")
    case True
    have "doc_id (recs ! j) \<noteq> d" if "j < length recs" for j using docId(2) True that by (metis imageI nth_mem)
    then have "j < length (recs @ [r]) \<Longrightarrow> j \<noteq> length recs \<Longrightarrow> doc_id ((recs @ [r]) ! j) \<noteq> d" for j
      by (simp add: nth_append)
    with u(3) d(1) True new points_unique show ?thesis unfolding current_def by (metis old.sum.inject(2) option.inject)
  next
    case False
    have "i < length recs" if found: "index_find t d = Inr (Some e)" "points off (recs @ [r]) e i" for e i
    proof -
      obtain k where "points off recs e k" using index_points [OF t d(1) found(1)] by blast
      with points_append [OF this] points_unique [OF found(2)] show ?thesis by (metis points_def)
    qed
    moreover have "points off recs e i" if "points off (recs @ [r]) e i" "i < length recs" for e i
      using that by (simp add: points_def)
    moreover have "doc_id ((recs @ [r]) ! j) = d \<Longrightarrow> j < length (recs @ [r]) \<Longrightarrow> j < length recs" for j
      using False docId(3) by (cases "j = length recs") auto
    ultimately show ?thesis using u(3) d False unfolding current_def by (metis nth_append)
  qed
  ultimately show ?thesis using u(1) by blast
qed

lemma index_move_record:
  assumes t: "index_shows off recs t" and docId: "no_nul docId" "index_find t docId = Inr (Some e)" "doc_id r = docId"
    and pos: "off + pos = record_at recs (length recs)"
  shows "\<exists>u. index_update docId pos t = Inr (True, u) \<and> index_shows off (recs @ [r]) u \<and>
    (\<forall>d. no_nul d \<longrightarrow> d \<noteq> docId \<longrightarrow> current off recs t d \<longrightarrow> current off (recs @ [r]) u d) \<and>
    (if promoted docId t then index_find u docId = Inr (Some e)
     else index_find u docId = Inr (Some (e\<lparr>ie_posData := pos\<rparr>))) \<and> promoted docId u = promoted docId t"
proof -
  have ok: "tree_ok t" using t by (simp add: index_shows_def)
  from index_update_find [OF ok, of docId pos] obtain u where u: "index_update docId pos t = Inr (True, u)" "tree_ok u"
    "\<forall>k. index_find u k = (if dk k = dk docId \<and> \<not> promoted docId t
       then bindR (index_find t k) (\<lambda>r. Inr (map_option (\<lambda>e. e\<lparr>ie_posData := pos\<rparr>) r)) else index_find t k)"
    "promoted docId u = promoted docId t"
    using docId(2) by auto
  have other: "index_find u d = index_find t d" if "no_nul d" "d \<noteq> docId" for d
    using u(3) that docId(1) by (simp add: dk_inj)
  have own: "index_find u docId = (if promoted docId t then Inr (Some e) else Inr (Some (e\<lparr>ie_posData := pos\<rparr>)))"
    using u(3) docId(2) by simp
  obtain i where i: "points off recs e i" "doc_id (recs ! i) = docId" by (rule index_points [OF t docId(1,2)])
  have keep: "points off (recs @ [r]) e' k" "doc_id ((recs @ [r]) ! k) = doc_id (recs ! k)" if "points off recs e' k" for e' k
    using that by (simp_all add: points_def nth_append)
  have "index_shows off (recs @ [r]) u"
    unfolding index_shows_def
  proof (intro conjI allI impI u(2))
    fix d assume d: "no_nul d"
    show "index_find u d = Inr None \<and> d \<notin> doc_id ` set (recs @ [r]) \<or>
      (\<exists>e i. index_find u d = Inr (Some e) \<and> points off (recs @ [r]) e i \<and> doc_id ((recs @ [r]) ! i) = d)"
    proof (cases "d = docId")
      case True
      have "points off (recs @ [r]) (e\<lparr>ie_posData := pos\<rparr>) (length recs)" "doc_id ((recs @ [r]) ! length recs) = docId"
        using pos docId(3) by (simp_all add: points_def)
      with own True keep [OF i(1)] i(2) show ?thesis by (cases "promoted docId t") auto
    next
      case False
      from t d consider "index_find t d = Inr None" "d \<notin> doc_id ` set recs"
        | e' k where "index_find t d = Inr (Some e')" "points off recs e' k" "doc_id (recs ! k) = d"
        unfolding index_shows_def by blast
      then show ?thesis
      proof cases
        case 1
        with other [OF d False] False docId(3) show ?thesis by simp
      next
        case 2
        with other [OF d False] keep [OF 2(2)] show ?thesis by auto
      qed
    qed
  qed
  moreover have "current off (recs @ [r]) u d" if d: "no_nul d" "d \<noteq> docId" "current off recs t d" for d
    unfolding current_def
  proof (intro allI impI)
    fix e' k j
    assume a: "index_find u d = Inr (Some e')" "points off (recs @ [r]) e' k" "j < length (recs @ [r])" "j \<noteq> k"
      "doc_id ((recs @ [r]) ! j) = d"
    have f: "index_find t d = Inr (Some e')" using a(1) other [OF d(1,2)] by simp
    obtain k' where k': "points off recs e' k'" by (rule index_points [OF t d(1) f])
    have k: "k = k'" by (rule points_unique [OF a(2) keep(1) [OF k']])
    have j: "j < length recs" using a(3,5) d(2) docId(3) by (cases "j = length recs") auto
    with d(3) f k' k a(4,5) show "\<not> live ((recs @ [r]) ! j)" unfolding current_def by (simp add: nth_append)
  qed
  ultimately show ?thesis using u(1,4) own by (intro exI [of _ u]) (simp split: if_splits)
qed

text \<open>The documents are the active records.\<close>

definition docs_of :: "bson list \<Rightarrow> bson list" where
  "docs_of recs = filter live recs"

lemma docs_append [simp]: "docs_of (recs @ recs') = docs_of recs @ docs_of recs'"
  by (simp add: docs_of_def)

lemma docs_mark:
  assumes "i < length recs" "\<not> live x" "doc_id (recs ! i) = docId"
    and only: "\<And>j. j < length recs \<Longrightarrow> j \<noteq> i \<Longrightarrow> doc_id (recs ! j) = docId \<Longrightarrow> \<not> live (recs ! j)"
  shows "docs_of (recs[i := x]) = filter (\<lambda>r. doc_id r \<noteq> docId) (docs_of recs)"
proof -
  have part: "filter live xs = filter (\<lambda>r. live r \<and> doc_id r \<noteq> docId) xs"
    if "\<forall>r\<in>set xs. doc_id r = docId \<longrightarrow> \<not> live r" for xs
    using that by (intro filter_cong) auto
  have "\<forall>r\<in>set (take i recs). doc_id r = docId \<longrightarrow> \<not> live r"
    using only assms(1) by (auto simp: in_set_conv_nth)
  moreover have "\<forall>r\<in>set (drop (Suc i) recs). doc_id r = docId \<longrightarrow> \<not> live r"
    using only by (auto simp: in_set_conv_nth)
  moreover have "filter live (recs[i := x]) = filter live (take i recs) @ filter live (drop (Suc i) recs)"
    using assms(1,2) by (simp add: upd_conv_take_nth_drop)
  moreover have "filter (\<lambda>r. live r \<and> doc_id r \<noteq> docId) recs =
      filter (\<lambda>r. live r \<and> doc_id r \<noteq> docId) (take i recs) @ filter (\<lambda>r. live r \<and> doc_id r \<noteq> docId) (drop (Suc i) recs)"
    using assms(1,3) by (subst id_take_nth_drop [of i recs]) simp_all
  ultimately show ?thesis using part by (simp add: docs_of_def)
qed

section \<open>The store\<close>

text \<open>Names that are one component of a path, so that two namespaces have two files.\<close>

definition plain :: "string \<Rightarrow> bool" where
  "plain ns \<longleftrightarrow> no_nul ns \<and> CHR ''/'' \<notin> set ns"

lemma slash_split: "CHR ''/'' \<notin> set a \<Longrightarrow> CHR ''/'' \<notin> set b \<Longrightarrow> p @ CHR ''/'' # a = q @ CHR ''/'' # b \<longleftrightarrow> p = q \<and> a = b"
proof
  assume n: "CHR ''/'' \<notin> set a" "CHR ''/'' \<notin> set b" and eq: "p @ CHR ''/'' # a = q @ CHR ''/'' # b"
  then have "rev a @ CHR ''/'' # rev p = rev b @ CHR ''/'' # rev q" by (metis append.assoc append_Cons append_Nil rev.simps(2) rev_append)
  moreover have "takeWhile (\<lambda>c. c \<noteq> CHR ''/'') (rev x @ CHR ''/'' # y) = rev x" if "CHR ''/'' \<notin> set x" for x y
    using that by (intro takeWhile_stop) auto
  ultimately have "rev a = rev b" using n by metis
  with eq show "p = q \<and> a = b" by simp
qed simp

lemma file_at_inj:
  assumes "plain ns" "plain ns'"
  shows "file_at D db ns t = file_at D db' ns' t' \<longleftrightarrow> db = db' \<and> ns = ns' \<and> t = t'"
proof -
  have ext: "length (ftype_ext t) = 3" "CHR ''/'' \<notin> set (ftype_ext t)" for t by (cases t; simp)+
  have "ftype_ext t = ftype_ext t' \<longleftrightarrow> t = t'" by (cases t; cases t') simp_all
  moreover have "ns @ ''.'' @ ftype_ext t = ns' @ ''.'' @ ftype_ext t' \<longleftrightarrow> ns = ns' \<and> ftype_ext t = ftype_ext t'"
    using ext(1) by (metis append_eq_append_conv length_append same_append_eq append.assoc)
  moreover have "file_at D db ns t = file_at D db' ns' t' \<longleftrightarrow>
      db @ CHR ''/'' # (ns @ ''.'' @ ftype_ext t) = db' @ CHR ''/'' # (ns' @ ''.'' @ ftype_ext t')"
    using assms by (simp add: file_at_def concatStrings_def fileName_def plain_def)
  moreover have "CHR ''/'' \<notin> set (ns @ ''.'' @ ftype_ext t)" "CHR ''/'' \<notin> set (ns' @ ''.'' @ ftype_ext t')"
    using assms ext(2) by (auto simp: plain_def)
  ultimately show ?thesis using slash_split by metis
qed

text \<open>
  A namespace shows records: its data file holds them, its index points to them, and every id outside a
  set of stale ones is current. A namespace that was not used yet has no file.
\<close>

definition ns_shows :: "data_store \<Rightarrow> string \<Rightarrow> string \<Rightarrow> bson list \<Rightarrow> string set \<Rightarrow> bool" where
  "ns_shows st db ns recs stale \<longleftrightarrow> (let m = dt_streams st; t = id_tree (dt_indexes st) db ns in
     (\<forall>type. type \<notin> set (nested_get (sm_spaces m) db ns) \<longrightarrow> sm_files m (sm_path m db ns type) = None) \<and>
     (\<forall>r\<in>set recs. record_ok r) \<and>
     (if DATA_FTYPE \<in> set (nested_get (sm_spaces m) db ns)
      then \<exists>s. stream_shows m db ns s recs \<and> index_shows (ds_offset s) recs t \<and>
        (\<forall>d. no_nul d \<longrightarrow> d \<notin> stale \<longrightarrow> current (ds_offset s) recs t d)
      else recs = [] \<and> index_shows 0 [] t))"

definition store_shows :: "data_store \<Rightarrow> (string \<Rightarrow> string \<Rightarrow> bson list) \<Rightarrow> (string \<times> string \<times> string) set \<Rightarrow> bool" where
  "store_shows st R S \<longleftrightarrow> nested_sorted (sm_spaces (dt_streams st)) \<and> nested_sorted (dt_indexes st) \<and>
     \<not> sm_initializing (dt_streams st) \<and>
     (\<forall>db ns. plain ns \<longrightarrow> ns_shows st db ns (R db ns) {d. (db, ns, d) \<in> S})"

text \<open>What the record of a namespace depends on.\<close>

definition same_ns :: "data_store \<Rightarrow> data_store \<Rightarrow> string \<Rightarrow> string \<Rightarrow> bool" where
  "same_ns st st2 db ns \<longleftrightarrow> (let m = dt_streams st; m2 = dt_streams st2 in
     sm_dataDir m2 = sm_dataDir m \<and> nested_get (sm_spaces m2) db ns = nested_get (sm_spaces m) db ns \<and>
     sm_streams m2 (db, ns, DATA_FTYPE) = sm_streams m (db, ns, DATA_FTYPE) \<and>
     (\<forall>type. sm_files m2 (sm_path m db ns type) = sm_files m (sm_path m db ns type)) \<and>
     nested_get (dt_indexes st2) db ns = nested_get (dt_indexes st) db ns)"

lemma ns_shows_same:
  assumes "same_ns st st2 db ns" "ns_shows st db ns recs stale"
  shows "ns_shows st2 db ns recs stale"
proof -
  have p: "sm_path (dt_streams st2) = sm_path (dt_streams st)" using assms(1) by (simp add: same_ns_def sm_path_def Let_def)
  have "stream_shows (dt_streams st2) db ns s recs" if shows_s: "stream_shows (dt_streams st) db ns s recs" for s
  proof -
    have a: "sm_streams (dt_streams st) (db, ns, DATA_FTYPE) = Some s" "sm_files (dt_streams st) (ds_path s) = Some (data_bytes recs)"
      "ds_path s = sm_path (dt_streams st) db ns DATA_FTYPE" "ds_pos s = length (data_bytes recs)" "ds_offset s \<le> 29"
      using shows_s unfolding stream_shows_def data_stream_iff by blast+
    have f: "sm_files (dt_streams st2) (ds_path s) = Some (data_bytes recs)"
      "sm_streams (dt_streams st2) (db, ns, DATA_FTYPE) = Some s"
      using assms(1) a(1,2) unfolding a(3) by (simp_all add: same_ns_def Let_def)
    show ?thesis unfolding stream_shows_def data_stream_iff p by (intro conjI f a(3-5))
  qed
  moreover have "id_tree (dt_indexes st2) db ns = id_tree (dt_indexes st) db ns"
  proof -
    have "nested_get (dt_indexes st2) db ns = nested_get (dt_indexes st) db ns" using assms(1) by (simp add: same_ns_def Let_def)
    then show ?thesis by (simp only: id_tree_def)
  qed
  ultimately show ?thesis
    using assms unfolding ns_shows_def by (auto simp: same_ns_def Let_def p split: if_splits)
qed

lemma store_shows_change:
  assumes "store_shows st R S" "nested_sorted (sm_spaces (dt_streams st2))" "nested_sorted (dt_indexes st2)"
    and "\<not> sm_initializing (dt_streams st2)" "ns_shows st2 db ns recs {d. (db, ns, d) \<in> S2}"
    and "\<And>db' ns'. plain ns' \<Longrightarrow> (db', ns') \<noteq> (db, ns) \<Longrightarrow> same_ns st st2 db' ns' \<and> {d. (db', ns', d) \<in> S2} = {d. (db', ns', d) \<in> S}"
  shows "store_shows st2 (\<lambda>d n. if (d, n) = (db, ns) then recs else R d n) S2"
  unfolding store_shows_def
proof (intro conjI allI impI assms(2-4))
  fix db' ns' assume p: "plain ns'"
  show "ns_shows st2 db' ns' (if (db', ns') = (db, ns) then recs else R db' ns') {d. (db', ns', d) \<in> S2}"
  proof (cases "(db', ns') = (db, ns)")
    case True
    then have "db' = db" "ns' = ns" by simp_all
    with assms(5) show ?thesis by simp
  next
    case False
    note same = assms(6) [OF p False]
    have "ns_shows st db' ns' (R db' ns') {d. (db', ns', d) \<in> S}" using assms(1) p by (simp add: store_shows_def)
    from ns_shows_same [OF conjunct1 [OF same] this] show ?thesis
      unfolding conjunct2 [OF same] if_not_P [OF False] .
  qed
qed

subsection \<open>Opening a stream\<close>

definition fresh_stream :: "string \<Rightarrow> db_stream" where
  "fresh_stream path = \<lparr>ds_path = path, ds_pos = 29, ds_offset = 0, ds_version = v03\<rparr>"

lemma sm_open_fresh:
  assumes "nested_sorted (sm_spaces m)" "type \<notin> set (nested_get (sm_spaces m) db ns)" "sm_files m (sm_path m db ns type) = None"
    and "\<not> sm_initializing m"
  shows "sm_open db ns type m = Inr (saveDatabases (m\<lparr>sm_files := (sm_files m)(sm_path m db ns type \<mapsto> version_mark),
    sm_streams := (sm_streams m)((db, ns, type) \<mapsto> fresh_stream (sm_path m db ns type)),
    sm_spaces := nested_put db ns (insort type (nested_get (sm_spaces m) db ns)) (sm_spaces m)\<rparr>))"
proof -
  have "map_put db w (map_insert db (nested_at (sm_spaces m) db) (sm_spaces m)) = map_put db w (sm_spaces m)" for w
    using assms(1) by (intro map_find_ext) (auto simp: nested_sorted_def map_sorted_insert map_find_insert)
  moreover have "sm_path (m\<lparr>sm_spaces := x\<rparr>) db ns type = sm_path m db ns type" for x by (simp add: sm_path_def)
  moreover note types = nested_get_def [of "sm_spaces m" db ns, symmetric]
  moreover have "checkVersion (fresh_stream path) = Inr ()" for path by (simp add: fresh_stream_def)
  ultimately show ?thesis using assms(2-4) open_fresh [of "sm_path m db ns type"]
    unfolding sm_open_def Let_def types by (simp add: nested_put_def fresh_stream_def)
qed

lemma store_open_new:
  assumes st: "store_shows st R S" and ns: "plain ns" and new: "type \<notin> set (nested_get (sm_spaces (dt_streams st)) db ns)"
  shows "\<exists>m2. sm_open db ns type (dt_streams st) = Inr m2 \<and> store_shows (st\<lparr>dt_streams := m2\<rparr>) R S \<and>
    sm_dataDir m2 = sm_dataDir (dt_streams st) \<and>
    nested_get (sm_spaces m2) db ns = insort type (nested_get (sm_spaces (dt_streams st)) db ns)"
proof -
  define m where "m = dt_streams st"
  have sorted: "nested_sorted (sm_spaces m)" "nested_sorted (dt_indexes st)" "\<not> sm_initializing m"
    and here: "ns_shows st db ns (R db ns) {d. (db, ns, d) \<in> S}"
    using st ns by (simp_all add: store_shows_def m_def)
  have none: "type' \<notin> set (nested_get (sm_spaces m) db ns) \<Longrightarrow> sm_files m (sm_path m db ns type') = None" for type'
    using here by (simp add: ns_shows_def m_def Let_def)
  define m1 where "m1 = m\<lparr>sm_files := (sm_files m)(sm_path m db ns type \<mapsto> version_mark),
    sm_streams := (sm_streams m)((db, ns, type) \<mapsto> fresh_stream (sm_path m db ns type)),
    sm_spaces := nested_put db ns (insort type (nested_get (sm_spaces m) db ns)) (sm_spaces m)\<rparr>"
  define m2 where "m2 = saveDatabases m1"
  have opened: "sm_open db ns type m = Inr m2"
    unfolding m2_def m1_def using sorted none new by (intro sm_open_fresh) (simp_all add: m_def)
  have path: "sm_path m2 = sm_path m" by (simp add: m2_def m1_def sm_path_def)
  have files: "sm_files m2 (sm_path m db' ns' t) = (if (db', ns', t) = (db, ns, type) then Some version_mark
      else sm_files m (sm_path m db' ns' t))" if "plain ns'" for db' ns' t
    using catalog_no_stream [of "sm_dataDir m" db' ns' t] file_at_inj [OF that ns, of "sm_dataDir m" db' t db type]
    by (simp add: m2_def m1_def saveDatabases_def sm_path_def)
  have streams: "sm_streams m2 = (sm_streams m)((db, ns, type) \<mapsto> fresh_stream (sm_path m db ns type))"
    by (simp add: m2_def m1_def)
  have types: "nested_get (sm_spaces m2) db ns = insort type (nested_get (sm_spaces m) db ns)"
    using sorted(1) by (simp add: m2_def m1_def)
  let ?st2 = "st\<lparr>dt_streams := m2\<rparr>"
  have "ns_shows ?st2 db ns (R db ns) {d. (db, ns, d) \<in> S}"
  proof (cases "type = DATA_FTYPE")
    case True
    then have empty: "R db ns = []" "index_shows 0 [] (id_tree (dt_indexes st) db ns)"
      using here new by (simp_all add: ns_shows_def Let_def)
    let ?s = "fresh_stream (sm_path m db ns type)"
    have "stream_shows m2 db ns ?s []"
      using True files [OF ns, of db type] streams
      by (simp add: stream_shows_def data_stream_iff path fresh_stream_def data_bytes_def)
    moreover have "current 0 [] t d" for t d by (simp add: current_def)
    ultimately show ?thesis
      using empty True none types files [OF ns]
      by (auto simp: ns_shows_def Let_def path set_insort_key fresh_stream_def)
  next
    case False
    have "data_stream db ns m2 = data_stream db ns m" if "stream_shows m db ns s recs" for s recs
    proof -
      have "ds_path s = sm_path m db ns DATA_FTYPE" "sm_streams m (db, ns, DATA_FTYPE) = Some s"
        using that by (auto simp: stream_shows_def data_stream_iff)
      then show ?thesis using files [OF ns, of db DATA_FTYPE] streams False by (simp add: data_stream_def)
    qed
    then have "stream_shows m2 db ns s recs" if "stream_shows m db ns s recs" for s recs
      using that by (simp add: stream_shows_def path)
    then have "\<exists>s. stream_shows m db ns s (R db ns) \<and> P s \<Longrightarrow> \<exists>s. stream_shows m2 db ns s (R db ns) \<and> P s" for P
      by blast
    with False here none types files [OF ns] show ?thesis
      by (simp add: ns_shows_def Let_def path set_insort_key m_def [symmetric] split: if_splits)
  qed
  moreover have "same_ns st ?st2 db' ns'" if "plain ns'" "(db', ns') \<noteq> (db, ns)" for db' ns'
    using that files [OF that(1), of db'] streams nested_get_put_other [OF sorted(1) that(2)]
    by (auto simp: same_ns_def Let_def m_def [symmetric] m2_def m1_def)
  ultimately have "store_shows ?st2 (\<lambda>d n. if (d, n) = (db, ns) then R db ns else R d n) S"
    using sorted by (intro store_shows_change [OF st]) (simp_all add: m2_def m1_def)
  moreover have "(\<lambda>d n. if (d, n) = (db, ns) then R db ns else R d n) = R" by (intro ext) simp
  ultimately show ?thesis using opened types by (simp add: m_def [symmetric] m2_def m1_def)
qed

lemma store_open:
  assumes "store_shows st R S" "plain ns"
  shows "\<exists>m2. sm_open db ns type (dt_streams st) = Inr m2 \<and> store_shows (st\<lparr>dt_streams := m2\<rparr>) R S \<and>
    sm_dataDir m2 = sm_dataDir (dt_streams st) \<and> type \<in> set (nested_get (sm_spaces m2) db ns) \<and>
    set (nested_get (sm_spaces (dt_streams st)) db ns) \<subseteq> set (nested_get (sm_spaces m2) db ns)"
proof (cases "type \<in> set (nested_get (sm_spaces (dt_streams st)) db ns)")
  case True
  moreover have "nested_sorted (sm_spaces (dt_streams st))" using assms(1) by (simp add: store_shows_def)
  ultimately show ?thesis using sm_open_known [of "dt_streams st" type db ns] assms(1) by simp
next
  case False
  from store_open_new [OF assms False] show ?thesis by (auto simp: set_insort_key)
qed

subsection \<open>Changing one namespace\<close>

lemma set_stream_fields [simp]:
  "sm_spaces (set_stream db ns s bs m) = sm_spaces m" "sm_dataDir (set_stream db ns s bs m) = sm_dataDir m"
  "sm_initializing (set_stream db ns s bs m) = sm_initializing m" "sm_path (set_stream db ns s bs m) = sm_path m"
  by (simp_all add: set_stream_def sm_path_def)

text \<open>The open data stream of a namespace and the facts about it.\<close>

lemma store_stream:
  assumes "store_shows st R S" "plain ns" "DATA_FTYPE \<in> set (nested_get (sm_spaces (dt_streams st)) db ns)"
  obtains s where "stream_shows (dt_streams st) db ns s (R db ns)"
    "index_shows (ds_offset s) (R db ns) (id_tree (dt_indexes st) db ns)"
    "\<And>d. no_nul d \<Longrightarrow> (db, ns, d) \<notin> S \<Longrightarrow> current (ds_offset s) (R db ns) (id_tree (dt_indexes st) db ns) d"
    "\<forall>r\<in>set (R db ns). record_ok r" "nested_sorted (dt_indexes st)" "ds_offset s + ds_currentPos s = record_at (R db ns) (length (R db ns))"
proof -
  have "ns_shows st db ns (R db ns) {d. (db, ns, d) \<in> S}" "nested_sorted (dt_indexes st)"
    using assms(1,2) by (simp_all add: store_shows_def)
  with assms(3) obtain s where s: "stream_shows (dt_streams st) db ns s (R db ns)"
    "index_shows (ds_offset s) (R db ns) (id_tree (dt_indexes st) db ns)"
    "\<And>d. no_nul d \<Longrightarrow> (db, ns, d) \<notin> S \<Longrightarrow> current (ds_offset s) (R db ns) (id_tree (dt_indexes st) db ns) d"
    "\<forall>r\<in>set (R db ns). record_ok r" "nested_sorted (dt_indexes st)" by (auto simp: ns_shows_def Let_def)
  moreover have "ds_offset s + ds_currentPos s = record_at (R db ns) (length (R db ns))"
    using s(1) length_data_bytes(1) [of "R db ns"] by (simp add: stream_shows_def ds_currentPos_def record_at_end)
  ultimately show ?thesis by (rule that)
qed

abbreviation put_recs :: "string \<Rightarrow> string \<Rightarrow> bson list \<Rightarrow> (string \<Rightarrow> string \<Rightarrow> bson list) \<Rightarrow> string \<Rightarrow> string \<Rightarrow> bson list" where
  "put_recs db ns recs R \<equiv> \<lambda>d n. if (d, n) = (db, ns) then recs else R d n"

lemma store_put:
  assumes st: "store_shows st R S" "plain ns" "DATA_FTYPE \<in> set (nested_get (sm_spaces (dt_streams st)) db ns)"
    and s: "stream_shows (dt_streams st) db ns s (R db ns)"
    and s2: "ds_path s2 = ds_path s" "ds_offset s2 = ds_offset s" "ds_pos s2 = length (data_bytes recs2)"
    and f2: "nested_sorted f2" "\<forall>d n. (d, n) \<noteq> (db, ns) \<longrightarrow> nested_get f2 d n = nested_get (dt_indexes st) d n"
    and recs2: "\<forall>r\<in>set recs2. record_ok r" "index_shows (ds_offset s) recs2 (id_tree f2 db ns)"
    and S2: "\<And>d. no_nul d \<Longrightarrow> (db, ns, d) \<notin> S2 \<Longrightarrow> current (ds_offset s) recs2 (id_tree f2 db ns) d"
      "\<forall>d n docId. (d, n) \<noteq> (db, ns) \<longrightarrow> ((d, n, docId) \<in> S2 \<longleftrightarrow> (d, n, docId) \<in> S)"
  shows "store_shows \<lparr>dt_streams = set_stream db ns s2 (data_bytes recs2) (dt_streams st), dt_indexes = f2\<rparr> (put_recs db ns recs2 R) S2"
proof -
  let ?m = "dt_streams st" and ?m2 = "set_stream db ns s2 (data_bytes recs2) (dt_streams st)"
  have path: "ds_path s2 = sm_path ?m db ns DATA_FTYPE" using s s2(1) by (simp add: stream_shows_def)
  have files: "sm_files ?m2 (sm_path ?m db' ns' t) = (if (db', ns', t) = (db, ns, DATA_FTYPE) then Some (data_bytes recs2)
      else sm_files ?m (sm_path ?m db' ns' t))" if "plain ns'" for db' ns' t
    using file_at_inj [OF that st(2), of "sm_dataDir ?m" db' t db DATA_FTYPE]
    by (simp add: set_stream_def path sm_path_def)
  have "ns_shows st db ns (R db ns) {d. (db, ns, d) \<in> S}" using st(1,2) by (simp add: store_shows_def)
  then have "ns_shows \<lparr>dt_streams = ?m2, dt_indexes = f2\<rparr> db ns recs2 {d. (db, ns, d) \<in> S2}"
    using st(3) files [OF st(2)] recs2 S2(1) s2(2) shows_set_stream [OF s s2]
    by (auto simp: ns_shows_def Let_def)
  moreover have "same_ns st \<lparr>dt_streams = ?m2, dt_indexes = f2\<rparr> db' ns'" if "plain ns'" "(db', ns') \<noteq> (db, ns)" for db' ns'
  proof -
    have "sm_streams ?m2 (db', ns', DATA_FTYPE) = sm_streams ?m (db', ns', DATA_FTYPE)"
      using that(2) by (auto simp: set_stream_def)
    moreover have "nested_get f2 db' ns' = nested_get (dt_indexes st) db' ns'" using f2(2) that(2) by blast
    moreover have "sm_files ?m2 (sm_path ?m db' ns' t) = sm_files ?m (sm_path ?m db' ns' t)" for t
      using files [OF that(1), of db' t] that(2) by auto
    ultimately show ?thesis by (simp add: same_ns_def Let_def)
  qed
  moreover have "{d. (db', ns', d) \<in> S2} = {d. (db', ns', d) \<in> S}" if "(db', ns') \<noteq> (db, ns)" for db' ns'
    using that S2(2) by auto
  ultimately show ?thesis
    using st(1) f2(1) by (intro store_shows_change [OF st(1)]) (auto simp: store_shows_def)
qed

subsection \<open>The operations\<close>

lemma ctl_find_tree:
  assumes "nested_sorted f" "no_nul docId"
  shows "\<exists>f2. ctl_findIndex no_index_files db ns docId f = bindR (index_find (id_tree f db ns) docId) (\<lambda>index. Inr (index, f2)) \<and>
    nested_sorted f2 \<and> id_tree f2 db ns = id_tree f db ns \<and>
    (\<forall>db' ns'. (db', ns') \<noteq> (db, ns) \<longrightarrow> nested_get f2 db' ns' = nested_get f db' ns')"
proof -
  obtain i f2 where f2: "ctl_index no_index_files db ns f = (i, id_tree f db ns, f2)" "nested_sorted f2"
    "id_tree f2 db ns = id_tree f db ns" "\<forall>db' ns'. (db', ns') \<noteq> (db, ns) \<longrightarrow> nested_get f2 db' ns' = nested_get f db' ns'"
    using ctl_index_tree [OF assms(1), of db ns] by blast
  have "ctl_findIndex no_index_files db ns docId f = bindR (index_find (id_tree f db ns) docId) (\<lambda>index. Inr (index, f2))"
    using f2(1) assms(2) by (simp add: ctl_findIndex_def)
  with f2(2-4) show ?thesis by blast
qed

lemma ctl_insert_tree:
  assumes "nested_sorted f" "getDJString obj ''_id'' = Inr d" "no_nul d" "index_add d d pos (id_tree f db ns) = Inr u"
  shows "\<exists>f2. ctl_insertIndex no_index_files db ns obj pos f = Inr f2 \<and> nested_sorted f2 \<and> id_tree f2 db ns = u \<and>
    (\<forall>db' ns'. (db', ns') \<noteq> (db, ns) \<longrightarrow> nested_get f2 db' ns' = nested_get f db' ns')"
proof -
  obtain i f1 where f1: "ctl_index no_index_files db ns f = (i, id_tree f db ns, f1)" "nested_sorted f1"
    "if_findIndex (nested_get f1 db ns) [''_id''] = Some i"
    "\<forall>db' ns'. (db', ns') \<noteq> (db, ns) \<longrightarrow> nested_get f1 db' ns' = nested_get f db' ns'"
    using ctl_index_tree [OF assms(1), of db ns] by blast
  from id_tree_set [where t = u, OF f1(2,3) refl] f1(1,4) assms show ?thesis by (simp add: ctl_insertIndex_def)
qed

lemma ctl_update_tree:
  assumes "nested_sorted f" "getDJString obj ''_id'' = Inr d" "no_nul d" "index_update d pos (id_tree f db ns) = Inr (b, u)"
  shows "\<exists>f2. ctl_updateIndex no_index_files db ns obj pos f = Inr f2 \<and> nested_sorted f2 \<and> id_tree f2 db ns = u \<and>
    (\<forall>db' ns'. (db', ns') \<noteq> (db, ns) \<longrightarrow> nested_get f2 db' ns' = nested_get f db' ns')"
proof -
  obtain i f1 where f1: "ctl_index no_index_files db ns f = (i, id_tree f db ns, f1)" "nested_sorted f1"
    "if_findIndex (nested_get f1 db ns) [''_id''] = Some i"
    "\<forall>db' ns'. (db', ns') \<noteq> (db, ns) \<longrightarrow> nested_get f1 db' ns' = nested_get f db' ns'"
    using ctl_index_tree [OF assms(1), of db ns] by blast
  from id_tree_set [where t = u, OF f1(2,3) refl] f1(1,4) assms show ?thesis by (simp add: ctl_updateIndex_def)
qed

text \<open>The same position for the end of the file, as the stream and as the index count it.\<close>

lemma stream_end:
  assumes "stream_shows m db ns s recs"
  shows "stream_currentPos db ns m = Inr (ds_currentPos s)" "ds_offset s + ds_currentPos s = record_at recs (length recs)"
  using assms length_data_bytes(1) [of recs]
  by (simp_all add: stream_currentPos_def stream_shows_def ds_currentPos_def record_at_end)

lemma store_insert:
  assumes st: "store_shows st R S" "plain ns" and r: "r = fillRequiredFields tid trev obj" "record_ok r"
    and fresh: "doc_id r \<notin> doc_id ` set (R db ns)"
  shows "\<exists>st2. ctl_insert no_index_files tid trev db ns obj st = Inr (r, st2) \<and>
    store_shows st2 (put_recs db ns (R db ns @ [r]) R) S \<and>
    (\<exists>pos. index_add (doc_id r) (doc_id r) pos (id_tree (dt_indexes st) db ns) = Inr (id_tree (dt_indexes st2) db ns))"
proof -
  from store_open [OF st, of db DATA_FTYPE] obtain m2 where m2: "sm_open db ns DATA_FTYPE (dt_streams st) = Inr m2"
    "store_shows (st\<lparr>dt_streams := m2\<rparr>) R S" "DATA_FTYPE \<in> set (nested_get (sm_spaces m2) db ns)" by blast
  let ?st = "st\<lparr>dt_streams := m2\<rparr>" and ?recs = "R db ns" and ?t = "id_tree (dt_indexes st) db ns"
  obtain s where s: "stream_shows m2 db ns s ?recs" "index_shows (ds_offset s) ?recs ?t"
    "\<And>d. no_nul d \<Longrightarrow> (db, ns, d) \<notin> S \<Longrightarrow> current (ds_offset s) ?recs ?t d"
    "\<forall>r\<in>set ?recs. record_ok r" "nested_sorted (dt_indexes st)"
    by (rule store_stream [OF m2(2) st(2), of db]) (use m2(3) in auto)
  note rid = record_id [OF r(2)] and pos = stream_end [OF s(1)]
  from index_add_record [OF s(2) rid(3) fresh refl pos(2)] obtain u where u:
    "index_add (doc_id r) (doc_id r) (ds_currentPos s) ?t = Inr u" "index_shows (ds_offset s) (?recs @ [r]) u"
    "\<forall>d. no_nul d \<longrightarrow> current (ds_offset s) ?recs ?t d \<longrightarrow> current (ds_offset s) (?recs @ [r]) u d" by blast
  obtain f2 where f2: "ctl_insertIndex no_index_files db ns r (ds_currentPos s) (dt_indexes st) = Inr f2" "nested_sorted f2"
    "id_tree f2 db ns = u" "\<forall>d n. (d, n) \<noteq> (db, ns) \<longrightarrow> nested_get f2 d n = nested_get (dt_indexes st) d n"
    using ctl_insert_tree [OF s(5) rid(1,3) u(1)] by blast
  define s2 where "s2 = s\<lparr>ds_pos := length (data_bytes (?recs @ [r]))\<rparr>"
  have "ctl_insert no_index_files tid trev db ns obj st =
      Inr (r, \<lparr>dt_streams = set_stream db ns s2 (data_bytes (?recs @ [r])) m2, dt_indexes = f2\<rparr>)"
    using m2(1) r(1) pos(1) f2(1) write_end_shows [OF s(1), of r] by (simp add: ctl_insert_def Let_def s2_def)
  moreover have "store_shows \<lparr>dt_streams = set_stream db ns s2 (data_bytes (?recs @ [r])) (dt_streams ?st), dt_indexes = f2\<rparr>
      (put_recs db ns (?recs @ [r]) R) S"
  proof (rule store_put [OF m2(2) st(2)])
    show "current (ds_offset s) (?recs @ [r]) (id_tree f2 db ns) d" if "no_nul d" "(db, ns, d) \<notin> S" for d
      using s(3) [OF that] u(3) that(1) unfolding f2(3) by blast
  qed (use m2(3) s(1,4) r(2) f2(2-4) u(2) in \<open>simp_all add: s2_def\<close>)
  ultimately show ?thesis using u(1) f2(3) by auto
qed

text \<open>An update moves the id to the new record, if the key of the index was not promoted.\<close>

lemma index_update_record:
  assumes t: "index_shows off recs t" "\<forall>r\<in>set recs. record_ok r"
    and d: "no_nul d" "index_find t d = Inr (Some e)" "points off recs e i" "doc_id r = d"
    and pos: "off + pos = record_at recs (length recs)"
    and recs2: "recs2 = recs[i := with_status 3 (recs ! i)] @ [r]"
  shows "\<exists>u. index_update d pos t = Inr (True, u) \<and> index_shows off recs2 u \<and> (\<forall>d'. no_nul d' \<longrightarrow> current off recs t d' \<longrightarrow>
    (d' = d \<longrightarrow> \<not> promoted d t) \<longrightarrow> current off recs2 u d') \<and>
    (promoted d t \<longrightarrow> promoted d u \<and> index_find u d = Inr (Some e))"
proof -
  define recs1 where "recs1 = recs[i := with_status 3 (recs ! i)]"
  have il: "i < length recs" using d(3) by (simp add: points_def)
  then have ri: "record_ok (recs ! i)" using t(2) by simp
  have t1: "index_shows off recs1 t" using index_shows_status [OF t(1) il ri] by (simp add: recs1_def)
  have end1: "off + pos = record_at recs1 (length recs1)" using pos with_status_ok(2) [OF ri, of 3] il by (simp add: recs1_def)
  from index_move_record [OF t1 d(1,2,4) end1] obtain u where u:
    "index_update d pos t = Inr (True, u)" "index_shows off (recs1 @ [r]) u"
    "\<forall>d'. no_nul d' \<longrightarrow> d' \<noteq> d \<longrightarrow> current off recs1 t d' \<longrightarrow> current off (recs1 @ [r]) u d'"
    "if promoted d t then index_find u d = Inr (Some e) else index_find u d = Inr (Some (e\<lparr>ie_posData := pos\<rparr>))"
    "promoted d u = promoted d t" by blast
  have "current off (recs1 @ [r]) u d'" if d': "no_nul d'" "current off recs t d'" "d' = d \<longrightarrow> \<not> promoted d t" for d'
  proof (cases "d' = d")
    case False
    with current_status [OF d'(2) il ri, of 3] d'(1) u(3) show ?thesis by (simp add: recs1_def)
  next
    case True
    with d'(3) u(4) have e2: "index_find u d = Inr (Some (e\<lparr>ie_posData := pos\<rparr>))" by simp
    have new: "points off (recs1 @ [r]) (e\<lparr>ie_posData := pos\<rparr>) (length recs1)" using end1 by (simp add: points_def)
    have "\<not> live (recs1 ! j)" if j: "j < length recs1" "doc_id (recs1 ! j) = d" for j
    proof (cases "j = i")
      case True
      then show ?thesis using il record_sorted [OF ri] by (simp add: recs1_def)
    next
      case False
      with j il have "j < length recs" "doc_id (recs ! j) = d" "recs1 ! j = recs ! j" by (simp_all add: recs1_def)
      with d'(2) d(2,3) True False show ?thesis unfolding current_def by metis
    qed
    then show ?thesis
      unfolding current_def True using e2 points_unique [OF new] by (auto simp: nth_append less_Suc_eq)
  qed
  with u(1,2,4,5) recs2 show ?thesis by (auto simp: recs1_def)
qed

lemma status_set_ok: "\<forall>r\<in>set recs. record_ok r \<Longrightarrow> i < length recs \<Longrightarrow> \<forall>r\<in>set (recs[i := with_status k (recs ! i)]). record_ok r"
  using set_update_subset_insert [of recs i "with_status k (recs ! i)"] with_status_ok(1) [of "recs ! i" k] nth_mem [of i recs]
  by blast

lemma status_length:
  assumes "record_ok (recs ! i)" "i < length recs"
  shows "length (data_bytes (recs[i := with_status k (recs ! i)])) = length (data_bytes recs)"
  using record_at_end [of recs] record_at_end [of "recs[i := with_status k (recs ! i)]"]
    record_at_update [OF with_status_ok(2) [OF assms(1), of k] assms(2), of "length recs"] by simp

lemma rewrite_shows:
  assumes "stream_shows m db ns s recs" "\<forall>r\<in>set recs. record_ok r" "points (ds_offset s) recs e i"
    and m2: "m2 = set_stream db ns s (data_bytes (recs[i := with_status k (recs ! i)])) m"
  shows "rewrite_status db ns (ie_posData e) (ds_currentPos s) k m = Inr m2"
    and "stream_shows m2 db ns s (recs[i := with_status k (recs ! i)])"
proof -
  have i: "i < length recs" "ds_offset s + ie_posData e = record_at recs i" using assms(3) by (simp_all add: points_def)
  then have ri: "record_ok (recs ! i)" using assms(2) by simp
  show "rewrite_status db ns (ie_posData e) (ds_currentPos s) k m = Inr m2"
    unfolding m2 by (rule rewrite_status_shows [OF assms(1) i(1) ri i(2)])
  show "stream_shows m2 db ns s (recs[i := with_status k (recs ! i)])"
    unfolding m2 using assms(1) status_length [OF ri i(1)]
    by (intro shows_set_stream [OF assms(1)]) (simp_all add: stream_shows_def)
qed

lemma current_only:
  "current off recs t d \<Longrightarrow> index_find t d = Inr (Some e) \<Longrightarrow> points off recs e i \<Longrightarrow>
   \<forall>j<length recs. j \<noteq> i \<longrightarrow> doc_id (recs ! j) = d \<longrightarrow> \<not> live (recs ! j)"
  unfolding current_def by blast

lemma records_open:
  assumes "store_shows st R S" "plain ns" "R db ns \<noteq> []"
  shows "DATA_FTYPE \<in> set (nested_get (sm_spaces (dt_streams st)) db ns)"
proof -
  have "ns_shows st db ns (R db ns) {d. (db, ns, d) \<in> S}" using assms(1,2) by (simp add: store_shows_def)
  with assms(3) show ?thesis unfolding ns_shows_def Let_def by (metis (full_types))
qed

text \<open>The record that the index has for an id.\<close>

definition entry_at :: "data_store \<Rightarrow> string \<Rightarrow> string \<Rightarrow> bson list \<Rightarrow> string \<Rightarrow> nat \<Rightarrow> bool" where
  "entry_at st db ns recs docId i \<longleftrightarrow> (\<exists>s e. stream_shows (dt_streams st) db ns s recs \<and>
     index_find (id_tree (dt_indexes st) db ns) docId = Inr (Some e) \<and> points (ds_offset s) recs e i)"

lemma entry_at_unique: "entry_at st db ns recs d i \<Longrightarrow> entry_at st db ns recs d j \<Longrightarrow> i = j"
  unfolding entry_at_def stream_shows_def by (auto intro: points_unique)

lemma points_update:
  assumes "points off recs e i" "record_ok (recs ! i)"
  shows "points off (recs[i := with_status k (recs ! i)] @ [r]) e i"
  using assms with_status_ok(2) [OF assms(2), of k] by (simp add: points_def)

lemma store_update:
  assumes st: "store_shows st R S" "plain ns" and r: "r = with_status 1 obj" "map_sorted obj" "record_ok r"
    and known: "doc_id r \<in> doc_id ` set (R db ns)"
  shows "\<exists>st2 i. ctl_update no_index_files db ns obj st = Inr st2 \<and> i < length (R db ns) \<and> doc_id (R db ns ! i) = doc_id r \<and>
    ((db, ns, doc_id r) \<notin> S \<longrightarrow> (\<forall>j<length (R db ns). j \<noteq> i \<longrightarrow> doc_id (R db ns ! j) = doc_id r \<longrightarrow> \<not> live (R db ns ! j))) \<and>
    store_shows st2 (put_recs db ns ((R db ns)[i := with_status 3 (R db ns ! i)] @ [r]) R)
      (if promoted (doc_id r) (id_tree (dt_indexes st) db ns) then insert (db, ns, doc_id r) S else S) \<and>
    entry_at st db ns (R db ns) (doc_id r) i \<and>
    (promoted (doc_id r) (id_tree (dt_indexes st) db ns) \<longrightarrow> promoted (doc_id r) (id_tree (dt_indexes st2) db ns) \<and>
      entry_at st2 db ns ((R db ns)[i := with_status 3 (R db ns ! i)] @ [r]) (doc_id r) i)"
proof -
  let ?recs = "R db ns" and ?t = "id_tree (dt_indexes st) db ns" and ?d = "doc_id r"
  from store_open [OF st, of db DATA_FTYPE] obtain m2 where m2: "sm_open db ns DATA_FTYPE (dt_streams st) = Inr m2"
    "store_shows (st\<lparr>dt_streams := m2\<rparr>) R S" "DATA_FTYPE \<in> set (nested_get (sm_spaces m2) db ns)" by blast
  let ?st = "st\<lparr>dt_streams := m2\<rparr>"
  obtain s where s: "stream_shows m2 db ns s ?recs" "index_shows (ds_offset s) ?recs ?t"
    "\<And>d. no_nul d \<Longrightarrow> (db, ns, d) \<notin> S \<Longrightarrow> current (ds_offset s) ?recs ?t d"
    "\<forall>r\<in>set ?recs. record_ok r" "nested_sorted (dt_indexes st)"
    by (rule store_stream [OF m2(2) st(2), of db]) (use m2(3) in auto)
  note rid = record_id [OF r(3)]
  have oid: "getDJString obj ''_id'' = Inr ?d" using rid(2) r(1,2) by (simp add: getDJString_def with_status_get)
  obtain e where e: "index_find ?t ?d = Inr (Some e)"
    using s(2) rid(3) known index_missing [OF s(2) rid(3)] unfolding index_shows_def by blast
  obtain i where i: "points (ds_offset s) ?recs e i" "doc_id (?recs ! i) = ?d" by (rule index_points [OF s(2) rid(3) e])
  have il: "i < length ?recs" using i(1) by (simp add: points_def)
  obtain f2 where f2: "ctl_findIndex no_index_files db ns ?d (dt_indexes st) = bindR (index_find ?t ?d) (\<lambda>index. Inr (index, f2))"
    "nested_sorted f2" "id_tree f2 db ns = ?t" "\<forall>d n. (d, n) \<noteq> (db, ns) \<longrightarrow> nested_get f2 d n = nested_get (dt_indexes st) d n"
    using ctl_find_tree [OF s(5) rid(3)] by blast
  define recs1 where "recs1 = ?recs[i := with_status 3 (?recs ! i)]"
  define m3 where "m3 = set_stream db ns s (data_bytes recs1) m2"
  note rw = rewrite_shows [OF s(1,4) i(1) m3_def [unfolded recs1_def], folded recs1_def]
  from index_update_record [OF s(2,4) rid(3) e i(1) refl stream_end(2) [OF s(1)] refl, folded recs1_def] obtain u where u:
    "index_update ?d (ds_currentPos s) ?t = Inr (True, u)" "index_shows (ds_offset s) (recs1 @ [r]) u"
    "\<forall>d. no_nul d \<longrightarrow> current (ds_offset s) ?recs ?t d \<longrightarrow> (d = ?d \<longrightarrow> \<not> promoted ?d ?t) \<longrightarrow> current (ds_offset s) (recs1 @ [r]) u d"
    "promoted ?d ?t \<longrightarrow> promoted ?d u \<and> index_find u ?d = Inr (Some e)"
    by blast
  obtain f3 where f3: "ctl_updateIndex no_index_files db ns obj (ds_currentPos s) f2 = Inr f3" "nested_sorted f3"
    "id_tree f3 db ns = u" "\<forall>d n. (d, n) \<noteq> (db, ns) \<longrightarrow> nested_get f3 d n = nested_get f2 d n"
    using ctl_update_tree [OF f2(2) oid rid(3)] u(1) f2(3) by metis
  define s2 where "s2 = s\<lparr>ds_pos := length (data_bytes (recs1 @ [r]))\<rparr>"
  have wr: "ctl_writeBSON db ns r m3 = Inr (set_stream db ns s2 (data_bytes (recs1 @ [r])) m2)"
    using write_end_shows [OF rw(2)] by (simp add: s2_def m3_def set_stream_set)
  have run: "ctl_update no_index_files db ns obj st =
      Inr \<lparr>dt_streams = set_stream db ns s2 (data_bytes (recs1 @ [r])) m2, dt_indexes = f3\<rparr>"
    using m2(1) oid f2(1) e stream_end(1) [OF s(1)] stream_end(1) [OF rw(2)] rw(1) f3(1) wr r(1)
    by (simp add: ctl_update_def with_status_def)
  have "store_shows \<lparr>dt_streams = set_stream db ns s2 (data_bytes (recs1 @ [r])) (dt_streams ?st), dt_indexes = f3\<rparr>
      (put_recs db ns (recs1 @ [r]) R) (if promoted ?d ?t then insert (db, ns, ?d) S else S)"
  proof (rule store_put [OF m2(2) st(2)])
    show "current (ds_offset s) (recs1 @ [r]) (id_tree f3 db ns) d"
      if d: "no_nul d" "(db, ns, d) \<notin> (if promoted ?d ?t then insert (db, ns, ?d) S else S)" for d
      using d s(3) [of d] u(3) unfolding f3(3) by (auto split: if_splits)
    show "\<forall>r\<in>set (recs1 @ [r]). record_ok r" using status_set_ok [OF s(4) il, of 3] r(3) by (simp add: recs1_def)
    show "\<forall>d n docId. (d, n) \<noteq> (db, ns) \<longrightarrow>
      ((d, n, docId) \<in> (if promoted ?d ?t then insert (db, ns, ?d) S else S) \<longleftrightarrow> (d, n, docId) \<in> S)" by auto
  qed (use m2(3) s(1) f3(2-4) f2(4) u(2) in \<open>simp_all add: s2_def\<close>)
  then have result: "store_shows \<lparr>dt_streams = set_stream db ns s2 (data_bytes (recs1 @ [r])) m2, dt_indexes = f3\<rparr>
      (put_recs db ns (recs1 @ [r]) R) (if promoted ?d ?t then insert (db, ns, ?d) S else S)"
    by simp
  have "DATA_FTYPE \<in> set (nested_get (sm_spaces (dt_streams st)) db ns)"
    by (rule records_open [OF st]) (use known in auto)
  then have "m2 = dt_streams st" using sm_open_known [of "dt_streams st"] st(1) m2(1) by (simp add: store_shows_def)
  then have entry: "entry_at st db ns ?recs ?d i" using s(1) e i(1) by (auto simp: entry_at_def)
  have ri: "record_ok (?recs ! i)" using s(4) il by simp
  have stale: "promoted ?d (id_tree f3 db ns)" and entry2: "entry_at \<lparr>dt_streams = set_stream db ns s2 (data_bytes (recs1 @ [r])) m2, dt_indexes = f3\<rparr>
      db ns (recs1 @ [r]) ?d i" if "promoted ?d ?t"
  proof -
    have p: "promoted ?d u" "index_find u ?d = Inr (Some e)" using u(4) that by simp_all
    from p(1) show "promoted ?d (id_tree f3 db ns)" unfolding f3(3) .
    have "stream_shows (set_stream db ns s2 (data_bytes (recs1 @ [r])) m2) db ns s2 (recs1 @ [r])"
      by (rule shows_set_stream [OF s(1)]) (simp_all add: s2_def)
    moreover have "points (ds_offset s2) (recs1 @ [r]) e i"
      using points_update [OF i(1) ri, of 3 r] by (simp add: s2_def recs1_def)
    ultimately show "entry_at \<lparr>dt_streams = set_stream db ns s2 (data_bytes (recs1 @ [r])) m2, dt_indexes = f3\<rparr>
      db ns (recs1 @ [r]) ?d i" using p(2) f3(3) by (auto simp: entry_at_def)
  qed
  let ?st2 = "\<lparr>dt_streams = set_stream db ns s2 (data_bytes (recs1 @ [r])) m2, dt_indexes = f3\<rparr>"
  show ?thesis
  proof (intro exI [of _ i] exI [of _ ?st2] conjI impI)
    show "promoted ?d (id_tree (dt_indexes ?st2) db ns)" if "promoted ?d ?t" using stale [OF that] by simp
    show "entry_at ?st2 db ns (?recs[i := with_status 3 (?recs ! i)] @ [r]) ?d i" if "promoted ?d ?t"
      using entry2 [OF that] by (simp add: recs1_def)
    show "\<forall>j<length ?recs. j \<noteq> i \<longrightarrow> doc_id (?recs ! j) = ?d \<longrightarrow> \<not> live (?recs ! j)" if "(db, ns, ?d) \<notin> S"
      by (rule current_only [OF s(3) [OF rid(3) that] e i(1)])
  qed (fact run [unfolded recs1_def] il i(2) result [unfolded recs1_def] entry | simp only: run result recs1_def [symmetric])+
qed

lemma store_remove:
  assumes st: "store_shows st R S" "plain ns" and d: "no_nul d" and current: "d \<in> doc_id ` set (R db ns) \<Longrightarrow> (db, ns, d) \<notin> S"
  shows "\<exists>st2 recs2. ctl_remove no_index_files db ns d rev_no st = Inr st2 \<and> store_shows st2 (put_recs db ns recs2 R) S \<and>
    docs_of recs2 = filter (\<lambda>r. doc_id r \<noteq> d) (docs_of (R db ns)) \<and> doc_id ` set recs2 = doc_id ` set (R db ns)"
proof -
  let ?recs = "R db ns" and ?t = "id_tree (dt_indexes st) db ns"
  from store_open [OF st, of db DATA_FTYPE] obtain m2 where m2: "sm_open db ns DATA_FTYPE (dt_streams st) = Inr m2"
    "store_shows (st\<lparr>dt_streams := m2\<rparr>) R S" "DATA_FTYPE \<in> set (nested_get (sm_spaces m2) db ns)" by blast
  let ?st = "st\<lparr>dt_streams := m2\<rparr>"
  obtain s where s: "stream_shows m2 db ns s ?recs" "index_shows (ds_offset s) ?recs ?t"
    "\<And>d. no_nul d \<Longrightarrow> (db, ns, d) \<notin> S \<Longrightarrow> current (ds_offset s) ?recs ?t d"
    "\<forall>r\<in>set ?recs. record_ok r" "nested_sorted (dt_indexes st)"
    by (rule store_stream [OF m2(2) st(2), of db]) (use m2(3) in auto)
  have again: "sm_open db ns DATA_FTYPE m2 = Inr m2"
    using sm_open_known [OF _ m2(3)] m2(2) by (simp add: store_shows_def)
  obtain f2 where f2: "ctl_findIndex no_index_files db ns d (dt_indexes st) = bindR (index_find ?t d) (\<lambda>index. Inr (index, f2))"
    "nested_sorted f2" "id_tree f2 db ns = ?t" "\<forall>d n. (d, n) \<noteq> (db, ns) \<longrightarrow> nested_get f2 d n = nested_get (dt_indexes st) d n"
    using ctl_find_tree [OF s(5) d] by blast
  have put: "store_shows \<lparr>dt_streams = set_stream db ns s (data_bytes recs2) m2, dt_indexes = f2\<rparr> (put_recs db ns recs2 R) S"
    if "stream_shows (set_stream db ns s (data_bytes recs2) m2) db ns s recs2" "\<forall>r\<in>set recs2. record_ok r"
      "index_shows (ds_offset s) recs2 ?t" "\<And>d. no_nul d \<Longrightarrow> (db, ns, d) \<notin> S \<Longrightarrow> current (ds_offset s) recs2 ?t d" for recs2
    using store_put [OF m2(2) st(2), of db s s recs2 f2 S] that m2(3) s(1) f2(2-4) by (simp add: stream_shows_def)
  show ?thesis
  proof (cases "d \<in> doc_id ` set ?recs")
    case False
    then have none: "index_find ?t d = Inr None" using index_missing [OF s(2) d] by simp
    have same: "set_stream db ns s (data_bytes ?recs) m2 = m2" using s(1) by (simp add: stream_shows_def set_stream_same)
    have "filter (\<lambda>r. doc_id r \<noteq> d) (docs_of ?recs) = docs_of ?recs" using False by (auto simp: docs_of_def filter_filter intro!: filter_cong)
    with none m2(1) f2(1) put [of ?recs] s(1-4) same show ?thesis by (auto simp: ctl_remove_def)
  next
    case True
    then obtain e where e: "index_find ?t d = Inr (Some e)"
      using s(2) d index_missing [OF s(2) d] unfolding index_shows_def by blast
    obtain i where i: "points (ds_offset s) ?recs e i" "doc_id (?recs ! i) = d" by (rule index_points [OF s(2) d e])
    have il: "i < length ?recs" using i(1) by (simp add: points_def)
    then have ri: "record_ok (?recs ! i)" using s(4) by simp
    let ?recs2 = "?recs[i := with_status 2 (?recs ! i)]"
    note rw = rewrite_shows [OF s(1,4) i(1) refl, of 2]
    have "ctl_remove no_index_files db ns d rev_no st = Inr \<lparr>dt_streams = set_stream db ns s (data_bytes ?recs2) m2, dt_indexes = f2\<rparr>"
      using m2(1) again f2(1) e stream_end(1) [OF s(1)] rw(1) by (simp add: ctl_remove_def)
    moreover have "store_shows \<lparr>dt_streams = set_stream db ns s (data_bytes ?recs2) m2, dt_indexes = f2\<rparr> (put_recs db ns ?recs2 R) S"
      using rw(2) status_set_ok [OF s(4) il] index_shows_status [OF s(2) il ri] current_status [OF s(3) il ri] by (intro put) auto
    moreover have "docs_of ?recs2 = filter (\<lambda>r. doc_id r \<noteq> d) (docs_of ?recs)"
      using current_only [OF s(3) [OF d current [OF True]] e i(1)] record_sorted [OF ri] i(2) by (intro docs_mark [OF il]) auto
    moreover have "doc_id ` set ?recs2 = doc_id ` set ?recs" by (rule ids_status [OF il record_sorted [OF ri]])
    ultimately show ?thesis by blast
  qed
qed

section \<open>Scanning the file\<close>

lemma record_buffered:
  assumes "record_ok r"
  shows "\<exists>es. new_buffered (writeBSON r @ rest) = Inr (es, length (writeBSON r)) \<and> lies r es \<and>
    (\<forall>k. getContent r ''_status'' = Some (CInt k) \<longrightarrow> buffered_getInt es ''_status'' = Inr k)"
proof -
  have ok: "elements_ok r" "int32_size (length r)" using assms by (auto simp: record_ok_def bson_ok_def)
  from new_buffered_write [OF ok, of rest] obtain es where es: "new_buffered (writeBSON r @ rest) = Inr (es, length (writeBSON r))"
    "lies r es" by blast
  have "buffered_getInt es ''_status'' = Inr k" if "getContent r ''_status'' = Some (CInt k)" for k
    using lookup_value [OF es(2) ok(1), of "''_status''"] that
    by (auto simp: buffered_getInt_def buffered_read_def no_nul_def)
  with es show ?thesis by blast
qed

text \<open>What a filter and a selection do on an active document, in place as in memory.\<close>

definition scans :: "expr option \<Rightarrow> string \<Rightarrow> (bson \<Rightarrow> bool) \<Rightarrow> (bson \<Rightarrow> bson) \<Rightarrow> bson \<Rightarrow> bool" where
  "scans root sel P g r \<longleftrightarrow> bson_apart r \<and> filter_safe root r \<and> filter_match root r = Inr (P r) \<and>
     (P r \<longrightarrow> bson_select sel r = Inr (g r))"

lemma scans_buffered:
  assumes "record_ok r" "scans root sel P g r" "lies r es"
  shows "buffered_match root es = Inr (P r)" "P r \<Longrightarrow> buffered_select sel es = Inr (g r)"
proof -
  have ok: "elements_ok r" "bson_sorted r" using assms(1) by (auto simp: record_ok_def bson_ok_def)
  show "buffered_match root es = Inr (P r)"
    using buffered_match_eq [OF assms(3) ok(1), of root] assms(2) by (simp add: scans_def filter_match_def)
  show "P r \<Longrightarrow> buffered_select sel es = Inr (g r)"
    using buffered_select_eq [OF assms(3) ok(1) _ ok(2), of sel] assms(2) by (simp add: scans_def)
qed

lemma writeBSON_some: "writeBSON r \<noteq> []"
  by (simp add: writeBSON_def write_long_def)

lemma live_iff: "record_ok r \<Longrightarrow> \<exists>k. getContent r ''_status'' = Some (CInt k) \<and> (live r \<longleftrightarrow> k = 1)"
  by (auto simp: record_ok_def live_def)

lemma scan_records:
  "\<forall>r\<in>set recs. record_ok r \<Longrightarrow> \<forall>r\<in>set (docs_of recs). scans root sel P g r \<Longrightarrow> length recs < k \<Longrightarrow>
   scan_loop k maxResults sel root (recs_bytes recs) n result =
     Inr (result @ take (nat (maxResults - n)) (map g (filter P (docs_of recs))))"
proof (induction recs arbitrary: k n result)
  case Nil
  then show ?case by (cases k) (simp_all add: docs_of_def)
next
  case (Cons r recs)
  obtain j where k: "k = Suc j" using Cons.prems(3) by (cases k) auto
  have r: "record_ok r" using Cons.prems(1) by simp
  obtain es where es: "new_buffered (writeBSON r @ recs_bytes recs) = Inr (es, length (writeBSON r))" "lies r es"
    "\<forall>k. getContent r ''_status'' = Some (CInt k) \<longrightarrow> buffered_getInt es ''_status'' = Inr k"
    using record_buffered [OF r] by blast
  obtain st where st: "buffered_getInt es ''_status'' = Inr st" "live r \<longleftrightarrow> st = 1" using live_iff [OF r] es(3) by blast
  have IH: "scan_loop j maxResults sel root (recs_bytes recs) n result =
     Inr (result @ take (nat (maxResults - n)) (map g (filter P (docs_of recs))))" for n result
    using Cons.prems by (intro Cons.IH) (auto simp: k docs_of_def)
  show ?case
  proof (cases "n < maxResults")
    case False
    then show ?thesis by (simp add: k)
  next
    case True
    then have room: "nat (maxResults - n) = Suc (nat (maxResults - (n + 1)))" by simp
    show ?thesis
    proof (cases "live r")
      case False
      with True es(1) st IH writeBSON_some show ?thesis by (simp add: k docs_of_def)
    next
      case live: True
      then have "scans root sel P g r" using Cons.prems(2) by (simp add: docs_of_def)
      note b = scans_buffered [OF r this es(2)]
      with True live es(1) st IH writeBSON_some room show ?thesis
        by (cases "P r") (simp_all add: k docs_of_def array_add_def)
    qed
  qed
qed

lemma first_record:
  "\<forall>r\<in>set recs. record_ok r \<Longrightarrow> \<forall>r\<in>set (docs_of recs). scans root sel P g r \<Longrightarrow> length recs < k \<Longrightarrow>
   first_loop k sel root (recs_bytes recs) = Inr (case filter P (docs_of recs) of [] \<Rightarrow> None | r # _ \<Rightarrow> Some (g r))"
proof (induction recs arbitrary: k)
  case Nil
  then show ?case by (cases k) (simp_all add: docs_of_def)
next
  case (Cons r recs)
  obtain j where k: "k = Suc j" using Cons.prems(3) by (cases k) auto
  have r: "record_ok r" using Cons.prems(1) by simp
  obtain es where es: "new_buffered (writeBSON r @ recs_bytes recs) = Inr (es, length (writeBSON r))" "lies r es"
    "\<forall>k. getContent r ''_status'' = Some (CInt k) \<longrightarrow> buffered_getInt es ''_status'' = Inr k"
    using record_buffered [OF r] by blast
  obtain st where st: "buffered_getInt es ''_status'' = Inr st" "live r \<longleftrightarrow> st = 1" using live_iff [OF r] es(3) by blast
  have IH: "first_loop j sel root (recs_bytes recs) = Inr (case filter P (docs_of recs) of [] \<Rightarrow> None | r # _ \<Rightarrow> Some (g r))"
    using Cons.prems by (intro Cons.IH) (auto simp: k docs_of_def)
  show ?case
  proof (cases "live r")
    case False
    with es(1) st IH writeBSON_some show ?thesis by (simp add: k docs_of_def)
  next
    case True
    then have "scans root sel P g r" using Cons.prems(2) by (simp add: docs_of_def)
    note b = scans_buffered [OF r this es(2)]
    with True es(1) st IH writeBSON_some show ?thesis by (cases "P r") (simp_all add: k docs_of_def)
  qed
qed

lemma records_shorter: "length recs \<le> length (recs_bytes recs)"
proof (induction recs)
  case (Cons r recs)
  moreover have "1 \<le> length (writeBSON r)" using writeBSON_some [of r] by (cases "writeBSON r") auto
  ultimately show ?case by simp
qed simp

lemma store_file:
  assumes "store_shows st R S" "plain ns" "DATA_FTYPE \<in> set (nested_get (sm_spaces (dt_streams st)) db ns)"
  shows "data_file db ns (dt_streams st) = Inr (data_bytes (R db ns))" "drop 29 (data_bytes (R db ns)) = recs_bytes (R db ns)"
    "\<forall>r\<in>set (R db ns). record_ok r" "length (R db ns) < Suc (length (data_bytes (R db ns)))"
proof -
  obtain s where s: "stream_shows (dt_streams st) db ns s (R db ns)" "\<forall>r\<in>set (R db ns). record_ok r"
    by (rule store_stream [OF assms])
  then show "data_file db ns (dt_streams st) = Inr (data_bytes (R db ns))"
    by (auto simp: data_file_def stream_shows_def data_stream_iff sm_path_def split: option.splits)
  show "\<forall>r\<in>set (R db ns). record_ok r" by (rule s(2))
  show "drop 29 (data_bytes (R db ns)) = recs_bytes (R db ns)" "length (R db ns) < Suc (length (data_bytes (R db ns)))"
    using records_shorter [of "R db ns"] by (simp_all add: data_bytes_def)
qed

lemma store_scan:
  assumes "store_shows st R S" "plain ns" "\<forall>r\<in>set (docs_of (R db ns)). scans root sel P g r" "result_limit smax options = Inr k"
  shows "\<exists>m2. ctl_findFullScan smax db ns sel root options (dt_streams st) =
      Inr (take (nat k) (map g (filter P (docs_of (R db ns)))), m2) \<and> store_shows (st\<lparr>dt_streams := m2\<rparr>) R S"
proof -
  from store_open [OF assms(1,2), of db INDEX_FTYPE] obtain m1 where m1: "sm_open db ns INDEX_FTYPE (dt_streams st) = Inr m1"
    "store_shows (st\<lparr>dt_streams := m1\<rparr>) R S" by blast
  from store_open [OF m1(2) assms(2), of db DATA_FTYPE] obtain m2 where m2: "sm_open db ns DATA_FTYPE m1 = Inr m2"
    "store_shows (st\<lparr>dt_streams := m2\<rparr>) R S" "DATA_FTYPE \<in> set (nested_get (sm_spaces m2) db ns)" by auto
  have data: "data_file db ns m2 = Inr (data_bytes (R db ns))" "drop 29 (data_bytes (R db ns)) = recs_bytes (R db ns)"
    "\<forall>r\<in>set (R db ns). record_ok r" "length (R db ns) < Suc (length (data_bytes (R db ns)))"
    using store_file [OF m2(2) assms(2), of db] m2(3) by simp_all
  from scan_records [OF data(3) assms(3) data(4), of k 0 "[]"] m1(1) m2(1,2) data(1,2) assms(4) show ?thesis
    by (simp add: ctl_findFullScan_def del: scan_loop.simps)
qed

lemma store_first:
  assumes "store_shows st R S" "plain ns" "\<forall>r\<in>set (docs_of (R db ns)). scans root sel P g r" "parse filt = Inr (root, tokens)"
  shows "\<exists>st2. ctl_findFirst parse db ns sel filt st =
      Inr (case filter P (docs_of (R db ns)) of [] \<Rightarrow> None | r # _ \<Rightarrow> Some (g r), st2) \<and> store_shows st2 R S"
proof -
  from store_open [OF assms(1,2), of db DATA_FTYPE] obtain m2 where m2: "sm_open db ns DATA_FTYPE (dt_streams st) = Inr m2"
    "store_shows (st\<lparr>dt_streams := m2\<rparr>) R S" "DATA_FTYPE \<in> set (nested_get (sm_spaces m2) db ns)" by blast
  have data: "data_file db ns m2 = Inr (data_bytes (R db ns))" "drop 29 (data_bytes (R db ns)) = recs_bytes (R db ns)"
    "\<forall>r\<in>set (R db ns). record_ok r" "length (R db ns) < Suc (length (data_bytes (R db ns)))"
    using store_file [OF m2(2) assms(2), of db] m2(3) by simp_all
  from first_record [OF data(3) assms(3) data(4)] m2(1,2) data(1,2) assms(4) show ?thesis
    by (simp add: ctl_findFirst_def del: first_loop.simps)
qed

end
