(* ===== verification/Data_Run.thy ===== *)
theory Data_Run
  imports Data_Refine
begin

text \<open>
  Runs of operations on the database (the switch of TxBufferManager::flushBuffer over DBController):
  what the store holds after a run is what the operations do to lists of documents, and a find reads
  those lists.
\<close>

declare split_paired_All [simp del] split_paired_Ex [simp del]

section \<open>The specification\<close>

text \<open>
  The documents of the namespaces, and sets of ids: those that an insert has used, and those whose entry
  in the index may point to an old record, because they were updated.
\<close>

type_synonym doc_store = "string \<Rightarrow> string \<Rightarrow> bson list"
type_synonym id_set = "(string \<times> string \<times> string) set"

text \<open>DBController gives every document the active status.\<close>

fun in_store :: "tx_action \<Rightarrow> tx_action" where
  "in_store (TxInsert obj) = TxInsert (with_status 1 obj)"
| "in_store (TxUpdate obj) = TxUpdate (with_status 1 obj)"
| "in_store action = action"

definition docs_step :: "tx_operation \<Rightarrow> doc_store \<Rightarrow> doc_store" where
  "docs_step oper D = (\<lambda>db ns. if (db, ns) = (op_db oper, op_ns oper)
     then view_step (in_store (op_action oper)) (D db ns) else D db ns)"

definition docs_run :: "tx_operation list \<Rightarrow> doc_store \<Rightarrow> doc_store" where
  "docs_run ops D = fold docs_step ops D"

definition used_step :: "tx_operation \<Rightarrow> id_set \<Rightarrow> id_set" where
  "used_step oper U = (case op_action oper of
     TxInsert obj \<Rightarrow> insert (op_db oper, op_ns oper, doc_id obj) U | _ \<Rightarrow> U)"

definition stale_step :: "tx_operation \<Rightarrow> id_set \<Rightarrow> id_set" where
  "stale_step oper S = (case op_action oper of
     TxUpdate obj \<Rightarrow> insert (op_db oper, op_ns oper, doc_id obj) S | _ \<Rightarrow> S)"

text \<open>A document that can be stored, once it has its status.\<close>

definition storable :: "bson \<Rightarrow> bool" where
  "storable obj \<longleftrightarrow> map_sorted obj \<and> record_ok (with_status 1 obj)"

text \<open>
  The operations that the store follows: a new id for an insert, an id that is there and was not updated
  before for an update, and for a removal the revision of the document.
\<close>

definition op_ok :: "doc_store \<Rightarrow> id_set \<Rightarrow> id_set \<Rightarrow> tx_operation \<Rightarrow> bool" where
  "op_ok D U S oper \<longleftrightarrow> plain (op_ns oper) \<and>
     (case op_action oper of
        TxInsert obj \<Rightarrow> storable obj \<and> bson_has obj ''_id'' \<and> bson_has obj ''_revision'' \<and>
          (op_db oper, op_ns oper, doc_id obj) \<notin> U
      | TxUpdate obj \<Rightarrow> storable obj \<and> (op_db oper, op_ns oper, doc_id obj) \<in> U \<and>
          (op_db oper, op_ns oper, doc_id obj) \<notin> S
      | TxRemove key rev_no \<Rightarrow> no_nul key \<and> (op_db oper, op_ns oper, key) \<notin> S \<and>
          (\<forall>r\<in>set (D (op_db oper) (op_ns oper)). doc_id r = key \<longrightarrow> doc_revision r = rev_no)
      | TxDropNamespace \<Rightarrow> False
      | TxOther c \<Rightarrow> True)"

fun run_ok :: "doc_store \<Rightarrow> id_set \<Rightarrow> id_set \<Rightarrow> tx_operation list \<Rightarrow> bool" where
  "run_ok D U S [] \<longleftrightarrow> True"
| "run_ok D U S (oper # ops) \<longleftrightarrow>
     op_ok D U S oper \<and> run_ok (docs_step oper D) (used_step oper U) (stale_step oper S) ops"

section \<open>What a store holds\<close>

definition only_ids :: "index_factory \<Rightarrow> bool" where
  "only_ids f \<longleftrightarrow> nested_sorted f \<and> (\<forall>db ns. \<forall>p\<in>set (nested_get f db ns). fst p = [''_id''])"

definition holds_docs :: "data_store \<Rightarrow> doc_store \<Rightarrow> id_set \<Rightarrow> id_set \<Rightarrow> bool" where
  "holds_docs st D U S \<longleftrightarrow> only_ids (dt_indexes st) \<and>
     (\<exists>R. store_shows st R S \<and> (\<forall>db ns. D db ns = docs_of (R db ns)) \<and>
       (\<forall>db ns d. (db, ns, d) \<in> U \<longleftrightarrow> d \<in> doc_id ` set (R db ns)))"

lemma holdsI:
  assumes "only_ids (dt_indexes st)" "store_shows st R S" "\<And>db ns. D db ns = docs_of (R db ns)"
    and "\<And>db ns d. (db, ns, d) \<in> U \<longleftrightarrow> d \<in> doc_id ` set (R db ns)"
  shows "holds_docs st D U S"
  using assms unfolding holds_docs_def by blast

lemma only_ids_put:
  assumes "only_ids f" "\<forall>p\<in>set algs. fst p = [''_id'']"
  shows "only_ids (nested_put db ns algs f)"
proof -
  have s: "nested_sorted f" using assms(1) by (simp add: only_ids_def)
  have "\<forall>p\<in>set (nested_get (nested_put db ns algs f) db' ns'). fst p = [''_id'']" for db' ns'
    using assms s nested_get_put_other [OF s, of db' ns' db ns algs]
    by (cases "(db', ns') = (db, ns)") (auto simp: only_ids_def)
  with s show ?thesis by (simp add: only_ids_def)
qed

lemma only_ids_index:
  assumes "only_ids f" "ctl_index no_index_files db ns f = (i, t, f2)"
  shows "only_ids f2" "only_ids (if_set db ns ((nested_get f2 db ns)[i := (fst (nested_get f2 db ns ! i), u)]) f2)"
proof -
  have f: "\<forall>p\<in>set (nested_get f db ns). fst p = [''_id'']" "nested_sorted f" using assms(1) by (auto simp: only_ids_def)
  show f2: "only_ids f2"
    using assms f only_ids_put [OF assms(1), of "nested_get f db ns" db ns]
    by (auto simp: ctl_index_def if_index_def findAlgorithms_keeps if_set_def split: option.splits intro!: only_ids_put)
  let ?algs = "nested_get f2 db ns"
  have k: "\<forall>p\<in>set ?algs. fst p = [''_id'']" using f2 by (auto simp: only_ids_def)
  have "\<forall>p\<in>set (?algs[i := (fst (?algs ! i), u)]). fst p = [''_id'']"
  proof (cases "i < length ?algs")
    case True
    with k set_update_subset_insert [of ?algs i "(fst (?algs ! i), u)"] nth_mem [OF True] show ?thesis by auto
  next
    case False
    then have "?algs[i := (fst (?algs ! i), u)] = ?algs" by (intro list_update_beyond) simp
    with k show ?thesis by metis
  qed
  with f2 show "only_ids (if_set db ns (?algs[i := (fst (?algs ! i), u)]) f2)"
    unfolding if_set_def by (intro only_ids_put)
qed

lemma only_ids_ops:
  "only_ids f \<Longrightarrow> ctl_findIndex no_index_files db ns d f = Inr (x, f2) \<Longrightarrow> only_ids f2"
  "only_ids f \<Longrightarrow> ctl_insertIndex no_index_files db ns obj pos f = Inr f2 \<Longrightarrow> only_ids f2"
  "only_ids f \<Longrightarrow> ctl_updateIndex no_index_files db ns obj pos f = Inr f2 \<Longrightarrow> only_ids f2"
  by (auto simp: ctl_findIndex_def ctl_insertIndex_def ctl_updateIndex_def bindR_def split: sum.splits prod.splits
      dest: only_ids_index)

lemma only_ids_perform:
  "only_ids (dt_indexes st) \<Longrightarrow> ctl_insert no_index_files tid trev db ns obj st = Inr (r, st2) \<Longrightarrow> only_ids (dt_indexes st2)"
  "only_ids (dt_indexes st) \<Longrightarrow> ctl_update no_index_files db ns obj st = Inr st2 \<Longrightarrow> only_ids (dt_indexes st2)"
  "only_ids (dt_indexes st) \<Longrightarrow> ctl_remove no_index_files db ns d rev_no st = Inr st2 \<Longrightarrow> only_ids (dt_indexes st2)"
  by (auto simp: ctl_insert_def ctl_update_def ctl_remove_def Let_def bindR_def split: sum.splits option.splits)
    (metis only_ids_ops)+

lemma contains_only_ids:
  assumes "only_ids f" "tokens \<noteq> [''_id'']"
  shows "\<not> if_containsIndex db ns tokens f"
proof -
  have "if_findIndex (nested_get f db ns) tokens = None"
  proof (rule ccontr)
    assume "if_findIndex (nested_get f db ns) tokens \<noteq> None"
    then obtain i where "if_findIndex (nested_get f db ns) tokens = Some i" by blast
    from findIndex_there [OF this] have "i < length (nested_get f db ns)" "fst (nested_get f db ns ! i) = tokens" by simp_all
    moreover from this(1) have "nested_get f db ns ! i \<in> set (nested_get f db ns)" by simp
    ultimately show False using assms unfolding only_ids_def by metis
  qed
  then show ?thesis
    by (simp add: if_containsIndex_def nested_get_def nested_at_def split: option.splits)
qed

section \<open>The operations\<close>

lemma shows_stale:
  assumes "store_shows st R S" "S \<subseteq> S'"
  shows "store_shows st R S'"
proof -
  have "ns_shows st db ns recs {d. (db, ns, d) \<in> S'}" if "ns_shows st db ns recs {d. (db, ns, d) \<in> S}" for db ns recs
    using that assms(2) unfolding ns_shows_def Let_def by (auto split: if_splits) blast
  with assms(1) show ?thesis unfolding store_shows_def by blast
qed

lemma holds_step:
  assumes st: "only_ids (dt_indexes st2)" "store_shows st2 (put_recs (op_db oper) (op_ns oper) recs2 R) S"
    and R: "\<And>db ns. D db ns = docs_of (R db ns)" "\<And>db ns d. (db, ns, d) \<in> U \<longleftrightarrow> d \<in> doc_id ` set (R db ns)"
    and docs: "docs_of recs2 = view_step (in_store (op_action oper)) (docs_of (R (op_db oper) (op_ns oper)))"
    and used: "\<And>d. (op_db oper, op_ns oper, d) \<in> used_step oper U \<longleftrightarrow> d \<in> doc_id ` set recs2"
  shows "holds_docs st2 (docs_step oper D) (used_step oper U) S"
proof (rule holdsI [OF st])
  show "docs_step oper D db ns = docs_of (put_recs (op_db oper) (op_ns oper) recs2 R db ns)" for db ns
    using R(1) docs by (simp add: docs_step_def)
  show "(db, ns, d) \<in> used_step oper U \<longleftrightarrow> d \<in> doc_id ` set (put_recs (op_db oper) (op_ns oper) recs2 R db ns)" for db ns d
  proof (cases "(db, ns) = (op_db oper, op_ns oper)")
    case True
    then have "db = op_db oper" "ns = op_ns oper" by simp_all
    then show ?thesis using used by simp
  next
    case False
    then have "(db, ns, d) \<in> used_step oper U \<longleftrightarrow> (db, ns, d) \<in> U"
      by (cases "op_action oper") (auto simp: used_step_def)
    then show ?thesis unfolding if_not_P [OF False] using R(2) by blast
  qed
qed

lemma fill_full: "map_sorted obj \<Longrightarrow> bson_has obj ''_id'' \<Longrightarrow> bson_has obj ''_revision'' \<Longrightarrow>
   fillRequiredFields tid trev obj = with_status 1 obj"
  by (simp add: fillRequiredFields_def with_status_def)

lemma perform_insert:
  assumes holds: "holds_docs st D U S" and ok: "op_ok D U S oper" "op_action oper = TxInsert obj"
  shows "\<exists>st2. ctl_perform no_index_files oper st = Inr st2 \<and> holds_docs st2 (docs_step oper D) (used_step oper U) S"
proof -
  let ?db = "op_db oper" and ?ns = "op_ns oper" and ?r = "with_status 1 obj"
  obtain R where R: "only_ids (dt_indexes st)" "store_shows st R S" "\<And>db ns. D db ns = docs_of (R db ns)"
    "\<And>db ns d. (db, ns, d) \<in> U \<longleftrightarrow> d \<in> doc_id ` set (R db ns)" using holds unfolding holds_docs_def by blast
  have obj: "plain ?ns" "map_sorted obj" "record_ok ?r" "?r = fillRequiredFields [] [] obj" "doc_id obj \<notin> doc_id ` set (R ?db ?ns)"
    using ok R(4) by (simp_all add: op_ok_def storable_def fill_full)
  have r: "doc_id ?r = doc_id obj" "live ?r" using obj(2) by simp_all
  from store_insert [OF R(2) obj(1,4,3), of ?db] obj(5) r(1) obtain st2 where st2:
    "ctl_insert no_index_files [] [] ?db ?ns obj st = Inr (?r, st2)"
    "store_shows st2 (put_recs ?db ?ns (R ?db ?ns @ [?r]) R) S" by auto
  have "docs_of (R ?db ?ns @ [?r]) = view_step (in_store (op_action oper)) (docs_of (R ?db ?ns))"
    using obj(5) r ok(2) by (auto simp: docs_of_def view_put_def filter_filter intro!: filter_cong) (metis image_eqI)
  moreover have "(?db, ?ns, d) \<in> used_step oper U \<longleftrightarrow> d \<in> doc_id ` set (R ?db ?ns @ [?r])" for d
    using ok(2) R(4) r(1) by (auto simp: used_step_def)
  ultimately have "holds_docs st2 (docs_step oper D) (used_step oper U) S"
    using holds_step [OF only_ids_perform(1) [OF R(1) st2(1)] st2(2) R(3,4)] by blast
  with st2(1) ok(2) show ?thesis by (simp add: ctl_perform_def)
qed

lemma perform_update:
  assumes holds: "holds_docs st D U S" and ok: "op_ok D U S oper" "op_action oper = TxUpdate obj"
  shows "\<exists>st2. ctl_perform no_index_files oper st = Inr st2 \<and>
    holds_docs st2 (docs_step oper D) (used_step oper U) (stale_step oper S)"
proof -
  let ?db = "op_db oper" and ?ns = "op_ns oper" and ?r = "with_status 1 obj"
  obtain R where R: "only_ids (dt_indexes st)" "store_shows st R S" "\<And>db ns. D db ns = docs_of (R db ns)"
    "\<And>db ns d. (db, ns, d) \<in> U \<longleftrightarrow> d \<in> doc_id ` set (R db ns)" using holds unfolding holds_docs_def by blast
  let ?recs = "R ?db ?ns"
  have obj: "plain ?ns" "map_sorted obj" "record_ok ?r" "doc_id obj \<in> doc_id ` set ?recs" "(?db, ?ns, doc_id obj) \<notin> S"
    using ok R(4) by (simp_all add: op_ok_def storable_def)
  have r: "doc_id ?r = doc_id obj" "live ?r" using obj(2) by simp_all
  have known: "doc_id ?r \<in> doc_id ` set ?recs" using obj(4) r(1) by simp
  note run = store_update [OF R(2) obj(1) refl obj(2,3) known, unfolded r(1)]
  define S2 where "S2 = (if promoted (doc_id obj) (id_tree (dt_indexes st) ?db ?ns) then insert (?db, ?ns, doc_id obj) S else S)"
  have S2: "S2 \<subseteq> insert (?db, ?ns, doc_id obj) S" unfolding S2_def by (auto split: if_splits)
  from run [folded S2_def] obj(5) obtain st2 i where st2:
    "ctl_update no_index_files ?db ?ns obj st = Inr st2" "i < length ?recs" "doc_id (?recs ! i) = doc_id obj"
    "\<forall>j<length ?recs. j \<noteq> i \<longrightarrow> doc_id (?recs ! j) = doc_id obj \<longrightarrow> \<not> live (?recs ! j)"
    "store_shows st2 (put_recs ?db ?ns (?recs[i := with_status 3 (?recs ! i)] @ [?r]) R) S2" by blast
  let ?recs2 = "?recs[i := with_status 3 (?recs ! i)]"
  have "\<forall>r\<in>set ?recs. record_ok r" using R(2) obj(1) by (simp add: store_shows_def ns_shows_def Let_def)
  then have ri: "map_sorted (?recs ! i)" using st2(2) record_sorted by auto
  have "docs_of ?recs2 = filter (\<lambda>r. doc_id r \<noteq> doc_id obj) (docs_of ?recs)"
    by (rule docs_mark [OF st2(2) _ st2(3)]) (use st2(4) ri in auto)
  then have docs: "docs_of (?recs2 @ [?r]) = view_step (in_store (op_action oper)) (docs_of ?recs)"
    using r ok(2) by (simp add: view_put_def docs_of_def)
  have "doc_id ` set (?recs2 @ [?r]) = doc_id ` set ?recs" using ids_status [OF st2(2) ri] known r(1) by auto
  then have used: "(?db, ?ns, d) \<in> used_step oper U \<longleftrightarrow> d \<in> doc_id ` set (?recs2 @ [?r])" for d
    using R(4) ok(2) by (simp add: used_step_def)
  have shown: "store_shows st2 (put_recs ?db ?ns (?recs2 @ [?r]) R) (stale_step oper S)"
    using shows_stale [OF st2(5) S2] ok(2) by (simp add: stale_step_def)
  have "holds_docs st2 (docs_step oper D) (used_step oper U) (stale_step oper S)"
    by (rule holds_step [OF only_ids_perform(2) [OF R(1) st2(1)] shown R(3,4) docs used])
  with st2(1) ok(2) show ?thesis by (simp add: ctl_perform_def)
qed

lemma perform_remove:
  assumes holds: "holds_docs st D U S" and ok: "op_ok D U S oper" "op_action oper = TxRemove key rev_no"
  shows "\<exists>st2. ctl_perform no_index_files oper st = Inr st2 \<and> holds_docs st2 (docs_step oper D) (used_step oper U) S"
proof -
  let ?db = "op_db oper" and ?ns = "op_ns oper"
  obtain R where R: "only_ids (dt_indexes st)" "store_shows st R S" "\<And>db ns. D db ns = docs_of (R db ns)"
    "\<And>db ns d. (db, ns, d) \<in> U \<longleftrightarrow> d \<in> doc_id ` set (R db ns)" using holds unfolding holds_docs_def by blast
  have key: "plain ?ns" "no_nul key" "(?db, ?ns, key) \<notin> S" "\<forall>r\<in>set (docs_of (R ?db ?ns)). doc_id r = key \<longrightarrow> doc_revision r = rev_no"
    using ok R(3) by (simp_all add: op_ok_def)
  from store_remove [OF R(2) key(1,2), of ?db rev_no] key(3) obtain st2 recs2 where st2:
    "ctl_remove no_index_files ?db ?ns key rev_no st = Inr st2" "store_shows st2 (put_recs ?db ?ns recs2 R) S"
    "docs_of recs2 = filter (\<lambda>r. doc_id r \<noteq> key) (docs_of (R ?db ?ns))" "doc_id ` set recs2 = doc_id ` set (R ?db ?ns)" by blast
  have "filter (\<lambda>e. \<not> (doc_id e = key \<and> doc_revision e = rev_no)) (docs_of (R ?db ?ns)) =
      filter (\<lambda>r. doc_id r \<noteq> key) (docs_of (R ?db ?ns))"
    using key(4) by (intro filter_cong) auto
  then have docs: "docs_of recs2 = view_step (in_store (op_action oper)) (docs_of (R ?db ?ns))" using st2(3) ok(2) by simp
  have used: "(?db, ?ns, d) \<in> used_step oper U \<longleftrightarrow> d \<in> doc_id ` set recs2" for d
    using R(4) ok(2) st2(4) by (simp add: used_step_def)
  have "holds_docs st2 (docs_step oper D) (used_step oper U) S"
    by (rule holds_step [OF only_ids_perform(3) [OF R(1) st2(1)] st2(2) R(3,4) docs used])
  with st2(1) ok(2) show ?thesis by (simp add: ctl_perform_def)
qed

text \<open>A step of the store and a run of steps.\<close>

lemma perform_step:
  assumes "holds_docs st D U S" "op_ok D U S oper"
  shows "\<exists>st2. ctl_perform no_index_files oper st = Inr st2 \<and>
    holds_docs st2 (docs_step oper D) (used_step oper U) (stale_step oper S)"
proof (cases "op_action oper")
  case (TxInsert obj)
  with perform_insert [OF assms] show ?thesis by (simp add: stale_step_def)
next
  case (TxUpdate obj)
  with perform_update [OF assms] show ?thesis by simp
next
  case (TxRemove key rev_no)
  with perform_remove [OF assms] show ?thesis by (simp add: stale_step_def)
next
  case TxDropNamespace
  with assms(2) show ?thesis by (simp add: op_ok_def)
next
  case (TxOther c)
  then have "docs_step oper D = D" by (intro ext) (simp add: docs_step_def)
  with TxOther assms(1) show ?thesis by (simp add: ctl_perform_def used_step_def stale_step_def)
qed

lemma perform_run:
  "holds_docs st D U S \<Longrightarrow> run_ok D U S ops \<Longrightarrow>
   \<exists>st2. perform_all (ctl_perform no_index_files) ops st = Inr st2 \<and>
     holds_docs st2 (docs_run ops D) (fold used_step ops U) (fold stale_step ops S)"
proof (induction ops arbitrary: st D U S)
  case (Cons oper ops)
  from perform_step [OF Cons.prems(1)] Cons.prems(2) obtain st1 where st1: "ctl_perform no_index_files oper st = Inr st1"
    "holds_docs st1 (docs_step oper D) (used_step oper U) (stale_step oper S)" by auto
  with Cons.IH [OF st1(2)] Cons.prems(2) show ?case by (simp add: docs_run_def)
qed (simp add: docs_run_def)

section \<open>Finding\<close>

lemma holds_streams:
  "holds_docs st D U S \<Longrightarrow> (\<And>R. store_shows st R S \<Longrightarrow> store_shows st2 R S) \<Longrightarrow> dt_indexes st2 = dt_indexes st \<Longrightarrow> holds_docs st2 D U S"
  unfolding holds_docs_def by metis

text \<open>
  A find that no index serves gives the first documents that match, as many as the limit says, in the
  order of the file.
\<close>

lemma find_docs:
  assumes holds: "holds_docs st D U S" and names: "plain ns" "parse filt = Inr (root, tokens)" "tokens \<noteq> [''_id'']"
    and match: "\<forall>r\<in>set (D db ns). scans root sel P g r" and limit: "result_limit smax options = Inr k"
  shows "\<exists>st2. ctl_find no_index_files parse smax db ns sel filt options st =
      Inr (take (nat k) (map g (filter P (D db ns))), st2) \<and> holds_docs st2 D U S"
proof -
  obtain R where R: "only_ids (dt_indexes st)" "store_shows st R S" "\<And>db ns. D db ns = docs_of (R db ns)"
    "\<And>db ns d. (db, ns, d) \<in> U \<longleftrightarrow> d \<in> doc_id ` set (R db ns)" using holds unfolding holds_docs_def by blast
  have "\<forall>r\<in>set (docs_of (R db ns)). scans root sel P g r" using match R(3) by simp
  from store_scan [OF R(2) names(1) this limit] obtain m2 where m2:
    "ctl_findFullScan smax db ns sel root options (dt_streams st) = Inr (take (nat k) (map g (filter P (docs_of (R db ns)))), m2)"
    "store_shows (st\<lparr>dt_streams := m2\<rparr>) R S" by blast
  have "holds_docs (st\<lparr>dt_streams := m2\<rparr>) D U S" by (rule holdsI [OF _ m2(2) R(3,4)]) (simp add: R(1))
  moreover have "ctl_find no_index_files parse smax db ns sel filt options st =
      Inr (take (nat k) (map g (filter P (D db ns))), st\<lparr>dt_streams := m2\<rparr>)"
    using names(2) contains_only_ids [OF R(1) names(3)] m2(1) R(3) by (simp add: ctl_find_def)
  ultimately show ?thesis by blast
qed

lemma find_first:
  assumes holds: "holds_docs st D U S" and names: "plain ns" "parse filt = Inr (root, tokens)"
    and match: "\<forall>r\<in>set (D db ns). scans root sel P g r"
  shows "\<exists>st2. ctl_findFirst parse db ns sel filt st =
      Inr (case filter P (D db ns) of [] \<Rightarrow> None | r # _ \<Rightarrow> Some (g r), st2) \<and> holds_docs st2 D U S"
proof -
  obtain R where R: "only_ids (dt_indexes st)" "store_shows st R S" "\<And>db ns. D db ns = docs_of (R db ns)"
    "\<And>db ns d. (db, ns, d) \<in> U \<longleftrightarrow> d \<in> doc_id ` set (R db ns)" using holds unfolding holds_docs_def by blast
  have "\<forall>r\<in>set (docs_of (R db ns)). scans root sel P g r" using match R(3) by simp
  from store_first [where parse = parse, OF R(2) names(1) this names(2)] obtain st2 where st2: "ctl_findFirst parse db ns sel filt st =
      Inr (case filter P (docs_of (R db ns)) of [] \<Rightarrow> None | r # _ \<Rightarrow> Some (g r), st2)" "store_shows st2 R S" by blast
  have "dt_indexes st2 = dt_indexes st"
    using st2(1) by (auto simp: ctl_findFirst_def bindR_def split: sum.splits prod.splits)
  then have "holds_docs st2 D U S" by (intro holdsI [OF _ st2(2) R(3,4)]) (simp_all add: R(1))
  with st2(1) R(3) show ?thesis by simp
qed

section \<open>A new database\<close>

definition new_store :: data_store where
  "new_store = \<lparr>dt_streams = sm_start (\<lambda>_. None), dt_indexes = []\<rparr>"

abbreviation no_docs :: doc_store where
  "no_docs \<equiv> \<lambda>_ _. []"

lemma new_store_holds: "holds_docs new_store no_docs {} {}"
proof (rule holdsI)
  have t: "id_tree [] db ns = new_tree" for db ns by (simp add: id_tree_def)
  show "store_shows new_store (\<lambda>_ _. []) {}"
    by (simp add: store_shows_def ns_shows_def new_store_def sm_start_def t index_shows_new)
qed (auto simp: new_store_def only_ids_def docs_of_def)

text \<open>Documents of a run come from its operations and have different ids.\<close>

lemma fold_filter_step:
  "docs_run ops D db ns = fold (\<lambda>oper. view_step (in_store (op_action oper)))
     (filter (\<lambda>oper. op_db oper = db \<and> op_ns oper = ns) ops) (D db ns)"
proof (induction ops arbitrary: D)
  case (Cons oper ops)
  have "docs_step oper D db ns = (if op_db oper = db \<and> op_ns oper = ns then view_step (in_store (op_action oper)) (D db ns) else D db ns)"
    by (auto simp: docs_step_def)
  with Cons.IH [of "docs_step oper D"] show ?case by (simp add: docs_run_def)
qed (simp add: docs_run_def)

lemma live_in_store: "map_sorted obj \<Longrightarrow> live obj \<Longrightarrow> with_status 1 obj = obj"
  by (simp add: with_status_def bson_add_put map_put_there live_def getContent_def)

text \<open>The documents that operations hold are ones that were stored before.\<close>

definition settled :: "tx_operation list \<Rightarrow> bool" where
  "settled ops \<longleftrightarrow> (\<forall>oper\<in>set ops. \<forall>obj\<in>set (action_docs (op_action oper)). doc_ok obj \<and> live obj)"

lemma settled_view:
  assumes "settled ops"
  shows "docs_run ops D db ns = view_ops (filter (\<lambda>oper. op_db oper = db \<and> op_ns oper = ns) ops) (D db ns)"
proof -
  have "in_store (op_action oper) = op_action oper" if "oper \<in> set ops" for oper
    using assms that live_in_store by (cases "op_action oper") (auto simp: settled_def doc_ok_def)
  then show ?thesis unfolding fold_filter_step view_ops_def by (intro fold_cong) auto
qed

lemma view_ops_docs:
  "set (view_ops ops docs) \<subseteq> set docs \<union> (\<Union>oper\<in>set ops. set (action_docs (op_action oper)))"
proof (induction ops arbitrary: docs)
  case (Cons oper ops)
  have "set (view_step (op_action oper) docs) \<subseteq> set docs \<union> set (action_docs (op_action oper))"
    by (cases "op_action oper") (auto simp: view_put_def)
  with Cons.IH [of "view_step (op_action oper) docs"] show ?case by (auto simp: view_ops_def)
qed (simp add: view_ops_def)

lemma view_ops_distinct: "distinct (map doc_id docs) \<Longrightarrow> distinct (map doc_id (view_ops ops docs))"
  by (induction ops arbitrary: docs) (simp_all add: view_ops_def view_step_distinct)

lemma docs_run_append: "docs_run (ops @ ops') D = docs_run ops' (docs_run ops D)"
  by (simp add: docs_run_def)

lemma run_ok_append:
  "run_ok D U S (ops @ ops') \<longleftrightarrow> run_ok D U S ops \<and>
     run_ok (docs_run ops D) (fold used_step ops U) (fold stale_step ops S) ops'"
  by (induction ops arbitrary: D U S) (simp_all add: docs_run_def)

section \<open>Where the store and the view differ\<close>

text \<open>The index after a list of inserts: the documents were added in order, with some positions.\<close>

definition insert_into :: "string \<Rightarrow> string \<Rightarrow> bson \<Rightarrow> tx_operation" where
  "insert_into db ns obj = \<lparr>op_db = db, op_ns = ns, op_action = TxInsert obj\<rparr>"

lemma inserts_index:
  assumes "store_shows st R S" "plain ns" "\<forall>obj\<in>set objs. storable obj \<and> bson_has obj ''_id'' \<and> bson_has obj ''_revision''"
    and "distinct (map doc_id objs)" "doc_id ` set objs \<inter> doc_id ` set (R db ns) = {}"
  shows "\<exists>st2 R2 ps. perform_all (ctl_perform no_index_files) (map (insert_into db ns) objs) st = Inr st2 \<and> store_shows st2 R2 S \<and>
    R2 db ns = R db ns @ map (with_status 1) objs \<and> length ps = length objs \<and>
    add_all index_add (map2 (\<lambda>obj p. (doc_id obj, doc_id obj, p)) objs ps) (id_tree (dt_indexes st) db ns) = Inr (id_tree (dt_indexes st2) db ns)"
  using assms
proof (induction objs arbitrary: st R)
  case (Cons obj objs)
  let ?r = "with_status 1 obj"
  have obj: "map_sorted obj" "record_ok ?r" "doc_id ?r = doc_id obj" "?r = fillRequiredFields [] [] obj"
    using Cons.prems(3) by (simp_all add: storable_def fill_full)
  have fresh: "doc_id ?r \<notin> doc_id ` set (R db ns)" using Cons.prems(5) obj(3) by auto
  from store_insert [OF Cons.prems(1,2) obj(4,2) fresh] obj(3) obtain st1 p where one:
    "ctl_insert no_index_files [] [] db ns obj st = Inr (?r, st1)" "store_shows st1 (put_recs db ns (R db ns @ [?r]) R) S"
    "index_add (doc_id obj) (doc_id obj) p (id_tree (dt_indexes st) db ns) = Inr (id_tree (dt_indexes st1) db ns)" by auto
  let ?R1 = "put_recs db ns (R db ns @ [?r]) R"
  have "doc_id ` set objs \<inter> doc_id ` set (?R1 db ns) = {}" using Cons.prems(4,5) obj(3) by auto
  from Cons.IH [OF one(2) Cons.prems(2) _ _ this] Cons.prems(3,4) obtain st2 R2 ps where
    "perform_all (ctl_perform no_index_files) (map (insert_into db ns) objs) st1 = Inr st2" "store_shows st2 R2 S"
    "R2 db ns = (R db ns @ [?r]) @ map (with_status 1) objs" "length ps = length objs"
    "add_all index_add (map2 (\<lambda>obj p. (doc_id obj, doc_id obj, p)) objs ps) (id_tree (dt_indexes st1) db ns) = Inr (id_tree (dt_indexes st2) db ns)"
    by auto
  moreover have "ctl_perform no_index_files (insert_into db ns obj) st = Inr st1"
    using one(1) by (simp add: ctl_perform_def insert_into_def)
  ultimately show ?case using one(3) by (intro exI [of _ st2] exI [of _ R2] exI [of _ "p # ps"]) simp
qed (auto intro!: exI [of _ "[]"])

text \<open>A removal removes the document whatever revision it names.\<close>

lemma remove_any_revision:
  assumes holds: "holds_docs st D U S" and key: "plain ns" "no_nul key" "(db, ns, key) \<notin> S"
  shows "\<exists>st2. ctl_remove no_index_files db ns key rev_no st = Inr st2 \<and>
    holds_docs st2 (\<lambda>d n. if (d, n) = (db, ns) then filter (\<lambda>r. doc_id r \<noteq> key) (D db ns) else D d n) U S"
proof -
  obtain R where R: "only_ids (dt_indexes st)" "store_shows st R S" "\<And>db ns. D db ns = docs_of (R db ns)"
    "\<And>db ns d. (db, ns, d) \<in> U \<longleftrightarrow> d \<in> doc_id ` set (R db ns)" using holds unfolding holds_docs_def by blast
  from store_remove [OF R(2) key(1,2), of db rev_no] key(3) obtain st2 recs2 where st2:
    "ctl_remove no_index_files db ns key rev_no st = Inr st2" "store_shows st2 (put_recs db ns recs2 R) S"
    "docs_of recs2 = filter (\<lambda>r. doc_id r \<noteq> key) (docs_of (R db ns))" "doc_id ` set recs2 = doc_id ` set (R db ns)" by blast
  have "holds_docs st2 (\<lambda>d n. if (d, n) = (db, ns) then filter (\<lambda>r. doc_id r \<noteq> key) (D db ns) else D d n) U S"
    by (rule holdsI [OF only_ids_perform(3) [OF R(1) st2(1)] st2(2)]) (use R(3,4) st2(3,4) in auto)
  with st2(1) show ?thesis by blast
qed

text \<open>
  The index keeps the first position of an id whose key it has promoted to an inner page: of two updates
  the second one marks the same record as the first, and both versions are active.
\<close>

lemma second_update_adds:
  assumes st: "store_shows st R S" "plain ns" and known: "docId \<in> doc_id ` set (R db ns)"
    and promoted: "promoted docId (id_tree (dt_indexes st) db ns)"
    and obj: "storable obj1" "doc_id obj1 = docId" "storable obj2" "doc_id obj2 = docId"
  shows "\<exists>st1 st2 R2 S2. ctl_update no_index_files db ns obj1 st = Inr st1 \<and> ctl_update no_index_files db ns obj2 st1 = Inr st2 \<and>
    store_shows st2 R2 S2 \<and> (\<exists>docs. docs_of (R2 db ns) = docs @ [with_status 1 obj1, with_status 1 obj2])"
proof -
  let ?recs = "R db ns" and ?r1 = "with_status 1 obj1" and ?r2 = "with_status 1 obj2"
  have o1: "map_sorted obj1" "record_ok ?r1" "doc_id ?r1 = docId" "live ?r1" using obj(1,2) by (simp_all add: storable_def)
  have o2: "map_sorted obj2" "record_ok ?r2" "doc_id ?r2 = docId" "live ?r2" using obj(3,4) by (simp_all add: storable_def)
  from store_update [OF st refl o1(1,2), of db, unfolded o1(3), OF known] promoted obtain st1 i S1 where one:
    "ctl_update no_index_files db ns obj1 st = Inr st1" "i < length ?recs"
    "store_shows st1 (put_recs db ns (?recs[i := with_status 3 (?recs ! i)] @ [?r1]) R) S1"
    "promoted docId (id_tree (dt_indexes st1) db ns)" "entry_at st1 db ns (?recs[i := with_status 3 (?recs ! i)] @ [?r1]) docId i"
    by blast
  let ?R1 = "put_recs db ns (?recs[i := with_status 3 (?recs ! i)] @ [?r1]) R"
  have recs1: "?R1 db ns = ?recs[i := with_status 3 (?recs ! i)] @ [?r1]" by simp
  have known1: "docId \<in> doc_id ` set (?R1 db ns)" using o1(3) by (auto simp: recs1)
  from store_update [OF one(3) st(2) refl o2(1,2), of db, unfolded o2(3), OF known1] one(4) obtain st2 j S2 where two:
    "ctl_update no_index_files db ns obj2 st1 = Inr st2"
    "store_shows st2 (put_recs db ns ((?R1 db ns)[j := with_status 3 (?R1 db ns ! j)] @ [?r2]) ?R1) S2"
    "entry_at st1 db ns (?R1 db ns) docId j"
    by blast
  have j: "j = i" by (rule entry_at_unique [OF two(3)]) (use one(5) in simp)
  have "(put_recs db ns ((?R1 db ns)[j := with_status 3 (?R1 db ns ! j)] @ [?r2]) ?R1) db ns =
      (?recs[i := with_status 3 (?recs ! i)])[i := with_status 3 (?R1 db ns ! i)] @ [?r1, ?r2]"
    using one(2) by (simp add: j list_update_append)
  then have "docs_of ((put_recs db ns ((?R1 db ns)[j := with_status 3 (?R1 db ns ! j)] @ [?r2]) ?R1) db ns) =
      docs_of ((?recs[i := with_status 3 (?recs ! i)])[i := with_status 3 (?R1 db ns ! i)]) @ [?r1, ?r2]"
    using o1(4) o2(4) by (simp add: docs_of_def)
  with one(1) two(1,2) show ?thesis by blast
qed

text \<open>
  A find by an index reads behind the mark plus the position, also when the stream counted the position
  from the start of the file: it then misses the record by the length of the mark.
\<close>

lemma input_offset_data: "input_offset (data_bytes recs) = Inr 29"
  using file_readChars_at [of "''djondb_dat''" "[]" "write_chars ''0.300000000'' @ recs_bytes recs"]
    file_readChars_at [of "''0.300000000''" "write_chars ''djondb_dat''" "recs_bytes recs"]
  by (simp add: input_offset_def data_bytes_def version_mark_def int32_size_def c_str_def)

lemma indexed_read:
  assumes "stream_shows m db ns s recs" "points (ds_offset s) recs e i"
  shows "read_records sel (data_bytes recs) [e] =
    bindR (readBSON sel (drop (29 - ds_offset s) (writeBSON (recs ! i) @ recs_bytes (drop (Suc i) recs)))) (\<lambda>(obj, _). Inr [obj])"
proof -
  have i: "i < length recs" "ds_offset s + ie_posData e = record_at recs i" "ds_offset s \<le> 29"
    using assms by (simp_all add: points_def stream_shows_def)
  then have "29 + ie_posData e = (29 - ds_offset s) + record_at recs i" by simp
  then have "drop (29 + ie_posData e) (data_bytes recs) = drop (29 - ds_offset s) (drop (record_at recs i) (data_bytes recs))"
    by (simp only: drop_drop)
  then show ?thesis
    unfolding read_records_def input_offset_data
    by (simp add: drop_record [OF i(1)] bindR_assoc del: drop_append) (simp add: bindR_def split: sum.split prod.split)
qed

text \<open>
  A find by the index over the ids: it reads every listed record, active or not, without a limit, each 29
  bytes behind the position of the index, which counts from the offset of the stream that wrote it.
\<close>

lemma dk_no_nul: "dk a = dk b \<Longrightarrow> no_nul b \<Longrightarrow> a = b"
proof -
  assume k: "dk a = dk b" and n: "no_nul b"
  have "length a = length b" "c_str a = b" using k n by (simp_all add: dk_def)
  then have "length (takeWhile (\<lambda>c. c \<noteq> CHR 0x00) a) = length a" unfolding c_str_def by simp
  with \<open>c_str a = b\<close> show "a = b" by (metis c_str_def takeWhile_eq_take take_all order_refl)
qed

lemma store_tree:
  assumes "store_shows st R S" "plain ns"
  shows "tree_ok (id_tree (dt_indexes st) db ns)" "nested_sorted (dt_indexes st)"
proof -
  have "ns_shows st db ns (R db ns) {d. (db, ns, d) \<in> S}" "nested_sorted (dt_indexes st)"
    using assms by (simp_all add: store_shows_def)
  then show "tree_ok (id_tree (dt_indexes st) db ns)" "nested_sorted (dt_indexes st)"
    by (auto simp: ns_shows_def Let_def index_shows_def split: if_splits)
qed

lemma find_by_index:
  assumes st: "store_shows st R S" "plain ns" and s: "stream_shows (dt_streams st) db ns s (R db ns)"
    and index: "if_containsIndex db ns [''_id''] (dt_indexes st)" "parse filt = Inr (root, [''_id''])"
      "\<And>i. filter_match root [(''_id'', CString i)] = Inr (M i)"
  shows "\<exists>(es :: index_elem list) f2. ctl_find no_index_files parse smax db ns sel filt options st =
      bindR (mapR (\<lambda>e. bindR (readBSON sel (drop (29 + ie_posData e) (data_bytes (R db ns)))) (\<lambda>(obj, _). Inr obj)) es)
        (\<lambda>result. Inr (result, st\<lparr>dt_indexes := f2\<rparr>)) \<and>
    (\<forall>r\<in>set (R db ns). M (doc_id r) \<longrightarrow> (\<exists>e\<in>set es. \<exists>i<length (R db ns).
      ds_offset s + ie_posData e = record_at (R db ns) i \<and> doc_id (R db ns ! i) = doc_id r))"
proof -
  let ?f = "dt_indexes st" and ?t = "id_tree (dt_indexes st) db ns" and ?recs = "R db ns"
  have tree: "tree_ok ?t" "nested_sorted ?f" by (rule store_tree [OF st])+
  obtain i f2 where f2: "ctl_index no_index_files db ns ?f = (i, ?t, f2)" using ctl_index_tree [OF tree(2)] by blast
  obtain es where es: "index_list ?t (filter_match root) = Inr es"
    "\<forall>key e. index_find ?t key = Inr (Some e) \<longrightarrow> M (ie_id e) \<longrightarrow> e \<in> set es"
    using index_list_find [OF tree(1), of "filter_match root" M] index(3) by blast
  have "data_file db ns (dt_streams st) = Inr (data_bytes ?recs)"
    using s by (auto simp: data_file_def stream_shows_def data_stream_iff sm_path_def)
  then have run: "ctl_find no_index_files parse smax db ns sel filt options st =
      bindR (mapR (\<lambda>e. bindR (readBSON sel (drop (29 + ie_posData e) (data_bytes ?recs))) (\<lambda>(obj, _). Inr obj)) es)
        (\<lambda>result. Inr (result, st\<lparr>dt_indexes := f2\<rparr>))"
    using f2 index(1,2) es(1)
    by (simp add: ctl_find_def ctl_index_def read_records_def input_offset_data Let_def split: prod.splits)
  have "\<exists>e\<in>set es. \<exists>i<length ?recs. ds_offset s + ie_posData e = record_at ?recs i \<and> doc_id (?recs ! i) = doc_id r"
    if r: "r \<in> set ?recs" "M (doc_id r)" for r
  proof -
    have some: "?recs \<noteq> []" using r(1) by auto
    obtain s' where s': "stream_shows (dt_streams st) db ns s' ?recs" "index_shows (ds_offset s') ?recs ?t" "\<forall>r\<in>set ?recs. record_ok r"
      by (rule store_stream [OF st records_open [where db = db, OF st some]])
    have "s' = s" using s s'(1) by (simp add: stream_shows_def)
    have n: "no_nul (doc_id r)" using s'(3) r(1) record_id(3) by blast
    obtain e where e: "index_find ?t (doc_id r) = Inr (Some e)"
      using s'(2) n r(1) index_missing [OF s'(2) n] unfolding index_shows_def by blast
    obtain i where i: "points (ds_offset s) ?recs e i" "doc_id (?recs ! i) = doc_id r"
      using index_points [OF s'(2) n e] \<open>s' = s\<close> by blast
    obtain I L where "tree_holds ?t I L" using tree(1) by (auto simp: tree_ok_def)
    from index_find_holds [OF this, of "doc_id r"] e have "dk (ie_id e) = dk (doc_id r)" by auto
    then have "ie_id e = doc_id r" by (rule dk_no_nul [OF _ n])
    then have "e \<in> set es" using es(2) e r(2) by simp
    with i show ?thesis by (auto simp: points_def)
  qed
  then have cover: "\<forall>r\<in>set ?recs. M (doc_id r) \<longrightarrow> (\<exists>e\<in>set es. \<exists>i<length ?recs.
      ds_offset s + ie_posData e = record_at ?recs i \<and> doc_id (?recs ! i) = doc_id r)" by blast
  show ?thesis by (rule exI [of _ es], rule exI [of _ f2], rule conjI [OF run cover])
qed

end
