(* ===== verification/Tx_System.thy ===== *)
theory Tx_System
  imports Transactions
begin

text \<open>
  The open transactions of a server: TransactionManager (tx/transactionmanager.cpp) with the main
  log, the commands that commit and roll back (command/commitcommand.cpp, rollbackcommand.cpp)
  and the rounds of the monitor that flushes the main log. The specification has a list of committed
  operations and one list for every open transaction.
\<close>

section \<open>State\<close>

text \<open>The flag of a transaction says whether its control file is open.\<close>

record stdtx =
  st_log :: txmanager
  st_open :: bool

record tx_system =
  sys_disk :: disk
  sys_main :: txmanager
  sys_cache :: "(string, stdtx) cache"
  sys_controls :: "(string, byte list) std_map"

definition log_open :: "nat \<Rightarrow> (string, byte list) std_map \<Rightarrow> string \<Rightarrow> bool \<Rightarrow> txmanager res" where
  "log_open n controls file mainLog =
     (case map_find controls (file @ ''.trc'') of
        Some ctl \<Rightarrow> tm_load file mainLog ctl | None \<Rightarrow> Inr (tm_create file mainLog n))"

section \<open>Operations\<close>

definition getTransaction :: "nat \<Rightarrow> string \<Rightarrow> tx_system \<Rightarrow> (stdtx \<times> tx_system) res" where
  "getTransaction n tid sys =
     (if cache_containsKey (sys_cache sys) tid then
        bindR (cache_get (sys_cache sys) tid) (\<lambda>st. Inr (st, sys))
      else
        bindR (log_open n (sys_controls sys) tid False) (\<lambda>log.
        let st = \<lparr>st_log = log, st_open = True\<rparr> in
        Inr (st, sys\<lparr>sys_cache := cache_add tid st (sys_cache sys)\<rparr>)))"

definition dropTransaction :: "string \<Rightarrow> tx_system \<Rightarrow> tx_system" where
  "dropTransaction tid sys =
     (if cache_containsKey (sys_cache sys) tid then sys\<lparr>sys_cache := cache_remove tid (sys_cache sys)\<rparr> else sys)"

definition dropControlFile :: "string \<Rightarrow> tx_system \<Rightarrow> tx_system" where
  "dropControlFile tid sys = sys\<lparr>sys_controls := map_erase (tid @ ''.trc'') (sys_controls sys)\<rparr>"

text \<open>A write of a transaction whose control file is closed uses a null file pointer.\<close>

definition transaction_write :: "nat \<Rightarrow> string \<Rightarrow> tx_operation \<Rightarrow> tx_system \<Rightarrow> tx_system res" where
  "transaction_write n tid oper sys =
     bindR (getTransaction n tid sys) (\<lambda>(st, sys).
     if \<not> st_open st then Inl Undefined_behaviour
     else bindR (tm_writeOperation (sys_disk sys, st_log st) oper) (\<lambda>(d, log).
       Inr (sys\<lparr>sys_disk := d, sys_cache := map_put tid (st\<lparr>st_log := log\<rparr>) (sys_cache sys)\<rparr>)))"

definition commit_command :: "nat \<Rightarrow> string \<Rightarrow> tx_system \<Rightarrow> tx_system res" where
  "commit_command n tid sys =
     bindR (getTransaction n tid sys) (\<lambda>(st, sys).
     bindR (log_commit (sys_main sys) (st_log st)) (\<lambda>(main, log).
     Inr (dropTransaction tid (dropControlFile tid (sys\<lparr>sys_main := main\<rparr>)))))"

definition rollback_command :: "nat \<Rightarrow> string \<Rightarrow> tx_system \<Rightarrow> tx_system res" where
  "rollback_command n tid sys =
     bindR (getTransaction n tid sys) (\<lambda>(st, sys).
     bindR (log_rollback (sys_disk sys, st_log st)) (\<lambda>(d, log).
     Inr (dropControlFile tid (sys\<lparr>sys_disk := d,
       sys_cache := map_put tid \<lparr>st_log = log, st_open = False\<rparr> (sys_cache sys)\<rparr>))))"

definition monitor_round ::
    "(tx_operation \<Rightarrow> 's \<Rightarrow> 's res) \<Rightarrow> tx_system \<times> 's \<Rightarrow> (tx_system \<times> 's) res" where
  "monitor_round perform = (\<lambda>(sys, s).
     bindR (tm_flushBuffer perform (sys_disk sys, sys_main sys) s) (\<lambda>((d, main), s).
     Inr (sys\<lparr>sys_disk := d, sys_main := main\<rparr>, s)))"

datatype tx_event =
    Begin string
  | Write string tx_operation
  | Commit string
  | Rollback string
  | Monitor

fun sys_event ::
    "(tx_operation \<Rightarrow> 's \<Rightarrow> 's res) \<Rightarrow> nat \<Rightarrow> tx_event \<Rightarrow> tx_system \<times> 's \<Rightarrow> (tx_system \<times> 's) res" where
  "sys_event perform n (Begin tid) (sys, s) = bindR (getTransaction n tid sys) (\<lambda>(st, sys). Inr (sys, s))"
| "sys_event perform n (Write tid oper) (sys, s) = bindR (transaction_write n tid oper sys) (\<lambda>sys. Inr (sys, s))"
| "sys_event perform n (Commit tid) (sys, s) = bindR (commit_command n tid sys) (\<lambda>sys. Inr (sys, s))"
| "sys_event perform n (Rollback tid) (sys, s) = bindR (rollback_command n tid sys) (\<lambda>sys. Inr (sys, s))"
| "sys_event perform n Monitor (sys, s) = monitor_round perform (sys, s)"

section \<open>Specification\<close>

type_synonym tx_spec = "tx_operation list \<times> (string \<Rightarrow> tx_operation list option)"

fun spec_event :: "tx_event \<Rightarrow> tx_spec \<Rightarrow> tx_spec" where
  "spec_event (Begin tid) (done_ops, pend) = (done_ops, pend(tid \<mapsto> []))"
| "spec_event (Write tid oper) (done_ops, pend) =
     (done_ops, pend(tid := map_option (\<lambda>ops. ops @ [oper]) (pend tid)))"
| "spec_event (Commit tid) (done_ops, pend) =
     (done_ops @ (case pend tid of Some ops \<Rightarrow> ops | None \<Rightarrow> []), pend(tid := None))"
| "spec_event (Rollback tid) (done_ops, pend) = (done_ops, pend(tid \<mapsto> []))"
| "spec_event Monitor x = x"

text \<open>
  The log of an open transaction: its own file, which no buffer of the main log maps, and no
  buffers to reuse.
\<close>

definition tx_log_ok :: "disk \<Rightarrow> txmanager \<Rightarrow> string \<Rightarrow> txmanager \<Rightarrow> tx_operation list \<Rightarrow> bool" where
  "tx_log_ok d main tid log ops \<longleftrightarrow> (\<exists>opss. tm_inv d log opss \<and> concat opss = ops) \<and>
     \<not> tm_mainLog log \<and> tm_reusable log = [] \<and> tm_logFile log = tid @ ''.log'' \<and>
     tm_logFile main \<noteq> tid @ ''.log'' \<and> (\<forall>b\<in>set (tm_active main). tb_file b \<noteq> tid @ ''.log'')"

definition tx_refines ::
    "(tx_operation \<Rightarrow> 's \<Rightarrow> 's res) \<Rightarrow> 's \<Rightarrow> tx_system \<times> 's \<Rightarrow> tx_spec \<Rightarrow> bool" where
  "tx_refines perform s0 = (\<lambda>(sys, s) (done_ops, pend).
     (\<exists>opss applied. tm_shows (sys_disk sys) (sys_main sys) opss \<and> done_ops = applied @ concat opss \<and>
        perform_all perform applied s0 = Inr s) \<and>
     tm_counted (sys_main sys) \<and> map_sorted (sys_cache sys) \<and>
     (\<forall>tid. case pend tid of
        None \<Rightarrow> map_find (sys_cache sys) tid = None
      | Some ops \<Rightarrow> \<exists>st. map_find (sys_cache sys) tid = Some st \<and>
          tx_log_ok (sys_disk sys) (sys_main sys) tid (st_log st) ops))"

text \<open>
  What a client has to respect: a transaction begins with an id of its own, whose files are not
  there any more, and the other commands name a transaction that has begun.
\<close>

fun event_ok :: "tx_event \<Rightarrow> tx_system \<Rightarrow> bool" where
  "event_ok (Begin tid) sys = (map_find (sys_cache sys) tid = None \<and>
     map_find (sys_controls sys) (tid @ ''.trc'') = None \<and> tm_logFile (sys_main sys) \<noteq> tid @ ''.log'' \<and>
     (\<forall>b\<in>set (tm_active (sys_main sys)). tb_file b \<noteq> tid @ ''.log''))"
| "event_ok (Write tid oper) sys = (map_find (sys_cache sys) tid \<noteq> None \<and> operation_ok oper)"
| "event_ok (Commit tid) sys = (map_find (sys_cache sys) tid \<noteq> None)"
| "event_ok (Rollback tid) sys = (map_find (sys_cache sys) tid \<noteq> None)"
| "event_ok Monitor sys = True"

section \<open>Frames\<close>

lemma tm_inv_frame:
  assumes "tm_inv d m opss" "\<forall>b\<in>set (tm_active m). tb_view d2 b = tb_view d b"
  shows "tm_inv d2 m opss"
proof -
  have "tb_holds d2 b ops" if "b \<in> set (tm_active m)" "tb_holds d b ops" for b ops
    using that assms(2) unfolding tb_holds_def by metis
  with assms(1) show ?thesis by (auto simp: tm_inv_def list_all2_conv_all_nth)
qed

lemma tx_log_frame:
  assumes "tx_log_ok d main tid log ops" "\<And>i. d2 (tid @ ''.log'') i = d (tid @ ''.log'') i"
    and "tm_logFile main2 = tm_logFile main"
    and "\<And>b. b \<in> set (tm_active main2) \<Longrightarrow> b \<in> set (tm_active main) \<or> tb_file b \<noteq> tid @ ''.log''"
  shows "tx_log_ok d2 main2 tid log ops"
proof -
  from assms(1) obtain opss where "tm_inv d log opss" "concat opss = ops" "tm_logFile log = tid @ ''.log''"
    by (auto simp: tx_log_ok_def)
  moreover from this have "\<forall>b\<in>set (tm_active log). tb_view d2 b = tb_view d b"
    using assms(2) by (simp add: tm_inv_def tm_regions_def tm_buffers_def tb_view_def)
  ultimately have "\<exists>opss. tm_inv d2 log opss \<and> concat opss = ops" using tm_inv_frame by blast
  with assms(1,3,4) show ?thesis by (auto simp: tx_log_ok_def)
qed

lemma tm_getBuffer_fields:
  "tm_logFile (tm_getBuffer m n force) = tm_logFile m" "tm_mainLog (tm_getBuffer m n force) = tm_mainLog m"
  "tm_reusable m = [] \<Longrightarrow> tm_reusable (tm_getBuffer m n force) = []"
  by (simp_all add: tm_getBuffer_def Let_def case_prod_beta split: list.splits)

lemma tm_writeOperation_fields:
  assumes "tm_writeOperation (d, m) oper = Inr (d2, m2)"
  shows "tm_logFile m2 = tm_logFile m" "tm_mainLog m2 = tm_mainLog m"
    "tm_reusable m = [] \<Longrightarrow> tm_reusable m2 = []"
  using assms by (auto simp: tm_writeOperation_def bindR_Inr_iff Let_def tm_getBuffer_fields)

lemma tm_writeOperation_disk:
  assumes "tm_inv d m opss" "operation_ok oper" "tm_writeOperation (d, m) oper = Inr (d2, m2)" "f \<noteq> tm_logFile m"
  shows "d2 f = d f"
proof -
  let ?n = "length (record_bytes oper) + 8"
  from tm_getBuffer_inv [OF assms(1), of ?n False] obtain bs b os where b:
    "tm_active (tm_getBuffer m ?n False) = bs @ [b]" "tm_inv d (tm_getBuffer m ?n False) os"
    by blast
  have "tb_file b = tm_logFile m"
    using b tm_getBuffer_fields by (auto simp: tm_inv_def tm_regions_def tm_buffers_def)
  moreover have "encode_operation oper = Inr (record_bytes oper)"
    using assms(2) by (simp add: operation_ok_def encode_operation_ok)
  ultimately show ?thesis using assms(3,4) b(1)
    by (auto simp: tm_writeOperation_def Let_def bindR_Inr_iff tb_writeLong_def tb_writeChars_def tb_put_def
        tb_acquireLock_def disk_write_def split: if_splits)
qed

lemma tx_log_write:
  assumes "tx_log_ok d main tid log ops" "operation_ok oper" "tm_writeOperation (d, log) oper = Inr (d2, log2)"
  shows "tx_log_ok d2 main tid log2 (ops @ [oper])" "f \<noteq> tid @ ''.log'' \<Longrightarrow> d2 f = d f"
proof -
  from assms(1) obtain opss where o: "tm_inv d log opss" "concat opss = ops" "tm_logFile log = tid @ ''.log''"
    by (auto simp: tx_log_ok_def)
  from tm_writeOperation_Inr [OF o(1) assms(2,3)] o(2) have
    "\<exists>opss. tm_inv d2 log2 opss \<and> concat opss = ops @ [oper]" by auto
  with assms(1) tm_writeOperation_fields [OF assms(3)] show "tx_log_ok d2 main tid log2 (ops @ [oper])"
    by (simp add: tx_log_ok_def)
  show "d2 f = d f" if "f \<noteq> tid @ ''.log''"
    using tm_writeOperation_disk [OF o(1) assms(2,3)] that o(3) by simp
qed

lemma tm_addEach_files:
  "tb_file ` set (tm_active (tm_addEach m bs)) = tb_file ` set (tm_active m) \<union> tb_file ` set bs"
  by (induction bs arbitrary: m) (auto simp: case_prod_beta Let_def)

lemma tm_addEach_reusable [simp]: "tm_reusable (tm_addEach m bs) = tm_reusable m"
  by (induction bs arbitrary: m) (auto simp: case_prod_beta Let_def)

lemma tm_getBuffer_files:
  "\<forall>b\<in>set (tm_reusable m). tb_file b = tm_logFile m \<Longrightarrow>
   tb_file ` set (tm_active (tm_getBuffer m n True)) = insert (tm_logFile m) (tb_file ` set (tm_active m))"
  by (auto simp: tm_getBuffer_def Let_def case_prod_beta tm_createNewBuffer_def tb_seek_def tb_reset_def
      split: list.splits)

lemma log_commit_files:
  assumes "log_commit base t = Inr (base2, t2)" "tm_inv d t topss" "tm_counted base"
  shows "tm_logFile base2 = tm_logFile base"
    "tb_file ` set (tm_active base2) \<subseteq> tb_file ` set (tm_active base) \<union> {tm_logFile t, tm_logFile base}"
proof -
  have "tm_popAll t = Inr (tm_active t, t2)"
    using assms(1) tm_popAll_shows [OF tm_inv_shows [OF assms(2)]] by (auto simp: log_commit_def)
  then have base2: "base2 = tm_getBuffer (tm_addEach base (tm_active t)) 0 True"
    using assms(1) by (simp add: log_commit_def tm_addBuffers_def)
  then show "tm_logFile base2 = tm_logFile base" by (simp add: tm_getBuffer_fields)
  have "\<forall>b\<in>set (tm_reusable base). tb_file b = tm_logFile base"
    using assms(3) by (auto simp: tm_counted_def tm_buffers_def)
  moreover have "tb_file ` set (tm_active t) \<subseteq> {tm_logFile t}"
    using assms(2) by (auto simp: tm_inv_def tm_regions_def tm_buffers_def)
  ultimately show "tb_file ` set (tm_active base2) \<subseteq> tb_file ` set (tm_active base) \<union> {tm_logFile t, tm_logFile base}"
    unfolding base2 by (subst tm_getBuffer_files) (auto simp: tm_addEach_files)
qed

section \<open>Refinement\<close>

lemma getTransaction_cached:
  "map_find (sys_cache sys) tid = Some st \<Longrightarrow> getTransaction n tid sys = Inr (st, sys)"
  by (simp add: getTransaction_def cache_containsKey_def cache_get_def)

definition spec_log :: "tx_system \<Rightarrow> string \<Rightarrow> tx_operation list option \<Rightarrow> bool" where
  "spec_log sys tid p \<longleftrightarrow> (case p of
     None \<Rightarrow> map_find (sys_cache sys) tid = None
   | Some ops \<Rightarrow> \<exists>st. map_find (sys_cache sys) tid = Some st \<and>
       tx_log_ok (sys_disk sys) (sys_main sys) tid (st_log st) ops)"

definition spec_main :: "(tx_operation \<Rightarrow> 's \<Rightarrow> 's res) \<Rightarrow> 's \<Rightarrow> tx_system \<times> 's \<Rightarrow> tx_operation list \<Rightarrow> bool" where
  "spec_main perform s0 = (\<lambda>(sys, s) done_ops.
     (\<exists>opss applied. tm_shows (sys_disk sys) (sys_main sys) opss \<and> done_ops = applied @ concat opss \<and>
        perform_all perform applied s0 = Inr s) \<and> tm_counted (sys_main sys))"

lemma tx_refines_iff:
  "tx_refines perform s0 (sys, s) (done_ops, pend) \<longleftrightarrow>
     spec_main perform s0 (sys, s) done_ops \<and> map_sorted (sys_cache sys) \<and> (\<forall>tid. spec_log sys tid (pend tid))"
  by (simp add: tx_refines_def spec_main_def spec_log_def)

lemma spec_log_frame:
  assumes "spec_log sys tid p" "map_find (sys_cache sys2) tid = map_find (sys_cache sys) tid"
    and "sys_disk sys2 (tid @ ''.log'') = sys_disk sys (tid @ ''.log'')"
    and "tm_logFile (sys_main sys2) = tm_logFile (sys_main sys)"
    and "\<And>b. b \<in> set (tm_active (sys_main sys2)) \<Longrightarrow> b \<in> set (tm_active (sys_main sys)) \<or>
      tb_file b \<noteq> tid @ ''.log''"
  shows "spec_log sys2 tid p"
  using assms tx_log_frame [of "sys_disk sys" "sys_main sys" tid _ _ "sys_disk sys2" "sys_main sys2"]
  unfolding spec_log_def by (auto split: option.splits)

lemma spec_main_frame:
  assumes "spec_main perform s0 (sys, s) ops" "sys_main sys2 = sys_main sys"
    and "\<forall>b\<in>set (tm_active (sys_main sys)). sys_disk sys2 (tb_file b) = sys_disk sys (tb_file b)"
  shows "spec_main perform s0 (sys2, s) ops"
proof -
  have "tm_shows (sys_disk sys2) (sys_main sys2) opss" if "tm_shows (sys_disk sys) (sys_main sys) opss" for opss
    unfolding assms(2) using assms(3) by (intro tm_shows_frame [OF that]) (simp add: tb_view_def)
  with assms(1,2) show ?thesis unfolding spec_main_def by auto
qed

lemma refines_begin:
  assumes "tx_refines perform s0 (sys, s) (ops, pend)" "event_ok (Begin tid) sys" "0 < n"
    and "sys_event perform n (Begin tid) (sys, s) = Inr (sys2, s2)"
  shows "tx_refines perform s0 (sys2, s2) (ops, pend(tid \<mapsto> []))"
proof -
  let ?st = "\<lparr>st_log = tm_create tid False n, st_open = True\<rparr>"
  have sys2: "sys2 = sys\<lparr>sys_cache := cache_add tid ?st (sys_cache sys)\<rparr>" "s2 = s"
    using assms(2,4) by (auto simp: getTransaction_def cache_containsKey_def log_open_def Let_def)
  have sorted: "map_sorted (sys_cache sys)" using assms(1) by (simp add: tx_refines_iff)
  have find: "map_find (sys_cache sys2) t = (if t = tid then Some ?st else map_find (sys_cache sys) t)" for t
    using cache.find_put [OF sorted] sys2(1) by simp
  have "tx_log_ok (sys_disk sys) (sys_main sys) tid (tm_create tid False n) []"
    using assms(2) tm_create_inv [OF assms(3), of "sys_disk sys" tid False]
    by (auto simp: tx_log_ok_def) (simp_all add: tm_create_def)
  then have "spec_log sys2 tid (Some [])" using find sys2(1) by (simp add: spec_log_def)
  moreover have "spec_log sys2 t (pend t)" if "t \<noteq> tid" for t
    by (rule spec_log_frame [of sys t]) (use assms(1) that find sys2(1) in \<open>simp_all add: tx_refines_iff\<close>)
  moreover have "spec_main perform s0 (sys2, s2) ops"
    using assms(1) sys2 by (simp add: tx_refines_iff spec_main_def)
  ultimately show ?thesis using sys2(1) sorted by (simp add: tx_refines_iff cache.inv_put)
qed

lemma refines_write:
  assumes "tx_refines perform s0 (sys, s) (ops, pend)" "event_ok (Write tid oper) sys"
    and "sys_event perform n (Write tid oper) (sys, s) = Inr (sys2, s2)"
  shows "tx_refines perform s0 (sys2, s2) (ops, pend(tid := map_option (\<lambda>ops. ops @ [oper]) (pend tid)))"
proof -
  have sorted: "map_sorted (sys_cache sys)" and log: "spec_log sys tid (pend tid)"
    using assms(1) by (simp_all add: tx_refines_iff)
  with assms(2) obtain st tops where st: "map_find (sys_cache sys) tid = Some st" "pend tid = Some tops"
      "tx_log_ok (sys_disk sys) (sys_main sys) tid (st_log st) tops"
    by (auto simp: spec_log_def split: option.splits)
  from assms(3) obtain d log where w: "tm_writeOperation (sys_disk sys, st_log st) oper = Inr (d, log)"
      "sys2 = sys\<lparr>sys_disk := d, sys_cache := map_put tid (st\<lparr>st_log := log\<rparr>) (sys_cache sys)\<rparr>" "s2 = s"
    by (auto simp: transaction_write_def getTransaction_cached [OF st(1)] bindR_Inr_iff split: if_splits)
  have oper: "operation_ok oper" using assms(2) by simp
  note wr = tx_log_write [OF st(3) oper w(1)]
  have sys2: "sys_disk sys2 = d" "sys_main sys2 = sys_main sys"
      "map_find (sys_cache sys2) t = (if t = tid then Some (st\<lparr>st_log := log\<rparr>) else map_find (sys_cache sys) t)" for t
    using sorted by (simp_all add: w(2))
  have "spec_log sys2 tid (Some (tops @ [oper]))" using wr(1) by (simp add: spec_log_def sys2)
  moreover have "spec_log sys2 t (pend t)" if t: "t \<noteq> tid" for t
  proof (rule spec_log_frame [of sys t])
    show "spec_log sys t (pend t)" using assms(1) by (simp add: tx_refines_iff)
    show "sys_disk sys2 (t @ ''.log'') = sys_disk sys (t @ ''.log'')" using wr(2) t by (simp add: sys2)
  qed (simp_all add: sys2 t)
  moreover have "spec_main perform s0 (sys2, s2) ops"
  proof -
    have "sys_disk sys2 (tb_file b) = sys_disk sys (tb_file b)" if "b \<in> set (tm_active (sys_main sys))" for b
      using that st(3) wr(2) [of "tb_file b"] by (simp add: tx_log_ok_def sys2)
    moreover have "spec_main perform s0 (sys, s2) ops" using assms(1) w(3) by (simp add: tx_refines_iff)
    ultimately show ?thesis using spec_main_frame [of perform s0 sys s2 ops sys2] sys2(2) by blast
  qed
  ultimately show ?thesis using sorted w(2) st(2) by (simp add: tx_refines_iff)
qed

lemma perform_pending:
  "spec_main perform s0 (sys, s) ops \<Longrightarrow> \<exists>opss applied. tm_shows (sys_disk sys) (sys_main sys) opss \<and>
     ops = applied @ concat opss \<and> perform_all perform applied s0 = Inr s"
  by (simp add: spec_main_def)

lemma spec_mainI:
  "tm_shows (sys_disk sys) (sys_main sys) opss \<Longrightarrow> perform_all perform applied s0 = Inr s \<Longrightarrow>
   tm_counted (sys_main sys) \<Longrightarrow> ops = applied @ concat opss \<Longrightarrow> spec_main perform s0 (sys, s) ops"
  by (auto simp: spec_main_def)

lemma refines_commit:
  assumes "tx_refines perform s0 (sys, s) (ops, pend)" "event_ok (Commit tid) sys"
    and "sys_event perform n (Commit tid) (sys, s) = Inr (sys2, s2)"
  shows "tx_refines perform s0 (sys2, s2)
    (ops @ (case pend tid of Some ops \<Rightarrow> ops | None \<Rightarrow> []), pend(tid := None))"
proof -
  have sorted: "map_sorted (sys_cache sys)" and log: "spec_log sys tid (pend tid)"
    and counted: "tm_counted (sys_main sys)" and main: "spec_main perform s0 (sys, s) ops"
    using assms(1) by (simp_all add: tx_refines_iff spec_main_def)
  with assms(2) obtain st tops where st: "map_find (sys_cache sys) tid = Some st" "pend tid = Some tops"
      "tx_log_ok (sys_disk sys) (sys_main sys) tid (st_log st) tops"
    by (auto simp: spec_log_def split: option.splits)
  from st(3) obtain topss where t: "tm_inv (sys_disk sys) (st_log st) topss" "concat topss = tops"
      "\<not> tm_mainLog (st_log st)" "tm_logFile (st_log st) = tid @ ''.log''"
      "tm_logFile (st_log st) \<noteq> tm_logFile (sys_main sys)"
    by (auto simp: tx_log_ok_def)
  from perform_pending [OF main] obtain opss applied where p: "tm_shows (sys_disk sys) (sys_main sys) opss"
      "ops = applied @ concat opss" "perform_all perform applied s0 = Inr s" by blast
  from log_commit_spec [OF p(1) counted t(1,3,5)] obtain main2 log2 where c:
    "log_commit (sys_main sys) (st_log st) = Inr (main2, log2)"
    "tm_shows (sys_disk sys) main2 (opss @ topss @ [[]])" "tm_counted main2" by blast
  note files = log_commit_files [OF c(1) t(1) counted]
  have sys2: "sys_disk sys2 = sys_disk sys" "sys_main sys2 = main2" "s2 = s"
      "sys_cache sys2 = map_erase tid (sys_cache sys)"
    using assms(3) st(1) c(1)
    by (auto simp: commit_command_def getTransaction_cached dropTransaction_def dropControlFile_def
        cache_containsKey_def cache_remove_erase)
  have find: "map_find (sys_cache sys2) t = (if t = tid then None else map_find (sys_cache sys) t)" for t
    by (simp add: sys2 map_find_erase)
  have "spec_log sys2 t (pend t)" if u: "t \<noteq> tid" for t
  proof (cases "pend t")
    case None
    have "spec_log sys t (pend t)" using assms(1) by (simp add: tx_refines_iff)
    with None u show ?thesis by (simp add: spec_log_def find)
  next
    case (Some us)
    have old: "spec_log sys t (pend t)" using assms(1) by (simp add: tx_refines_iff)
    with Some have u2: "tm_logFile (sys_main sys) \<noteq> t @ ''.log''"
        "t @ ''.log'' \<notin> tb_file ` set (tm_active (sys_main sys))"
      by (auto simp: spec_log_def tx_log_ok_def)
    have "t @ ''.log'' \<notin> tb_file ` set (tm_active main2)"
      using files(2) u2 u t(4) by auto
    then have "b \<in> set (tm_active (sys_main sys)) \<or> tb_file b \<noteq> t @ ''.log''"
      if "b \<in> set (tm_active (sys_main sys2))" for b
      using that by (metis image_eqI sys2(2))
    then show ?thesis
      by (intro spec_log_frame [OF old]) (simp_all add: map_find_erase u sys2 files(1))
  qed
  moreover have "spec_log sys2 tid None" by (simp add: spec_log_def find)
  moreover have "spec_main perform s0 (sys2, s2) (ops @ tops)"
  proof -
    have "ops @ tops = applied @ concat (opss @ topss @ [[]])" using p(2) t(2) by simp
    with c(2,3) p(3) show ?thesis by (intro spec_mainI) (simp_all only: sys2)
  qed
  ultimately show ?thesis using sorted st(2) by (simp add: tx_refines_iff sys2 map_sorted_erase)
qed

lemma refines_rollback:
  assumes "tx_refines perform s0 (sys, s) (ops, pend)" "event_ok (Rollback tid) sys"
    and "sys_event perform n (Rollback tid) (sys, s) = Inr (sys2, s2)"
  shows "tx_refines perform s0 (sys2, s2) (ops, pend(tid \<mapsto> []))"
proof -
  have sorted: "map_sorted (sys_cache sys)" and log: "spec_log sys tid (pend tid)"
    and main: "spec_main perform s0 (sys, s) ops"
    using assms(1) by (simp_all add: tx_refines_iff)
  with assms(2) obtain st tops where st: "map_find (sys_cache sys) tid = Some st"
      "tx_log_ok (sys_disk sys) (sys_main sys) tid (st_log st) tops"
    by (auto simp: spec_log_def split: option.splits)
  from st(2) obtain topss where t: "tm_inv (sys_disk sys) (st_log st) topss" "tm_reusable (st_log st) = []"
      "tm_logFile (st_log st) = tid @ ''.log''" "\<not> tm_mainLog (st_log st)"
    by (auto simp: tx_log_ok_def)
  from log_rollback_spec [OF t(1,2)] obtain d log2 where r:
    "log_rollback (sys_disk sys, st_log st) = Inr (d, log2)" "tm_inv d log2 []" "tm_reusable log2 = []"
    "tm_logFile log2 = tid @ ''.log''" "\<not> tm_mainLog log2" "\<forall>f. f \<noteq> tid @ ''.log'' \<longrightarrow> d f = sys_disk sys f"
    using t(3,4) by auto
  let ?st = "\<lparr>st_log = log2, st_open = False\<rparr>"
  have sys2: "sys_disk sys2 = d" "sys_main sys2 = sys_main sys" "s2 = s"
      "sys_cache sys2 = map_put tid ?st (sys_cache sys)"
    using assms(3) r(1) by (auto simp: rollback_command_def getTransaction_cached [OF st(1)] dropControlFile_def)
  have find: "map_find (sys_cache sys2) t = (if t = tid then Some ?st else map_find (sys_cache sys) t)" for t
    using sorted by (simp add: sys2)
  have "\<exists>opss. tm_inv d log2 opss \<and> concat opss = []" using r(2) by (intro exI [of _ "[]"]) simp
  then have "tx_log_ok d (sys_main sys) tid log2 []" using st(2) r(3-5) by (simp add: tx_log_ok_def)
  then have "spec_log sys2 tid (Some [])" by (simp add: spec_log_def find sys2(1,2))
  moreover have "spec_log sys2 t (pend t)" if u: "t \<noteq> tid" for t
  proof (rule spec_log_frame [of sys t])
    show "spec_log sys t (pend t)" using assms(1) by (simp add: tx_refines_iff)
    show "map_find (sys_cache sys2) t = map_find (sys_cache sys) t" using u by (simp add: find)
  qed (use u r(6) in \<open>simp_all add: sys2(1,2)\<close>)
  moreover have "spec_main perform s0 (sys2, s2) ops"
  proof -
    have "sys_disk sys2 (tb_file b) = sys_disk sys (tb_file b)" if "b \<in> set (tm_active (sys_main sys))" for b
      using that st(2) r(6) by (simp add: tx_log_ok_def sys2(1))
    then show ?thesis using spec_main_frame [of perform s0 sys s2 ops sys2] main sys2(2,3) by blast
  qed
  ultimately show ?thesis using sorted by (simp add: tx_refines_iff sys2(4))
qed

lemma refines_monitor:
  assumes "tx_refines perform s0 (sys, s) (ops, pend)"
    and "sys_event perform n Monitor (sys, s) = Inr (sys2, s2)"
  shows "tx_refines perform s0 (sys2, s2) (ops, pend)"
proof -
  have counted: "tm_counted (sys_main sys)" and main: "spec_main perform s0 (sys, s) ops"
    and sorted: "map_sorted (sys_cache sys)"
    using assms(1) by (simp_all add: tx_refines_iff spec_main_def)
  from perform_pending [OF main] obtain opss applied where p: "tm_shows (sys_disk sys) (sys_main sys) opss"
      "ops = applied @ concat opss" "perform_all perform applied s0 = Inr s" by blast
  show ?thesis
  proof (cases "length opss \<le> 1")
    case True
    then have "tm_flushBuffer perform (sys_disk sys, sys_main sys) s = Inr ((sys_disk sys, sys_main sys), s)"
      using tm_shows_length [OF p(1)] by (simp add: tm_flushBuffer_def)
    then have "sys2 = sys" "s2 = s" using assms(2) by (auto simp: monitor_round_def)
    with assms(1) show ?thesis by simp
  next
    case False
    then obtain o1 os where os: "opss = o1 # os" "os \<noteq> []" by (cases opss) auto
    from tm_flushBuffer_shared [OF p(1) [unfolded os(1)] os(2) counted, of perform] obtain d main2 where f:
      "\<And>s. tm_flushBuffer perform (sys_disk sys, sys_main sys) s =
        bindR (perform_all perform o1 s) (\<lambda>s. Inr ((d, main2), s))"
      "tm_shows d main2 os" "tm_counted main2" "tm_active main2 = tl (tm_active (sys_main sys))"
      "tm_logFile main2 = tm_logFile (sys_main sys)"
      "d = (let f = tb_file (hd (tm_active (sys_main sys))) in
          if f \<noteq> tm_logFile (sys_main sys) \<and> file_refs f (tl (tm_active (sys_main sys))) = 0
          then disk_remove (sys_disk sys) f else sys_disk sys)"
      by blast
    have r: "perform_all perform o1 s = Inr s2" "sys2 = sys\<lparr>sys_disk := d, sys_main := main2\<rparr>"
      using assms(2) f(1) by (auto simp: monitor_round_def bindR_Inr_iff)
    have sys2: "sys_disk sys2 = d" "sys_main sys2 = main2" "sys_cache sys2 = sys_cache sys"
      by (simp_all add: r(2))
    have ne: "tm_active (sys_main sys) \<noteq> []" using p(1) os(1) by (auto simp: tm_shows_def)
    have "spec_log sys2 t (pend t)" for t
    proof (cases "pend t")
      case None
      have "spec_log sys t (pend t)" using assms(1) by (simp add: tx_refines_iff)
      with None show ?thesis by (simp add: spec_log_def sys2)
    next
      case (Some us)
      have old: "spec_log sys t (pend t)" using assms(1) by (simp add: tx_refines_iff)
      with Some have "\<forall>b\<in>set (tm_active (sys_main sys)). tb_file b \<noteq> t @ ''.log''"
        by (auto simp: spec_log_def tx_log_ok_def)
      then have "d (t @ ''.log'') = sys_disk sys (t @ ''.log'')"
        using ne f(6) by (auto simp: Let_def disk_remove_def dest: hd_in_set)
      moreover have "b \<in> set (tm_active (sys_main sys))" if "b \<in> set (tm_active main2)" for b
        using that f(4) by (simp add: list.set_sel(2) ne)
      ultimately show ?thesis
        by (intro spec_log_frame [OF old]) (simp_all add: sys2 f(5))
    qed
    moreover have "spec_main perform s0 (sys2, s2) ops"
    proof -
      have "ops = (applied @ o1) @ concat os" using p(2) os(1) by simp
      moreover have "perform_all perform (applied @ o1) s0 = Inr s2"
        using p(3) r(1) by (simp add: perform_all_append)
      ultimately show ?thesis using f(2,3) by (intro spec_mainI) (simp_all only: sys2)
    qed
    ultimately show ?thesis using sorted by (simp add: tx_refines_iff sys2)
  qed
qed

text \<open>One event, and runs of events.\<close>

lemma refines_event:
  assumes "tx_refines perform s0 (sys, s) x" "event_ok ev sys" "0 < n"
    and "sys_event perform n ev (sys, s) = Inr (sys2, s2)"
  shows "tx_refines perform s0 (sys2, s2) (spec_event ev x)"
proof -
  obtain ops pend where x: "x = (ops, pend)" by (cases x)
  show ?thesis
  proof (cases ev)
    case (Begin tid)
    with assms x refines_begin [of perform s0 sys s ops pend tid n sys2 s2] show ?thesis by simp
  next
    case (Write tid oper)
    with assms x refines_write [of perform s0 sys s ops pend tid oper n sys2 s2] show ?thesis
      by (simp del: event_ok.simps sys_event.simps)
  next
    case (Commit tid)
    with assms x refines_commit [of perform s0 sys s ops pend tid n sys2 s2] show ?thesis
      by (simp del: event_ok.simps sys_event.simps)
  next
    case (Rollback tid)
    with assms x refines_rollback [of perform s0 sys s ops pend tid n sys2 s2] show ?thesis
      by (simp del: event_ok.simps sys_event.simps)
  next
    case Monitor
    with assms x refines_monitor [of perform s0 sys s ops pend n sys2 s2] show ?thesis by simp
  qed
qed

text \<open>Beginning, committing and rolling back never fail.\<close>

lemma event_returns:
  assumes "tx_refines perform s0 (sys, s) x" "event_ok ev sys" "ev = Begin tid \<or> ev = Commit tid \<or> ev = Rollback tid"
  shows "\<exists>sys2. sys_event perform n ev (sys, s) = Inr (sys2, s)"
proof (cases "ev = Begin tid")
  case True
  with assms(2) show ?thesis
    by (simp add: getTransaction_def cache_containsKey_def log_open_def Let_def)
next
  case False
  obtain ops pend where x: "x = (ops, pend)" by (cases x)
  have counted: "tm_counted (sys_main sys)" and main: "spec_main perform s0 (sys, s) ops"
    and log: "spec_log sys tid (pend tid)"
    using assms(1) by (simp_all add: x tx_refines_iff spec_main_def)
  have "map_find (sys_cache sys) tid \<noteq> None" using False assms(2,3) by auto
  with log obtain st tops where st: "map_find (sys_cache sys) tid = Some st"
      "tx_log_ok (sys_disk sys) (sys_main sys) tid (st_log st) tops"
    by (auto simp: spec_log_def split: option.splits)
  then obtain topss where t: "tm_inv (sys_disk sys) (st_log st) topss" "\<not> tm_mainLog (st_log st)"
      "tm_logFile (st_log st) \<noteq> tm_logFile (sys_main sys)" "tm_reusable (st_log st) = []"
    by (auto simp: tx_log_ok_def)
  from perform_pending [OF main] obtain opss where p: "tm_shows (sys_disk sys) (sys_main sys) opss" by blast
  show ?thesis
  proof (cases "ev = Commit tid")
    case True
    with log_commit_spec [OF p counted t(1-3)] st(1) show ?thesis
      by (auto simp: commit_command_def getTransaction_cached)
  next
    case False
    with \<open>ev \<noteq> Begin tid\<close> assms(3) have "ev = Rollback tid" by blast
    with log_rollback_spec [OF t(1,4)] st(1) show ?thesis
      by (auto simp: rollback_command_def getTransaction_cached)
  qed
qed

inductive sys_run ::
    "(tx_operation \<Rightarrow> 's \<Rightarrow> 's res) \<Rightarrow> nat \<Rightarrow> tx_system \<times> 's \<Rightarrow> tx_event list \<Rightarrow> tx_system \<times> 's \<Rightarrow> bool"
  for perform n x where
  run_nil: "sys_run perform n x [] x"
| run_event: "sys_run perform n x evs (sys, s) \<Longrightarrow> event_ok ev sys \<Longrightarrow>
    sys_event perform n ev (sys, s) = Inr y \<Longrightarrow> sys_run perform n x (evs @ [ev]) y"

definition sys_start :: "disk \<Rightarrow> nat \<Rightarrow> tx_system" where
  "sys_start d n = \<lparr>sys_disk = d, sys_main = tm_create ''main'' True n, sys_cache = [], sys_controls = []\<rparr>"

definition spec_start :: tx_spec where
  "spec_start = ([], \<lambda>_. None)"

lemma refines_start: "0 < n \<Longrightarrow> tx_refines perform s0 (sys_start d n, s0) spec_start"
  using tm_inv_shows [OF tm_create_inv [of n d "''main''" True]]
  by (simp add: tx_refines_def sys_start_def spec_start_def tm_counted_create) (auto intro: exI [of _ "[]"])

lemma sys_run_refines:
  assumes "sys_run perform n x evs y" "0 < n" "tx_refines perform s0 x a"
  shows "tx_refines perform s0 y (fold spec_event evs a)"
  using assms
proof (induction rule: sys_run.induct)
  case (run_event evs sys s ev y)
  obtain sys2 s2 where y: "y = (sys2, s2)" by (cases y)
  from run_event y refines_event [of perform s0 sys s "fold spec_event evs a" ev n sys2 s2] show ?case by simp
qed simp

end
