(* ===== verification/Data_System.thy ===== *)
theory Data_System
  imports Data_Run Tx_System
begin

text \<open>
  The transactions over the database: BaseTransaction::find of a transaction reads the main log, which
  reads DBController, while the monitor moves committed operations from the log to the files.
\<close>

declare split_paired_All [simp del] split_paired_Ex [simp del]

section \<open>The database under a transaction\<close>

text \<open>DBController::find as the controller of the transaction of the main log; it always has a result.\<close>

definition store_find ::
    "(string \<Rightarrow> (expr option \<times> string list) res) \<Rightarrow> string \<Rightarrow>
     string \<Rightarrow> string \<Rightarrow> string \<Rightarrow> string \<Rightarrow> bson option \<Rightarrow> data_store \<Rightarrow> (bson list option \<times> data_store) res" where
  "store_find parse smax db ns sel filt options st =
     bindR (ctl_find no_index_files parse smax db ns sel filt options st) (\<lambda>(result, st). Inr (Some result, st))"

definition parse_root :: "(string \<Rightarrow> (expr option \<times> string list) res) \<Rightarrow> string \<Rightarrow> expr option res" where
  "parse_root parse filt = bindR (parse filt) (\<lambda>(root, _). Inr root)"

section \<open>What a filter may do\<close>

text \<open>
  A filter on the documents of a run: it has a value on each of them, in memory as in the file, and that
  value is the same for all documents of one id.
\<close>

definition filters :: "expr option \<Rightarrow> (bson \<Rightarrow> bool) \<Rightarrow> tx_operation list \<Rightarrow> bool" where
  "filters root P ops \<longleftrightarrow> (\<forall>oper\<in>set ops. \<forall>obj\<in>set (action_docs (op_action oper)).
     bson_apart obj \<and> filter_safe root obj \<and> filter_match root obj = Inr (P obj) \<and>
     (\<forall>oper2\<in>set ops. \<forall>obj2\<in>set (action_docs (op_action oper2)). doc_id obj2 = doc_id obj \<longrightarrow> P obj2 = P obj))"

definition here :: "string \<Rightarrow> string \<Rightarrow> tx_operation list \<Rightarrow> tx_operation list" where
  "here db ns ops = filter (\<lambda>oper. op_db oper = db \<and> op_ns oper = ns) ops"

lemma here_append [simp]: "here db ns (ops @ ops') = here db ns ops @ here db ns ops'"
  by (simp add: here_def)

lemma here_wanted:
  assumes "no_nul db" "no_nul ns" "\<forall>oper\<in>set ops. no_nul (op_db oper) \<and> no_nul (op_ns oper)"
  shows "filter (\<lambda>oper. wanted (Some db) (Some ns) (op_db oper) (op_ns oper)) ops = here db ns ops"
  using assms by (auto simp: here_def wanted_def same_text_def intro!: filter_cong)

lemma run_ok_fresh:
  assumes "run_ok D U S ops" "settled ops" "\<forall>db ns. doc_id ` set (D db ns) \<subseteq> {d. (db, ns, d) \<in> U}"
  shows "inserts_fresh P (here db ns ops) (D db ns)"
  using assms
proof (induction ops arbitrary: D U S)
  case (Cons oper ops)
  let ?D = "docs_step oper D" and ?U = "used_step oper U"
  have live: "in_store (op_action oper) = op_action oper"
    using Cons.prems(2) live_in_store by (cases "op_action oper") (auto simp: settled_def doc_ok_def)
  have "doc_id ` set (?D d n) \<subseteq> {i. (d, n, i) \<in> ?U}" for d n
  proof (cases "(d, n) = (op_db oper, op_ns oper)")
    case True
    have "doc_id ` set (D d n) \<subseteq> {i. (d, n, i) \<in> U}" using Cons.prems(3) by blast
    with True Cons.prems(1) show ?thesis unfolding docs_step_def if_P [OF True] live
      by (cases "op_action oper") (auto simp: used_step_def op_ok_def view_put_def)
  next
    case False
    have "U \<subseteq> ?U" by (auto simp: used_step_def split: tx_action.split)
    with False Cons.prems(3) show ?thesis unfolding docs_step_def if_not_P [OF False] by blast
  qed
  then have IH: "inserts_fresh P (here db ns ops) (?D db ns)"
    using Cons.prems(1,2) by (intro Cons.IH [of _ ?U "stale_step oper S"]) (auto simp: settled_def)
  show ?case
  proof (cases "op_db oper = db \<and> op_ns oper = ns")
    case True
    then have "?D db ns = view_step (op_action oper) (D db ns)" by (simp add: docs_step_def live)
    moreover have "doc_id obj \<notin> doc_id ` set (D db ns)" if "op_action oper = TxInsert obj" for obj
      using that True Cons.prems(1,3) by (auto simp: op_ok_def)
    ultimately show ?thesis using IH True by (simp add: here_def split: tx_action.split)
  next
    case False
    then have "?D db ns = D db ns" by (auto simp: docs_step_def)
    moreover have "here db ns (oper # ops) = here db ns ops" using False by (auto simp: here_def)
    ultimately show ?thesis using IH by simp
  qed
qed (simp add: here_def)

lemma filters_kept:
  assumes "filters root P ops" "set ops' \<subseteq> set ops" "set docs \<subseteq> (\<Union>oper\<in>set ops. set (action_docs (op_action oper)))"
  shows "updates_kept P (doc_id ` set (filter P docs)) ops'"
proof -
  have "P obj \<or> doc_id obj \<notin> doc_id ` set (filter P docs)" if "oper \<in> set ops'" "op_action oper = TxUpdate obj" for oper obj
  proof -
    have o: "oper \<in> set ops" "obj \<in> set (action_docs (op_action oper))" using that assms(2) by auto
    have "P r = P obj" if r: "r \<in> set docs" "doc_id r = doc_id obj" for r
    proof -
      obtain oper2 where "oper2 \<in> set ops" "r \<in> set (action_docs (op_action oper2))" using assms(3) r(1) by blast
      with assms(1) o r(2) show ?thesis unfolding filters_def by blast
    qed
    then show ?thesis by auto
  qed
  then show ?thesis by (auto simp: updates_kept_def split: tx_action.split)
qed

lemma settled_append [simp]: "settled (ops @ ops') \<longleftrightarrow> settled ops \<and> settled ops'"
  by (auto simp: settled_def)

lemma view_ops_short: "length (view_ops ops docs) \<le> length docs + length ops"
proof (induction ops arbitrary: docs)
  case (Cons oper ops)
  have "length (view_step (op_action oper) docs) \<le> Suc (length docs)"
    by (cases "op_action oper") (simp_all add: view_put_def le_SucI)
  with Cons.IH [of "view_step (op_action oper) docs"] show ?case by (simp add: view_ops_def)
qed (simp add: view_ops_def)

text \<open>The documents of a run from a new database.\<close>

lemma run_docs:
  assumes "settled ops"
  shows "docs_run ops no_docs db ns = view_ops (here db ns ops) []" "length (docs_run ops no_docs db ns) \<le> length ops"
    "distinct (map doc_id (docs_run ops no_docs db ns))" "\<forall>obj\<in>set (docs_run ops no_docs db ns). doc_ok obj"
    "set (docs_run ops no_docs db ns) \<subseteq> (\<Union>oper\<in>set ops. set (action_docs (op_action oper)))"
proof -
  show v: "docs_run ops no_docs db ns = view_ops (here db ns ops) []"
    using settled_view [OF assms] by (simp add: here_def)
  show "length (docs_run ops no_docs db ns) \<le> length ops"
    using view_ops_short [of "here db ns ops" "[]"] order_trans [OF _ length_filter_le] unfolding v here_def by simp
  show "distinct (map doc_id (docs_run ops no_docs db ns))" unfolding v by (rule view_ops_distinct) simp
  show d: "set (docs_run ops no_docs db ns) \<subseteq> (\<Union>oper\<in>set ops. set (action_docs (op_action oper)))"
    using view_ops_docs [of "here db ns ops" "[]"] unfolding v here_def by auto
  with assms show "\<forall>obj\<in>set (docs_run ops no_docs db ns). doc_ok obj" unfolding settled_def by blast
qed

section \<open>A find of a transaction\<close>

text \<open>
  Part of the committed operations is in the files, part in the main log, and those of the transaction in
  its own log: a find gives the documents after all of them.
\<close>

lemma system_find:
  assumes shown: "tm_shows d base mopss" "tm_shows d t topss" "perform_all (ctl_perform no_index_files) applied new_store = Inr st"
    and ops: "ops = applied @ concat mopss @ concat topss" "run_ok no_docs {} {} ops" "settled ops" "filters root P ops"
    and names: "plain ns" "no_nul db" "\<forall>oper\<in>set ops. no_nul (op_db oper) \<and> no_nul (op_ns oper)"
    and parse: "parse filt = Inr (root, tokens)" "tokens \<noteq> [''_id'']"
    and limit: "result_limit smax options = Inr k" "int (length ops) \<le> k"
  shows "\<exists>st2. std_find (parse_root parse) smax (store_find parse smax) db ns ''*'' filt options ((d, t), (base, st)) =
    Inr (filter P (docs_run ops no_docs db ns), (d, tm_rewound t), (tm_rewound base, st2))"
proof -
  let ?m = "concat mopss" and ?t = "concat topss" and ?docs = "docs_run applied no_docs db ns"
  have part: "settled applied" and mid: "settled (applied @ ?m)" using ops(3) unfolding ops(1) by simp_all
  have runs: "run_ok no_docs {} {} applied" using ops(2) unfolding ops(1) run_ok_append by blast
  obtain U S where st: "holds_docs st (docs_run applied no_docs) U S"
    using perform_run [OF new_store_holds runs] shown(3) by auto
  note docs = run_docs [OF part, of db ns] and all = run_docs [OF ops(3), of db ns]
  have whole: "docs_run ops no_docs db ns = view_ops (here db ns ?m @ here db ns ?t) ?docs"
    "view_ops (here db ns ?m) ?docs = docs_run (applied @ ?m) no_docs db ns"
    using settled_view [OF ops(3)] settled_view [OF part] settled_view [OF mid] ops(1)
    by (simp_all add: here_def view_ops_def)
  have known: "set ?docs \<subseteq> (\<Union>oper\<in>set ops. set (action_docs (op_action oper)))"
    "set (docs_run (applied @ ?m) no_docs db ns) \<subseteq> (\<Union>oper\<in>set ops. set (action_docs (op_action oper)))"
    using docs(5) run_docs(5) [OF mid, of db ns] ops(1) by auto
  have scans: "\<forall>r\<in>set ?docs. scans root ''*'' P (\<lambda>r. r) r"
  proof
    fix r assume r: "r \<in> set ?docs"
    then have "bson_apart r \<and> filter_safe root r \<and> filter_match root r = Inr (P r)" "doc_ok r"
      using known(1) ops(4) docs(4) unfolding filters_def by blast+
    then show "scans root ''*'' P (\<lambda>r. r) r" by (simp add: scans_def doc_ok_def bson_select_star del: bson_select.simps)
  qed
  have len: "length (filter P (docs_run ops' no_docs db ns)) \<le> nat k" if "settled ops'" "length ops' \<le> length ops" for ops'
    using length_filter_le [of P "docs_run ops' no_docs db ns"] run_docs(2) [OF that(1), of db ns] that(2) limit(2) by linarith
  from find_docs [where parse = parse, OF st names(1) parse scans limit(1)] obtain st2 where
    "ctl_find no_index_files parse smax db ns ''*'' filt options st = Inr (take (nat k) (filter P ?docs), st2)" by auto
  moreover have "length (filter P ?docs) \<le> nat k"
    using len [OF part] ops(1) by simp
  ultimately have find: "store_find parse smax db ns ''*'' filt options st = Inr (Some (filter P ?docs), st2)"
    by (simp add: store_find_def)
  have "std_find (parse_root parse) smax (store_find parse smax) db ns ''*'' filt options ((d, t), (base, st)) =
    Inr (take (max 1 (nat k)) (filter P (view_ops (here db ns ?m @ here db ns ?t) ?docs)), (d, tm_rewound t), (tm_rewound base, st2))"
  proof (rule std_find_view [OF shown(1,2), where root = root])
    show "parse_root parse filt = Inr root" using parse(1) by (simp add: parse_root_def)
    show "here db ns ?m = filter (\<lambda>oper. wanted (Some db) (Some ns) (op_db oper) (op_ns oper)) ?m"
      "here db ns ?t = filter (\<lambda>oper. wanted (Some db) (Some ns) (op_db oper) (op_ns oper)) ?t"
      using names ops(1) by (simp_all add: here_wanted plain_def)
    show "\<forall>oper\<in>set (here db ns ?m @ here db ns ?t). \<forall>obj\<in>set (action_docs (op_action oper)).
        doc_ok obj \<and> filter_match root obj = Inr (P obj)"
      using ops(1,3,4) by (auto simp: here_def settled_def filters_def)
    have fresh: "inserts_fresh P (here db ns ops) []" using run_ok_fresh [OF ops(2,3)] by simp
    have split: "inserts_fresh P (xs @ ys) D \<longleftrightarrow> inserts_fresh P xs D \<and> inserts_fresh P ys (view_ops xs D)" for xs ys D
      by (induction xs arbitrary: D) (auto simp: view_ops_def)
    show "inserts_fresh P (here db ns ?m) ?docs" "inserts_fresh P (here db ns ?t) (view_ops (here db ns ?m) ?docs)"
      using fresh by (simp_all add: ops(1) split docs(1) view_ops_def)
    show "updates_kept P (doc_id ` set (filter P ?docs)) (here db ns ?m)"
      by (rule filters_kept [OF ops(4) _ known(1)]) (auto simp: here_def ops(1))
    show "updates_kept P (doc_id ` set (filter P (view_ops (here db ns ?m) ?docs))) (here db ns ?t)"
      unfolding whole(2) by (rule filters_kept [OF ops(4) _ known(2)]) (auto simp: here_def ops(1))
    show "int (length (filter P (view_ops (here db ns ?m) ?docs))) \<le> k"
      unfolding whole(2) using len [OF mid] ops(1) limit(2) by simp
  qed (fact find limit(1) docs(3,4))+
  moreover have "take (max 1 (nat k)) (filter P (docs_run ops no_docs db ns)) = filter P (docs_run ops no_docs db ns)"
    using len [OF ops(3) order_refl] by (simp add: max.coboundedI2)
  ultimately show ?thesis unfolding whole(1) by metis
qed

section \<open>Runs of the server over the database\<close>

lemma pending_docs:
  assumes "tx_refines (ctl_perform no_index_files) new_store (sys, st) (done_ops, todo)"
  obtains opss applied where "tm_shows (sys_disk sys) (sys_main sys) opss" "done_ops = applied @ concat opss"
    "perform_all (ctl_perform no_index_files) applied new_store = Inr st" "tm_counted (sys_main sys)"
  using assms that unfolding tx_refines_def by auto

text \<open>A transaction that has begun finds what was committed and what it wrote itself.\<close>

lemma system_run_find:
  assumes sys: "tx_refines (ctl_perform no_index_files) new_store (sys, st) (done_ops, todo)" "todo tid = Some tops"
    and ops: "ops = done_ops @ tops" "run_ok no_docs {} {} ops" "settled ops" "filters root P ops"
    and names: "plain ns" "no_nul db" "\<forall>oper\<in>set ops. no_nul (op_db oper) \<and> no_nul (op_ns oper)"
    and parse: "parse filt = Inr (root, tokens)" "tokens \<noteq> [''_id'']"
    and limit: "result_limit smax options = Inr k" "int (length ops) \<le> k"
  shows "\<exists>tx y. map_find (sys_cache sys) tid = Some tx \<and>
    std_find (parse_root parse) smax (store_find parse smax) db ns ''*'' filt options ((sys_disk sys, st_log tx), (sys_main sys, st)) =
      Inr (filter P (docs_run ops no_docs db ns), y)"
proof -
  obtain opss applied where p: "tm_shows (sys_disk sys) (sys_main sys) opss" "done_ops = applied @ concat opss"
    "perform_all (ctl_perform no_index_files) applied new_store = Inr st" by (rule pending_docs [OF sys(1)])
  have "spec_log sys tid (todo tid)" using sys(1) by (simp add: tx_refines_iff)
  then obtain tx topss where tx: "map_find (sys_cache sys) tid = Some tx" "tm_shows (sys_disk sys) (st_log tx) topss" "concat topss = tops"
    using sys(2) by (auto simp: spec_log_def tx_log_ok_def dest: tm_inv_shows)
  have all: "ops = applied @ concat opss @ concat topss" using ops(1) p(2) tx(3) by simp
  from system_find [where parse = parse, OF p(1) tx(2) p(3) all ops(2-4) names parse limit] tx(1) show ?thesis by blast
qed

text \<open>The monitor always returns, however many operations a buffer holds.\<close>

lemma monitor_returns:
  assumes "tx_refines (ctl_perform no_index_files) new_store (sys, st) (done_ops, todo)" "run_ok no_docs {} {} done_ops"
  shows "\<exists>y. sys_event (ctl_perform no_index_files) n Monitor (sys, st) = Inr y"
proof -
  obtain opss applied where p: "tm_shows (sys_disk sys) (sys_main sys) opss" "done_ops = applied @ concat opss"
    "perform_all (ctl_perform no_index_files) applied new_store = Inr st" "tm_counted (sys_main sys)" by (rule pending_docs [OF assms(1)])
  show ?thesis
  proof (cases "length opss \<le> 1")
    case True
    then show ?thesis using tm_shows_length [OF p(1)] by (simp add: tm_flushBuffer_def monitor_round_def)
  next
    case False
    then obtain o1 os where os: "opss = o1 # os" "os \<noteq> []" by (cases opss) auto
    from tm_flushBuffer_shared [OF p(1) [unfolded os(1)] os(2) p(4), of "ctl_perform no_index_files"] obtain d main2 where
      "\<forall>s. tm_flushBuffer (ctl_perform no_index_files) (sys_disk sys, sys_main sys) s =
        bindR (perform_all (ctl_perform no_index_files) o1 s) (\<lambda>s. Inr ((d, main2), s))" by blast
    moreover have runs: "run_ok no_docs {} {} (applied @ o1)"
      using assms(2) unfolding p(2) os(1) by (simp add: run_ok_append)
    from perform_run [OF new_store_holds this] p(3) obtain st2 where "perform_all (ctl_perform no_index_files) o1 st = Inr st2"
      by (auto simp: perform_all_append)
    ultimately show ?thesis by (simp add: monitor_round_def)
  qed
qed

end
