(* ===== verification/Server.thy ===== *)
theory Server
  imports Commands Data_System
begin

text \<open>
  The server: what the commands do (command/, the functions execute and writeResult) and
  NetworkService::executeRequest (network/networkservice.cpp), which reads one command, picks the
  transaction that its options name, executes it and writes the reply.
\<close>

declare split_paired_All [simp del] split_paired_Ex [simp del]

section \<open>Replies\<close>

datatype reply =
    No_reply
  | Documents "bson list"
  | Dropped bool
  | Names "string list"

definition find_writeResult :: "bson list \<Rightarrow> byte list" where
  "find_writeResult findresult = writeBSONArray findresult"

definition find_readResult :: "reply reader" where
  "find_readResult = rbind (readBSONArray ''*'') (\<lambda>findresult. rreturn (Documents findresult))"

text \<open>The functions writeResult of the command classes.\<close>

fun writeResult :: "reply \<Rightarrow> byte list" where
  "writeResult No_reply = []"
| "writeResult (Documents docs) = find_writeResult docs"
| "writeResult (Dropped result) = write_drop_result result"
| "writeResult (Names names) = write_names names"

text \<open>The functions readResult; which one is called depends on the class of the command.\<close>

fun readResult :: "command_body \<Rightarrow> reply reader" where
  "readResult (FindCommand _ _ _ _) = find_readResult"
| "readResult (DropnamespaceCommand _ _) = rbind read_drop_result (\<lambda>result. rreturn (Dropped result))"
| "readResult ShowdbsCommand = rbind read_names (\<lambda>names. rreturn (Names names))"
| "readResult (ShownamespacesCommand _) = rbind read_names (\<lambda>names. rreturn (Names names))"
| "readResult _ = rreturn No_reply"

text \<open>A reply that belongs to the command and can be sent.\<close>

fun reply_ok :: "command_body \<Rightarrow> reply \<Rightarrow> bool" where
  "reply_ok (FindCommand _ _ _ _) a = (\<exists>docs. a = Documents docs \<and> array_ok docs)"
| "reply_ok (DropnamespaceCommand _ _) a = (\<exists>result. a = Dropped result)"
| "reply_ok ShowdbsCommand a = (\<exists>names. a = Names names \<and> int32_size (length names) \<and> (\<forall>x\<in>set names. text_ok x))"
| "reply_ok (ShownamespacesCommand _) a = (\<exists>names. a = Names names \<and> int32_size (length names) \<and> (\<forall>x\<in>set names. text_ok x))"
| "reply_ok _ a = (a = No_reply)"

lemma reply_read: "reply_ok b a \<Longrightarrow> readResult b (writeResult a @ r) = Inr (a, r)"
  by (cases b) (auto simp: find_readResult_def find_writeResult_def rbind_Inr rreturn_def array_codec.dec_enc names_codec.dec_enc drop_result_codec.dec_enc)

section \<open>The service\<close>

text \<open>The transactions and the database below them; NetworkService::_running.\<close>

type_synonym server = "tx_system \<times> data_store"

record network_service =
  ns_server :: server
  ns_running :: bool

text \<open>What the service uses that is not its own: uuid, the filter parser, the setting max_results, the size of a log buffer.\<close>

record service_env =
  env_pages :: nat
  env_parse :: "string \<Rightarrow> (expr option \<times> string list) res"
  env_max_results :: string
  env_id :: string
  env_revision :: string

section \<open>The transaction of a command\<close>

definition request_transaction :: "command \<Rightarrow> string option res" where
  "request_transaction cmd =
     (case command_options cmd of
        None \<Rightarrow> Inr None
      | Some options \<Rightarrow>
          if bson_has options ''_transactionId'' then bindR (getString options ''_transactionId'') (\<lambda>tid. Inr (Some tid))
          else Inr None)"

definition find_transaction :: "nat \<Rightarrow> string option \<Rightarrow> tx_system \<Rightarrow> tx_system res" where
  "find_transaction n tx sys =
     (case tx of None \<Rightarrow> Inr sys | Some tid \<Rightarrow> bindR (getTransaction n tid sys) (\<lambda>(_, sys). Inr sys))"

text \<open>
  The controller of a command is the transaction of the main log or an open transaction. A write needs
  the control file of its log; a read of an open transaction goes on to the main log and the database.
\<close>

definition log_write :: "nat \<Rightarrow> string option \<Rightarrow> (txlog \<Rightarrow> ('a \<times> txlog) res) \<Rightarrow> tx_system \<Rightarrow> ('a \<times> tx_system) res" where
  "log_write n tx f sys =
     (case tx of
        None \<Rightarrow> bindR (f (sys_disk sys, sys_main sys)) (\<lambda>(a, d, m). Inr (a, sys\<lparr>sys_disk := d, sys_main := m\<rparr>))
      | Some tid \<Rightarrow> bindR (getTransaction n tid sys) (\<lambda>(st, sys).
          if \<not> st_open st then Inl Undefined_behaviour
          else bindR (f (sys_disk sys, st_log st)) (\<lambda>(a, d, log).
            Inr (a, sys\<lparr>sys_disk := d, sys_cache := map_put tid (st\<lparr>st_log := log\<rparr>) (sys_cache sys)\<rparr>))))"

definition log_read ::
    "nat \<Rightarrow> string option \<Rightarrow> (txlog \<times> data_store \<Rightarrow> ('a \<times> txlog \<times> data_store) res) \<Rightarrow>
     (txlog \<times> txmanager \<times> data_store \<Rightarrow> ('a \<times> txlog \<times> txmanager \<times> data_store) res) \<Rightarrow> server \<Rightarrow> ('a \<times> server) res" where
  "log_read n tx base std = (\<lambda>(sys, st).
     case tx of
       None \<Rightarrow> bindR (base ((sys_disk sys, sys_main sys), st)) (\<lambda>(a, (d, m), st).
         Inr (a, sys\<lparr>sys_disk := d, sys_main := m\<rparr>, st))
     | Some tid \<Rightarrow> bindR (getTransaction n tid sys) (\<lambda>(t, sys).
         bindR (std ((sys_disk sys, st_log t), (sys_main sys, st))) (\<lambda>(a, (d, log), (m, st)).
         Inr (a, sys\<lparr>sys_disk := d, sys_main := m, sys_cache := map_put tid (t\<lparr>st_log := log\<rparr>) (sys_cache sys)\<rparr>, st))))"

text \<open>The names that DBController gives to the main log, and the main log to an open transaction.\<close>

definition store_dbs :: "bson option \<Rightarrow> data_store \<Rightarrow> (string list \<times> data_store) res" where
  "store_dbs options st = Inr (ctl_dbs st, st)"

definition store_namespaces :: "string \<Rightarrow> bson option \<Rightarrow> data_store \<Rightarrow> (string list \<times> data_store) res" where
  "store_namespaces db options st = Inr (ctl_namespaces db st, st)"

definition std_dbs :: "bson option \<Rightarrow> txlog \<times> txmanager \<times> data_store \<Rightarrow> (string list \<times> txlog \<times> txmanager \<times> data_store) res" where
  "std_dbs options = (\<lambda>((d, t), (base, st)).
     tx_dbs (\<lambda>options (base, st). bindR (tx_dbs store_dbs options ((d, base), st)) (\<lambda>(r, (_, base), st). Inr (r, (base, st))))
       options ((d, t), (base, st)))"

definition std_namespaces ::
    "string \<Rightarrow> bson option \<Rightarrow> txlog \<times> txmanager \<times> data_store \<Rightarrow> (string list \<times> txlog \<times> txmanager \<times> data_store) res" where
  "std_namespaces db options = (\<lambda>((d, t), (base, st)).
     tx_namespaces (\<lambda>db options (base, st).
         bindR (tx_namespaces store_namespaces db options ((d, base), st)) (\<lambda>(r, (_, base), st). Inr (r, (base, st))))
       db options ((d, t), (base, st)))"

section \<open>Execution\<close>

definition unit_write :: "(txlog \<Rightarrow> txlog res) \<Rightarrow> txlog \<Rightarrow> (unit \<times> txlog) res" where
  "unit_write f x = bindR (f x) (\<lambda>x. Inr ((), x))"

text \<open>The functions execute of the command classes. FindCommand passes its options on.\<close>

definition insert_execute ::
    "service_env \<Rightarrow> string option \<Rightarrow> string \<Rightarrow> string \<Rightarrow> bson \<Rightarrow> server \<Rightarrow> (reply \<times> server) res" where
  "insert_execute env tx db ns bson = (\<lambda>(sys, st).
     bindR (log_write (env_pages env) tx (tx_insert (env_id env) (env_revision env) db ns bson) sys) (\<lambda>(_, sys).
     Inr (No_reply, sys, st)))"

definition update_execute ::
    "service_env \<Rightarrow> string option \<Rightarrow> string \<Rightarrow> string \<Rightarrow> bson \<Rightarrow> server \<Rightarrow> (reply \<times> server) res" where
  "update_execute env tx db ns bson = (\<lambda>(sys, st).
     bindR (log_write (env_pages env) tx (unit_write (tx_update db ns bson)) sys) (\<lambda>(_, sys). Inr (No_reply, sys, st)))"

definition remove_execute ::
    "service_env \<Rightarrow> string option \<Rightarrow> string \<Rightarrow> string \<Rightarrow> string \<Rightarrow> string \<Rightarrow> server \<Rightarrow> (reply \<times> server) res" where
  "remove_execute env tx db ns rid rev_no = (\<lambda>(sys, st).
     bindR (log_write (env_pages env) tx (unit_write (tx_remove db ns rid rev_no)) sys) (\<lambda>(_, sys). Inr (No_reply, sys, st)))"

definition dropnamespace_execute ::
    "service_env \<Rightarrow> string option \<Rightarrow> string \<Rightarrow> string \<Rightarrow> server \<Rightarrow> (reply \<times> server) res" where
  "dropnamespace_execute env tx db ns = (\<lambda>(sys, st).
     bindR (log_write (env_pages env) tx (tx_dropNamespace db ns) sys) (\<lambda>(result, sys). Inr (Dropped result, sys, st)))"

definition find_execute ::
    "service_env \<Rightarrow> string option \<Rightarrow> bson option \<Rightarrow> string \<Rightarrow> string \<Rightarrow> string option \<Rightarrow> string option \<Rightarrow> server \<Rightarrow>
     (reply \<times> server) res" where
  "find_execute env tx options db ns flt select x =
     (case (flt, select) of
        (Some flt, Some select) \<Rightarrow>
          (let parse = parse_root (env_parse env); smax = env_max_results env; below = store_find (env_parse env) smax in
           bindR (log_read (env_pages env) tx (tx_find parse smax below db ns select flt options)
             (std_find parse smax below db ns select flt options) x)
           (\<lambda>(docs, x). Inr (Documents docs, x)))
      | _ \<Rightarrow> Inl Undefined_behaviour)"

definition showdbs_execute :: "service_env \<Rightarrow> string option \<Rightarrow> server \<Rightarrow> (reply \<times> server) res" where
  "showdbs_execute env tx x =
     bindR (log_read (env_pages env) tx (tx_dbs store_dbs None) (std_dbs None) x) (\<lambda>(names, x). Inr (Names names, x))"

definition shownamespaces_execute :: "service_env \<Rightarrow> string option \<Rightarrow> string \<Rightarrow> server \<Rightarrow> (reply \<times> server) res" where
  "shownamespaces_execute env tx db x =
     bindR (log_read (env_pages env) tx (tx_namespaces store_namespaces db None) (std_namespaces db None) x)
       (\<lambda>(names, x). Inr (Names names, x))"

lemmas execute_defs = insert_execute_def update_execute_def remove_execute_def dropnamespace_execute_def
  find_execute_def showdbs_execute_def shownamespaces_execute_def

fun execute ::
    "service_env \<Rightarrow> string option \<Rightarrow> bson option \<Rightarrow> command_body \<Rightarrow> server \<Rightarrow> (reply \<times> server) res" where
  "execute env tx options (InsertCommand db ns bson) x = insert_execute env tx db ns bson x"
| "execute env tx options (UpdateCommand db ns bson) x = update_execute env tx db ns bson x"
| "execute env tx options (RemoveCommand db ns rid rev_no) x = remove_execute env tx db ns rid rev_no x"
| "execute env tx options (DropnamespaceCommand db ns) x = dropnamespace_execute env tx db ns x"
| "execute env tx options (FindCommand db ns flt select) x = find_execute env tx options db ns flt select x"
| "execute env tx options ShowdbsCommand x = showdbs_execute env tx x"
| "execute env tx options (ShownamespacesCommand db) x = shownamespaces_execute env tx db x"
| "execute env tx options (CommitCommand txId) x =
     bindR (commit_command (env_pages env) txId (fst x)) (\<lambda>sys. Inr (No_reply, sys, snd x))"
| "execute env tx options (RollbackCommand txId) x =
     bindR (rollback_command (env_pages env) txId (fst x)) (\<lambda>sys. Inr (No_reply, sys, snd x))"
| "execute env tx options ShutdownCommand x = Inr (No_reply, x)"
| "execute env tx options CloseCommand x = Inr (No_reply, x)"

text \<open>
  One request. A close command is not executed and has no reply; a shutdown stops the service after its
  reply. A reader on a closed stream gives no command, which is then used.
\<close>

definition run_command :: "service_env \<Rightarrow> command \<Rightarrow> network_service \<Rightarrow> (reply \<times> network_service) res" where
  "run_command env cmd s =
     bindR (request_transaction cmd) (\<lambda>tx.
     bindR (find_transaction (env_pages env) tx (fst (ns_server s))) (\<lambda>sys.
     let x = (sys, snd (ns_server s)) in
     if command_body cmd = CloseCommand then Inr (No_reply, s\<lparr>ns_server := x\<rparr>)
     else bindR (execute env tx (command_options cmd) (command_body cmd) x) (\<lambda>(a, x).
       Inr (a, \<lparr>ns_server = x, ns_running = (if command_body cmd = ShutdownCommand then False else ns_running s)\<rparr>))))"

definition executeRequest ::
    "service_env \<Rightarrow> bool \<Rightarrow> byte list \<Rightarrow> network_service \<Rightarrow> (byte list \<times> byte list \<times> network_service) res" where
  "executeRequest env isClosed input s =
     bindR (readCommand isClosed input) (\<lambda>(cmd, rest).
     case cmd of
       None \<Rightarrow> Inl Undefined_behaviour
     | Some cmd \<Rightarrow> bindR (run_command env cmd s) (\<lambda>(a, s). Inr (writeResult a, rest, s)))"

section \<open>Requests that are sent whole\<close>

lemma executeRequest_write:
  assumes "command_ok cmd" "writeCommand cmd = Inr bytes"
  shows "executeRequest env False (bytes @ rest) s =
    bindR (run_command env (normal_command cmd) s) (\<lambda>(a, s). Inr (writeResult a, rest, s))"
  using readCommand_write [OF assms(1), of rest] assms(2) by (auto simp: executeRequest_def)

end
