(* ===== verification/Client.thy ===== *)
theory Client
  imports Server
begin

text \<open>
  The client driver: DjondbConnection (driverbase/djondbconnection.cpp) turns its calls into commands,
  sends them and reads the replies, and DjondbConnectionManager (driverbase/djondbconnectionmanager.cpp)
  keeps the connections. The other end is an argument: it takes the bytes of a request and gives the
  bytes of the reply. Its contract is the locale below; the server of the model keeps it.
\<close>

declare split_paired_All [simp del] split_paired_Ex [simp del]

section \<open>State\<close>

text \<open>
  cn_streams says whether _inputStream, _outputStream and _commandWriter are there; cn_open is _open.
\<close>

record connection =
  cn_host :: string
  cn_port :: int
  cn_streams :: bool
  cn_open :: bool
  cn_transaction :: "string option"

definition new_connection :: "string \<Rightarrow> int \<Rightarrow> connection" where
  "new_connection host port =
     \<lparr>cn_host = host, cn_port = port, cn_streams = False, cn_open = False, cn_transaction = None\<rparr>"

text \<open>The argument is the socket that NetworkOutputStream::open gives.\<close>

definition conn_open :: "int \<Rightarrow> connection \<Rightarrow> bool \<times> connection" where
  "conn_open socket c = (if socket > 0 then (True, c\<lparr>cn_streams := True, cn_open := True\<rparr>) else (False, c))"

definition conn_internalClose :: "connection \<Rightarrow> connection" where
  "conn_internalClose c = (if cn_open c then c\<lparr>cn_streams := False, cn_open := False\<rparr> else c)"

text \<open>The argument is what uuid returns.\<close>

definition conn_beginTransaction :: "string \<Rightarrow> connection \<Rightarrow> connection" where
  "conn_beginTransaction tid c = c\<lparr>cn_transaction := Some tid\<rparr>"

section \<open>Commands\<close>

definition prepareOptions :: "bson option \<Rightarrow> connection \<Rightarrow> bson" where
  "prepareOptions cmd_options c =
     (let options = (case cmd_options of Some o1 \<Rightarrow> copy_bson o1 | None \<Rightarrow> []) in
      case cn_transaction c of Some tid \<Rightarrow> bson_add_chars ''_transactionId'' tid options | None \<Rightarrow> options)"

definition prepared :: "connection \<Rightarrow> bson option \<Rightarrow> command_body \<Rightarrow> command" where
  "prepared c options body = \<lparr>command_options = Some (prepareOptions options c), command_body = body\<rparr>"

text \<open>CommandWriter::writeCommand and readResult over the streams of the connection.\<close>

definition conn_call ::
    "(byte list \<Rightarrow> 's \<Rightarrow> (byte list \<times> 's) res) \<Rightarrow> connection \<Rightarrow> command \<Rightarrow> 's \<Rightarrow> (reply \<times> 's) res" where
  "conn_call serve c cmd s =
     (if \<not> cn_streams c then Inl Undefined_behaviour
      else bindR (writeCommand cmd) (\<lambda>bytes.
        bindR (serve bytes s) (\<lambda>(output, s).
        bindR (readResult (command_body cmd) output) (\<lambda>(a, rest). Inr (a, s)))))"

definition not_connected :: "'a res" where
  "not_connected = Inl (Djondb_exception 600 ''Not connected to any server'')"

definition sent_document :: "string \<Rightarrow> string \<Rightarrow> bson \<Rightarrow> bson" where
  "sent_document uid trev bson =
     (let obj = copy_bson bson;
          obj = (if bson_has obj ''_id'' then obj else bson_add_chars ''_id'' uid obj) in
      if bson_has obj ''_revision'' then obj else bson_add_chars ''_revision'' trev obj)"

definition conn_insert ::
    "(byte list \<Rightarrow> 's \<Rightarrow> (byte list \<times> 's) res) \<Rightarrow> string \<Rightarrow> string \<Rightarrow> string \<Rightarrow> string \<Rightarrow> bson \<Rightarrow> connection \<Rightarrow> 's \<Rightarrow>
     (bool \<times> 's) res" where
  "conn_insert serve uid trev db ns bson c s =
     (if \<not> cn_open c then not_connected
      else bindR (conn_call serve c (prepared c None (InsertCommand db ns (sent_document uid trev bson))) s)
        (\<lambda>(_, s). Inr (True, s)))"

definition conn_update ::
    "(byte list \<Rightarrow> 's \<Rightarrow> (byte list \<times> 's) res) \<Rightarrow> string \<Rightarrow> string \<Rightarrow> bson \<Rightarrow> connection \<Rightarrow> 's \<Rightarrow> (bool \<times> 's) res" where
  "conn_update serve db ns obj c s =
     (if \<not> cn_open c then not_connected
      else if \<not> bson_has obj ''_id'' \<or> \<not> bson_has obj ''_revision''
      then Inl (Djondb_exception 601 ''The update command requires a document with _id and _revision.'')
      else bindR (conn_call serve c (prepared c None (UpdateCommand db ns (copy_bson obj))) s) (\<lambda>(_, s). Inr (True, s)))"

definition conn_remove ::
    "(byte list \<Rightarrow> 's \<Rightarrow> (byte list \<times> 's) res) \<Rightarrow> string \<Rightarrow> string \<Rightarrow> string \<Rightarrow> string \<Rightarrow> connection \<Rightarrow> 's \<Rightarrow> (bool \<times> 's) res" where
  "conn_remove serve db ns rid rev_no c s =
     (if \<not> cn_open c then not_connected
      else bindR (conn_call serve c (prepared c None (RemoveCommand db ns rid rev_no)) s) (\<lambda>(_, s). Inr (True, s)))"

definition conn_dropNamespace ::
    "(byte list \<Rightarrow> 's \<Rightarrow> (byte list \<times> 's) res) \<Rightarrow> string \<Rightarrow> string \<Rightarrow> connection \<Rightarrow> 's \<Rightarrow> (bool \<times> 's) res" where
  "conn_dropNamespace serve db ns c s =
     (if \<not> cn_open c then not_connected
      else bindR (conn_call serve c (prepared c None (DropnamespaceCommand db ns)) s) (\<lambda>(_, s). Inr (True, s)))"

text \<open>The end of a transaction; a connection without one dereferences a null pointer.\<close>

definition conn_commitTransaction ::
    "(byte list \<Rightarrow> 's \<Rightarrow> (byte list \<times> 's) res) \<Rightarrow> connection \<Rightarrow> 's \<Rightarrow> (connection \<times> 's) res" where
  "conn_commitTransaction serve c s =
     (case cn_transaction c of
        None \<Rightarrow> Inl Undefined_behaviour
      | Some tid \<Rightarrow> bindR (conn_call serve c (prepared c None (CommitCommand tid)) s) (\<lambda>(_, s).
          Inr (c\<lparr>cn_transaction := None\<rparr>, s)))"

definition conn_rollbackTransaction ::
    "(byte list \<Rightarrow> 's \<Rightarrow> (byte list \<times> 's) res) \<Rightarrow> connection \<Rightarrow> 's \<Rightarrow> (connection \<times> 's) res" where
  "conn_rollbackTransaction serve c s =
     (case cn_transaction c of
        None \<Rightarrow> Inl Undefined_behaviour
      | Some tid \<Rightarrow> bindR (conn_call serve c (prepared c None (RollbackCommand tid)) s) (\<lambda>(_, s).
          Inr (c\<lparr>cn_transaction := None\<rparr>, s)))"

text \<open>The commands dbs, namespaces and shutdown carry no options.\<close>

definition conn_dbs ::
    "(byte list \<Rightarrow> 's \<Rightarrow> (byte list \<times> 's) res) \<Rightarrow> connection \<Rightarrow> 's \<Rightarrow> (string list \<times> 's) res" where
  "conn_dbs serve c s =
     (if \<not> cn_open c then not_connected
      else bindR (conn_call serve c \<lparr>command_options = None, command_body = ShowdbsCommand\<rparr> s) (\<lambda>(a, s).
        case a of Names names \<Rightarrow> Inr (names, s) | _ \<Rightarrow> Inl Undefined_behaviour))"

definition conn_namespaces ::
    "(byte list \<Rightarrow> 's \<Rightarrow> (byte list \<times> 's) res) \<Rightarrow> string \<Rightarrow> connection \<Rightarrow> 's \<Rightarrow> (string list \<times> 's) res" where
  "conn_namespaces serve db c s =
     (if \<not> cn_open c then not_connected
      else bindR (conn_call serve c \<lparr>command_options = None, command_body = ShownamespacesCommand db\<rparr> s) (\<lambda>(a, s).
        case a of Names names \<Rightarrow> Inr (names, s) | _ \<Rightarrow> Inl Undefined_behaviour))"

text \<open>shutdown does not wait for a reply.\<close>

definition conn_shutdown ::
    "(byte list \<Rightarrow> 's \<Rightarrow> (byte list \<times> 's) res) \<Rightarrow> connection \<Rightarrow> 's \<Rightarrow> (bool \<times> 's) res" where
  "conn_shutdown serve c s =
     (if \<not> cn_streams c then Inl Undefined_behaviour
      else bindR (writeCommand \<lparr>command_options = None, command_body = ShutdownCommand\<rparr>) (\<lambda>bytes.
        bindR (serve bytes s) (\<lambda>(_, s). Inr (True, s))))"

text \<open>The filter is parsed before it is sent, which turns a parse error into one of the driver.\<close>

definition check_filter :: "(string \<Rightarrow> (expr option \<times> string list) res) \<Rightarrow> string \<Rightarrow> unit res" where
  "check_filter parse filt =
     (case parse filt of
        Inr _ \<Rightarrow> Inr ()
      | Inl (Parse_exception code message) \<Rightarrow> Inl (Djondb_exception code message)
      | Inl e \<Rightarrow> Inl e)"

definition conn_find ::
    "(byte list \<Rightarrow> 's \<Rightarrow> (byte list \<times> 's) res) \<Rightarrow> (string \<Rightarrow> (expr option \<times> string list) res) \<Rightarrow>
     string \<Rightarrow> string \<Rightarrow> string \<Rightarrow> string \<Rightarrow> bson \<Rightarrow> connection \<Rightarrow> 's \<Rightarrow> (bson list \<times> 's) res" where
  "conn_find serve parse db ns select filt options c s =
     (if \<not> cn_open c then not_connected
      else bindR (check_filter parse filt) (\<lambda>_.
        bindR (conn_call serve c (prepared c (Some options) (FindCommand db ns (Some filt) (Some select))) s) (\<lambda>(a, s).
        case a of Documents docs \<Rightarrow> Inr (copy_array docs, s) | _ \<Rightarrow> Inl Undefined_behaviour)))"

definition key_filter :: "string \<Rightarrow> string" where
  "key_filter key = ''$'' @ [CHR 0x27] @ ''_id'' @ [CHR 0x27] @ '' == '' @ [CHR 0x27] @ key @ [CHR 0x27]"

definition conn_findByKey ::
    "(byte list \<Rightarrow> 's \<Rightarrow> (byte list \<times> 's) res) \<Rightarrow> (string \<Rightarrow> (expr option \<times> string list) res) \<Rightarrow>
     string \<Rightarrow> string \<Rightarrow> string \<Rightarrow> string \<Rightarrow> connection \<Rightarrow> 's \<Rightarrow> (bson option \<times> 's) res" where
  "conn_findByKey serve parse db ns select key c s =
     (if \<not> cn_open c then not_connected
      else bindR (conn_find serve parse db ns select (key_filter key) [] c s) (\<lambda>(result, s).
        if length result = 1 then Inr (Some (copy_bson (hd result)), s)
        else if length result > 1 then Inl (Djondb_exception 100 ''The result contains more than 1 result'')
        else Inr (None, s)))"

text \<open>
  The query language: dql stands for the generated parser, which gives a command. An empty text gives no
  command, which is then used.
\<close>

definition parseCommand :: "(string \<Rightarrow> command res) \<Rightarrow> string \<Rightarrow> command option res" where
  "parseCommand dql expression =
     (if expression = [] then Inr None else bindR (dql expression) (\<lambda>cmd. Inr (Some cmd)))"

definition conn_run_query ::
    "(byte list \<Rightarrow> 's \<Rightarrow> (byte list \<times> 's) res) \<Rightarrow> (string \<Rightarrow> command res) \<Rightarrow> string \<Rightarrow> connection \<Rightarrow> 's \<Rightarrow>
     (reply \<times> 's) res" where
  "conn_run_query serve dql query c s =
     bindR (parseCommand dql query) (\<lambda>cmd.
     case cmd of
       None \<Rightarrow> Inl Undefined_behaviour
     | Some cmd \<Rightarrow> conn_call serve c (prepared c (command_options cmd) (command_body cmd)) s)"

definition conn_executeQuery ::
    "(byte list \<Rightarrow> 's \<Rightarrow> (byte list \<times> 's) res) \<Rightarrow> (string \<Rightarrow> command res) \<Rightarrow> string \<Rightarrow> connection \<Rightarrow> 's \<Rightarrow>
     (bson list option \<times> 's) res" where
  "conn_executeQuery serve dql query c s =
     bindR (conn_run_query serve dql query c s) (\<lambda>(a, s).
     Inr (case a of Documents docs \<Rightarrow> Some (copy_array docs) | _ \<Rightarrow> None, s))"

definition conn_executeUpdate ::
    "(byte list \<Rightarrow> 's \<Rightarrow> (byte list \<times> 's) res) \<Rightarrow> (string \<Rightarrow> command res) \<Rightarrow> string \<Rightarrow> connection \<Rightarrow> 's \<Rightarrow>
     (bool \<times> 's) res" where
  "conn_executeUpdate serve dql query c s = bindR (conn_run_query serve dql query c s) (\<lambda>(_, s). Inr (True, s))"

section \<open>The contract of the other end\<close>

text \<open>
  A server takes the bytes of a command for the command itself, and its reply is the one that the
  command runs to.
\<close>

locale command_server =
  fixes serve :: "byte list \<Rightarrow> 's \<Rightarrow> (byte list \<times> 's) res"
    and run :: "command \<Rightarrow> 's \<Rightarrow> (reply \<times> 's) res"
  assumes serves: "command_ok cmd \<Longrightarrow> writeCommand cmd = Inr bytes \<Longrightarrow>
    serve bytes s = bindR (run (normal_command cmd) s) (\<lambda>(a, s). Inr (writeResult a, s))"
begin

lemma call_runs:
  assumes "cn_streams c" "command_ok cmd" "run (normal_command cmd) s = Inr (a, s2)" "reply_ok (command_body cmd) a"
  shows "conn_call serve c cmd s = Inr (a, s2)"
proof -
  obtain bytes where bytes: "writeCommand cmd = Inr bytes" using readCommand_write [OF assms(2)] by blast
  from serves [OF assms(2) this, of s] assms reply_read [OF assms(4), of "[]"] bytes show ?thesis
    by (simp add: conn_call_def)
qed

lemma call_fails:
  assumes "cn_streams c" "command_ok cmd" "run (normal_command cmd) s = Inl e"
  shows "conn_call serve c cmd s = Inl e"
proof -
  obtain bytes where "writeCommand cmd = Inr bytes" using readCommand_write [OF assms(2)] by blast
  with serves [OF assms(2) this, of s] assms show ?thesis by (simp add: conn_call_def)
qed

text \<open>A command whose reply always fits is the command itself.\<close>

lemma call_is_run:
  assumes "cn_streams c" "command_ok cmd" "\<And>a s2. run (normal_command cmd) s = Inr (a, s2) \<Longrightarrow> reply_ok (command_body cmd) a"
  shows "conn_call serve c cmd s = run (normal_command cmd) s"
proof (cases "run (normal_command cmd) s")
  case (Inl e)
  with call_fails [OF assms(1,2)] show ?thesis by simp
next
  case (Inr y)
  then obtain a s2 where "run (normal_command cmd) s = Inr (a, s2)" by (cases y) auto
  with call_runs [OF assms(1,2) this assms(3) [OF this]] show ?thesis by simp
qed

end

text \<open>NetworkService::executeRequest, with a connection that is not closed.\<close>

definition serve_request :: "service_env \<Rightarrow> byte list \<Rightarrow> network_service \<Rightarrow> (byte list \<times> network_service) res" where
  "serve_request env input s = bindR (executeRequest env False input s) (\<lambda>(output, _, s). Inr (output, s))"

interpretation net: command_server "serve_request env" "run_command env"
proof
  fix cmd bytes s
  assume cmd: "command_ok cmd" "writeCommand cmd = Inr bytes"
  from executeRequest_write [OF cmd, of env "[]" s]
  show "serve_request env bytes s = bindR (run_command env (normal_command cmd) s) (\<lambda>(a, s). Inr (writeResult a, s))"
    by (cases "run_command env (normal_command cmd) s") (auto simp: serve_request_def)
qed

end
