(* ===== verification/Client_System.thy ===== *)
theory Client_System
  imports Client
begin

text \<open>
  Clients and server together: what a call of DjondbConnection does to the transactions behind
  NetworkService, sessions of several connections, and what a find through a connection returns.
\<close>

declare split_paired_All [simp del] split_paired_Ex [simp del]

section \<open>Calls that write\<close>

datatype client_call =
    Call_insert string string string string bson
  | Call_update string string bson
  | Call_remove string string string string
  | Call_drop string string

fun client_write ::
    "(byte list \<Rightarrow> 's \<Rightarrow> (byte list \<times> 's) res) \<Rightarrow> client_call \<Rightarrow> connection \<Rightarrow> 's \<Rightarrow> (bool \<times> 's) res" where
  "client_write serve (Call_insert uid trev db ns bson) c s = conn_insert serve uid trev db ns bson c s"
| "client_write serve (Call_update db ns bson) c s = conn_update serve db ns bson c s"
| "client_write serve (Call_remove db ns rid rev_no) c s = conn_remove serve db ns rid rev_no c s"
| "client_write serve (Call_drop db ns) c s = conn_dropNamespace serve db ns c s"

fun call_body :: "client_call \<Rightarrow> command_body" where
  "call_body (Call_insert uid trev db ns bson) = InsertCommand db ns (sent_document uid trev bson)"
| "call_body (Call_update db ns bson) = UpdateCommand db ns (copy_bson bson)"
| "call_body (Call_remove db ns rid rev_no) = RemoveCommand db ns rid rev_no"
| "call_body (Call_drop db ns) = DropnamespaceCommand db ns"

text \<open>A call whose texts and document fit the protocol.\<close>

fun call_ok :: "client_call \<Rightarrow> bool" where
  "call_ok (Call_insert uid trev db ns bson) = (bson_sorted bson \<and> body_ok (call_body (Call_insert uid trev db ns bson)))"
| "call_ok (Call_update db ns bson) =
     (bson_has bson ''_id'' \<and> bson_has bson ''_revision'' \<and> body_ok (call_body (Call_update db ns bson)))"
| "call_ok call = body_ok (call_body call)"

text \<open>The operation of the log that the call asks for. The document has its id and revision, so uuid is not called.\<close>

fun call_operation :: "client_call \<Rightarrow> tx_operation" where
  "call_operation (Call_insert uid trev db ns bson) =
     \<lparr>op_db = db, op_ns = ns, op_action = TxInsert (fillRequiredFields [] [] (sent_document uid trev bson))\<rparr>"
| "call_operation (Call_update db ns bson) = \<lparr>op_db = db, op_ns = ns, op_action = TxUpdate (copy_bson bson)\<rparr>"
| "call_operation (Call_remove db ns rid rev_no) = \<lparr>op_db = db, op_ns = ns, op_action = TxRemove rid rev_no\<rparr>"
| "call_operation (Call_drop db ns) = \<lparr>op_db = db, op_ns = ns, op_action = TxDropNamespace\<rparr>"

lemma has_add [simp]: "map_sorted o1 \<Longrightarrow> bson_has (bson_add k v o1) k' \<longleftrightarrow> k' = k \<or> bson_has o1 k'"
  by (simp add: bson_has_iff)

lemma sent_document_has:
  assumes "bson_sorted bson"
  shows "bson_has (sent_document uid trev bson) ''_id'' \<and> bson_has (sent_document uid trev bson) ''_revision''"
proof -
  have "map_sorted (bson_add_chars ''_id'' uid bson)" by (simp add: assms bson_add_chars_def)
  with assms show ?thesis by (auto simp: sent_document_def copy_bson_id Let_def) (simp_all add: bson_add_chars_def)
qed

lemma fill_sent:
  "bson_sorted bson \<Longrightarrow> fillRequiredFields a b (sent_document uid trev bson) = fillRequiredFields [] [] (sent_document uid trev bson)"
  using sent_document_has [of bson uid trev] by (simp add: fillRequiredFields_def)

text \<open>The transaction id that a connection sends is the one that the service reads.\<close>

definition in_transaction :: "string \<Rightarrow> connection \<Rightarrow> bool" where
  "in_transaction tid c \<longleftrightarrow> cn_open c \<and> cn_streams c \<and> cn_transaction c = Some tid \<and> text_ok tid"

lemma prepare_none:
  assumes "in_transaction tid c"
  shows "prepareOptions None c = [(''_transactionId'', CString tid)]"
  using assms by (simp add: in_transaction_def text_ok_def prepareOptions_def bson_add_chars_def bson_add_put map_put_def map_erase_def)

lemma prepared_ok: "in_transaction tid c \<Longrightarrow> body_ok b \<Longrightarrow> command_ok (prepared c None b)"
  by (simp add: command_ok_def prepared_def prepare_none)
    (simp add: in_transaction_def text_ok_def bson_ok_def int32_size_def key_ok_def no_nul_def)

lemma prepared_transaction:
  "in_transaction tid c \<Longrightarrow> request_transaction (normal_command (prepared c None b)) = Inr (Some tid)"
  by (simp add: request_transaction_def normal_command_def prepared_def prepare_none bson_has_def)
    (simp add: in_transaction_def text_ok_def bson_lookup_defs getContent_def)

section \<open>Calls as events\<close>

fun sys_events ::
    "(tx_operation \<Rightarrow> 's \<Rightarrow> 's res) \<Rightarrow> nat \<Rightarrow> tx_event list \<Rightarrow> tx_system \<times> 's \<Rightarrow> (tx_system \<times> 's) res" where
  "sys_events perform n [] x = Inr x"
| "sys_events perform n (ev # evs) x = bindR (sys_event perform n ev x) (sys_events perform n evs)"

lemma log_write_event:
  assumes "\<And>x. f x = bindR (tm_writeOperation x oper) (\<lambda>x. Inr (a, x))"
  shows "log_write n (Some tid) f sys = bindR (transaction_write n tid oper sys) (\<lambda>sys. Inr (a, sys))"
proof (cases "getTransaction n tid sys")
  case (Inr y)
  then obtain st sys' where "getTransaction n tid sys = Inr (st, sys')" by (cases y) auto
  then show ?thesis
    by (cases "tm_writeOperation (sys_disk sys', st_log st) oper") (auto simp: log_write_def transaction_write_def assms)
qed (simp add: log_write_def transaction_write_def)

lemmas tx_write_defs = tx_insert_def tx_update_def tx_remove_def tx_dropNamespace_def unit_write_def Let_def

text \<open>What the service does for a write of a transaction, and the reply.\<close>

fun call_reply :: "client_call \<Rightarrow> reply" where
  "call_reply (Call_drop _ _) = Dropped True"
| "call_reply _ = No_reply"

lemma execute_call:
  assumes "call_ok call"
  shows "execute env (Some tid) options (normal_body (call_body call)) (sys, st) =
    bindR (transaction_write (env_pages env) tid (call_operation call) sys) (\<lambda>sys. Inr (call_reply call, sys, st))"
proof (cases call)
  case (Call_insert uid trev db ns bson)
  with assms have f: "fillRequiredFields (env_id env) (env_revision env) (sent_document uid trev bson) =
    fillRequiredFields [] [] (sent_document uid trev bson)" by (intro fill_sent) simp
  have "log_write (env_pages env) (Some tid) (tx_insert (env_id env) (env_revision env) db ns (sent_document uid trev bson)) sys =
      bindR (transaction_write (env_pages env) tid (call_operation call) sys)
        (\<lambda>sys. Inr (fillRequiredFields [] [] (sent_document uid trev bson), sys))"
    by (rule log_write_event) (simp add: tx_insert_def f Call_insert Let_def)
  then show ?thesis by (simp add: Call_insert execute_defs bindR_assoc)
next
  case (Call_update db ns bson)
  then show ?thesis using log_write_event [of "unit_write (tx_update db ns (copy_bson bson))" "call_operation call" "()" "env_pages env" tid sys]
    by (simp add: execute_defs tx_write_defs bindR_assoc)
next
  case (Call_remove db ns rid rev_no)
  then show ?thesis using log_write_event [of "unit_write (tx_remove db ns rid rev_no)" "call_operation call" "()" "env_pages env" tid sys]
    by (simp add: execute_defs tx_write_defs bindR_assoc)
next
  case (Call_drop db ns)
  then show ?thesis using log_write_event [of "tx_dropNamespace db ns" "call_operation call" True "env_pages env" tid sys]
    by (simp add: execute_defs tx_write_defs bindR_assoc)
qed

lemma call_body_ok: "call_ok call \<Longrightarrow> body_ok (call_body call)"
  by (cases call) auto

lemma call_reply_ok: "reply_ok (call_body call) (call_reply call)"
  by (cases call) auto

text \<open>Every client call of an open connection in a transaction is its events at the server, errors included.\<close>

abbreviation serving :: "server \<Rightarrow> bool \<Rightarrow> network_service" where
  "serving x r \<equiv> \<lparr>ns_server = x, ns_running = r\<rparr>"

lemma run_events:
  assumes "in_transaction tid c" "b \<noteq> CloseCommand" "b \<noteq> ShutdownCommand"
    and "\<And>sys options. execute env (Some tid) options (normal_body b) (sys, st) =
      bindR (sys_event perform (env_pages env) ev (sys, st)) (\<lambda>x. Inr (a, x))"
  shows "run_command env (normal_command (prepared c None b)) (serving (sys, st) r) =
    bindR (sys_events perform (env_pages env) [Begin tid, ev] (sys, st)) (\<lambda>x. Inr (a, serving x r))"
proof -
  have "normal_body b \<noteq> CloseCommand" "normal_body b \<noteq> ShutdownCommand" using assms(2,3) by (cases b; simp)+
  then have body: "command_body (normal_command (prepared c None b)) = normal_body b"
    "normal_body b \<noteq> CloseCommand" "normal_body b \<noteq> ShutdownCommand" by (simp_all add: normal_command_def prepared_def)
  show ?thesis
  proof (cases "getTransaction (env_pages env) tid sys")
    case (Inr y)
    then obtain t2 sys2 where "getTransaction (env_pages env) tid sys = Inr (t2, sys2)" by (cases y) auto
    then show ?thesis
      by (simp add: run_command_def prepared_transaction [OF assms(1)] find_transaction_def body bindR_assoc assms(4))
  qed (simp add: run_command_def prepared_transaction [OF assms(1)] find_transaction_def)
qed

lemma call_events:
  assumes "in_transaction tid c" "body_ok b" "reply_ok b a"
    and "run_command env (normal_command (prepared c None b)) s = bindR y (\<lambda>x. Inr (a, serving x r))"
  shows "conn_call (serve_request env) c (prepared c None b) s = bindR y (\<lambda>x. Inr (a, serving x r))"
proof -
  have "cn_streams c" using assms(1) by (simp add: in_transaction_def)
  then have "conn_call (serve_request env) c (prepared c None b) s = run_command env (normal_command (prepared c None b)) s"
    by (rule net.call_is_run [OF _ prepared_ok [OF assms(1,2)]])
      (use assms(3) in \<open>unfold assms(4), auto simp: bindR_Inr_iff prepared_def\<close>)
  then show ?thesis unfolding assms(4) .
qed

lemma client_write_events:
  assumes "in_transaction tid c" "call_ok call"
  shows "client_write (serve_request env) call c (serving (sys, st) r) =
    bindR (sys_events perform (env_pages env) [Begin tid, Write tid (call_operation call)] (sys, st)) (\<lambda>x. Inr (True, serving x r))"
proof -
  have opened: "cn_open c" using assms(1) by (simp add: in_transaction_def)
  let ?cmd = "prepared c None (call_body call)"
  have "run_command env (normal_command ?cmd) (serving (sys, st) r) =
      bindR (sys_events perform (env_pages env) [Begin tid, Write tid (call_operation call)] (sys, st))
        (\<lambda>x. Inr (call_reply call, serving x r))"
    by (rule run_events [OF assms(1)]) (simp_all add: execute_call [OF assms(2)] bindR_assoc, (cases call; simp)+)
  from call_events [OF assms(1) call_body_ok [OF assms(2)] call_reply_ok this]
  have "bindR (conn_call (serve_request env) c ?cmd (serving (sys, st) r)) (\<lambda>(_, s). Inr (True, s)) =
    bindR (sys_events perform (env_pages env) [Begin tid, Write tid (call_operation call)] (sys, st)) (\<lambda>x. Inr (True, serving x r))"
    by (simp only: bindR_assoc bindR_simps prod.case)
  with assms(2) opened show ?thesis
    by (cases call) (simp_all only: client_write.simps conn_insert_def conn_update_def conn_remove_def conn_dropNamespace_def
        call_body.simps call_ok.simps if_True if_False not_not simp_thms)
qed

lemma client_end_events:
  assumes "in_transaction tid c"
  shows "conn_commitTransaction (serve_request env) c (serving (sys, st) r) =
      bindR (sys_events perform (env_pages env) [Begin tid, Commit tid] (sys, st))
        (\<lambda>x. Inr (c\<lparr>cn_transaction := None\<rparr>, serving x r))" (is ?commit)
    and "conn_rollbackTransaction (serve_request env) c (serving (sys, st) r) =
      bindR (sys_events perform (env_pages env) [Begin tid, Rollback tid] (sys, st))
        (\<lambda>x. Inr (c\<lparr>cn_transaction := None\<rparr>, serving x r))" (is ?rollback)
proof -
  have c: "cn_transaction c = Some tid" "text_ok tid" using assms by (simp_all add: in_transaction_def)
  have call: "conn_call (serve_request env) c (prepared c None b) (serving (sys, st) r) =
      bindR (sys_events perform (env_pages env) [Begin tid, ev] (sys, st)) (\<lambda>x. Inr (No_reply, serving x r))"
    if b: "b = CommitCommand tid \<and> ev = Commit tid \<or> b = RollbackCommand tid \<and> ev = Rollback tid" for b ev
    by (rule call_events [OF assms _ _ run_events [OF assms]]) (use b c(2) in \<open>auto simp: bindR_assoc\<close>)
  show ?commit by (simp add: conn_commitTransaction_def c(1) call bindR_assoc del: sys_events.simps)
  show ?rollback by (simp add: conn_rollbackTransaction_def c(1) call bindR_assoc del: sys_events.simps)
qed

section \<open>Sessions\<close>

text \<open>
  The events of a request: a transaction begins with its first one. The reads of a session are looked at
  at its end.
\<close>

definition begins :: "string \<Rightarrow> tx_system \<Rightarrow> tx_event list" where
  "begins tid sys = (if map_find (sys_cache sys) tid = None then [Begin tid] else [])"

text \<open>The files of a new transaction are not there any more.\<close>

definition admits :: "string \<Rightarrow> tx_system \<Rightarrow> bool" where
  "admits tid sys \<longleftrightarrow> (map_find (sys_cache sys) tid = None \<longrightarrow> event_ok (Begin tid) sys)"

lemma getTransaction_caches:
  "getTransaction n tid sys = Inr (st, sys2) \<Longrightarrow> map_sorted (sys_cache sys) \<Longrightarrow> map_find (sys_cache sys2) tid = Some st"
  by (auto simp: getTransaction_def cache_containsKey_def cache_add_put cache_get_def bindR_Inr_iff Let_def split: if_splits option.splits)

lemma run_request:
  assumes "sys_run perform n x evs (sys, s)" "sys_events perform n [Begin tid, ev] (sys, s) = Inr y" "admits tid sys"
    and "\<And>sys. map_find (sys_cache sys) tid \<noteq> None \<Longrightarrow> event_ok ev sys" "map_sorted (sys_cache sys)"
  shows "sys_run perform n x (evs @ begins tid sys @ [ev]) y"
proof -
  obtain st sys2 where b: "getTransaction n tid sys = Inr (st, sys2)" "sys_event perform n ev (sys2, s) = Inr y"
    using assms(2) by (auto simp: bindR_Inr_iff)
  have ev: "event_ok ev sys2" by (rule assms(4)) (simp add: getTransaction_caches [OF b(1) assms(5)])
  show ?thesis
  proof (cases "map_find (sys_cache sys) tid")
    case None
    then have "event_ok (Begin tid) sys" using assms(3) by (simp add: admits_def)
    from run_event [OF assms(1) this, of "(sys2, s)"] b(1) have "sys_run perform n x (evs @ [Begin tid]) (sys2, s)" by simp
    from run_event [OF this ev b(2)] None show ?thesis by (simp add: begins_def)
  next
    case (Some st2)
    from getTransaction_cached [OF this, of n] b(1) have "sys2 = sys" by simp
    with run_event [OF assms(1), of ev y] ev b(2) Some show ?thesis by (simp add: begins_def)
  qed
qed

text \<open>
  A session: connections that begin transactions, write in them and end them, while the monitor flushes.
  What goes over the network are bytes; the events are what the server did.
\<close>

inductive session ::
    "service_env \<Rightarrow> (nat \<Rightarrow> connection) \<times> server \<Rightarrow> tx_event list \<Rightarrow> (nat \<Rightarrow> connection) \<times> server \<Rightarrow> bool"
  for env x where
  session_start: "session env x [] x"
| session_begin: "session env x evs (conns, y) \<Longrightarrow>
    session env x evs (conns(i := conn_beginTransaction tid (conns i)), y)"
| session_write: "session env x evs (conns, (sys, st)) \<Longrightarrow> in_transaction tid (conns i) \<Longrightarrow> admits tid sys \<Longrightarrow> call_ok call \<Longrightarrow>
    operation_ok (call_operation call) \<Longrightarrow>
    client_write (serve_request env) call (conns i) (serving (sys, st) True) = Inr (done, serving y True) \<Longrightarrow>
    session env x (evs @ begins tid sys @ [Write tid (call_operation call)]) (conns, y)"
| session_commit: "session env x evs (conns, (sys, st)) \<Longrightarrow> in_transaction tid (conns i) \<Longrightarrow> admits tid sys \<Longrightarrow>
    conn_commitTransaction (serve_request env) (conns i) (serving (sys, st) True) = Inr (c, serving y True) \<Longrightarrow>
    session env x (evs @ begins tid sys @ [Commit tid]) (conns(i := c), y)"
| session_rollback: "session env x evs (conns, (sys, st)) \<Longrightarrow> in_transaction tid (conns i) \<Longrightarrow> admits tid sys \<Longrightarrow>
    conn_rollbackTransaction (serve_request env) (conns i) (serving (sys, st) True) = Inr (c, serving y True) \<Longrightarrow>
    session env x (evs @ begins tid sys @ [Rollback tid]) (conns(i := c), y)"
| session_monitor: "session env x evs (conns, (sys, st)) \<Longrightarrow>
    sys_event (ctl_perform no_index_files) (env_pages env) Monitor (sys, st) = Inr y \<Longrightarrow>
    session env x (evs @ [Monitor]) (conns, y)"

text \<open>The server of a session is in a run of its events.\<close>

lemma run_sorted:
  assumes "sys_run perform n x evs (sys, s)" "0 < n" "tx_refines perform s0 x a"
  shows "map_sorted (sys_cache sys)"
  using sys_run_refines [OF assms] by (cases "fold spec_event evs a") (simp add: tx_refines_iff)

lemma session_run:
  assumes "session env x evs y" "0 < env_pages env" "tx_refines (ctl_perform no_index_files) s0 (snd x) a"
  shows "sys_run (ctl_perform no_index_files) (env_pages env) (snd x) evs (snd y)"
  using assms(1)
proof (induction rule: session.induct)
  case session_start
  show ?case by (rule run_nil)
next
  case (session_write evs conns sys st tid i call d y)
  have e: "sys_events (ctl_perform no_index_files) (env_pages env) [Begin tid, Write tid (call_operation call)] (sys, st) = Inr y"
    using session_write.hyps(6) client_write_events [OF session_write.hyps(2,4), of env sys st True "ctl_perform no_index_files"]
    by (auto simp: bindR_Inr_iff)
  have "sys_run (ctl_perform no_index_files) (env_pages env) (snd x) evs (sys, st)" using session_write.IH by simp
  from run_request [OF this e session_write.hyps(3) _ run_sorted [OF this assms(2,3)]] session_write.hyps(5) show ?case by simp
next
  case (session_commit evs conns sys st tid i c y)
  have e: "sys_events (ctl_perform no_index_files) (env_pages env) [Begin tid, Commit tid] (sys, st) = Inr y"
    using session_commit.hyps(4) client_end_events(1) [OF session_commit.hyps(2), of env sys st True "ctl_perform no_index_files"]
    by (auto simp: bindR_Inr_iff)
  have "sys_run (ctl_perform no_index_files) (env_pages env) (snd x) evs (sys, st)" using session_commit.IH by simp
  from run_request [OF this e session_commit.hyps(3) _ run_sorted [OF this assms(2,3)]] show ?case by simp
next
  case (session_rollback evs conns sys st tid i c y)
  have e: "sys_events (ctl_perform no_index_files) (env_pages env) [Begin tid, Rollback tid] (sys, st) = Inr y"
    using session_rollback.hyps(4) client_end_events(2) [OF session_rollback.hyps(2), of env sys st True "ctl_perform no_index_files"]
    by (auto simp: bindR_Inr_iff)
  have "sys_run (ctl_perform no_index_files) (env_pages env) (snd x) evs (sys, st)" using session_rollback.IH by simp
  from run_request [OF this e session_rollback.hyps(3) _ run_sorted [OF this assms(2,3)]] show ?case by simp
next
  case (session_monitor evs conns sys st y)
  then have "sys_run (ctl_perform no_index_files) (env_pages env) (snd x) evs (sys, st)" by simp
  from run_event [OF this _ session_monitor.hyps(2)] show ?case by simp
qed simp

text \<open>What a run has written fits the log.\<close>

lemma run_writes_ok:
  assumes "sys_run perform n x evs y"
  shows "(\<forall>oper\<in>set (fst (fold spec_event evs spec_start)). operation_ok oper) \<and>
    (\<forall>tid ops. snd (fold spec_event evs spec_start) tid = Some ops \<longrightarrow> (\<forall>oper\<in>set ops. operation_ok oper))"
  using assms
proof (induction rule: sys_run.induct)
  case (run_event evs sys s ev y)
  obtain d p where s: "fold spec_event evs spec_start = (d, p)" by (cases "fold spec_event evs spec_start")
  with run_event have p: "p t = Some ops \<Longrightarrow> oper \<in> set ops \<Longrightarrow> operation_ok oper" for t ops oper by simp
  show ?case
  proof (cases ev)
    case (Commit tid)
    with s run_event p show ?thesis by (cases "p tid") auto
  next
    case (Write tid oper)
    with s run_event p show ?thesis by (cases "p tid") auto
  qed (use s run_event p in auto)
qed (simp add: spec_start_def)

section \<open>A find through a connection\<close>

lemma prepare_some:
  assumes "in_transaction tid c" "bson_sorted options"
  shows "prepareOptions (Some options) c = bson_add ''_transactionId'' (CString tid) options"
    "request_transaction (normal_command (prepared c (Some options) b)) = Inr (Some tid)"
proof -
  show p: "prepareOptions (Some options) c = bson_add ''_transactionId'' (CString tid) options"
    using assms by (simp add: in_transaction_def text_ok_def prepareOptions_def bson_add_chars_def copy_bson_id)
  show "request_transaction (normal_command (prepared c (Some options) b)) = Inr (Some tid)"
    using assms by (simp add: request_transaction_def normal_command_def prepared_def p bson_lookup_defs)
      (simp add: in_transaction_def text_ok_def)
qed

lemma elements_ok_iff: "elements_ok o1 \<longleftrightarrow> (\<forall>(k, c)\<in>set o1. key_ok k \<and> content_ok c)"
  by (induction o1) auto

lemma length_map_insert: "length (map_insert k v m) \<le> Suc (length m)"
  by (induction m) auto

lemma prepare_some_ok:
  assumes "in_transaction tid c" "bson_ok options" "int32_size (Suc (length options))"
  shows "bson_ok (prepareOptions (Some options) c)"
proof -
  have o: "bson_sorted options" "elements_ok options" using assms(2) by (simp_all add: bson_ok_def)
  have "length (map_put ''_transactionId'' (CString tid) options) \<le> Suc (length options)"
    unfolding map_put_def map_erase_def by (rule order_trans [OF length_map_insert]) simp
  moreover have "set (map_put ''_transactionId'' (CString tid) options) \<subseteq> insert (''_transactionId'', CString tid) (set options)"
    using set_map_insert by (fastforce simp: map_put_def map_erase_def)
  moreover have "key_ok ''_transactionId'' \<and> content_ok (CString tid)"
    using assms(1) by (simp add: in_transaction_def text_ok_def key_ok_def no_nul_def int32_size_def)
  ultimately show ?thesis using o assms(3)
    unfolding prepare_some(1) [OF assms(1) o(1)] bson_ok_def elements_ok_iff
    by (auto simp: int32_size_def bson_add_put [symmetric])
qed

text \<open>The reply to a find is what BaseTransaction::find gives, read back by the client.\<close>

lemma client_find:
  assumes c: "in_transaction tid c" "getTransaction (env_pages env) tid sys = Inr (tx, sys2)" "map_sorted (sys_cache sys)"
    and texts: "text_ok db" "text_ok ns" "text_ok sel" "text_ok filt" "check_filter parse filt = Inr ()"
    and options: "bson_ok options" "int32_size (Suc (length options))"
    and found: "std_find (parse_root (env_parse env)) (env_max_results env) (store_find (env_parse env) (env_max_results env)) db ns sel filt
      (Some (prepareOptions (Some options) c)) ((sys_disk sys2, st_log tx), (sys_main sys2, st)) = Inr (docs, y)"
    and docs: "array_ok docs"
  shows "\<exists>z. conn_find (serve_request env) parse db ns sel filt options c (serving (sys, st) r) = Inr (docs, serving z r)"
proof -
  let ?b = "FindCommand db ns (Some filt) (Some sel)" and ?cmd = "prepared c (Some options) (FindCommand db ns (Some filt) (Some sel))"
  have s: "bson_sorted options" "cn_streams c" "cn_open c" using options c(1) by (simp_all add: bson_ok_def in_transaction_def)
  have "command_ok ?cmd" using texts prepare_some_ok [OF c(1) options] by (simp add: command_ok_def prepared_def)
  moreover obtain d log m st2 where y: "y = ((d, log), (m, st2))" by (metis prod.collapse)
  have "\<exists>z. run_command env (normal_command ?cmd) (serving (sys, st) r) = Inr (Documents docs, serving z r)"
    using found
    by (simp add: run_command_def prepare_some(2) [OF c(1) s(1)] find_transaction_def c(2) y)
      (simp add: normal_command_def prepared_def find_execute_def Let_def log_read_def getTransaction_cached [OF getTransaction_caches [OF c(2,3)]] y)
  moreover have "reply_ok (command_body ?cmd) (Documents docs)" using docs by (simp add: prepared_def)
  moreover have "copy_array docs = docs" using docs copy_correct(3) [of docs] by (simp add: array_ok_def)
  ultimately show ?thesis
    using net.call_runs [OF s(2), of ?cmd env "serving (sys, st) r" "Documents docs"] s(3) texts(5)
    by (fastforce simp: conn_find_def)
qed

lemma array_okI:
  assumes "\<forall>obj\<in>set docs. bson_ok obj" "int32_size (length docs)"
  shows "array_ok docs"
proof -
  have "\<forall>obj\<in>set docs. bson_ok obj \<Longrightarrow> objects_ok docs" by (induction docs) (auto simp: bson_ok_def)
  with assms show ?thesis by (auto simp: array_ok_def bson_ok_def)
qed

text \<open>
  At the end of any session a connection that is in a transaction finds the documents after the committed
  operations and those of its transaction, which begins with the find if it had no request before.
\<close>

definition written :: "tx_spec \<Rightarrow> string \<Rightarrow> tx_operation list" where
  "written spec tid = fst spec @ (case snd spec tid of Some ops \<Rightarrow> ops | None \<Rightarrow> [])"

lemma begin_request:
  assumes "tx_refines perform s0 (sys, s) spec" "admits tid sys" "0 < n"
  obtains tx sys2 where "getTransaction n tid sys = Inr (tx, sys2)" "map_find (sys_cache sys2) tid = Some tx"
    "tx_refines perform s0 (sys2, s) (fold spec_event (begins tid sys) spec)"
    "snd (fold spec_event (begins tid sys) spec) tid \<noteq> None" "written (fold spec_event (begins tid sys) spec) tid = written spec tid"
proof (cases "map_find (sys_cache sys) tid")
  case None
  obtain done_ops todo where spec: "spec = (done_ops, todo)" by (cases spec)
  have sorted: "map_sorted (sys_cache sys)" and log: "spec_log sys tid (todo tid)" using assms(1) by (simp_all add: spec tx_refines_iff)
  have ev: "event_ok (Begin tid) sys" using assms(2) None by (simp add: admits_def)
  from event_returns [OF assms(1) ev] obtain sys2 where b: "sys_event perform n (Begin tid) (sys, s) = Inr (sys2, s)" by blast
  then obtain tx where tx: "getTransaction n tid sys = Inr (tx, sys2)" by (auto simp: bindR_Inr_iff)
  show ?thesis
  proof (rule that [OF tx getTransaction_caches [OF tx sorted]])
    show "tx_refines perform s0 (sys2, s) (fold spec_event (begins tid sys) spec)"
      using refines_event [OF assms(1) ev assms(3) b] None by (simp add: begins_def)
    have "todo tid = None" using log None by (auto simp: spec_log_def split: option.splits)
    then show "snd (fold spec_event (begins tid sys) spec) tid \<noteq> None" "written (fold spec_event (begins tid sys) spec) tid = written spec tid"
      using None by (simp_all add: begins_def spec written_def)
  qed
next
  case (Some tx)
  obtain done_ops todo where spec: "spec = (done_ops, todo)" by (cases spec)
  have "spec_log sys tid (todo tid)" using assms(1) by (simp add: spec tx_refines_iff)
  with Some have "todo tid \<noteq> None" by (auto simp: spec_log_def split: option.splits)
  with that [OF getTransaction_cached [OF Some] Some] assms(1) Some spec show ?thesis by (simp add: begins_def)
qed

lemma session_find:
  assumes run: "0 < env_pages env" "session env (conns0, (sys_start d (env_pages env), new_store)) evs (conns, (sys, st))"
    and tid: "in_transaction tid (conns i)" "admits tid sys"
    and ops: "ops = written (fold spec_event evs spec_start) tid" "run_ok no_docs {} {} ops" "settled ops" "filters root P ops"
    and names: "plain ns" "text_ok db" "text_ok ns" "text_ok filt"
    and parse: "env_parse env filt = Inr (root, tokens)" "tokens \<noteq> [''_id'']" "check_filter parse filt = Inr ()"
    and options: "bson_ok options" "int32_size (Suc (length options))"
    and limit: "result_limit (env_max_results env) (Some (prepareOptions (Some options) (conns i))) = Inr k"
      "int (length ops) \<le> k" "int32_size (length ops)"
  shows "\<exists>z. conn_find (serve_request env) parse db ns ''*'' filt options (conns i) (serving (sys, st) True) =
    Inr (filter P (docs_run ops no_docs db ns), serving z True)"
proof -
  let ?spec = "fold spec_event evs spec_start"
  have start: "tx_refines (ctl_perform no_index_files) new_store (sys_start d (env_pages env), new_store) spec_start"
    by (rule refines_start [OF run(1)])
  have r: "sys_run (ctl_perform no_index_files) (env_pages env) (sys_start d (env_pages env), new_store) evs (sys, st)"
    using session_run [OF run(2,1)] start by simp
  have refines: "tx_refines (ctl_perform no_index_files) new_store (sys, st) ?spec" by (rule sys_run_refines [OF r run(1) start])
  obtain tx sys2 where tx: "getTransaction (env_pages env) tid sys = Inr (tx, sys2)" "map_find (sys_cache sys2) tid = Some tx"
    "tx_refines (ctl_perform no_index_files) new_store (sys2, st) (fold spec_event (begins tid sys) ?spec)"
    "snd (fold spec_event (begins tid sys) ?spec) tid \<noteq> None" "written (fold spec_event (begins tid sys) ?spec) tid = ops"
    using begin_request [OF refines tid(2) run(1)] unfolding ops(1) by blast
  obtain done_ops todo tops where spec: "fold spec_event (begins tid sys) ?spec = (done_ops, todo)" "todo tid = Some tops"
    using tx(4) by (metis option.exhaust prod.collapse)
  have all: "ops = done_ops @ tops" using tx(5) by (simp add: spec written_def)
  have ok: "\<forall>oper\<in>set ops. operation_ok oper"
    using run_writes_ok [OF r] unfolding ops(1) written_def by (cases "snd ?spec tid") auto
  then have n: "\<forall>oper\<in>set ops. no_nul (op_db oper) \<and> no_nul (op_ns oper)" by (simp add: operation_ok_def)
  have db: "no_nul db" using names(2) by (simp add: text_ok_def)
  from system_run_find [where parse = "env_parse env", OF tx(3) [unfolded spec(1)] spec(2) all ops(2-4) names(1) db n parse(1,2) limit(1,2)] tx(2)
  obtain y where y: "std_find (parse_root (env_parse env)) (env_max_results env) (store_find (env_parse env) (env_max_results env)) db ns ''*'' filt
      (Some (prepareOptions (Some options) (conns i))) ((sys_disk sys2, st_log tx), (sys_main sys2, st)) =
      Inr (filter P (docs_run ops no_docs db ns), y)" by auto
  have "\<forall>obj\<in>set (docs_run ops no_docs db ns). bson_ok obj"
  proof
    fix obj assume "obj \<in> set (docs_run ops no_docs db ns)"
    then obtain oper where "oper \<in> set ops" "obj \<in> set (action_docs (op_action oper))"
      using run_docs(5) [OF ops(3)] by blast
    with ok show "bson_ok obj" by (cases "op_action oper") (auto simp: operation_ok_def)
  qed
  moreover have "int32_size (length (filter P (docs_run ops no_docs db ns)))"
    using limit(3) run_docs(2) [OF ops(3), of db ns] length_filter_le [of P "docs_run ops no_docs db ns"]
    unfolding int32_size_def by linarith
  ultimately have docs: "array_ok (filter P (docs_run ops no_docs db ns))" by (intro array_okI) auto
  have star: "text_ok ''*''" by (simp add: text_ok_def no_nul_def int32_size_def)
  have sorted: "map_sorted (sys_cache sys)" by (rule run_sorted [OF r run(1) start])
  from client_find [OF tid(1) tx(1) sorted names(2,3) star names(4) parse(3) options y docs] show ?thesis .
qed

text \<open>Steps of a session from the events that they are.\<close>

lemma session_writeI:
  assumes "session env x evs (conns, (sys, st))" "in_transaction tid (conns i)" "admits tid sys" "call_ok call"
    and "operation_ok (call_operation call)"
    and "sys_events (ctl_perform no_index_files) (env_pages env) [Begin tid, Write tid (call_operation call)] (sys, st) = Inr y"
  shows "session env x (evs @ begins tid sys @ [Write tid (call_operation call)]) (conns, y)"
  by (rule session_write [OF assms(1-5)])
    (simp add: client_write_events [OF assms(2,4), where perform = "ctl_perform no_index_files"] assms(6) del: sys_events.simps)

lemma session_commitI:
  assumes "session env x evs (conns, (sys, st))" "in_transaction tid (conns i)" "admits tid sys"
    and "sys_events (ctl_perform no_index_files) (env_pages env) [Begin tid, Commit tid] (sys, st) = Inr y"
  shows "session env x (evs @ begins tid sys @ [Commit tid]) (conns(i := (conns i)\<lparr>cn_transaction := None\<rparr>), y)"
  by (rule session_commit [OF assms(1-3)])
    (simp add: client_end_events [OF assms(2), where perform = "ctl_perform no_index_files"] assms(4) del: sys_events.simps)

end
