(* ===== verification/Connections.thy ===== *)
theory Connections
  imports Client
begin

text \<open>
  DjondbConnectionManager (driverbase/djondbconnectionmanager.cpp): the connections of the process in a
  map from names to references. A connection is an object of the heap, a reference holds its address and
  a count. The map is asked for host and port, but filled and emptied by the host alone.
\<close>

section \<open>State\<close>

record connection_manager =
  cm_connections :: "(string, int \<times> nat) std_map"
  cm_heap :: "nat \<Rightarrow> connection option"
  cm_next :: nat

definition cm_start :: connection_manager where
  "cm_start = \<lparr>cm_connections = [], cm_heap = (\<lambda>_. None), cm_next = 0\<rparr>"

definition cm_connection :: "nat \<Rightarrow> connection_manager \<Rightarrow> connection res" where
  "cm_connection p m = (case cm_heap m p of None \<Rightarrow> Inl Undefined_behaviour | Some c \<Rightarrow> Inr c)"

definition cm_set :: "nat \<Rightarrow> connection \<Rightarrow> connection_manager \<Rightarrow> connection_manager" where
  "cm_set p c m = m\<lparr>cm_heap := (cm_heap m)(p \<mapsto> c)\<rparr>"

definition host_key :: "string \<Rightarrow> int \<Rightarrow> string" where
  "host_key host port = host @ ''_'' @ int_text port"

section \<open>Operations\<close>

definition create_connection :: "string \<Rightarrow> int \<Rightarrow> connection_manager \<Rightarrow> nat \<times> connection_manager" where
  "create_connection host port m =
     (let p = cm_next m in
      (p, \<lparr>cm_connections = map_insert host (1, p) (cm_connections m),
           cm_heap = (cm_heap m)(p \<mapsto> new_connection host port), cm_next = p + 1\<rparr>))"

text \<open>The count goes up in a copy of the reference.\<close>

definition getConnection :: "string \<Rightarrow> int \<Rightarrow> connection_manager \<Rightarrow> (nat \<times> connection_manager) res" where
  "getConnection host port m =
     (case map_find (cm_connections m) (host_key host port) of
        None \<Rightarrow> Inr (create_connection host port m)
      | Some (refs, p) \<Rightarrow> bindR (cm_connection p m) (\<lambda>c.
          if cn_open c then Inr (p, m)
          else Inr (create_connection host port (m\<lparr>cm_connections := map_erase (host_key host port) (cm_connections m)\<rparr>))))"

definition releaseConnection :: "nat \<Rightarrow> connection_manager \<Rightarrow> connection_manager res" where
  "releaseConnection p m =
     bindR (cm_connection p m) (\<lambda>c.
     case map_find (cm_connections m) (cn_host c) of
       None \<Rightarrow> Inr m
     | Some (refs, q) \<Rightarrow>
         if refs - 1 = 0 then
           bindR (cm_connection q m) (\<lambda>c2.
           Inr (cm_set q (conn_internalClose c2) (m\<lparr>cm_connections := map_erase (cn_host c) (cm_connections m)\<rparr>)))
         else Inr m)"

text \<open>DjondbConnection::open and close on the connection at an address.\<close>

definition cm_open :: "int \<Rightarrow> nat \<Rightarrow> connection_manager \<Rightarrow> (bool \<times> connection_manager) res" where
  "cm_open socket p m = bindR (cm_connection p m) (\<lambda>c. case conn_open socket c of (ok, c) \<Rightarrow> Inr (ok, cm_set p c m))"

definition cm_close :: "nat \<Rightarrow> connection_manager \<Rightarrow> connection_manager res" where
  "cm_close p m =
     bindR (releaseConnection p m) (\<lambda>m.
     bindR (cm_connection p m) (\<lambda>c. Inr (cm_set p (c\<lparr>cn_open := False\<rparr>) m)))"

section \<open>The invariant\<close>

text \<open>Every reference counts one and points to a connection to its host; an address is used once.\<close>

definition cm_inv :: "connection_manager \<Rightarrow> bool" where
  "cm_inv m \<longleftrightarrow> map_sorted (cm_connections m) \<and>
     (\<forall>host refs p. map_find (cm_connections m) host = Some (refs, p) \<longrightarrow>
        refs = 1 \<and> (\<exists>c. cm_heap m p = Some c \<and> cn_host c = host)) \<and>
     (\<forall>p. cm_next m \<le> p \<longrightarrow> cm_heap m p = None)"

lemma cm_inv_start: "cm_inv cm_start"
  by (simp add: cm_inv_def cm_start_def)

lemma cm_inv_set:
  assumes "cm_inv m" "cm_heap m p = Some c" "cn_host c2 = cn_host c"
  shows "cm_inv (cm_set p c2 m)"
proof -
  have "p < cm_next m" using assms(1,2) unfolding cm_inv_def by (metis not_less option.distinct(1))
  with assms show ?thesis by (fastforce simp: cm_inv_def cm_set_def)
qed

lemma cm_inv_erase: "cm_inv m \<Longrightarrow> cm_inv (m\<lparr>cm_connections := map_erase host (cm_connections m)\<rparr>)"
  by (simp add: cm_inv_def map_sorted_erase map_find_erase)

lemma cm_inv_address: "cm_inv m \<Longrightarrow> cm_heap m p = Some c \<Longrightarrow> p \<noteq> cm_next m"
  by (auto simp: cm_inv_def)

lemma create_inv:
  assumes "cm_inv m"
  shows "cm_inv (snd (create_connection host port m))"
  unfolding cm_inv_def
proof (intro conjI allI impI)
  let ?m = "snd (create_connection host port m)"
  have sorted: "map_sorted (cm_connections m)" using assms by (simp add: cm_inv_def)
  then show "map_sorted (cm_connections ?m)" by (simp add: create_connection_def Let_def map_sorted_insert)
  have old: "refs = 1 \<and> (\<exists>c. cm_heap ?m p = Some c \<and> cn_host c = h)" if "map_find (cm_connections m) h = Some (refs, p)" for h refs p
  proof -
    from assms that obtain c where c: "refs = 1" "cm_heap m p = Some c" "cn_host c = h" unfolding cm_inv_def by blast
    with cm_inv_address [OF assms c(2)] show ?thesis by (simp add: create_connection_def Let_def)
  qed
  fix h refs p
  assume f: "map_find (cm_connections ?m) h = Some (refs, p)"
  have "refs = 1 \<and> (\<exists>c. cm_heap ?m p = Some c \<and> cn_host c = h)"
  proof (cases "map_find (cm_connections m) h")
    case None
    with f sorted have "h = host" "refs = 1" "p = cm_next m"
      by (auto simp: create_connection_def Let_def map_find_insert split: if_splits)
    then show ?thesis by (simp add: create_connection_def Let_def new_connection_def)
  next
    case (Some e)
    with f sorted have "e = (refs, p)" by (auto simp: create_connection_def Let_def map_find_insert split: if_splits)
    with Some old show ?thesis by simp
  qed
  then show "refs = 1" "\<exists>c. cm_heap ?m p = Some c \<and> cn_host c = h" by simp_all
next
  fix p assume "cm_next (snd (create_connection host port m)) \<le> p"
  with assms show "cm_heap (snd (create_connection host port m)) p = None"
    by (auto simp: create_connection_def Let_def cm_inv_def)
qed

lemma getConnection_inv: "cm_inv m \<Longrightarrow> getConnection host port m = Inr (p, m2) \<Longrightarrow> cm_inv m2"
  using create_inv [of m host port] create_inv [OF cm_inv_erase, of m host port "host_key host port"]
  by (auto simp: getConnection_def bindR_Inr_iff split: option.splits if_splits)

lemma releaseConnection_inv:
  assumes "cm_inv m" "releaseConnection p m = Inr m2"
  shows "cm_inv m2"
proof -
  have host: "cn_host (conn_internalClose c) = cn_host c" for c by (simp add: conn_internalClose_def)
  from assms show ?thesis
    by (auto simp: releaseConnection_def cm_connection_def bindR_Inr_iff host intro!: cm_inv_set cm_inv_erase
        split: option.splits if_splits)
qed

lemma cm_open_inv:
  assumes "cm_inv m" "cm_open socket p m = Inr (ok, m2)"
  shows "cm_inv m2"
proof -
  from assms(2) obtain c where "cm_heap m p = Some c" "m2 = cm_set p (snd (conn_open socket c)) m"
    by (auto simp: cm_open_def cm_connection_def split: option.splits prod.splits)
  moreover have "cn_host (snd (conn_open socket c)) = cn_host c" for c by (simp add: conn_open_def)
  ultimately show ?thesis using cm_inv_set [OF assms(1)] by blast
qed

lemma cm_close_inv:
  assumes "cm_inv m" "cm_close p m = Inr m2"
  shows "cm_inv m2"
proof -
  from assms(2) obtain m1 c where m1: "releaseConnection p m = Inr m1" "cm_heap m1 p = Some c"
    "m2 = cm_set p (c\<lparr>cn_open := False\<rparr>) m1"
    by (auto simp: cm_close_def cm_connection_def bindR_Inr_iff split: option.splits)
  from releaseConnection_inv [OF assms(1) m1(1)] cm_inv_set m1(2,3) show ?thesis by fastforce
qed

section \<open>What the wrong key does\<close>

text \<open>No connection is ever shared, unless a host has the form of a key.\<close>

lemma getConnection_new:
  assumes "map_find (cm_connections m) (host_key host port) = None"
  shows "getConnection host port m = Inr (create_connection host port m)"
  using assms by (simp add: getConnection_def)

text \<open>The connection that was made first for a host is the one that closing another of the host closes.\<close>

lemma close_closes_first:
  assumes "cm_inv m" "map_find (cm_connections m) (cn_host c2) = Some (refs, p)" "cm_heap m p = Some c1" "cn_open c1"
    and "q \<noteq> p" "cm_heap m q = Some c2"
  shows "\<exists>m2. cm_close q m = Inr m2 \<and> cm_heap m2 p = Some (c1\<lparr>cn_streams := False, cn_open := False\<rparr>) \<and>
    cm_heap m2 q = Some (c2\<lparr>cn_open := False\<rparr>) \<and> map_find (cm_connections m2) (cn_host c2) = None"
proof -
  have "refs = 1" using assms(1,2) by (auto simp: cm_inv_def)
  with assms show ?thesis
    by (simp add: cm_close_def releaseConnection_def cm_connection_def cm_set_def conn_internalClose_def map_find_erase)
qed

end
