(* ===== verification/Index_Buffers.thy ===== *)
theory Index_Buffers
  imports Tx_Manager Bson_Buffered
begin

text \<open>
  The buffers under an index: Buffer and BufferManager (filesystem/buffer.cpp, buffermanager.cpp). A
  buffer is a mapped region of the file of the index; the manager keeps the buffers in order and writes
  them down in a control file, from which a later session maps the same regions again.
\<close>

section \<open>Buffer\<close>

text \<open>
  The field _maxLength counts pages, the mapping has pb_size bytes. pb_pos is _currentPos, pb_spos the
  position of the stream.
\<close>

record page_buffer =
  pb_file :: string
  pb_start :: nat
  pb_maxLength :: nat
  pb_size :: nat
  pb_len :: nat
  pb_pos :: nat
  pb_spos :: nat
  pb_control :: nat
  pb_index :: nat

text \<open>pageSize of util/fileutil.cpp is the first argument.\<close>

definition new_buffer :: "nat \<Rightarrow> string \<Rightarrow> nat \<Rightarrow> nat \<Rightarrow> nat \<Rightarrow> page_buffer" where
  "new_buffer pageSize f offset bufferLen maxLen =
     \<lparr>pb_file = f, pb_start = offset, pb_maxLength = maxLen, pb_size = maxLen * pageSize, pb_len = bufferLen,
      pb_pos = 0, pb_spos = 0, pb_control = 0, pb_index = 0\<rparr>"

definition pb_view :: "disk \<Rightarrow> page_buffer \<Rightarrow> byte list" where
  "pb_view d b = map (d (pb_file b)) [pb_start b..<pb_start b + pb_size b]"

definition pb_seek :: "nat \<Rightarrow> page_buffer \<Rightarrow> page_buffer" where
  "pb_seek p b = b\<lparr>pb_pos := p, pb_spos := p\<rparr>"

text \<open>seek from the end goes by the length of the buffer, not by the mapping.\<close>

definition pb_seek_end :: "nat \<Rightarrow> page_buffer \<Rightarrow> page_buffer" where
  "pb_seek_end p b = b\<lparr>pb_spos := pb_len b - p, pb_pos := pb_len b - p\<rparr>"

definition pb_reset :: "page_buffer \<Rightarrow> page_buffer" where
  "pb_reset b = pb_seek 0 (b\<lparr>pb_len := 0\<rparr>)"

definition pb_spaceLeft :: "page_buffer \<Rightarrow> int" where
  "pb_spaceLeft b = int (pb_maxLength b) - int (pb_len b)"

definition pb_eof :: "page_buffer \<Rightarrow> bool" where
  "pb_eof b \<longleftrightarrow> pb_len b \<le> pb_pos b"

definition pb_acquireLock :: "page_buffer \<Rightarrow> page_buffer" where
  "pb_acquireLock b = b\<lparr>pb_spos := pb_pos b\<rparr>"

text \<open>A write behind the mapping is undefined.\<close>

definition pb_put :: "byte list \<Rightarrow> disk \<times> page_buffer \<Rightarrow> (disk \<times> page_buffer) res" where
  "pb_put xs = (\<lambda>(d, b).
     if pb_spos b + length xs > pb_size b then Inl Undefined_behaviour
     else Inr (disk_write d (pb_file b) (pb_start b + pb_spos b) xs, b\<lparr>pb_spos := pb_spos b + length xs\<rparr>))"

definition pb_writeInt :: "int32 \<Rightarrow> disk \<times> page_buffer \<Rightarrow> (disk \<times> page_buffer) res" where
  "pb_writeInt v db = bindR (pb_put (write_int v) db) (\<lambda>(d, b).
     Inr (d, b\<lparr>pb_len := pb_len b + 4, pb_pos := pb_pos b + 4\<rparr>))"

definition pb_writeLong :: "int64 \<Rightarrow> disk \<times> page_buffer \<Rightarrow> (disk \<times> page_buffer) res" where
  "pb_writeLong v db = bindR (pb_put (write_long v) db) (\<lambda>(d, b).
     Inr (d, b\<lparr>pb_len := pb_len b + 8, pb_pos := pb_pos b + 8\<rparr>))"

text \<open>writeChar sets the position to one instead of adding one.\<close>

definition pb_writeChar :: "char \<Rightarrow> disk \<times> page_buffer \<Rightarrow> (disk \<times> page_buffer) res" where
  "pb_writeChar v db = bindR (pb_put [v] db) (\<lambda>(d, b). Inr (d, b\<lparr>pb_len := pb_len b + 1, pb_pos := 1\<rparr>))"

definition pb_writeBoolean :: "bool \<Rightarrow> disk \<times> page_buffer \<Rightarrow> (disk \<times> page_buffer) res" where
  "pb_writeBoolean v db = bindR (pb_put (write_boolean v) db) (\<lambda>(d, b).
     Inr (d, b\<lparr>pb_len := pb_len b + 1, pb_pos := pb_pos b + 1\<rparr>))"

definition pb_writeDouble :: "int64 \<Rightarrow> disk \<times> page_buffer \<Rightarrow> (disk \<times> page_buffer) res" where
  "pb_writeDouble v db = bindR (pb_put (write_double v) db) (\<lambda>(d, b).
     Inr (d, b\<lparr>pb_len := pb_len b + 8, pb_pos := pb_pos b + 8\<rparr>))"

text \<open>writeChars and writeString add the position of the stream, not what they wrote.\<close>

definition pb_writeChars :: "string \<Rightarrow> disk \<times> page_buffer \<Rightarrow> (disk \<times> page_buffer) res" where
  "pb_writeChars txt db = bindR (pb_put (write_chars txt) db) (\<lambda>(d, b).
     let written = pb_spos b in
     Inr (d, b\<lparr>pb_len := pb_len b + written, pb_pos := pb_pos b + written\<rparr>))"

definition pb_writeString :: "string \<Rightarrow> disk \<times> page_buffer \<Rightarrow> (disk \<times> page_buffer) res" where
  [simp]: "pb_writeString = pb_writeChars"

definition pb_read :: "'a reader \<Rightarrow> disk \<Rightarrow> page_buffer \<Rightarrow> ('a \<times> page_buffer) res" where
  "pb_read rd d b = bindR (deref rd (drop (pb_spos b) (pb_view d b))) (\<lambda>(x, rest).
     let n = length (drop (pb_spos b) (pb_view d b)) - length rest in
     Inr (x, b\<lparr>pb_spos := pb_spos b + n, pb_pos := pb_pos b + n\<rparr>))"

definition pb_readInt :: "disk \<Rightarrow> page_buffer \<Rightarrow> (int32 \<times> page_buffer) res" where
  "pb_readInt d b = pb_read read_int d b"

definition pb_readLong :: "disk \<Rightarrow> page_buffer \<Rightarrow> (int64 \<times> page_buffer) res" where
  "pb_readLong d b = pb_read read_long d b"

definition pb_readChars :: "disk \<Rightarrow> page_buffer \<Rightarrow> (string \<times> page_buffer) res" where
  "pb_readChars d b = bindR (pb_read read_chars d b) (\<lambda>(x, b). Inr (x, b\<lparr>pb_pos := pb_spos b\<rparr>))"

definition pb_readChar :: "disk \<Rightarrow> page_buffer \<Rightarrow> (char \<times> page_buffer) res" where
  "pb_readChar d b = bindR (pb_read (read_raw 1) d b) (\<lambda>(xs, b). Inr (hd xs, b))"

definition pb_readBoolean :: "disk \<Rightarrow> page_buffer \<Rightarrow> (bool \<times> page_buffer) res" where
  "pb_readBoolean d b = pb_read read_boolean d b"

definition pb_readDouble :: "disk \<Rightarrow> page_buffer \<Rightarrow> (int64 \<times> page_buffer) res" where
  "pb_readDouble d b = pb_read read_double d b"

definition pb_readRaw :: "nat \<Rightarrow> disk \<Rightarrow> page_buffer \<Rightarrow> (string \<times> page_buffer) res" where
  "pb_readRaw n d b = bindR (pb_read (read_raw n) d b) (\<lambda>(x, b). Inr (x, b\<lparr>pb_pos := pb_spos b\<rparr>))"

definition pb_readString :: "disk \<Rightarrow> page_buffer \<Rightarrow> (string \<times> page_buffer) res" where
  [simp]: "pb_readString d b = bindR (pb_readChars d b) (\<lambda>(x, b). Inr (c_str x, b))"

section \<open>BufferManager\<close>

text \<open>The queue and the vector of active buffers always hold the same buffers; they are one list.\<close>

record buffer_manager =
  bm_file :: string
  bm_pageSize :: nat
  bm_buffersSize :: nat
  bm_buffersCount :: nat
  bm_active :: "page_buffer list"
  bm_reusable :: "page_buffer list"
  bm_byLog :: "(string, int) std_map"
  bm_control :: "byte list"

definition bm_createNewBuffer :: "buffer_manager \<Rightarrow> page_buffer" where
  "bm_createNewBuffer m = new_buffer (bm_pageSize m) (bm_file m) (bm_buffersCount m * bm_buffersSize m) 0
     (bm_buffersSize m div bm_pageSize m)"

definition control_record :: "page_buffer \<Rightarrow> byte list" where
  "control_record b = [CHR 0x01] @ write_long (of_nat (pb_start b)) @ write_long 0 @ write_chars (pb_file b)"

definition bm_register :: "buffer_manager \<Rightarrow> page_buffer \<Rightarrow> bool \<Rightarrow> buffer_manager \<times> page_buffer" where
  "bm_register m b newBuffer =
     (let ctl = patch (bm_control m) 8 (write_int (of_nat (bm_buffersCount m)));
          b = (if newBuffer then b\<lparr>pb_control := length ctl\<rparr> else pb_reset b) in
      (m\<lparr>bm_control := patch ctl (pb_control b) (control_record b),
         bm_byLog := count_log (pb_file b) (bm_byLog m)\<rparr>, b))"

definition bm_addBuffer :: "buffer_manager \<Rightarrow> page_buffer \<Rightarrow> buffer_manager" where
  "bm_addBuffer m b = m\<lparr>bm_active := bm_active m @ [b\<lparr>pb_index := bm_buffersCount m\<rparr>],
     bm_buffersCount := bm_buffersCount m + 1\<rparr>"

definition bm_getBuffer :: "buffer_manager \<Rightarrow> nat \<Rightarrow> page_buffer res" where
  "bm_getBuffer m i =
     (if i < bm_buffersCount m \<and> i < length (bm_active m) then Inr (bm_active m ! i) else Inl Undefined_behaviour)"

definition bm_setBuffer :: "nat \<Rightarrow> page_buffer \<Rightarrow> buffer_manager \<Rightarrow> buffer_manager" where
  "bm_setBuffer i b m = m\<lparr>bm_active := (bm_active m)[i := b]\<rparr>"

text \<open>
  getCurrentBuffer makes the buffer to write to the last active one. A new or reused buffer is added
  and gets its place before it is registered; registering changes it in place.
\<close>

definition bm_getCurrentBuffer :: "buffer_manager \<Rightarrow> nat \<Rightarrow> bool \<Rightarrow> buffer_manager" where
  "bm_getCurrentBuffer m minimumSize force =
     (let m = (if bm_active m = [] then m
               else let b = last (bm_active m) in m\<lparr>bm_active := butlast (bm_active m) @ [pb_seek (pb_pos b) b]\<rparr>) in
      if force \<or> bm_active m = [] \<or> pb_spaceLeft (last (bm_active m)) < int minimumSize then
        (let (b, reusable, newBuffer) =
               (case bm_reusable m of [] \<Rightarrow> (bm_createNewBuffer m, [], True) | b # bs \<Rightarrow> (pb_reset b, bs, False));
             m = bm_addBuffer (m\<lparr>bm_reusable := reusable\<rparr>) b;
             (m, b) = bm_register m (pb_seek 0 (last (bm_active m))) newBuffer in
         m\<lparr>bm_active := butlast (bm_active m) @ [b]\<rparr>)
      else m)"

definition bm_pop :: "buffer_manager \<Rightarrow> (page_buffer \<times> buffer_manager) res" where
  "bm_pop m =
     (case bm_active m of
        [] \<Rightarrow> Inl Undefined_behaviour
      | b # bs \<Rightarrow> Inr (b, m\<lparr>bm_active := bs,
          bm_byLog := (case map_find (bm_byLog m) (pb_file b) of
             Some n \<Rightarrow> map_put (pb_file b) (n - 1) (bm_byLog m) | None \<Rightarrow> bm_byLog m),
          bm_control := patch (bm_control m) (pb_control b) [CHR 0x02],
          bm_buffersCount := bm_buffersCount m - 1\<rparr>))"

primrec bm_popN :: "nat \<Rightarrow> buffer_manager \<Rightarrow> (page_buffer list \<times> buffer_manager) res" where
  "bm_popN 0 m = Inr ([], m)"
| "bm_popN (Suc n) m = bindR (bm_pop m) (\<lambda>(b, m). bindR (bm_popN n m) (\<lambda>(bs, m). Inr (b # bs, m)))"

definition bm_popAll :: "buffer_manager \<Rightarrow> (page_buffer list \<times> buffer_manager) res" where
  "bm_popAll m = bm_popN (bm_buffersCount m) m"

text \<open>Buffers of another manager are counted and registered, but keep the index they had.\<close>

fun bm_addEach :: "buffer_manager \<Rightarrow> page_buffer list \<Rightarrow> buffer_manager" where
  "bm_addEach m [] = m"
| "bm_addEach m (b # bs) =
     (let (m, b) = bm_register (m\<lparr>bm_buffersCount := bm_buffersCount m + 1\<rparr>) b True in
      bm_addEach (m\<lparr>bm_active := bm_active m @ [b]\<rparr>) bs)"

definition bm_addBuffers :: "buffer_manager \<Rightarrow> page_buffer list \<Rightarrow> buffer_manager" where
  "bm_addBuffers m buffers = bm_getCurrentBuffer (bm_addEach m buffers) 0 True"

definition bm_dropBuffer :: "disk \<times> buffer_manager \<Rightarrow> page_buffer \<Rightarrow> disk \<times> buffer_manager" where
  "bm_dropBuffer = (\<lambda>(d, m) b.
     case map_find (bm_byLog m) (pb_file b) of
       None \<Rightarrow> (disk_remove d (pb_file b), m)
     | Some n \<Rightarrow>
         if n \<le> 0 then (disk_remove d (pb_file b), m\<lparr>bm_byLog := map_erase (pb_file b) (bm_byLog m)\<rparr>)
         else (d, m))"

definition bm_dropAllBuffers :: "disk \<times> buffer_manager \<Rightarrow> (disk \<times> buffer_manager) res" where
  "bm_dropAllBuffers = (\<lambda>(d, m). bindR (bm_popAll m) (\<lambda>(bs, m). Inr (foldl bm_dropBuffer (d, m) bs)))"

section \<open>The control file\<close>

text \<open>A loaded buffer counts as full.\<close>

definition load_record :: "nat \<Rightarrow> nat \<Rightarrow> nat \<Rightarrow> (bool \<times> page_buffer) reader" where
  "load_record pageSize buffersSize controlPosition =
     rbind (read_raw 1) (\<lambda>flag. rbind read_long (\<lambda>startOffset. rbind read_long (\<lambda>bufferLen.
     rbind read_chars (\<lambda>logFileName.
     rreturn (odd (of_char (hd flag) :: nat),
       (new_buffer pageSize (c_str logFileName) (unat startOffset) buffersSize (buffersSize div pageSize))
         \<lparr>pb_control := controlPosition\<rparr>)))))"

text \<open>Reusable entries split the active ones: those behind go to the front of the queue.\<close>

primrec load_records ::
    "nat \<Rightarrow> nat \<Rightarrow> nat \<Rightarrow> nat \<Rightarrow> bool \<Rightarrow> (page_buffer list \<times> page_buffer list \<times> page_buffer list) reader" where
  "load_records pageSize buffersSize fileLen 0 addToTail = rreturn ([], [], [])"
| "load_records pageSize buffersSize fileLen (Suc n) addToTail = (\<lambda>s.
     rbind (load_record pageSize buffersSize (fileLen - length s)) (\<lambda>(active, b).
     rbind (load_records pageSize buffersSize fileLen n (addToTail \<and> active)) (\<lambda>(front, tail, reusable).
     rreturn (if active then (if addToTail then (front, b # tail, reusable) else (b # front, tail, reusable))
              else (front, tail, b # reusable)))) s)"

definition bm_empty :: "nat \<Rightarrow> string \<Rightarrow> nat \<Rightarrow> byte list \<Rightarrow> buffer_manager" where
  "bm_empty pageSize f buffersSize ctl =
     \<lparr>bm_file = f, bm_pageSize = pageSize, bm_buffersSize = buffersSize, bm_buffersCount = 0, bm_active = [],
      bm_reusable = [], bm_byLog = [], bm_control = ctl\<rparr>"

definition bm_load :: "nat \<Rightarrow> string \<Rightarrow> byte list \<Rightarrow> buffer_manager res" where
  "bm_load pageSize f ctl =
     bindR (read_long ctl) (\<lambda>(buffersSize, rest).
     bindR (read_int rest) (\<lambda>(buffers, rest).
     bindR (load_records pageSize (unat buffersSize) (length ctl) (nat (sint buffers)) True rest)
       (\<lambda>((front, tail, reusable), rest).
     Inr (foldl bm_addBuffer ((bm_empty pageSize f (unat buffersSize) ctl)\<lparr>bm_reusable := reusable\<rparr>) (front @ tail)))))"

definition bm_create :: "nat \<Rightarrow> string \<Rightarrow> nat \<Rightarrow> buffer_manager" where
  "bm_create pageSize f buffersPages =
     (let buffersSize = pageSize * buffersPages in
      bm_empty pageSize f buffersSize (write_long (of_nat buffersSize) @ write_int 0))"

text \<open>The constructor; the last argument is the control file that is there.\<close>

definition bm_open :: "nat \<Rightarrow> string \<Rightarrow> nat \<Rightarrow> byte list option \<Rightarrow> buffer_manager res" where
  "bm_open pageSize f buffersPages controlFile =
     (case controlFile of None \<Rightarrow> Inr (bm_create pageSize f buffersPages) | Some ctl \<Rightarrow> bm_load pageSize f ctl)"

end
