(* ===== verification/Index_Pages.thy ===== *)
theory Index_Pages
  imports Index_Map Index_Buffers
begin

text \<open>
  The pages of an index on disk (db/bplusindexp.cpp): how a page is written into its buffer and loaded
  again, where additions and updates write pages, and the searches that load pages on their way. Writing
  pages is an argument of the additions, so that they run on the buffers and on their specification.
\<close>

declare split_paired_All [simp del] split_paired_Ex [simp del]

section \<open>The bytes of a page\<close>

text \<open>
  The address of a page is its bufferIndex and bufferPos; a page without one has the index -1. Every key
  document is {_id: id}.
\<close>

type_synonym page_address = "nat \<times> nat"

definition key_doc :: "string \<Rightarrow> bson" where
  "key_doc key = [(''_id'', CString key)]"

definition persistIndexElement :: "index_elem option \<Rightarrow> byte list list" where
  "persistIndexElement index = (case index of
     Some e \<Rightarrow> [write_int 1, writeBSON (key_doc (ie_id e)), write_chars (ie_documentId e),
       write_long (of_nat (ie_posData e)), write_long 0]
   | None \<Rightarrow> [write_int 0, writeBSON [], write_chars [], write_long 0, write_long 0])"

definition persistPointer :: "page_address option \<Rightarrow> byte list list" where
  "persistPointer pointer = (case pointer of
     Some (i, pos) \<Rightarrow> [write_int 1, write_int (of_nat i), write_int (of_nat pos)]
   | None \<Rightarrow> [write_int 0, write_int 0, write_int 0])"

text \<open>A key document of another shape, which no index writes, is outside the model.\<close>

definition retrieveIndexElement :: "index_elem option reader" where
  "retrieveIndexElement = rbind read_int (\<lambda>i. rbind (readBSON ''*'') (\<lambda>key. rbind read_chars (\<lambda>documentId.
     rbind read_long (\<lambda>posData. rbind read_long (\<lambda>indexPos.
     if i = 1 then
       (case key of
          [(name, CString k)] \<Rightarrow>
            if name = ''_id'' then
              rreturn (Some \<lparr>ie_id = k, ie_documentId = c_str documentId, ie_posData = unat posData\<rparr>)
            else rfail Undefined_behaviour
        | _ \<Rightarrow> rfail Undefined_behaviour)
     else rreturn None)))))"

definition retrievePointer :: "page_address option reader" where
  "retrievePointer = rbind read_int (\<lambda>flag. rbind read_int (\<lambda>i. rbind read_int (\<lambda>pos.
     rreturn (if flag = 1 then Some (unat i, unat pos) else None))))"

text \<open>What a page says about itself: its elements, the addresses of its children and its size.\<close>

type_synonym page_copy = "index_elem option list \<times> page_address option list \<times> nat"

definition address_of :: "(page_id \<Rightarrow> page_address option) \<Rightarrow> page_id option \<Rightarrow> page_address option" where
  "address_of saved pointer = (case pointer of None \<Rightarrow> None | Some c \<Rightarrow> saved c)"

definition copy_of :: "(page_id \<Rightarrow> page_address option) \<Rightarrow> index_page \<Rightarrow> page_copy" where
  "copy_of saved page = (pg_elements page, map (address_of saved) (pg_pointers page), pg_size page)"

text \<open>The siblings are never set.\<close>

definition page_pieces :: "page_copy \<Rightarrow> byte list list" where
  "page_pieces = (\<lambda>(elements, pointers, n).
     [write_int (of_nat BUCKET_MAX_ELEMENTS), write_int (of_nat n)] @
     concat (map (\<lambda>x. persistIndexElement (elements ! x) @ persistPointer (pointers ! x)) [0..<BUCKET_MAX_ELEMENTS]) @
     persistPointer (pointers ! BUCKET_MAX_ELEMENTS) @ persistPointer None @ persistPointer None)"

primrec retrieve_slots :: "nat \<Rightarrow> (index_elem option list \<times> page_address option list) reader" where
  "retrieve_slots 0 = rreturn ([], [])"
| "retrieve_slots (Suc n) = rbind retrieveIndexElement (\<lambda>e. rbind retrievePointer (\<lambda>p.
     rbind (retrieve_slots n) (\<lambda>(es, ps). rreturn (e # es, p # ps))))"

definition retrieve_page :: "page_copy reader" where
  "retrieve_page = rbind read_int (\<lambda>bucket. rbind read_int (\<lambda>n. rbind (retrieve_slots BUCKET_MAX_ELEMENTS) (\<lambda>(es, ps).
     rbind retrievePointer (\<lambda>p. rbind retrievePointer (\<lambda>leftSibling. rbind retrievePointer (\<lambda>rightSibling.
     rreturn (es, ps @ [p], unat n)))))))"

section \<open>State\<close>

text \<open>
  What BPlusIndexP and its pages have besides the tree: the addresses of the pages, whether they are
  loaded, the keys, the buffers and the files.
\<close>

record index_files =
  xf_manager :: buffer_manager
  xf_disk :: disk
  xf_saved :: "page_id \<Rightarrow> page_address option"
  xf_loaded :: "page_id \<Rightarrow> bool"
  xf_keys :: "string list"

type_synonym index_store = "bptree \<times> index_files"

section \<open>Writing a page\<close>

text \<open>The two writes into a buffer that the manager holds.\<close>

definition buffer_writes ::
    "nat \<Rightarrow> (page_buffer \<Rightarrow> page_buffer) \<Rightarrow> (disk \<times> page_buffer \<Rightarrow> (disk \<times> page_buffer) res) \<Rightarrow> index_files \<Rightarrow> index_files res" where
  "buffer_writes i go put x =
     bindR (bm_getBuffer (xf_manager x) i) (\<lambda>b.
     bindR (put (xf_disk x, go b)) (\<lambda>(d, b).
     Inr (x\<lparr>xf_disk := d, xf_manager := bm_setBuffer i b (xf_manager x)\<rparr>)))"

text \<open>
  The buffer of a new page is the last one of the manager; the first page of an index makes two buffers,
  because the first one is for the address of the head.
\<close>

definition buffer_for :: "nat \<Rightarrow> buffer_manager \<Rightarrow> buffer_manager" where
  "buffer_for n m =
     (if bm_buffersCount m > 1 then bm_getCurrentBuffer m n False
      else bm_getCurrentBuffer (bm_getCurrentBuffer m n True) n True)"

definition persistPage :: "page_id \<Rightarrow> bptree \<Rightarrow> index_files \<Rightarrow> index_files res" where
  "persistPage p t x =
     bindR (page_at t p) (\<lambda>page.
     bindR (ms_writes (ms_new 1024) (page_pieces (copy_of (xf_saved x) page))) (\<lambda>helperStream.
     bindR (ms_toChars helperStream) (\<lambda>pageContent.
     let n = ms_size helperStream;
         (i, pos, x) = (case xf_saved x p of
            Some (i, pos) \<Rightarrow> (i, pos, x)
          | None \<Rightarrow> (let m = buffer_for n (xf_manager x);
                b = pb_seek_end 0 (last (bm_active m)) in
              (pb_index b, pb_pos b, x\<lparr>xf_manager := m, xf_saved := (xf_saved x)(p \<mapsto> (pb_index b, pb_pos b))\<rparr>))) in
     bindR (buffer_writes i (pb_seek pos)
       (\<lambda>db. bindR (pb_writeInt (of_nat n) db) (pb_writeChars pageContent)) x) (\<lambda>x.
     bindR (if pg_parent page = None
        then buffer_writes 0 (pb_seek 0) (\<lambda>db. bindR (pb_writeLong (of_nat i) db) (pb_writeLong (of_nat pos))) x
        else Inr x) (\<lambda>x.
     Inr (x\<lparr>xf_loaded := (xf_loaded x)(p := True)\<rparr>))))))"

definition write_keys :: "string list \<Rightarrow> disk \<times> page_buffer \<Rightarrow> (disk \<times> page_buffer) res" where
  "write_keys keys db = bindR (pb_writeInt (of_nat (length keys)) db) (\<lambda>db.
     foldl (\<lambda>r key. bindR r (pb_writeString key)) (Inr db) keys)"

definition index_setKeys :: "string list \<Rightarrow> index_files \<Rightarrow> index_files res" where
  "index_setKeys keys x = buffer_writes 0 (pb_seek 16) (write_keys keys) (x\<lparr>xf_keys := keys\<rparr>)"

section \<open>Additions and updates\<close>

text \<open>The bodies of Index_Tree with persistPage where the code calls it.\<close>

definition promote_p ::
    "(page_id \<Rightarrow> index_elem \<Rightarrow> page_id option \<Rightarrow> bptree \<times> 's \<Rightarrow> (bptree \<times> 's) res) \<Rightarrow>
     page_id \<Rightarrow> page_id \<Rightarrow> bptree \<times> 's \<Rightarrow> (bptree \<times> 's) res" where
  "promote_p add page right = (\<lambda>(t, s).
     case pg_elements (bt_pages t ! right) ! 0 of
       None \<Rightarrow> Inl Undefined_behaviour
     | Some element \<Rightarrow>
         (case pg_parent (bt_pages t ! page) of
            None \<Rightarrow> Inr (createRoot element page right t, s)
          | Some parentElement \<Rightarrow> add parentElement element (Some right) (t, s)))"

text \<open>The three pages that a split writes at its end: the page, the new one, and the parent of the page.\<close>

definition persist_split ::
    "(page_id \<Rightarrow> bptree \<Rightarrow> 's \<Rightarrow> 's res) \<Rightarrow> page_id \<Rightarrow> page_id \<Rightarrow> bptree \<times> 's \<Rightarrow> (bptree \<times> 's) res" where
  "persist_split persist page right = (\<lambda>(t, s).
     bindR (persist page t s) (\<lambda>s. bindR (persist right t s) (\<lambda>s.
     case pg_parent (bt_pages t ! page) of
       None \<Rightarrow> Inl Undefined_behaviour
     | Some parentElement \<Rightarrow> bindR (persist parentElement t s) (\<lambda>s. Inr (t, s)))))"

primrec addElement_p ::
    "(page_id \<Rightarrow> bptree \<Rightarrow> 's \<Rightarrow> 's res) \<Rightarrow> nat \<Rightarrow> page_id \<Rightarrow> index_elem \<Rightarrow> page_id option \<Rightarrow>
     bptree \<times> 's \<Rightarrow> (bptree \<times> 's) res" where
  "addElement_p persist 0 p index rightPointer ts = Inl No_fuel"
| "addElement_p persist (Suc n) p index rightPointer ts =
     (let (t, s) = ts in
     bindR (page_at t p) (\<lambda>page.
     if \<not> isFull page then
       (let t = add_to_page p index rightPointer t in bindR (persist p t s) (\<lambda>s. Inr (t, s)))
     else if isLeaf page then
       (if rightPointer \<noteq> None then Inl Assertion_failed
        else let (r, t) = split_leaf p index t in
          bindR (promote_p (addElement_p persist n) p r (t, s)) (\<lambda>(t, s).
          bindR (refresh_parent_of r t) (\<lambda>t. persist_split persist p r (t, s))))
     else
       (let (r, t) = split_inner p index rightPointer t in
        bindR (promote_p (addElement_p persist n) p r (t, s)) (\<lambda>(t, s).
        bindR (refresh_parent_of r (drop_first r t)) (\<lambda>t. persist_split persist p r (t, s))))))"

section \<open>Loading pages\<close>

text \<open>The pages that the pointers of a page name, not loaded yet; the page is their parent.\<close>

fun load_pointers ::
    "page_id \<Rightarrow> page_address option list \<Rightarrow> index_store \<Rightarrow> page_id option list \<times> index_store" where
  "load_pointers p [] s = ([], s)"
| "load_pointers p (None # pointers) s = (let (ps, s) = load_pointers p pointers s in (None # ps, s))"
| "load_pointers p (Some a # pointers) (t, x) =
     (let (c, t) = alloc_page (new_page\<lparr>pg_parent := Some p\<rparr>) t;
          (ps, s) = load_pointers p pointers
            (t, x\<lparr>xf_saved := (xf_saved x)(c \<mapsto> a), xf_loaded := (xf_loaded x)(c := False)\<rparr>) in
      (Some c # ps, s))"

definition loadPage :: "page_id \<Rightarrow> index_store \<Rightarrow> index_store res" where
  "loadPage p = (\<lambda>(t, x).
     case xf_saved x p of
       None \<Rightarrow> Inl Undefined_behaviour
     | Some (i, pos) \<Rightarrow>
         bindR (bm_getBuffer (xf_manager x) i) (\<lambda>b.
         bindR (pb_readInt (xf_disk x) (pb_seek pos b)) (\<lambda>(bsize, b).
         bindR (pb_readChars (xf_disk x) b) (\<lambda>(bytes, b).
         if sint bsize < 0 \<or> int (length bytes) < sint bsize then Inl Undefined_behaviour
         else bindR (retrieve_page (take (nat (sint bsize)) bytes)) (\<lambda>((elements, addresses, n), rest).
         let x = x\<lparr>xf_manager := bm_setBuffer i b (xf_manager x)\<rparr>;
             (pointers, (t, x)) = load_pointers p addresses (t, x) in
         Inr (set_page p ((bt_pages t ! p)\<lparr>pg_elements := elements, pg_pointers := pointers, pg_size := n\<rparr>) t,
              x\<lparr>xf_loaded := (xf_loaded x)(p := True)\<rparr>))))))"

definition ensure_loaded :: "page_id \<Rightarrow> index_store \<Rightarrow> index_store res" where
  "ensure_loaded p s = (if xf_loaded (snd s) p then Inr s else loadPage p s)"

text \<open>The searches of Index_Tree, which load the pages they come to. The fuel counts levels.\<close>

primrec findIndex_x :: "nat \<Rightarrow> page_id \<Rightarrow> string \<Rightarrow> index_store \<Rightarrow> ((page_id \<times> nat) option \<times> index_store) res" where
  "findIndex_x 0 start key s = Inl No_fuel"
| "findIndex_x (Suc n) start key s =
     bindR (ensure_loaded start s) (\<lambda>s.
     bindR (page_at (fst s) start) (\<lambda>page.
     bindR (find_loop page key 0 (pg_size page)) (\<lambda>step.
     case step of
       Descend child \<Rightarrow> findIndex_x n child key s
     | Found x \<Rightarrow> Inr (Some (start, x), s)
     | Missing \<Rightarrow> Inr (None, s))))"

primrec findIndexPage_x :: "nat \<Rightarrow> page_id \<Rightarrow> string \<Rightarrow> index_store \<Rightarrow> (page_id \<times> index_store) res" where
  "findIndexPage_x 0 start key s = Inl No_fuel"
| "findIndexPage_x (Suc n) start key s =
     bindR (ensure_loaded start s) (\<lambda>s.
     bindR (page_at (fst s) start) (\<lambda>page.
     if isLeaf page then Inr (start, s)
     else bindR (find_page_loop page key 0 (pg_size page)) (\<lambda>next_page.
       case next_page of Some child \<Rightarrow> findIndexPage_x n child key s | None \<Rightarrow> Inr (start, s))))"

text \<open>Every level of the tree is a page of its own on disk, so the buffers bound the levels.\<close>

definition x_fuel :: "index_store \<Rightarrow> nat" where
  "x_fuel s = length (bm_active (xf_manager (snd s)))"

definition index_find_x :: "string \<Rightarrow> index_store \<Rightarrow> (index_elem option \<times> index_store) res" where
  "index_find_x key s = bindR (findIndex_x (x_fuel s) (bt_head (fst s)) key s) (\<lambda>(found, s).
     Inr (case found of None \<Rightarrow> None | Some place \<Rightarrow> bt_element (fst s) place, s))"

definition index_add_x :: "string \<Rightarrow> string \<Rightarrow> nat \<Rightarrow> index_store \<Rightarrow> index_store res" where
  "index_add_x key docId filePos s =
     bindR (findIndexPage_x (x_fuel s) (bt_head (fst s)) key s) (\<lambda>(pageFound, s).
     addElement_p persistPage (bt_fuel (fst s)) pageFound
       \<lparr>ie_id = key, ie_documentId = docId, ie_posData = filePos\<rparr> None s)"

definition index_update_x :: "string \<Rightarrow> nat \<Rightarrow> index_store \<Rightarrow> (bool \<times> index_store) res" where
  "index_update_x key filePos s =
     bindR (findIndexPage_x (x_fuel s) (bt_head (fst s)) key s) (\<lambda>(pageFound, s).
     bindR (findIndex_x (x_fuel s) pageFound key s) (\<lambda>(found, (t, x)).
     case found of
       None \<Rightarrow> Inr (False, (t, x))
     | Some (p, i) \<Rightarrow>
         (case bt_element t (p, i) of
            None \<Rightarrow> Inl Undefined_behaviour
          | Some current \<Rightarrow>
              (let t = set_page p ((bt_pages t ! p)\<lparr>pg_elements :=
                 (pg_elements (bt_pages t ! p))[i := Some (current\<lparr>ie_posData := filePos\<rparr>)]\<rparr>) t in
               bindR (persistPage pageFound t x) (\<lambda>x. Inr (True, (t, x)))))))"

section \<open>Opening an index\<close>

primrec read_keys :: "nat \<Rightarrow> disk \<Rightarrow> page_buffer \<Rightarrow> (string list \<times> page_buffer) res" where
  "read_keys 0 d b = Inr ([], b)"
| "read_keys (Suc n) d b = bindR (pb_readString d b) (\<lambda>(key, b).
     bindR (read_keys n d b) (\<lambda>(keys, b). Inr (key # keys, b)))"

definition loadIndex :: "buffer_manager \<Rightarrow> disk \<Rightarrow> index_store res" where
  "loadIndex m d =
     bindR (bm_getBuffer m 0) (\<lambda>b.
     bindR (pb_readLong d (pb_seek 0 b)) (\<lambda>(i, b).
     bindR (pb_readLong d b) (\<lambda>(pos, b).
     bindR (pb_readInt d b) (\<lambda>(keysCount, b).
     bindR (read_keys (nat (sint keysCount)) d b) (\<lambda>(keys, b).
     loadPage 0 (\<lparr>bt_pages = [new_page], bt_head = 0\<rparr>,
       \<lparr>xf_manager = bm_setBuffer 0 b m, xf_disk = d, xf_saved = [0 \<mapsto> (unat (ucast i :: int32), unat (ucast pos :: int32))],
        xf_loaded = (\<lambda>_. False), xf_keys = remdups (sort keys)\<rparr>))))))"

definition index_open :: "nat \<Rightarrow> string \<Rightarrow> byte list option \<Rightarrow> disk \<Rightarrow> index_store res" where
  "index_open pageSize f controlFile d =
     bindR (bm_open pageSize f 1 controlFile) (\<lambda>m.
     if bm_buffersCount m > 0 then loadIndex m d
     else bindR (persistPage 0 new_tree \<lparr>xf_manager = m, xf_disk = d, xf_saved = (\<lambda>_. None), xf_loaded = (\<lambda>_. False),
       xf_keys = []\<rparr>) (\<lambda>x. Inr (new_tree, x)))"

end
