(* ===== verification/Index_Saved.thy ===== *)
theory Index_Saved
  imports Index_Pages
begin

text \<open>
  What the files of an index hold, as a specification of persistPage: a list of copies of pages, the
  address of every page that was written and the address of the head. The copies are a B+ tree again,
  whose pages are named by their buffers; a search in a later session is a search in that tree.
\<close>

declare split_paired_All [simp del] split_paired_Ex [simp del]

section \<open>The specification of writing pages\<close>

record page_saves =
  ps_saved :: "page_id \<Rightarrow> page_address option"
  ps_copies :: "page_copy list"
  ps_head :: page_address

definition no_saves :: page_saves where
  "no_saves = \<lparr>ps_saved = (\<lambda>_. None), ps_copies = [], ps_head = (0, 0)\<rparr>"

text \<open>
  A page of 4096 bytes holds five elements whose ids have up to 300 characters.
\<close>

definition elem_fits :: "index_elem \<Rightarrow> bool" where
  "elem_fits e \<longleftrightarrow> no_nul (ie_id e) \<and> no_nul (ie_documentId e) \<and> int (length (ie_id e)) \<le> 300 \<and>
     int (length (ie_documentId e)) \<le> 300 \<and> int (ie_posData e) < 2 ^ 63"

definition elems_fit :: "index_page \<Rightarrow> bool" where
  "elems_fit page \<longleftrightarrow> length (pg_elements page) = 5 \<and> length (pg_pointers page) = 6 \<and> pg_size page \<le> 5 \<and>
     list_all (\<lambda>slot. case slot of None \<Rightarrow> True | Some e \<Rightarrow> elem_fits e) (pg_elements page)"

text \<open>The buffer with the index i has the copy with the number i - 1; the positions are 0.\<close>

definition save_page :: "page_id \<Rightarrow> bptree \<Rightarrow> page_saves \<Rightarrow> page_saves res" where
  "save_page p t a =
     bindR (page_at t p) (\<lambda>page.
     if \<not> elems_fit page \<or> int (length (ps_copies a)) \<ge> 2 ^ 30 then Inl Undefined_behaviour
     else let c = copy_of (ps_saved a) page;
         (at, a) = (case ps_saved a p of
            Some at \<Rightarrow> (at, a\<lparr>ps_copies := (ps_copies a)[fst at - 1 := c]\<rparr>)
          | None \<Rightarrow> (let at = (length (ps_copies a) + 1, 0) in
              (at, a\<lparr>ps_copies := ps_copies a @ [c], ps_saved := (ps_saved a)(p \<mapsto> at)\<rparr>))) in
       Inr (if pg_parent page = None then a\<lparr>ps_head := at\<rparr> else a))"

definition index_add_s :: "string \<Rightarrow> string \<Rightarrow> nat \<Rightarrow> bptree \<times> page_saves \<Rightarrow> (bptree \<times> page_saves) res" where
  "index_add_s key docId filePos s =
     bindR (findIndexPage (bt_fuel (fst s)) (fst s) (bt_head (fst s)) key) (\<lambda>pageFound.
     addElement_p save_page (bt_fuel (fst s)) pageFound
       \<lparr>ie_id = key, ie_documentId = docId, ie_posData = filePos\<rparr> None s)"

definition page_of_copy :: "page_copy \<Rightarrow> index_page" where
  "page_of_copy c = (case c of (elements, addresses, n) \<Rightarrow>
     \<lparr>pg_elements = elements, pg_pointers = map (map_option fst) addresses, pg_size = n, pg_parent = None\<rparr>)"

text \<open>The tree on disk; the first buffer has no page.\<close>

definition disk_tree :: "page_saves \<Rightarrow> bptree" where
  "disk_tree a = \<lparr>bt_pages = new_page # map page_of_copy (ps_copies a), bt_head = fst (ps_head a)\<rparr>"

section \<open>Copies that are up to date\<close>

text \<open>What a copy of a page is made of; the parent is not part of it.\<close>

definition cont :: "bptree \<Rightarrow> page_id \<Rightarrow> index_elem option list \<times> page_id option list \<times> nat" where
  "cont t p = (let page = bt_pages t ! p in (pg_elements page, pg_pointers page, pg_size page))"

lemma cont_copy: "cont t p = cont u p \<Longrightarrow> copy_of saved (bt_pages t ! p) = copy_of saved (bt_pages u ! p)"
  by (simp add: cont_def copy_of_def Let_def)

lemma cont_fields:
  "cont t p = cont u p \<longleftrightarrow> pg_elements (bt_pages t ! p) = pg_elements (bt_pages u ! p) \<and>
     pg_pointers (bt_pages t ! p) = pg_pointers (bt_pages u ! p) \<and> pg_size (bt_pages t ! p) = pg_size (bt_pages u ! p)"
  by (simp add: cont_def Let_def)

lemma set_page_at: "bt_pages (set_page p pg t) ! i = (if i = p \<and> p < pages t then pg else bt_pages t ! i)"
  by (cases "p < pages t") (simp_all add: set_page_def nth_list_update list_update_beyond)

lemma cont_set_parent [simp]: "cont (set_parent x p t) i = cont t i"
  by (cases "p < pages t") (auto simp: cont_fields set_parent_def set_page_at)

definition same_content :: "bptree \<Rightarrow> bptree \<Rightarrow> bool" where
  "same_content t u \<longleftrightarrow> pages u = pages t \<and> bt_head u = bt_head t \<and> (\<forall>i. cont u i = cont t i) \<and>
     (\<forall>i. pg_parent (bt_pages t ! i) \<noteq> None \<longrightarrow> pg_parent (bt_pages u ! i) \<noteq> None)"

lemma same_content_trans: "same_content t u \<Longrightarrow> same_content u v \<Longrightarrow> same_content t v"
  by (simp add: same_content_def)

lemma same_content_refl [simp]: "same_content t t"
  by (simp add: same_content_def)

lemma same_content_set_parent: "same_content t (set_parent (Some x) p t)"
  by (auto simp: same_content_def set_parent_def set_page_at cont_fields)

lemma same_content_refresh: "same_content t (refresh_parent p t)"
proof -
  have "same_content t (fold (\<lambda>pointer t. case pointer of None \<Rightarrow> t | Some child \<Rightarrow> set_parent (Some p) child t) ps t)" for ps
    by (induction ps arbitrary: t)
      (auto split: option.split intro: same_content_trans [OF same_content_set_parent])
  then show ?thesis by (simp add: refresh_parent_def)
qed

lemma same_content_refresh_of: "refresh_parent_of r t = Inr u \<Longrightarrow> same_content t u"
  by (auto simp: refresh_parent_of_def same_content_refresh split: option.splits)

text \<open>Every page outside X was written and its copy is what it is now; addresses are never shared.\<close>

definition saves_ok :: "nat \<Rightarrow> page_saves \<Rightarrow> bool" where
  "saves_ok n a \<longleftrightarrow>
     (\<forall>p at. ps_saved a p = Some at \<longrightarrow> p < n \<and> snd at = 0 \<and> 1 \<le> fst at \<and> fst at \<le> length (ps_copies a)) \<and>
     inj_on (ps_saved a) (dom (ps_saved a)) \<and> card (dom (ps_saved a)) = length (ps_copies a)"

definition dated :: "bptree \<Rightarrow> page_saves \<Rightarrow> page_id \<Rightarrow> bool" where
  "dated t a p \<longleftrightarrow> (\<exists>i. ps_saved a p = Some (i, 0) \<and> 1 \<le> i \<and> i \<le> length (ps_copies a) \<and>
     ps_copies a ! (i - 1) = copy_of (ps_saved a) (bt_pages t ! p))"

definition dated_but :: "page_id set \<Rightarrow> bptree \<Rightarrow> page_saves \<Rightarrow> bool" where
  "dated_but X t a \<longleftrightarrow> saves_ok (pages t) a \<and> (\<forall>p<pages t. p \<notin> X \<longrightarrow> dated t a p)"

lemma saved_dom: "saves_ok n a \<Longrightarrow> dom (ps_saved a) \<subseteq> {..<n}"
  by (auto simp: saves_ok_def)

lemma copies_le: "saves_ok n a \<Longrightarrow> length (ps_copies a) \<le> n"
  using card_mono [OF _ saved_dom, of n a] by (simp add: saves_ok_def)

lemma dated_more: "dated_but X t a \<Longrightarrow> X \<subseteq> Y \<Longrightarrow> dated_but Y t a"
  by (auto simp: dated_but_def)

text \<open>Changing pages and adding new ones.\<close>

lemma dated_change:
  assumes "dated_but X t a" "pages t \<le> pages u"
    and "\<And>p. p < pages t \<Longrightarrow> p \<notin> Y \<Longrightarrow> cont u p = cont t p"
  shows "dated_but (X \<union> Y \<union> {pages t..<pages u}) u a"
proof -
  have saves: "saves_ok (pages t) a" using assms(1) by (simp add: dated_but_def)
  have "dated u a p" if p: "p < pages u" "p \<notin> X \<union> Y \<union> {pages t..<pages u}" for p
  proof -
    have "dated t a p" "cont u p = cont t p" using p assms by (auto simp: dated_but_def)
    then show ?thesis using cont_copy [of u p t] by (simp add: dated_def)
  qed
  moreover have "saves_ok (pages u) a" using saves assms(2) by (auto simp: saves_ok_def intro: less_le_trans)
  ultimately show ?thesis by (simp add: dated_but_def)
qed

definition points_to :: "bptree \<Rightarrow> page_id \<Rightarrow> page_id \<Rightarrow> bool" where
  "points_to t x p \<longleftrightarrow> Some p \<in> set (pg_pointers (bt_pages t ! x))"

lemma copy_of_other:
  assumes "\<not> points_to t x p"
  shows "copy_of (saved(p \<mapsto> at)) (bt_pages t ! x) = copy_of saved (bt_pages t ! x)"
proof -
  have "address_of (saved(p \<mapsto> at)) y = address_of saved y" if "y \<in> set (pg_pointers (bt_pages t ! x))" for y
    using that assms by (auto simp: points_to_def address_of_def split: option.split)
  then show ?thesis by (simp add: copy_of_def)
qed

text \<open>Writing a page that has an address, and one that gets it.\<close>

lemma save_old:
  assumes ok: "dated_but X t a" and p: "p < pages t" "ps_saved a p = Some at"
    and fits: "elems_fit (bt_pages t ! p)" "pages t < 2 ^ 30"
  obtains b where "save_page p t a = Inr b" "dated_but (X - {p}) t b" "ps_saved b = ps_saved a"
    "ps_head b = (if pg_parent (bt_pages t ! p) = None then at else ps_head a)"
proof -
  let ?c = "copy_of (ps_saved a) (bt_pages t ! p)"
  define b0 where "b0 = a\<lparr>ps_copies := (ps_copies a)[fst at - 1 := ?c]\<rparr>"
  define b where "b = (if pg_parent (bt_pages t ! p) = None then b0\<lparr>ps_head := at\<rparr> else b0)"
  have saves: "saves_ok (pages t) a" using ok by (simp add: dated_but_def)
  then have at: "snd at = 0" "1 \<le> fst at" "fst at \<le> length (ps_copies a)" using p by (auto simp: saves_ok_def)
  have few: "int (length (ps_copies a)) < 2 ^ 30" using copies_le [OF saves] fits(2) by simp
  have fields: "ps_saved b = ps_saved a" "ps_copies b = (ps_copies a)[fst at - 1 := ?c]" by (simp_all add: b_def b0_def)
  have "dated t b x" if x: "x < pages t" "x \<notin> X - {p}" for x
  proof (cases "x = p")
    case True
    with p at show ?thesis by (auto simp: dated_def fields intro!: exI [of _ "fst at"] prod_eqI)
  next
    case False
    then obtain i where i: "ps_saved a x = Some (i, 0)" "1 \<le> i" "i \<le> length (ps_copies a)"
      "ps_copies a ! (i - 1) = copy_of (ps_saved a) (bt_pages t ! x)"
      using ok x by (auto simp: dated_but_def dated_def)
    have "ps_saved a x \<noteq> ps_saved a p" using saves False i(1) p(2)
      unfolding saves_ok_def inj_on_def by (metis domI)
    then have "i \<noteq> fst at" using i(1) p(2) at(1) by (metis prod.collapse)
    then have "fst at - 1 \<noteq> i - 1" using i(2) at(2) by linarith
    with i show ?thesis by (simp add: dated_def fields)
  qed
  moreover have "saves_ok (pages t) b" using saves by (simp add: saves_ok_def fields)
  ultimately have "dated_but (X - {p}) t b" by (simp add: dated_but_def)
  moreover have "save_page p t a = Inr b" using p fits few by (simp add: save_page_def page_at_def b_def b0_def Let_def not_le)
  ultimately show ?thesis by (intro that [of b]) (auto simp: b_def b0_def)
qed

lemma save_new:
  assumes ok: "dated_but X t a" and p: "p < pages t" "ps_saved a p = None" "\<not> points_to t p p"
    and fits: "elems_fit (bt_pages t ! p)" "pages t < 2 ^ 30"
  obtains b at where "save_page p t a = Inr b" "dated_but ((X \<union> {x. points_to t x p}) - {p}) t b"
    "ps_saved b = (ps_saved a)(p \<mapsto> at)" "ps_head b = (if pg_parent (bt_pages t ! p) = None then at else ps_head a)"
proof -
  let ?n = "length (ps_copies a)"
  let ?at = "(?n + 1, 0 :: nat)" and ?c = "copy_of (ps_saved a) (bt_pages t ! p)"
  define b0 where "b0 = a\<lparr>ps_copies := ps_copies a @ [?c], ps_saved := (ps_saved a)(p \<mapsto> ?at)\<rparr>"
  define b where "b = (if pg_parent (bt_pages t ! p) = None then b0\<lparr>ps_head := ?at\<rparr> else b0)"
  have saves: "saves_ok (pages t) a" using ok by (simp add: dated_but_def)
  have few: "int ?n < 2 ^ 30" using copies_le [OF saves] fits(2) by simp
  have fields: "ps_saved b = (ps_saved a)(p \<mapsto> ?at)" "ps_copies b = ps_copies a @ [?c]" by (simp_all add: b_def b0_def)
  have "dated t b x" if x: "x < pages t" "x \<notin> (X \<union> {x. points_to t x p}) - {p}" for x
  proof (cases "x = p")
    case True
    with p(3) show ?thesis by (simp add: dated_def fields copy_of_other)
  next
    case False
    with x ok obtain i where i: "ps_saved a x = Some (i, 0)" "1 \<le> i" "i \<le> ?n"
      "ps_copies a ! (i - 1) = copy_of (ps_saved a) (bt_pages t ! x)"
      by (auto simp: dated_but_def dated_def)
    moreover have "\<not> points_to t x p" using x False by blast
    moreover have "i - 1 < ?n" using i(2,3) by linarith
    ultimately show ?thesis using False by (simp add: dated_def fields copy_of_other nth_append)
  qed
  moreover have "saves_ok (pages t) b"
  proof -
    have "inj_on (ps_saved b) (dom (ps_saved b))"
    proof (rule inj_onI)
      have old: "fst y \<le> ?n" if "ps_saved a x = Some y" for x y using saves that by (auto simp: saves_ok_def)
      fix x y assume xy: "x \<in> dom (ps_saved b)" "y \<in> dom (ps_saved b)" "ps_saved b x = ps_saved b y"
      show "x = y"
      proof (rule ccontr)
        assume ne: "x \<noteq> y"
        have "inj_on (ps_saved a) (dom (ps_saved a))" using saves by (simp add: saves_ok_def)
        with ne xy show False
          by (auto simp: fields inj_on_def split: if_splits) (use old in fastforce)+
      qed
    qed
    moreover have "finite (dom (ps_saved a))" using saved_dom [OF saves] finite_subset by blast
    ultimately show ?thesis using saves p(1,2) by (auto simp: saves_ok_def fields card_insert_if intro!: le_SucI)
  qed
  ultimately have "dated_but ((X \<union> {x. points_to t x p}) - {p}) t b" by (simp add: dated_but_def)
  moreover have "save_page p t a = Inr b"
    using p fits few by (simp add: save_page_def page_at_def b_def b0_def Let_def not_le)
  ultimately show ?thesis by (intro that [of b ?at]) (auto simp: b_def b0_def)
qed

section \<open>Searching the tree on disk\<close>

definition on_disk :: "page_saves \<Rightarrow> page_id \<Rightarrow> nat" where
  "on_disk a p = fst (the (ps_saved a p))"

lemma find_loop_copy:
  assumes "length (pg_pointers page) = 6" "pg_size page \<le> 5"
    and "\<And>c. Some c \<in> set (pg_pointers page) \<Longrightarrow> ps_saved a c \<noteq> None"
  shows "x + n = pg_size page \<Longrightarrow> find_loop (page_of_copy (copy_of (ps_saved a) page)) key x n =
    bindR (find_loop page key x n) (\<lambda>step. Inr (case step of Descend c \<Rightarrow> Descend (on_disk a c) | _ \<Rightarrow> step))"
proof (induction n arbitrary: x)
  have pointer: "map_option fst (address_of (ps_saved a) (pg_pointers page ! y)) = map_option (on_disk a) (pg_pointers page ! y)"
    if "y \<le> pg_size page" for y
  proof (cases "pg_pointers page ! y")
    case (Some c)
    have "y < length (pg_pointers page)" using that assms(1,2) by simp
    with Some have "Some c \<in> set (pg_pointers page)" by (metis nth_mem)
    with assms(3) obtain at where "ps_saved a c = Some at" by blast
    with Some show ?thesis by (simp add: address_of_def on_disk_def)
  qed (simp add: address_of_def)
  {
    case 0
    with pointer [of "pg_size page"] assms(1,2) show ?case
      by (simp add: page_of_copy_def copy_of_def split: option.splits)
  next
    case (Suc n)
    with pointer [of x] assms(1,2) Suc.IH [of "x + 1"] show ?case
      by (simp add: page_of_copy_def copy_of_def split: option.split)
  }
qed

definition pointers_ok :: "bptree \<Rightarrow> bool" where
  "pointers_ok t \<longleftrightarrow> (\<forall>p<pages t. elems_fit (bt_pages t ! p) \<and> (\<forall>c. points_to t p c \<longrightarrow> c < pages t))"

lemma find_loop_descend:
  "find_loop page key x n = Inr (Descend c) \<Longrightarrow> x + n = pg_size page \<Longrightarrow> \<exists>y\<le>pg_size page. pg_pointers page ! y = Some c"
proof (induction n arbitrary: x)
  case (Suc n)
  have "pg_pointers page ! x = Some c \<or> find_loop page key (x + 1) n = Inr (Descend c)"
    using Suc.prems(1) by (auto split: option.splits if_splits)
  with Suc.prems(2) Suc.IH [of "x + 1"] show ?case by (auto intro: exI [of _ x])
qed (auto split: option.splits)

lemma findIndex_disk:
  assumes dated: "dated_but {} t a" and ok: "pointers_ok t"
  shows "p < pages t \<Longrightarrow> findIndex m (disk_tree a) (on_disk a p) key =
    bindR (findIndex m t p key) (\<lambda>found. Inr (map_option (\<lambda>(q, x). (on_disk a q, x)) found))"
proof (induction m arbitrary: p)
  case (Suc m)
  let ?page = "bt_pages t ! p"
  from dated Suc.prems obtain i where i: "ps_saved a p = Some (i, 0)" "1 \<le> i" "i \<le> length (ps_copies a)"
    "ps_copies a ! (i - 1) = copy_of (ps_saved a) ?page" by (auto simp: dated_but_def dated_def)
  then have at: "page_at (disk_tree a) (on_disk a p) = Inr (page_of_copy (copy_of (ps_saved a) ?page))"
    by (cases i) (simp_all add: page_at_def disk_tree_def on_disk_def)
  have fits: "length (pg_pointers ?page) = 6" "pg_size ?page \<le> 5" and kids: "\<And>c. points_to t p c \<Longrightarrow> c < pages t"
    using ok Suc.prems by (auto simp: pointers_ok_def elems_fit_def)
  have "ps_saved a c \<noteq> None" if "Some c \<in> set (pg_pointers ?page)" for c
    using kids [of c] that dated by (auto simp: points_to_def dated_but_def dated_def)
  note loop = find_loop_copy [OF fits this, of 0 "pg_size ?page" key]
  have size: "pg_size (page_of_copy (copy_of (ps_saved a) ?page)) = pg_size ?page"
    by (simp add: page_of_copy_def copy_of_def)
  show ?case
  proof (cases "find_loop ?page key 0 (pg_size ?page)")
    case (Inr step)
    have "c < pages t" if "step = Descend c" for c
    proof -
      have "find_loop ?page key 0 (pg_size ?page) = Inr (Descend c)" using Inr that by simp
      from find_loop_descend [OF this] obtain y where "y \<le> pg_size ?page" "pg_pointers ?page ! y = Some c" by auto
      moreover from this fits have "y < length (pg_pointers ?page)" by simp
      ultimately have "points_to t p c" unfolding points_to_def by (metis nth_mem)
      then show ?thesis by (rule kids)
    qed
    with Inr at loop size Suc show ?thesis by (cases step) (simp_all add: page_at_def)
  qed (use at loop size Suc.prems in \<open>simp add: page_at_def\<close>)
qed simp

lemma findIndex_more: "findIndex m t p key = Inr found \<Longrightarrow> m \<le> n \<Longrightarrow> findIndex n t p key = Inr found"
proof (induction m arbitrary: p n)
  case (Suc m)
  then obtain n' where "n = Suc n'" "m \<le> n'" by (cases n) auto
  with Suc show ?case by (auto simp: bindR_Inr_iff split: search_step.splits)
qed simp

lemma findIndex_place: "findIndex m t p key = Inr (Some (q, x)) \<Longrightarrow> q < pages t"
proof (induction m arbitrary: p)
  case (Suc m)
  then obtain step where p: "p < pages t" and "find_loop (bt_pages t ! p) key 0 (pg_size (bt_pages t ! p)) = Inr step"
    and "(case step of Descend child \<Rightarrow> findIndex m t child key | Found x \<Rightarrow> Inr (Some (p, x)) | Missing \<Rightarrow> Inr None) = Inr (Some (q, x))"
    by (auto simp: bindR_Inr_iff page_at_def split: if_splits)
  with Suc.IH show ?case by (cases step) auto
qed simp

lemma index_find_disk:
  assumes dated: "dated_but {} t a" and ok: "pointers_ok t" "tree_ok t" and head: "ps_saved a (bt_head t) = Some (ps_head a)"
  shows "index_find (disk_tree a) key = index_find t key"
proof -
  obtain r where r: "index_find t key = Inr r" using bplus.look_returns [OF ok(2)] by blast
  then obtain found where f: "findIndex (pages t) t (bt_head t) key = Inr found"
    "r = (case found of None \<Rightarrow> None | Some place \<Rightarrow> bt_element t place)"
    by (auto simp: index_find_def bt_fuel_def bindR_Inr_iff)
  have saves: "saves_ok (pages t) a" using dated by (simp add: dated_but_def)
  have "{..<pages t} \<subseteq> dom (ps_saved a)" using dated by (fastforce simp: dated_but_def dated_def)
  with saved_dom [OF saves] have "dom (ps_saved a) = {..<pages t}" by blast
  then have n: "length (ps_copies a) = pages t" using saves by (simp add: saves_ok_def)
  have hd: "bt_head t < pages t" "on_disk a (bt_head t) = fst (ps_head a)"
    using head saves by (auto simp: saves_ok_def on_disk_def)
  from findIndex_disk [OF dated ok(1) hd(1), of "pages t" key] f(1)
  have "findIndex (pages t) (disk_tree a) (bt_head (disk_tree a)) key =
      Inr (map_option (\<lambda>(q, x). (on_disk a q, x)) found)"
    by (simp add: hd(2) disk_tree_def)
  then have "findIndex (bt_fuel (disk_tree a)) (disk_tree a) (bt_head (disk_tree a)) key =
      Inr (map_option (\<lambda>(q, x). (on_disk a q, x)) found)"
    by (rule findIndex_more) (simp add: bt_fuel_def disk_tree_def n)
  moreover have "bt_element (disk_tree a) (on_disk a q, x) = bt_element t (q, x)" if "found = Some (q, x)" for q x
  proof -
    have "q < pages t" using f(1) that by (auto dest: findIndex_place)
    then obtain i where "ps_saved a q = Some (i, 0)" "1 \<le> i" "i \<le> length (ps_copies a)"
      "ps_copies a ! (i - 1) = copy_of (ps_saved a) (bt_pages t ! q)"
      using dated by (auto simp: dated_but_def dated_def)
    then show ?thesis by (cases i) (simp_all add: bt_element_def disk_tree_def on_disk_def page_of_copy_def copy_of_def)
  qed
  ultimately show ?thesis using r f(2) by (cases found) (auto simp: index_find_def)
qed

section \<open>Additions to an index with few pages\<close>

text \<open>What the tree invariant says of the pages.\<close>

lemma tree_pages:
  assumes t: "tree_holds t I L"
  shows tree_parent: "i < pages t \<Longrightarrow> pg_parent (bt_pages t ! i) = None \<longleftrightarrow> i = bt_head t"
    and tree_pointers: "\<forall>e\<in>I \<union> L. elem_fits e \<Longrightarrow> pointers_ok t"
    and tree_points: "i < pages t \<Longrightarrow> points_to t i c \<Longrightarrow> c < pages t"
    and tree_leaf: "i < pages t \<Longrightarrow> isLeaf (bt_pages t ! i) \<Longrightarrow> pg_pointers (bt_pages t ! i) = pad 6 []"
proof -
  obtain G where G: "conc t G clean" "good G (pages t) (bt_head t)" "inner_es G (pages t) = I" "leaf_es G (pages t) = L"
    using t by (auto simp: tree_holds_def)
  note at = conc_clean [OF G(1)]
  show "i < pages t \<Longrightarrow> pg_parent (bt_pages t ! i) = None \<longleftrightarrow> i = bt_head t"
    using at [of i] goodD(7) [OF G(2), of i] by (auto simp: link_ok_def split: if_splits)
  show "i < pages t \<Longrightarrow> isLeaf (bt_pages t ! i) \<Longrightarrow> pg_pointers (bt_pages t ! i) = pad 6 []"
    using at [of i] isLeaf_mk [OF goodD(6) [OF G(2), of i]] goodD(6) [OF G(2), of i]
    by (auto simp: node_ok_def shape_ok_def Let_def)
  show points: "i < pages t \<Longrightarrow> points_to t i c \<Longrightarrow> c < pages t" for i c
  proof -
    assume i: "i < pages t" "points_to t i c"
    note B = goodD(6) [OF G(2) i(1)]
    have c: "c \<in> set (n_cs (G i))" using i(2) by (auto simp: points_to_def at [OF i(1)] pad_def split: if_splits)
    then have "0 < n_level (G i)" using B by (cases "n_level (G i)") (auto simp: node_ok_def shape_ok_def Let_def)
    with body_kid(2) [OF B _ c] show "c < pages t" by simp
  qed
  show "pointers_ok t" if fits: "\<forall>e\<in>I \<union> L. elem_fits e"
    unfolding pointers_ok_def
  proof (intro allI impI conjI)
    fix p assume p: "p < pages t"
    note B = goodD(6) [OF G(2) p]
    have len: "length (n_es (G p)) \<le> 5" using body_short [OF B] .
    have kids: "length (n_cs (G p)) \<le> 6"
      using len length_kids [OF B] B by (cases "n_level (G p)") (auto simp: node_ok_def shape_ok_def Let_def)
    have "elem_fits e" if "Some e \<in> set (pad 5 (n_es (G p)))" for e
    proof -
      have "e \<in> set (n_es (G p))" using that by (auto simp: pad_def split: if_splits)
      then have "e \<in> I \<union> L" unfolding G(3,4) [symmetric] Un_iff in_inner in_leaf using p by (cases "n_level (G p)") auto
      with fits show ?thesis by blast
    qed
    with len kids show "elems_fit (bt_pages t ! p)" by (auto simp: at [OF p] elems_fit_def list_all_iff split: option.split)
    show "c < pages t" if "points_to t p c" for c using points [OF p that] .
  qed
qed

lemma tree_sizes: "tree_holds t I L \<Longrightarrow> i < pages t \<Longrightarrow> pg_size (bt_pages t ! i) \<le> 5"
  by (auto simp: tree_holds_def conc_clean dest: body_short [OF goodD(6)])

lemma tree_parent_page:
  assumes "tree_holds t I L" "i < pages t" "pg_parent (bt_pages t ! i) = Some q"
  shows "q < pages t" "q \<noteq> i" "\<not> isLeaf (bt_pages t ! q)"
proof -
  obtain G where G: "conc t G clean" "good G (pages t) (bt_head t)" using assms(1) by (auto simp: tree_holds_def)
  have "n_par (G i) = Some q" using assms(3) conc_clean [OF G(1) assms(2)] by simp
  then have q: "q < pages t" "i \<in> set (n_cs (G q))"
    using goodD(7) [OF G(2) assms(2)] by (auto simp: link_ok_def split: if_splits)
  from child_level [OF G(2) q] isLeaf_mk [OF goodD(6) [OF G(2) q(1)]] conc_clean [OF G(1) q(1)] q(1)
  show "q < pages t" "q \<noteq> i" "\<not> isLeaf (bt_pages t ! q)" by auto
qed

text \<open>The leaf that findIndexPage gives.\<close>

lemma tree_find_page:
  assumes "tree_holds t I L"
  obtains p where "findIndexPage (bt_fuel t) t (bt_head t) key = Inr p" "p < pages t" "isLeaf (bt_pages t ! p)"
proof -
  obtain G where G: "conc t G clean" "good G (pages t) (bt_head t)" using assms by (auto simp: tree_holds_def)
  from findIndexPage_spec [OF G(2,1) refl goodD(1) [OF G(2)] root_within [OF G(2)] goodD(4) [OF G(2)]] obtain p where
    "findIndexPage (pages t) t (bt_head t) key = Inr p" "p < pages t" "n_level (G p) = 0" by blast
  with isLeaf_mk [OF goodD(6) [OF G(2), of p]] conc_clean [OF G(1), of p] show ?thesis
    by (intro that [of p]) (simp_all add: bt_fuel_def)
qed

lemma tree_add_leaf:
  assumes "tree_holds t I L" "p < pages t" "isLeaf (bt_pages t ! p)" "\<not> isFull (bt_pages t ! p)"
  shows "pages (add_to_page p e None t) = pages t" "bt_head (add_to_page p e None t) = bt_head t"
    "i \<noteq> p \<Longrightarrow> bt_pages (add_to_page p e None t) ! i = bt_pages t ! i"
    "pg_pointers (bt_pages (add_to_page p e None t) ! p) = pad 6 []"
    "pg_size (bt_pages (add_to_page p e None t) ! p) = Suc (pg_size (bt_pages t ! p))"
    "pg_parent (bt_pages (add_to_page p e None t) ! p) = pg_parent (bt_pages t ! p)"
proof -
  obtain G where G: "conc t G clean" "good G (pages t) (bt_head t)" using assms(1) by (auto simp: tree_holds_def)
  note B = goodD(6) [OF G(2) assms(2)] and at = conc_clean [OF G(1) assms(2)]
  have zero: "n_level (G p) = 0" using assms(3) isLeaf_mk [OF B] at by simp
  then have cs: "n_cs (G p) = []" using B by (simp add: node_ok_def shape_ok_def Let_def)
  have len: "length (n_es (G p)) < 5" using assms(4) at by (simp add: isFull_def)
  note u = add_leaf_conc [OF G(1) assms(2) refl len cs, of e]
  from u(2,3) show "pages (add_to_page p e None t) = pages t" "bt_head (add_to_page p e None t) = bt_head t" by simp_all
  from conc_clean [OF u(1), of p] u(2) assms(2) at cs
  show "pg_pointers (bt_pages (add_to_page p e None t) ! p) = pad 6 []"
    "pg_size (bt_pages (add_to_page p e None t) ! p) = Suc (pg_size (bt_pages t ! p))"
    "pg_parent (bt_pages (add_to_page p e None t) ! p) = pg_parent (bt_pages t ! p)"
    by (simp_all add: put_leaf_def)
  show "i \<noteq> p \<Longrightarrow> bt_pages (add_to_page p e None t) ! i = bt_pages t ! i"
    by (simp add: add_to_page_def Let_def set_page_at)
qed

lemma tree_split_leaf:
  assumes "tree_holds t I L" "p < pages t" "isLeaf (bt_pages t ! p)" "isFull (bt_pages t ! p)"
  obtains u where "split_leaf p e t = (pages t, u)" "pages u = Suc (pages t)" "bt_head u = bt_head t"
    "\<And>i. i < pages t \<Longrightarrow> i \<noteq> p \<Longrightarrow> bt_pages u ! i = bt_pages t ! i"
    "pg_pointers (bt_pages u ! p) = pad 6 []" "pg_size (bt_pages u ! p) = 3"
    "pg_parent (bt_pages u ! p) = pg_parent (bt_pages t ! p)"
    "pg_pointers (bt_pages u ! pages t) = pad 6 []" "pg_size (bt_pages u ! pages t) = 3"
    "pg_size (bt_pages t ! p) = 5"
proof -
  obtain G where G: "conc t G clean" "good G (pages t) (bt_head t)" using assms(1) by (auto simp: tree_holds_def)
  note B = goodD(6) [OF G(2) assms(2)] and at = conc_clean [OF G(1) assms(2)]
  have zero: "n_level (G p) = 0" using assms(3) isLeaf_mk [OF B] at by simp
  then have cs: "n_cs (G p) = []" using B by (simp add: node_ok_def shape_ok_def Let_def)
  have len: "length (n_es (G p)) = 5" using assms(4) at body_short [OF B] by (simp add: isFull_def)
  obtain u where u: "split_leaf p e t = (pages t, u)" "conc u (split_ghost p (pages t) (put_leaf p e G)) clean"
    "pages u = Suc (pages t)" "bt_head u = bt_head t"
    using split_leaf_conc [OF G(1) assms(2) refl len cs zero refl, of e] by blast
  have ghost: "split_ghost p (pages t) (put_leaf p e G) = G(p := split_left (put_leaf p e G p), pages t := split_right (put_leaf p e G p))"
    using cs by (auto simp: split_ghost_def put_leaf_def)
  have pg: "bt_pages u ! i = mk (split_ghost p (pages t) (put_leaf p e G) i)" if "i < Suc (pages t)" for i
    using conc_clean [OF u(2), of i] u(3) that by simp
  show ?thesis
  proof (rule that [OF u(1,3,4)])
    show "bt_pages u ! i = bt_pages t ! i" if "i < pages t" "i \<noteq> p" for i
      using pg [of i, unfolded ghost] that conc_clean [OF G(1), of i] by simp
  qed (use pg [of p, unfolded ghost] pg [of "pages t", unfolded ghost] assms(2) cs len zero at in
      \<open>simp_all add: split_left_def split_right_def put_leaf_def\<close>)
qed

definition head_saved :: "bptree \<Rightarrow> page_saves \<Rightarrow> bool" where
  "head_saved t a \<longleftrightarrow> ps_saved a (bt_head t) = Some (ps_head a)"

lemma dated_less: "dated_but X t a \<Longrightarrow> (\<And>x. x \<in> X \<Longrightarrow> x < pages t \<Longrightarrow> x \<in> Y) \<Longrightarrow> dated_but Y t a"
  by (auto simp: dated_but_def)

lemma dated_saved: "dated_but X t a \<Longrightarrow> p < pages t \<Longrightarrow> p \<notin> X \<Longrightarrow> \<exists>at. ps_saved a p = Some at"
  by (auto simp: dated_but_def dated_def)

lemma dated_unsaved: "dated_but X t a \<Longrightarrow> pages t \<le> p \<Longrightarrow> ps_saved a p = None"
  by (metis dated_but_def saves_ok_def not_le option.exhaust)

text \<open>The leaf has room.\<close>

lemma add_leaf_saved:
  assumes t: "tree_holds t I L" and p: "p < pages t" "isLeaf (bt_pages t ! p)" "\<not> isFull (bt_pages t ! p)"
    and a: "dated_but {} t a" "head_saved t a" and u: "u = add_to_page p e None t" "pointers_ok u" "pages u < 2 ^ 30"
  shows "\<exists>b. save_page p u a = Inr b \<and> dated_but {} u b \<and> head_saved u b"
proof -
  note add = tree_add_leaf [OF t p, where e = e, folded u(1)]
  have "dated_but ({} \<union> {p} \<union> {pages t..<pages u}) u a"
    using add by (intro dated_change [OF a(1)]) (auto simp: cont_fields)
  then have 1: "dated_but {p} u a" using add(1) by (auto elim: dated_less)
  obtain at where at: "ps_saved a p = Some at" using dated_saved [OF a(1) p(1)] by auto
  have pu: "p < pages u" "elems_fit (bt_pages u ! p)" using p(1) add(1) u(2) by (auto simp: pointers_ok_def)
  from save_old [OF 1 pu(1) at pu(2) u(3)] obtain b where b: "save_page p u a = Inr b" "dated_but ({p} - {p}) u b"
    "ps_saved b = ps_saved a" "ps_head b = (if pg_parent (bt_pages u ! p) = None then at else ps_head a)" .
  have "pg_parent (bt_pages u ! p) = None \<longleftrightarrow> p = bt_head u" using add(2,6) tree_parent [OF t p(1)] by simp
  with b at a(2) add(2) have "head_saved u b" by (auto simp: head_saved_def)
  with b show ?thesis by auto
qed

text \<open>A leaf that is the whole tree is split.\<close>

lemma refresh_parents:
  "pg_parent (bt_pages (refresh_parent p t) ! i) \<in> {Some p, pg_parent (bt_pages t ! i)}"
proof -
  have "pg_parent (bt_pages (fold (\<lambda>pointer t. case pointer of None \<Rightarrow> t | Some child \<Rightarrow> set_parent (Some p) child t) ps t) ! i)
      \<in> {Some p, pg_parent (bt_pages t ! i)}" for ps
  proof (induction ps arbitrary: t)
    case (Cons c ps)
    show ?case
    proof (cases c)
      case (Some x)
      have "pg_parent (bt_pages (set_parent (Some p) x t) ! i) \<in> {Some p, pg_parent (bt_pages t ! i)}"
        by (simp add: set_parent_def set_page_at)
      with Cons [of "set_parent (Some p) x t"] Some show ?thesis by auto
    qed (use Cons in simp)
  qed simp
  then show ?thesis by (simp add: refresh_parent_def)
qed

lemma createRoot_pages:
  assumes "left < pages t" "right < pages t"
  shows "pages (createRoot e left right t) = Suc (pages t)" "bt_head (createRoot e left right t) = pages t"
    "i < pages t \<Longrightarrow> cont (createRoot e left right t) i = cont t i"
    "pg_pointers (bt_pages (createRoot e left right t) ! pages t) = [Some left, Some right, None, None, None, None]"
    "pg_size (bt_pages (createRoot e left right t) ! pages t) = 1"
    "pg_parent (bt_pages (createRoot e left right t) ! left) = Some (pages t)"
    "pg_parent (bt_pages (createRoot e left right t) ! right) = Some (pages t)"
  using assms by (auto simp: createRoot_def alloc_page_def cont_fields set_parent_def set_page_at nth_append new_page_def
      numeral_eq_Suc)

lemma add_root_saved:
  assumes t: "tree_holds t I L" and p: "p < pages t" "isLeaf (bt_pages t ! p)" "isFull (bt_pages t ! p)" "p = bt_head t"
    and a: "dated_but {} t a" "head_saved t a" and add: "addElement (Suc n) p e None t = Inr u"
    and u: "tree_holds u J K" "pointers_ok u" "pages t < 2 ^ 29"
  shows "\<exists>b. addElement_p save_page (Suc n) p e None (t, a) = Inr (u, b) \<and> dated_but {} u b \<and> head_saved u b"
    and "pages u = Suc (Suc (pages t))" "bt_head u = Suc (pages t)" "\<And>i. i < pages t \<Longrightarrow> i \<noteq> p \<Longrightarrow> cont u i = cont t i"
    and "pg_pointers (bt_pages u ! p) = pad 6 []" "pg_size (bt_pages u ! p) = 3"
      "pg_pointers (bt_pages u ! pages t) = pad 6 []" "pg_size (bt_pages u ! pages t) = 3" "pg_size (bt_pages t ! p) = 5"
      "pg_parent (bt_pages u ! p) = Some (Suc (pages t))"
proof -
  let ?r = "pages t" and ?h = "Suc (pages t)"
  obtain u1 where u1: "split_leaf p e t = (?r, u1)" "pages u1 = ?h" "bt_head u1 = bt_head t"
    "\<And>i. i < pages t \<Longrightarrow> i \<noteq> p \<Longrightarrow> bt_pages u1 ! i = bt_pages t ! i"
    "pg_pointers (bt_pages u1 ! p) = pad 6 []" "pg_size (bt_pages u1 ! p) = 3"
    "pg_parent (bt_pages u1 ! p) = pg_parent (bt_pages t ! p)"
    "pg_pointers (bt_pages u1 ! ?r) = pad 6 []" "pg_size (bt_pages u1 ! ?r) = 3" "pg_size (bt_pages t ! p) = 5"
    using tree_split_leaf [OF t p(1-3), of e] by blast
  have root: "pg_parent (bt_pages t ! p) = None" using tree_parent [OF t p(1)] p(4) by simp
  from add p(1-3) u1(1,7) root obtain el where el: "pg_elements (bt_pages u1 ! ?r) ! 0 = Some el"
    and "refresh_parent_of ?r (createRoot el p ?r u1) = Inr u"
    by (auto simp: page_at_def promote_def bindR_Inr_iff split: option.splits)
  define t2 where "t2 = createRoot el p ?r u1"
  have ref: "refresh_parent_of ?r t2 = Inr u" unfolding t2_def by fact
  have pr: "p < pages u1" "?r < pages u1" using p(1) u1(2) by simp_all
  note t2 = createRoot_pages [OF pr, where e = el, folded t2_def, unfolded u1(2)]
  have same: "same_content t2 u" using ref by (rule same_content_refresh_of)
  then have pgs: "pages u = Suc ?h" "bt_head u = ?h" using t2(1,2) by (simp_all add: same_content_def)
  have few: "pages u < 2 ^ 30" using u(3) pgs(1) by simp
  have cont1: "cont u i = cont u1 i" if "i < ?h" for i using same t2(3) [OF that] by (simp add: same_content_def)
  have cont0: "cont u i = cont t i" if "i < pages t" "i \<noteq> p" for i
    using cont1 [of i] u1(4) [OF that] that by (simp add: cont_fields)
  have "u = refresh_parent ?h t2" using ref t2(7) by (simp add: refresh_parent_of_def)
  then have par: "pg_parent (bt_pages u ! p) = Some ?h"
    using refresh_parents [of ?h t2 p] t2(6) by simp
  have hp: "pg_pointers (bt_pages u ! ?h) = [Some p, Some ?r, None, None, None, None]"
    using same t2(4) by (simp add: same_content_def cont_fields)
  show "pages u = Suc ?h" "bt_head u = ?h" "pg_parent (bt_pages u ! p) = Some ?h" by fact+
  show "cont u i = cont t i" if "i < pages t" "i \<noteq> p" for i using cont0 [OF that] .
  show ptrs: "pg_pointers (bt_pages u ! p) = pad 6 []" "pg_pointers (bt_pages u ! ?r) = pad 6 []"
    and "pg_size (bt_pages u ! p) = 3" "pg_size (bt_pages u ! ?r) = 3" "pg_size (bt_pages t ! p) = 5"
    using cont1 [of p] cont1 [of ?r] u1 p(1) by (simp_all add: cont_fields)
  have fit: "elems_fit (bt_pages u ! i)" if "i < pages u" for i using u(2) that by (simp add: pointers_ok_def)
  have old: "\<not> points_to u x c" if "x < ?h" "?r \<le> c" for x c
  proof (cases "x = p \<or> x = ?r")
    case True
    with ptrs show ?thesis by (auto simp: points_to_def pad_def)
  next
    case False
    with that have x: "x < pages t" "x \<noteq> p" by auto
    with tree_points [OF t x(1), of c] that cont0 [OF x] show ?thesis by (auto simp: points_to_def cont_fields)
  qed
  have "dated_but ({} \<union> {p} \<union> {pages t..<pages u}) u a"
    using cont0 pgs by (intro dated_change [OF a(1)]) auto
  then have 1: "dated_but {p, ?r, ?h} u a" using pgs by (auto elim: dated_less)
  obtain at where at: "ps_saved a p = Some at" using dated_saved [OF a(1) p(1)] by auto
  have new: "ps_saved a ?r = None" "ps_saved a ?h = None" using dated_unsaved [OF a(1)] by simp_all
  have lt: "p < pages u" "?r < pages u" "?h < pages u" using p(1) pgs by simp_all
  from save_old [OF 1 lt(1) at fit [OF lt(1)] few] obtain b1 where b1: "save_page p u a = Inr b1"
    "dated_but ({p, ?r, ?h} - {p}) u b1" "ps_saved b1 = ps_saved a" .
  have 2: "dated_but {?r, ?h} u b1" using b1(2) by (rule dated_less) auto
  have "ps_saved b1 ?r = None" using new(1) b1(3) by simp
  moreover have "\<not> points_to u ?r ?r" using old [of ?r ?r] by simp
  ultimately obtain b2 at2 where
    b2: "save_page ?r u b1 = Inr b2" "dated_but (({?r, ?h} \<union> {x. points_to u x ?r}) - {?r}) u b2"
    "ps_saved b2 = (ps_saved b1)(?r \<mapsto> at2)"
    "ps_head b2 = (if pg_parent (bt_pages u ! ?r) = None then at2 else ps_head b1)"
    by (rule save_new [OF 2 lt(2) _ _ fit [OF lt(2)] few])
  have 3: "dated_but {?h} u b2" using b2(2)
  proof (rule dated_less)
    fix x assume "x \<in> ({?r, ?h} \<union> {x. points_to u x ?r}) - {?r}" "x < pages u"
    with old [of x ?r] pgs show "x \<in> {?h}" by (cases "x < ?h") auto
  qed
  have "ps_saved b2 ?h = None" using new(2) by (simp add: b1(3) b2(3))
  moreover have noh: "\<not> points_to u ?h ?h" using hp p(1) by (simp add: points_to_def)
  ultimately obtain b3 at3 where b3: "save_page ?h u b2 = Inr b3" "dated_but (({?h} \<union> {x. points_to u x ?h}) - {?h}) u b3"
    "ps_saved b3 = (ps_saved b2)(?h \<mapsto> at3)" "ps_head b3 = (if pg_parent (bt_pages u ! ?h) = None then at3 else ps_head b2)"
    by (rule save_new [OF 3 lt(3) _ _ fit [OF lt(3)] few])
  have "dated_but {} u b3" using b3(2)
  proof (rule dated_less)
    fix x assume "x \<in> ({?h} \<union> {x. points_to u x ?h}) - {?h}" "x < pages u"
    with old [of x ?h] pgs show "x \<in> {}" by (cases "x < ?h") auto
  qed
  moreover have "head_saved u b3" using b3(3,4) tree_parent [OF u(1) lt(3)] pgs(2) by (simp add: head_saved_def)
  moreover have "addElement_p save_page (Suc n) p e None (t, a) = Inr (u, b3)"
    using p(1-3) u1(1,7) root el ref b1(1) b2(1) b3(1) par
    by (simp add: page_at_def promote_p_def persist_split_def t2_def [symmetric])
  ultimately show "\<exists>b. addElement_p save_page (Suc n) p e None (t, a) = Inr (u, b) \<and> dated_but {} u b \<and> head_saved u b"
    by blast
qed

text \<open>A leaf is split and its parent has room.\<close>

lemma add_to_parent:
  assumes "q < pages t" "r < pages t" "q \<noteq> r"
  shows "pages (add_to_page q e (Some r) t) = pages t" "bt_head (add_to_page q e (Some r) t) = bt_head t"
    "i \<noteq> q \<Longrightarrow> cont (add_to_page q e (Some r) t) i = cont t i"
    "pg_size (bt_pages (add_to_page q e (Some r) t) ! q) = Suc (pg_size (bt_pages t ! q))"
    "i \<noteq> r \<Longrightarrow> pg_parent (bt_pages (add_to_page q e (Some r) t) ! i) = pg_parent (bt_pages t ! i)"
    "pg_parent (bt_pages (add_to_page q e (Some r) t) ! r) = Some q"
  using assms by (auto simp: add_to_page_def Let_def cont_fields set_parent_def set_page_at)

lemma add_parent_saved:
  assumes t: "tree_holds t I L" and p: "p < pages t" "isLeaf (bt_pages t ! p)" "isFull (bt_pages t ! p)"
    and q: "pg_parent (bt_pages t ! p) = Some q" "q < pages t" "q \<noteq> p" "\<not> isFull (bt_pages t ! q)"
    and a: "dated_but {} t a" "head_saved t a" and add: "addElement (Suc (Suc n)) p e None t = Inr u"
    and u: "tree_holds u J K" "pointers_ok u" "pages t < 2 ^ 29"
  shows "\<exists>b. addElement_p save_page (Suc (Suc n)) p e None (t, a) = Inr (u, b) \<and> dated_but {} u b \<and> head_saved u b"
    and "pages u = Suc (pages t)" "bt_head u = bt_head t" "\<And>i. i < pages t \<Longrightarrow> i \<notin> {p, q} \<Longrightarrow> cont u i = cont t i"
    and "pg_pointers (bt_pages u ! p) = pad 6 []" "pg_size (bt_pages u ! p) = 3"
      "pg_pointers (bt_pages u ! pages t) = pad 6 []" "pg_size (bt_pages u ! pages t) = 3" "pg_size (bt_pages t ! p) = 5"
      "pg_parent (bt_pages u ! p) = Some q"
proof -
  let ?r = "pages t"
  obtain u1 where u1: "split_leaf p e t = (?r, u1)" "pages u1 = Suc ?r" "bt_head u1 = bt_head t"
    "\<And>i. i < pages t \<Longrightarrow> i \<noteq> p \<Longrightarrow> bt_pages u1 ! i = bt_pages t ! i"
    "pg_pointers (bt_pages u1 ! p) = pad 6 []" "pg_size (bt_pages u1 ! p) = 3"
    "pg_parent (bt_pages u1 ! p) = pg_parent (bt_pages t ! p)"
    "pg_pointers (bt_pages u1 ! ?r) = pad 6 []" "pg_size (bt_pages u1 ! ?r) = 3" "pg_size (bt_pages t ! p) = 5"
    using tree_split_leaf [OF t p(1-3), of e] by blast
  have q1: "bt_pages u1 ! q = bt_pages t ! q" using u1(4) q(2,3) .
  from add p(1-3) u1(1,2,7) q q1 obtain el where el: "pg_elements (bt_pages u1 ! ?r) ! 0 = Some el"
    and "refresh_parent_of ?r (add_to_page q el (Some ?r) u1) = Inr u"
    by (auto simp: page_at_def promote_def bindR_Inr_iff split: option.splits)
  define t2 where "t2 = add_to_page q el (Some ?r) u1"
  have ref: "refresh_parent_of ?r t2 = Inr u" unfolding t2_def by fact
  have "q < pages u1" "?r < pages u1" "q \<noteq> ?r" using q(2) u1(2) by simp_all
  note t2 = add_to_parent [OF this, where e = el, folded t2_def]
  have same: "same_content t2 u" using ref by (rule same_content_refresh_of)
  have pgs: "pages t2 = Suc ?r" "pages u = Suc ?r" "bt_head u = bt_head t"
    using t2(1,2) u1(2,3) same by (simp_all add: same_content_def)
  have few: "pages u < 2 ^ 30" using u(3) pgs(2) by simp
  have cont2: "cont u i = cont t2 i" for i using same by (simp add: same_content_def)
  have cont1: "cont u i = cont u1 i" if "i \<noteq> q" for i using cont2 t2(3) [OF that] by simp
  have cont0: "cont u i = cont t i" if "i < pages t" "i \<noteq> p" "i \<noteq> q" for i
    using cont1 [of i] u1(4) [of i] that by (simp add: cont_fields)
  have "u = refresh_parent q t2" using ref t2(6) by (simp add: refresh_parent_of_def)
  moreover have "pg_parent (bt_pages t2 ! p) = Some q" using t2(5) [of p] p(1) u1(7) q(1) by simp
  ultimately have par: "pg_parent (bt_pages u ! p) = Some q" using refresh_parents [of q t2 p] by simp
  show "pages u = Suc ?r" "bt_head u = bt_head t" "pg_parent (bt_pages u ! p) = Some q" by fact+
  show "cont u i = cont t i" if "i < pages t" "i \<notin> {p, q}" for i using cont0 that by blast
  show ptrs: "pg_pointers (bt_pages u ! p) = pad 6 []" "pg_pointers (bt_pages u ! ?r) = pad 6 []"
    and "pg_size (bt_pages u ! p) = 3" "pg_size (bt_pages u ! ?r) = 3" "pg_size (bt_pages t ! p) = 5"
    using cont1 [of p] cont1 [of ?r] u1 p(1) q(2,3) by (simp_all add: cont_fields)
  have fit: "elems_fit (bt_pages u ! i)" if "i < pages u" for i using u(2) that by (simp add: pointers_ok_def)
  have "elems_fit (bt_pages t2 ! q)" using fit [of q] cont2 [of q] q(2) pgs by (simp add: elems_fit_def cont_fields)
  note fit2 = this
  have old: "\<not> points_to u x c" if "x < Suc ?r" "x \<noteq> q" "?r \<le> c" for x c
  proof (cases "x = p \<or> x = ?r")
    case True
    with ptrs show ?thesis by (auto simp: points_to_def pad_def)
  next
    case False
    with that have x: "x < pages t" "x \<noteq> p" "x \<noteq> q" by auto
    with tree_points [OF t x(1), of c] that cont0 [OF x] show ?thesis by (auto simp: points_to_def cont_fields)
  qed
  have "dated_but ({} \<union> {p, q} \<union> {pages t..<pages t2}) t2 a"
    using cont0 cont2 pgs by (intro dated_change [OF a(1)]) auto
  then have 1: "dated_but {p, q, ?r} t2 a" using pgs by (auto elim: dated_less)
  obtain at atp where at: "ps_saved a q = Some at" "ps_saved a p = Some atp"
    using dated_saved [OF a(1) q(2)] dated_saved [OF a(1) p(1)] by auto
  have new: "ps_saved a ?r = None" using dated_unsaved [OF a(1)] by simp
  have lt: "p < pages u" "?r < pages u" "q < pages u" "q < pages t2" "pages t2 < 2 ^ 30" using p(1) q(2) pgs few by simp_all
  from save_old [OF 1 lt(4) at(1) fit2 lt(5)] obtain b1 where b1: "save_page q t2 a = Inr b1"
    "dated_but ({p, q, ?r} - {q}) t2 b1" "ps_saved b1 = ps_saved a"
    "ps_head b1 = (if pg_parent (bt_pages t2 ! q) = None then at else ps_head a)" .
  have "dated_but (({p, q, ?r} - {q}) \<union> {} \<union> {pages t2..<pages u}) u b1"
    using cont2 pgs by (intro dated_change [OF b1(2)]) auto
  then have 2: "dated_but {p, ?r} u b1" using pgs by (auto elim: dated_less)
  have "ps_saved b1 p = Some atp" using at(2) b1(3) by simp
  from save_old [OF 2 lt(1) this fit [OF lt(1)] few] obtain b2 where b2: "save_page p u b1 = Inr b2"
    "dated_but ({p, ?r} - {p}) u b2" "ps_saved b2 = ps_saved b1" "ps_head b2 = (if pg_parent (bt_pages u ! p) = None then atp else ps_head b1)" .
  have 3: "dated_but {?r} u b2" using b2(2) by (rule dated_less) auto
  have "ps_saved b2 ?r = None" using new by (simp add: b1(3) b2(3))
  moreover have "\<not> points_to u ?r ?r" using old [of ?r ?r] q(2) by simp
  ultimately obtain b3 at3 where b3: "save_page ?r u b2 = Inr b3" "dated_but (({?r} \<union> {x. points_to u x ?r}) - {?r}) u b3"
    "ps_saved b3 = (ps_saved b2)(?r \<mapsto> at3)" "ps_head b3 = (if pg_parent (bt_pages u ! ?r) = None then at3 else ps_head b2)"
    by (rule save_new [OF 3 lt(2) _ _ fit [OF lt(2)] few])
  have 4: "dated_but {q} u b3" using b3(2)
  proof (rule dated_less)
    fix x assume "x \<in> ({?r} \<union> {x. points_to u x ?r}) - {?r}" "x < pages u"
    with old [of x ?r] pgs show "x \<in> {q}" by (cases "x < ?r") auto
  qed
  have "ps_saved b3 q = Some at" using at(1) q(2) by (simp add: b1(3) b2(3) b3(3))
  from save_old [OF 4 lt(3) this fit [OF lt(3)] few] obtain b4 where b4: "save_page q u b3 = Inr b4"
    "dated_but ({q} - {q}) u b4" "ps_saved b4 = ps_saved b3" "ps_head b4 = (if pg_parent (bt_pages u ! q) = None then at else ps_head b3)" .
  have "head_saved u b4"
  proof -
    have hd: "bt_head t < pages t" using a(2) saved_dom [of "pages t" a] a(1) by (auto simp: head_saved_def dated_but_def)
    have heads: "pg_parent (bt_pages u ! i) = None \<longleftrightarrow> i = bt_head t" if "i < pages u" for i
      using tree_parent [OF u(1) that] pgs(3) by simp
    have "pg_parent (bt_pages t2 ! q) = None \<longleftrightarrow> q = bt_head t"
      using t2(5) [of q] q(2) q1 tree_parent [OF t q(2)] by simp
    with heads [OF lt(1)] heads [OF lt(2)] heads [OF lt(3)] par hd a(2) at(1) pgs(3)
    show ?thesis by (auto simp: head_saved_def b1(3,4) b2(3,4) b3(3,4) b4(3,4))
  qed
  moreover have "addElement_p save_page (Suc (Suc n)) p e None (t, a) = Inr (u, b4)"
    using p(1-3) u1(1,2,7) q q1 el ref b1(1) b2(1) b3(1) b4(1) par
    by (simp add: page_at_def promote_p_def persist_split_def t2_def [symmetric])
  ultimately show "\<exists>b. addElement_p save_page (Suc (Suc n)) p e None (t, a) = Inr (u, b) \<and> dated_but {} u b \<and> head_saved u b"
    using b4(2) by auto
qed

text \<open>
  A tree of two levels: every page but the head is a leaf with three elements or more. The leaves hold n
  elements.
\<close>

definition leaf_pages :: "bptree \<Rightarrow> page_id set" where
  "leaf_pages t = {i. i < pages t \<and> isLeaf (bt_pages t ! i)}"

definition two_levels :: "bptree \<Rightarrow> nat \<Rightarrow> bool" where
  "two_levels t n \<longleftrightarrow> (\<forall>i<pages t. i \<noteq> bt_head t \<longrightarrow> isLeaf (bt_pages t ! i) \<and> 3 \<le> pg_size (bt_pages t ! i)) \<and>
     (\<Sum>i\<in>leaf_pages t. pg_size (bt_pages t ! i)) = n"

lemma isLeaf_cont: "cont u i = cont t i \<Longrightarrow> isLeaf (bt_pages u ! i) = isLeaf (bt_pages t ! i)"
  by (simp add: isLeaf_def cont_fields)

lemma isLeaf_empty: "pg_pointers page = pad 6 [] \<Longrightarrow> pg_size page \<le> 5 \<Longrightarrow> isLeaf page"
  by (auto simp: isLeaf_def pad_def)

lemma two_levels_full:
  assumes t: "tree_holds t I L" "two_levels t n" and p: "p < pages t" "pg_size (bt_pages t ! p) = 5"
    and q: "pg_parent (bt_pages t ! p) = Some q" "isFull (bt_pages t ! q)"
  shows "20 \<le> n"
proof -
  obtain G where G: "conc t G clean" "good G (pages t) (bt_head t)" using t(1) by (auto simp: tree_holds_def)
  note at = conc_clean [OF G(1)]
  have par: "n_par (G p) = Some q" using q(1) at [OF p(1)] by simp
  then have qp: "q < pages t" "p \<in> set (n_cs (G q))"
    using goodD(7) [OF G(2) p(1)] by (auto simp: link_ok_def split: if_splits)
  note B = goodD(6) [OF G(2) qp(1)] and lev = child_level(2) [OF G(2) qp]
  have len: "length (n_es (G q)) = 5" using q(2) at [OF qp(1)] body_short [OF B] by (simp add: isFull_def)
  let ?C = "set (n_cs (G q))"
  have "distinct (n_cs (G q))" using B by (intro shape_distinct [of G "pages t"]) (simp add: node_ok_def)
  then have six: "card ?C = 6" using length_kids [OF B lev] len by (simp add: distinct_card)
  have kid: "c \<in> leaf_pages t \<and> 3 \<le> pg_size (bt_pages t ! c)" if "c \<in> ?C" for c
  proof -
    note c = body_kid(2,3) [OF B lev that]
    have "c \<noteq> bt_head t" using c(2) goodD(7) [OF G(2) c(1)] by (auto simp: link_ok_def)
    with t(2) c(1) show ?thesis by (simp add: two_levels_def leaf_pages_def)
  qed
  have "20 \<le> pg_size (bt_pages t ! p) + (\<Sum>i\<in>?C - {p}. 3)" using six qp(2) p(2) by simp
  also have "\<dots> \<le> pg_size (bt_pages t ! p) + (\<Sum>i\<in>?C - {p}. pg_size (bt_pages t ! i))"
    using kid by (intro add_left_mono sum_mono) auto
  also have "\<dots> = (\<Sum>i\<in>?C. pg_size (bt_pages t ! i))" using qp(2) by (simp add: sum.remove)
  also have "\<dots> \<le> (\<Sum>i\<in>leaf_pages t. pg_size (bt_pages t ! i))"
    using kid by (intro sum_mono2) (auto simp: leaf_pages_def)
  finally show ?thesis using t(2) by (simp add: two_levels_def)
qed

text \<open>What a change of one leaf does to the sum over the leaves.\<close>

lemma sum_leaves:
  assumes "leaf_pages u = leaf_pages t \<union> N" "finite N" "N \<inter> leaf_pages t = {}" "p \<in> leaf_pages t"
    and "\<And>i. i \<in> leaf_pages t \<Longrightarrow> i \<noteq> p \<Longrightarrow> pg_size (bt_pages u ! i) = pg_size (bt_pages t ! i)"
    and "pg_size (bt_pages u ! p) + (\<Sum>i\<in>N. pg_size (bt_pages u ! i)) = Suc (pg_size (bt_pages t ! p))"
  shows "(\<Sum>i\<in>leaf_pages u. pg_size (bt_pages u ! i)) = Suc (\<Sum>i\<in>leaf_pages t. pg_size (bt_pages t ! i))"
proof -
  have fin: "finite (leaf_pages t)" by (simp add: leaf_pages_def)
  have "(\<Sum>i\<in>leaf_pages u. pg_size (bt_pages u ! i)) =
      (\<Sum>i\<in>leaf_pages t. pg_size (bt_pages u ! i)) + (\<Sum>i\<in>N. pg_size (bt_pages u ! i))"
    unfolding assms(1) using fin assms(2,3) by (intro sum.union_disjoint) auto
  also have "(\<Sum>i\<in>leaf_pages t. pg_size (bt_pages u ! i)) =
      pg_size (bt_pages u ! p) + (\<Sum>i\<in>leaf_pages t - {p}. pg_size (bt_pages t ! i))"
    using fin assms(4,5) by (simp add: sum.remove)
  finally show ?thesis using assms(6) sum.remove [OF fin assms(4), of "\<lambda>i. pg_size (bt_pages t ! i)"] by simp
qed

text \<open>One addition to an index with less than 20 elements.\<close>

definition index_saved :: "nat \<Rightarrow> index_elem set \<Rightarrow> bptree \<Rightarrow> page_saves \<Rightarrow> bool" where
  "index_saved n L t a \<longleftrightarrow> (\<exists>I. tree_holds t I L \<and> I \<subseteq> L) \<and> (\<forall>e\<in>L. elem_fits e) \<and>
     two_levels t n \<and> dated_but {} t a \<and> head_saved t a"

lemma two_levels_pages: "two_levels t n \<Longrightarrow> 3 * pages t \<le> n + 3"
proof -
  assume t: "two_levels t n"
  let ?K = "{..<pages t} - {bt_head t}"
  have "3 * card ?K = (\<Sum>i\<in>?K. 3)" by simp
  also have "\<dots> \<le> (\<Sum>i\<in>?K. pg_size (bt_pages t ! i))" using t by (intro sum_mono) (auto simp: two_levels_def)
  also have "\<dots> \<le> (\<Sum>i\<in>leaf_pages t. pg_size (bt_pages t ! i))"
    using t by (intro sum_mono2) (auto simp: leaf_pages_def two_levels_def)
  finally have "3 * card ?K \<le> n" using t by (simp add: two_levels_def)
  moreover have "pages t \<le> card ?K + 1" by (simp add: card_Diff_singleton_if) arith
  ultimately show ?thesis by linarith
qed

lemma index_saved_add:
  assumes a: "index_saved n L t a" "n < 20" and e: "e = \<lparr>ie_id = key, ie_documentId = docId, ie_posData = pos\<rparr>"
    "elem_fits e" "dk key \<notin> el_key ` L"
  shows "\<exists>u b. index_add key docId pos t = Inr u \<and> index_add_s key docId pos (t, a) = Inr (u, b) \<and>
    index_saved (Suc n) (insert e L) u b"
proof -
  obtain I where I: "tree_holds t I L" "I \<subseteq> L" using a(1) by (auto simp: index_saved_def)
  have fits: "\<forall>e\<in>L. elem_fits e" and two: "two_levels t n" and dat: "dated_but {} t a" "head_saved t a"
    using a(1) by (auto simp: index_saved_def)
  from index_add_holds [OF I(1) e(3), of docId pos, folded e(1)] obtain u J where u: "index_add key docId pos t = Inr u"
    "tree_holds u J (insert e L)" "J = I \<or> (\<exists>k\<in>insert e L. J = insert k I \<and> el_key k \<notin> el_key ` I)" by blast
  have J: "J \<subseteq> insert e L" using u(3) I(2) by auto
  have fits2: "\<forall>e\<in>insert e L. elem_fits e" using fits e(2) by blast
  then have ptr: "pointers_ok u" using J by (intro tree_pointers [OF u(2)]) auto
  obtain p where p: "findIndexPage (bt_fuel t) t (bt_head t) key = Inr p" "p < pages t" "isLeaf (bt_pages t ! p)"
    by (rule tree_find_page [OF I(1)])
  obtain m where m: "pages t = Suc m" using p(2) by (cases "pages t") auto
  have add: "addElement (Suc m) p e None t = Inr u" using u(1) p(1) by (simp add: index_add_def bt_fuel_def m e(1))
  have adds: "index_add_s key docId pos (t, a) = addElement_p save_page (Suc m) p e None (t, a)"
    using p(1) by (simp add: index_add_s_def bt_fuel_def m e(1))
  have few: "3 * pages t \<le> n + 3" by (rule two_levels_pages [OF two])
  have leafp: "p \<in> leaf_pages t" using p(2,3) by (simp add: leaf_pages_def)
  have fin: ?thesis if b: "addElement_p save_page (Suc m) p e None (t, a) = Inr (u, b)" "dated_but {} u b" "head_saved u b"
    and "two_levels u (Suc n)" for b
    using that u(1,2) J fits2 unfolding index_saved_def adds by blast
  have other: "isLeaf (bt_pages u ! i) = isLeaf (bt_pages t ! i)" "pg_size (bt_pages u ! i) = pg_size (bt_pages t ! i)"
    if "cont u i = cont t i" for i using that isLeaf_cont [OF that] by (simp_all add: cont_fields)
  show ?thesis
  proof (cases "isFull (bt_pages t ! p)")
    case False
    have ua: "u = add_to_page p e None t" using add p(2) False by (simp add: page_at_def)
    note ad = tree_add_leaf [OF I(1) p(2,3) False, where e = e, folded ua]
    have "pages u < 2 ^ 30" using ad(1) few a(2) by simp
    from add_leaf_saved [OF I(1) p(2,3) False dat ua ptr this] obtain b where
      b: "save_page p u a = Inr b" "dated_but {} u b" "head_saved u b" by blast
    have same: "cont u i = cont t i" if "i \<noteq> p" for i using ad(3) [OF that] by (simp add: cont_fields)
    have size: "pg_size (bt_pages u ! p) \<le> 5" using ptr ad(1) p(2) by (simp add: pointers_ok_def elems_fit_def)
    have leaf: "isLeaf (bt_pages u ! i) = isLeaf (bt_pages t ! i)" for i
      using other(1) [OF same, of i] isLeaf_empty [OF ad(4) size] p(3) by (cases "i = p") auto
    have lu: "leaf_pages u = leaf_pages t \<union> {}" using ad(1) leaf by (auto simp: leaf_pages_def)
    have "(\<Sum>i\<in>leaf_pages u. pg_size (bt_pages u ! i)) = Suc n"
      using sum_leaves [OF lu _ _ leafp] other(2) [OF same] ad(5) two by (simp add: two_levels_def)
    moreover have "3 \<le> pg_size (bt_pages u ! i)" if "i < pages t" "i \<noteq> bt_head t" for i
      using that two other(2) [OF same, of i] ad(5) by (cases "i = p") (auto simp: two_levels_def)
    ultimately have "two_levels u (Suc n)" using two ad(1,2) leaf by (auto simp: two_levels_def)
    moreover have "addElement_p save_page (Suc m) p e None (t, a) = Inr (u, b)"
      using p(2) False b(1) by (simp add: page_at_def ua [symmetric])
    ultimately show ?thesis using b by (intro fin)
  next
    case full: True
    show ?thesis
    proof (cases "p = bt_head t")
      case True
      have "pages t < 2 ^ 29" using few a(2) by simp
      note R = add_root_saved [OF I(1) p(2,3) full True dat add u(2) ptr this]
      have leafs: "isLeaf (bt_pages u ! p)" "isLeaf (bt_pages u ! pages t)" using R(5-8) by (simp_all add: isLeaf_empty)
      have leaf: "isLeaf (bt_pages u ! i) = isLeaf (bt_pages t ! i)" if "i < pages t" for i
        using other(1) [OF R(4), of i] leafs(1) p(3) that by (cases "i = p") auto
      have "p < pages u" using R(2) p(2) by simp
      note inner = tree_parent_page(3) [OF u(2) this R(10)]
      have lu: "leaf_pages u = leaf_pages t \<union> {pages t}"
        using R(2) leaf leafs(2) inner by (auto simp: leaf_pages_def less_Suc_eq)
      have "(\<Sum>i\<in>leaf_pages u. pg_size (bt_pages u ! i)) = Suc n"
        using sum_leaves [OF lu _ _ leafp] other(2) [OF R(4)] R(6,8,9) two
        by (simp add: two_levels_def leaf_pages_def)
      moreover have "isLeaf (bt_pages u ! i) \<and> 3 \<le> pg_size (bt_pages u ! i)" if "i < pages u" "i \<noteq> bt_head u" for i
      proof (cases "i = p \<or> i = pages t")
        case False
        then have i: "i < pages t" "i \<noteq> p" using that R(2,3) by auto
        with two leaf [OF i(1)] other(2) [OF R(4) [OF i]] True show ?thesis by (simp add: two_levels_def)
      qed (use leafs R(6,8) in auto)
      ultimately have "two_levels u (Suc n)" by (simp add: two_levels_def)
      with R(1) show ?thesis by (blast intro: fin)
    next
      case False
      obtain q where q: "pg_parent (bt_pages t ! p) = Some q" using tree_parent [OF I(1) p(2)] False by auto
      have size: "pg_size (bt_pages t ! p) = 5"
        using full tree_sizes [OF I(1) p(2)] by (simp add: isFull_def)
      have notfull: "\<not> isFull (bt_pages t ! q)" using two_levels_full [OF I(1) two p(2) size q] a(2) by auto
      note Q = tree_parent_page [OF I(1) p(2) q]
      obtain m' where m': "m = Suc m'" using m p(2) Q(1,2) by (cases m) auto
      have "pages t < 2 ^ 29" using few a(2) by simp
      note R = add_parent_saved [OF I(1) p(2,3) full q Q(1,2) notfull dat add [unfolded m'] u(2) ptr this]
      have leafs: "isLeaf (bt_pages u ! p)" "isLeaf (bt_pages u ! pages t)" using R(5-8) by (simp_all add: isLeaf_empty)
      have "p < pages u" using R(2) p(2) by simp
      note inner = tree_parent_page(3) [OF u(2) this R(10)]
      have head: "q = bt_head t" using two Q(1,3) by (auto simp: two_levels_def)
      have leaf: "isLeaf (bt_pages u ! i) = isLeaf (bt_pages t ! i)" if "i < pages t" for i
        using other(1) [OF R(4), of i] leafs(1) p(3) Q(3) inner that by (cases "i = p \<or> i = q") auto
      have lu: "leaf_pages u = leaf_pages t \<union> {pages t}"
        using R(2) leaf leafs(2) by (auto simp: leaf_pages_def less_Suc_eq)
      have notq: "i \<notin> {p, q}" if "i \<in> leaf_pages t" "i \<noteq> p" for i using that Q(3) by (auto simp: leaf_pages_def)
      have "(\<Sum>i\<in>leaf_pages u. pg_size (bt_pages u ! i)) = Suc n"
        using sum_leaves [OF lu _ _ leafp] other(2) [OF R(4)] notq R(6,8,9) two
        by (simp add: two_levels_def leaf_pages_def)
      moreover have "isLeaf (bt_pages u ! i) \<and> 3 \<le> pg_size (bt_pages u ! i)" if "i < pages u" "i \<noteq> bt_head u" for i
      proof (cases "i = p \<or> i = pages t")
        case no: False
        then have i: "i < pages t" "i \<notin> {p, q}" using that R(2,3) head by auto
        with two leaf [OF i(1)] other(2) [OF R(4) [OF i]] head show ?thesis by (simp add: two_levels_def)
      qed (use leafs R(6,8) in auto)
      ultimately have "two_levels u (Suc n)" by (simp add: two_levels_def)
      with R(1) show ?thesis unfolding m' by (blast intro: fin [unfolded m'])
    qed
  qed
qed

section \<open>Runs\<close>

definition run_saves :: "(string \<times> string \<times> nat) list \<Rightarrow> (bptree \<times> page_saves) res" where
  "run_saves xs = bindR (save_page 0 new_tree no_saves) (\<lambda>a. add_all index_add_s xs (new_tree, a))"

lemma index_saved_new:
  obtains a where "save_page 0 new_tree no_saves = Inr a" "index_saved 0 {} new_tree a"
proof -
  have ok: "dated_but {0} new_tree no_saves"
    by (simp add: dated_but_def saves_ok_def no_saves_def new_tree_def)
  have at: "bt_pages new_tree ! 0 = new_page" "0 < pages new_tree" "pages new_tree < 2 ^ 30"
    by (simp_all add: new_tree_def)
  have fit: "elems_fit (bt_pages new_tree ! 0)" unfolding at(1) by (simp add: elems_fit_def new_page_def list_all_iff)
  have no: "ps_saved no_saves 0 = None" "\<not> points_to new_tree 0 0"
    by (simp_all add: no_saves_def points_to_def at(1) new_page_def)
  obtain a at where a: "save_page 0 new_tree no_saves = Inr a"
    "dated_but (({0} \<union> {x. points_to new_tree x 0}) - {0}) new_tree a" "ps_saved a = (ps_saved no_saves)(0 \<mapsto> at)"
    "ps_head a = (if pg_parent (bt_pages new_tree ! 0) = None then at else ps_head no_saves)"
    by (rule save_new [OF ok at(2) no fit at(3)])
  have "dated_but {} new_tree a" using a(2) by (rule dated_less) (simp add: new_tree_def)
  moreover have "head_saved new_tree a" using a(3,4) by (simp add: head_saved_def new_tree_def new_page_def)
  moreover have "two_levels new_tree 0"
    by (auto simp: two_levels_def leaf_pages_def new_tree_def new_page_def less_Suc_eq)
  ultimately have "index_saved 0 {} new_tree a" using new_tree_holds by (auto simp: index_saved_def)
  with a(1) show ?thesis by (rule that)
qed

definition entry_fits :: "string \<times> string \<times> nat \<Rightarrow> bool" where
  "entry_fits x \<longleftrightarrow> elem_fits (entry_elem x)"

lemma fresh_entries:
  assumes "distinct (map fst (x # xs))" "\<forall>x\<in>set (x # xs). entry_fits x \<and> dk (fst x) \<notin> el_key ` L"
  shows "\<forall>y\<in>set xs. entry_fits y \<and> dk (fst y) \<notin> el_key ` insert (entry_elem x) L"
proof
  fix y assume y: "y \<in> set xs"
  have key: "el_key (entry_elem x) = dk (fst x)" by (simp add: entry_elem_def)
  have "fst y \<in> set (map fst xs)" using y by simp
  moreover have "fst x \<notin> set (map fst xs)" using assms(1) by simp
  ultimately have "fst y \<noteq> fst x" by metis
  moreover have "no_nul (fst z)" if "entry_fits z" for z using that by (simp add: entry_fits_def elem_fits_def entry_elem_def)
  ultimately have "dk (fst y) \<noteq> dk (fst x)" using y assms(2) dk_inj by simp
  with y assms(2) key show "entry_fits y \<and> dk (fst y) \<notin> el_key ` insert (entry_elem x) L" by simp
qed

lemma add_all_saved:
  "index_saved n L t a \<Longrightarrow> n + length xs \<le> 20 \<Longrightarrow> distinct (map fst xs) \<Longrightarrow> \<forall>x\<in>set xs. entry_fits x \<and> dk (fst x) \<notin> el_key ` L \<Longrightarrow>
   \<exists>u b. add_all index_add xs t = Inr u \<and> add_all index_add_s xs (t, a) = Inr (u, b) \<and>
     index_saved (n + length xs) (L \<union> entry_elem ` set xs) u b"
proof (induction xs arbitrary: n L t a)
  case (Cons x xs)
  obtain key docId pos where x: "x = (key, docId, pos)" by (cases x)
  let ?e = "entry_elem x"
  have fresh: "elem_fits ?e" "dk key \<notin> el_key ` L" and n: "n < 20" using Cons.prems x by (auto simp: entry_fits_def)
  from index_saved_add [OF Cons.prems(1) n _ fresh, of docId pos] obtain u b where
    u: "index_add key docId pos t = Inr u" "index_add_s key docId pos (t, a) = Inr (u, b)" "index_saved (Suc n) (insert ?e L) u b"
    by (auto simp: x entry_elem_def)
  from Cons.IH [OF u(3) _ _ fresh_entries [OF Cons.prems(3,4)]] Cons.prems(2,3) obtain v c where
    v: "add_all index_add xs u = Inr v" "add_all index_add_s xs (u, b) = Inr (v, c)"
      "index_saved (Suc n + length xs) (insert ?e L \<union> entry_elem ` set xs) v c" by auto
  with u(1,2) x show ?case by (intro exI [of _ v] exI [of _ c]) simp
qed (auto intro: exI)

lemma saved_disk:
  assumes "index_saved n L t a"
  shows "index_find (disk_tree a) key = index_find t key"
proof -
  obtain I where "tree_holds t I L" "I \<subseteq> L" using assms by (auto simp: index_saved_def)
  moreover from this have "pointers_ok t" using assms by (intro tree_pointers) (auto simp: index_saved_def)
  ultimately show ?thesis using assms
    by (intro index_find_disk) (auto simp: index_saved_def head_saved_def tree_ok_def)
qed

text \<open>Up to 20 entries, the copies are the index.\<close>

lemma run_saves_find:
  assumes "distinct (map fst xs)" "\<forall>x\<in>set xs. entry_fits x" "length xs \<le> 20"
  shows "\<exists>t a. add_all index_add xs new_tree = Inr t \<and> run_saves xs = Inr (t, a) \<and>
    (\<forall>key. no_nul key \<longrightarrow> index_find (disk_tree a) key = Inr (map_of (map (\<lambda>x. (fst x, entry_elem x)) xs) key))"
proof -
  obtain a0 where a0: "save_page 0 new_tree no_saves = Inr a0" "index_saved 0 {} new_tree a0" by (rule index_saved_new)
  from add_all_saved [OF a0(2), of xs] assms obtain t a where
    t: "add_all index_add xs new_tree = Inr t" "add_all index_add_s xs (new_tree, a0) = Inr (t, a)"
    "index_saved (length xs) (entry_elem ` set xs) t a" by auto
  have "\<forall>x\<in>set xs. no_nul (fst x)" using assms(2) by (auto simp: entry_fits_def elem_fits_def entry_elem_def)
  from bplus.built_index [OF assms(1) this] t(1) have
    "\<forall>k. no_nul k \<longrightarrow> index_find t k = Inr (map_of (map (\<lambda>x. (fst x, entry_elem x)) xs) k)" by auto
  with t(1,2) a0(1) saved_disk [OF t(3)] show ?thesis by (auto simp: run_saves_def)
qed

text \<open>
  The twenty-first entry can split an inner page so that the new leaf and the old one get different
  parents; only the parent of the old one is written again.
\<close>

definition lost_entries :: "(string \<times> string \<times> nat) list" where
  "lost_entries = map (\<lambda>key. ([key], ''d'', 7)) ''cefroqgalpbmntidujksh''"

lemma lost_saves:
  "case run_saves lost_entries of
     Inl e \<Rightarrow> False
   | Inr (t, a) \<Rightarrow> index_find t ''g'' = Inr (Some (entry_elem (''g'', ''d'', 7))) \<and> index_find (disk_tree a) ''g'' = Inr None"
  by code_simp

end
