(* ===== verification/Index_Stored.thy ===== *)
theory Index_Stored
  imports Index_Saved
begin

text \<open>
  The files of an index carry the specification of Index_Saved: writing a page changes the bytes of one
  buffer as save_page changes a copy, and what is written can be read again.
\<close>

declare split_paired_All [simp del] split_paired_Ex [simp del]

section \<open>The bytes of a page\<close>

definition page_bytes :: "page_copy \<Rightarrow> byte list" where
  "page_bytes c = concat (page_pieces c)"

definition address_fits :: "nat \<Rightarrow> page_address option \<Rightarrow> bool" where
  "address_fits n at \<longleftrightarrow> (case at of None \<Rightarrow> True | Some (i, pos) \<Rightarrow> pos = 0 \<and> 1 \<le> i \<and> i \<le> n)"

definition copy_fits :: "nat \<Rightarrow> page_copy \<Rightarrow> bool" where
  "copy_fits n = (\<lambda>(es, ps, k). length es = 5 \<and> length ps = 6 \<and> k \<le> 5 \<and>
     (\<forall>e. Some e \<in> set es \<longrightarrow> elem_fits e) \<and> (\<forall>at\<in>set ps. address_fits n at))"

lemma key_doc_ok: "elem_fits e \<Longrightarrow> bson_ok (key_doc (ie_id e))"
  by (simp add: elem_fits_def key_doc_def bson_ok_def key_ok_def int32_size_def no_nul_def)

lemma retrieve_element:
  assumes "\<forall>e. index = Some e \<longrightarrow> elem_fits e"
  shows "retrieveIndexElement (concat (persistIndexElement index) @ r) = Inr (index, r)"
proof (cases index)
  case None
  have "bson_ok ([] :: bson)" by (simp add: bson_ok_def int32_size_def)
  with None show ?thesis
    by (simp add: retrieveIndexElement_def persistIndexElement_def rbind_Inr readBSON_star rreturn_def int32_size_def)
next
  case (Some e)
  with assms have e: "elem_fits e" by simp
  then have "int32_size (length (ie_documentId e))" by (simp add: elem_fits_def int32_size_def)
  moreover have "unat (of_nat (ie_posData e) :: int64) = ie_posData e"
    using e by (simp add: elem_fits_def unat_of_nat)
  moreover have "no_nul (ie_documentId e)" using e by (simp add: elem_fits_def)
  ultimately show ?thesis using Some key_doc_ok [OF e]
    by (simp add: retrieveIndexElement_def persistIndexElement_def rbind_Inr readBSON_star rreturn_def key_doc_def)
qed

lemma retrieve_pointer:
  assumes "address_fits n at" "n < 2 ^ 31"
  shows "retrievePointer (concat (persistPointer at) @ r) = Inr (at, r)"
proof (cases at)
  case (Some a)
  obtain i pos where a: "a = (i, pos)" by (cases a)
  with Some assms have "pos = 0" "unat (of_nat i :: int32) = i" by (simp_all add: address_fits_def unat_of_nat)
  with Some a show ?thesis by (simp add: retrievePointer_def persistPointer_def rbind_Inr rreturn_def)
qed (simp add: retrievePointer_def persistPointer_def rbind_Inr rreturn_def)

lemma retrieve_slots_bytes:
  "length es = k \<Longrightarrow> length ps = k \<Longrightarrow> \<forall>e. Some e \<in> set es \<longrightarrow> elem_fits e \<Longrightarrow> \<forall>at\<in>set ps. address_fits n at \<Longrightarrow> n < 2 ^ 31 \<Longrightarrow>
   retrieve_slots k (concat (concat (map (\<lambda>x. persistIndexElement (es ! x) @ persistPointer (ps ! x)) [0..<k])) @ r) = Inr ((es, ps), r)"
proof (induction k arbitrary: es ps)
  case (Suc k)
  obtain e es' at ps' where c: "es = e # es'" "ps = at # ps'" using Suc.prems(1,2) by (cases es; cases ps) auto
  have "map (\<lambda>x. persistIndexElement (es ! x) @ persistPointer (ps ! x)) [0..<Suc k] =
      (persistIndexElement e @ persistPointer at) #
      map (\<lambda>x. persistIndexElement (es' ! x) @ persistPointer (ps' ! x)) [0..<k]"
    unfolding upt_conv_Cons [OF zero_less_Suc] map_Suc_upt [symmetric] by (simp add: c)
  moreover have "\<forall>e'. e = Some e' \<longrightarrow> elem_fits e'" "address_fits n at" using Suc.prems(3,4) c by auto
  ultimately show ?case using Suc c retrieve_element [of e] retrieve_pointer [of n at]
    by (simp add: rbind_Inr rreturn_def del: upt_Suc)
qed (simp add: rreturn_def)

lemma retrieve_page_bytes:
  assumes "copy_fits n c" "n < 2 ^ 31"
  shows "retrieve_page (page_bytes c @ r) = Inr (c, r)"
proof -
  obtain es ps k where c: "c = (es, ps, k)" by (cases c)
  with assms(1) have fits: "length es = 5" "length ps = 6" "k \<le> 5" "\<forall>e. Some e \<in> set es \<longrightarrow> elem_fits e"
    "\<forall>at\<in>set ps. address_fits n at" by (simp_all add: copy_fits_def)
  obtain qs q where ps: "ps = qs @ [q]" "length qs = 5" using fits(2) by (cases ps rule: rev_cases) auto
  have "unat (of_nat k :: int32) = k" using fits(3) by (simp add: unat_of_nat)
  moreover have "address_fits n q" "address_fits n None" "\<forall>at\<in>set qs. address_fits n at"
    using fits(5) ps by (simp_all add: address_fits_def)
  moreover define B where
    "B = concat (concat (map (\<lambda>x. persistIndexElement (es ! x) @ persistPointer (qs ! x)) [0..<5]))"
  have slots: "map (\<lambda>x. persistIndexElement (es ! x) @ persistPointer (ps ! x)) [0..<5] =
      map (\<lambda>x. persistIndexElement (es ! x) @ persistPointer (qs ! x)) [0..<5]"
    using ps by (simp add: nth_append)
  have "ps ! 5 = q" using ps by (simp add: nth_append)
  then have "page_bytes c = write_int 5 @ write_int (of_nat k) @ B @ concat (persistPointer q) @
      concat (persistPointer None) @ concat (persistPointer None)"
    unfolding page_bytes_def page_pieces_def c prod.case bucket slots B_def by simp
  moreover have "retrieve_slots 5 (B @ r') = Inr ((es, qs), r')" for r'
    unfolding B_def using fits(5) ps by (intro retrieve_slots_bytes [OF fits(1) ps(2) fits(4) _ assms(2)]) simp
  ultimately show ?thesis using retrieve_pointer [OF _ assms(2)] ps
    by (simp add: retrieve_page_def c rbind_Inr rreturn_def)
qed

interpretation page_codec: record_codec page_bytes retrieve_page "copy_fits 1000"
proof
  show "retrieve_page (page_bytes c @ r) = Inr (c, r)" if "copy_fits 1000 c" for c r
    using that by (rule retrieve_page_bytes) simp
  show "page_bytes c \<noteq> []" for c by (cases c) (simp add: page_bytes_def page_pieces_def)
qed

text \<open>A page with ids of up to 300 characters fits into a mapping of 4096 bytes.\<close>

lemma element_length: "\<forall>e. index = Some e \<longrightarrow> elem_fits e \<Longrightarrow> length (concat (persistIndexElement index)) \<le> 660"
  by (cases index) (auto simp: persistIndexElement_def writeBSON_def key_doc_def elem_fits_def no_nul_def
      length_write_chars write_string_def wire_type_def write_int_def write_long_def)

lemma pointer_length: "length (concat (persistPointer at)) = 12"
  by (cases at) (auto simp: persistPointer_def write_int_def)

lemma page_length:
  assumes "copy_fits n c"
  shows "length (page_bytes c) \<le> 4000" "8 \<le> length (page_bytes c)"
proof -
  obtain es ps k where c: "c = (es, ps, k)" by (cases c)
  with assms have fits: "length es = 5" "\<forall>e. Some e \<in> set es \<longrightarrow> elem_fits e" by (simp_all add: copy_fits_def)
  let ?f = "\<lambda>x. persistIndexElement (es ! x) @ persistPointer (ps ! x)"
  have "length (concat (concat (map ?f [0..<m]))) \<le> 672 * m" if "m \<le> 5" for m
    using that
  proof (induction m)
    case (Suc m)
    then have "es ! m \<in> set es" using fits(1) by simp
    then have "length (concat (persistIndexElement (es ! m))) \<le> 660" using fits(2) by (intro element_length) metis
    with Suc pointer_length [of "ps ! m"] show ?case by simp
  qed simp
  from this [of 5] have "length (concat (concat (map ?f [0..<5]))) \<le> 3360" by simp
  then show "length (page_bytes c) \<le> 4000" "8 \<le> length (page_bytes c)"
    using pointer_length by (simp_all add: page_bytes_def page_pieces_def c write_int_def)
qed

section \<open>The buffers of an index\<close>

definition region :: "disk \<Rightarrow> string \<Rightarrow> nat \<Rightarrow> nat \<Rightarrow> byte list" where
  "region d f s i = map (d f) [i * s..<i * s + s]"

definition control_bytes :: "string \<Rightarrow> nat \<Rightarrow> nat \<Rightarrow> byte list" where
  "control_bytes f s n = write_long (of_nat s) @ write_int (of_nat n) @
     concat (map (\<lambda>i. [CHR 0x01] @ write_long (of_nat (i * s)) @ write_long 0 @ write_chars f) [0..<n])"

definition buffer_ok :: "string \<Rightarrow> nat \<Rightarrow> nat \<Rightarrow> page_buffer \<Rightarrow> bool" where
  "buffer_ok f s i b \<longleftrightarrow> pb_file b = f \<and> pb_start b = i * s \<and> pb_maxLength b = 1 \<and> pb_size b = s \<and> pb_index b = i"

text \<open>The first n regions of the file, each mapped by the buffer with its number.\<close>

definition regions_ok :: "string \<Rightarrow> nat \<Rightarrow> nat \<Rightarrow> buffer_manager \<Rightarrow> bool" where
  "regions_ok f s n m \<longleftrightarrow> bm_file m = f \<and> bm_pageSize m = s \<and> bm_buffersSize m = s \<and> bm_buffersCount m = n \<and>
     length (bm_active m) = n \<and> bm_reusable m = [] \<and> bm_control m = control_bytes f s n \<and>
     (\<forall>i<n. buffer_ok f s i (bm_active m ! i))"

lemma patch_end [simp]: "patch file (length file) xs = file @ xs"
  by (simp add: patch_def)

lemma patch_count:
  "patch (control_bytes f s n) 8 (write_int v) = write_long (of_nat s) @ write_int v @ drop 12 (control_bytes f s n)"
  by (simp add: patch_def control_bytes_def write_long_def write_int_def)

lemma buffer_ok_cursor [simp]:
  "buffer_ok f s i (b\<lparr>pb_pos := x\<rparr>) = buffer_ok f s i b" "buffer_ok f s i (b\<lparr>pb_spos := x\<rparr>) = buffer_ok f s i b"
  "buffer_ok f s i (b\<lparr>pb_len := x\<rparr>) = buffer_ok f s i b" "buffer_ok f s i (b\<lparr>pb_control := x\<rparr>) = buffer_ok f s i b"
  "buffer_ok f s i (pb_seek x b) = buffer_ok f s i b"
  by (simp_all add: buffer_ok_def pb_seek_def)

lemma buffer_view: "buffer_ok f s i b \<Longrightarrow> pb_view d b = region d f s i"
  by (simp add: pb_view_def region_def buffer_ok_def)

lemma manager_set: "regions_ok f s n m \<Longrightarrow> buffer_ok f s i b \<Longrightarrow> regions_ok f s n (bm_setBuffer i b m)"
  unfolding regions_ok_def bm_setBuffer_def
  by (cases "i < length (bm_active m)") (simp_all add: nth_list_update list_update_beyond)

lemma manager_get: "regions_ok f s n m \<Longrightarrow> i < n \<Longrightarrow> \<exists>b. bm_getBuffer m i = Inr b \<and> buffer_ok f s i b"
  by (simp add: regions_ok_def bm_getBuffer_def)

text \<open>A new buffer is the next region.\<close>

lemma new_buffer_ok:
  assumes m: "regions_ok f s n m" and s: "0 < s"
    and need: "force \<or> n = 0 \<or> pb_spaceLeft (last (bm_active m)) < int k"
  shows "\<exists>b. regions_ok f s (Suc n) (bm_getCurrentBuffer m k force) \<and> last (bm_active (bm_getCurrentBuffer m k force)) = b \<and>
    buffer_ok f s n b \<and> pb_len b = 0"
proof -
  define m1 where "m1 = (if bm_active m = [] then m
     else let b = last (bm_active m) in m\<lparr>bm_active := butlast (bm_active m) @ [pb_seek (pb_pos b) b]\<rparr>)"
  have "bm_active m1 ! i = bm_active m ! i \<or> bm_active m1 ! i = pb_seek (pb_pos (bm_active m ! i)) (bm_active m ! i)" if "i < n" for i
  proof (cases "i < n - 1")
    case True
    with m show ?thesis by (simp add: m1_def regions_ok_def Let_def nth_append nth_butlast)
  next
    case False
    with that have "i = n - 1" by simp
    with m that show ?thesis by (auto simp: m1_def regions_ok_def Let_def nth_append last_conv_nth)
  qed
  then have "buffer_ok f s i (bm_active m1 ! i)" if "i < n" for i
    using that m buffer_ok_cursor(5) unfolding regions_ok_def by metis
  then have m1: "regions_ok f s n m1"
    using m by (cases "bm_active m") (auto simp: regions_ok_def m1_def Let_def)
  have "force \<or> bm_active m1 = [] \<or> pb_spaceLeft (last (bm_active m1)) < int k"
    using need m by (auto simp: m1_def regions_ok_def Let_def pb_seek_def pb_spaceLeft_def)
  define b where "b = (bm_createNewBuffer m1)\<lparr>pb_index := n\<rparr>"
  define ctl where "ctl = patch (bm_control m1) 8 (write_int (of_nat (Suc n)))"
  define b2 where "b2 = (pb_seek 0 b)\<lparr>pb_control := length ctl\<rparr>"
  have b: "buffer_ok f s n b" "pb_len b = 0" using m1 s by (simp_all add: b_def bm_createNewBuffer_def new_buffer_def regions_ok_def buffer_ok_def)
  have get: "bm_getCurrentBuffer m k force = m1\<lparr>bm_active := bm_active m1 @ [b2], bm_buffersCount := Suc n,
      bm_control := ctl @ control_record b2, bm_byLog := count_log f (bm_byLog m1)\<rparr>"
  proof -
    have cnt: "bm_buffersCount m1 = n" "bm_reusable m1 = []" using m1 by (simp_all add: regions_ok_def)
    have "pb_file b2 = f" using b(1) by (simp add: b2_def buffer_ok_def pb_seek_def)
    moreover have "force \<or> bm_active m1 = [] \<or> pb_spaceLeft (last (bm_active m1)) < int k" by fact
    ultimately show ?thesis unfolding bm_getCurrentBuffer_def m1_def [symmetric]
      using cnt by (auto simp: Let_def bm_addBuffer_def bm_register_def b_def b2_def ctl_def pb_seek_def)
  qed
  have "control_bytes f s (Suc n) = ctl @ control_record b2"
  proof -
    have "control_record b2 = [CHR 0x01] @ write_long (of_nat (n * s)) @ write_long 0 @ write_chars f"
      using b(1) by (simp add: control_record_def b2_def buffer_ok_def pb_seek_def)
    moreover have "ctl = write_long (of_nat s) @ write_int (of_nat (Suc n)) @ drop 12 (control_bytes f s n)"
      unfolding ctl_def using m1 patch_count by (simp add: regions_ok_def)
    moreover have "drop 12 (control_bytes f s n) =
        concat (map (\<lambda>i. [CHR 0x01] @ write_long (of_nat (i * s)) @ write_long 0 @ write_chars f) [0..<n])"
      by (simp add: control_bytes_def write_long_def write_int_def)
    ultimately show ?thesis by (simp add: control_bytes_def)
  qed
  then have "regions_ok f s (Suc n) (bm_getCurrentBuffer m k force)"
    unfolding get using m1 b(1) by (auto simp: regions_ok_def nth_append less_Suc_eq b2_def)
  with b show ?thesis unfolding get by (simp add: b2_def pb_seek_def)
qed

section \<open>Writing keeps the correspondence\<close>

lemma length_region [simp]: "length (region d f s i) = s"
  by (simp add: region_def)

lemma region_write:
  assumes "off + length xs \<le> s"
  shows "region (disk_write d f (i * s + off) xs) f s i =
    take off (region d f s i) @ xs @ drop (off + length xs) (region d f s i)"
  by (rule nth_equalityI) (use assms in \<open>auto simp: region_def disk_write_def nth_append\<close>)

lemma region_other:
  assumes "off + length xs \<le> s" "j \<noteq> i"
  shows "region (disk_write d f (i * s + off) xs) f s j = region d f s j"
proof -
  have "\<not> (i * s + off \<le> k \<and> k < i * s + off + length xs)" if "j * s \<le> k" "k < j * s + s" for k
  proof (cases "j < i")
    case True
    then have "Suc j * s \<le> i * s" by (intro mult_le_mono1) simp
    with that show ?thesis by simp
  next
    case False
    with assms(2) have "Suc i * s \<le> j * s" by (intro mult_le_mono1) simp
    with that assms(1) show ?thesis by simp
  qed
  then show ?thesis by (auto simp: region_def disk_write_def)
qed

definition page_entry :: "page_copy \<Rightarrow> byte list" where
  "page_entry c = write_int (of_nat (length (page_bytes c))) @ write_chars (page_bytes c)"

definition head_bytes :: "page_address \<Rightarrow> string list \<Rightarrow> byte list" where
  "head_bytes head keys = write_long (of_nat (fst head)) @ write_long (of_nat (snd head)) @
     write_int (of_nat (length keys)) @ concat (map write_chars keys)"

definition on_file :: "string \<Rightarrow> nat \<Rightarrow> string list \<Rightarrow> page_saves \<Rightarrow> disk \<Rightarrow> bool" where
  "on_file f s keys a d \<longleftrightarrow> (\<exists>rest. region d f s 0 = head_bytes (ps_head a) keys @ rest) \<and>
     (\<forall>i<length (ps_copies a). \<exists>rest. region d f s (Suc i) = page_entry (ps_copies a ! i) @ rest)"

definition saves_fit :: "page_saves \<Rightarrow> bool" where
  "saves_fit a \<longleftrightarrow> int (length (ps_copies a)) \<le> 2 ^ 30 \<and> ps_copies a \<noteq> [] \<and>
     address_fits (length (ps_copies a)) (Some (ps_head a)) \<and>
     (\<forall>p. address_fits (length (ps_copies a)) (ps_saved a p)) \<and>
     (\<forall>c\<in>set (ps_copies a). copy_fits (length (ps_copies a)) c)"

text \<open>The state of an open index whose files correspond to a specification.\<close>

definition stored :: "string \<Rightarrow> nat \<Rightarrow> string list \<Rightarrow> index_files \<Rightarrow> page_saves \<Rightarrow> bool" where
  "stored f s keys x a \<longleftrightarrow> regions_ok f s (Suc (length (ps_copies a))) (xf_manager x) \<and>
     xf_saved x = ps_saved a \<and> (\<forall>p. xf_loaded x p \<longleftrightarrow> ps_saved a p \<noteq> None) \<and> xf_keys x = keys \<and>
     on_file f s keys a (xf_disk x) \<and> saves_fit a"

lemma put_page:
  assumes b: "buffer_ok f s i b" and len: "length txt + 8 \<le> s"
  shows "\<exists>b2. bindR (pb_writeInt v (d, pb_seek 0 b)) (pb_writeChars txt) =
    Inr (disk_write d f (i * s) (write_int v @ write_chars txt), b2) \<and> buffer_ok f s i b2"
proof -
  have "disk_write (disk_write d f (i * s) (write_int v)) f (i * s + 4) (write_chars txt) =
      disk_write d f (i * s) (write_int v @ write_chars txt)"
    by (subst disk_write_append [symmetric]) (simp add: write_int_def)
  with b len show ?thesis
    by (simp add: pb_writeInt_def pb_writeChars_def pb_put_def pb_seek_def buffer_ok_def Let_def write_int_def length_write_chars)
qed

lemma put_head:
  assumes b: "buffer_ok f s i b" and len: "16 \<le> s"
  shows "\<exists>b2. bindR (pb_writeLong v (d, pb_seek 0 b)) (pb_writeLong w) =
    Inr (disk_write d f (i * s) (write_long v @ write_long w), b2) \<and> buffer_ok f s i b2"
proof -
  have "disk_write (disk_write d f (i * s) (write_long v)) f (i * s + 8) (write_long w) =
      disk_write d f (i * s) (write_long v @ write_long w)"
    by (subst disk_write_append [symmetric]) (simp add: write_long_def)
  with b len show ?thesis
    by (simp add: pb_writeLong_def pb_put_def pb_seek_def buffer_ok_def write_long_def)
qed

text \<open>The two kinds of writes on the files.\<close>

lemma write_page:
  assumes m: "regions_ok f s n (xf_manager x)" "i < n" and len: "length txt + 8 \<le> s"
  obtains y where "buffer_writes i (pb_seek 0) (\<lambda>db. bindR (pb_writeInt v db) (pb_writeChars txt)) x = Inr y"
    "regions_ok f s n (xf_manager y)" "xf_disk y = disk_write (xf_disk x) f (i * s) (write_int v @ write_chars txt)"
    "xf_saved y = xf_saved x" "xf_loaded y = xf_loaded x" "xf_keys y = xf_keys x"
proof -
  from manager_get [OF m] obtain b where b: "bm_getBuffer (xf_manager x) i = Inr b" "buffer_ok f s i b" by blast
  from put_page [OF b(2) len, of v "xf_disk x"] obtain b2 where
    "bindR (pb_writeInt v (xf_disk x, pb_seek 0 b)) (pb_writeChars txt) =
      Inr (disk_write (xf_disk x) f (i * s) (write_int v @ write_chars txt), b2)" "buffer_ok f s i b2" by blast
  with b manager_set [OF m(1), of i b2] show ?thesis
    by (intro that [of "x\<lparr>xf_disk := disk_write (xf_disk x) f (i * s) (write_int v @ write_chars txt),
      xf_manager := bm_setBuffer i b2 (xf_manager x)\<rparr>"]) (simp_all add: buffer_writes_def)
qed

lemma write_head:
  assumes m: "regions_ok f s n (xf_manager x)" "0 < n" and len: "16 \<le> s"
  obtains y where "buffer_writes 0 (pb_seek 0) (\<lambda>db. bindR (pb_writeLong v db) (pb_writeLong w)) x = Inr y"
    "regions_ok f s n (xf_manager y)" "xf_disk y = disk_write (xf_disk x) f 0 (write_long v @ write_long w)"
    "xf_saved y = xf_saved x" "xf_loaded y = xf_loaded x" "xf_keys y = xf_keys x"
proof -
  from manager_get [OF m] obtain b where b: "bm_getBuffer (xf_manager x) 0 = Inr b" "buffer_ok f s 0 b" by blast
  from put_head [OF b(2) len, of v "xf_disk x" w] obtain b2 where
    "bindR (pb_writeLong v (xf_disk x, pb_seek 0 b)) (pb_writeLong w) =
      Inr (disk_write (xf_disk x) f 0 (write_long v @ write_long w), b2)" "buffer_ok f s 0 b2" by auto
  with b manager_set [OF m(1), of 0 b2] show ?thesis
    by (intro that [of "x\<lparr>xf_disk := disk_write (xf_disk x) f 0 (write_long v @ write_long w),
      xf_manager := bm_setBuffer 0 b2 (xf_manager x)\<rparr>"]) (simp_all add: buffer_writes_def)
qed

text \<open>The end of persistPage: the page, and the address of the head when the page has no parent.\<close>

lemma persist_writes:
  assumes m: "regions_ok f s n (xf_manager x)" "0 < i" "i < n" and len: "length txt + 8 \<le> s" "16 \<le> s"
  obtains y where "bindR (buffer_writes i (pb_seek 0) (\<lambda>db. bindR (pb_writeInt v db) (pb_writeChars txt)) x) (\<lambda>x.
      bindR (if root then buffer_writes 0 (pb_seek 0) (\<lambda>db. bindR (pb_writeLong j db) (pb_writeLong k)) x else Inr x) (\<lambda>x.
      Inr (x\<lparr>xf_loaded := (xf_loaded x)(p := True)\<rparr>))) = Inr y"
    "regions_ok f s n (xf_manager y)" "xf_saved y = xf_saved x" "xf_loaded y = (xf_loaded x)(p := True)" "xf_keys y = xf_keys x"
    "\<And>q. q \<noteq> 0 \<Longrightarrow> q \<noteq> i \<Longrightarrow> region (xf_disk y) f s q = region (xf_disk x) f s q"
    "\<exists>rest. region (xf_disk y) f s i = write_int v @ write_chars txt @ rest"
    "region (xf_disk y) f s 0 = (if root then write_long j @ write_long k @ drop 16 (region (xf_disk x) f s 0)
       else region (xf_disk x) f s 0)"
proof -
  let ?e = "write_int v @ write_chars txt" and ?h = "write_long j @ write_long k"
  have le: "0 + length ?e \<le> s" and lh: "0 + length ?h \<le> s" using len by (simp_all add: write_int_def length_write_chars write_long_def)
  obtain y1 where y1: "buffer_writes i (pb_seek 0) (\<lambda>db. bindR (pb_writeInt v db) (pb_writeChars txt)) x = Inr y1"
    "regions_ok f s n (xf_manager y1)" "xf_disk y1 = disk_write (xf_disk x) f (i * s) ?e"
    "xf_saved y1 = xf_saved x" "xf_loaded y1 = xf_loaded x" "xf_keys y1 = xf_keys x"
    by (rule write_page [OF m(1,3) len(1)])
  have ri: "region (xf_disk y1) f s i = ?e @ drop (length ?e) (region (xf_disk x) f s i)"
    using region_write [OF le, of "xf_disk x" f i] y1(3) by simp
  have ro: "region (xf_disk y1) f s q = region (xf_disk x) f s q" if "q \<noteq> i" for q
    using region_other [OF le that, of "xf_disk x" f] y1(3) by simp
  show ?thesis
  proof (cases root)
    case False
    with y1 ri ro m(2) show ?thesis by (intro that [of "y1\<lparr>xf_loaded := (xf_loaded y1)(p := True)\<rparr>"]) simp_all
  next
    case True
    have "0 < n" using m by simp
    from write_head [OF y1(2) this len(2), of j k] obtain y2 where
      y2: "buffer_writes 0 (pb_seek 0) (\<lambda>db. bindR (pb_writeLong j db) (pb_writeLong k)) y1 = Inr y2"
      "regions_ok f s n (xf_manager y2)" "xf_disk y2 = disk_write (xf_disk y1) f 0 ?h"
      "xf_saved y2 = xf_saved y1" "xf_loaded y2 = xf_loaded y1" "xf_keys y2 = xf_keys y1" .
    have "region (xf_disk y2) f s 0 = ?h @ drop 16 (region (xf_disk y1) f s 0)"
      using region_write [OF lh, of "xf_disk y1" f 0] y2(3) by (simp add: write_long_def)
    moreover have "region (xf_disk y2) f s q = region (xf_disk y1) f s q" if "q \<noteq> 0" for q
      using region_other [OF lh that, of "xf_disk y1" f] y2(3) by simp
    ultimately show ?thesis using True y1 y2 ri ro m(2)
      by (intro that [of "y2\<lparr>xf_loaded := (xf_loaded y2)(p := True)\<rparr>"]) simp_all
  qed
qed

lemma page_stream:
  assumes "copy_fits n c"
  shows "\<exists>ms. ms_writes (ms_new 1024) (page_pieces c) = Inr ms \<and> ms_toChars ms = Inr (page_bytes c) \<and>
    ms_size ms = length (page_bytes c)"
proof -
  have len: "length (concat (page_pieces c)) < 102400" using page_length [OF assms] by (simp add: page_bytes_def)
  have ne: "concat (page_pieces c) \<noteq> []"
    using page_length(2) [OF assms] unfolding page_bytes_def by (metis list.size(3) not_numeral_le_zero)
  have "ms_length (ms_new 1024) + length (concat (page_pieces c)) < 100 * ms_chunk (ms_new 1024)"
    using len by (simp add: ms_new_def)
  with ms_writes_spec [of "ms_new 1024" "page_pieces c"] ms_new_inv [of 1024] ms_new_empty [of 1024]
  obtain ms where ms: "ms_writes (ms_new 1024) (page_pieces c) = Inr ms" "ms_bytes ms = page_bytes c"
    by (auto simp: page_bytes_def)
  moreover have "ms_toChars ms = Inr (page_bytes c)" using ms_flat [OF ne len] ms(1) by (simp add: page_bytes_def)
  moreover have "ms_size ms = length (page_bytes c)" using ms(2) ms_length_bytes [of ms] by (simp add: ms_size_def)
  ultimately show ?thesis by blast
qed

lemma address_fits_mono: "address_fits n at \<Longrightarrow> n \<le> m \<Longrightarrow> address_fits m at"
  by (auto simp: address_fits_def split: option.splits)

lemma copy_fits_mono: "copy_fits n c \<Longrightarrow> n \<le> m \<Longrightarrow> copy_fits m c"
  by (auto simp: copy_fits_def address_fits_mono)

lemma copy_of_fits:
  assumes "elems_fit page" "\<forall>p. address_fits n (saved p)"
  shows "copy_fits n (copy_of saved page)"
  using assms by (auto simp: copy_fits_def copy_of_def elems_fit_def address_of_def address_fits_def list_all_iff
      split: option.splits)

text \<open>A page that gets the last buffer of the manager.\<close>

lemma persist_new:
  assumes page: "page_at t p = Inr page" "copy_fits n (copy_of (xf_saved x) page)" "xf_saved x p = None"
    and buf: "buffer_for (length (page_bytes (copy_of (xf_saved x) page))) (xf_manager x) = m1"
    and m1: "regions_ok f s (Suc i) m1" "last (bm_active m1) = b1" "buffer_ok f s i b1" "pb_len b1 = 0" "0 < i"
    and s: "4096 \<le> s"
  obtains y where "persistPage p t x = Inr y" "regions_ok f s (Suc i) (xf_manager y)" "xf_saved y = (xf_saved x)(p \<mapsto> (i, 0))"
    "xf_loaded y = (xf_loaded x)(p := True)" "xf_keys y = xf_keys x"
    "\<And>q. q \<noteq> 0 \<Longrightarrow> q \<noteq> i \<Longrightarrow> region (xf_disk y) f s q = region (xf_disk x) f s q"
    "\<exists>rest. region (xf_disk y) f s i = page_entry (copy_of (xf_saved x) page) @ rest"
    "region (xf_disk y) f s 0 = (if pg_parent page = None then write_long (of_nat i) @ write_long (of_nat 0) @ drop 16 (region (xf_disk x) f s 0)
       else region (xf_disk x) f s 0)"
proof -
  let ?c = "copy_of (xf_saved x) page"
  let ?k = "length (page_bytes ?c)"
  from page_stream [OF page(2)] obtain ms where ms: "ms_writes (ms_new 1024) (page_pieces ?c) = Inr ms"
    "ms_toChars ms = Inr (page_bytes ?c)" "ms_size ms = ?k" by blast
  have len: "?k + 8 \<le> s" "16 \<le> s" using page_length [OF page(2)] s by simp_all
  define x1 where "x1 = x\<lparr>xf_manager := m1, xf_saved := (xf_saved x)(p \<mapsto> (i, 0))\<rparr>"
  have x1: "xf_disk x1 = xf_disk x" "xf_saved x1 = (xf_saved x)(p \<mapsto> (i, 0))" "xf_loaded x1 = xf_loaded x" "xf_keys x1 = xf_keys x"
    "regions_ok f s (Suc i) (xf_manager x1)" using m1(1) by (simp_all add: x1_def)
  from persist_writes [OF x1(5) m1(5) _ len, of "of_nat ?k" "pg_parent page = None" "of_nat i" "of_nat 0" p]
  obtain y where y: "bindR (buffer_writes i (pb_seek 0) (\<lambda>db. bindR (pb_writeInt (of_nat ?k) db) (pb_writeChars (page_bytes ?c))) x1) (\<lambda>x.
      bindR (if pg_parent page = None then buffer_writes 0 (pb_seek 0) (\<lambda>db. bindR (pb_writeLong (of_nat i) db) (pb_writeLong (of_nat 0))) x else Inr x) (\<lambda>x.
      Inr (x\<lparr>xf_loaded := (xf_loaded x)(p := True)\<rparr>))) = Inr y"
    "regions_ok f s (Suc i) (xf_manager y)" "xf_saved y = xf_saved x1" "xf_loaded y = (xf_loaded x1)(p := True)" "xf_keys y = xf_keys x1"
    "\<And>q. q \<noteq> 0 \<Longrightarrow> q \<noteq> i \<Longrightarrow> region (xf_disk y) f s q = region (xf_disk x1) f s q"
    "\<exists>rest. region (xf_disk y) f s i = write_int (of_nat ?k) @ write_chars (page_bytes ?c) @ rest"
    "region (xf_disk y) f s 0 = (if pg_parent page = None then write_long (of_nat i) @ write_long (of_nat 0) @ drop 16 (region (xf_disk x1) f s 0)
       else region (xf_disk x1) f s 0)" by blast
  have "pb_index (pb_seek_end 0 b1) = i" "pb_pos (pb_seek_end 0 b1) = 0" using m1(3,4) by (simp_all add: pb_seek_end_def buffer_ok_def)
  then have "persistPage p t x = Inr y"
    using page(1,3) ms y(1) buf m1(2) by (simp add: persistPage_def x1_def Let_def cong: if_cong)
  with y x1 show ?thesis by (intro that [of y]) (simp_all add: page_entry_def)
qed

lemma persist_stored:
  assumes x: "stored f s keys x a" and s: "4096 \<le> s" and save: "save_page p t a = Inr b"
  shows "\<exists>y. persistPage p t x = Inr y \<and> stored f s keys y b"
proof -
  let ?n = "length (ps_copies a)"
  have m: "regions_ok f s (Suc ?n) (xf_manager x)" and sv: "xf_saved x = ps_saved a"
    and ld: "\<And>p. xf_loaded x p \<longleftrightarrow> ps_saved a p \<noteq> None" and keys: "xf_keys x = keys"
    and onf: "on_file f s keys a (xf_disk x)" and fit: "saves_fit a"
    using x by (simp_all add: stored_def)
  obtain page where page: "page_at t p = Inr page" "elems_fit page" "int ?n < 2 ^ 30"
    using save by (auto simp: save_page_def bindR_Inr_iff split: if_splits)
  define c where "c = copy_of (ps_saved a) page"
  have addr: "\<forall>p. address_fits ?n (ps_saved a p)" using fit by (simp add: saves_fit_def)
  have cf: "copy_fits ?n c" unfolding c_def by (rule copy_of_fits [OF page(2) addr])
  from page_stream [OF cf] obtain ms where ms: "ms_writes (ms_new 1024) (page_pieces c) = Inr ms"
    "ms_toChars ms = Inr (page_bytes c)" "ms_size ms = length (page_bytes c)" by blast
  have len: "length (page_bytes c) + 8 \<le> s" "16 \<le> s" "8 \<le> length (page_bytes c)" using page_length [OF cf] s by simp_all
  obtain rest where head: "region (xf_disk x) f s 0 = head_bytes (ps_head a) keys @ rest" using onf by (auto simp: on_file_def)
  have head16: "drop 16 (region (xf_disk x) f s 0) = write_int (of_nat (length keys)) @ concat (map write_chars keys) @ rest"
    unfolding head by (simp add: head_bytes_def write_long_def)
  show ?thesis
  proof (cases "ps_saved a p")
    case (Some at)
    obtain i where at: "at = (i, 0)" "1 \<le> i" "i \<le> ?n" using addr Some by (cases at) (auto simp: address_fits_def dest: spec [of _ p])
    have i: "0 < i" "i < Suc ?n" using at by simp_all
    from persist_writes [OF m i len(1,2), of "of_nat (length (page_bytes c))" "pg_parent page = None" "of_nat i" "of_nat 0" p]
    obtain y where y: "bindR (buffer_writes i (pb_seek 0) (\<lambda>db. bindR (pb_writeInt (of_nat (length (page_bytes c))) db) (pb_writeChars (page_bytes c))) x) (\<lambda>x.
        bindR (if pg_parent page = None then buffer_writes 0 (pb_seek 0) (\<lambda>db. bindR (pb_writeLong (of_nat i) db) (pb_writeLong (of_nat 0))) x else Inr x) (\<lambda>x.
        Inr (x\<lparr>xf_loaded := (xf_loaded x)(p := True)\<rparr>))) = Inr y"
      "regions_ok f s (Suc ?n) (xf_manager y)" "xf_saved y = xf_saved x" "xf_loaded y = (xf_loaded x)(p := True)" "xf_keys y = xf_keys x"
      "\<And>q. q \<noteq> 0 \<Longrightarrow> q \<noteq> i \<Longrightarrow> region (xf_disk y) f s q = region (xf_disk x) f s q"
      "\<exists>rest. region (xf_disk y) f s i = write_int (of_nat (length (page_bytes c))) @ write_chars (page_bytes c) @ rest"
      "region (xf_disk y) f s 0 = (if pg_parent page = None then write_long (of_nat i) @ write_long (of_nat 0) @ drop 16 (region (xf_disk x) f s 0)
         else region (xf_disk x) f s 0)" by blast
    have b: "ps_saved b = ps_saved a" "ps_copies b = (ps_copies a)[i - 1 := c]"
      "ps_head b = (if pg_parent page = None then (i, 0) else ps_head a)"
      using save page Some at by (auto simp: save_page_def c_def Let_def not_le [symmetric])
    have "persistPage p t x = Inr y"
      using page(1) ms y(1) Some at(1) sv by (simp add: persistPage_def c_def)
    moreover have "on_file f s keys b (xf_disk y)"
      unfolding on_file_def
    proof (intro conjI allI impI)
      show "\<exists>rest. region (xf_disk y) f s 0 = head_bytes (ps_head b) keys @ rest"
        unfolding y(8) b(3) head16 using head by (auto simp: head_bytes_def)
      show "\<exists>rest. region (xf_disk y) f s (Suc j) = page_entry (ps_copies b ! j) @ rest" if "j < length (ps_copies b)" for j
      proof (cases "j = i - 1")
        case True
        then have "Suc j = i" using at by simp
        with y(7) True that show ?thesis by (simp add: b(2) page_entry_def)
      next
        case False
        with that onf at y(6) [of "Suc j"] show ?thesis by (auto simp: b(2) on_file_def)
      qed
    qed
    moreover have "saves_fit b"
      using fit cf at set_update_subset_insert [of "ps_copies a" "i - 1" c] by (auto simp: saves_fit_def b address_fits_def)
    ultimately show ?thesis using y(2-5) sv ld keys Some by (auto simp: stored_def b)
  next
    case None
    let ?i = "Suc ?n" and ?k = "length (page_bytes c)"
    have "length (bm_active (xf_manager x)) = Suc ?n" using m by (simp add: regions_ok_def)
    then have "last (bm_active (xf_manager x)) = bm_active (xf_manager x) ! ?n"
      by (metis diff_Suc_1 last_conv_nth list.size(3) nat.distinct(1))
    then have "pb_maxLength (last (bm_active (xf_manager x))) = 1" using m by (simp add: regions_ok_def buffer_ok_def)
    then have space: "pb_spaceLeft (last (bm_active (xf_manager x))) < int ?k" using len(3) by (simp add: pb_spaceLeft_def)
    define m1 where "m1 = bm_getCurrentBuffer (xf_manager x) ?k False"
    have "0 < s" using s by simp
    from new_buffer_ok [OF m this, of False ?k] space obtain b1 where
      m1: "regions_ok f s (Suc ?i) m1" "last (bm_active m1) = b1" "buffer_ok f s ?i b1" "pb_len b1 = 0" unfolding m1_def by blast
    have "?n \<noteq> 0" using fit by (simp add: saves_fit_def)
    then have bf: "buffer_for ?k (xf_manager x) = m1" using m by (simp add: buffer_for_def regions_ok_def m1_def)
    have "xf_saved x p = None" using None sv by simp
    from persist_new [OF page(1) cf [unfolded c_def, folded sv] this bf [unfolded c_def, folded sv] m1 _ s] obtain y where
      y: "persistPage p t x = Inr y" "regions_ok f s (Suc ?i) (xf_manager y)" "xf_saved y = (xf_saved x)(p \<mapsto> (?i, 0))"
      "xf_loaded y = (xf_loaded x)(p := True)" "xf_keys y = xf_keys x"
      "\<And>q. q \<noteq> 0 \<Longrightarrow> q \<noteq> ?i \<Longrightarrow> region (xf_disk y) f s q = region (xf_disk x) f s q"
      "\<exists>rest. region (xf_disk y) f s ?i = page_entry c @ rest"
      "region (xf_disk y) f s 0 = (if pg_parent page = None then write_long (of_nat ?i) @ write_long (of_nat 0) @ drop 16 (region (xf_disk x) f s 0)
         else region (xf_disk x) f s 0)" unfolding c_def sv by blast
    have b: "ps_saved b = (ps_saved a)(p \<mapsto> (?i, 0))" "ps_copies b = ps_copies a @ [c]"
      "ps_head b = (if pg_parent page = None then (?i, 0) else ps_head a)"
      using save page None by (auto simp: save_page_def c_def Let_def not_le [symmetric])
    have "on_file f s keys b (xf_disk y)"
      unfolding on_file_def
    proof (intro conjI allI impI)
      show "\<exists>rest. region (xf_disk y) f s 0 = head_bytes (ps_head b) keys @ rest"
        unfolding y(8) b(3) head16 using head by (auto simp: head_bytes_def)
      show "\<exists>rest. region (xf_disk y) f s (Suc j) = page_entry (ps_copies b ! j) @ rest" if "j < length (ps_copies b)" for j
      proof (cases "j = ?n")
        case True
        with y(7) show ?thesis by (simp add: b(2))
      next
        case False
        with that onf y(6) [of "Suc j"] show ?thesis by (auto simp: b(2) on_file_def nth_append)
      qed
    qed
    moreover have "saves_fit b"
    proof -
      have "\<forall>c\<in>set (ps_copies b). copy_fits (Suc ?n) c"
        using fit cf by (auto simp: saves_fit_def b(2) intro: copy_fits_mono)
      moreover have "\<forall>q. address_fits (Suc ?n) (ps_saved b q)"
        using address_fits_mono [OF spec [OF addr], of "Suc ?n"] by (auto simp: b(1)) (simp add: address_fits_def)
      moreover have "address_fits (Suc ?n) (Some (ps_head b))"
        using fit by (auto simp: saves_fit_def b(3) address_fits_def)
      ultimately show ?thesis using page(3) by (simp add: saves_fit_def b(2))
    qed
    ultimately show ?thesis using y(1-5) sv ld keys by (auto simp: stored_def b)
  qed
qed

section \<open>A session that makes the index\<close>

definition fresh_disk :: "string \<Rightarrow> disk \<Rightarrow> bool" where
  "fresh_disk f d \<longleftrightarrow> d f = (\<lambda>_. CHR 0x00)"

lemma le_bytes_zero: "le_bytes n 0 = replicate n (CHR 0x00)"
  by (induction n) (simp_all add: char_of_def)

lemma write_zero: "write_long 0 = replicate 8 (CHR 0x00)" "write_int 0 = replicate 4 (CHR 0x00)"
  by (simp_all add: write_long_def write_int_def le_bytes_zero)

lemma open_new:
  assumes fresh: "fresh_disk f d" and s: "4096 \<le> s" and save: "save_page 0 new_tree no_saves = Inr a"
  shows "\<exists>x. index_open s f None d = Inr (new_tree, x) \<and> stored f s [] x a"
proof -
  let ?m = "bm_create s f 1"
  define x0 where "x0 = \<lparr>xf_manager = ?m, xf_disk = d, xf_saved = (\<lambda>_. None), xf_loaded = (\<lambda>_. False), xf_keys = []\<rparr>"
  have s0: "0 < s" using s by simp
  have m0: "regions_ok f s 0 ?m"
    by (simp add: regions_ok_def bm_create_def bm_empty_def control_bytes_def Let_def)
  have page: "page_at new_tree 0 = Inr new_page" "pg_parent new_page = None"
    by (simp_all add: page_at_def new_tree_def new_page_def)
  have fits: "elems_fit new_page" by (simp add: elems_fit_def new_page_def list_all_iff)
  define c where "c = copy_of (\<lambda>_. None) new_page"
  have cf: "copy_fits n c" for n unfolding c_def by (rule copy_of_fits [OF fits]) (simp add: address_fits_def)
  define k where "k = length (page_bytes c)"
  from new_buffer_ok [OF m0 s0, of True k] obtain b0 where m1: "regions_ok f s 1 (bm_getCurrentBuffer ?m k True)" by auto
  from new_buffer_ok [OF m1 s0, of True k] obtain b1 where
    m2: "regions_ok f s (Suc 1) (bm_getCurrentBuffer (bm_getCurrentBuffer ?m k True) k True)"
    "last (bm_active (bm_getCurrentBuffer (bm_getCurrentBuffer ?m k True) k True)) = b1" "buffer_ok f s 1 b1" "pb_len b1 = 0" by auto
  have bf: "buffer_for k ?m = bm_getCurrentBuffer (bm_getCurrentBuffer ?m k True) k True"
    using m0 by (simp add: buffer_for_def regions_ok_def)
  have x0: "xf_saved x0 = (\<lambda>_. None)" "xf_manager x0 = ?m" "xf_disk x0 = d" "xf_loaded x0 = (\<lambda>_. False)" "xf_keys x0 = []"
    by (simp_all add: x0_def)
  have cf0: "copy_fits 0 (copy_of (xf_saved x0) new_page)" using cf by (simp add: x0 c_def)
  have bf0: "buffer_for (length (page_bytes (copy_of (xf_saved x0) new_page))) (xf_manager x0) =
      bm_getCurrentBuffer (bm_getCurrentBuffer ?m k True) k True"
    using bf by (simp add: x0 k_def c_def)
  obtain y where y: "persistPage 0 new_tree x0 = Inr y" "regions_ok f s (Suc 1) (xf_manager y)"
    "xf_saved y = (xf_saved x0)(0 \<mapsto> (1, 0))" "xf_loaded y = (xf_loaded x0)(0 := True)" "xf_keys y = xf_keys x0"
    "\<exists>rest. region (xf_disk y) f s 1 = page_entry (copy_of (xf_saved x0) new_page) @ rest"
    "region (xf_disk y) f s 0 = (if pg_parent new_page = None then write_long (of_nat 1) @ write_long (of_nat 0) @ drop 16 (region (xf_disk x0) f s 0)
       else region (xf_disk x0) f s 0)"
    by (rule persist_new [OF page(1) cf0 _ bf0 m2 _ s]) (simp_all add: x0)
  have a: "ps_saved a = [0 \<mapsto> (1, 0)]" "ps_copies a = [c]" "ps_head a = (1, 0)"
    using save fits by (auto simp: save_page_def page c_def no_saves_def Let_def)
  have "region d f s 0 = replicate s (CHR 0x00)" using fresh by (simp add: region_def fresh_disk_def map_replicate_const)
  then have "drop 16 (region d f s 0) = write_int 0 @ replicate (s - 20) (CHR 0x00)"
    using s by (simp add: write_zero replicate_add [symmetric])
  then have "region (xf_disk y) f s 0 = head_bytes (1, 0) [] @ replicate (s - 20) (CHR 0x00)"
    using y(7) page(2) by (simp add: x0 head_bytes_def)
  then have "on_file f s [] a (xf_disk y)" using y(6) by (auto simp: on_file_def a x0 c_def)
  moreover have "saves_fit a" using cf by (simp add: saves_fit_def a address_fits_def)
  ultimately have "stored f s [] y a" using y(2-5) by (auto simp: stored_def a x0 numeral_2_eq_2)
  moreover have "index_open s f None d = Inr (new_tree, y)"
    using y(1) m0 by (simp add: index_open_def bm_open_def x0_def regions_ok_def)
  ultimately show ?thesis by blast
qed

text \<open>The keys go behind the address of the head.\<close>

definition keys_fit :: "nat \<Rightarrow> string list \<Rightarrow> bool" where
  "keys_fit s keys \<longleftrightarrow> 20 + length (concat (map write_chars keys)) \<le> s \<and> s < 2 ^ 31 \<and>
     (\<forall>key\<in>set keys. no_nul key) \<and> sorted keys \<and> distinct keys"

lemma put_keys:
  assumes b: "buffer_ok f s i b" "pb_spos b + length (concat (map write_chars keys)) \<le> s"
  shows "\<exists>b2. foldl (\<lambda>r key. bindR r (pb_writeChars key)) (Inr (d, b)) keys =
    Inr (if keys = [] then d else disk_write d f (i * s + pb_spos b) (concat (map write_chars keys)), b2) \<and> buffer_ok f s i b2"
  using assms
proof (induction keys arbitrary: d b)
  case (Cons key keys)
  let ?d = "disk_write d f (i * s + pb_spos b) (write_chars key)"
  define b1 where "b1 = b\<lparr>pb_spos := pb_spos b + length (write_chars key), pb_len := pb_len b + (pb_spos b + length (write_chars key)),
    pb_pos := pb_pos b + (pb_spos b + length (write_chars key))\<rparr>"
  have step: "pb_writeChars key (d, b) = Inr (?d, b1)"
    using Cons.prems by (simp add: pb_writeChars_def pb_put_def b1_def buffer_ok_def Let_def)
  have "buffer_ok f s i b1" "pb_spos b1 + length (concat (map write_chars keys)) \<le> s"
    using Cons.prems by (simp_all add: b1_def)
  from Cons.IH [OF this, of ?d] obtain b2 where b2: "foldl (\<lambda>r key. bindR r (pb_writeChars key)) (Inr (?d, b1)) keys =
    Inr (if keys = [] then ?d else disk_write ?d f (i * s + pb_spos b1) (concat (map write_chars keys)), b2)" "buffer_ok f s i b2" by blast
  have "i * s + pb_spos b1 = (i * s + pb_spos b) + length (write_chars key)" by (simp add: b1_def)
  then have "disk_write ?d f (i * s + pb_spos b1) (concat (map write_chars keys)) =
      disk_write d f (i * s + pb_spos b) (write_chars key @ concat (map write_chars keys))"
    by (simp only: disk_write_append)
  with b2 step show ?case by auto
qed simp

lemma set_keys:
  assumes x: "stored f s [] x a" and fit: "keys_fit s keys"
  shows "\<exists>y. index_setKeys keys x = Inr y \<and> stored f s keys y a"
proof -
  let ?e = "write_int (of_nat (length keys)) @ concat (map write_chars keys)"
  have m: "regions_ok f s (Suc (length (ps_copies a))) (xf_manager x)" and onf: "on_file f s [] a (xf_disk x)"
    using x by (simp_all add: stored_def)
  from manager_get [OF m zero_less_Suc] obtain b where b: "bm_getBuffer (xf_manager x) 0 = Inr b" "buffer_ok f s 0 b" by blast
  have le: "16 + length ?e \<le> s" using fit by (simp add: keys_fit_def write_int_def)
  define b1 where "b1 = (pb_seek 16 b)\<lparr>pb_spos := 20, pb_len := pb_len b + 4, pb_pos := 20\<rparr>"
  let ?d = "disk_write (xf_disk x) f 16 (write_int (of_nat (length keys)))"
  have "pb_writeInt (of_nat (length keys)) (xf_disk x, pb_seek 16 b) = Inr (?d, b1)"
    using b(2) le by (simp add: pb_writeInt_def pb_put_def pb_seek_def b1_def buffer_ok_def write_int_def)
  moreover have "buffer_ok f s 0 b1" "pb_spos b1 + length (concat (map write_chars keys)) \<le> s"
    using b(2) le by (simp_all add: b1_def write_int_def)
  from put_keys [OF this, of ?d] obtain b2 where b2: "foldl (\<lambda>r key. bindR r (pb_writeChars key)) (Inr (?d, b1)) keys =
    Inr (if keys = [] then ?d else disk_write ?d f (0 * s + pb_spos b1) (concat (map write_chars keys)), b2)" "buffer_ok f s 0 b2" by blast
  have "disk_write ?d f (16 + length (write_int (of_nat (length keys)))) (concat (map write_chars keys)) = disk_write (xf_disk x) f 16 ?e"
    by (rule disk_write_append)
  then have "(if keys = [] then ?d else disk_write ?d f (0 * s + pb_spos b1) (concat (map write_chars keys))) =
      disk_write (xf_disk x) f 16 ?e"
    by (auto simp: b1_def write_int_def)
  ultimately have "write_keys keys (xf_disk x, pb_seek 16 b) = Inr (disk_write (xf_disk x) f 16 ?e, b2)"
    using b2(1) by (simp add: write_keys_def)
  moreover define y where "y = x\<lparr>xf_keys := keys, xf_disk := disk_write (xf_disk x) f 16 ?e, xf_manager := bm_setBuffer 0 b2 (xf_manager x)\<rparr>"
  ultimately have "index_setKeys keys x = Inr y" using b(1) by (simp add: index_setKeys_def buffer_writes_def)
  moreover have "stored f s keys y a"
  proof -
    have other: "region (xf_disk y) f s q = region (xf_disk x) f s q" if "q \<noteq> 0" for q
      using region_other [OF le that, of "xf_disk x" f] by (simp add: y_def)
    obtain rest where "region (xf_disk x) f s 0 = head_bytes (ps_head a) [] @ rest" using onf by (auto simp: on_file_def)
    moreover have "region (xf_disk y) f s 0 = take 16 (region (xf_disk x) f s 0) @ ?e @ drop (16 + length ?e) (region (xf_disk x) f s 0)"
      using region_write [OF le, of "xf_disk x" f 0] by (simp add: y_def)
    ultimately have "\<exists>rest. region (xf_disk y) f s 0 = head_bytes (ps_head a) keys @ rest"
      by (simp add: head_bytes_def write_long_def)
    then have "on_file f s keys a (xf_disk y)" using onf other by (auto simp: on_file_def)
    then show ?thesis using x manager_set [OF m b2(2)] by (simp add: stored_def y_def)
  qed
  ultimately show ?thesis by blast
qed

text \<open>Additions run alike on the files and on the specification.\<close>

lemma addElement_p_sim:
  assumes sim: "\<And>p t x a b. R x a \<Longrightarrow> P p t a = Inr b \<Longrightarrow> \<exists>y. Q p t x = Inr y \<and> R y b"
  shows "R x a \<Longrightarrow> addElement_p P n p e r (t, a) = Inr (u, b) \<Longrightarrow> \<exists>y. addElement_p Q n p e r (t, x) = Inr (u, y) \<and> R y b"
proof (induction n arbitrary: p e r t x a u b)
  case (Suc n)
  note step = Suc.IH
  have split: "\<exists>y. persist_split Q p q (t, x) = Inr (u, y) \<and> R y b"
    if x: "R x a" and pa: "persist_split P p q (t, a) = Inr (u, b)" for p q t x a u b
  proof -
    from pa obtain a1 a2 par a3 where a: "P p t a = Inr a1" "P q t a1 = Inr a2" "pg_parent (bt_pages t ! p) = Some par"
      "P par t a2 = Inr a3" "u = t" "b = a3" by (auto simp: persist_split_def bindR_Inr_iff split: option.splits)
    from sim [OF x a(1)] obtain x1 where x1: "Q p t x = Inr x1" "R x1 a1" by blast
    from sim [OF x1(2) a(2)] obtain x2 where x2: "Q q t x1 = Inr x2" "R x2 a2" by blast
    from sim [OF x2(2) a(4)] obtain x3 where x3: "Q par t x2 = Inr x3" "R x3 a3" by blast
    from x1(1) x2(1) x3 a show ?thesis by (simp add: persist_split_def)
  qed
  have promo: "\<exists>y. promote_p (addElement_p Q n) p q (t, x) = Inr (u, y) \<and> R y b"
    if x: "R x a" and pa: "promote_p (addElement_p P n) p q (t, a) = Inr (u, b)" for p q t x a u b
    using pa x step by (auto simp: promote_p_def split: option.splits)
  from Suc.prems(2) obtain page where page: "page_at t p = Inr page" by (auto simp: bindR_Inr_iff)
  consider "\<not> isFull page" | "isFull page" "isLeaf page" "r = None" | "isFull page" "\<not> isLeaf page"
    using Suc.prems(2) page by (auto split: if_splits)
  then show ?case
  proof cases
    case 1
    with Suc.prems(2) page have pa: "P p (add_to_page p e r t) a = Inr b" "u = add_to_page p e r t"
      by (auto simp: Let_def bindR_Inr_iff)
    from sim [OF Suc.prems(1) pa(1)] obtain y where "Q p (add_to_page p e r t) x = Inr y" "R y b" by blast
    with 1 page pa(2) show ?thesis by (simp add: Let_def)
  next
    case 2
    obtain q t1 where sp: "split_leaf p e t = (q, t1)" by (cases "split_leaf p e t")
    from Suc.prems(2) page 2 sp obtain t2 a2 t3 where pa: "promote_p (addElement_p P n) p q (t1, a) = Inr (t2, a2)"
      "refresh_parent_of q t2 = Inr t3" "persist_split P p q (t3, a2) = Inr (u, b)" by (auto simp: bindR_Inr_iff)
    from promo [OF Suc.prems(1) pa(1)] obtain x2 where x2: "promote_p (addElement_p Q n) p q (t1, x) = Inr (t2, x2)" "R x2 a2" by blast
    from split [OF x2(2) pa(3)] x2(1) pa(2) page 2 sp show ?thesis by auto
  next
    case 3
    obtain q t1 where sp: "split_inner p e r t = (q, t1)" by (cases "split_inner p e r t")
    from Suc.prems(2) page 3 sp obtain t2 a2 t3 where pa: "promote_p (addElement_p P n) p q (t1, a) = Inr (t2, a2)"
      "refresh_parent_of q (drop_first q t2) = Inr t3" "persist_split P p q (t3, a2) = Inr (u, b)" by (auto simp: bindR_Inr_iff)
    from promo [OF Suc.prems(1) pa(1)] obtain x2 where x2: "promote_p (addElement_p Q n) p q (t1, x) = Inr (t2, x2)" "R x2 a2" by blast
    from split [OF x2(2) pa(3)] x2(1) pa(2) page 3 sp show ?thesis by auto
  qed
qed simp

lemma find_page_loaded:
  assumes "\<forall>p<pages t. xf_loaded x p"
  shows "findIndexPage m t p key = Inr q \<Longrightarrow> m \<le> n \<Longrightarrow> findIndexPage_x n p key (t, x) = Inr (q, (t, x))"
proof (induction m arbitrary: p n)
  case (Suc m)
  then obtain n' where n: "n = Suc n'" "m \<le> n'" by (cases n) auto
  from Suc.prems(1) obtain page where "page_at t p = Inr page" by (auto simp: bindR_Inr_iff)
  then have p: "page_at t p = Inr page" "ensure_loaded p (t, x) = Inr (t, x)"
    using assms by (auto simp: page_at_def ensure_loaded_def split: if_splits)
  show ?case
  proof (cases "isLeaf page")
    case False
    with Suc.prems(1) p obtain step where "find_page_loop page key 0 (pg_size page) = Inr step"
      "(case step of Some child \<Rightarrow> findIndexPage m t child key | None \<Rightarrow> Inr p) = Inr q" by (auto simp: bindR_Inr_iff)
    with False p n Suc.IH [OF _ n(2)] show ?thesis by (cases step) auto
  qed (use Suc.prems p n in simp)
qed simp

lemma add_stored:
  assumes x: "stored f s keys x a" and s: "4096 \<le> s" and a: "dated_but {} t a"
    and add: "index_add_s key docId pos (t, a) = Inr (u, b)"
  shows "\<exists>y. index_add_x key docId pos (t, x) = Inr (u, y) \<and> stored f s keys y b"
proof -
  have "\<forall>p<pages t. \<exists>at. ps_saved a p = Some at" using dated_saved [OF a] by blast
  then have loaded: "\<forall>p<pages t. xf_loaded x p" using x by (auto simp: stored_def)
  have "saves_ok (pages t) a" using a by (simp add: dated_but_def)
  moreover from this have "{..<pages t} = dom (ps_saved a)"
    using \<open>\<forall>p<pages t. \<exists>at. ps_saved a p = Some at\<close> saved_dom [of "pages t" a] by blast
  ultimately have "length (ps_copies a) = pages t" by (metis card_lessThan saves_ok_def)
  then have fuel: "bt_fuel t \<le> x_fuel (t, x)" using x by (simp add: bt_fuel_def x_fuel_def stored_def regions_ok_def)
  from add obtain p where p: "findIndexPage (bt_fuel t) t (bt_head t) key = Inr p"
    "addElement_p save_page (bt_fuel t) p \<lparr>ie_id = key, ie_documentId = docId, ie_posData = pos\<rparr> None (t, a) = Inr (u, b)"
    by (auto simp: index_add_s_def bindR_Inr_iff)
  have "\<exists>y. addElement_p persistPage (bt_fuel t) p \<lparr>ie_id = key, ie_documentId = docId, ie_posData = pos\<rparr> None (t, x) =
      Inr (u, y) \<and> stored f s keys y b"
    using persist_stored [OF _ s] x p(2)
    by (rule addElement_p_sim [where P = save_page and Q = persistPage and R = "stored f s keys"])
  with find_page_loaded [OF loaded p(1) fuel] show ?thesis by (auto simp: index_add_x_def)
qed

lemma add_all_stored:
  "stored f s keys x a \<Longrightarrow> 4096 \<le> s \<Longrightarrow> index_saved n L t a \<Longrightarrow> n + length xs \<le> 20 \<Longrightarrow> distinct (map fst xs) \<Longrightarrow>
   \<forall>e\<in>set xs. entry_fits e \<and> dk (fst e) \<notin> el_key ` L \<Longrightarrow>
   \<exists>u b y. add_all index_add_s xs (t, a) = Inr (u, b) \<and> add_all index_add_x xs (t, x) = Inr (u, y) \<and> stored f s keys y b \<and>
     index_saved (n + length xs) (L \<union> entry_elem ` set xs) u b"
proof (induction xs arbitrary: n L t a x)
  case (Cons e xs)
  have "n + length [e] \<le> 20" "distinct (map fst [e])" "\<forall>y\<in>set [e]. entry_fits y \<and> dk (fst y) \<notin> el_key ` L"
    using Cons.prems(4-6) by simp_all
  from add_all_saved [OF Cons.prems(3) this] obtain u b where
    u: "index_add_s (fst e) (fst (snd e)) (snd (snd e)) (t, a) = Inr (u, b)" "index_saved (Suc n) (insert (entry_elem e) L) u b"
    by (auto simp: bindR_Inr_iff)
  have "dated_but {} t a" using Cons.prems(3) by (simp add: index_saved_def)
  from add_stored [OF Cons.prems(1,2) this u(1)] obtain y where
    y: "index_add_x (fst e) (fst (snd e)) (snd (snd e)) (t, x) = Inr (u, y)" "stored f s keys y b" by blast
  note fresh = fresh_entries [OF Cons.prems(5,6)]
  from Cons.IH [OF y(2) Cons.prems(2) u(2) _ _ fresh] Cons.prems(4,5) obtain v c z where
    v: "add_all index_add_s xs (u, b) = Inr (v, c)" "add_all index_add_x xs (u, y) = Inr (v, z)" "stored f s keys z c"
      "index_saved (Suc n + length xs) (insert (entry_elem e) L \<union> entry_elem ` set xs) v c" by auto
  with u(1) y(1) show ?case by (intro exI [of _ v] exI [of _ c] exI [of _ z]) simp
qed (auto intro: exI)

end
