(* ===== verification/Index_Reopen.thy ===== *)
theory Index_Reopen
  imports Index_Stored
begin

text \<open>
  A later session on the files of an index: the control file gives the buffers again, the first buffer
  the address of the head and the keys, and a search that loads pages on its way finds in the bytes what
  a search in the tree of the copies (Index_Saved) finds.
\<close>

declare split_paired_All [simp del] split_paired_Ex [simp del]

section \<open>The buffers again\<close>

lemma load_record_bytes:
  assumes "no_nul f" "int32_size (length f)" "i * s < 2 ^ 64" "0 < s"
  shows "\<exists>b. load_record s s pos ([CHR 0x01] @ write_long (of_nat (i * s)) @ write_long 0 @ write_chars f @ r) = Inr ((True, b), r) \<and>
    buffer_ok f s i (b\<lparr>pb_index := i\<rparr>)"
proof -
  let ?b = "(new_buffer s f (i * s) s (s div s))\<lparr>pb_control := pos\<rparr>"
  have "read_raw 1 (CHR 0x01 # xs) = Inr ([CHR 0x01], xs)" for xs by (simp add: read_raw_def)
  moreover have "unat (of_nat (i * s) :: int64) = i * s" using assms(3) by (simp add: unat_of_nat del: of_nat_mult)
  ultimately have "load_record s s pos ([CHR 0x01] @ write_long (of_nat (i * s)) @ write_long 0 @ write_chars f @ r) = Inr ((True, ?b), r)"
    using assms(1,2) by (simp add: load_record_def rbind_Inr rreturn_def del: One_nat_def of_nat_mult)
  moreover have "buffer_ok f s i (?b\<lparr>pb_index := i\<rparr>)" using assms(4) by (simp add: buffer_ok_def new_buffer_def)
  ultimately show ?thesis by blast
qed

lemma load_records_bytes:
  assumes f: "no_nul f" "int32_size (length f)" and s: "0 < s"
  shows "(k + n) * s < 2 ^ 64 \<Longrightarrow>
    \<exists>bs. load_records s s len n True (concat (map (\<lambda>i. [CHR 0x01] @ write_long (of_nat (i * s)) @ write_long 0 @ write_chars f) [k..<k + n]) @ r) =
      Inr (([], bs, []), r) \<and> length bs = n \<and> (\<forall>j<n. buffer_ok f s (k + j) ((bs ! j)\<lparr>pb_index := k + j\<rparr>))"
proof (induction n arbitrary: k)
  case (Suc n)
  let ?e = "\<lambda>i. [CHR 0x01] @ write_long (of_nat (i * s)) @ write_long 0 @ write_chars f"
  let ?rest = "concat (map ?e [Suc k..<Suc k + n]) @ r"
  have "[k..<k + Suc n] = k # [Suc k..<Suc k + n]" by (simp add: upt_rec)
  then have bytes: "concat (map ?e [k..<k + Suc n]) @ r = ?e k @ ?rest" by (simp only: list.map concat.simps append.assoc)
  have "k * s \<le> (k + Suc n) * s" by (intro mult_le_mono1) simp
  then have "k * s < 2 ^ 64" using Suc.prems by simp
  from load_record_bytes [OF f this s, of "len - length (?e k @ ?rest)" ?rest] obtain b where
    b: "load_record s s (len - length (?e k @ ?rest)) (?e k @ ?rest) = Inr ((True, b), ?rest)" "buffer_ok f s k (b\<lparr>pb_index := k\<rparr>)" by auto
  from Suc.IH [of "Suc k"] Suc.prems obtain bs where
    bs: "load_records s s len n True ?rest = Inr (([], bs, []), r)" "length bs = n"
      "\<forall>j<n. buffer_ok f s (Suc k + j) ((bs ! j)\<lparr>pb_index := Suc k + j\<rparr>)" by auto
  have "load_records s s len (Suc n) True (?e k @ ?rest) = Inr (([], b # bs, []), r)"
    using b(1) bs(1) by (simp add: rbind_def rreturn_def)
  moreover have "\<forall>j<Suc n. buffer_ok f s (k + j) (((b # bs) ! j)\<lparr>pb_index := k + j\<rparr>)"
    using b(2) bs(3) by (auto simp: nth_Cons split: nat.split)
  ultimately show ?case using bs(2) unfolding bytes by (intro exI [of _ "b # bs"]) simp
qed (simp add: rreturn_def)

lemma add_buffers:
  "bm_buffersCount (foldl bm_addBuffer m bs) = bm_buffersCount m + length bs \<and>
   (\<exists>as. bm_active (foldl bm_addBuffer m bs) = bm_active m @ as \<and> length as = length bs \<and>
     (\<forall>j<length bs. as ! j = (bs ! j)\<lparr>pb_index := bm_buffersCount m + j\<rparr>)) \<and>
   bm_file (foldl bm_addBuffer m bs) = bm_file m \<and> bm_pageSize (foldl bm_addBuffer m bs) = bm_pageSize m \<and>
   bm_buffersSize (foldl bm_addBuffer m bs) = bm_buffersSize m \<and> bm_reusable (foldl bm_addBuffer m bs) = bm_reusable m \<and>
   bm_control (foldl bm_addBuffer m bs) = bm_control m"
proof (induction bs arbitrary: m)
  case (Cons b bs)
  let ?m = "bm_addBuffer m b"
  have add: "bm_buffersCount ?m = Suc (bm_buffersCount m)" "bm_active ?m = bm_active m @ [b\<lparr>pb_index := bm_buffersCount m\<rparr>]"
    "bm_file ?m = bm_file m" "bm_pageSize ?m = bm_pageSize m" "bm_buffersSize ?m = bm_buffersSize m"
    "bm_reusable ?m = bm_reusable m" "bm_control ?m = bm_control m"
    by (simp_all add: bm_addBuffer_def)
  from Cons [of ?m] obtain as where as: "bm_active (foldl bm_addBuffer ?m bs) = bm_active ?m @ as"
    "length as = length bs" "\<forall>j<length bs. as ! j = (bs ! j)\<lparr>pb_index := bm_buffersCount ?m + j\<rparr>" by blast
  let ?as = "b\<lparr>pb_index := bm_buffersCount m\<rparr> # as"
  have "\<forall>j<length (b # bs). ?as ! j = ((b # bs) ! j)\<lparr>pb_index := bm_buffersCount m + j\<rparr>"
    using as(3) by (auto simp: nth_Cons add split: nat.split)
  with as(1,2) have "\<exists>as. bm_active (foldl bm_addBuffer m (b # bs)) = bm_active m @ as \<and> length as = length (b # bs) \<and>
      (\<forall>j<length (b # bs). as ! j = ((b # bs) ! j)\<lparr>pb_index := bm_buffersCount m + j\<rparr>)"
    by (intro exI [of _ ?as]) (simp add: add)
  moreover note Cons [of ?m]
  ultimately show ?case by (simp add: add)
qed simp

lemma load_manager:
  assumes f: "no_nul f" "int32_size (length f)" and s: "0 < s" "s < 2 ^ 31" and n: "n < 2 ^ 31"
  shows "\<exists>m. bm_load s f (control_bytes f s n) = Inr m \<and> regions_ok f s n m"
proof -
  let ?E = "concat (map (\<lambda>i. [CHR 0x01] @ write_long (of_nat (i * s)) @ write_long 0 @ write_chars f) [0..<0 + n])"
  have "n * s < 2 ^ 31 * 2 ^ 31" using n s by (intro mult_strict_mono) auto
  then have "(0 + n) * s < 2 ^ 64" by simp
  from load_records_bytes [OF f s(1) this, of "length (control_bytes f s n)" "[]"] obtain bs where
    bs: "load_records s s (length (control_bytes f s n)) n True ?E = Inr (([], bs, []), [])" "length bs = n"
      "\<forall>j<n. buffer_ok f s j ((bs ! j)\<lparr>pb_index := j\<rparr>)" by auto
  have us: "unat (of_nat s :: int64) = s" using s by (simp add: unat_of_nat)
  have sn: "sint (of_nat n :: int32) = int n" using n by (intro int32_small) simp
  define m where "m = foldl bm_addBuffer (bm_empty s f s (control_bytes f s n)) bs"
  have bytes: "control_bytes f s n = write_long (of_nat s) @ write_int (of_nat n) @ ?E" by (simp add: control_bytes_def)
  have "bm_load s f (control_bytes f s n) = Inr m"
    unfolding bm_load_def
    by (subst (1) bytes) (use bs(1) us sn in \<open>simp add: m_def bm_empty_def\<close>)
  moreover have "regions_ok f s n m"
    using add_buffers [of "bm_empty s f s (control_bytes f s n)" bs] bs(2,3)
    by (auto simp: m_def regions_ok_def bm_empty_def)
  ultimately show ?thesis by blast
qed

text \<open>Reading in a region.\<close>

lemma pb_read_region:
  assumes b: "buffer_ok f s i b" and at: "drop (pb_spos b) (region d f s i) = xs @ r" and rd: "rd (xs @ r) = Inr (v, r)"
  shows "pb_read rd d b = Inr (v, b\<lparr>pb_spos := pb_spos b + length xs, pb_pos := pb_pos b + length xs\<rparr>)"
  using assms by (simp add: pb_read_def deref_def buffer_view [OF b] Let_def)

lemma drop_region: "drop k (region d f s i) = xs @ r \<Longrightarrow> drop (k + length xs) (region d f s i) = r"
  by (metis add.commute append_eq_conv_conj drop_drop)

section \<open>Loading pages\<close>

text \<open>A page of the heap agrees with a copy when its pointers are pages with the addresses of the copy.\<close>

definition pointer_rel :: "nat \<Rightarrow> (page_id \<Rightarrow> page_address option) \<Rightarrow> page_address option \<Rightarrow> page_id option \<Rightarrow> bool" where
  "pointer_rel n saved = rel_option (\<lambda>at c. c < n \<and> saved c = Some at)"

definition agrees :: "nat \<Rightarrow> (page_id \<Rightarrow> page_address option) \<Rightarrow> page_copy \<Rightarrow> index_page \<Rightarrow> bool" where
  "agrees n saved = (\<lambda>(es, ads, k) page. pg_elements page = es \<and> pg_size page = k \<and>
     list_all2 (pointer_rel n saved) ads (pg_pointers page))"

text \<open>What holds of an index that is loaded bit by bit.\<close>

definition lazy :: "string \<Rightarrow> nat \<Rightarrow> string list \<Rightarrow> page_saves \<Rightarrow> index_store \<Rightarrow> bool" where
  "lazy f s keys a = (\<lambda>(t, x). regions_ok f s (Suc (length (ps_copies a))) (xf_manager x) \<and> on_file f s keys a (xf_disk x) \<and>
     (\<forall>p<pages t. \<exists>i. xf_saved x p = Some (i, 0) \<and> 1 \<le> i \<and> i \<le> length (ps_copies a) \<and>
        (xf_loaded x p \<longrightarrow> agrees (pages t) (xf_saved x) (ps_copies a ! (i - 1)) (bt_pages t ! p))))"

text \<open>A store that has more pages and keeps the addresses of the old ones.\<close>

definition store_grown :: "index_store \<Rightarrow> index_store \<Rightarrow> bool" where
  "store_grown s s' \<longleftrightarrow> pages (fst s) \<le> pages (fst s') \<and> bt_head (fst s') = bt_head (fst s) \<and>
     (\<forall>p<pages (fst s). xf_saved (snd s') p = xf_saved (snd s) p)"

lemma store_grown_refl [simp]: "store_grown s s"
  by (simp add: store_grown_def)

lemma store_grown_trans: "store_grown s s' \<Longrightarrow> store_grown s' s'' \<Longrightarrow> store_grown s s''"
  by (auto simp: store_grown_def)

lemma pointer_rel_mono:
  assumes "pointer_rel n saved at c" "n \<le> n'" "\<And>p. p < n \<Longrightarrow> saved' p = saved p"
  shows "pointer_rel n' saved' at c"
  using assms by (auto simp: pointer_rel_def elim!: option.rel_cases)

lemma agrees_mono:
  assumes "agrees n saved c page" "n \<le> n'" "\<And>p. p < n \<Longrightarrow> saved' p = saved p"
  shows "agrees n' saved' c page"
  using assms by (auto simp: agrees_def elim!: list_all2_mono pointer_rel_mono)

lemma load_pointers_spec:
  "load_pointers p ads (t, x) = (ps, (t', x')) \<Longrightarrow>
   store_grown (t, x) (t', x') \<and> (\<forall>q<pages t. bt_pages t' ! q = bt_pages t ! q \<and> xf_loaded x' q = xf_loaded x q) \<and>
   (\<forall>q. pages t \<le> q \<longrightarrow> q < pages t' \<longrightarrow> \<not> xf_loaded x' q \<and> (\<exists>at. Some at \<in> set ads \<and> xf_saved x' q = Some at)) \<and>
   list_all2 (pointer_rel (pages t') (xf_saved x')) ads ps \<and>
   xf_manager x' = xf_manager x \<and> xf_disk x' = xf_disk x \<and> xf_keys x' = xf_keys x"
proof (induction ads arbitrary: t x ps)
  case (Cons ad ads)
  show ?case
  proof (cases ad)
    case None
    then obtain qs where "load_pointers p ads (t, x) = (qs, (t', x'))" "ps = None # qs"
      using Cons.prems by (auto split: prod.splits)
    with Cons.IH [of t x qs] None show ?thesis by (auto simp: pointer_rel_def)
  next
    case (Some at)
    let ?c = "pages t"
    let ?t = "t\<lparr>bt_pages := bt_pages t @ [new_page\<lparr>pg_parent := Some p\<rparr>]\<rparr>"
    let ?x = "x\<lparr>xf_saved := (xf_saved x)(?c \<mapsto> at), xf_loaded := (xf_loaded x)(?c := False)\<rparr>"
    from Cons.prems Some obtain qs where qs: "load_pointers p ads (?t, ?x) = (qs, (t', x'))" "ps = Some ?c # qs"
      by (auto simp: alloc_page_def split: prod.splits)
    note IH = Cons.IH [OF qs(1)]
    have g: "pages ?t \<le> pages t'" "bt_head t' = bt_head t" "\<forall>q<Suc ?c. xf_saved x' q = xf_saved ?x q"
      using IH by (auto simp: store_grown_def)
    have "store_grown (t, x) (t', x')" using g by (auto simp: store_grown_def)
    moreover have "bt_pages t' ! q = bt_pages t ! q \<and> xf_loaded x' q = xf_loaded x q" if "q < pages t" for q
      using IH that by (auto simp: nth_append)
    moreover have "\<not> xf_loaded x' q \<and> (\<exists>at. Some at \<in> set (ad # ads) \<and> xf_saved x' q = Some at)" if "?c \<le> q" "q < pages t'" for q
    proof (cases "q = ?c")
      case True
      with IH g(3) Some show ?thesis by auto
    next
      case False
      with that(1) have "Suc ?c \<le> q" by simp
      then have "\<not> xf_loaded x' q" "\<exists>at. Some at \<in> set ads \<and> xf_saved x' q = Some at" using IH that(2) by auto
      then show ?thesis by auto
    qed
    moreover have "pointer_rel (pages t') (xf_saved x') ad (Some ?c)" using g Some by (simp add: pointer_rel_def)
    ultimately show ?thesis using IH qs(2) by auto
  qed
qed simp

lemma page_entry_read:
  assumes a: "saves_fit a" and onf: "on_file f s keys a d" and i: "1 \<le> i" "i \<le> length (ps_copies a)" and b: "buffer_ok f s i b"
  obtains b1 b2 where "pb_readInt d (pb_seek 0 b) = Inr (of_nat (length (page_bytes (ps_copies a ! (i - 1)))), b1)"
    "pb_readChars d b1 = Inr (page_bytes (ps_copies a ! (i - 1)), b2)" "buffer_ok f s i b2"
    "retrieve_page (page_bytes (ps_copies a ! (i - 1))) = Inr (ps_copies a ! (i - 1), [])"
    "int32_size (length (page_bytes (ps_copies a ! (i - 1))))"
proof -
  let ?c = "ps_copies a ! (i - 1)" and ?n = "length (ps_copies a)"
  let ?v = "of_nat (length (page_bytes ?c)) :: int32"
  have j: "i - 1 < ?n" "Suc (i - 1) = i" using i by simp_all
  have "?c \<in> set (ps_copies a)" using j(1) by (rule nth_mem)
  then have cf: "copy_fits ?n ?c" "?n < 2 ^ 31" using a by (auto simp: saves_fit_def)
  have small: "int32_size (length (page_bytes ?c))" using page_length [OF cf(1)] by (simp add: int32_size_def)
  from onf j obtain rest where "region d f s (Suc (i - 1)) = page_entry ?c @ rest" unfolding on_file_def by blast
  then have reg: "drop 0 (region d f s i) = write_int ?v @ write_chars (page_bytes ?c) @ rest"
    unfolding j(2) by (simp add: page_entry_def)
  define b1 where "b1 = (pb_seek 0 b)\<lparr>pb_spos := 4, pb_pos := 4\<rparr>"
  have "pb_read read_int d (pb_seek 0 b) = Inr (?v, b1)"
    using pb_read_region [of f s i "pb_seek 0 b" d _ _ read_int, OF _ _ read_write_int] b reg
    by (simp add: b1_def pb_seek_def write_int_def)
  then have 1: "pb_readInt d (pb_seek 0 b) = Inr (?v, b1)" by (simp add: pb_readInt_def)
  have "drop (pb_spos b1) (region d f s i) = write_chars (page_bytes ?c) @ rest"
    using drop_region [OF reg] by (simp add: b1_def write_int_def)
  moreover have b1: "buffer_ok f s i b1" using b by (simp add: b1_def)
  ultimately have "pb_read read_chars d b1 = Inr (page_bytes ?c, b1\<lparr>pb_spos := pb_spos b1 + length (write_chars (page_bytes ?c)),
      pb_pos := pb_pos b1 + length (write_chars (page_bytes ?c))\<rparr>)"
    using read_write_chars [OF small] by (intro pb_read_region [OF b1, where rd = read_chars and r = rest])
  then have 2: "pb_readChars d b1 = Inr (page_bytes ?c, b1\<lparr>pb_spos := pb_spos b1 + length (write_chars (page_bytes ?c)),
      pb_pos := pb_spos b1 + length (write_chars (page_bytes ?c))\<rparr>)" by (simp add: pb_readChars_def)
  have 3: "retrieve_page (page_bytes ?c) = Inr (?c, [])" using retrieve_page_bytes [OF cf, of "[]"] by simp
  show ?thesis by (rule that [OF 1 2 _ 3 small]) (use b1 in simp)
qed

lemma int32_size_small: "int32_size n \<Longrightarrow> sint (of_nat n :: int32) = int n"
  by (simp add: int32_size_def int32_small)

lemma load_page:
  assumes z: "lazy f s keys a (t, x)" and a: "saves_fit a" and p: "p < pages t" and no: "\<not> xf_loaded x p"
  obtains u y where "loadPage p (t, x) = Inr (u, y)" "lazy f s keys a (u, y)" "store_grown (t, x) (u, y)" "xf_loaded y p"
    "xf_keys y = xf_keys x"
proof -
  let ?n = "length (ps_copies a)"
  have m: "regions_ok f s (Suc ?n) (xf_manager x)" and onf: "on_file f s keys a (xf_disk x)"
    and old: "\<And>q. q < pages t \<Longrightarrow> \<exists>i. xf_saved x q = Some (i, 0) \<and> 1 \<le> i \<and> i \<le> ?n \<and>
      (xf_loaded x q \<longrightarrow> agrees (pages t) (xf_saved x) (ps_copies a ! (i - 1)) (bt_pages t ! q))"
    using z by (auto simp: lazy_def)
  from old [OF p] obtain i where i: "xf_saved x p = Some (i, 0)" "1 \<le> i" "i \<le> ?n" by blast
  from i(3) have "i < Suc ?n" by simp
  from manager_get [OF m this] obtain b where b: "bm_getBuffer (xf_manager x) i = Inr b" "buffer_ok f s i b" by blast
  obtain es ads k where c: "ps_copies a ! (i - 1) = (es, ads, k)" by (cases "ps_copies a ! (i - 1)")
  obtain b1 b2 where r: "pb_readInt (xf_disk x) (pb_seek 0 b) = Inr (of_nat (length (page_bytes (es, ads, k))), b1)"
    "pb_readChars (xf_disk x) b1 = Inr (page_bytes (es, ads, k), b2)" "buffer_ok f s i b2"
    "retrieve_page (page_bytes (es, ads, k)) = Inr ((es, ads, k), [])" "int32_size (length (page_bytes (es, ads, k)))"
    using page_entry_read [OF a onf i(2,3) b(2)] unfolding c by blast
  have "ps_copies a ! (i - 1) \<in> set (ps_copies a)" using i by (intro nth_mem) simp
  then have fits: "\<forall>at\<in>set ads. address_fits ?n at" using a c by (auto simp: saves_fit_def copy_fits_def)
  define x1 where "x1 = x\<lparr>xf_manager := bm_setBuffer i b2 (xf_manager x)\<rparr>"
  obtain ps t1 x2 where ld: "load_pointers p ads (t, x1) = (ps, (t1, x2))" by (metis prod.exhaust)
  from load_pointers_spec [OF ld] have
    g: "store_grown (t, x1) (t1, x2)" and
    same: "\<And>q. q < pages t \<Longrightarrow> bt_pages t1 ! q = bt_pages t ! q \<and> xf_loaded x2 q = xf_loaded x1 q" and
    fresh: "\<And>q. pages t \<le> q \<Longrightarrow> q < pages t1 \<Longrightarrow> \<not> xf_loaded x2 q \<and> (\<exists>at. Some at \<in> set ads \<and> xf_saved x2 q = Some at)" and
    ptrs: "list_all2 (pointer_rel (pages t1) (xf_saved x2)) ads ps" and
    keep: "xf_manager x2 = xf_manager x1" "xf_disk x2 = xf_disk x1" "xf_keys x2 = xf_keys x1" by blast+
  define u where "u = set_page p ((bt_pages t1 ! p)\<lparr>pg_elements := es, pg_pointers := ps, pg_size := k\<rparr>) t1"
  define y where "y = x2\<lparr>xf_loaded := (xf_loaded x2)(p := True)\<rparr>"
  have more: "pages t \<le> pages t1" "\<And>q. q < pages t \<Longrightarrow> xf_saved x2 q = xf_saved x q"
    using g by (auto simp: store_grown_def x1_def)
  have pu: "pages u = pages t1" by (simp add: u_def set_page_def)
  have "sint (of_nat (length (page_bytes (es, ads, k))) :: int32) = int (length (page_bytes (es, ads, k)))"
    using r(5) by (rule int32_size_small)
  then have "loadPage p (t, x) = Inr (u, y)"
    using i(1) b(1) r(1,2,4) ld by (simp add: loadPage_def x1_def [symmetric] u_def y_def Let_def)
  moreover have "store_grown (t, x) (u, y)"
    using g by (simp add: store_grown_def u_def y_def x1_def set_page_def)
  moreover have "lazy f s keys a (u, y)"
    unfolding lazy_def prod.case
  proof (intro conjI allI impI)
    show "regions_ok f s (Suc ?n) (xf_manager y)" using manager_set [OF m r(3)] by (simp add: y_def keep x1_def)
    show "on_file f s keys a (xf_disk y)" using onf by (simp add: y_def keep x1_def)
    fix q assume q: "q < pages u"
    show "\<exists>j. xf_saved y q = Some (j, 0) \<and> 1 \<le> j \<and> j \<le> ?n \<and>
        (xf_loaded y q \<longrightarrow> agrees (pages u) (xf_saved y) (ps_copies a ! (j - 1)) (bt_pages u ! q))"
    proof (cases "q < pages t")
      case True
      from old [OF True] obtain j where j: "xf_saved x q = Some (j, 0)" "1 \<le> j" "j \<le> ?n"
        "xf_loaded x q \<longrightarrow> agrees (pages t) (xf_saved x) (ps_copies a ! (j - 1)) (bt_pages t ! q)" by blast
      show ?thesis
      proof (cases "q = p")
        case True
        with i p more ptrs c show ?thesis by (simp add: y_def u_def set_page_at pu agrees_def)
      next
        case False
        have "agrees (pages t1) (xf_saved x2) (ps_copies a ! (j - 1)) (bt_pages t ! q)" if "xf_loaded x q"
          using j(4) that more by (blast intro: agrees_mono)
        with j(1-3) False True more same [OF True] show ?thesis
          by (simp add: y_def u_def set_page_at x1_def pu)
      qed
    next
      case False
      with q pu fresh [of q] obtain at where at: "\<not> xf_loaded x2 q" "Some at \<in> set ads" "xf_saved x2 q = Some at" by auto
      from at(2) fits have "address_fits ?n (Some at)" by blast
      with at False p show ?thesis by (cases at) (auto simp: address_fits_def y_def)
    qed
  qed
  moreover have "xf_loaded y p" "xf_keys y = xf_keys x" by (simp_all add: y_def keep x1_def)
  ultimately show ?thesis using that by blast
qed

lemma ensure_page:
  assumes "lazy f s keys a (t, x)" "saves_fit a" "p < pages t"
  obtains u y where "ensure_loaded p (t, x) = Inr (u, y)" "lazy f s keys a (u, y)" "store_grown (t, x) (u, y)" "xf_loaded y p"
    "xf_keys y = xf_keys x"
proof (cases "xf_loaded x p")
  case True
  with assms(1) show ?thesis by (intro that [of t x]) (simp_all add: ensure_loaded_def)
next
  case False
  with load_page [OF assms(1-3) False] that show ?thesis by (auto simp: ensure_loaded_def)
qed

section \<open>Searching\<close>

text \<open>One page of the tree of the copies against one of the heap.\<close>

definition step_rel :: "nat \<Rightarrow> (page_id \<Rightarrow> page_address option) \<Rightarrow> search_step \<Rightarrow> search_step \<Rightarrow> bool" where
  "step_rel n saved s1 s2 \<longleftrightarrow> (case s1 of
     Descend i \<Rightarrow> (\<exists>c pos. s2 = Descend c \<and> c < n \<and> saved c = Some (i, pos)) | _ \<Rightarrow> s2 = s1)"

lemma find_loop_agrees:
  assumes g: "agrees n saved (es, ads, k) page" "k < length ads"
  shows "find_loop (page_of_copy (es, ads, k)) key x m = Inr step \<Longrightarrow> x + m = k \<Longrightarrow>
    \<exists>step'. find_loop page key x m = Inr step' \<and> step_rel n saved step step'"
proof (induction m arbitrary: x)
  have page: "pg_elements page = es" "pg_size page = k" "list_all2 (pointer_rel n saved) ads (pg_pointers page)"
    using g(1) by (simp_all add: agrees_def)
  have pointer: "step_rel n saved (case map (map_option fst) ads ! y of Some child \<Rightarrow> Descend child | None \<Rightarrow> Missing)
      (case pg_pointers page ! y of Some child \<Rightarrow> Descend child | None \<Rightarrow> Missing)" if "y \<le> k" for y
  proof -
    have y: "y < length ads" using that g(2) by simp
    with page(3) have "pointer_rel n saved (ads ! y) (pg_pointers page ! y)" by (rule list_all2_nthD)
    with y show ?thesis
      by (auto simp: pointer_rel_def step_rel_def elim!: option.rel_cases)
  qed
  {
    case 0
    then show ?case using pointer [of k] page by (auto simp: page_of_copy_def)
  next
    case (Suc m)
    then show ?case using pointer [of x] page Suc.IH [of "x + 1"]
      by (auto simp: page_of_copy_def step_rel_def split: option.splits if_splits)
  }
qed

lemma disk_page: "1 \<le> i \<Longrightarrow> i \<le> length (ps_copies a) \<Longrightarrow> page_at (disk_tree a) i = Inr (page_of_copy (ps_copies a ! (i - 1)))"
  by (cases i) (simp_all add: page_at_def disk_tree_def)

definition found_rel :: "page_saves \<Rightarrow> index_store \<Rightarrow> (page_id \<times> nat) option \<Rightarrow> (page_id \<times> nat) option \<Rightarrow> bool" where
  "found_rel a s = rel_option (\<lambda>place place'. bt_element (fst s) place' = bt_element (disk_tree a) place)"

lemma find_lazy:
  assumes a: "saves_fit a"
  shows "lazy f s keys a (t, x) \<Longrightarrow> p < pages t \<Longrightarrow> xf_saved x p = Some (i, 0) \<Longrightarrow>
    findIndex m (disk_tree a) i key = Inr found \<Longrightarrow>
    \<exists>found' u y. findIndex_x m p key (t, x) = Inr (found', (u, y)) \<and> lazy f s keys a (u, y) \<and> store_grown (t, x) (u, y) \<and>
      xf_keys y = xf_keys x \<and> found_rel a (u, y) found found'"
proof (induction m arbitrary: t x p i)
  case (Suc m)
  from ensure_page [OF Suc.prems(1) a Suc.prems(2)] obtain u y where
    u: "ensure_loaded p (t, x) = Inr (u, y)" "lazy f s keys a (u, y)" "store_grown (t, x) (u, y)" "xf_loaded y p"
      "xf_keys y = xf_keys x" by blast
  from u(3) Suc.prems(2,3) have p: "p < pages u" "xf_saved y p = Some (i, 0)" by (auto simp: store_grown_def)
  with u(2,4) have i: "1 \<le> i" "i \<le> length (ps_copies a)"
    and g: "agrees (pages u) (xf_saved y) (ps_copies a ! (i - 1)) (bt_pages u ! p)" by (auto simp: lazy_def)
  obtain es ads k where c: "ps_copies a ! (i - 1) = (es, ads, k)" by (cases "ps_copies a ! (i - 1)")
  have "ps_copies a ! (i - 1) \<in> set (ps_copies a)" using i by (intro nth_mem) simp
  then have k: "k < length ads" using a c by (auto simp: saves_fit_def copy_fits_def)
  have size: "pg_size (page_of_copy (es, ads, k)) = k" "pg_size (bt_pages u ! p) = k"
    using g c by (simp_all add: page_of_copy_def agrees_def)
  from Suc.prems(4) obtain step where step: "find_loop (page_of_copy (es, ads, k)) key 0 k = Inr step"
    "(case step of Descend child \<Rightarrow> findIndex m (disk_tree a) child key | Found x \<Rightarrow> Inr (Some (i, x)) | Missing \<Rightarrow> Inr None) = Inr found"
    by (auto simp: disk_page [OF i, unfolded c] size bindR_Inr_iff)
  from find_loop_agrees [OF g [unfolded c] k step(1)] obtain step' where
    step': "find_loop (bt_pages u ! p) key 0 k = Inr step'" "step_rel (pages u) (xf_saved y) step step'" by auto
  have here: "findIndex_x (Suc m) p key (t, x) = (case step' of Descend child \<Rightarrow> findIndex_x m child key (u, y)
      | Found x \<Rightarrow> Inr (Some (p, x), (u, y)) | Missing \<Rightarrow> Inr (None, (u, y)))"
    using u(1) p(1) step'(1) size(2) by (simp add: page_at_def)
  show ?case
  proof (cases step)
    case (Descend j)
    with step'(2) obtain child pos where child: "step' = Descend child" "child < pages u" "xf_saved y child = Some (j, pos)"
      by (auto simp: step_rel_def)
    from child(2,3) u(2) have "pos = 0" by (auto simp: lazy_def)
    with child(3) have "xf_saved y child = Some (j, 0)" by simp
    moreover from Descend step(2) have "findIndex m (disk_tree a) j key = Inr found" by simp
    ultimately obtain found' u' y' where
      "findIndex_x m child key (u, y) = Inr (found', (u', y'))" "lazy f s keys a (u', y')" "store_grown (u, y) (u', y')"
      "xf_keys y' = xf_keys y" "found_rel a (u', y') found found'" using Suc.IH [OF u(2) child(2)] by blast
    with here child(1) u(3,5) show ?thesis by (auto intro: store_grown_trans)
  next
    case (Found z)
    have "bt_element u (p, z) = bt_element (disk_tree a) (i, z)"
      using g c i by (cases i) (simp_all add: bt_element_def disk_tree_def page_of_copy_def agrees_def)
    with Found here step(2) step'(2) u show ?thesis by (auto simp: step_rel_def found_rel_def)
  next
    case Missing
    with here step(2) step'(2) u show ?thesis by (auto simp: step_rel_def found_rel_def)
  qed
qed simp

text \<open>The state of a later session, which every search keeps.\<close>

definition reopened :: "string \<Rightarrow> nat \<Rightarrow> string list \<Rightarrow> page_saves \<Rightarrow> index_store \<Rightarrow> bool" where
  "reopened f s keys a = (\<lambda>(t, x). lazy f s keys a (t, x) \<and> saves_fit a \<and> bt_head t < pages t \<and>
     xf_saved x (bt_head t) = Some (ps_head a) \<and> xf_keys x = keys)"

lemma index_find_lazy:
  assumes z: "reopened f s keys a st" and r: "index_find (disk_tree a) key = Inr r"
  shows "\<exists>st'. index_find_x key st = Inr (r, st') \<and> reopened f s keys a st'"
proof -
  obtain t x where st: "st = (t, x)" by (cases st)
  from z have t: "lazy f s keys a (t, x)" "saves_fit a" "bt_head t < pages t" "xf_saved x (bt_head t) = Some (ps_head a)"
    "xf_keys x = keys" by (simp_all add: reopened_def st)
  from t(2) have hd: "ps_head a = (fst (ps_head a), 0)" by (cases "ps_head a") (simp add: saves_fit_def address_fits_def)
  have fuel: "bt_fuel (disk_tree a) = x_fuel (t, x)"
    using t(1) by (simp add: bt_fuel_def x_fuel_def disk_tree_def lazy_def regions_ok_def)
  from r obtain found where found: "findIndex (x_fuel (t, x)) (disk_tree a) (fst (ps_head a)) key = Inr found"
    "r = (case found of None \<Rightarrow> None | Some place \<Rightarrow> bt_element (disk_tree a) place)"
    by (auto simp: index_find_def fuel bindR_Inr_iff) (simp add: disk_tree_def)
  have "xf_saved x (bt_head t) = Some (fst (ps_head a), 0)" using t(4) hd by simp
  from find_lazy [OF t(2,1,3) this found(1)] obtain found' u y where
    u: "findIndex_x (x_fuel (t, x)) (bt_head t) key (t, x) = Inr (found', (u, y))" "lazy f s keys a (u, y)"
      "store_grown (t, x) (u, y)" "xf_keys y = xf_keys x" "found_rel a (u, y) found found'" by blast
  have "r = (case found' of None \<Rightarrow> None | Some place \<Rightarrow> bt_element u place)"
    using u(5) found(2) by (auto simp: found_rel_def elim!: option.rel_cases)
  with u(1) have "index_find_x key (t, x) = Inr (r, (u, y))" by (cases found') (simp_all add: index_find_x_def)
  moreover have "reopened f s keys a (u, y)" using u t by (auto simp: reopened_def store_grown_def)
  ultimately show ?thesis by (auto simp: st)
qed

section \<open>Opening the index again\<close>

lemma keys_read:
  assumes "buffer_ok f s i b" "\<forall>key\<in>set keys. no_nul key \<and> int32_size (length key)"
    "drop (pb_spos b) (region d f s i) = concat (map write_chars keys) @ r"
  shows "\<exists>b2. read_keys (length keys) d b = Inr (keys, b2) \<and> buffer_ok f s i b2"
  using assms
proof (induction keys arbitrary: b)
  case (Cons key keys)
  let ?r = "concat (map write_chars keys) @ r"
  have key: "int32_size (length key)" "no_nul key" using Cons.prems(2) by simp_all
  have at: "drop (pb_spos b) (region d f s i) = write_chars key @ ?r" using Cons.prems(3) by simp
  define b1 where "b1 = b\<lparr>pb_spos := pb_spos b + length (write_chars key), pb_pos := pb_spos b + length (write_chars key)\<rparr>"
  have "pb_read read_chars d b = Inr (key, b\<lparr>pb_spos := pb_spos b + length (write_chars key), pb_pos := pb_pos b + length (write_chars key)\<rparr>)"
    using read_write_chars [OF key(1)] by (intro pb_read_region [OF Cons.prems(1) at])
  then have 1: "pb_readChars d b = Inr (key, b1)" by (simp add: pb_readChars_def b1_def)
  have "buffer_ok f s i b1" using Cons.prems(1) by (simp add: b1_def)
  moreover have "drop (pb_spos b1) (region d f s i) = ?r" using drop_region [OF at] by (simp add: b1_def)
  moreover have "\<forall>key\<in>set keys. no_nul key \<and> int32_size (length key)" using Cons.prems(2) by simp
  ultimately obtain b2 where "read_keys (length keys) d b1 = Inr (keys, b2)" "buffer_ok f s i b2" using Cons.IH by blast
  with 1 key(2) show ?case by simp
qed simp

lemma load_index:
  assumes m: "regions_ok f s (Suc (length (ps_copies a))) m" and onf: "on_file f s keys a d" and a: "saves_fit a"
    and keys: "keys_fit s keys"
  shows "\<exists>st. loadIndex m d = Inr st \<and> reopened f s keys a st"
proof -
  let ?n = "length (ps_copies a)"
  obtain i where hd: "ps_head a = (i, 0)" "1 \<le> i" "i \<le> ?n" using a by (cases "ps_head a") (auto simp: saves_fit_def address_fits_def)
  have "i < 2 ^ 31" using hd(3) a by (auto simp: saves_fit_def)
  then have i: "unat (ucast (of_nat i :: int64) :: int32) = i" by (simp add: unsigned_ucast_eq unat_of_nat take_bit_nat_eq_self)
  obtain rest where "region d f s 0 = head_bytes (ps_head a) keys @ rest" using onf by (auto simp: on_file_def)
  then have reg: "drop 0 (region d f s 0) = write_long (of_nat i) @ write_long 0 @
      write_int (of_nat (length keys)) @ concat (map write_chars keys) @ rest" by (simp add: head_bytes_def hd(1))
  note reg8 = drop_region [OF reg]
  note reg16 = drop_region [OF reg8]
  note reg20 = drop_region [OF reg16]
  from manager_get [OF m zero_less_Suc] obtain b where b: "bm_getBuffer m 0 = Inr b" "buffer_ok f s 0 b" by blast
  define b1 where "b1 = (pb_seek 0 b)\<lparr>pb_spos := 8, pb_pos := 8\<rparr>"
  define b2 where "b2 = b1\<lparr>pb_spos := 16, pb_pos := 16\<rparr>"
  define b3 where "b3 = b2\<lparr>pb_spos := 20, pb_pos := 20\<rparr>"
  have ok: "buffer_ok f s 0 (pb_seek 0 b)" "buffer_ok f s 0 b1" "buffer_ok f s 0 b2" "buffer_ok f s 0 b3"
    using b(2) by (simp_all add: b1_def b2_def b3_def)
  have "pb_read read_long d (pb_seek 0 b) = Inr (of_nat i, b1)"
    using pb_read_region [OF ok(1), of d, where rd = read_long, OF _ read_write_long] reg
    by (simp add: b1_def pb_seek_def write_long_def)
  moreover have "pb_read read_long d b1 = Inr (0, b2)"
    using pb_read_region [OF ok(2), of d, where rd = read_long, OF _ read_write_long] reg8
    by (simp add: b1_def b2_def pb_seek_def write_long_def)
  moreover have "pb_read read_int d b2 = Inr (of_nat (length keys), b3)"
    using pb_read_region [OF ok(3), of d, where rd = read_int, OF _ read_write_int] reg16
    by (simp add: b2_def b3_def pb_seek_def write_long_def write_int_def)
  moreover have count: "length ks \<le> length (concat (map write_chars ks))" for ks
    by (induction ks) (simp_all add: length_write_chars)
  have "length keys < 2 ^ 31" using keys count [of keys] by (simp add: keys_fit_def)
  then have "sint (of_nat (length keys) :: int32) = int (length keys)" by (intro int32_small) simp
  moreover have "int32_size (length key)" if "key \<in> set keys" for key
  proof -
    have "length (write_chars key) \<le> length (concat (map write_chars keys))"
      using that by (induction keys) auto
    with keys show ?thesis by (simp add: keys_fit_def int32_size_def length_write_chars)
  qed
  then obtain b4 where "read_keys (length keys) d b3 = Inr (keys, b4)" and b4: "buffer_ok f s 0 b4"
    using keys_read [OF ok(4), of keys d rest] keys reg20 by (auto simp: keys_fit_def b3_def write_long_def write_int_def)
  moreover have "remdups (sort keys) = keys" using keys by (simp add: keys_fit_def sorted_sort_id distinct_remdups_id)
  moreover define x where "x = \<lparr>xf_manager = bm_setBuffer 0 b4 m, xf_disk = d, xf_saved = [0 \<mapsto> (i, 0)],
      xf_loaded = (\<lambda>_. False), xf_keys = keys\<rparr>"
  moreover define t where "t = \<lparr>bt_pages = [new_page], bt_head = 0\<rparr>"
  ultimately have load: "loadIndex m d = loadPage 0 (t, x)"
    using b(1) i by (simp add: loadIndex_def pb_readLong_def pb_readInt_def)
  have "lazy f s keys a (t, x)"
    using manager_set [OF m b4] onf hd(2,3) by (simp add: lazy_def x_def t_def)
  moreover have "0 < pages t" "\<not> xf_loaded x 0" by (simp_all add: t_def x_def)
  ultimately obtain u y where u: "loadPage 0 (t, x) = Inr (u, y)" "lazy f s keys a (u, y)" "store_grown (t, x) (u, y)"
    "xf_keys y = xf_keys x" using load_page [OF _ a] by metis
  then have "reopened f s keys a (u, y)" using a hd(1) by (auto simp: reopened_def store_grown_def t_def x_def)
  with u(1) load show ?thesis by auto
qed

definition reopen :: "nat \<Rightarrow> string \<Rightarrow> index_store \<Rightarrow> index_store res" where
  "reopen pageSize f s = index_open pageSize f (Some (bm_control (xf_manager (snd s)))) (xf_disk (snd s))"

theorem stored_reopen:
  assumes x: "stored f s keys x a" and f: "no_nul f" "int32_size (length f)" and s: "4096 \<le> s" and keys: "keys_fit s keys"
  shows "\<exists>st. reopen s f (t, x) = Inr st \<and> reopened f s keys a st"
proof -
  let ?n = "length (ps_copies a)"
  have m: "regions_ok f s (Suc ?n) (xf_manager x)" and onf: "on_file f s keys a (xf_disk x)" and a: "saves_fit a"
    using x by (simp_all add: stored_def)
  have "0 < s" "s < 2 ^ 31" using s keys by (simp_all add: keys_fit_def)
  moreover have "Suc ?n < 2 ^ 31" using a by (simp add: saves_fit_def)
  ultimately obtain m' where m': "bm_load s f (control_bytes f s (Suc ?n)) = Inr m'" "regions_ok f s (Suc ?n) m'"
    using load_manager [OF f] by blast
  from load_index [OF m'(2) onf a keys] obtain st where st: "loadIndex m' (xf_disk x) = Inr st" "reopened f s keys a st" by blast
  have "bm_control (xf_manager x) = control_bytes f s (Suc ?n)" "bm_buffersCount m' > 0"
    using m m'(2) by (simp_all add: regions_ok_def)
  with m'(1) st show ?thesis by (simp add: reopen_def index_open_def bm_open_def)
qed

section \<open>Two sessions\<close>

text \<open>The first session makes the index, writes its keys and adds entries; the files start empty.\<close>

definition index_run ::
    "nat \<Rightarrow> string \<Rightarrow> string list \<Rightarrow> disk \<Rightarrow> (string \<times> string \<times> nat) list \<Rightarrow> index_store res" where
  "index_run pageSize f keys d xs =
     bindR (index_open pageSize f None d) (\<lambda>(t, x).
     bindR (index_setKeys keys x) (\<lambda>x. add_all index_add_x xs (t, x)))"

primrec find_all_x :: "string list \<Rightarrow> index_store \<Rightarrow> (index_elem option list \<times> index_store) res" where
  "find_all_x [] s = Inr ([], s)"
| "find_all_x (key # keys) s = bindR (index_find_x key s) (\<lambda>(r, s).
     bindR (find_all_x keys s) (\<lambda>(rs, s). Inr (r # rs, s)))"

lemma find_all_lazy:
  "reopened f s keys a st \<Longrightarrow> \<forall>key\<in>set ks. index_find (disk_tree a) key = Inr (g key) \<Longrightarrow>
   \<exists>st'. find_all_x ks st = Inr (map g ks, st') \<and> reopened f s keys a st'"
proof (induction ks arbitrary: st)
  case (Cons k ks)
  from Cons.prems(2) have "index_find (disk_tree a) k = Inr (g k)" by simp
  from index_find_lazy [OF Cons.prems(1) this] obtain st1 where
    1: "index_find_x k st = Inr (g k, st1)" "reopened f s keys a st1" by blast
  from Cons.IH [OF 1(2)] Cons.prems(2) obtain st2 where "find_all_x ks st1 = Inr (map g ks, st2)" "reopened f s keys a st2" by auto
  with 1(1) show ?case by simp
qed simp

lemma run_stored:
  assumes fresh: "fresh_disk f d" and s: "4096 \<le> s" and keys: "keys_fit s keys"
    and xs: "distinct (map fst xs)" "\<forall>x\<in>set xs. entry_fits x" "length xs \<le> 20"
  shows "\<exists>t x a. index_run s f keys d xs = Inr (t, x) \<and> run_saves xs = Inr (t, a) \<and> stored f s keys x a \<and>
    index_saved (length xs) (entry_elem ` set xs) t a"
proof -
  obtain a0 where a0: "save_page 0 new_tree no_saves = Inr a0" "index_saved 0 {} new_tree a0" by (rule index_saved_new)
  from open_new [OF fresh s a0(1)] obtain x0 where x0: "index_open s f None d = Inr (new_tree, x0)" "stored f s [] x0 a0" by blast
  from set_keys [OF x0(2) keys] obtain x1 where x1: "index_setKeys keys x0 = Inr x1" "stored f s keys x1 a0" by blast
  have "0 + length xs \<le> 20" "\<forall>e\<in>set xs. entry_fits e \<and> dk (fst e) \<notin> el_key ` {}" using xs by simp_all
  from add_all_stored [OF x1(2) s a0(2) this(1) xs(1) this(2)] obtain t a x where
    "add_all index_add_s xs (new_tree, a0) = Inr (t, a)" "add_all index_add_x xs (new_tree, x1) = Inr (t, x)"
    "stored f s keys x a" "index_saved (length xs) (entry_elem ` set xs) t a" by auto
  with a0(1) x0(1) x1(1) show ?thesis by (auto simp: index_run_def run_saves_def)
qed

lemma run_reopen:
  assumes f: "no_nul f" "int32_size (length f)" and fresh: "fresh_disk f d" and s: "4096 \<le> s" and keys: "keys_fit s keys"
    and xs: "distinct (map fst xs)" "\<forall>x\<in>set xs. entry_fits x" "length xs \<le> 20" and ks: "\<forall>k\<in>set ks. no_nul k"
  shows "\<exists>st. bindR (index_run s f keys d xs) (reopen s f) = Inr st \<and> xf_keys (snd st) = keys \<and>
    (\<exists>st'. find_all_x ks st = Inr (map (map_of (map (\<lambda>x. (fst x, entry_elem x)) xs)) ks, st'))"
proof -
  from run_stored [OF fresh s keys xs] obtain t x a where
    x: "index_run s f keys d xs = Inr (t, x)" "run_saves xs = Inr (t, a)" "stored f s keys x a" by blast
  from run_saves_find [OF xs] x(2) have
    found: "no_nul key \<Longrightarrow> index_find (disk_tree a) key = Inr (map_of (map (\<lambda>x. (fst x, entry_elem x)) xs) key)" for key by auto
  from stored_reopen [OF x(3) f s keys] obtain st where st: "reopen s f (t, x) = Inr st" "reopened f s keys a st" by blast
  have "\<forall>key\<in>set ks. index_find (disk_tree a) key = Inr (map_of (map (\<lambda>x. (fst x, entry_elem x)) xs) key)"
    using ks found by blast
  from find_all_lazy [OF st(2) this] st x(1) show ?thesis by (auto simp: reopened_def)
qed

lemma add_all_snoc: "add_all g (xs @ [e]) z = bindR (add_all g xs z) (g (fst e) (fst (snd e)) (snd (snd e)))"
proof (induction xs arbitrary: z)
  case Nil
  show ?case by (simp add: bindR_def split: sum.split)
qed (auto simp: bindR_assoc intro: bindR_cong)

text \<open>What is lost after the twenty-first entry.\<close>

lemma lost_reopen:
  assumes f: "no_nul f" "int32_size (length f)" and fresh: "fresh_disk f d" and s: "4096 \<le> s" and keys: "keys_fit s keys"
  shows "\<exists>t x st st'. index_run s f keys d lost_entries = Inr (t, x) \<and>
    index_find t ''g'' = Inr (Some (entry_elem (''g'', ''d'', 7))) \<and>
    reopen s f (t, x) = Inr st \<and> index_find_x ''g'' st = Inr (None, st')"
proof -
  obtain xs e where split: "lost_entries = xs @ [e]" "length xs = 20" by (simp add: lost_entries_def)
  have "distinct (map fst xs)" "\<forall>x\<in>set xs. entry_fits x"
    using split by (auto simp: lost_entries_def entry_fits_def elem_fits_def entry_elem_def no_nul_def)
  with run_stored [OF fresh s keys, of xs] split(2) obtain t x a where
    x: "index_run s f keys d xs = Inr (t, x)" "run_saves xs = Inr (t, a)" "stored f s keys x a"
      "index_saved 20 (entry_elem ` set xs) t a" by auto
  have step: "bindR (add_all g xs z) (g (fst e) (fst (snd e)) (snd (snd e))) = add_all g lost_entries z" for g z
    by (simp add: split(1) add_all_snoc)
  from lost_saves obtain u b where u: "run_saves lost_entries = Inr (u, b)"
    "index_find u ''g'' = Inr (Some (entry_elem (''g'', ''d'', 7)))" "index_find (disk_tree b) ''g'' = Inr None"
    by (auto split: sum.splits)
  from u(1) x(2) have "index_add_s (fst e) (fst (snd e)) (snd (snd e)) (t, a) = Inr (u, b)"
    by (auto simp: run_saves_def step [symmetric] bindR_Inr_iff)
  moreover have "dated_but {} t a" using x(4) by (simp add: index_saved_def)
  ultimately obtain y where y: "index_add_x (fst e) (fst (snd e)) (snd (snd e)) (t, x) = Inr (u, y)" "stored f s keys y b"
    using add_stored [OF x(3) s] by blast
  have run: "index_run s f keys d lost_entries = Inr (u, y)"
    using x(1) y(1) by (auto simp: index_run_def step [symmetric] bindR_Inr_iff)
  from stored_reopen [OF y(2) f s keys] obtain st where st: "reopen s f (u, y) = Inr st" "reopened f s keys b st" by blast
  from index_find_lazy [OF st(2) u(3)] obtain st' where "index_find_x ''g'' st = Inr (None, st')" by blast
  with run u(2) st(1) show ?thesis by blast
qed

end
