(* ===== verification/Spec2Isabelle.thy ===== *)
theory Spec2Isabelle
  imports Circular_Queue Buffered_Text Network_Streams Client_System Connections Index_Reopen
begin

text \<open>
  A model of djondb, a document database written in C++ (src/db). A client sends commands over a
  connection; the server executes each command in a transaction or directly, a transaction keeps its
  operations in a log of its own, a commit hands them to the main log, a monitor moves them from the
  main log to the data files and the indexes, and a find reads the files and then the pending
  operations on top. The theories model these parts from the bytes upwards and end with what a find
  through a connection returns after a session of several clients.

  \<^bold>\<open>How the code appears\<close>

  Integers of 32 and 64 bits are words, a byte is a word of 8 bits, a double is its bit pattern (its
  comparison is an argument of the filters). Every C++ call has one of two outcomes: a value, or an
  error of the type \<^verbatim>\<open>cxx_error\<close> (an exception, an abort, a read past the end of a file, undefined
  behaviour such as a null pointer or a read behind a mapping). Objects are records, class hierarchies
  are datatypes. std::map is the list of its pairs in iteration order. Objects that are shared through
  pointers (pages of an index, connections, regions of log files) live in explicit stores. Threads and
  locks are sequences of steps: the inductive relations \<^verbatim>\<open>log_run\<close>, \<^verbatim>\<open>sys_run\<close>, \<^verbatim>\<open>index_reach\<close> and
  \<^verbatim>\<open>session\<close>. Random ids (uuid), the clock and sizes of files are arguments.

  \<^bold>\<open>Theories and code\<close>

  \<^item> Djon_Prelude: outcomes, readers over the rest of a stream, little-endian numbers and strings
    (filesystem/inputoutputstream.h and its implementations), the locales \<^verbatim>\<open>codec\<close> and \<^verbatim>\<open>record_codec\<close>.
  \<^item> Std_Map: std::map, the locale \<^verbatim>\<open>dictionary\<close>. Djon_Strings: util/stringfunctions.cpp,
    util/version.cpp, the locale \<^verbatim>\<open>three_way\<close> of comparisons.
  \<^item> Bson: bson/bsonobj.cpp, bsoncontent.cpp, bsonarrayobj.cpp. Bson_Select: bson/bsonutil.cpp.
    Bson_Codec: filesystem/bsonoutputstream.cpp and bsoninputstream.cpp. Bson_Buffered:
    filesystem/bsonbufferedobj.cpp and the classes beside it. Bson_Parser: the parser of arrays of
    documents in bson/bsonparser.cpp. Bson_Text, Buffered_Text: toChar of documents, also of those that are
    left in the data file. Memory_Stream:
    filesystem/memorystream.cpp with a refinement of a flat list of bytes.
  \<^item> Containers: util/linkedmap.hpp, cache/cache.h, cache/prioritycache.h. Circular_Queue:
    util/circular_queue.h, with its elements in a heap. Filters: the expression
    classes of db/ (simpleexpression.cpp, binaryexpression.cpp and others).
  \<^item> Index_Tree: the B+ tree of db/bplusindexp.cpp in memory. Index_Inv, Index_Insert: its invariant
    and the proof that insertions keep it. Index_Map: the locale \<^verbatim>\<open>position_index\<close> and its
    interpretation. Index_Factory: db/indexfactory.cpp and IndexPage::find.
  \<^item> Index_Buffers: filesystem/buffer.cpp and buffermanager.cpp, the regions of the file of an index and
    its control file. Index_Pages: how db/bplusindexp.cpp writes its pages there and loads them again.
    Index_Saved: a specification of what the files hold, and when the copies are the tree in memory.
    Index_Stored: the bytes implement the specification. Index_Reopen: the session after it.
  \<^item> Stream_Manager: filesystem/fileinputoutputstream.cpp, db/dbfilestream.cpp, db/streammanager.cpp and
    the restart of DBController. Data_Store: db/dbcontroller.cpp. Data_Refine, Data_Run: its invariant and
    the refinement of lists of documents.
  \<^item> Tx_Log, Tx_Manager, Tx_Handover: tx/txbuffer.cpp, tx/txbuffermanager.cpp. Transactions:
    tx/basetransaction.cpp, tx/stdtransaction.cpp. Tx_System: tx/transactionmanager.cpp and the commands
    that end a transaction. Data_System: transactions over the database.
  \<^item> Network_Streams: filesystem/networkinputstream.cpp and networkoutputstream.cpp, and the streams that
    network/networkserver.cpp keeps for its connections. What select, recv and send return is an argument,
    so the bytes of a request come in pieces of any size.
  \<^item> Commands: the classes of command/ on the wire (CommandWriter, CommandReader). Server: what they
    execute, network/networkservice.cpp. Client: driverbase/djondbconnection.cpp, the locale
    \<^verbatim>\<open>command_server\<close>. Client_System: sessions. Connections: driverbase/djondbconnectionmanager.cpp.

  \<^bold>\<open>What the lemmas show\<close>

  \<^item> Every writer and its reader are inverse (the interpretations of \<^verbatim>\<open>record_codec\<close>), with a
    selection applied while reading, and a sequence of records has only one reading.
  \<^item> The parser of arrays returns on every text, and what it makes of the text of documents is described
    value by value (\<^verbatim>\<open>value_read\<close>).
  \<^item> The B+ tree keeps its invariant and a search finds what was added last, by induction over the
    levels; positions of keys that were copied to inner pages go stale, which is stated as it is.
  \<^item> Writing a page changes the bytes of one buffer as the specification changes a copy; the control
    file maps the same buffers again, and a search that loads pages on its way gives what a search in
    the tree of the copies gives. With up to 20 entries every change reaches the files; with 21 entries
    it may not, because the split of an inner page leaves one page with an old copy.
  \<^item> The data file and the index of a namespace keep an invariant under which the operations refine
    changes of a list of documents, and a restart finds the streams it had.
  \<^item> The log is first in, first out; a commit followed by flushes performs the operations of the
    transaction in order, each once; a rollback leaves nothing; transactions do not see each other.
    The specification of the open transactions is a list of committed operations and one list for
    each transaction; \<^verbatim>\<open>sys_run\<close> refines it.
  \<^item> What one side of a connection writes is what the other reads, whatever the pieces in which it
    arrives; a connection that ends inside a value stops the reader.
  \<^item> A call of the client is one event of that specification, and a find after a session reads the
    committed documents and the operations of its own transaction.
  \<^item> Where the code does not do what it means to, the theorem says what it does: the removal
    that ignores the revision, the second update of a document, the namespace that comes back after a
    drop, the regions of two logs that collide, the entry that a split loses, the connection that the
    manager closes.

  \<^bold>\<open>Fuel and termination\<close>

  The readers of documents recurse on nested values of a stream, so they carry a fuel; the length
  of the stream is enough, because every value takes at least one byte, and a reader never returns the
  error of an exhausted fuel (Bson_Codec, Bson_Buffered). The parser of texts takes two rounds for each
  character, one for a document that begins there and one for the character (Bson_Parser). Walks in the B+ tree carry the number of pages
  as fuel; the invariant bounds the height by it (Index_Inv). Walks that load pages carry the number of buffers,
  since every page on disk has one of its own (Index_Stored). Flushing the log has its rounds counted
  and the theorem about it proves that they end (Tx_Manager, Data_System).

  \<^bold>\<open>Not modelled\<close>

  \<^item> Code that is generated: the lexers and parsers of documents, filters and queries (ANTLR), the
    language bindings (SWIG) and the shell over V8. Such a parser is an argument of what calls it.
  \<^item> The operating system: sockets (apart from the results of their calls), threads, locks, mapped files,
    the clock, log output. The conversions between doubles and texts are arguments.
  \<^item> The migration of data and index files of older versions.
  \<^item> The results on the database use the indexes in memory: what an index finds in its file when it is
    opened is an argument of Index_Factory, and they take a file without pages. The files of an index are
    described by themselves (Index_Buffers to Index_Reopen), for additions and searches; an update on
    the files is defined and not proved. The position of a file behind its end is an error of the model.
  \<^item> The results about the database leave out a namespace that is used again after a drop, and writes
    that bypass the transactions. A session is looked at by a find at its end.
\<close>

section \<open>Documents on the wire\<close>

text \<open>
  C6. Reading with a selection what the document writer wrote gives exactly the selection of the
  document in memory, and leaves the rest of the stream untouched: applying the columns while
  jumping over unwanted bytes (BSONInputStream::readBSON) agrees with BSONObj::select.
\<close>

theorem read_selected_document:
  assumes "bson_ok o1" "select_ok sel"
  shows "\<exists>o2. bson_select sel o1 = Inr o2 \<and> readBSON sel (writeBSON o1 @ r) = Inr (o2, r)"
  using assms by (rule readBSON_select)

definition sample_doc :: bson where
  "sample_doc =
     [(''age'', CInt 36), (''inner'', CBson [(''x'', CBool True), (''y'', CString ''txt'')]),
      (''list'', CArray [[(''x'', CLong 5)], []])]"

definition sample_select :: string where
  "sample_select = ''age,$'' @ [CHR 0x22] @ ''inner.y'' @ [CHR 0x22]"

lemma sample_doc_ok: "bson_ok sample_doc"
  by (simp add: bson_ok_def sample_doc_def int32_size_def key_ok_def no_nul_def)

lemma sample_select_ok: "select_ok sample_select"
  by (simp add: select_ok_def sample_select_def bson_splitSelect_def split_def strtok_def c_str_def
      select_column_def trim_def startsWith_def substr_def)

theorem read_selected_document_witness:
  "\<exists>o2. bson_select sample_select sample_doc = Inr o2 \<and>
     readBSON sample_select (writeBSON sample_doc @ ''rest'') = Inr (o2, ''rest'')"
  using sample_doc_ok sample_select_ok by (rule read_selected_document)



section \<open>Transactions\<close>

text \<open>
  C3. Every run of the server that begins, writes, commits, rolls back and flushes transactions
  (TransactionManager, StdTransaction, TxBufferManager) refines the specification in which a commit
  appends the operations of one transaction, in their order and all at once, to the committed
  operations, and a rollback forgets them: the store is the result of a prefix of the committed
  operations, the main log holds the others in order, and the log of every open transaction holds
  just the operations of that transaction.
\<close>

theorem transactions_refine:
  assumes "0 < n" "sys_run perform n (sys_start d n, s0) evs (sys, s)"
  shows "tx_refines perform s0 (sys, s) (fold spec_event evs spec_start)"
  using sys_run_refines [OF assms(2,1) refines_start [OF assms(1)]] .

definition no_perform :: "tx_operation \<Rightarrow> nat \<Rightarrow> nat res" where
  "no_perform oper s = Inr (s + 1)"

definition empty_disk :: disk where
  "empty_disk = (\<lambda>f i. CHR 0x00)"

theorem transactions_refine_witness:
  "\<exists>sys s. sys_run no_perform 4096 (sys_start empty_disk 4096, 0) [Begin ''a'', Commit ''a''] (sys, s) \<and>
     tx_refines no_perform 0 (sys, s) (fold spec_event [Begin ''a'', Commit ''a''] spec_start)"
proof -
  let ?x = "(sys_start empty_disk 4096, 0)"
  have start: "tx_refines no_perform 0 ?x spec_start" by (rule refines_start) simp
  have ok: "event_ok (Begin ''a'') (sys_start empty_disk 4096)"
    by (simp add: sys_start_def tm_create_def)
  with event_returns [OF start ok] obtain sys where b: "sys_event no_perform 4096 (Begin ''a'') ?x = Inr (sys, 0)"
    by blast
  have r: "tx_refines no_perform 0 (sys, 0) (spec_event (Begin ''a'') spec_start)"
    using refines_event [OF start ok _ b] by simp
  then have "spec_log sys ''a'' (Some [])"
    unfolding spec_start_def spec_event.simps tx_refines_iff by (auto dest: spec [of _ "''a''"])
  then have ok2: "event_ok (Commit ''a'') sys" by (auto simp: spec_log_def)
  with event_returns [OF r ok2] obtain sys2 where c: "sys_event no_perform 4096 (Commit ''a'') (sys, 0) = Inr (sys2, 0)"
    by blast
  have "sys_run no_perform 4096 ?x [Begin ''a''] (sys, 0)"
    using run_event [OF run_nil ok b] by simp
  from run_event [OF this ok2 c] have "sys_run no_perform 4096 ?x [Begin ''a'', Commit ''a''] (sys2, 0)" by simp
  with transactions_refine [OF _ this] show ?thesis by auto
qed

text \<open>
  C11. After a commit (StdTransaction::commit) as many rounds of the monitor as there are buffers
  perform the operations that the main log held and then those of the transaction, each once and in
  the order they were written, and leave an empty log.
\<close>

theorem commit_then_flush:
  assumes "tm_shows d base opss" "tm_counted base"
    and "tm_inv d t topss" "\<not> tm_mainLog t" "tm_logFile t \<noteq> tm_logFile base"
  shows "\<exists>base2 t2 d3 base3. log_commit base t = Inr (base2, t2) \<and>
    (\<forall>s. tm_flushes perform (length opss + length topss) (d, base2) s =
       bindR (perform_all perform (concat opss @ concat topss) s) (\<lambda>s. Inr ((d3, base3), s))) \<and>
    tm_shows d3 base3 [[]]"
proof -
  from log_commit_spec [OF assms] obtain base2 t2 where c: "log_commit base t = Inr (base2, t2)"
    "tm_shows d base2 ((opss @ topss) @ [[]])" "tm_counted base2" by auto
  from tm_flushes_shared [OF c(2,3), of "length opss + length topss" perform] obtain d3 base3 where
    "\<forall>s. tm_flushes perform (length opss + length topss) (d, base2) s =
       bindR (perform_all perform (concat (opss @ topss)) s) (\<lambda>s. Inr ((d3, base3), s))"
    "tm_shows d3 base3 [[]]" by auto
  with c(1) show ?thesis by auto
qed

lemma tm_create_shows: "tm_shows d (tm_create f main n) []"
  by (simp add: tm_shows_def tm_create_def)

lemma tm_create_fields [simp]:
  "tm_mainLog (tm_create f main n) = main" "tm_logFile (tm_create f main n) = f @ ''.log''"
  "tm_reusable (tm_create f main n) = []" "tm_buffersSize (tm_create f main n) = n"
  "tm_active (tm_create f main n) = []"
  by (simp_all add: tm_create_def)

theorem commit_then_flush_witness:
  "\<exists>base2 t2 d3 base3.
    log_commit (tm_create ''main'' True 4096) (tm_create ''a'' False 4096) = Inr (base2, t2) \<and>
    (\<forall>s. tm_flushes no_perform 0 (empty_disk, base2) s = Inr ((d3, base3), s)) \<and>
    tm_shows d3 base3 [[]]"
  using commit_then_flush [of empty_disk "tm_create ''main'' True 4096" "[]" "tm_create ''a'' False 4096" "[]"
      no_perform] tm_create_shows tm_counted_create tm_create_inv
  by simp


definition stored_doc :: bson where
  "stored_doc = [(''_id'', CString ''1''), (''_revision'', CString ''a'')]"



section \<open>The write-ahead log\<close>

text \<open>
  C12. An operation that is written to a log with room for it (writeOperationToRegister) is read back
  (findOperations, readOperationFromRegister) behind those that were there, and the log stays well
  formed.
\<close>

theorem log_write_then_read:
  assumes "tm_inv d m opss" "operation_ok oper"
    and "length (log_entry oper) \<le> tm_buffersSize m" "\<not> tm_short m oper"
  shows "\<exists>d2 m2 opss2. tm_writeOperation (d, m) oper = Inr (d2, m2) \<and> tm_inv d2 m2 opss2 \<and>
    tm_findOperations None None (d2, m2) = Inr (concat opss @ [oper], tm_rewound m2)"
proof -
  from tm_writeOperation_spec [OF assms] obtain d2 m2 opss2 where w:
    "tm_writeOperation (d, m) oper = Inr (d2, m2)" "tm_inv d2 m2 opss2" "concat opss2 = concat opss @ [oper]"
    by blast
  with tm_findOperations_spec(1) [OF w(2), of None None] show ?thesis
    by (intro exI [of _ d2] exI [of _ m2] exI [of _ opss2]) (simp add: wanted_def)
qed

definition sample_op :: tx_operation where
  "sample_op = \<lparr>op_db = ''db'', op_ns = ''ns'', op_action = TxRemove ''key'' ''rev''\<rparr>"

lemma sample_op_length: "length (record_bytes sample_op) = 51"
  by (simp add: sample_op_def record_bytes_def record_pieces_def operation_bytes_def operation_pieces_def c_str_def)

lemma sample_op_ok: "operation_ok sample_op"
  using sample_op_length by (simp add: operation_ok_def) (simp add: sample_op_def no_nul_def)

theorem log_write_then_read_witness:
  "\<exists>d2 m2 opss2. tm_writeOperation (empty_disk, tm_create ''main'' True 4096) sample_op = Inr (d2, m2) \<and>
     tm_inv d2 m2 opss2 \<and> tm_findOperations None None (d2, m2) = Inr ([sample_op], tm_rewound m2)"
  using log_write_then_read [of empty_disk "tm_create ''main'' True 4096" "[]" sample_op] sample_op_ok
    sample_op_length tm_create_inv
  by (simp add: tm_short_def tm_full_def)

text \<open>
  C13. In every run of writes and flushes of the main log the operations reach the controller in the
  order they were written, each once: the store is the result of a prefix of them, and the active
  buffers hold the rest.
\<close>

theorem main_log_fifo:
  assumes "log_run perform ((d, tm_create file True n), s) ops ((d2, m2), s2)" "0 < n"
    and "\<forall>oper\<in>set ops. operation_ok oper"
  shows "\<exists>opss applied. tm_inv d2 m2 opss \<and> ops = applied @ concat opss \<and>
    perform_all perform applied s = Inr s2"
  using log_run_spec [OF assms(1) refl tm_create_inv [OF assms(2)] _ assms(3)] by auto

theorem main_log_fifo_witness:
  "\<exists>d2 m2. log_run no_perform ((empty_disk, tm_create ''main'' True 4096), 0) [sample_op] ((d2, m2), 0) \<and>
     (\<exists>opss applied. tm_inv d2 m2 opss \<and> [sample_op] = applied @ concat opss \<and>
        perform_all no_perform applied 0 = Inr 0)"
proof -
  have "\<exists>d2 m2 opss2. tm_writeOperation (empty_disk, tm_create ''main'' True 4096) sample_op = Inr (d2, m2) \<and>
      tm_inv d2 m2 opss2 \<and> concat opss2 = concat [] @ [sample_op]"
    using sample_op_ok sample_op_length
    by (intro tm_writeOperation_spec tm_create_inv) (simp_all add: tm_short_def tm_full_def)
  then obtain d2 m2 where "tm_writeOperation (empty_disk, tm_create ''main'' True 4096) sample_op = Inr (d2, m2)"
    by blast
  from write_step [OF log_run.start this, of no_perform 0] have
    r: "log_run no_perform ((empty_disk, tm_create ''main'' True 4096), 0) [sample_op] ((d2, m2), 0)" by simp
  from main_log_fifo [OF this] sample_op_ok have "\<exists>opss applied. tm_inv d2 m2 opss \<and>
      [sample_op] = applied @ concat opss \<and> perform_all no_perform applied 0 = Inr 0" by simp
  with r show ?thesis by blast
qed



text \<open>
  C26. The room that writeOperationToRegister asks for is four bytes less than what it writes: with
  that little left in the last buffer, or with an entry larger than a buffer, the write goes past
  the end of the mapping.
\<close>

theorem write_past_mapping:
  assumes "tm_inv d m opss" "operation_ok oper"
    and "tm_short m oper \<or> tm_buffersSize m < length (log_entry oper)"
  shows "tm_writeOperation (d, m) oper = Inl Undefined_behaviour"
  using assms by (rule tm_writeOperation_over)

theorem write_past_mapping_witness:
  "tm_writeOperation (empty_disk, tm_create ''main'' True 62) sample_op = Inl Undefined_behaviour"
  using write_past_mapping [of empty_disk "tm_create ''main'' True 62" "[]" sample_op] sample_op_ok
    sample_op_length tm_create_inv
  by simp

text \<open>
  C29. After a rollback (StdTransaction::rollback) the log of the transaction is empty, and no file
  but its own has changed.
\<close>

theorem rollback_discards:
  assumes "tm_inv d t topss" "tm_reusable t = []"
  shows "\<exists>d2 t2. log_rollback (d, t) = Inr (d2, t2) \<and> tm_inv d2 t2 [] \<and>
    (\<forall>f. f \<noteq> tm_logFile t \<longrightarrow> d2 f = d f)"
  using log_rollback_spec [OF assms] by blast

theorem rollback_discards_witness:
  "\<exists>d2 t2. log_rollback (empty_disk, tm_create ''a'' False 4096) = Inr (d2, t2) \<and> tm_inv d2 t2 [] \<and>
    (\<forall>f. f \<noteq> ''a.log'' \<longrightarrow> d2 f = empty_disk f)"
  using rollback_discards [of empty_disk "tm_create ''a'' False 4096" "[]"] tm_create_inv by simp




section \<open>Commands\<close>

text \<open>
  C18. Every command that CommandWriter sends is read by CommandReader as that command, with the
  absent filter and options as empty ones, and the next command of the connection is left untouched.
\<close>

theorem command_roundtrip:
  assumes "command_ok cmd"
  shows "\<exists>bytes. writeCommand cmd = Inr bytes \<and>
    readCommand False (bytes @ r) = Inr (Some (normal_command cmd), r)"
  using assms by (rule readCommand_write)

definition sample_command :: command where
  "sample_command = \<lparr>command_options = None,
     command_body = FindCommand ''db'' ''ns'' None (Some ''*'')\<rparr>"

lemma sample_command_ok: "command_ok sample_command"
  by (simp add: command_ok_def sample_command_def text_ok_def no_nul_def int32_size_def)

theorem command_roundtrip_witness:
  "\<exists>bytes. writeCommand sample_command = Inr bytes \<and>
    readCommand False (bytes @ ''next'') = Inr (Some (normal_command sample_command), ''next'')"
  using sample_command_ok by (rule command_roundtrip)

definition before_030 :: "version \<Rightarrow> bool" where
  "before_030 v \<longleftrightarrow> mayor v < 0 \<or> mayor v = 0 \<and> (minor v < 3 \<or> minor v = 3 \<and> revision v < 0)"

text \<open>
  The reader looks for options exactly when the version of the client is at least 0.3.0, in
  the order of the Version class: an older client sends none, and its commands are read all the same.
\<close>

theorem command_version_gate:
  assumes "text_ok sv" "parse_version sv = Inr v" "body_ok b" "write_body b = Inr bytes" "bson_ok o1"
  shows "readCommand False (write_string sv @ write_int (of_nat (commandType b)) @
      (if before_030 v then bytes else writeBSON o1 @ bytes) @ r) =
    Inr (Some \<lparr>command_options = Some (if before_030 v then [] else o1),
      command_body = normal_body b\<rparr>, r)"
proof -
  have "version_ge v \<lparr>version_text = ''0.3.0'', mayor = 0, minor = 3, revision = 0\<rparr> \<longleftrightarrow>
      \<not> before_030 v"
    by (auto simp: version_defs before_030_def)
  then show ?thesis using readCommand_gate(1) [OF assms(1-4), of r] readCommand_gate(2) [OF assms(1-4), of o1 r] assms(5)
    by auto
qed

theorem command_version_gate_witness:
  "readCommand False (write_string ''0.2.9'' @ write_int 9 @ write_string ''t'' @ ''next'') =
     Inr (Some \<lparr>command_options = Some [], command_body = CommitCommand ''t''\<rparr>, ''next'')"
  using command_version_gate [of "''0.2.9''" "\<lparr>version_text = ''0.2.9'', mayor = 0, minor = 2, revision = 9\<rparr>"
      "CommitCommand ''t''" "write_string ''t''" "[]" "''next''"]
  by (simp add: text_ok_def no_nul_def int32_size_def parse_version_def split_def strtok_def c_str_def Let_def
      before_030_def bson_ok_Nil)

section \<open>Memory streams\<close>

text \<open>
  C30. A memory stream (MemoryStream) that is filled by any pieces and then sought gives back any
  part of what was written, across its chunks, and stays behind that part.
\<close>

theorem memory_stream_roundtrip:
  assumes "0 < c" "length (concat xss) < 100 * c" "i + k \<le> length (concat xss)"
  shows "\<exists>s t. ms_writes (ms_new c) xss = Inr s \<and>
    ms_read (ms_seek s i) k = Inr (take k (drop i (concat xss)), t) \<and> ms_rest t = drop (i + k) (concat xss)"
proof -
  from ms_writes_spec [OF ms_new_inv [OF assms(1)], of xss] ms_new_empty [of c] assms(2) obtain s where s:
    "ms_writes (ms_new c) xss = Inr s" "ms_inv s" "ms_bytes s = concat xss"
    by (auto simp: ms_new_def)
  have len: "ms_length s = length (concat xss)" using s(3) ms_length_bytes [of s] by simp
  with ms_seek_spec [OF s(2), of i] assms(3) s(3) have seek: "ms_inv (ms_seek s i)"
      "ms_rest (ms_seek s i) = drop i (concat xss)"
    by (simp_all add: ms_rest_def)
  have "k \<le> length (ms_rest (ms_seek s i))" using seek(2) assms(3) by simp
  from ms_read_refines [OF seek(1) this] seek(2) s(1) show ?thesis
    by (auto simp: add.commute)
qed

theorem memory_stream_roundtrip_witness:
  "\<exists>s t. ms_writes (ms_new 3) [''ab'', ''cdefg''] = Inr s \<and>
    ms_read (ms_seek s 1) 4 = Inr (''bcde'', t) \<and> ms_rest t = ''fg''"
  using memory_stream_roundtrip [of 3 "[''ab'', ''cdefg'']" 1 4] by simp

text \<open>
  The capacity of a memory stream is a hundred chunks less one byte: an appending write succeeds
  exactly below it and fails with the assertion of nextBuffer at it.
\<close>

theorem memory_stream_capacity:
  assumes "ms_inv s" "ms_at_end s"
  shows "((\<exists>t. ms_write s xs = Inr t \<and> ms_bytes t = ms_bytes s @ xs) \<longleftrightarrow>
      ms_length s + length xs < 100 * ms_chunk s) \<and>
    (ms_write s xs = Inl Assertion_failed \<longleftrightarrow> 100 * ms_chunk s \<le> ms_length s + length xs)"
  using ms_append [OF assms, of xs] ms_append_full [OF assms, of xs]
  by (cases "ms_length s + length xs < 100 * ms_chunk s") auto

theorem memory_stream_capacity_witness:
  "(\<exists>t. ms_write (ms_new 1) (replicate 99 (CHR 0x41)) = Inr t) \<and>
     ms_write (ms_new 1) (replicate 100 (CHR 0x41)) = Inl Assertion_failed"
  using memory_stream_capacity [of "ms_new 1" "replicate 99 (CHR 0x41)"]
    memory_stream_capacity [of "ms_new 1" "replicate 100 (CHR 0x41)"] ms_new_inv [of 1] ms_new_empty [of 1]
  by (auto simp: ms_new_def)

section \<open>Documents as text\<close>

text \<open>
  C38. The array of documents that BSONParser::parseArray makes of the text that BSONArrayObj::toChar has
  printed: integers, texts and nested values come back as they were, a long that fits into 32 bits or is
  negative comes back as an integer of 32 bits, a boolean as the integer 0. So the array itself comes
  back exactly if it has no booleans and only longs above 2^31 - 1 (and doubles that atof gives back).
\<close>

theorem text_roundtrip:
  assumes "docs_plain fmt os" "array_sorted os" "bsonarray_toChar fmt os = Inr t"
  shows "parseArray atof t = Inr (Some (docs_read atof fmt os)) \<and>
    (parseArray atof t = Inr (Some os) \<longleftrightarrow> docs_kept atof fmt os)"
  using parseArray_printed [OF assms] read_kept(3) [of atof fmt os] by auto

theorem text_roundtrip_witness:
  "\<exists>t. bsonarray_toChar (\<lambda>_. ''0.500000'') [sample_doc, [(''n'', CInt (- 7)), (''r'', CDouble 5)]] = Inr t \<and>
     parseArray (\<lambda>_. 5) t = Inr (Some
       [[(''age'', CInt 36), (''inner'', CBson [(''x'', CInt 0), (''y'', CString ''txt'')]),
         (''list'', CArray [[(''x'', CInt 5)], []])], [(''n'', CInt (- 7)), (''r'', CDouble 5)]])"
proof -
  let ?fmt = "\<lambda>_. ''0.500000''" and ?os = "[sample_doc, [(''n'', CInt (- 7)), (''r'', CDouble 5)]]"
  have "case bsonarray_toChar ?fmt ?os of Inr t \<Rightarrow> True | Inl e \<Rightarrow> False" by code_simp
  then obtain t where t: "bsonarray_toChar ?fmt ?os = Inr t" by (cases "bsonarray_toChar ?fmt ?os") auto
  have "docs_plain ?fmt ?os" "array_sorted ?os" by (simp_all add: sample_doc_def plain_text_def real_text_def)
  from text_roundtrip [OF this t, of "\<lambda>_. 5"] t show ?thesis by (simp add: sample_doc_def)
qed

text \<open>
  C39. The parser of arrays returns on every text: it has an array, the null pointer for a text that does not
  begin with a bracket, or one of its errors; it is never out of rounds.
\<close>

theorem array_parser_returns: "parseArray atof s \<noteq> Inl No_fuel"
  by (rule parseArray_returns)

text \<open>
  C40. A document that is left in the data file prints as the document itself (BSONBufferedObj::toChar), if there
  are no arrays in it; of an array it prints the key only (\<^verbatim>\<open>buffered_text_array\<close>).
\<close>

theorem buffered_text_agrees:
  assumes "bson_ok o1" "pairs_flat o1"
  shows "\<exists>es. new_buffered (writeBSON o1 @ r) = Inr (es, length (writeBSON o1)) \<and> buffered_toChar fmt es = bson_toChar fmt o1"
proof -
  have o1: "elements_ok o1" "int32_size (length o1)" using assms(1) by (auto simp: bson_ok_def)
  from new_buffered_write [OF this, of r] buffered_text_eq(2) [OF o1(1) assms(2)] show ?thesis
    by (auto simp: buffered_toChar_def bson_toChar_def)
qed

theorem buffered_text_agrees_witness:
  "\<exists>es. new_buffered (writeBSON [(''x'', CBson [(''y'', CInt 1)])] @ ''rest'') =
      Inr (es, length (writeBSON [(''x'', CBson [(''y'', CInt 1)])])) \<and>
    buffered_toChar (\<lambda>_. '''') es = bson_toChar (\<lambda>_. '''') [(''x'', CBson [(''y'', CInt 1)])]"
  by (rule buffered_text_agrees) (simp_all add: bson_ok_def int32_size_def key_ok_def no_nul_def)

text \<open>
  A name whose quote is not closed ends the program, whoever has called the parser: what parseBSON throws is
  a pointer to a BSONException, which its exception specification does not allow.
\<close>

theorem unclosed_name_terminates:
  assumes "plain_text cs"
  shows "parseArray atof (''[{'' @ [CHR 0x22] @ cs) = Inl Terminated"
  using assms by (rule parseArray_unclosed)

theorem unclosed_name_terminates_witness: "parseArray (\<lambda>_. 0) (''[{'' @ [CHR 0x22] @ ''name : 1}]'') = Inl Terminated"
  using unclosed_name_terminates [of "''name : 1}]''" "\<lambda>_. 0"] by (simp add: plain_text_def)

section \<open>The network\<close>

text \<open>
  C9. Values that are written to a connection (NetworkOutputStream) and flushed to a socket that takes them
  arrive as they were (NetworkInputStream): whatever pieces the bytes come in, reading values of the same
  kinds gives the values, and the bytes behind them are still there. The values may have up to 204799 bytes,
  what the buffer of the writer holds.
\<close>

theorem network_roundtrip:
  assumes "\<forall>item\<in>set items. item_ok item" "length (concat (map item_bytes items)) < 204800" "items \<noteq> []"
  shows "\<exists>out. bindR (net_writes items new_output) (net_flush Some) = Inr out \<and>
    (\<forall>pieces r events. [] \<notin> set pieces \<longrightarrow> concat pieces = no_sent out @ r \<longrightarrow>
      (\<exists>t. net_reads (map item_kind items) (new_input (map Received pieces @ events)) = Inr (items, t) \<and> feeds t r events))"
proof -
  from writes_sent [OF assms] obtain out where
    out: "bindR (net_writes items new_output) (net_flush Some) = Inr out" "no_sent out = concat (map item_bytes items)" by blast
  have "\<exists>t. net_reads (map item_kind items) (new_input (map Received pieces @ events)) = Inr (items, t) \<and> feeds t r events"
    if "[] \<notin> set pieces" "concat pieces = no_sent out @ r" for pieces r events
    using items_feeds [OF _ assms(1)] feeds_new [OF that(1), of events] that(2) out(2) by auto
  with out(1) show ?thesis by blast
qed

definition sample_items :: "net_item list" where
  "sample_items = [NString ''0.3.0'', NInt 2, NBool True, NChars ''abc'']"

theorem network_roundtrip_witness:
  "\<exists>out. bindR (net_writes sample_items new_output) (net_flush Some) = Inr out \<and>
    (\<forall>pieces r events. [] \<notin> set pieces \<longrightarrow> concat pieces = no_sent out @ r \<longrightarrow>
      (\<exists>t. net_reads [String_kind, Int_kind, Bool_kind, Chars_kind] (new_input (map Received pieces @ events)) = Inr (sample_items, t) \<and>
        feeds t r events))"
  using network_roundtrip [of sample_items]
  by (simp add: sample_items_def int32_size_def no_nul_def length_write_chars write_int_def write_boolean_def)

text \<open>
  C20. A client that sends one to three bytes and closes the connection stops the server: the loop of
  readBufferData that waits for the rest of the length of the version runs into its assertion. The
  callback reads the version first (CommandReader::readCommand); go is the rest of it.
\<close>

theorem truncated_request_aborts:
  assumes "server_ok srv" "map_find (ns_inputs srv) sock = None" "[] \<notin> set pieces" "pieces \<noteq> []"
    and "length (concat pieces) < 4" "lost events"
  shows "process_socket (\<lambda>(nis, nos, a). bindR (read_version nis) (\<lambda>(v, nis). go v (nis, nos, a))) sock
    (map Received pieces @ events) (srv, a) = Inl Assertion_failed"
  using assms by (rule process_truncated)

theorem truncated_request_aborts_witness:
  "process_socket (\<lambda>(nis, nos, a). bindR (read_version nis) (\<lambda>(v, nis). Inr (nis, nos, v))) 5
    [Received [CHR 0x07], Received []] (\<lparr>ns_inputs = [], ns_outputs = []\<rparr>, []) = Inl Assertion_failed"
  using truncated_request_aborts [of "\<lparr>ns_inputs = [], ns_outputs = []\<rparr>" 5 "[[CHR 0x07]]" "[Received []]"
      "\<lambda>v (nis, nos, a). Inr (nis, nos, v)" "[]"]
  by (simp add: server_ok_def lost_def)

section \<open>Filters\<close>

text \<open>
  C33. A filter whose operands have the types its operators expect on a document evaluates to a truth
  value (BaseExpression::eval): no exception, no null result and no cast that fails.
\<close>

theorem typed_filter_total:
  assumes "bool_expr doc e"
  shows "\<exists>b. eval_expr doc e = Inr (Some (EBool b)) \<and> filter_match (Some e) doc = Inr b"
  using eval_typed(1) [OF assms] by (auto simp: filter_match_def match_result_def filter_eval_def present_def)

definition sample_filter :: expr where
  "sample_filter = Binary FO_AND (Some (Unary FO_EXISTS (Some (Simple ''_id''))))
     (Some (neg (Binary FO_EQUALS (Some (Simple ''_id'')) (Some (Constant (KChars ''2''))))))"

theorem typed_filter_total_witness:
  "\<exists>b. eval_expr stored_doc sample_filter = Inr (Some (EBool b)) \<and>
     filter_match (Some sample_filter) stored_doc = Inr b"
  by (rule typed_filter_total)
    (simp add: sample_filter_def neg_def scalar_path_def stored_doc_def getXpath.simps getContent_def)

text \<open>
  On two integers the operators decide their order (evalComparison), except that less-than also
  accepts equal values: it is the same operator as less-or-equal.
\<close>

theorem integer_comparisons:
  assumes "getXpath doc path = Some (CInt a)"
  shows "(let cmp = (\<lambda>oper. eval_expr doc (Binary oper (Some (Simple path)) (Some (Constant (KInt b))))) in
    cmp FO_LESSTHAN = Inr (Some (EBool (sint a \<le> sint b))) \<and>
    cmp FO_LESSEQUALTHAN = Inr (Some (EBool (sint a \<le> sint b))) \<and>
    cmp FO_GREATERTHAN = Inr (Some (EBool (sint a > sint b))) \<and>
    cmp FO_GREATEREQUALTHAN = Inr (Some (EBool (sint a \<ge> sint b))) \<and>
    cmp FO_EQUALS = Inr (Some (EBool (a = b))) \<and> cmp FO_NOT_EQUALS = Inr (Some (EBool (a \<noteq> b))))"
  using assms
  by (simp add: Let_def eval_simple_def present_def binary_result_def comparison_int evalEqual_int evalNotEqual_def)

theorem integer_comparisons_witness:
  "eval_expr sample_doc (Binary FO_LESSTHAN (Some (Simple ''age'')) (Some (Constant (KInt 36)))) =
     Inr (Some (EBool True))"
  using integer_comparisons [of sample_doc "''age''" 36 36]
  by (simp add: Let_def sample_doc_def getXpath.simps getContent_def)

text \<open>Negation distributes over the connectives of well-typed filters.\<close>

theorem filter_de_morgan:
  assumes "bool_expr doc l" "bool_expr doc r"
  shows "eval_expr doc (neg (Binary FO_AND (Some l) (Some r))) =
      eval_expr doc (Binary FO_OR (Some (neg l)) (Some (neg r))) \<and>
    eval_expr doc (neg (Binary FO_OR (Some l) (Some r))) =
      eval_expr doc (Binary FO_AND (Some (neg l)) (Some (neg r)))"
  using eval_de_morgan [OF assms] by simp

theorem filter_de_morgan_witness:
  "eval_expr stored_doc (neg (Binary FO_AND (Some (Constant (KBool True))) (Some (Constant (KBool False))))) =
     eval_expr stored_doc (Binary FO_OR (Some (neg (Constant (KBool True)))) (Some (neg (Constant (KBool False)))))"
  using filter_de_morgan [of stored_doc "Constant (KBool True)" "Constant (KBool False)"] by simp

text \<open>
  The copy of a path (SimpleExpression::copyExpression) goes through the constructor that strips
  the quotes once more: it has lost two characters in front and one behind, and a path of less than
  three characters makes it read before its text.
\<close>

theorem copied_path_is_cut:
  assumes "no_nul path"
  shows "copyExpression (Simple path) = (if length path < 3 then Inl Undefined_behaviour
    else Inr (Simple (take (length path - 3) (drop 2 path))))"
  using assms by (rule copy_simple)

theorem copied_path_is_cut_witness: "copyExpression (Simple ''address'') = Inr (Simple ''dres'')"
  using copied_path_is_cut [of "''address''"] by (simp add: no_nul_def)

section \<open>Containers\<close>

text \<open>
  C34. PriorityCache::add keeps at most the number of keys it was made for, the new one in front, and
  drops only the key that was used longest ago.
\<close>

theorem priority_cache_add:
  assumes "key_comparator cmp" "pc_inv c"
  shows "\<exists>c2. pc_add cmp key val c = Inr c2 \<and> pc_inv c2 \<and>
    (\<forall>k. map_find (pc_elements c2) k =
       (if k = key then Some val
        else if length (pc_priority c) = pc_top c \<and> k = last (pc_priority c) then None
        else map_find (pc_elements c) k)) \<and>
    hd (pc_priority c2) = key"
  using pc_add_spec [OF assms, of key val] by auto

theorem priority_cache_add_witness:
  "\<exists>c2. pc_add None (3::nat) ''c'' \<lparr>pc_elements = [(1, ''a''), (2, ''b'')], pc_priority = [2, 1], pc_top = 2\<rparr> = Inr c2 \<and>
     pc_inv c2 \<and> map_find (pc_elements c2) 1 = None \<and> hd (pc_priority c2) = 3"
proof -
  have "pc_inv \<lparr>pc_elements = [(1::nat, ''a''), (2, ''b'')], pc_priority = [2, 1], pc_top = 2\<rparr>"
    by (auto simp: pc_inv_def)
  from priority_cache_add [OF _ this, of None 3 "''c''"] show ?thesis
    by (auto simp: key_comparator_def)
qed

text \<open>
  LinkedMap is iterated in the order in which its keys were last added; adding a key again moves
  it to the end.
\<close>

theorem linked_map_order:
  assumes "lm_inv m"
  shows "lm_iterate (lm_add (=) key val m) = filter (\<lambda>p. fst p \<noteq> key) (lm_iterate m) @ [(key, Some val)]"
proof -
  have "map_find (map_put key val (lm_elements m)) k =
      (if k = key then Some val else map_find (lm_elements m) k)" for k
    using linked_map.find_put [OF assms, of key val k] by (simp add: lm_add_form [OF assms] lm_get_def)
  then show ?thesis
    by (auto simp: lm_add_form [OF assms] lm_iterate_def filter_map comp_def)
qed

theorem linked_map_order_witness:
  "lm_iterate (lm_add (=) (1::nat) ''c'' (lm_add (=) 2 ''b'' (lm_add (=) 1 ''a'' lm_empty))) =
     [(2, Some ''b''), (1, Some ''c'')]"
  using linked_map_order [OF linked_map.inv_put [OF linked_map.inv_put [OF linked_map.inv_empty]],
      of "1::nat" "''c''" 2 "''b''" 1 "''a''"]
  by (simp add: lm_iterate_def lm_add_def lm_empty_def)

text \<open>
  C32. The ring of linked elements of CircularQueue is a list with the place of its current element: every
  sequence of calls on a new queue gives the same values, or ends with the same error, and the links go
  around the elements of the list in both directions after it. A push into a full queue drops the element
  at the other end, and calls that need an element of an empty queue are undefined.
\<close>

theorem circular_queue_refines:
  "same_outcome (\<lambda>q l. queue_shows m l q) (calls queue_call cs (new_queue m)) (calls (list_call m) cs ([], 0))"
  by (rule calls_refine [OF queue_shows_new])

section \<open>Documents\<close>



text \<open>
  C36. Adding a value and removing a key are the updates of a map that stays sorted at every depth,
  and the copy of a document is that document.
\<close>

theorem document_updates:
  assumes "bson_sorted o1" "content_sorted v"
  shows "bson_sorted (bson_add k v o1) \<and> bson_sorted (bson_remove k o1) \<and> copy_bson o1 = o1 \<and>
    (\<forall>k'. getContent (bson_add k v o1) k' = (if k' = k then Some v else getContent o1 k')) \<and>
    (\<forall>k'. getContent (bson_remove k o1) k' = (if k' = k then None else getContent o1 k'))"
  using assms by (simp add: copy_bson_id)

theorem document_updates_witness:
  "getContent (bson_add ''age'' (CInt 37) sample_doc) ''age'' = Some (CInt 37) \<and>
     getContent (bson_remove ''age'' sample_doc) ''age'' = None"
  using document_updates [of sample_doc "CInt 37" "''age''"] sample_doc_ok by (simp add: bson_ok_def)

text \<open>A dotted path walks through the nested documents, one name after the other.\<close>

theorem xpath_is_walk:
  assumes "\<forall>k\<in>set ks. CHR ''.'' \<notin> set k"
  shows "getXpath o1 (join ''.'' ks) = bson_walk o1 ks"
  using assms by (rule getXpath_walk)

theorem xpath_is_walk_witness: "getXpath sample_doc ''inner.y'' = Some (CString ''txt'')"
  using xpath_is_walk [of "[''inner'', ''y'']" sample_doc] by (simp add: sample_doc_def getContent_def)

text \<open>
  BSONObj::operator== decides after the first pair: two documents of the same length that agree
  on the first key are equal to it, whatever the other values are.
\<close>

theorem document_equality_is_shallow:
  assumes "bson_sorted ((k, CInt i) # rest)" "bson_sorted ((k, CInt i) # rest')" "length rest = length rest'"
  shows "bson_eq ((k, CInt i) # rest) ((k, CInt i) # rest') = Inr True"
  using assms by (simp add: bson_eq_def bson_length_def getContent_def)

theorem document_equality_is_shallow_witness:
  "bson_eq [(''a'', CInt 1), (''b'', CInt 2)] [(''a'', CInt 1), (''c'', CBool True)] = Inr True"
  using document_equality_is_shallow [of "''a''" 1 "[(''b'', CInt 2)]" "[(''c'', CBool True)]"] by simp

section \<open>Texts and names\<close>

text \<open>
  splitLines is strtok on the two line ends; on lines without line ends it is the inverse of
  joining them.
\<close>

theorem splitLines_tokens:
  "splitLines s = strtok [CHR 0x0A, CHR 0x0D] s \<and>
   (\<forall>ls. (\<forall>l\<in>set ls. l \<noteq> [] \<and> CHR 0x0A \<notin> set l \<and> CHR 0x0D \<notin> set l) \<longrightarrow>
      splitLines (join [CHR 0x0A] ls) = ls \<and> splitLines (join [CHR 0x0D, CHR 0x0A] ls) = ls)"
proof -
  have eq: "splitLines t = strtok [CHR 0x0A, CHR 0x0D] t" for t
    using splitLines_loop_eq [of False "[]" 0 t "[]"] by (simp add: splitLines_def strtok_def)
  show ?thesis
    by (auto simp: eq intro!: strtok_join)
qed

theorem splitLines_tokens_witness:
  "splitLines (''ab'' @ [CHR 0x0D, CHR 0x0A] @ ''c'') = [''ab'', ''c'']"
proof -
  have "\<forall>l\<in>set [''ab'', ''c'']. l \<noteq> [] \<and> CHR 0x0A \<notin> set l \<and> CHR 0x0D \<notin> set l" by simp
  with splitLines_tokens have "splitLines (join [CHR 0x0D, CHR 0x0A] [''ab'', ''c'']) = [''ab'', ''c'']" by blast
  then show ?thesis by simp
qed

text \<open>
  The namespaces that a transaction shows (BaseTransaction::namespaces) are those of the
  controller with the pending inserts added and the dropped ones removed, in the order of the
  operations, each once and sorted.
\<close>

theorem transaction_namespaces:
  assumes "tm_shows d m opss" "controller_namespaces db options c = Inr (nss, c2)"
  shows "\<exists>names. tx_namespaces controller_namespaces db options ((d, m), c) = Inr (names, (d, tm_rewound m), c2) \<and>
    sorted_wrt (<) names \<and>
    set names = names_after op_ns (filter (\<lambda>oper. wanted (Some db) None (op_db oper) (op_ns oper)) (concat opss)) (set nss)"
  using assms by (rule tx_namespaces_spec)

theorem transaction_namespaces_witness:
  "\<exists>names. tx_namespaces (\<lambda>db options c. Inr ([''b'', ''a'', ''b''], c)) ''db'' None
      ((empty_disk, tm_create ''main'' True 4096), ()) =
      Inr (names, (empty_disk, tm_rewound (tm_create ''main'' True 4096)), ()) \<and>
    sorted_wrt (<) names \<and> set names = {''a'', ''b''}"
  using transaction_namespaces [OF tm_create_shows, of "\<lambda>db options c. Inr ([''b'', ''a'', ''b''], c)" "''db''" None "()"
      "[''b'', ''a'', ''b'']" "()" empty_disk "''main''" True 4096]
  by (simp add: insert_commute)

section \<open>Documents in a buffer\<close>

text \<open>
  C16. A document that is read in place from the bytes of a data file (BSONBufferedObj) gives the same
  selections and the same filter results as the document itself, for every selection and for the
  filters whose paths end at values, as long as no key is the beginning of another.
\<close>

theorem buffered_document_agrees:
  assumes "bson_ok o1" "bson_apart o1"
  shows "\<exists>es. new_buffered (writeBSON o1 @ r) = Inr (es, length (writeBSON o1)) \<and>
    (\<forall>sel. buffered_select sel es = bson_select sel o1) \<and>
    (\<forall>root. filter_safe root o1 \<longrightarrow> buffered_match root es = filter_match root o1)"
proof -
  have o1: "elements_ok o1" "int32_size (length o1)" "bson_sorted o1" using assms(1) by (auto simp: bson_ok_def)
  from new_buffered_write [OF o1(1,2), of r] obtain es where
    "new_buffered (writeBSON o1 @ r) = Inr (es, length (writeBSON o1))" "lies o1 es" by blast
  with buffered_select_eq [OF this(2) o1(1) assms(2) o1(3)] buffered_match_eq [OF this(2) o1(1) assms(2)] show ?thesis
    by (auto simp: filter_match_def)
qed

theorem buffered_document_agrees_witness:
  "\<exists>es. new_buffered (writeBSON sample_doc @ ''rest'') = Inr (es, length (writeBSON sample_doc)) \<and>
    buffered_select ''*'' es = bson_select ''*'' sample_doc \<and>
    buffered_match (Some (Binary FO_EQUALS (Some (Simple ''inner.y'')) (Some (Constant (KChars ''txt''))))) es =
      filter_match (Some (Binary FO_EQUALS (Some (Simple ''inner.y'')) (Some (Constant (KChars ''txt''))))) sample_doc"
proof -
  have "bson_apart sample_doc" by (simp add: sample_doc_def front_def)
  moreover have "filter_safe (Some (Binary FO_EQUALS (Some (Simple ''inner.y'')) (Some (Constant (KChars ''txt''))))) sample_doc"
    by (simp add: filter_safe_def no_nul_def sample_doc_def getXpath.simps getContent_def)
  ultimately show ?thesis using buffered_document_agrees [OF sample_doc_ok, of "''rest''"] by blast
qed

text \<open>
  C37. BSONBufferedObj::getType compares a key over the length of each stored key, so it gives the type
  of the first stored key that is the beginning of the wanted one; getValue compares whole keys.
\<close>

theorem buffered_type_of_front:
  assumes "bson_ok o1" "getContent o1 key = Some c" "find (\<lambda>q. front (fst q) key) o1 = Some (k, c2)"
  shows "\<exists>es n v. new_buffered (writeBSON o1 @ r) = Inr (es, n) \<and>
    buffered_getValue es key = Inr (Some v) \<and> lies_value c v \<and> buffered_getType es key = Inr (buffered_type c2)"
proof -
  have o1: "elements_ok o1" "int32_size (length o1)" using assms(1) by (auto simp: bson_ok_def)
  from new_buffered_write [OF this, of r] obtain es where
    es: "new_buffered (writeBSON o1 @ r) = Inr (es, length (writeBSON o1))" "lies o1 es" by blast
  with lookup_value [OF es(2) o1(1), of key] lookup_type [OF es(2) o1(1) assms(3)] assms(2) show ?thesis by auto
qed

theorem buffered_type_of_front_witness:
  "\<exists>es n v. new_buffered (writeBSON [(''n'', CInt 1), (''name'', CString ''Ann'')] @ []) = Inr (es, n) \<and>
    buffered_getValue es ''name'' = Inr (Some v) \<and> lies_value (CString ''Ann'') v \<and>
    buffered_getType es ''name'' = Inr (buffered_type (CInt 1))"
  by (rule buffered_type_of_front)
    (simp_all add: bson_ok_def int32_size_def key_ok_def no_nul_def getContent_def front_def)

section \<open>The index\<close>

text \<open>
  C8. An index (BPlusIndexP) that is built by adding entries with different keys, in any order, finds
  for every key the element that was added under it and nothing for the other keys: it refines a map.
  No addition fails, whatever splits it needs.
\<close>

theorem index_refines_map:
  assumes "distinct (map fst xs)" "\<forall>x\<in>set xs. no_nul (fst x)"
  shows "\<exists>t. add_all index_add xs new_tree = Inr t \<and>
    (\<forall>key. no_nul key \<longrightarrow> index_find t key = Inr (map_of (map (\<lambda>x. (fst x, entry_elem x)) xs) key))"
  using bplus.built_index [OF assms] by blast

definition six_keys :: "(string \<times> string \<times> nat) list" where
  "six_keys = [(''f'', ''6'', 60), (''e'', ''5'', 50), (''d'', ''4'', 40), (''c'', ''3'', 30), (''b'', ''2'', 20), (''a'', ''1'', 10)]"

theorem index_refines_map_witness:
  "\<exists>t. add_all index_add six_keys new_tree = Inr t \<and> index_find t ''b'' = Inr (Some (entry_elem (''b'', ''2'', 20))) \<and>
    index_find t ''x'' = Inr None"
  using index_refines_map [of six_keys] by (auto simp: six_keys_def no_nul_def)

text \<open>
  C28. An update of a position (BPlusIndexP::update) is seen by the next search exactly if the key has
  no copy on an inner page; the copy that a split left there keeps the old position. Nothing else
  changes.
\<close>

theorem index_update_law:
  assumes "index_reach t" "index_find t key = Inr (Some e)"
  shows "\<exists>u. index_update key pos t = Inr (True, u) \<and> index_reach u \<and>
    index_find u key = Inr (Some (if promoted key t then e else e\<lparr>ie_posData := pos\<rparr>)) \<and>
    (\<forall>k. no_nul k \<longrightarrow> no_nul key \<longrightarrow> k \<noteq> key \<longrightarrow> index_find u k = index_find t k)"
proof -
  from index_update_find [OF index_reach_ok [OF assms(1)], of key pos] assms(2) obtain u where
    u: "index_update key pos t = Inr (True, u)" "\<forall>k. index_find u k = (if dk k = dk key \<and> \<not> promoted key t
       then bindR (index_find t k) (\<lambda>r. Inr (map_option (\<lambda>e. e\<lparr>ie_posData := pos\<rparr>) r)) else index_find t k)"
    by auto
  with reach_update [OF assms(1) u(1)] assms(2) show ?thesis by (auto simp: dk_inj)
qed

definition six_tree :: bptree where
  "six_tree = (case add_all index_add six_keys new_tree of Inr t \<Rightarrow> t | Inl _ \<Rightarrow> new_tree)"

lemma six_tree_reach: "index_reach six_tree"
proof -
  have "\<exists>u. add_all index_add six_keys new_tree = Inr u \<and> index_reach u"
    using bplus.look_none by (intro index_reach_built [OF reach_new]) (auto simp: six_keys_def no_nul_def)
  then show ?thesis by (auto simp: six_tree_def)
qed

lemma six_tree_found: "index_find six_tree ''c'' = Inr (Some (entry_elem (''c'', ''3'', 30)))"
  by code_simp

lemma six_tree_promoted: "promoted ''c'' six_tree"
  by code_simp

theorem index_update_law_witness:
  "promoted ''c'' six_tree \<and> (\<exists>u. index_update ''c'' 99 six_tree = Inr (True, u) \<and>
    index_find u ''c'' = Inr (Some (entry_elem (''c'', ''3'', 30))))"
  using index_update_law [OF six_tree_reach six_tree_found, of 99] six_tree_promoted by auto

section \<open>The index on disk\<close>

text \<open>
  C7. An index in a new file, with up to 20 entries whose ids fit a page: adding them (with the writes of
  pages, buffers and the control file that BPlusIndexP and BufferManager do) does not fail, and a later
  session that opens the file has the keys that were set and finds for every id the entry that was
  added under it and nothing for other ids, loading the pages on its way.
\<close>

theorem index_survives_restart:
  assumes "no_nul f" "int32_size (length f)" "fresh_disk f d" "4096 \<le> pageSize" "keys_fit pageSize keys"
    and "distinct (map fst xs)" "\<forall>x\<in>set xs. entry_fits x" "length xs \<le> 20" "\<forall>k\<in>set ks. no_nul k"
  shows "\<exists>st. bindR (index_run pageSize f keys d xs) (reopen pageSize f) = Inr st \<and> xf_keys (snd st) = keys \<and>
    (\<exists>st'. find_all_x ks st = Inr (map (map_of (map (\<lambda>x. (fst x, entry_elem x)) xs)) ks, st'))"
  using assms by (rule run_reopen)

theorem index_survives_restart_witness:
  "\<exists>st. bindR (index_run 4096 ''db_people.idx'' [''_id''] (\<lambda>_ _. CHR 0x00) six_keys) (reopen 4096 ''db_people.idx'') = Inr st \<and>
    xf_keys (snd st) = [''_id''] \<and>
    (\<exists>st'. find_all_x [''b'', ''x''] st = Inr ([Some (entry_elem (''b'', ''2'', 20)), None], st'))"
  using index_survives_restart [of "''db_people.idx''" "\<lambda>_ _. CHR 0x00" 4096 "[''_id'']" six_keys "[''b'', ''x'']"]
  by (simp add: six_keys_def no_nul_def int32_size_def fresh_disk_def keys_fit_def length_write_chars entry_fits_def
      elem_fits_def entry_elem_def)

text \<open>
  C21. One entry more can be too many: when an addition splits a leaf whose parent is full, the leaf and
  its new sibling get different parents, and only the parent of the old one is written again
  (BPlusIndexP::splitAddLeaf). With these 21 entries the running session finds one of them that the
  session after it does not.
\<close>

theorem split_loses_entries:
  assumes "no_nul f" "int32_size (length f)" "fresh_disk f d" "4096 \<le> pageSize" "keys_fit pageSize keys"
  shows "\<exists>t x st st'. index_run pageSize f keys d lost_entries = Inr (t, x) \<and>
    index_find t ''g'' = Inr (Some (entry_elem (''g'', ''d'', 7))) \<and>
    reopen pageSize f (t, x) = Inr st \<and> index_find_x ''g'' st = Inr (None, st')"
  using assms by (rule lost_reopen)

theorem split_loses_entries_witness:
  "\<exists>t x st st'. index_run 4096 ''db_people.idx'' [''_id''] (\<lambda>_ _. CHR 0x00) lost_entries = Inr (t, x) \<and>
    index_find t ''g'' = Inr (Some (entry_elem (''g'', ''d'', 7))) \<and>
    reopen 4096 ''db_people.idx'' (t, x) = Inr st \<and> index_find_x ''g'' st = Inr (None, st')"
  by (rule split_loses_entries)
    (simp_all add: no_nul_def int32_size_def fresh_disk_def keys_fit_def length_write_chars)

section \<open>The files of the database\<close>

lemma manager_start: "manager_ok (sm_start (\<lambda>_. None))"
  by (auto simp: manager_ok_def sm_start_def dir_ok_def openable_def streams_ok_def nested_sorted_def created_refl nested_get_def nested_at_def
      names_ok_def saved_def intro!: exI [of _ "\<lambda>_. None"])

text \<open>
  C15. Whatever streams a session opens (a data file before its index file), the process that starts
  next on the same directory (DBController::initialize over the catalog that StreamManager saved) has
  the same databases, namespaces and files open, and every stream whose file was there counts its
  positions from behind the mark.
\<close>

theorem restart_keeps_streams:
  assumes "manager_ok m" "requests_ok {} reqs"
  shows "\<exists>m2 m3. open_all reqs m = Inr m2 \<and> restart m2 = Inr m3 \<and> manager_ok m3 \<and> sm_spaces m3 = sm_spaces m2 \<and>
    (\<forall>(db, ns, type)\<in>set reqs. \<exists>s. sm_streams m3 (db, ns, type) = Some s \<and>
      (sm_files m2 (sm_path m2 db ns type) \<noteq> None \<longrightarrow> ds_offset s = 29))"
proof -
  from manager_open_all [OF assms] obtain m2 where m2: "open_all reqs m = Inr m2" "manager_ok m2"
    "\<forall>(db, ns, type)\<in>set reqs. type \<in> set (nested_get (sm_spaces m2) db ns)" by auto
  from restart_ok [OF m2(2)] obtain m3 where m3: "restart m2 = Inr m3" "manager_ok m3" "sm_spaces m3 = sm_spaces m2"
    "streams_ok (sm_files m2) m3" "sm_dataDir m3 = sm_dataDir m2" by blast
  from m3(4) have "\<exists>s. sm_streams m3 (db, ns, type) = Some s \<and> (sm_files m2 (sm_path m2 db ns type) \<noteq> None \<longrightarrow> ds_offset s = 29)"
    if "(db, ns, type) \<in> set reqs" for db ns type
    using that m2(3) m3(3,5) unfolding streams_ok_def sm_path_def by fastforce
  with m2(1) m3 show ?thesis by blast
qed

theorem restart_keeps_streams_witness:
  "\<exists>m2 m3. open_all [(''shop'', ''people'', DATA_FTYPE), (''shop'', ''people'', INDEX_FTYPE)] (sm_start (\<lambda>_. None)) = Inr m2 \<and>
    restart m2 = Inr m3 \<and> sm_spaces m3 = sm_spaces m2"
  using restart_keeps_streams [OF manager_start, of "[(''shop'', ''people'', DATA_FTYPE), (''shop'', ''people'', INDEX_FTYPE)]"]
  by (auto simp: name_ok_def no_nul_def int32_size_def)

text \<open>
  C27. StreamManager::dropNamespace takes the namespace out of the list and removes its data file, but
  it does not save the catalog: the process that starts next has the namespace again.
\<close>

theorem dropped_namespace_returns:
  assumes "manager_ok m" "name_ok db" "name_ok ns"
  shows "\<exists>m2 m3. sm_dropNamespace db ns m = Inr (True, m2) \<and> nested_get (sm_spaces m2) db ns = [] \<and>
    sm_files m2 (sm_path m db ns DATA_FTYPE) = None \<and> restart m2 = Inr m3 \<and>
    {DATA_FTYPE, INDEX_FTYPE} \<subseteq> set (nested_get (sm_spaces m3) db ns)"
  by (rule drop_then_restart [OF assms])

theorem dropped_namespace_returns_witness:
  "\<exists>m2 m3. sm_dropNamespace ''shop'' ''people'' (sm_start (\<lambda>_. None)) = Inr (True, m2) \<and> restart m2 = Inr m3 \<and>
    DATA_FTYPE \<in> set (nested_get (sm_spaces m3) ''shop'' ''people'')"
  using dropped_namespace_returns [OF manager_start, of "''shop''" "''people''"]
  by (auto simp: name_ok_def no_nul_def int32_size_def)

text \<open>
  The stream that creates a file counts positions from the start of the file, the stream that
  opens it after a restart counts them from behind the mark: seeking to the same position leads to
  bytes that are 29 apart.
\<close>

theorem positions_shift_after_restart:
  assumes "manager_ok m" "request_ok db ns type m" "type \<notin> set (nested_get (sm_spaces m) db ns)"
    and "sm_files m (sm_path m db ns type) = None"
  shows "\<exists>m2 s m3 s'. sm_open db ns type m = Inr m2 \<and> sm_streams m2 (db, ns, type) = Some s \<and>
    restart m2 = Inr m3 \<and> sm_streams m3 (db, ns, type) = Some s' \<and>
    (\<forall>i. ds_pos (ds_seek i s) = i \<and> ds_pos (ds_seek i s') = i + 29)"
  using fresh_offset [OF assms] by (fastforce simp: ds_seek_def)

theorem positions_shift_after_restart_witness:
  "\<exists>m2 s m3 s'. sm_open ''shop'' ''people'' DATA_FTYPE (sm_start (\<lambda>_. None)) = Inr m2 \<and>
    sm_streams m2 (''shop'', ''people'', DATA_FTYPE) = Some s \<and> restart m2 = Inr m3 \<and>
    sm_streams m3 (''shop'', ''people'', DATA_FTYPE) = Some s' \<and> ds_pos (ds_seek 100 s) = 100 \<and> ds_pos (ds_seek 100 s') = 129"
  using positions_shift_after_restart [OF manager_start, of "''shop''" "''people''" DATA_FTYPE]
  by (fastforce simp: request_ok_def name_ok_def no_nul_def int32_size_def sm_start_def nested_get_def nested_at_def)

section \<open>The database\<close>


definition person :: "string \<Rightarrow> int32 \<Rightarrow> bson" where
  "person docId age = [(''_id'', CString docId), (''_revision'', CString ''r1''), (''_status'', CInt 1), (''age'', CInt age)]"

definition on_people :: "tx_action \<Rightarrow> tx_operation" where
  "on_people action = \<lparr>op_db = ''shop'', op_ns = ''people'', op_action = action\<rparr>"


lemma person_get: "getContent (person d a) k = (if k = ''_id'' then Some (CString d) else
    if k = ''_revision'' then Some (CString ''r1'') else if k = ''_status'' then Some (CInt 1) else
    if k = ''age'' then Some (CInt a) else None)"
  by (auto simp: getContent_def person_def)

lemma person_facts:
  assumes "no_nul d" "length d < 100"
  shows "bson_ok (person d a)" "map_sorted (person d a)" "doc_id (person d a) = d"
    "doc_revision (person d a) = ''r1''" "live (person d a)" "doc_ok (person d a)" "bson_apart (person d a)"
    "storable (person d a)" "bson_has (person d a) ''_id''" "bson_has (person d a) ''_revision''"
proof -
  show ok: "bson_ok (person d a)" using assms
    by (simp add: person_def bson_ok_def int32_size_def key_ok_def no_nul_def)
  have r1: "no_nul ''r1''" by (simp add: no_nul_def)
  from ok show s: "map_sorted (person d a)" by (simp add: bson_ok_def)
  show l: "live (person d a)" by (simp add: live_def person_get)
  show i: "doc_id (person d a) = d" "doc_revision (person d a) = ''r1''"
    using assms(1) r1 by (simp_all add: doc_id_def doc_revision_def getString_def getDJString_def person_get)
  with s i assms(1) r1 show "doc_ok (person d a)" by (simp add: doc_ok_def getString_def getDJString_def person_get)
  show "bson_apart (person d a)" by (simp add: person_def front_def)
  show "storable (person d a)"
    using ok s assms(1) by (simp add: storable_def live_in_store [OF s l] record_ok_def person_get)
  show "bson_has (person d a) ''_id''" "bson_has (person d a) ''_revision''"
    by (simp_all add: bson_has_def person_def)
qed


lemma sample_view: "docs_step (on_people action) D ''shop'' ''people'' = view_step (in_store action) (D ''shop'' ''people'')"
  by (simp add: docs_step_def on_people_def)

lemma on_people_sel: "op_db (on_people action) = ''shop''" "op_ns (on_people action) = ''people''" "op_action (on_people action) = action"
  by (simp_all add: on_people_def)

lemma sample_names: "no_nul ''d1''" "no_nul ''d2''" "no_nul ''shop''" "plain ''people''"
  by (simp_all add: no_nul_def plain_def)

lemma person_in_store: "no_nul d \<Longrightarrow> length d < 100 \<Longrightarrow> with_status 1 (person d a) = person d a"
  by (simp add: live_in_store person_facts)






text \<open>A run of two transactions for the witnesses.\<close>

definition one_op :: tx_operation where
  "one_op = on_people (TxInsert (person ''d1'' 36))"



lemma one_op_ok: "operation_ok one_op" "length (log_entry one_op) \<le> 4096" "run_ok no_docs {} {} [one_op]"
proof -
  have len: "length (record_bytes one_op) < 4000"
    by (simp add: one_op_def on_people_def record_bytes_def record_pieces_def operation_bytes_def operation_pieces_def c_str_def
        person_def writeBSON_def bson_length_def)
  then show "operation_ok one_op" "length (log_entry one_op) \<le> 4096"
    by (simp_all add: operation_ok_def) (simp add: one_op_def on_people_def person_facts sample_names no_nul_def)
  show "run_ok no_docs {} {} [one_op]"
    by (simp add: one_op_def op_ok_def on_people_sel person_facts sample_names)
qed




text \<open>
  C24. DBController::remove takes any revision for the right one: a removal that names another revision
  than the document has removes it from the files, although the transaction that asked for it still saw
  the document (BaseTransaction::find compares the revisions).
\<close>

theorem removal_ignores_revision:
  assumes "holds_docs st D U S" "plain ns" "no_nul key" "(db, ns, key) \<notin> S"
    and "\<forall>r\<in>set (D db ns). doc_id r = key \<longrightarrow> doc_revision r \<noteq> rev_no"
  shows "\<exists>st2. ctl_remove no_index_files db ns key rev_no st = Inr st2 \<and>
    holds_docs st2 (\<lambda>d n. if (d, n) = (db, ns) then filter (\<lambda>r. doc_id r \<noteq> key) (D db ns) else D d n) U S \<and>
    view_step (TxRemove key rev_no) (D db ns) = D db ns"
proof -
  have "view_step (TxRemove key rev_no) (D db ns) = D db ns" using assms(5) by auto
  with remove_any_revision [OF assms(1-4), of rev_no] show ?thesis by blast
qed

theorem removal_ignores_revision_witness:
  "\<exists>st st2 U S. perform_all (ctl_perform no_index_files) [one_op] new_store = Inr st \<and>
    ctl_remove no_index_files ''shop'' ''people'' ''d1'' ''other'' st = Inr st2 \<and>
    holds_docs st2 (\<lambda>d n. if (d, n) = (''shop'', ''people'') then [] else docs_run [one_op] no_docs d n) U S"
proof -
  from perform_run [OF new_store_holds one_op_ok(3)] obtain st where st: "perform_all (ctl_perform no_index_files) [one_op] new_store = Inr st"
    "holds_docs st (docs_run [one_op] no_docs) (fold used_step [one_op] {}) {}"
    by (auto simp: stale_step_def one_op_def on_people_sel)
  have docs: "docs_run [one_op] no_docs ''shop'' ''people'' = [person ''d1'' 36]"
    by (simp add: docs_run_def one_op_def sample_view person_in_store sample_names view_put_def)
  have "\<forall>r\<in>set (docs_run [one_op] no_docs ''shop'' ''people''). doc_id r = ''d1'' \<longrightarrow> doc_revision r \<noteq> ''other''"
    by (simp add: docs person_facts sample_names)
  note removed = removal_ignores_revision [OF st(2) sample_names(4,1) _ this]
  have none: "filter (\<lambda>r. doc_id r \<noteq> ''d1'') (docs_run [one_op] no_docs ''shop'' ''people'') = []"
    by (simp add: docs person_facts sample_names)
  show ?thesis using removed st(1) unfolding none by blast
qed

text \<open>
  C22. Once a split of the index has promoted an id to an inner page, the second update of its document
  marks the record that the first one had marked already: both new versions are active, and a find
  returns the document twice.
\<close>

theorem second_update_keeps_both:
  assumes "store_shows st R S" "plain ns" "docId \<in> doc_id ` set (R db ns)" "promoted docId (id_tree (dt_indexes st) db ns)"
    and "storable obj1" "doc_id obj1 = docId" "storable obj2" "doc_id obj2 = docId"
  shows "\<exists>st1 st2 R2 S2. ctl_update no_index_files db ns obj1 st = Inr st1 \<and> ctl_update no_index_files db ns obj2 st1 = Inr st2 \<and>
    store_shows st2 R2 S2 \<and> (\<exists>docs. docs_of (R2 db ns) = docs @ [with_status 1 obj1, with_status 1 obj2])"
  by (rule second_update_adds [OF assms])

definition six_people :: "bson list" where
  "six_people = map (\<lambda>c. person [c] 30) ''abcdef''"

lemma six_people_ids: "map doc_id six_people = [''a'', ''b'', ''c'', ''d'', ''e'', ''f'']"
  by (simp add: six_people_def person_facts no_nul_def)

lemma six_people_promoted:
  "case add_all index_add [(''a'', ''a'', p1), (''b'', ''b'', p2), (''c'', ''c'', p3), (''d'', ''d'', p4), (''e'', ''e'', p5), (''f'', ''f'', p6)]
     new_tree of Inr t \<Rightarrow> promoted ''c'' t | Inl _ \<Rightarrow> False"
  by code_simp

lemma new_store_shows: "store_shows new_store no_docs {}" "id_tree (dt_indexes new_store) db ns = new_tree"
proof -
  show t: "id_tree (dt_indexes new_store) db ns = new_tree" for db ns by (simp add: id_tree_def new_store_def)
  then show "store_shows new_store no_docs {}"
    by (simp add: store_shows_def ns_shows_def index_shows_new) (simp add: new_store_def sm_start_def)
qed

theorem second_update_keeps_both_witness:
  "\<exists>st st1 st2 R2 S2 docs. perform_all (ctl_perform no_index_files) (map (insert_into ''shop'' ''people'') six_people) new_store = Inr st \<and>
    ctl_update no_index_files ''shop'' ''people'' (person ''c'' 31) st = Inr st1 \<and>
    ctl_update no_index_files ''shop'' ''people'' (person ''c'' 32) st1 = Inr st2 \<and> store_shows st2 R2 S2 \<and>
    docs_of (R2 ''shop'' ''people'') = docs @ [person ''c'' 31, person ''c'' 32]"
proof -
  have c: "no_nul ''c''" by (simp add: no_nul_def)
  have "\<forall>obj\<in>set six_people. storable obj \<and> bson_has obj ''_id'' \<and> bson_has obj ''_revision''"
    by (auto simp: six_people_def person_facts no_nul_def)
  moreover have "distinct (map doc_id six_people)" by (simp add: six_people_ids)
  ultimately obtain st R2 ps where st: "perform_all (ctl_perform no_index_files) (map (insert_into ''shop'' ''people'') six_people) new_store = Inr st"
    "store_shows st R2 {}" "R2 ''shop'' ''people'' = map (with_status 1) six_people" "length ps = length six_people"
    "add_all index_add (map2 (\<lambda>obj p. (doc_id obj, doc_id obj, p)) six_people ps) new_tree = Inr (id_tree (dt_indexes st) ''shop'' ''people'')"
    using inserts_index [OF new_store_shows(1) sample_names(4), of six_people "''shop''"] by (auto simp: new_store_shows(2))
  obtain p1 p2 p3 p4 p5 p6 where "ps = [p1, p2, p3, p4, p5, p6]"
    using st(4) by (auto simp: six_people_def length_Suc_conv)
  then have "map2 (\<lambda>obj p. (doc_id obj, doc_id obj, p)) six_people ps =
      [(''a'', ''a'', p1), (''b'', ''b'', p2), (''c'', ''c'', p3), (''d'', ''d'', p4), (''e'', ''e'', p5), (''f'', ''f'', p6)]"
    by (simp add: six_people_def person_facts no_nul_def)
  with st(5) six_people_promoted [of p1 p2 p3 p4 p5 p6] have "promoted ''c'' (id_tree (dt_indexes st) ''shop'' ''people'')" by simp
  moreover have "''c'' \<in> doc_id ` set (R2 ''shop'' ''people'')"
    unfolding st(3) by (simp add: six_people_def person_in_store person_facts no_nul_def)
  ultimately obtain st1 st2 R3 S3 docs where
    "ctl_update no_index_files ''shop'' ''people'' (person ''c'' 31) st = Inr st1"
    "ctl_update no_index_files ''shop'' ''people'' (person ''c'' 32) st1 = Inr st2" "store_shows st2 R3 S3"
    "docs_of (R3 ''shop'' ''people'') = docs @ [person ''c'' 31, person ''c'' 32]"
    using second_update_keeps_both [OF st(2) sample_names(4), of "''c''" "''shop''" "person ''c'' 31" "person ''c'' 32"]
    by (auto simp: person_facts person_in_store c)
  with st(1) show ?thesis by blast
qed

text \<open>
  C23. A find by the index over the ids (DBController::find, DBFileInputStream) gives no document that a
  filter rules out, but it reads each record 29 bytes behind the position that the index holds, and reads
  removed records too: that is the record only if the stream that wrote the position counted from behind
  the mark of the file (offset 29, after a restart), not in the session that created the file (offset 0).
\<close>

theorem find_by_index_position:
  assumes "store_shows st R S" "plain ns" "stream_shows (dt_streams st) db ns s (R db ns)"
    and "if_containsIndex db ns [''_id''] (dt_indexes st)" "parse filt = Inr (root, [''_id''])"
    and "\<forall>i. filter_match root [(''_id'', CString i)] = Inr (M i)"
  shows "\<exists>(es :: index_elem list) f2. ctl_find no_index_files parse smax db ns sel filt options st =
      bindR (mapR (\<lambda>e. bindR (readBSON sel (drop (29 + ie_posData e) (data_bytes (R db ns)))) (\<lambda>(obj, _). Inr obj)) es)
        (\<lambda>result. Inr (result, st\<lparr>dt_indexes := f2\<rparr>)) \<and>
    (\<forall>r\<in>set (R db ns). M (doc_id r) \<longrightarrow> (\<exists>e\<in>set es. \<exists>i<length (R db ns).
      ds_offset s + ie_posData e = record_at (R db ns) i \<and> doc_id (R db ns ! i) = doc_id r))"
  by (rule find_by_index [where R = R and parse = parse, OF assms(1-5)]) (use assms(6) in simp)

lemma index_there: "id_tree f db ns \<noteq> new_tree \<Longrightarrow> if_containsIndex db ns [''_id''] f"
  by (auto simp: id_tree_def if_containsIndex_def nested_get_def nested_at_def split: option.splits)

definition id_filter :: "expr option" where
  "id_filter = Some (Binary FO_EQUALS (Some (Simple ''_id'')) (Some (Constant (KChars ''d1''))))"

lemma id_filter_match: "filter_match id_filter [(''_id'', CString i)] = Inr (dj_equal i ''d1'')"
  by (simp add: id_filter_def filter_match_def filter_eval_def match_result_def present_def eval_simple_def getXpath.simps
      getContent_def binary_result_def evalEqual_def Let_def as_djstring_def c_str_def)

theorem find_by_index_position_witness:
  "\<exists>st s r (es :: index_elem list) f2. perform_all (ctl_perform no_index_files) [insert_into ''shop'' ''people'' (person ''d1'' 36)] new_store = Inr st \<and>
    stream_shows (dt_streams st) ''shop'' ''people'' s [r] \<and>
    ctl_find no_index_files (\<lambda>_. Inr (id_filter, [''_id''])) [] ''shop'' ''people'' ''*'' [] None st =
      bindR (mapR (\<lambda>e. bindR (readBSON ''*'' (drop (29 + ie_posData e) (data_bytes [r]))) (\<lambda>(obj, _). Inr obj)) es)
        (\<lambda>result. Inr (result, st\<lparr>dt_indexes := f2\<rparr>)) \<and>
    (\<exists>e\<in>set es. ds_offset s + ie_posData e = 29)"
proof -
  let ?d = "person ''d1'' 36"
  have "\<forall>obj\<in>set [?d]. storable obj \<and> bson_has obj ''_id'' \<and> bson_has obj ''_revision''" by (simp add: person_facts sample_names)
  from inserts_index [OF new_store_shows(1) sample_names(4) this, of "''shop''"] obtain st R p where st:
    "perform_all (ctl_perform no_index_files) [insert_into ''shop'' ''people'' ?d] new_store = Inr st" "store_shows st R {}"
    "R ''shop'' ''people'' = [?d]" by (auto simp: person_in_store sample_names)
  obtain s where s: "stream_shows (dt_streams st) ''shop'' ''people'' s [?d]"
    "index_shows (ds_offset s) [?d] (id_tree (dt_indexes st) ''shop'' ''people'')"
    by (rule store_stream [OF st(2) sample_names(4) records_open [OF st(2) sample_names(4)], of "''shop''"]) (simp_all add: st(3))
  have "index_find (id_tree (dt_indexes st) ''shop'' ''people'') ''d1'' \<noteq> Inr None"
    using s(2) sample_names(1) unfolding index_shows_def by (fastforce simp: person_facts)
  then have "id_tree (dt_indexes st) ''shop'' ''people'' \<noteq> new_tree" using bplus.look_none by metis
  then have there: "if_containsIndex ''shop'' ''people'' [''_id''] (dt_indexes st)" by (rule index_there)
  have "dj_equal ''d1'' ''d1''" by (simp add: dj_equal_def)
  moreover have "stream_shows (dt_streams st) ''shop'' ''people'' s (R ''shop'' ''people'')" using s(1) by (simp add: st(3))
  moreover have "\<forall>i. filter_match id_filter [(''_id'', CString i)] = Inr (dj_equal i ''d1'')" using id_filter_match by blast
  ultimately obtain es :: "index_elem list" and f2 where "ctl_find no_index_files (\<lambda>_. Inr (id_filter, [''_id''])) [] ''shop'' ''people'' ''*'' [] None st =
      bindR (mapR (\<lambda>e. bindR (readBSON ''*'' (drop (29 + ie_posData e) (data_bytes [?d]))) (\<lambda>(obj, _). Inr obj)) es)
        (\<lambda>result. Inr (result, st\<lparr>dt_indexes := f2\<rparr>))"
    "\<forall>r\<in>set [?d]. dj_equal (doc_id r) ''d1'' \<longrightarrow> (\<exists>e\<in>set es. \<exists>i<length [?d].
      ds_offset s + ie_posData e = record_at [?d] i \<and> doc_id ([?d] ! i) = doc_id r)"
    using find_by_index_position [OF st(2) sample_names(4) _ there, of s "\<lambda>_. Inr (id_filter, [''_id''])" "[]" id_filter
      "\<lambda>i. dj_equal i ''d1''" "[]" "''*''" None, unfolded st(3)] unfolding st(3) by blast
  moreover from this(2) \<open>dj_equal ''d1'' ''d1''\<close> have "\<exists>e\<in>set es. ds_offset s + ie_posData e = 29"
    by (simp add: person_facts sample_names record_at_def)
  ultimately show ?thesis using st(1) s(1) by blast
qed

section \<open>Clients\<close>

text \<open>
  C4. Every call of DjondbConnection that writes or ends a transaction is, over the bytes of the
  protocol and the dispatch of NetworkService::executeRequest, exactly the beginning of the transaction
  (if it has none yet) and one operation of the transactions behind the server; an error there is the
  error of the call. The server keeps running.
\<close>

theorem client_calls_are_events:
  assumes "in_transaction tid c" "call_ok call"
  shows "client_write (serve_request env) call c (serving (sys, st) r) =
      bindR (sys_events perform (env_pages env) [Begin tid, Write tid (call_operation call)] (sys, st)) (\<lambda>x. Inr (True, serving x r)) \<and>
    conn_commitTransaction (serve_request env) c (serving (sys, st) r) =
      bindR (sys_events perform (env_pages env) [Begin tid, Commit tid] (sys, st))
        (\<lambda>x. Inr (c\<lparr>cn_transaction := None\<rparr>, serving x r)) \<and>
    conn_rollbackTransaction (serve_request env) c (serving (sys, st) r) =
      bindR (sys_events perform (env_pages env) [Begin tid, Rollback tid] (sys, st))
        (\<lambda>x. Inr (c\<lparr>cn_transaction := None\<rparr>, serving x r))"
  using client_write_events [OF assms] client_end_events [OF assms(1)] by blast

definition sample_env :: service_env where
  "sample_env = \<lparr>env_pages = 4096, env_parse = (\<lambda>_. Inr (None, [])), env_max_results = [], env_id = ''x'', env_revision = ''y''\<rparr>"

definition sample_client :: connection where
  "sample_client = snd (conn_open 7 (new_connection ''localhost'' 1243))"

definition sample_call :: client_call where
  "sample_call = Call_insert ''u'' ''v'' ''shop'' ''people'' (person ''d1'' 36)"

lemma sample_client_in: "length tid < 9 \<Longrightarrow> no_nul tid \<Longrightarrow> in_transaction tid (conn_beginTransaction tid sample_client)"
  by (simp add: in_transaction_def sample_client_def conn_open_def new_connection_def conn_beginTransaction_def text_ok_def int32_size_def)

lemma sample_call_ok: "call_ok sample_call" "call_operation sample_call = one_op"
proof -
  have s: "bson_sorted (person ''d1'' 36)" using person_facts(1) [of "''d1''" 36] by (simp add: bson_ok_def sample_names)
  have sent: "sent_document ''u'' ''v'' (person ''d1'' 36) = person ''d1'' 36"
    using s by (simp add: sent_document_def copy_bson_id person_facts sample_names Let_def)
  have filled: "fillRequiredFields [] [] (person ''d1'' 36) = person ''d1'' 36"
    using person_in_store [of "''d1''" 36] by (simp add: fillRequiredFields_def person_facts sample_names with_status_def Let_def)
  show "call_operation sample_call = one_op"
    by (simp add: sample_call_def sent filled one_op_def on_people_def)
  show "call_ok sample_call" using s person_facts(1) [of "''d1''" 36]
    by (simp add: sample_call_def sent sample_names text_ok_def int32_size_def)
qed

theorem client_calls_are_events_witness:
  "client_write (serve_request sample_env) sample_call (conn_beginTransaction ''a'' sample_client) (serving (sys_start empty_disk 4096, new_store) True) =
    bindR (sys_events (ctl_perform no_index_files) 4096 [Begin ''a'', Write ''a'' one_op] (sys_start empty_disk 4096, new_store))
      (\<lambda>x. Inr (True, serving x True))"
  using client_calls_are_events [OF sample_client_in sample_call_ok(1), of "''a''" sample_env "sys_start empty_disk 4096" new_store True "ctl_perform no_index_files"]
  by (simp add: sample_call_ok(2) sample_env_def no_nul_def del: sys_events.simps)




text \<open>
  C31. DjondbConnectionManager looks connections up by host and port but keeps them by host: a second
  connection to a host is a new one that is not kept, and closing it closes the streams of the first,
  which another part of the process may be using, while its own streams stay open.
\<close>

theorem closing_closes_the_first:
  assumes "cm_inv m" "map_find (cm_connections m) host = Some (refs, p)" "cm_heap m p = Some c1" "cn_open c1"
    and "map_find (cm_connections m) (host_key host port) = None" "socket > 0"
  shows "\<exists>q m2 m3 m4. getConnection host port m = Inr (q, m2) \<and> q \<noteq> p \<and> cm_open socket q m2 = Inr (True, m3) \<and>
    cm_close q m3 = Inr m4 \<and> cm_inv m4 \<and> cm_heap m4 p = Some (c1\<lparr>cn_streams := False, cn_open := False\<rparr>) \<and>
    (\<exists>c2. cm_heap m4 q = Some c2 \<and> cn_streams c2 \<and> \<not> cn_open c2)"
proof -
  obtain q m2 where g: "getConnection host port m = Inr (q, m2)" "(q, m2) = create_connection host port m"
    using getConnection_new [OF assms(5)] by (metis prod.collapse)
  have sorted: "map_sorted (cm_connections m)" using assms(1) by (simp add: cm_inv_def)
  have m2: "q = cm_next m" "cm_heap m2 = (cm_heap m)(q \<mapsto> new_connection host port)"
    "map_find (cm_connections m2) host = Some (refs, p)"
    using g(2) assms(2) sorted by (simp_all add: create_connection_def Let_def map_find_insert)
  have qp: "q \<noteq> p" using cm_inv_address [OF assms(1,3)] m2(1) by simp
  define c2 where "c2 = (new_connection host port)\<lparr>cn_streams := True, cn_open := True\<rparr>"
  have o: "cm_open socket q m2 = Inr (True, cm_set q c2 m2)"
    using assms(6) m2(2) by (simp add: cm_open_def cm_connection_def conn_open_def c2_def)
  have inv: "cm_inv (cm_set q c2 m2)" by (rule cm_open_inv [OF getConnection_inv [OF assms(1) g(1)] o])
  have "\<exists>m4. cm_close q (cm_set q c2 m2) = Inr m4 \<and> cm_heap m4 p = Some (c1\<lparr>cn_streams := False, cn_open := False\<rparr>) \<and>
      cm_heap m4 q = Some (c2\<lparr>cn_open := False\<rparr>) \<and> map_find (cm_connections m4) (cn_host c2) = None"
    by (rule close_closes_first [OF inv, of c2 refs p c1 q])
      (use m2 qp assms(3,4) in \<open>simp_all add: cm_set_def c2_def new_connection_def\<close>)
  then obtain m4 where m4: "cm_close q (cm_set q c2 m2) = Inr m4" "cm_heap m4 p = Some (c1\<lparr>cn_streams := False, cn_open := False\<rparr>)"
    "cm_heap m4 q = Some (c2\<lparr>cn_open := False\<rparr>)" by blast
  with g(1) qp o cm_close_inv [OF inv m4(1)] show ?thesis by (auto simp: c2_def)
qed

theorem closing_closes_the_first_witness:
  "\<exists>p m q m2 m3 m4 c1. getConnection ''h'' 1243 cm_start = Inr (p, m) \<and> getConnection ''h'' 1244 m2 = Inr (q, m3) \<and> q \<noteq> p \<and>
    cm_open 7 p m = Inr (True, m2) \<and> cm_heap m4 p = Some c1 \<and> \<not> cn_streams c1 \<and> cm_inv m4"
proof -
  define m where "m = snd (create_connection ''h'' 1243 cm_start)"
  have g: "getConnection ''h'' 1243 cm_start = Inr (0, m)"
    by (simp add: getConnection_def cm_start_def m_def create_connection_def Let_def)
  have inv: "cm_inv m" by (rule getConnection_inv [OF cm_inv_start g])
  define c where "c = (new_connection ''h'' 1243)\<lparr>cn_streams := True, cn_open := True\<rparr>"
  have o: "cm_open 7 0 m = Inr (True, cm_set 0 c m)"
    by (simp add: cm_open_def cm_connection_def conn_open_def m_def c_def create_connection_def cm_start_def Let_def)
  have f: "cm_heap (cm_set 0 c m) 0 = Some c" "map_find (cm_connections (cm_set 0 c m)) ''h'' = Some (1, 0)"
    "map_find (cm_connections (cm_set 0 c m)) (host_key ''h'' 1244) = None"
    by (simp_all add: cm_set_def m_def create_connection_def cm_start_def Let_def host_key_def)
  have "cn_open c" by (simp add: c_def)
  from closing_closes_the_first [OF cm_open_inv [OF inv o] f(2,1) this f(3), of 8] g o show ?thesis by fastforce
qed

end
